(* ===== verification/Prelude.thy ===== *)
theory Prelude
  imports Main "HOL-Library.Word"
begin

unbundle bit_operations_syntax

text \<open>
  Shared vocabulary of the development: the machine integers and byte strings of the C code,
  its result codes (\<open>zupt_error_t\<close> of \<open>include/zupt.h\<close>), the little-endian accessors of the
  same header, the comparison primitive of \<open>src/zupt_ct.c\<close>, and the generic facts about
  words, bytes and lists that the component theories share.

  Conventions. A buffer \<open>const uint8_t *p, size_t n\<close> is a list of bytes; \<open>size_t\<close> values are
  natural numbers (every component states the bound that keeps them below \<open>2 ^ 64\<close> where the
  code could wrap); \<open>uintN_t\<close> values are words of that width, so their arithmetic wraps as in
  C. A function that fails returns \<open>Inl\<close> of the error code or \<open>None\<close>.
\<close>

type_synonym u8 = "8 word"
type_synonym u16 = "16 word"
type_synonym u32 = "32 word"
type_synonym u64 = "64 word"
type_synonym bytes = "8 word list"

named_theorems wire "length and read-back facts of serialised fields"

section \<open>Result codes\<close>

datatype zupt_error_t =
    ZUPT_ERR_IO | ZUPT_ERR_CORRUPT | ZUPT_ERR_BAD_MAGIC | ZUPT_ERR_BAD_VERSION
  | ZUPT_ERR_BAD_CHECKSUM | ZUPT_ERR_NOMEM | ZUPT_ERR_OVERFLOW | ZUPT_ERR_INVALID
  | ZUPT_ERR_NOT_FOUND | ZUPT_ERR_UNSUPPORTED | ZUPT_ERR_AUTH_FAIL

type_synonym 'a result = "zupt_error_t + 'a"

definition rbind :: "'a result \<Rightarrow> ('a \<Rightarrow> 'b result) \<Rightarrow> 'b result" where
  "rbind r f = (case r of Inl e \<Rightarrow> Inl e | Inr a \<Rightarrow> f a)"

lemma rbind_simps [simp]: "rbind (Inl e) f = Inl e" "rbind (Inr a) f = f a"
  by (simp_all add: rbind_def)

lemma rbind_Inr_iff: "rbind r f = Inr b \<longleftrightarrow> (\<exists>a. r = Inr a \<and> f a = Inr b)"
  by (cases r) auto

section \<open>Little-endian fields\<close>

definition zupt_le16_put :: "u16 \<Rightarrow> bytes" where
  "zupt_le16_put v = [ucast (v AND 0xFF), ucast (drop_bit 8 v AND 0xFF)]"

definition zupt_le32_put :: "u32 \<Rightarrow> bytes" where
  "zupt_le32_put v =
     [ucast (v AND 0xFF), ucast (drop_bit 8 v AND 0xFF),
      ucast (drop_bit 16 v AND 0xFF), ucast (drop_bit 24 v AND 0xFF)]"

fun le64_put_loop :: "nat \<Rightarrow> u64 \<Rightarrow> bytes" where
  "le64_put_loop 0 v = []"
| "le64_put_loop (Suc n) v = ucast (v AND 0xFF) # le64_put_loop n (drop_bit 8 v)"

definition zupt_le64_put :: "u64 \<Rightarrow> bytes" where
  "zupt_le64_put v = le64_put_loop 8 v"

definition zupt_le16_get :: "bytes \<Rightarrow> u16" where
  "zupt_le16_get p = ucast (p ! 0) OR push_bit 8 (ucast (p ! 1))"

definition zupt_le32_get :: "bytes \<Rightarrow> u32" where
  "zupt_le32_get p =
     ucast (p ! 0) OR push_bit 8 (ucast (p ! 1)) OR
     push_bit 16 (ucast (p ! 2)) OR push_bit 24 (ucast (p ! 3))"

definition zupt_le64_get :: "bytes \<Rightarrow> u64" where
  "zupt_le64_get p = foldr (\<lambda>b v. push_bit 8 v OR ucast b) (take 8 p) 0"

lemma and_0xFF: "(v :: 'a::len word) AND 0xFF = take_bit 8 v"
proof -
  have "(0xFF :: 'a word) = mask 8" by (simp add: mask_eq_exp_minus_1)
  then show ?thesis by (simp add: take_bit_eq_mask)
qed

lemma ucast_byte_and_0xFF [simp]: "(ucast (v AND 0xFF) :: u8) = ucast (v :: 'a::len word)"
  by (rule bit_word_eqI) (auto simp: and_0xFF bit_simps)

lemma take_bit_full [simp]: "LENGTH('a) \<le> n \<Longrightarrow> take_bit n (v :: 'a::len word) = v"
  by (rule bit_word_eqI) (auto simp: bit_simps)

lemma unat_ucast_up [simp]:
  "LENGTH('b::len) \<le> LENGTH('a::len) \<Longrightarrow> unat (ucast (w :: 'b word) :: 'a word) = unat w"
  by (simp add: uint_up_ucast is_up flip: nat_uint_eq)

lemma uint_ucast_up [simp]:
  "LENGTH('b::len) \<le> LENGTH('a::len) \<Longrightarrow> uint (ucast (w :: 'b word) :: 'a word) = uint w"
  by (simp add: uint_up_ucast is_up)

lemma unat_lt2p: "unat (w :: 'a::len word) < 2 ^ LENGTH('a)"
  by (rule unsigned_less)

lemma drop_bit_word_eq_0_iff: "drop_bit n (w :: 'a::len word) = 0 \<longleftrightarrow> unat w < 2 ^ n"
proof -
  have "unat (drop_bit n w) = unat w div 2 ^ n"
    by (simp only: unat_drop_bit_eq drop_bit_eq_div [where 'a = nat])
  then show ?thesis
    by (metis div_eq_0_iff unat_eq_0 unat_0 power_not_zero zero_neq_numeral)
qed

lemma unat_drop_bit: "unat (drop_bit n (w :: 'a::len word)) = unat w div 2 ^ n"
  by (simp only: unat_drop_bit_eq drop_bit_eq_div [where 'a = nat])

lemma bit_unat_less:
  assumes "unat (w :: 'a::len word) < 2 ^ k" "bit w n" shows "n < k"
proof (rule ccontr)
  assume "\<not> n < k"
  then have "bit (drop_bit k w) (n - k)" using assms(2) by (simp add: bit_drop_bit_eq)
  moreover have "drop_bit k w = 0" using assms(1) by (simp add: drop_bit_word_eq_0_iff)
  ultimately show False by simp
qed

lemma take_or_push_drop: "take_bit k v OR push_bit k (drop_bit k v) = (v :: 'a::len word)"
proof (rule bit_word_eqI)
  fix n show "bit (take_bit k v OR push_bit k (drop_bit k v)) n \<longleftrightarrow> bit v n" if "n < LENGTH('a)"
    using that by (cases "n < k") (simp_all add: bit_simps)
qed

lemma push_bit_split_or:
  "push_bit s (take_bit k v) OR push_bit (s + k) (drop_bit k v) = push_bit s (v :: 'a::len word)"
  by (subst take_or_push_drop [of k v, symmetric])
     (simp only: push_bit_or push_bit_push_bit)

text \<open>Arithmetic on words respects equality of the low \<open>n\<close> bits.\<close>

lemma take_bit_word_add: "take_bit n (take_bit n a + take_bit n b) = take_bit n (a + b :: 'a::len word)"
  by transfer (simp add: take_bit_add)

lemma take_bit_word_diff: "take_bit n (take_bit n a - take_bit n b) = take_bit n (a - b :: 'a::len word)"
  by transfer (simp add: take_bit_diff)

lemma cong_add: "take_bit n a = take_bit n b \<Longrightarrow> take_bit n (a + c) = take_bit n (b + c :: 'a::len word)"
  by (metis take_bit_word_add)
lemma cong_diff: "take_bit n a = take_bit n b \<Longrightarrow> take_bit n (a - c) = take_bit n (b - c :: 'a::len word)"
  by (metis take_bit_word_diff)
lemma cong_xor: "take_bit n a = take_bit n b \<Longrightarrow> take_bit n (a XOR c) = take_bit n (b XOR c :: 'a::len word)"
  by (simp add: take_bit_xor)
lemma cong_le: "take_bit n a = take_bit n (b :: 'a::len word) \<Longrightarrow> m \<le> n \<Longrightarrow> take_bit m a = take_bit m b"
  by (metis min.absorb1 take_bit_take_bit)

text \<open>The bits of a byte are numbered 0 to 7.\<close>

lemma less_8_cases: "(n :: nat) < 8 \<Longrightarrow> n = 0 \<or> n = 1 \<or> n = 2 \<or> n = 3 \<or> n = 4 \<or> n = 5 \<or> n = 6 \<or> n = 7"
  by auto

lemma length_le64_put_loop [simp]: "length (le64_put_loop n v) = n"
  by (induction n arbitrary: v) simp_all

lemma length_le_put [simp, wire]:
  "length (zupt_le16_put a) = 2" "length (zupt_le32_put b) = 4" "length (zupt_le64_put c) = 8"
  by (simp_all add: zupt_le16_put_def zupt_le32_put_def zupt_le64_put_def)

lemma le64_get_loop:
  "foldr (\<lambda>b v. push_bit 8 v OR ucast b) (le64_put_loop n v) 0 = take_bit (8 * n) v"
proof (induction n arbitrary: v)
  case (Suc n)
  have "push_bit 8 (take_bit (8 * n) (drop_bit 8 v)) OR ucast (ucast v :: u8)
        = take_bit (8 * Suc n) v"
    by (rule bit_word_eqI) (auto simp: bit_simps)
  with Suc.IH show ?case by simp
qed simp

lemma le16_get_put [simp, wire]: "zupt_le16_get (zupt_le16_put v @ r) = v"
  by (rule bit_word_eqI) (auto simp: zupt_le16_get_def zupt_le16_put_def bit_simps)

lemma le32_get_put [simp, wire]: "zupt_le32_get (zupt_le32_put v @ r) = v"
proof (rule bit_word_eqI)
  fix n assume "n < LENGTH(32)"
  then show "bit (zupt_le32_get (zupt_le32_put v @ r)) n \<longleftrightarrow> bit v n"
    by (cases "n < 8"; cases "n < 16"; cases "n < 24")
       (auto simp: zupt_le32_get_def zupt_le32_put_def bit_simps)
qed

lemma le64_get_put [simp, wire]: "zupt_le64_get (zupt_le64_put v @ r) = v"
  by (simp add: zupt_le64_get_def zupt_le64_put_def le64_get_loop)

lemmas le_get_put_nil [simp, wire] =
  le16_get_put [where r = "[]", simplified] le32_get_put [where r = "[]", simplified]
  le64_get_put [where r = "[]", simplified]

text \<open>The other direction: a field that was read writes back the same bytes.\<close>

lemma le64_put_loop_take_bit: "8 * n \<le> m \<Longrightarrow> le64_put_loop n (take_bit m v) = le64_put_loop n v"
proof (induction n arbitrary: m v)
  case (Suc n)
  have "drop_bit 8 (take_bit m v) = take_bit (m - 8) (drop_bit 8 v)"
    using Suc.prems by (intro bit_word_eqI) (auto simp: bit_simps)
  moreover have "(ucast (take_bit m v) :: u8) = ucast v"
    using Suc.prems by (intro bit_word_eqI) (auto simp: bit_simps)
  ultimately show ?case using Suc.prems Suc.IH [of "m - 8"] by simp
qed simp

lemma le64_put_get_loop:
  "n \<le> 8 \<Longrightarrow> n \<le> length p \<Longrightarrow>
   le64_put_loop n (foldr (\<lambda>b v. push_bit 8 v OR ucast b) (take n p) 0) = take n p"
proof (induction n arbitrary: p)
  case (Suc n)
  from Suc.prems obtain b q where p: "p = b # q" by (cases p) auto
  define x :: u64 where "x = foldr (\<lambda>b v. push_bit 8 v OR ucast b) (take n q) 0"
  have lo: "(ucast (push_bit 8 x OR ucast b) :: u8) = b"
    by (rule bit_word_eqI) (auto simp: bit_simps)
  have hi: "drop_bit 8 (push_bit 8 x) OR drop_bit 8 (ucast b) = take_bit 56 x"
    by (rule bit_word_eqI) (auto simp: bit_simps dest: bit_imp_le_length)
  have "le64_put_loop n (take_bit 56 x) = take n q"
    using Suc.prems Suc.IH [of q] by (simp add: le64_put_loop_take_bit x_def p)
  then show ?case by (simp add: p lo hi flip: x_def)
qed simp

lemma le64_put_get: "8 \<le> length p \<Longrightarrow> zupt_le64_put (zupt_le64_get p) = take 8 p"
  by (simp add: zupt_le64_put_def zupt_le64_get_def le64_put_get_loop)

lemma le16_put_get: "2 \<le> length p \<Longrightarrow> zupt_le16_put (zupt_le16_get p) = take 2 p"
proof -
  assume "2 \<le> length p"
  then obtain a b r where p: "p = a # b # r" by (cases p; cases "tl p") auto
  have "(ucast (ucast a OR push_bit 8 (ucast b) :: u16) :: u8) = a"
    "(ucast (drop_bit 8 (ucast a OR push_bit 8 (ucast b) :: u16)) :: u8) = b"
    by (rule bit_word_eqI, auto simp: bit_simps dest: bit_imp_le_length)+
  then show ?thesis by (simp add: p zupt_le16_put_def zupt_le16_get_def)
qed

lemma le32_put_get: "4 \<le> length p \<Longrightarrow> zupt_le32_put (zupt_le32_get p) = take 4 p"
proof -
  assume "4 \<le> length p"
  then obtain a b c d r where p: "p = a # b # c # d # r"
    by (cases p; cases "tl p"; cases "tl (tl p)"; cases "tl (tl (tl p))") auto
  let ?w = "ucast a OR push_bit 8 (ucast b) OR push_bit 16 (ucast c) OR push_bit 24 (ucast d) :: u32"
  have "(ucast ?w :: u8) = a" "(ucast (drop_bit 8 ?w) :: u8) = b"
    "(ucast (drop_bit 16 ?w) :: u8) = c" "(ucast (drop_bit 24 ?w) :: u8) = d"
    by (rule bit_word_eqI, auto simp: bit_simps dest: bit_imp_le_length)+
  then show ?thesis by (simp add: p zupt_le32_put_def zupt_le32_get_def)
qed

section \<open>Equality of buffers\<close>

text \<open>
  \<open>zupt_ct_memeq\<close> folds the differences of all byte pairs into one byte and turns it into
  1 (equal) or 0: \<open>(diff - 1) >> 8 & 1\<close> on 32-bit unsigned values, cut to a byte first.
\<close>

fun ct_diff :: "bytes \<Rightarrow> bytes \<Rightarrow> u8 \<Rightarrow> u8" where
  "ct_diff (a # as) (b # bs) d = ct_diff as bs (d OR (a XOR b))"
| "ct_diff _ _ d = d"

definition zupt_ct_memeq :: "bytes \<Rightarrow> bytes \<Rightarrow> nat \<Rightarrow> u32" where
  "zupt_ct_memeq a b n =
     ucast (ucast (drop_bit 8 (ucast (ct_diff (take n a) (take n b) 0) - 1 :: u32)) AND 1 :: u8)"

lemma word_or_eq_0_iff: "(a :: 'a::len word) OR b = 0 \<longleftrightarrow> a = 0 \<and> b = 0"
  by (metis or.right_neutral or_eq_0_iff)

lemma word_xor_eq_0_iff: "(a :: 'a::len word) XOR b = 0 \<longleftrightarrow> a = b"
  by (metis xor.assoc xor.left_neutral xor.right_neutral xor_self_eq)

lemma ct_diff_0_iff: "length as = length bs \<Longrightarrow> ct_diff as bs d = 0 \<longleftrightarrow> d = 0 \<and> as = bs"
proof (induction as bs d rule: ct_diff.induct)
  case (1 a as b bs d)
  have "d OR (a XOR b) = 0 \<longleftrightarrow> d = 0 \<and> a = b"
    by (simp add: word_or_eq_0_iff word_xor_eq_0_iff)
  with 1 show ?case by auto
qed auto

lemma ct_indicator:
  "(ucast (drop_bit 8 (ucast (d :: u8) - 1 :: u32)) AND 1 :: u8) = (if d = 0 then 1 else 0)"
proof (cases "d = 0")
  case False
  have "0 < uint d" "uint d < 256"
    using False uint_lt2p [of d] by (simp_all add: word_neq_0_conv word_less_def)
  then have "uint (ucast d - 1 :: u32) = uint d - 1"
    by (simp add: uint_word_ariths)
  then have "drop_bit 8 (ucast d - 1 :: u32) = 0"
    using \<open>uint d < 256\<close> by (simp only: drop_bit_word_eq_0_iff unat_eq_nat_uint) simp
  with False show ?thesis by simp
next
  case True
  have "(ucast (drop_bit 8 (0 - 1 :: u32)) :: u8) = 0xFF"
    by (rule bit_word_eqI) (auto simp: bit_simps dest!: less_8_cases)
  with True show ?thesis by simp
qed

lemma zupt_ct_memeq_eq:
  "n \<le> length a \<Longrightarrow> n \<le> length b \<Longrightarrow>
   zupt_ct_memeq a b n = (if take n a = take n b then 1 else 0)"
  by (simp add: zupt_ct_memeq_def ct_indicator ct_diff_0_iff)

section \<open>Writing into a buffer\<close>

text \<open>\<open>memcpy(buf + off, d, length d)\<close>.\<close>

definition buf_write :: "'a list \<Rightarrow> nat \<Rightarrow> 'a list \<Rightarrow> 'a list" where
  "buf_write buf off d = take off buf @ d @ drop (off + length d) buf"

lemma length_buf_write [simp]: "off + length d \<le> length buf \<Longrightarrow> length (buf_write buf off d) = length buf"
  by (simp add: buf_write_def)

lemma take_buf_write: "off \<le> length buf \<Longrightarrow> take (off + length d) (buf_write buf off d) = take off buf @ d"
  by (simp add: buf_write_def)

section \<open>Whole blocks and pending bytes\<close>

text \<open>
  The functions that process a message in blocks of \<open>k\<close> bytes split it into the whole blocks
  and fewer than \<open>k\<close> pending bytes.
\<close>

definition whole_blocks :: "nat \<Rightarrow> 'a list \<Rightarrow> 'a list" where
  "whole_blocks k m = take (length m div k * k) m"

definition pending :: "nat \<Rightarrow> 'a list \<Rightarrow> 'a list" where
  "pending k m = drop (length m div k * k) m"

lemma whole_pending: "whole_blocks k m @ pending k m = m"
  by (simp add: whole_blocks_def pending_def)

lemma length_pending: "length (pending k m) = length m mod k"
  by (simp add: pending_def minus_div_mult_eq_mod)

lemma length_whole_blocks: "length (whole_blocks k m) = length m div k * k"
  by (simp add: whole_blocks_def)

lemma blocks_unique:
  assumes "m = a @ b" "length a mod k = 0" "length b < k"
  shows "whole_blocks k m = a \<and> pending k m = b"
proof -
  obtain q where "length a = k * q" using assms(2) by blast
  then have "length m div k * k = length a" using assms(1,3) by simp
  then show ?thesis using assms(1) by (simp add: whole_blocks_def pending_def)
qed

lemma blocks_nil [simp]: "whole_blocks k [] = []" "pending k [] = []"
  by (simp_all add: whole_blocks_def pending_def)

lemma blocks_more:
  assumes "length (pending k m) + length d < k"
  shows "whole_blocks k (m @ d) = whole_blocks k m" "pending k (m @ d) = pending k m @ d"
  using blocks_unique [of "m @ d" "whole_blocks k m" "pending k m @ d" k] assms
  by (simp_all add: whole_pending length_whole_blocks flip: append_assoc)

lemma blocks_append:
  assumes "length (pending k m @ d) mod k = 0" "0 < k"
  shows "whole_blocks k (m @ d) = whole_blocks k m @ pending k m @ d" "pending k (m @ d) = []"
proof -
  have "length (whole_blocks k m @ pending k m @ d) mod k = 0"
    using assms(1) by (simp add: length_whole_blocks)
  with blocks_unique [of "m @ d" "whole_blocks k m @ pending k m @ d" "[]" k] assms(2)
  show "whole_blocks k (m @ d) = whole_blocks k m @ pending k m @ d" "pending k (m @ d) = []"
    by (simp_all add: whole_pending flip: append_assoc)
qed

lemma pending_small: "length m < k \<Longrightarrow> pending k m = m \<and> whole_blocks k m = []"
  using blocks_unique [of m "[]" m k] by simp

section \<open>Interfaces\<close>

text \<open>
  A filter is a transform of a block that keeps its length and that the inverse transform
  undoes. The codecs apply a filter to the plain bytes before compressing and its inverse after
  decompressing; \<open>k\<close> are its parameters (a position, a prediction table).
\<close>

locale reversible_filter =
  fixes fwd :: "'k \<Rightarrow> bytes \<Rightarrow> bytes" and bwd :: "'k \<Rightarrow> bytes \<Rightarrow> bytes"
  assumes bwd_fwd: "bwd k (fwd k x) = x"
    and length_fwd: "length (fwd k x) = length x"
begin

lemma fwd_inject: "fwd k x = fwd k y \<longleftrightarrow> x = y"
  by (metis bwd_fwd)

lemma around_codec: "dec (enc (fwd k x)) = fwd k x \<Longrightarrow> bwd k (dec (enc (fwd k x))) = x"
  by (simp add: bwd_fwd)

lemma length_bwd_image: "y \<in> range (fwd k) \<Longrightarrow> length (bwd k y) = length y"
  by (auto simp: bwd_fwd length_fwd)

end

text \<open>
  A block codec: the encoder may give up (\<open>None\<close>, a result of 0 in the code), the decoder is
  told how many bytes it may produce and never produces more. \<open>ok\<close> is the size limit of the
  codec.
\<close>

locale block_codec =
  fixes enc :: "'k \<Rightarrow> bytes \<Rightarrow> bytes option" and dec :: "bytes \<Rightarrow> nat \<Rightarrow> bytes option"
    and ok :: "bytes \<Rightarrow> bool"
  assumes dec_enc: "enc k x = Some c \<Longrightarrow> ok x \<Longrightarrow> length x \<le> n \<Longrightarrow> dec c n = Some x"
    and dec_bound: "dec c n = Some y \<Longrightarrow> length y \<le> n"
begin

lemma enc_inject: "enc k x = Some c \<Longrightarrow> enc l y = Some c \<Longrightarrow> ok x \<Longrightarrow> ok y \<Longrightarrow> x = y"
  by (metis dec_enc nat_le_linear option.inject)

lemma dec_exact: "enc k x = Some c \<Longrightarrow> ok x \<Longrightarrow> \<exists>y. dec c (length x) = Some y \<and> length y = length x"
  using dec_enc by blast

end

text \<open>
  A streaming hash: a context stands for the message fed so far (\<open>repr c m\<close>, which leaves
  open what the unused part of its buffer holds), and finishing it gives the hash of that
  message. Clients may feed a message in any segmentation.
\<close>

locale stream_hash =
  fixes repr :: "'c \<Rightarrow> bytes \<Rightarrow> bool" and init :: 'c and update :: "'c \<Rightarrow> bytes \<Rightarrow> 'c"
    and final :: "'c \<Rightarrow> 'd" and H :: "bytes \<Rightarrow> 'd"
  assumes repr_init: "repr init []"
    and repr_update: "repr c m \<Longrightarrow> repr (update c d) (m @ d)"
    and final_repr: "repr c m \<Longrightarrow> final c = H m"
begin

lemma repr_foldl: "repr c m \<Longrightarrow> repr (foldl update c ds) (m @ concat ds)"
proof (induction ds arbitrary: c m)
  case (Cons d ds)
  from Cons.IH [OF repr_update [OF Cons.prems]] show ?case by simp
qed simp

lemma segments: "final (foldl update init ds) = H (concat ds)"
  using final_repr [OF repr_foldl [OF repr_init]] by simp

lemma one_shot: "final (update init d) = H d"
  using segments [of "[d]"] by simp

lemma same_message: "concat ds = concat es \<Longrightarrow> final (foldl update init ds) = final (foldl update init es)"
  by (simp add: segments)

lemma resume: "repr c m \<Longrightarrow> final (foldl update c ds) = H (m @ concat ds)"
  by (rule final_repr [OF repr_foldl])

end

text \<open>
  A field of a serial format: the decoder reads from the front of a buffer and reports how many
  bytes it used, as \<open>zupt_decode_varint\<close> does. A sequence of such fields is decoded by reading
  one field after the other.
\<close>

locale field_codec =
  fixes put :: "'a \<Rightarrow> bytes" and get :: "bytes \<Rightarrow> (nat \<times> 'a) option"
  assumes get_put: "get (put a @ r) = Some (length (put a), a)"
    and put_nonempty: "put a \<noteq> []"
begin

lemma put_inject: "put a @ r = put b @ s \<longleftrightarrow> a = b \<and> r = s"
proof
  assume eq: "put a @ r = put b @ s"
  then have "get (put a @ r) = get (put b @ s)" by simp
  then have "a = b" by (simp add: get_put)
  with eq show "a = b \<and> r = s" by simp
qed simp

fun put_all :: "'a list \<Rightarrow> bytes" where
  "put_all [] = []"
| "put_all (a # as) = put a @ put_all as"

fun get_all :: "nat \<Rightarrow> bytes \<Rightarrow> ('a list \<times> bytes) option" where
  "get_all 0 bs = Some ([], bs)"
| "get_all (Suc n) bs =
     (case get bs of None \<Rightarrow> None
      | Some (m, a) \<Rightarrow> map_option (apfst (\<lambda>as. a # as)) (get_all n (drop m bs)))"

lemma get_all_put_all: "get_all (length as) (put_all as @ r) = Some (as, r)"
  by (induction as) (simp_all add: get_put)

lemma put_all_inject: "length as = length bs \<Longrightarrow> put_all as @ r = put_all bs @ s \<longleftrightarrow> as = bs \<and> r = s"
  by (metis get_all_put_all option.inject prod.inject)

lemma length_put_all: "length as \<le> length (put_all as)"
proof (induction as)
  case (Cons a as)
  then show ?case using put_nonempty [of a] by (cases "put a") auto
qed simp

end

text \<open>
  An exact stream reader: it delivers a value and the rest of the stream precisely when the
  stream is the serial form of a valid value followed by that rest.
\<close>

locale stream_field =
  fixes put :: "'a \<Rightarrow> bytes" and get :: "bytes \<Rightarrow> ('a \<times> bytes) result" and ok :: "'a \<Rightarrow> bool"
  assumes get_iff: "get s = Inr (a, r) \<longleftrightarrow> ok a \<and> s = put a @ r"
begin

lemma get_put: "ok a \<Longrightarrow> get (put a @ r) = Inr (a, r)"
  by (simp add: get_iff)

lemma put_inject: "ok a \<Longrightarrow> ok b \<Longrightarrow> put a @ r = put b @ s \<longleftrightarrow> a = b \<and> r = s"
  by (metis get_put prod.inject sum.inject(2))

lemma truncated: "ok a \<Longrightarrow> put a = p @ q \<Longrightarrow> q \<noteq> [] \<Longrightarrow> \<exists>e. get p = Inl e"
proof (cases "get p")
  case (Inr ar)
  assume a: "ok a" "put a = p @ q" "q \<noteq> []"
  obtain b r where "ar = (b, r)" by fastforce
  then have "ok b" "p = put b @ r" using Inr by (simp_all add: get_iff)
  then show ?thesis using a put_inject [of a b "[]" "r @ q"] by simp
qed simp

end

end
