(* ===== verification/Varint.thy ===== *)
theory Varint
  imports Prelude
begin

text \<open>
  The variable-length integers of the archive format: \<open>zupt_encode_varint\<close>,
  \<open>zupt_decode_varint\<close> and the stream reader \<open>zupt_read_varint\<close> of
  \<open>src/zupt_format.c\<close>. Seven payload bits per byte, least significant group first, the top
  bit of a byte set while another byte follows. The decoder reads at most ten bytes, rejects
  a tenth byte with more than one payload bit and rejects an overlong final zero, so a value
  has exactly one encoding: that is the pair of results at the end.
\<close>

section \<open>The operations\<close>

function zupt_encode_varint :: "u64 \<Rightarrow> bytes" where
  "zupt_encode_varint v =
     (let x = (ucast (v AND 0x7F) :: u8); v' = drop_bit 7 v in
      if v' \<noteq> 0 then (x OR 0x80) # zupt_encode_varint v' else [x])"
  by pat_completeness auto
termination
proof (relation "measure unat", simp, clarsimp)
  fix v :: u64 assume "drop_bit 7 v \<noteq> 0"
  then have "128 \<le> unat v" by (simp add: drop_bit_word_eq_0_iff)
  then show "unat (drop_bit 7 v) < unat v" by (simp only: unat_drop_bit) simp
qed

declare zupt_encode_varint.simps [simp del]

text \<open>
  The loop of the decoder: \<open>n\<close> counts the bytes read, \<open>shift\<close> and \<open>v\<close> are the
  variables of the C code. \<open>None\<close> is the result \<open>-1\<close>; otherwise the number of bytes used and
  the value.
\<close>

fun decode_varint_loop :: "bytes \<Rightarrow> nat \<Rightarrow> nat \<Rightarrow> u64 \<Rightarrow> (nat \<times> u64) option" where
  "decode_varint_loop [] n shift v = None"
| "decode_varint_loop (byte # rest) n shift v =
     (if \<not> n < 10 then None
      else
        let payload = byte AND 0x7F in
        if n = 9 \<and> byte AND 0xFE \<noteq> 0 then None
        else
          let v' = v OR push_bit shift (ucast payload) in
          if byte AND 0x80 = 0 then
            (if n > 0 \<and> payload = 0 then None else Some (n + 1, v'))
          else decode_varint_loop rest (n + 1) (shift + 7) v')"

definition zupt_decode_varint :: "bytes \<Rightarrow> (nat \<times> u64) option" where
  "zupt_decode_varint b = decode_varint_loop b 0 0 0"

section \<open>Bytes of the encoding\<close>

lemma word_and_0x7F: "(w :: 'a::len word) AND 0x7F = take_bit 7 w"
proof -
  have "(0x7F :: 'a word) = mask 7" by (simp add: mask_eq_exp_minus_1)
  then show ?thesis by (simp add: take_bit_eq_mask)
qed

lemma byte_0x80: "(0x80 :: u8) = push_bit 7 1"
  by simp

lemma bit_0x80 [simp]: "bit (0x80 :: u8) n \<longleftrightarrow> n = 7"
  by (auto simp: byte_0x80 bit_simps simp del: push_bit_of_1)

lemma byte_and_0x80_iff: "(b :: u8) AND 0x80 = 0 \<longleftrightarrow> \<not> bit b 7"
proof
  assume "b AND 0x80 = 0"
  then have "\<not> bit (b AND 0x80) 7" by simp
  then show "\<not> bit b 7" by (simp add: bit_and_iff)
next
  assume "\<not> bit b 7"
  then show "b AND 0x80 = 0"
    by (intro bit_word_eqI) (auto simp: bit_and_iff dest!: less_8_cases)
qed

lemma byte_and_0xFE_iff: "(b :: u8) AND 0xFE = 0 \<longleftrightarrow> drop_bit 1 b = 0"
proof -
  have FE: "bit (0xFE :: u8) n \<longleftrightarrow> 0 < n" if "n < 8" for n
    using less_8_cases [OF that] by auto
  have lt: "n < 8" if "bit b n" for n
    using bit_imp_le_length [OF that] by simp
  have "bit (b AND 0xFE) n \<longleftrightarrow> bit b n \<and> 0 < n" for n
    using FE [of n] lt [of n] by (auto simp: bit_and_iff)
  then have "b AND 0xFE = 0 \<longleftrightarrow> (\<forall>n. \<not> (bit b n \<and> 0 < n))"
    by (simp add: bit_eq_iff [where 'a = "8 word"]) (meson lt)
  also have "\<dots> \<longleftrightarrow> (\<forall>n. \<not> bit b (1 + n))"
    by (metis Suc_pred plus_1_eq_Suc zero_less_Suc)
  also have "\<dots> \<longleftrightarrow> drop_bit 1 b = 0"
    by (simp add: bit_eq_iff [where 'a = "8 word"] bit_drop_bit_eq) (meson lt Suc_lessD)
  finally show ?thesis .
qed

text \<open>A continuation byte and a final byte of the encoding, seen through the decoder's masks.\<close>

lemma varint_cont_byte:
  fixes v :: u64
  defines "b \<equiv> (ucast (v AND 0x7F) :: u8) OR 0x80"
  shows "b AND 0x80 \<noteq> 0" and "(ucast (b AND 0x7F) :: u64) = take_bit 7 v"
proof -
  show "b AND 0x80 \<noteq> 0" by (simp add: byte_and_0x80_iff b_def bit_or_iff)
  show "(ucast (b AND 0x7F) :: u64) = take_bit 7 v"
    by (rule bit_word_eqI) (auto simp: b_def word_and_0x7F bit_simps)
qed

lemma varint_final_byte:
  fixes v :: u64
  assumes "drop_bit 7 v = 0"
  defines "b \<equiv> (ucast (v AND 0x7F) :: u8)"
  shows "b AND 0x80 = 0" and "(ucast (b AND 0x7F) :: u64) = v" and "ucast b = v" and "b AND 0x7F = b"
proof -
  have tb: "take_bit 7 v = v"
    using assms(1) by (metis bits_ident push_bit_of_0 add_0)
  show "b AND 0x80 = 0" by (simp add: byte_and_0x80_iff b_def word_and_0x7F bit_simps)
  show b: "b AND 0x7F = b"
    by (rule bit_word_eqI) (auto simp: b_def word_and_0x7F bit_simps)
  show v: "ucast b = v"
    by (subst tb [symmetric], rule bit_word_eqI) (auto simp: b_def word_and_0x7F bit_simps)
  show "(ucast (b AND 0x7F) :: u64) = v"
    by (simp only: b v)
qed

section \<open>Decoding an encoding\<close>

lemma zupt_encode_varint_nonempty [simp]: "zupt_encode_varint v \<noteq> []"
  by (subst zupt_encode_varint.simps) (simp add: Let_def)

lemma decode_varint_loop_encode:
  assumes "take_bit (64 - 7 * n) v = v" "n \<le> 9" "n > 0 \<longrightarrow> v \<noteq> 0"
  shows "decode_varint_loop (zupt_encode_varint v @ r) n (7 * n) acc =
         Some (n + length (zupt_encode_varint v), acc OR push_bit (7 * n) v)"
  using assms
proof (induction v arbitrary: n acc rule: zupt_encode_varint.induct)
  case (1 v)
  define b :: u8 where "b = ucast (v AND 0x7F)"
  have hi: "k < 64 - 7 * n" if "bit v k" for k
    using that "1.prems"(1) by (metis bit_take_bit_iff)
  show ?case
  proof (cases "drop_bit 7 v = 0")
    case True
    have "n = 9 \<Longrightarrow> drop_bit 1 b = 0"
      by (intro bit_word_eqI) (auto simp: b_def word_and_0x7F bit_simps dest!: hi)
    moreover have "n > 0 \<longrightarrow> b AND 0x7F \<noteq> 0"
      using "1.prems"(3) varint_final_byte(2) [OF True] by (auto simp: b_def)
    ultimately show ?thesis
      using True "1.prems" varint_final_byte [OF True]
      by (subst (1 2) zupt_encode_varint.simps)
         (auto simp: byte_and_0xFE_iff simp flip: b_def)
  next
    case False
    have "n \<noteq> 9"
    proof
      assume "n = 9"
      then have "drop_bit 7 v = 0"
        by (intro bit_word_eqI) (auto simp: bit_simps dest!: hi)
      with False show False by simp
    qed
    then have n: "n < 9" using "1.prems"(2) by simp
    have tb: "take_bit (64 - 7 * Suc n) (drop_bit 7 v) = drop_bit 7 v"
      by (rule bit_word_eqI) (auto simp: bit_simps dest: hi)
    have "acc OR push_bit (7 * n) (take_bit 7 v) OR push_bit (7 * Suc n) (drop_bit 7 v)
          = acc OR push_bit (7 * n) v"
      using push_bit_split_or [of "7 * n" 7 v] by (simp add: add.commute)
    then have "decode_varint_loop (zupt_encode_varint (drop_bit 7 v) @ r) (Suc n) (7 * Suc n)
            (acc OR push_bit (7 * n) (take_bit 7 v)) =
          Some (Suc n + length (zupt_encode_varint (drop_bit 7 v)), acc OR push_bit (7 * n) v)"
      using "1.IH" [OF refl refl False tb] n False by (simp add: or.assoc)
    then show ?thesis
      using False n varint_cont_byte [of v]
      by (subst (1 2) zupt_encode_varint.simps) (simp add: Let_def add.commute)
  qed
qed

lemma zupt_decode_encode_varint:
  "zupt_decode_varint (zupt_encode_varint v @ r) = Some (length (zupt_encode_varint v), v)"
  using decode_varint_loop_encode [of 0 v r 0] by (simp add: zupt_decode_varint_def)

section \<open>Encodings are unique\<close>

lemma varint_byte_split:
  fixes b :: u8
  shows "b AND 0x80 \<noteq> 0 \<Longrightarrow> (b AND 0x7F) OR 0x80 = b" and "b AND 0x80 = 0 \<Longrightarrow> b AND 0x7F = b"
proof -
  have low: "bit (b AND 0x7F) n \<longleftrightarrow> bit b n \<and> n \<noteq> 7" for n
    using bit_imp_le_length [of b n] by (auto simp: word_and_0x7F bit_simps)
  show "b AND 0x80 \<noteq> 0 \<Longrightarrow> (b AND 0x7F) OR 0x80 = b"
    by (rule bit_word_eqI) (metis low byte_and_0x80_iff bit_or_iff bit_0x80)
  show "b AND 0x80 = 0 \<Longrightarrow> b AND 0x7F = b"
    by (rule bit_word_eqI) (metis low byte_and_0x80_iff)
qed

lemma decode_varint_loop_canonical:
  assumes "decode_varint_loop bs n (7 * n) acc = Some (m, w)"
  shows "\<exists>v. w = acc OR push_bit (7 * n) v \<and> take_bit (64 - 7 * n) v = v \<and> (n > 0 \<longrightarrow> v \<noteq> 0) \<and>
             n < m \<and> m - n \<le> length bs \<and> take (m - n) bs = zupt_encode_varint v"
  using assms
proof (induction bs arbitrary: n acc)
  case (Cons b bs)
  let ?p = "b AND 0x7F"
  from Cons.prems have n: "n < 10" and b9: "n = 9 \<Longrightarrow> drop_bit 1 b = 0"
    by (auto simp: byte_and_0xFE_iff Let_def split: if_splits)
  have pbit: "k < 7" if "bit ?p k" for k
    using that by (simp add: word_and_0x7F bit_simps)
  show ?case
  proof (cases "b AND 0x80 = 0")
    case True
    define v :: u64 where "v = ucast ?p"
    have m: "m = Suc n" "w = acc OR push_bit (7 * n) v" "n > 0 \<longrightarrow> ?p \<noteq> 0"
      using Cons.prems True by (auto simp: Let_def v_def split: if_splits)
    have lim: "k < 64 - 7 * n" if "bit ?p k" for k
    proof (cases "n = 9")
      case True
      have "bit b k" using that by (simp add: bit_and_iff)
      moreover have "\<not> bit b (Suc j)" for j
        using arg_cong [OF b9 [OF True], of "\<lambda>w. bit w j"] by (simp add: bit_drop_bit_eq)
      ultimately have "k = 0" by (cases k) auto
      with True show ?thesis by simp
    qed (use n pbit [OF that] in linarith)
    have "take_bit (64 - 7 * n) v = v"
      by (rule bit_word_eqI) (auto simp: v_def bit_simps lim)
    moreover have "n > 0 \<longrightarrow> v \<noteq> 0"
      using m(3) unat_ucast_up [where 'a = 64 and w = ?p] by (auto simp: v_def simp flip: unat_eq_zero)
    moreover have "zupt_encode_varint v = [b]"
    proof -
      have "drop_bit 7 v = 0"
        by (rule bit_word_eqI) (auto simp: v_def bit_simps dest: pbit)
      moreover have "(ucast (v AND 0x7F) :: u8) = ?p"
        by (rule bit_word_eqI) (auto simp: v_def word_and_0x7F bit_simps)
      ultimately show ?thesis
        using varint_byte_split(2) [OF True]
        by (subst zupt_encode_varint.simps) (simp add: Let_def)
    qed
    ultimately show ?thesis using m by auto
  next
    case False
    have "bit (drop_bit 1 b) 6"
      using False by (simp add: byte_and_0x80_iff bit_drop_bit_eq)
    with b9 have "n \<noteq> 9" by auto
    with n have n: "n < 9" by simp
    have "decode_varint_loop bs (Suc n) (7 * Suc n) (acc OR push_bit (7 * n) (ucast ?p)) = Some (m, w)"
      using Cons.prems False n by (auto simp: Let_def add.commute split: if_splits)
    from Cons.IH [OF this] obtain u where
      u: "w = (acc OR push_bit (7 * n) (ucast ?p)) OR push_bit (7 * Suc n) u"
         "take_bit (64 - 7 * Suc n) u = u" "u \<noteq> 0" "Suc n < m" "m - Suc n \<le> length bs"
         "take (m - Suc n) bs = zupt_encode_varint u"
      by auto
    define v :: u64 where "v = ucast ?p OR push_bit 7 u"
    have ubit: "k < 64 - 7 * Suc n" if "bit u k" for k
      using that u(2) by (metis bit_take_bit_iff)
    have lo: "take_bit 7 v = ucast ?p"
      by (rule bit_word_eqI) (auto simp: v_def word_and_0x7F bit_simps)
    have hi: "drop_bit 7 v = u"
      by (rule bit_word_eqI) (auto simp: v_def word_and_0x7F bit_simps dest: ubit)
    have "take_bit (64 - 7 * n) v = v"
      by (rule bit_word_eqI) (use n in \<open>auto simp: v_def word_and_0x7F bit_simps dest: ubit\<close>)
    moreover have "w = acc OR push_bit (7 * n) v"
      using push_bit_split_or [of "7 * n" 7 v] u(1) by (simp add: lo hi or.assoc add.commute)
    moreover have "zupt_encode_varint v = b # zupt_encode_varint u"
    proof -
      have "(ucast (v AND 0x7F) :: u8) = ?p"
        by (simp only: word_and_0x7F [of v] lo) (rule bit_word_eqI, simp add: bit_simps)
      then show ?thesis
        using varint_byte_split(1) [OF False] u(3)
        by (subst zupt_encode_varint.simps) (simp add: Let_def hi)
    qed
    moreover have "v \<noteq> 0" using hi u(3) by auto
    ultimately show ?thesis using u by (auto intro!: exI [of _ v] simp: take_Cons' Suc_diff_Suc)
  qed
qed simp

lemma zupt_decode_varint_Some:
  assumes "zupt_decode_varint bs = Some (m, v)"
  shows "m \<le> length bs \<and> take m bs = zupt_encode_varint v"
  using decode_varint_loop_canonical [of bs 0 0 m v] assms
  by (auto simp: zupt_decode_varint_def)


section \<open>Variable-length integers as fields\<close>

interpretation varint: field_codec zupt_encode_varint zupt_decode_varint
  by unfold_locales (simp_all add: zupt_decode_encode_varint zupt_encode_varint_nonempty)

section \<open>Properties\<close>

text \<open>
  What \<open>zupt_encode_varint\<close> wrote, \<open>zupt_decode_varint\<close> reads back, whatever follows it
  in the buffer, and no two values share an encoding even as prefixes of longer buffers.
\<close>

theorem varint_roundtrip:
  "zupt_decode_varint (zupt_encode_varint v @ r) = Some (length (zupt_encode_varint v), v) \<and>
   (zupt_encode_varint v @ r = zupt_encode_varint w @ s \<longleftrightarrow> v = w \<and> r = s)"
  by (simp add: zupt_decode_encode_varint varint.put_inject)

text \<open>
  The decoder accepts one encoding per value: the bytes it used are exactly the shortest
  encoding of the value it returns, so overlong forms and values above 64 bits are rejected.
\<close>

theorem varint_canonical:
  assumes "zupt_decode_varint bs = Some (m, v)"
  shows "m \<le> length bs \<and> take m bs = zupt_encode_varint v"
  using assms by (rule zupt_decode_varint_Some)

theorem varint_canonical_witness:
  "zupt_decode_varint [0xAC, 0x02, 0xFF] = Some (2, 300) \<and> 
   2 \<le> length [0xAC, 0x02, 0xFF :: u8] \<and> take 2 [0xAC, 0x02, 0xFF] = zupt_encode_varint 300"
proof -
  have d: "zupt_decode_varint [0xAC, 0x02, 0xFF] = Some (2, 300)"
    by (simp add: zupt_decode_varint_def Let_def)
  from varint_canonical [OF d] d show ?thesis by simp
qed

end
