(* ===== verification/Predict.thy ===== *)
theory Predict
  imports Prelude
begin

text \<open>
  The order-1 byte predictor of the LZHP codec (\<open>src/zupt_predict.c\<close>): a table that gives
  for every byte its most frequent successor in the block, and the transform that replaces a
  byte by its difference (XOR) from the prediction. \<open>zupt_predict_benefit\<close>, a floating-point
  estimate that only chooses whether to transform, is not modelled.
\<close>

section \<open>The prediction table\<close>

type_synonym counts = "u8 \<Rightarrow> u8 \<Rightarrow> u16"

definition predict_count :: "counts \<Rightarrow> u8 \<Rightarrow> u8 \<Rightarrow> counts" where
  "predict_count cs prev d =
     (if unat (cs prev d) < 65535 then cs(prev := (cs prev)(d := cs prev d + 1)) else cs)"

fun predict_count_loop :: "counts \<Rightarrow> u8 \<Rightarrow> bytes \<Rightarrow> counts" where
  "predict_count_loop cs prev [] = cs"
| "predict_count_loop cs prev (d # ds) = predict_count_loop (predict_count cs prev d) d ds"

text \<open>The scan for the best successor: strictly larger counts win, so the first maximum stays.\<close>

fun predict_best :: "(u8 \<Rightarrow> u16) \<Rightarrow> u8 list \<Rightarrow> u16 \<Rightarrow> u8 \<Rightarrow> u16 \<times> u8" where
  "predict_best row [] best_count best_byte = (best_count, best_byte)"
| "predict_best row (b # bs) best_count best_byte =
     (if row b > best_count then predict_best row bs (row b) b
      else predict_best row bs best_count best_byte)"

definition all_bytes :: "u8 list" where
  "all_bytes = map word_of_nat [0..<256]"

text \<open>\<open>calloc_ok\<close> is whether the allocation of the count matrix succeeds.\<close>

definition zupt_predict_build :: "bool \<Rightarrow> bytes \<Rightarrow> bytes" where
  "zupt_predict_build calloc_ok data =
     (if \<not> calloc_ok then replicate 256 0
      else let cs = predict_count_loop (\<lambda>_ _. 0) 0 data in
           map (\<lambda>c. snd (predict_best (cs c) all_bytes 0 0)) all_bytes)"

section \<open>The transform\<close>

fun predict_encode_loop :: "bytes \<Rightarrow> u8 \<Rightarrow> bytes \<Rightarrow> bytes" where
  "predict_encode_loop prediction prev [] = []"
| "predict_encode_loop prediction prev (x # xs) =
     (x XOR prediction ! unat prev) # predict_encode_loop prediction x xs"

fun predict_decode_loop :: "bytes \<Rightarrow> u8 \<Rightarrow> bytes \<Rightarrow> bytes" where
  "predict_decode_loop prediction prev [] = []"
| "predict_decode_loop prediction prev (x # xs) =
     (let y = x XOR prediction ! unat prev in y # predict_decode_loop prediction y xs)"

definition zupt_predict_encode :: "bytes \<Rightarrow> bytes \<Rightarrow> bytes" where
  "zupt_predict_encode prediction input = predict_encode_loop prediction 0 input"

definition zupt_predict_decode :: "bytes \<Rightarrow> bytes \<Rightarrow> bytes" where
  "zupt_predict_decode prediction input = predict_decode_loop prediction 0 input"

lemma word_xor_cancel: "(x :: 'a::len word) XOR p XOR p = x"
  by (simp add: xor.assoc)

lemma predict_decode_encode_loop:
  "predict_decode_loop p prev (predict_encode_loop p prev xs) = xs"
  by (induction xs arbitrary: prev) (simp_all add: word_xor_cancel xor.assoc)

lemma predict_encode_decode_loop:
  "predict_encode_loop p prev (predict_decode_loop p prev xs) = xs"
  by (induction xs arbitrary: prev) (simp_all add: word_xor_cancel Let_def xor.assoc)

lemma length_predict_loops [simp]:
  "length (predict_encode_loop p prev xs) = length xs"
  "length (predict_decode_loop p prev xs) = length xs"
  by (induction xs arbitrary: prev) (simp_all add: Let_def)

lemma length_predict [simp]:
  "length (zupt_predict_encode p xs) = length xs"
  "length (zupt_predict_decode p xs) = length xs"
  by (simp_all add: zupt_predict_encode_def zupt_predict_decode_def)

lemma zupt_predict_decode_encode [simp]: "zupt_predict_decode p (zupt_predict_encode p xs) = xs"
  by (simp add: zupt_predict_encode_def zupt_predict_decode_def predict_decode_encode_loop)

lemma zupt_predict_encode_decode [simp]: "zupt_predict_encode p (zupt_predict_decode p xs) = xs"
  by (simp add: zupt_predict_encode_def zupt_predict_decode_def predict_encode_decode_loop)

section \<open>What the table holds\<close>

text \<open>The pairs (previous byte, byte) of a block, starting from the initial context.\<close>

definition successor_pairs :: "u8 \<Rightarrow> bytes \<Rightarrow> (u8 \<times> u8) list" where
  "successor_pairs prev ds = zip (prev # ds) ds"

lemma successor_pairs_simps [simp]:
  "successor_pairs prev [] = []"
  "successor_pairs prev (d # ds) = (prev, d) # successor_pairs d ds"
  by (simp_all add: successor_pairs_def)

lemma predict_count_unat:
  "unat (predict_count cs prev d p b) =
     (if (p, b) = (prev, d) then min 65535 (unat (cs p b) + 1) else unat (cs p b))"
proof -
  have "unat (cs prev d + 1) = unat (cs prev d) + 1" if "unat (cs prev d) < 65535"
    using that by (simp add: unat_word_ariths)
  moreover have "unat (cs prev d) \<le> 65535"
    using unat_lt2p [of "cs prev d"] by simp
  ultimately show ?thesis by (auto simp: predict_count_def)
qed

lemma predict_count_loop_unat:
  "unat (predict_count_loop cs prev ds p b) =
     min 65535 (unat (cs p b) + count_list (successor_pairs prev ds) (p, b))"
proof (induction ds arbitrary: cs prev)
  case Nil
  show ?case using unat_lt2p [of "cs p b"] by simp
next
  case (Cons d ds)
  then show ?case by (auto simp: predict_count_unat)
qed

lemma predict_best_max:
  "predict_best row bs c0 b0 = (c, b) \<Longrightarrow>
   c0 \<le> c \<and> (\<forall>x \<in> set bs. row x \<le> c) \<and> (c = c0 \<and> b = b0 \<or> b \<in> set bs \<and> c = row b)"
proof (induction bs arbitrary: c0 b0)
  case (Cons x bs)
  show ?case
  proof (cases "row x > c0")
    case True
    with Cons.prems have "predict_best row bs (row x) x = (c, b)" by simp
    from Cons.IH [OF this] True show ?thesis by auto
  next
    case False
    with Cons.prems have "predict_best row bs c0 b0 = (c, b)" by simp
    from Cons.IH [OF this] False show ?thesis by auto
  qed
qed simp

lemma set_all_bytes [simp]: "set all_bytes = UNIV"
proof -
  have "b \<in> word_of_nat ` {0..<256}" for b :: u8
    using unat_lt2p [of b] by (intro image_eqI [of _ _ "unat b"]) simp_all
  then show ?thesis by (auto simp: all_bytes_def)
qed

lemma length_all_bytes [simp]: "length all_bytes = 256"
  by (simp add: all_bytes_def)

lemma nth_all_bytes: "all_bytes ! unat c = c"
  using unat_lt2p [of c] by (simp add: all_bytes_def)

lemma length_zupt_predict_build [simp]: "length (zupt_predict_build ok data) = 256"
  by (simp add: zupt_predict_build_def Let_def)

text \<open>
  The prediction for \<open>c\<close> is a byte whose (saturated) number of occurrences after \<open>c\<close> is
  largest.
\<close>

definition successor_count :: "bytes \<Rightarrow> u8 \<Rightarrow> u8 \<Rightarrow> nat" where
  "successor_count data c b = min 65535 (count_list (successor_pairs 0 data) (c, b))"

lemma zupt_predict_build_max:
  "successor_count data c b \<le> successor_count data c (zupt_predict_build True data ! unat c)"
proof -
  let ?cs = "predict_count_loop (\<lambda>_ _. 0) 0 data"
  obtain m t where mt: "predict_best (?cs c) all_bytes 0 0 = (m, t)" by fastforce
  have t: "zupt_predict_build True data ! unat c = t"
    using unat_lt2p [of c] by (simp add: zupt_predict_build_def Let_def nth_all_bytes mt)
  have n: "successor_count data c x = unat (?cs c x)" for x
    by (simp add: successor_count_def predict_count_loop_unat)
  have "?cs c b \<le> ?cs c t"
    using predict_best_max [OF mt] by (auto simp: word_le_nat_alt)
  then show ?thesis by (simp add: t n word_le_nat_alt)
qed

section \<open>The transform as a filter\<close>

interpretation predict: reversible_filter zupt_predict_encode zupt_predict_decode
  by unfold_locales simp_all

interpretation predict_inverse: reversible_filter zupt_predict_decode zupt_predict_encode
  by unfold_locales simp_all

text \<open>
  The table of a block holds, for every byte \<open>c\<close>, a byte that follows \<open>c\<close> most often in
  the block (counts saturate at 65535), and with any table whatever the two transforms are
  inverse to each other and keep the length.
\<close>

theorem predict_table_and_roundtrip:
  "successor_count data c b \<le> successor_count data c (zupt_predict_build True data ! unat c) \<and>
   zupt_predict_decode p (zupt_predict_encode p xs) = xs \<and>
   zupt_predict_encode p (zupt_predict_decode p xs) = xs \<and>
   length (zupt_predict_encode p xs) = length xs"
  by (simp add: zupt_predict_build_max predict.bwd_fwd predict_inverse.bwd_fwd predict.length_fwd)

end
