(* ===== verification/Filetype.thy ===== *)
theory Filetype
  imports Prelude
begin

text \<open>
  File type detection by magic bytes (\<open>src/zupt_filetype.c\<close>): the table scan with its two
  special cases and the text heuristic of \<open>zupt_detect_filetype\<close>. The code compares the
  table's pointers with \<open>M_MP4_1\<close> and \<open>M_WEBP\<close>; here every signature has a name and the
  comparison is one of names.
\<close>

datatype magic_name =
    M_JPEG | M_PNG | M_GIF | M_ZIP | M_GZIP | M_ZSTD | M_XZ | M_7Z | M_BZ2 | M_LZ4
  | M_MP4_1 | M_WEBP | M_FLAC | M_OGG | M_PDF | M_ELF

fun magic_bytes :: "magic_name \<Rightarrow> bytes" where
  "magic_bytes M_JPEG = [0xFF, 0xD8, 0xFF]"
| "magic_bytes M_PNG = [0x89, 0x50, 0x4E, 0x47]"
| "magic_bytes M_GIF = [0x47, 0x49, 0x46, 0x38]"
| "magic_bytes M_ZIP = [0x50, 0x4B, 0x03, 0x04]"
| "magic_bytes M_GZIP = [0x1F, 0x8B]"
| "magic_bytes M_ZSTD = [0x28, 0xB5, 0x2F, 0xFD]"
| "magic_bytes M_XZ = [0xFD, 0x37, 0x7A, 0x58, 0x5A, 0x00]"
| "magic_bytes M_7Z = [0x37, 0x7A, 0xBC, 0xAF, 0x27, 0x1C]"
| "magic_bytes M_BZ2 = [0x42, 0x5A, 0x68]"
| "magic_bytes M_LZ4 = [0x04, 0x22, 0x4D, 0x18]"
| "magic_bytes M_MP4_1 = [0x00, 0x00, 0x00]"
| "magic_bytes M_WEBP = [0x52, 0x49, 0x46, 0x46]"
| "magic_bytes M_FLAC = [0x66, 0x4C, 0x61, 0x43]"
| "magic_bytes M_OGG = [0x4F, 0x67, 0x67, 0x53]"
| "magic_bytes M_PDF = [0x25, 0x50, 0x44, 0x46]"
| "magic_bytes M_ELF = [0x7F, 0x45, 0x4C, 0x46]"

record zupt_magic_entry_t =
  magic :: magic_name
  magic_len :: nat
  level_hint :: int

definition MAGIC_TABLE :: "zupt_magic_entry_t list" where
  "MAGIC_TABLE = map (\<lambda>(m, l, h). \<lparr>magic = m, magic_len = l, level_hint = h\<rparr>)
     [(M_JPEG, 3, -1), (M_PNG, 4, -1), (M_GIF, 4, -1), (M_ZIP, 4, -1), (M_GZIP, 2, -1),
      (M_ZSTD, 4, -1), (M_XZ, 6, -1), (M_7Z, 6, -1), (M_BZ2, 3, -1), (M_LZ4, 4, -1),
      (M_FLAC, 4, -1), (M_OGG, 4, -1), (M_PDF, 4, 5), (M_ELF, 4, 5)]"

text \<open>The table loop: \<open>Some\<close> is a \<open>return\<close>, \<open>None\<close> is reaching the sentinel.\<close>

fun magic_scan :: "bytes \<Rightarrow> zupt_magic_entry_t list \<Rightarrow> int option" where
  "magic_scan header [] = None"
| "magic_scan header (e # es) =
     (if length header \<ge> magic_len e \<and>
         take (magic_len e) header = take (magic_len e) (magic_bytes (magic e)) then
        (if magic e = M_MP4_1 \<and> length header \<ge> 8 then
           (if take 4 (drop 4 header) = [0x66, 0x74, 0x79, 0x70] then Some (-1)
            else magic_scan header es)
         else if magic e = M_WEBP \<and> length header \<ge> 12 then
           (if take 4 (drop 8 header) = [0x57, 0x45, 0x42, 0x50] then Some (-1)
            else magic_scan header es)
         else Some (level_hint e))
      else magic_scan header es)"

definition is_text_char :: "u8 \<Rightarrow> bool" where
  "is_text_char c \<longleftrightarrow> 0x20 \<le> c \<and> c \<le> 0x7E \<or> c = 10 \<or> c = 13 \<or> c = 9"

fun count_text :: "bytes \<Rightarrow> nat \<Rightarrow> nat" where
  "count_text [] text_chars = text_chars"
| "count_text (c # cs) text_chars =
     count_text cs (if is_text_char c then text_chars + 1 else text_chars)"

definition zupt_detect_filetype :: "bytes \<Rightarrow> int" where
  "zupt_detect_filetype header =
     (if length header < 6 then 0
      else case magic_scan header MAGIC_TABLE of
        Some r \<Rightarrow> r
      | None \<Rightarrow>
          let check_len = (if length header > 512 then 512 else length header);
              text_chars = count_text (take check_len header) 0 in
          if check_len > 0 \<and> text_chars * 100 div check_len > 90 then 9 else 0)"

section \<open>What the scan can return\<close>

lemma count_text_eq: "count_text cs n = n + length (filter is_text_char cs)"
  by (induction cs arbitrary: n) auto

lemma magic_scan_hint:
  "magic_scan header es = Some r \<Longrightarrow>
   \<forall>e \<in> set es. magic e \<noteq> M_MP4_1 \<and> magic e \<noteq> M_WEBP \<Longrightarrow>
   \<exists>e \<in> set es. r = level_hint e \<and> take (magic_len e) header = take (magic_len e) (magic_bytes (magic e))"
  by (induction header es rule: magic_scan.induct) (auto split: if_splits)

lemma magic_scan_None:
  "magic_scan header es = None \<Longrightarrow> e \<in> set es \<Longrightarrow> magic e \<noteq> M_MP4_1 \<Longrightarrow> magic e \<noteq> M_WEBP \<Longrightarrow>
   magic_len e \<le> length header \<Longrightarrow>
   take (magic_len e) header \<noteq> take (magic_len e) (magic_bytes (magic e))"
  by (induction header es rule: magic_scan.induct) (auto split: if_splits)

lemma MAGIC_TABLE_no_container: "e \<in> set MAGIC_TABLE \<Longrightarrow> magic e \<noteq> M_MP4_1 \<and> magic e \<noteq> M_WEBP"
  by (auto simp: MAGIC_TABLE_def)

lemma zupt_detect_filetype_range: "zupt_detect_filetype header \<in> {-1, 0, 5, 9}"
proof (cases "magic_scan header MAGIC_TABLE")
  case None
  then show ?thesis by (simp add: zupt_detect_filetype_def Let_def)
next
  case (Some r)
  then obtain e where "e \<in> set MAGIC_TABLE" "r = level_hint e"
    using magic_scan_hint MAGIC_TABLE_no_container by blast
  then have "r \<in> {-1, 5}" by (auto simp: MAGIC_TABLE_def)
  with Some show ?thesis by (auto simp: zupt_detect_filetype_def)
qed

text \<open>
  A block that begins with none of the table's signatures is never classified as
  incompressible, whatever its bytes: in particular no MP4 and no WebP file is, although the
  source has a branch for each of the two, because neither signature is in the table.
\<close>

lemma zupt_detect_filetype_store:
  assumes "zupt_detect_filetype header = -1"
  shows "\<exists>e \<in> set MAGIC_TABLE. level_hint e = -1 \<and>
           take (magic_len e) header = take (magic_len e) (magic_bytes (magic e))"
proof -
  from assms have "magic_scan header MAGIC_TABLE = Some (-1)"
    by (auto simp: zupt_detect_filetype_def Let_def split: if_splits option.splits)
  then show ?thesis
    using magic_scan_hint [of header MAGIC_TABLE] MAGIC_TABLE_no_container by fastforce
qed

lemma signature_hint_unique:
  assumes "e \<in> set MAGIC_TABLE" "take (magic_len e) h = take (magic_len e) (magic_bytes (magic e))"
    and "f \<in> set MAGIC_TABLE" "take (magic_len f) h = take (magic_len f) (magic_bytes (magic f))"
    and "h \<noteq> []"
  shows "level_hint e = level_hint f"
proof -
  obtain b r where h: "h = b # r" using assms(5) by (cases h) auto
  have hd: "b = hd (magic_bytes (magic e)) \<and> level_hint e = (if b = 0x25 \<or> b = 0x7F then 5 else -1)"
    if "e \<in> set MAGIC_TABLE" "take (magic_len e) h = take (magic_len e) (magic_bytes (magic e))" for e
    using that by (auto simp: MAGIC_TABLE_def h)
  show ?thesis using hd [OF assms(1,2)] hd [OF assms(3,4)] by simp
qed

lemma zupt_detect_filetype_store_iff:
  "zupt_detect_filetype header = -1 \<longleftrightarrow>
   6 \<le> length header \<and> (\<exists>e \<in> set MAGIC_TABLE. level_hint e = -1 \<and>
      take (magic_len e) header = take (magic_len e) (magic_bytes (magic e)))"
proof (intro iffI conjI)
  assume s: "zupt_detect_filetype header = -1"
  then show "6 \<le> length header" by (auto simp: zupt_detect_filetype_def split: if_splits)
  show "\<exists>e \<in> set MAGIC_TABLE. level_hint e = -1 \<and>
      take (magic_len e) header = take (magic_len e) (magic_bytes (magic e))"
    by (rule zupt_detect_filetype_store [OF s])
next
  assume "6 \<le> length header \<and> (\<exists>e \<in> set MAGIC_TABLE. level_hint e = -1 \<and>
      take (magic_len e) header = take (magic_len e) (magic_bytes (magic e)))"
  then obtain e where len: "6 \<le> length header" and e: "e \<in> set MAGIC_TABLE" "level_hint e = -1"
      "take (magic_len e) header = take (magic_len e) (magic_bytes (magic e))"
    by auto
  have "magic_len e \<le> length header" using e(1) len by (auto simp: MAGIC_TABLE_def)
  then obtain r where r: "magic_scan header MAGIC_TABLE = Some r"
    using magic_scan_None [OF _ e(1)] MAGIC_TABLE_no_container [OF e(1)] e(3)
    by (cases "magic_scan header MAGIC_TABLE") auto
  then obtain f where f: "f \<in> set MAGIC_TABLE" "r = level_hint f"
      "take (magic_len f) header = take (magic_len f) (magic_bytes (magic f))"
    using magic_scan_hint MAGIC_TABLE_no_container by blast
  have "header \<noteq> []" using len by auto
  then have "r = -1" using signature_hint_unique [OF e(1,3) f(1,3)] e(2) f(2) by simp
  with r len show "zupt_detect_filetype header = -1" by (simp add: zupt_detect_filetype_def)
qed

text \<open>
  The hint is one of the four documented levels, and \<open>-1\<close> (store without compressing) is
  returned exactly for blocks of at least six bytes that begin with a signature of the table
  that carries it. A block that starts as an MP4 or WebP file does is therefore never stored,
  although the code has a branch for each of the two.
\<close>

theorem filetype_store_only_for_signature:
  "zupt_detect_filetype header \<in> {-1, 0, 5, 9} \<and>
   (zupt_detect_filetype header = -1 \<longleftrightarrow>
      6 \<le> length header \<and> (\<exists>e \<in> set MAGIC_TABLE. level_hint e = -1 \<and>
        take (magic_len e) header = take (magic_len e) (magic_bytes (magic e)))) \<and>
   zupt_detect_filetype ([0x00, 0x00, 0x00, 0x18, 0x66, 0x74, 0x79, 0x70] @ r) \<noteq> -1 \<and>
   zupt_detect_filetype ([0x52, 0x49, 0x46, 0x46, a, b, c, d, 0x57, 0x45, 0x42, 0x50] @ r) \<noteq> -1"
proof -
  have no: "zupt_detect_filetype h \<noteq> -1" if "h ! 0 = 0x00 \<or> h ! 0 = 0x52" "h \<noteq> []" for h
    using that by (cases h) (auto simp: zupt_detect_filetype_store_iff MAGIC_TABLE_def)
  show ?thesis
    using zupt_detect_filetype_range
    by (intro conjI zupt_detect_filetype_store_iff no) simp_all
qed

end
