(* ===== verification/Bcj.thy ===== *)
theory Bcj
  imports Prelude
begin

text \<open>
  The branch converters of the VaptVupt codec (\<open>src/vv_bcj.c\<close>): relative branch targets of x86
  and AArch64 code are made absolute before compression and relative again after
  decompression. Both filters work in place on arbitrary bytes, and the codec relies on the
  inverse filter undoing the forward filter for every input. \<open>encoding\<close> selects the
  direction, \<open>ip\<close> is the stream position of byte 0.
\<close>

section \<open>The x86 filter\<close>

definition bcj_test_msb :: "u8 \<Rightarrow> bool" where
  "bcj_test_msb b \<longleftrightarrow> b = 0x00 \<or> b = 0xFF"

text \<open>The scan for the next byte \<open>E8\<close> or \<open>E9\<close> below \<open>limit\<close>.\<close>

function bcj_scan :: "bytes \<Rightarrow> nat \<Rightarrow> nat \<Rightarrow> nat" where
  "bcj_scan data p limit =
     (if p < limit then if data ! p AND 0xFE = 0xE8 then p else bcj_scan data (p + 1) limit
      else p)"
  by pat_completeness auto
termination by (relation "measure (\<lambda>(data, p, limit). limit - p)") auto

declare bcj_scan.simps [simp del]

definition bcj_read :: "bytes \<Rightarrow> nat \<Rightarrow> u32" where
  "bcj_read data p =
     push_bit 24 (ucast (data ! (p + 4))) OR push_bit 16 (ucast (data ! (p + 3))) OR
     push_bit 8 (ucast (data ! (p + 2))) OR ucast (data ! (p + 1))"

text \<open>The new displacement of the instruction at stream position \<open>cur\<close>.\<close>

definition bcj_convert :: "bool \<Rightarrow> u32 \<Rightarrow> u32 \<Rightarrow> u32 \<Rightarrow> u32" where
  "bcj_convert encoding m cur v =
     (let v1 = (if encoding then v + cur else v - cur) in
      if m \<noteq> 0 then
        let sh = unat (push_bit 2 (m AND 6)) in
        if bcj_test_msb (ucast (drop_bit sh v1 AND 0xFF)) then
          let v2 = v1 XOR (push_bit sh 0x100 - 1) in
          (if encoding then v2 + cur else v2 - cur)
        else v1
      else v1)"

definition bcj_write :: "bytes \<Rightarrow> nat \<Rightarrow> u32 \<Rightarrow> bytes" where
  "bcj_write data p v =
     data[p + 1 := ucast (v AND 0xFF), p + 2 := ucast (drop_bit 8 v AND 0xFF),
          p + 3 := ucast (drop_bit 16 v AND 0xFF),
          p + 4 := ucast ((0 - (drop_bit 24 v AND 1)) AND 0xFF)]"

text \<open>The rolling mask after \<open>d\<close> skipped bytes, and the test that refuses a candidate.\<close>

definition bcj_roll :: "nat \<Rightarrow> u32 \<Rightarrow> u32" where
  "bcj_roll d m = (if d > 2 then 0 else drop_bit d m)"

definition bcj_refused :: "bytes \<Rightarrow> nat \<Rightarrow> u32 \<Rightarrow> bool" where
  "bcj_refused data p m \<longleftrightarrow>
     m \<noteq> 0 \<and> (m > 4 \<or> m = 3 \<or> bcj_test_msb (data ! (p + (unat (drop_bit 1 m) + 1))))"

text \<open>
  The state machine: the scan position and the rolling mask of recent sightings. The result
  is the transformed buffer and the returned position.
\<close>

lemma bcj_scan_ge: "p \<le> bcj_scan data p lim"
  by (induction data p lim rule: bcj_scan.induct)
     (subst bcj_scan.simps, auto)

function bcj_x86_loop :: "bool \<Rightarrow> u32 \<Rightarrow> nat \<Rightarrow> bytes \<Rightarrow> nat \<Rightarrow> u32 \<Rightarrow> bytes \<times> nat" where
  "bcj_x86_loop encoding ip lim data pos msk =
     (if \<not> bcj_scan data pos lim < lim then (data, bcj_scan data pos lim)
      else
        let p = bcj_scan data pos lim; m = bcj_roll (p - pos) msk in
        if bcj_refused data p m then
          bcj_x86_loop encoding ip lim data (p + 1) (drop_bit 1 m OR 4)
        else if bcj_test_msb (data ! (p + 4)) then
          bcj_x86_loop encoding ip lim
            (bcj_write data p (bcj_convert encoding m (ip + word_of_nat p) (bcj_read data p)))
            (p + 5) 0
        else bcj_x86_loop encoding ip lim data (p + 1) (drop_bit 1 m OR 4))"
  by pat_completeness auto
termination
proof (relation "measure (\<lambda>(encoding, ip, lim, data, pos, msk). lim - pos)", simp, goal_cases)
  case (1 encoding ip lim data pos msk p m)
  then show ?case using bcj_scan_ge [of pos data lim] by simp
next
  case (2 encoding ip lim data pos msk p m)
  then show ?case using bcj_scan_ge [of pos data lim] by simp
next
  case (3 encoding ip lim data pos msk p m)
  then show ?case using bcj_scan_ge [of pos data lim] by simp
qed

declare bcj_x86_loop.simps [simp del]

definition vv_bcj_x86 :: "bytes \<Rightarrow> u32 \<Rightarrow> bool \<Rightarrow> bytes \<times> nat" where
  "vv_bcj_x86 data ip encoding =
     (if length data < 5 then (data, 0)
      else bcj_x86_loop encoding (ip + 5) (length data - 4) data 0 0)"

section \<open>The AArch64 filter\<close>

definition arm64_word :: "bytes \<Rightarrow> nat \<Rightarrow> u32" where
  "arm64_word data pos =
     ucast (data ! pos) OR push_bit 8 (ucast (data ! (pos + 1))) OR
     push_bit 16 (ucast (data ! (pos + 2))) OR push_bit 24 (ucast (data ! (pos + 3)))"

text \<open>One instruction: \<open>None\<close> when it is neither \<open>BL\<close> nor \<open>ADRP\<close> (the \<open>continue\<close>).\<close>

definition arm64_convert :: "bool \<Rightarrow> u32 \<Rightarrow> u32 \<Rightarrow> u32 option" where
  "arm64_convert encoding at0 insn =
     (if drop_bit 26 insn = 0x25 then
        let imm = insn AND 0x03FFFFFF; cur = drop_bit 2 at0;
            imm = (if encoding then (imm + cur) AND 0x03FFFFFF else (imm - cur) AND 0x03FFFFFF) in
        Some ((insn AND 0xFC000000) OR imm)
      else if insn AND 0x9F000000 = 0x90000000 then
        let imm = (drop_bit 29 insn AND 3) OR push_bit 2 (drop_bit 5 insn AND 0x7FFFF);
            cur = drop_bit 12 at0;
            imm = (if encoding then (imm + cur) AND 0x001FFFFF else (imm - cur) AND 0x001FFFFF) in
        Some ((insn AND 0x9F00001F) OR push_bit 29 (imm AND 3) OR
              push_bit 5 (drop_bit 2 imm AND 0x7FFFF))
      else None)"

definition arm64_write :: "bytes \<Rightarrow> nat \<Rightarrow> u32 \<Rightarrow> bytes" where
  "arm64_write data pos insn =
     data[pos := ucast (insn AND 0xFF), pos + 1 := ucast (drop_bit 8 insn AND 0xFF),
          pos + 2 := ucast (drop_bit 16 insn AND 0xFF),
          pos + 3 := ucast (drop_bit 24 insn AND 0xFF)]"

function bcj_arm64_loop :: "bool \<Rightarrow> u32 \<Rightarrow> nat \<Rightarrow> bytes \<Rightarrow> nat \<Rightarrow> bytes \<times> nat" where
  "bcj_arm64_loop encoding ip limit data pos =
     (if pos < limit then
        case arm64_convert encoding (ip + word_of_nat pos) (arm64_word data pos) of
          None \<Rightarrow> bcj_arm64_loop encoding ip limit data (pos + 4)
        | Some insn \<Rightarrow> bcj_arm64_loop encoding ip limit (arm64_write data pos insn) (pos + 4)
      else (data, pos))"
  by pat_completeness auto
termination by (relation "measure (\<lambda>(encoding, ip, limit, data, pos). limit - pos)") auto

declare bcj_arm64_loop.simps [simp del]

definition vv_bcj_arm64 :: "bytes \<Rightarrow> u32 \<Rightarrow> bool \<Rightarrow> bytes \<times> nat" where
  "vv_bcj_arm64 data ip encoding =
     (if length data < 4 then (data, 0)
      else bcj_arm64_loop encoding ip (length data - length data mod 4) data 0)"

section \<open>Bits of the x86 conversion\<close>

text \<open>
  A converted displacement is only known modulo \<open>2 ^ 25\<close>: the fifth byte of the instruction is
  rewritten as the sign extension of bit 24. \<open>byte_at sh v\<close> is the byte of \<open>v\<close> the mask selects.
\<close>

definition byte_at :: "nat \<Rightarrow> u32 \<Rightarrow> u8" where "byte_at sh v = ucast (drop_bit sh v AND 0xFF)"

lemma byte_at_cong: "take_bit (sh + 8) v = take_bit (sh + 8) w \<Longrightarrow> byte_at sh v = byte_at sh w"
proof -
  assume "take_bit (sh + 8) v = take_bit (sh + 8) w"
  then have "bit v n = bit w n" if "n < sh + 8" for n
    by (metis bit_take_bit_iff that)
  then show ?thesis unfolding byte_at_def
    by (intro bit_word_eqI) (auto simp: bit_simps and_0xFF)
qed

lemma pm: "push_bit sh 0x100 - 1 = (mask (sh + 8) :: u32)"
  by (simp add: mask_eq_exp_minus_1 push_bit_eq_mult power_add mult.commute)

lemma byte_at_not: "sh + 8 \<le> 32 \<Longrightarrow> byte_at sh (NOT v) = NOT (byte_at sh v)"
  unfolding byte_at_def
  by (intro bit_word_eqI) (auto simp: bit_simps and_0xFF)

lemma byte_at_xor: "sh + 8 \<le> 32 \<Longrightarrow> byte_at sh (v XOR mask (sh + 8)) = NOT (byte_at sh v)"
  unfolding byte_at_def
  by (intro bit_word_eqI) (auto simp: bit_simps and_0xFF)

lemma msb_not [simp]: "bcj_test_msb (NOT b) = bcj_test_msb b"
proof -
  have ff: "(0xFF :: u8) = NOT 0" by simp
  show ?thesis unfolding bcj_test_msb_def ff by (metis bit.double_compl)
qed

lemma cong_xor_not: "take_bit k (v XOR mask k) = take_bit k (NOT v :: 'a::len word)"
  by (rule bit_word_eqI) (auto simp: bit_simps)

lemma NOT_minus: "NOT v = - v - (1 :: 'a::len word)" by (simp add: not_eq_complement)

lemma x: assumes "k = sh + 8" "sh + 8 \<le> 32"
  shows "byte_at sh (((v + cur) XOR mask k) + cur) = NOT (byte_at sh v)" 
   "byte_at sh (((v - cur) XOR mask k) - cur) = NOT (byte_at sh v)" 
proof -
  have "take_bit k (((v + cur) XOR mask k) + cur) = take_bit k (NOT (v + cur) + cur)"
    by (rule cong_add [OF cong_xor_not])
  also have "NOT (v + cur) + cur = NOT v" by (simp add: NOT_minus)
  finally show "byte_at sh (((v + cur) XOR mask k) + cur) = NOT (byte_at sh v)"
    using assms byte_at_cong byte_at_not by metis
  have "take_bit k (((v - cur) XOR mask k) - cur) = take_bit k (NOT (v - cur) - cur)"
    by (rule cong_diff [OF cong_xor_not])
  also have "NOT (v - cur) - cur = NOT v" by (simp add: NOT_minus)
  finally show "byte_at sh (((v - cur) XOR mask k) - cur) = NOT (byte_at sh v)"
    using assms byte_at_cong byte_at_not by metis
qed


lemma mask_cases: "(m :: u32) < 8 \<Longrightarrow> m = 0 \<or> m = 1 \<or> m = 2 \<or> m = 3 \<or> m = 4 \<or> m = 5 \<or> m = 6 \<or> m = 7"
proof -
  assume "m < 8"
  then have "unat m < 8" by (simp add: word_less_nat_alt)
  then have "unat m \<in> {0,1,2,3,4,5,6,7}" by auto
  then have "word_of_nat (unat m) \<in> (word_of_nat ` {0,1,2,3,4,5,6,7} :: u32 set)" by (rule imageI)
  then show ?thesis by simp
qed

text \<open>A candidate is converted only with one of the masks 0, 1, 2 and 4.\<close>

lemma bcj_not_refused:
  assumes "m < 8" "\<not> bcj_refused data p m"
  shows "m = 0 \<or> (\<exists>i<3. m = 2 ^ i \<and> unat (push_bit 2 (m AND 6)) = 8 * i \<and>
           \<not> bcj_test_msb (data ! (p + i + 1)))"
proof -
  consider "m = 0" | "m = 1" | "m = 2" | "m = 4"
    using mask_cases [OF assms(1)] assms(2) by (auto simp: bcj_refused_def)
  then show ?thesis
  proof cases
    case 2 
    have "m = 2 ^ 0" "unat (push_bit 2 (m AND 6)) = 8 * 0" "\<not> bcj_test_msb (data ! (p + 0 + 1))"
      using assms(2) 2 by (simp_all add: bcj_refused_def)
    then show ?thesis by (intro disjI2 exI [of _ 0] conjI) (assumption | simp)+
  next
    case 3
    have "m = 2 ^ 1" "unat (push_bit 2 (m AND 6)) = 8 * 1" "\<not> bcj_test_msb (data ! (p + 1 + 1))"
      using assms(2) 3 by (simp_all add: bcj_refused_def)
    then show ?thesis by (intro disjI2 exI [of _ 1] conjI) (assumption | simp)+
  next
    case 4 
    have "m = 2 ^ 2" "unat (push_bit 2 (m AND 6)) = 8 * 2" "\<not> bcj_test_msb (data ! (p + 2 + 1))"
      using assms(2) 4 by (simp_all add: bcj_refused_def numeral_3_eq_3)
    then show ?thesis by (intro disjI2 exI [of _ 2] conjI) (assumption | simp)+
  qed simp
qed

lemma conv_alt: 
  assumes "m = 2 ^ i" "i < 3" "unat (push_bit 2 (m AND 6)) = 8 * i"
  shows "bcj_convert e m cur v = 
    (let v1 = (if e then v + cur else v - cur) in
     if bcj_test_msb (byte_at (8 * i) v1) then (if e then (v1 XOR mask (8 * i + 8)) + cur else (v1 XOR mask (8 * i + 8)) - cur) else v1)"
proof -
  have "m \<noteq> 0" using assms(1,2) by (auto simp: less_Suc_eq numeral_3_eq_3)
  then show ?thesis unfolding bcj_convert_def assms(3) pm byte_at_def Let_def by simp
qed

lemma conv_tb:
  assumes "m = 2 ^ i" "i < 3" "unat (push_bit 2 (m AND 6)) = 8 * i" "\<not> bcj_test_msb (byte_at (8 * i) v)"
  shows "\<not> bcj_test_msb (byte_at (8 * i) (bcj_convert e m cur v))"
  using assms(2,4) x [OF refl, of "8 * i"] unfolding conv_alt [OF assms(1-3)] Let_def by (auto)

lemma conv_inv:
  assumes "m = 2 ^ i" "i < 3" "unat (push_bit 2 (m AND 6)) = 8 * i" "\<not> bcj_test_msb (byte_at (8 * i) v)"
    and x: "take_bit 25 x = take_bit 25 (bcj_convert True m cur v)"
  shows "take_bit 25 (bcj_convert False m cur x) = take_bit 25 v"
proof -
  let ?t = "\<lambda>v. bcj_test_msb (byte_at (8 * i) v)"
  have le: "8 * i + 8 \<le> 25" "8 * i + 8 \<le> 32" using assms(2) by auto
  have t: "?t a = ?t b" if "take_bit 25 a = take_bit 25 b" for a b
    using byte_at_cong [OF cong_le [OF that le(1)]] by simp
  note c = conv_alt [OF assms(1-3), unfolded Let_def]
  show ?thesis
  proof (cases "?t (v + cur)")
    case False
    then have *: "take_bit 25 (x - cur) = take_bit 25 v"
      using cong_diff [OF x, of cur] by (simp add: c)
    with assms(4) have "\<not> ?t (x - cur)" using t by blast
    with * show ?thesis by (simp add: c)
  next
    case True
    let ?M = "mask (8 * i + 8) :: u32"
    have *: "take_bit 25 (x - cur) = take_bit 25 ((v + cur) XOR ?M)"
      using cong_diff [OF x, of cur] True by (simp add: c)
    have "?t ((v + cur) XOR ?M)" using True byte_at_xor [OF le(2)] by simp
    then have "?t (x - cur)" using t [OF *] by blast
    moreover have "take_bit 25 (((x - cur) XOR ?M) - cur) = take_bit 25 v"
      using cong_diff [OF cong_xor [OF *], of ?M cur] by (simp add: xor.assoc)
    ultimately show ?thesis by (simp add: c)
  qed
qed

lemma conv_inv_0:
  assumes "take_bit 25 x = take_bit 25 (bcj_convert True 0 cur v)"
  shows "take_bit 25 (bcj_convert False 0 cur x) = take_bit 25 v"
  using cong_diff [OF assms, of cur] by (simp add: bcj_convert_def)


lemma length_bcj_write [simp]: "length (bcj_write data p v) = length data"
  by (simp add: bcj_write_def)

lemma bcj_write_nth_other: "j \<le> p \<Longrightarrow> bcj_write data p v ! j = data ! j"
  by (simp add: bcj_write_def)

lemma bcj_write_nth:
  "i < 3 \<Longrightarrow> p + 4 < length data \<Longrightarrow> bcj_write data p v ! (p + i + 1) = byte_at (8 * i) v"
  unfolding numeral_3_eq_3 less_Suc_eq
  by (auto simp: bcj_write_def byte_at_def numeral_3_eq_3)

lemma ucast_minus_1 [simp]: "(ucast (- 1 :: u32) :: u8) = - 1"
  by (rule bit_word_eqI) (auto simp: bit_simps dest!: less_8_cases)

lemma sign_byte: "bcj_test_msb (ucast ((0 - (w AND 1)) AND 0xFF :: u32))"
proof -
  have "w AND 1 = 0 \<or> w AND 1 = 1" by (simp add: and_one_eq mod_2_eq_odd)
  moreover have "(ucast (- 1 :: u32) :: u8) = 0xFF"
    by simp
  ultimately show ?thesis by (auto simp: bcj_test_msb_def)
qed

lemma bcj_write_nth_4: "p + 4 < length data \<Longrightarrow> bcj_test_msb (bcj_write data p v ! (p + 4))"
  using sign_byte by (simp add: bcj_write_def)

lemma bcj_write_write: "bcj_write (bcj_write data p w) p v = bcj_write data p v"
  by (simp add: bcj_write_def list_update_swap)

lemma bcj_write_cong:
  assumes "take_bit 25 v = take_bit 25 w" shows "bcj_write data p v = bcj_write data p w"
proof -
  have b: "bit v n = bit w n" if "n < 25" for n
    using assms that by (metis bit_take_bit_iff)
  have "(ucast v :: u8) = ucast w" "(ucast (drop_bit 8 v) :: u8) = ucast (drop_bit 8 w)"
    "(ucast (drop_bit 16 v) :: u8) = ucast (drop_bit 16 w)"
    by (rule bit_word_eqI; simp add: bit_simps b)+
  moreover have "drop_bit 24 v AND 1 = drop_bit 24 w AND 1"
    using b [of 24] by (simp add: and_one_eq bit_iff_odd_drop_bit mod_2_eq_odd)
  ultimately show ?thesis unfolding bcj_write_def by simp
qed

lemma ucast_FF: "bcj_test_msb b \<Longrightarrow> bit b n = (bit b 0 \<and> n < 8)"
  unfolding bcj_test_msb_def
proof (elim disjE)
  assume "b = 0xFF"
  then have b: "b = - 1" by simp
  show ?thesis unfolding b by (auto simp: bit_simps)
qed simp

lemma bcj_read_bit:
  assumes "n < 32" shows "bit (bcj_read data p) n = bit (data ! (p + (n div 8 + 1))) (n mod 8)"
proof -
  consider "n < 8" | "8 \<le> n" "n < 16" | "16 \<le> n" "n < 24" | "24 \<le> n" "n < 32" using assms by linarith
  then show ?thesis
  proof cases
    case 1 then show ?thesis by (simp add: bcj_read_def bit_simps)
  next
    case 2 then have "n div 8 = 1" "n mod 8 = n - 8" by presburger+
    then show ?thesis using 2 by (auto simp: bcj_read_def bit_simps dest: bit_imp_le_length)
  next
    case 3 then have "n div 8 = 2" "n mod 8 = n - 16" by presburger+
    then show ?thesis using 3 by (auto simp: bcj_read_def bit_simps numeral_3_eq_3 dest: bit_imp_le_length)
  next
    case 4 then have n: "n mod 8 = n - 24" and p: "p + (n div 8 + 1) = p + 4" by presburger+
    show ?thesis unfolding n p using 4 by (auto simp: bcj_read_def bit_simps dest: bit_imp_le_length)
  qed
qed

lemma bcj_read_bit_24: "bit (bcj_read data p) 24 = bit (data ! (p + 4)) 0"
  using bcj_read_bit [of 24 data p] by (simp add: ac_simps)

lemma byte_at_read:
  assumes "i < 3" shows "byte_at (8 * i) (bcj_read data p) = data ! (p + i + 1)"
proof (rule bit_word_eqI)
  fix n assume "n < LENGTH(8)"
  then have "bit (byte_at (8 * i) (bcj_read data p)) n = bit (bcj_read data p) (8 * i + n)"
    by (simp add: byte_at_def bit_simps)
  also have "\<dots> = bit (data ! (p + i + 1)) n"
    using assms \<open>n < LENGTH(8)\<close> bcj_read_bit [of "8 * i + n" data p] by simp
  finally show "bit (byte_at (8 * i) (bcj_read data p)) n = bit (data ! (p + i + 1)) n" .
qed

lemma bcj_read_write:
  assumes "p + 4 < length data"
  shows "take_bit 25 (bcj_read (bcj_write data p v) p) = take_bit 25 v"
proof (rule bit_word_eqI)
  fix n assume "n < LENGTH(32)"
  show "bit (take_bit 25 (bcj_read (bcj_write data p v) p)) n = bit (take_bit 25 v) n"
  proof (cases "n < 24")
    case True
    then have "n div 8 < 3" by auto
    have "bit (bcj_read (bcj_write data p v) p) n = bit (byte_at (8 * (n div 8)) v) (n mod 8)"
      using True bcj_write_nth [OF \<open>n div 8 < 3\<close> assms] by (simp add: bcj_read_bit)
    also have "\<dots> = bit v n" using True by (simp add: byte_at_def bit_simps)
    finally show ?thesis by (simp add: bit_simps)
  next
    case False
    show ?thesis
    proof (cases "n = 24")
      case True
      have "bcj_write data p v ! (p + 4) = ucast (- (drop_bit 24 v AND 1))"
        using assms by (simp add: bcj_write_def)
      then have "bit (bcj_read (bcj_write data p v) p) 24 = bit v 24"
        using bcj_read_bit_24 [of _ p] by (cases "odd (drop_bit 24 v)") (simp_all add: bit_iff_odd_drop_bit [of v] bit_0 and_one_eq mod_2_eq_odd)
      then show ?thesis using True by (simp only: bit_take_bit_iff)
    qed (use False in \<open>simp add: bit_simps\<close>)
  qed
qed

lemma bcj_write_read:
  assumes "p + 4 < length data" "bcj_test_msb (data ! (p + 4))"
  shows "bcj_write data p (bcj_read data p) = data"
proof (rule nth_equalityI)
  fix j assume "j < length (bcj_write data p (bcj_read data p))"
  consider "j \<le> p" | i where "i < 3" "j = p + i + 1" | "j = p + 4" | "p + 4 < j"
  proof -
    have "j \<le> p \<or> (j - p - 1 < 3 \<and> j = p + (j - p - 1) + 1) \<or> j = p + 4 \<or> p + 4 < j" by arith
    then show ?thesis using that by blast
  qed
  then show "bcj_write data p (bcj_read data p) ! j = data ! j"
  proof cases
    case 2 then show ?thesis using bcj_write_nth [OF _ assms(1)] byte_at_read by simp
  next
    case 3
    let ?b = "data ! (p + 4)"
    have "drop_bit 24 (bcj_read data p) AND 1 = (if bit ?b 0 then 1 else 0)"
      using bcj_read_bit_24 [of data p]
      by (simp add: and_one_eq bit_iff_odd_drop_bit mod_2_eq_odd bit_0)
    moreover have "(0xFF :: u8) = - 1" by simp
    then have "?b = 0 \<or> ?b = - 1" using assms(2) unfolding bcj_test_msb_def by metis
    ultimately have "ucast (- (drop_bit 24 (bcj_read data p) AND 1)) = ?b"
      by (elim disjE) simp_all
    then show ?thesis using 3 assms(1) by (simp add: bcj_write_def)
  qed (simp_all add: bcj_write_def)
qed simp

section \<open>The x86 loop and its inverse\<close>

text \<open>
  The inverse filter sees the converted bytes while it takes the same decisions. The decisions
  read bytes beyond the scan position, so the invariant says which bytes later conversions
  leave alone (everything up to the position) and which keep the outcome of
  \<open>bcj_test_msb\<close> (those the rolling mask points at).
\<close>

lemma bcj_roll_less: "m < 8 \<Longrightarrow> bcj_roll d m < 8"
proof -
  assume "m < 8"
  then have "unat (drop_bit d m) < 8"
    by (simp add: unat_drop_bit word_less_nat_alt le_less_trans [OF div_le_dividend])
  then show ?thesis by (simp add: bcj_roll_def word_less_nat_alt)
qed

lemma bcj_next_less: "(m :: u32) < 8 \<Longrightarrow> drop_bit 1 m OR 4 < 8"
  by (drule mask_cases) auto

lemma bit_next: "bit (drop_bit 1 m OR 4 :: u32) i \<longleftrightarrow> bit m (i + 1) \<or> i = 2"
proof -
  have "(4 :: u32) = 2 ^ 2" by simp
  then have "bit (4 :: u32) i \<longleftrightarrow> i = 2" by (simp only: bit_exp_iff) auto
  then show ?thesis by (simp add: bit_simps)
qed

lemma bcj_scan_cong:
  "\<forall>j. pos \<le> j \<and> j \<le> bcj_scan data pos lim \<longrightarrow> out ! j = data ! j \<Longrightarrow>
   bcj_scan out pos lim = bcj_scan data pos lim"
proof (induction data pos lim rule: bcj_scan.induct)
  case (1 data p lim)
  show ?case
  proof (cases "p < lim \<and> data ! p AND 0xFE \<noteq> 0xE8")
    case True
    then have eq: "bcj_scan data p lim = bcj_scan data (p + 1) lim" by (subst bcj_scan.simps) simp
    have "out ! p = data ! p" using 1(2) bcj_scan_ge [of p data lim] by simp
    then have "bcj_scan out p lim = bcj_scan out (p + 1) lim" using True by (subst bcj_scan.simps) simp
    with True 1 eq show ?thesis by simp
  next
    case False
    then have eq: "bcj_scan data p lim = p" by (subst bcj_scan.simps) auto
    then have "out ! p = data ! p" using 1(2) by simp
    with False eq show ?thesis by (subst bcj_scan.simps) auto
  qed
qed

lemma bcj_scan_self: "bcj_scan data (bcj_scan data pos lim) lim = bcj_scan data pos lim"
proof (induction data pos lim rule: bcj_scan.induct)
  case (1 data p lim)
  show ?case
  proof (cases "p < lim \<and> data ! p AND 0xFE \<noteq> 0xE8")
    case True
    then have "bcj_scan data p lim = bcj_scan data (p + 1) lim" by (subst bcj_scan.simps) simp
    with True 1 show ?thesis by simp
  next
    case False
    then have "bcj_scan data p lim = p" by (subst bcj_scan.simps) auto
    then show ?thesis by simp
  qed
qed

definition bcj_protected :: "bytes \<Rightarrow> bytes \<Rightarrow> nat \<Rightarrow> u32 \<Rightarrow> bool" where
  "bcj_protected data out pos m \<longleftrightarrow>
     (\<forall>j\<le>pos. out ! j = data ! j) \<and>
     (\<forall>i<3. bit m i \<longrightarrow> bcj_test_msb (out ! (pos + i + 1)) = bcj_test_msb (data ! (pos + i + 1)))"

lemma bcj_protected_roll:
  assumes "pos \<le> p" "bcj_protected data out p (bcj_roll (p - pos) m)"
  shows "bcj_protected data out pos m"
  unfolding bcj_protected_def
proof (intro conjI allI impI)
  fix i :: nat assume "i < 3" "bit m i"
  show "bcj_test_msb (out ! (pos + i + 1)) = bcj_test_msb (data ! (pos + i + 1))"
  proof (cases "pos + i + 1 \<le> p")
    case False
    define k where "k = pos + i - p"
    have k: "k < 3" "p + k + 1 = pos + i + 1" "i = p - pos + k" "\<not> p - pos > 2"
      using False \<open>i < 3\<close> assms(1) by (auto simp: k_def)
    then have "bit (bcj_roll (p - pos) m) k"
      using \<open>bit m i\<close> by (simp add: bcj_roll_def bit_drop_bit_eq)
    with assms(2) k show ?thesis unfolding bcj_protected_def by metis
  qed (use assms in \<open>auto simp: bcj_protected_def\<close>)
qed (use assms in \<open>auto simp: bcj_protected_def\<close>)

lemma bcj_protected_next:
  assumes "bcj_protected data out (p + 1) (drop_bit 1 m OR 4)"
  shows "bcj_protected data out p m"
    and "bcj_test_msb (out ! (p + 4)) = bcj_test_msb (data ! (p + 4))"
proof -
  have *: "bcj_test_msb (out ! (p + 1 + i + 1)) = bcj_test_msb (data ! (p + 1 + i + 1))"
    if "i < 3" "bit m (i + 1) \<or> i = 2" for i
    using assms that by (simp only: bit_next bcj_protected_def)
  show "bcj_protected data out p m"
    unfolding bcj_protected_def
  proof (intro conjI allI impI)
    fix i :: nat assume "i < 3" "bit m i"
    then show "bcj_test_msb (out ! (p + i + 1)) = bcj_test_msb (data ! (p + i + 1))"
    proof (cases i)
      case 0
      then show ?thesis using assms by (simp add: bcj_protected_def)
    next
      case (Suc k)
      then show ?thesis using * [of k] \<open>i < 3\<close> \<open>bit m i\<close> by simp
    qed
  qed (use assms in \<open>auto simp: bcj_protected_def\<close>)
  show "bcj_test_msb (out ! (p + 4)) = bcj_test_msb (data ! (p + 4))"
    using * [of 2] by (simp add: numeral_eq_Suc)
qed

lemma bcj_refused_cong:
  assumes "bcj_protected data out p m" "m < 8"
  shows "bcj_refused out p m = bcj_refused data p m"
proof (cases "m = 1 \<or> m = 2 \<or> m = 4")
  case True
  then obtain i where i: "i < 3" "m = 2 ^ i" "unat (drop_bit 1 m) + 1 = i + 1"
  proof (elim disjE)
    assume "m = 1" then show ?thesis by (intro that [of 0]) simp_all
  next
    assume "m = 2" then show ?thesis by (intro that [of 1]) simp_all
  next
    assume "m = 4" then show ?thesis by (intro that [of 2]) simp_all
  qed
  then have "bit m i" by (simp add: bit_exp_iff)
  with assms(1) i(1) have "bcj_test_msb (out ! (p + (i + 1))) = bcj_test_msb (data ! (p + (i + 1)))"
    by (simp add: bcj_protected_def)
  then show ?thesis unfolding bcj_refused_def i(3) by simp
next
  case False
  then show ?thesis using mask_cases [OF assms(2)] by (auto simp: bcj_refused_def)
qed

lemma bcj_protected_write:
  assumes "p + 4 < length data" "m < 8" "\<not> bcj_refused data p m"
    "\<forall>j\<le>p + 5. out ! j = bcj_write data p (bcj_convert e m cur (bcj_read data p)) ! j"
  shows "bcj_protected data out p m"
  unfolding bcj_protected_def
proof (intro conjI allI impI)
  fix j assume "j \<le> p" then show "out ! j = data ! j" using assms(4) bcj_write_nth_other by simp
next
  fix i :: nat assume i: "i < 3" "bit m i"
  then have "m \<noteq> 0" by auto
  then obtain k where k: "k < 3" "m = 2 ^ k" "unat (push_bit 2 (m AND 6)) = 8 * k"
    "\<not> bcj_test_msb (data ! (p + k + 1))"
    using bcj_not_refused [OF assms(2,3)] by blast
  then have "i = k" using i by (simp add: bit_exp_iff)
  have "\<not> bcj_test_msb (byte_at (8 * k) (bcj_read data p))" using k byte_at_read by simp
  then have "\<not> bcj_test_msb (out ! (p + k + 1))"
    using conv_tb [OF k(2,1,3)] assms(1,4) k(1) by (simp only: bcj_write_nth)
  then show "bcj_test_msb (out ! (p + i + 1)) = bcj_test_msb (data ! (p + i + 1))"
    using k \<open>i = k\<close> by simp
qed

lemma bcj_roll_0 [simp]: "bcj_roll 0 m = m" by (simp add: bcj_roll_def)

lemma bcj_x86_restart:
  assumes "bcj_scan data pos lim = p" "p < lim" "m = bcj_roll (p - pos) msk"
  shows "bcj_x86_loop e ip lim data pos msk = bcj_x86_loop e ip lim data p m"
proof -
  have [simp]: "bcj_scan data p lim = p" using bcj_scan_self assms(1) by metis
  show ?thesis
    by (subst (1 2) bcj_x86_loop.simps) (simp add: assms Let_def)
qed

lemma bcj_x86_frame:
  "lim + 4 \<le> length data \<Longrightarrow> msk < 8 \<Longrightarrow> bcj_x86_loop e ip lim data pos msk = (out, q) \<Longrightarrow>
   length out = length data \<and> bcj_protected data out pos msk"
proof (induction e ip lim data pos msk rule: bcj_x86_loop.induct)
  case (1 e ip lim data pos msk)
  define p where "p = bcj_scan data pos lim"
  define m where "m = bcj_roll (p - pos) msk"
  have pos: "pos \<le> p" using bcj_scan_ge by (simp add: p_def)
  have m8: "m < 8" using 1 bcj_roll_less by (simp add: m_def)
  show ?case
  proof (cases "p < lim")
    case False
    then show ?thesis using 1(6)
      by (subst (asm) bcj_x86_loop.simps) (simp add: p_def bcj_protected_def)
  next
    case True
    have [simp]: "bcj_scan data p lim = p" using bcj_scan_self by (simp add: p_def)
      have R: "bcj_x86_loop e ip lim data p m = (out, q)"
      using 1(6) bcj_x86_restart [OF refl _ refl] True by (simp add: p_def m_def)
    note IH = 1(1-3) [OF _ p_def m_def]
    have "length out = length data \<and> bcj_protected data out p m"
    proof (cases "\<not> bcj_refused data p m \<and> bcj_test_msb (data ! (p + 4))")
      case c: True
      let ?w = "bcj_write data p (bcj_convert e m (ip + word_of_nat p) (bcj_read data p))"
      have "bcj_x86_loop e ip lim ?w (p + 5) 0 = (out, q)"
        using R c True by (subst (asm) bcj_x86_loop.simps) simp
      then have "length out = length ?w" "\<forall>j\<le>p + 5. out ! j = ?w ! j"
        using IH(2) c True 1(4) p_def by (simp_all add: bcj_protected_def)
      with bcj_protected_write [OF _ m8, of p data] c True 1(4) show ?thesis by simp
    next
      case c: False
      then have R1: "bcj_x86_loop e ip lim data (p + 1) (drop_bit 1 m OR 4) = (out, q)"
        using R True by (subst (asm) bcj_x86_loop.simps) (simp split: if_splits)
      have lt: "drop_bit 1 m OR 4 < 8" by (rule bcj_next_less [OF m8])
      have X: "length out = length data \<and> bcj_protected data out (p + 1) (drop_bit 1 m OR 4)"
      proof (cases "bcj_refused data p m")
        case r: True
        show ?thesis by (rule IH(1) [OF _ r 1(4) lt R1]) (use True p_def in simp)
      next
        case r: False
        with c have "\<not> bcj_test_msb (data ! (p + 4))" by simp
        from IH(3) [OF _ r this 1(4) lt R1] show ?thesis using True p_def by simp
      qed
      show ?thesis by (rule conjI [OF conjunct1 [OF X] bcj_protected_next(1) [OF conjunct2 [OF X]]])
    qed
    then show ?thesis using bcj_protected_roll [OF pos] by (simp add: m_def)
  qed
qed


lemma bcj_scan_update: "j < pos \<Longrightarrow> bcj_scan (data[j := x]) pos lim = bcj_scan data pos lim"
  by (rule bcj_scan_cong) auto

lemma bcj_write_update:
  "j < p \<Longrightarrow> bcj_write (data[j := x]) p v = (bcj_write data p v)[j := x]"
  by (simp add: bcj_write_def list_update_swap [of j])

lemma bcj_read_update: "j < p \<Longrightarrow> bcj_read (data[j := x]) p = bcj_read data p"
  by (simp add: bcj_read_def)

lemma bcj_refused_update: "j < p \<Longrightarrow> bcj_refused (data[j := x]) p m = bcj_refused data p m"
  by (simp add: bcj_refused_def)

lemma bcj_x86_update:
  "j < pos \<Longrightarrow> bcj_x86_loop e ip lim (data[j := x]) pos msk =
     apfst (\<lambda>l. l[j := x]) (bcj_x86_loop e ip lim data pos msk)"
proof (induction e ip lim data pos msk rule: bcj_x86_loop.induct)
  case (1 e ip lim data pos msk)
  define p where "p = bcj_scan data pos lim"
  define m where "m = bcj_roll (p - pos) msk"
  have pos: "pos \<le> p" using bcj_scan_ge by (simp add: p_def)
  then have j: "j < p" using 1(4) by simp
  have sc: "bcj_scan (data[j := x]) pos lim = p" using 1(4) bcj_scan_update by (simp add: p_def)
  note IH = 1(1-3) [OF _ p_def m_def]
  show ?case
  proof (cases "p < lim")
    case False
    then show ?thesis by (subst (1 2) bcj_x86_loop.simps) (simp add: sc flip: p_def)
  next
    case True
    then show ?thesis using IH j
      by (subst (1 2) bcj_x86_loop.simps)
         (simp add: sc Let_def bcj_refused_update bcj_write_update bcj_read_update
           flip: p_def m_def)
  qed
qed

lemma bcj_x86_write:
  assumes "p + 5 \<le> pos"
  shows "bcj_x86_loop e ip lim (bcj_write data p v) pos msk =
     apfst (\<lambda>l. bcj_write l p v) (bcj_x86_loop e ip lim data pos msk)"
  unfolding bcj_write_def using assms
  by (simp add: bcj_x86_update apfst_def map_prod_def split: prod.split)

lemma bcj_read_cong: "\<forall>j\<le>p + 5. out ! j = data ! j \<Longrightarrow> bcj_read out p = bcj_read data p"
  by (simp add: bcj_read_def)

lemma bcj_x86_inverse:
  "lim + 4 \<le> length data \<Longrightarrow> msk < 8 \<Longrightarrow> bcj_x86_loop True ip lim data pos msk = (out, q) \<Longrightarrow>
   bcj_x86_loop False ip lim out pos msk = (data, q)"
proof (induction True ip lim data pos msk rule: bcj_x86_loop.induct)
  case (1 ip lim data pos msk)
  define p where "p = bcj_scan data pos lim"
  define m where "m = bcj_roll (p - pos) msk"
  have pos: "pos \<le> p" using bcj_scan_ge by (simp add: p_def)
  have m8: "m < 8" using 1 bcj_roll_less by (simp add: m_def)
  note IH = 1(1-3) [OF _ p_def m_def]
  show ?case
  proof (cases "p < lim")
    case False
    then have "out = data" "q = p" using 1(6) by (subst (asm) bcj_x86_loop.simps, simp flip: p_def)+
    with False show ?thesis by (subst bcj_x86_loop.simps) (simp flip: p_def)
  next
    case True
    have R: "bcj_x86_loop True ip lim data p m = (out, q)"
      using 1(6) bcj_x86_restart [OF refl _ refl] True by (simp add: p_def m_def)
    note fr = bcj_x86_frame [OF 1(4) m8 R]
    have len: "p + 4 < length data" "p + 4 < length out" using True 1(4) fr by auto
    have sc: "bcj_scan out pos lim = p"
      unfolding p_def by (rule bcj_scan_cong) (use fr p_def in \<open>auto simp: bcj_protected_def\<close>)
    have start: "bcj_x86_loop False ip lim out pos msk = bcj_x86_loop False ip lim out p m"
      by (rule bcj_x86_restart [OF sc True m_def])
    have sc': "bcj_scan out p lim = p" "bcj_scan data p lim = p"
      using bcj_scan_self sc p_def by metis+
    have ref: "bcj_refused out p m = bcj_refused data p m"
      by (rule bcj_refused_cong [OF conjunct2 [OF fr] m8])
    have lt: "drop_bit 1 m OR 4 < 8" by (rule bcj_next_less [OF m8])
    show ?thesis
    proof (cases "\<not> bcj_refused data p m \<and> bcj_test_msb (data ! (p + 4))")
      case c: True
      let ?cur = "ip + word_of_nat p :: u32"
      let ?v = "bcj_convert True m ?cur (bcj_read data p)"
      let ?w = "bcj_write data p ?v"
      have R1: "bcj_x86_loop True ip lim ?w (p + 5) 0 = (out, q)"
        using R c True by (subst (asm) bcj_x86_loop.simps) (simp add: sc')
      have fr1: "\<forall>j\<le>p + 5. out ! j = ?w ! j"
        using bcj_x86_frame [OF _ _ R1] 1(4) by (simp add: bcj_protected_def)
      have IH1: "bcj_x86_loop False ip lim out (p + 5) 0 = (?w, q)"
        using IH(2) [OF _ conjunct1 [OF c] conjunct2 [OF c] _ _ R1] True 1(4) by (simp flip: p_def)
      have msb: "bcj_test_msb (out ! (p + 4))" using fr1 bcj_write_nth_4 [OF len(1)] by simp
      have rd: "take_bit 25 (bcj_read out p) = take_bit 25 ?v"
        using bcj_read_cong [OF fr1] bcj_read_write [OF len(1)] by simp
      have inv: "take_bit 25 (bcj_convert False m ?cur (bcj_read out p)) = take_bit 25 (bcj_read data p)"
      proof (cases "m = 0")
        case True then show ?thesis using conv_inv_0 rd by blast
      next
        case False
        then obtain i where i: "i < 3" "m = 2 ^ i" "unat (push_bit 2 (m AND 6)) = 8 * i"
          "\<not> bcj_test_msb (data ! (p + i + 1))"
          using bcj_not_refused [OF m8 conjunct1 [OF c]] by blast
        show ?thesis by (rule conv_inv [OF i(2,1,3) _ rd]) (use i byte_at_read in simp)
      qed
      have "bcj_x86_loop False ip lim out p m =
          bcj_x86_loop False ip lim (bcj_write out p (bcj_convert False m ?cur (bcj_read out p))) (p + 5) 0"
        using c msb True by (subst bcj_x86_loop.simps) (simp add: sc' ref)
      also have "\<dots> = (bcj_write ?w p (bcj_read data p), q)"
        by (simp add: bcj_write_cong [OF inv] bcj_x86_write IH1)
      also have "bcj_write ?w p (bcj_read data p) = data"
        using c bcj_write_read [OF len(1)] by (simp add: bcj_write_write)
      finally show ?thesis using start by simp
    next
      case c: False
      then have R1: "bcj_x86_loop True ip lim data (p + 1) (drop_bit 1 m OR 4) = (out, q)"
        using R True by (subst (asm) bcj_x86_loop.simps) (simp add: sc' split: if_splits)
      have IH1: "bcj_x86_loop False ip lim out (p + 1) (drop_bit 1 m OR 4) = (data, q)"
      proof (cases "bcj_refused data p m")
        case r: True
        show ?thesis by (rule IH(1) [OF _ r 1(4) lt R1]) (use True p_def in simp)
      next
        case r: False
        with c have "\<not> bcj_test_msb (data ! (p + 4))" by simp
        from IH(3) [OF _ r this 1(4) lt R1] show ?thesis using True p_def by simp
      qed
      have "bcj_test_msb (out ! (p + 4)) = bcj_test_msb (data ! (p + 4))"
        using bcj_protected_next(2) [OF conjunct2 [OF bcj_x86_frame [OF 1(4) lt R1]]] .
      then have "bcj_x86_loop False ip lim out p m =
          bcj_x86_loop False ip lim out (p + 1) (drop_bit 1 m OR 4)"
        using c True by (subst bcj_x86_loop.simps) (auto simp: sc' ref)
      then show ?thesis using start IH1 by simp
    qed
  qed
qed

lemma vv_bcj_x86_inverse: "vv_bcj_x86 (fst (vv_bcj_x86 data ip True)) ip False = (data, snd (vv_bcj_x86 data ip True))"
proof (cases "length data < 5")
  case False
  obtain out q where o: "bcj_x86_loop True (ip + 5) (length data - 4) data 0 0 = (out, q)"
    by fastforce
  have "length out = length data" using bcj_x86_frame [OF _ _ o] False by simp
  with bcj_x86_inverse [OF _ _ o] o False show ?thesis by (simp add: vv_bcj_x86_def)
qed (simp add: vv_bcj_x86_def)

section \<open>The AArch64 loop and its inverse\<close>

lemma bl_masks: "(x :: u32) AND 0x03FFFFFF = take_bit 26 x" "x AND 0xFC000000 = push_bit 26 (drop_bit 26 x)"
proof -
  have a: "(0x03FFFFFF :: u32) = mask 26" "(0xFC000000 :: u32) = NOT (mask 26)"
    by (simp_all add: mask_eq_exp_minus_1)
  show "(x :: u32) AND 0x03FFFFFF = take_bit 26 x" by (simp only: a take_bit_eq_mask)
  show "x AND 0xFC000000 = push_bit 26 (drop_bit 26 x)"
    unfolding a by (rule bit_word_eqI) (auto simp: bit_simps)
qed

lemma adrp_masks: 
  "(x :: u32) AND 3 = take_bit 2 x" "x AND 0x7FFFF = take_bit 19 x" "x AND 0x001FFFFF = take_bit 21 x"
  "(0x9F00001F :: u32) = NOT (push_bit 29 (mask 2) OR push_bit 5 (mask 19))"
proof -
  have a: "(3 :: u32) = mask 2" "(0x7FFFF :: u32) = mask 19" "(0x001FFFFF :: u32) = mask 21"
    by (simp_all add: mask_eq_exp_minus_1)
  show "(x :: u32) AND 3 = take_bit 2 x" "x AND 0x7FFFF = take_bit 19 x" "x AND 0x001FFFFF = take_bit 21 x"
    by (simp_all only: a take_bit_eq_mask)
  show  "(0x9F00001F :: u32) = NOT (push_bit 29 (mask 2) OR push_bit 5 (mask 19))"
    by (simp add: mask_eq_exp_minus_1)
qed

definition bl_join :: "u32 \<Rightarrow> u32 \<Rightarrow> u32" where
  "bl_join insn imm = (insn AND 0xFC000000) OR (imm AND 0x03FFFFFF)"

lemma bl_join: "drop_bit 26 (bl_join insn imm) = drop_bit 26 insn"
  "take_bit 26 (bl_join insn imm) = take_bit 26 imm"
  "bl_join (bl_join insn imm) insn = insn"
  proof -
  show "drop_bit 26 (bl_join insn imm) = drop_bit 26 insn"
    by (rule bit_word_eqI) (auto simp: bl_join_def bl_masks bit_simps dest: bit_imp_le_length)
  show "take_bit 26 (bl_join insn imm) = take_bit 26 imm"
    by (rule bit_word_eqI) (auto simp: bl_join_def bl_masks bit_simps)
  show "bl_join (bl_join insn imm) insn = insn"
    by (rule bit_word_eqI) (auto simp: bl_join_def bl_masks bit_simps)
qed

definition adrp_imm :: "u32 \<Rightarrow> u32" where
  "adrp_imm insn = (drop_bit 29 insn AND 3) OR push_bit 2 (drop_bit 5 insn AND 0x7FFFF)"
definition adrp_join :: "u32 \<Rightarrow> u32 \<Rightarrow> u32" where
  "adrp_join insn imm = (insn AND 0x9F00001F) OR push_bit 29 (imm AND 3) OR
              push_bit 5 (drop_bit 2 imm AND 0x7FFFF)"

lemma adrp_imm_less: "take_bit 21 (adrp_imm insn) = adrp_imm insn"
  by (rule bit_word_eqI) (auto simp: adrp_imm_def adrp_masks bit_simps)

lemma nat_two_cases: obtains "(n :: nat) < 2" | k where "n = Suc (Suc k)"
  by (cases n; cases "n - 1") auto

lemma adrp_imm_join: "adrp_imm (adrp_join insn imm) = take_bit 21 imm"
proof (rule bit_word_eqI)
  fix n assume "n < LENGTH(32)"
  then show "bit (adrp_imm (adrp_join insn imm)) n = bit (take_bit 21 imm) n"
    by (cases n rule: nat_two_cases; cases "n < 21") (auto simp: adrp_imm_def adrp_join_def adrp_masks bit_simps)
qed

lemma adrp_join_join: "adrp_join (adrp_join insn imm) (adrp_imm insn) = insn"
proof (rule bit_word_eqI)
  fix n assume n: "n < LENGTH(32)"
  have "bit (adrp_imm insn) k = (if k < 2 then bit insn (29 + k) else k < 21 \<and> bit insn (5 + (k - 2)))" for k
    by (auto simp: adrp_imm_def adrp_masks bit_simps dest: bit_imp_le_length)
  then show "bit (adrp_join (adrp_join insn imm) (adrp_imm insn)) n = bit insn n"
    using n
    by (cases "n < 5"; cases "n < 24"; cases "n < 29"; cases "n < 31") 
       (auto simp: adrp_join_def adrp_masks bit_simps)
qed


lemma adrp_mask_bit: "bit (0x9F000000 :: u32) n \<longleftrightarrow> 24 \<le> n \<and> n < 29 \<or> n = 31"
proof -
  have m: "(0x9F000000 :: u32) = push_bit 24 (mask 5) OR push_bit 31 1"
    by (simp add: mask_eq_exp_minus_1)
  show ?thesis unfolding m bit_or_iff bit_push_bit_iff by (auto simp: bit_mask_iff bit_1_iff)
qed

lemma adrp_low:
  "push_bit 29 (y AND 3) AND 0x9F000000 = (0 :: u32)" "push_bit 5 (y AND 0x7FFFF) AND 0x9F000000 = (0 :: u32)"
  unfolding adrp_masks by (rule bit_word_eqI; simp only: bit_and_iff adrp_mask_bit; auto simp: bit_simps)+

lemma adrp_not_bl: "x AND 0x9F000000 = 0x90000000 \<Longrightarrow> drop_bit 26 (x :: u32) \<noteq> 0x25"
proof
  assume a: "x AND 0x9F000000 = 0x90000000" and b: "drop_bit 26 x = 0x25"
  have "bit x 26" using b by (simp add: bit_iff_odd_drop_bit)
  then have "bit (x AND 0x9F000000) 26" by (simp add: bit_and_iff adrp_mask_bit)
  moreover have "\<not> bit (0x90000000 :: u32) 26" by (simp add: bit_iff_odd_drop_bit)
  ultimately show False using a by simp
qed

lemma arm64_convert_inverse:
  "arm64_convert True a insn = Some insn' \<Longrightarrow> arm64_convert False a insn' = Some insn"
proof -
  assume c: "arm64_convert True a insn = Some insn'"
  show ?thesis
  proof (cases "drop_bit 26 insn = 0x25")
    case True
    let ?c = "drop_bit 2 a"
    have i: "insn' = bl_join insn (take_bit 26 insn + ?c)"
      using c True by (simp add: arm64_convert_def bl_join_def bl_masks Let_def)
    have "take_bit 26 (take_bit 26 insn' - ?c) = take_bit 26 insn"
    proof -
      have "take_bit 26 (take_bit 26 insn') = take_bit 26 (take_bit 26 insn + ?c)"
        unfolding i bl_join(2) by simp
      from cong_diff [OF this] show ?thesis by simp
    qed
    then have "bl_join insn' (take_bit 26 insn' - ?c) = bl_join insn' insn"
      by (simp only: bl_join_def bl_masks)
    moreover have "drop_bit 26 insn' = 0x25" using True by (simp only: i bl_join(1))
    then have "arm64_convert False a insn' = Some (bl_join insn' (take_bit 26 insn' - ?c))"
      by (simp add: arm64_convert_def Let_def bl_join_def) (simp only: bl_masks)
    ultimately have "arm64_convert False a insn' = Some (bl_join insn' insn)" by simp
    then show ?thesis by (simp add: i bl_join(3))
  next
    case False
    let ?c = "drop_bit 12 a"
    have m: "insn AND 0x9F000000 = 0x90000000"
      and i: "insn' = adrp_join insn ((adrp_imm insn + ?c) AND 0x001FFFFF)"
      using c False by (auto simp: arm64_convert_def adrp_join_def adrp_imm_def Let_def split: if_splits)
    have j: "adrp_join x (imm AND 0x001FFFFF) = adrp_join x imm" for x imm
      unfolding adrp_join_def adrp_masks by (simp add: drop_bit_take_bit)
    have i: "insn' = adrp_join insn (adrp_imm insn + ?c)" by (simp only: i j)
    have *: "(x AND 0x9F00001F) AND 0x9F000000 = x AND (0x9F000000 :: u32)" for x
      by (simp add: and.assoc)
    have **: "push_bit 29 (y AND 3) AND 0x9F000000 = (0 :: u32)" "push_bit 5 (y AND 0x7FFFF) AND 0x9F000000 = (0 :: u32)" for y :: u32
      using adrp_low [of y] by auto
    have m': "insn' AND 0x9F000000 = 0x90000000"
      using m unfolding i adrp_join_def by (simp only: bit.conj_disj_distrib2 * ** or.right_neutral)
    have n: "drop_bit 26 x \<noteq> 0x25" if "x AND 0x9F000000 = 0x90000000" for x :: u32
      using adrp_not_bl [OF that] .
    have "adrp_imm insn' = take_bit 21 (adrp_imm insn + ?c)"
      unfolding i by (rule adrp_imm_join)
    then have "take_bit 21 (adrp_imm insn' - ?c) = take_bit 21 (adrp_imm insn)"
      using cong_diff [of 21 "adrp_imm insn'" "adrp_imm insn + ?c" ?c] by simp
    then have "adrp_join insn' (adrp_imm insn' - ?c) = adrp_join insn' (adrp_imm insn)"
      using j [of insn' "adrp_imm insn' - ?c"] j [of insn' "adrp_imm insn"] by (simp only: adrp_masks)
    also have "\<dots> = insn" by (simp add: i adrp_join_join)
    finally have "adrp_join insn' ((adrp_imm insn' - ?c) AND 0x001FFFFF) = insn" by (simp only: j)
    then show ?thesis using n [OF m'] m'
      by (simp add: arm64_convert_def adrp_join_def adrp_imm_def Let_def)
  qed
qed

lemma length_arm64_write [simp]: "length (arm64_write data pos v) = length data"
  by (simp add: arm64_write_def)


lemma arm64_word_write: "pos + 3 < length data \<Longrightarrow> arm64_word (arm64_write data pos v) pos = v"
proof -
  assume len: "pos + 3 < length data"
  have "arm64_word (arm64_write data pos v) pos = zupt_le32_get (zupt_le32_put v @ [])"
    using len unfolding arm64_word_def arm64_write_def zupt_le32_get_def zupt_le32_put_def
    by (simp add: numeral_3_eq_3)
  then show ?thesis by (simp only: le32_get_put)
qed

lemma arm64_write_word: "arm64_write (arm64_write data pos v) pos (arm64_word data pos) = data"
proof -
  let ?w = "arm64_word data pos"
  have "(ucast ?w :: u8) = data ! pos" "(ucast (drop_bit 8 ?w) :: u8) = data ! (pos + 1)"
    "(ucast (drop_bit 16 ?w) :: u8) = data ! (pos + 2)" "(ucast (drop_bit 24 ?w) :: u8) = data ! (pos + 3)"
    unfolding arm64_word_def
    by (rule bit_word_eqI; auto simp: bit_simps dest: bit_imp_le_length)+
  then show ?thesis by (simp add: arm64_write_def list_update_swap)
qed

lemma arm64_word_update: "j < pos \<Longrightarrow> arm64_word (data[j := x]) pos = arm64_word data pos"
  by (simp add: arm64_word_def)

lemma arm64_write_update:
  "j < pos \<Longrightarrow> arm64_write (data[j := x]) pos v = (arm64_write data pos v)[j := x]"
  by (simp add: arm64_write_def list_update_swap [of j])

lemma bcj_arm64_update:
  "j < pos \<Longrightarrow> bcj_arm64_loop e ip lim (data[j := x]) pos =
     apfst (\<lambda>l. l[j := x]) (bcj_arm64_loop e ip lim data pos)"
  by (induction e ip lim data pos rule: bcj_arm64_loop.induct)
     (subst (1 2) bcj_arm64_loop.simps, simp add: arm64_word_update arm64_write_update split: option.split)

lemma bcj_arm64_write:
  assumes "p + 4 \<le> pos"
  shows "bcj_arm64_loop e ip lim (arm64_write data p v) pos =
     apfst (\<lambda>l. arm64_write l p v) (bcj_arm64_loop e ip lim data pos)"
  unfolding arm64_write_def using assms
  by (simp add: bcj_arm64_update apfst_def map_prod_def split: prod.split)

lemma bcj_arm64_frame:
  "bcj_arm64_loop e ip lim data pos = (out, q) \<Longrightarrow> length out = length data \<and> (\<forall>j<pos. out ! j = data ! j)"
proof (induction e ip lim data pos rule: bcj_arm64_loop.induct)
  case (1 e ip lim data pos)
  then show ?case
    by (subst (asm) (3) bcj_arm64_loop.simps)
       (auto simp: arm64_write_def split: if_splits option.splits)
qed

lemma arm64_word_cong: "\<forall>j<p + 4. out ! j = data ! j \<Longrightarrow> arm64_word out p = arm64_word data p"
  by (simp add: arm64_word_def)

lemma bcj_arm64_inverse:
  "lim \<le> length data \<Longrightarrow> 4 dvd lim \<Longrightarrow> 4 dvd pos \<Longrightarrow> bcj_arm64_loop True ip lim data pos = (out, q) \<Longrightarrow>
   bcj_arm64_loop False ip lim out pos = (data, q)"
proof (induction True ip lim data pos arbitrary: out rule: bcj_arm64_loop.induct)
  case (1 ip lim data pos)
  show ?case
  proof (cases "pos < lim")
    case False
    then have "out = data" "q = pos" using 1(6) by (subst (asm) bcj_arm64_loop.simps, simp)+
    with False show ?thesis by (subst bcj_arm64_loop.simps) simp
  next
    case True
    with 1(4,5) have "pos + 4 \<le> lim" by presburger
    then have len: "pos + 3 < length data" using 1(3) by simp
    let ?a = "ip + word_of_nat pos :: u32"
    show ?thesis
    proof (cases "arm64_convert True ?a (arm64_word data pos)")
      case None
      then have R: "bcj_arm64_loop True ip lim data (pos + 4) = (out, q)"
        using 1(6) True by (subst (asm) bcj_arm64_loop.simps) simp
      have IH: "bcj_arm64_loop False ip lim out (pos + 4) = (data, q)"
        using 1(1) [OF True None _ _ _ R] 1(3-5) by simp
      have w: "arm64_word out pos = arm64_word data pos"
        using arm64_word_cong conjunct2 [OF bcj_arm64_frame [OF R]] by blast
      have "arm64_convert False ?a (arm64_word data pos) = None"
        using None by (auto simp: arm64_convert_def Let_def split: if_splits)
      then show ?thesis using True by (subst bcj_arm64_loop.simps) (simp add: w IH)
    next
      case (Some insn)
      let ?w = "arm64_write data pos insn"
      have R: "bcj_arm64_loop True ip lim ?w (pos + 4) = (out, q)"
        using 1(6) True Some by (subst (asm) bcj_arm64_loop.simps) simp
      have IH: "bcj_arm64_loop False ip lim out (pos + 4) = (?w, q)"
        using 1(2) [OF True Some _ _ _ R] 1(3-5) by simp
      have w: "arm64_word out pos = insn"
        using arm64_word_cong [OF conjunct2 [OF bcj_arm64_frame [OF R]]] arm64_word_write [OF len] by simp
      show ?thesis
        using arm64_convert_inverse [OF Some] True
        by (subst bcj_arm64_loop.simps) (simp add: w bcj_arm64_write IH arm64_write_word)
    qed
  qed
qed

lemma vv_bcj_arm64_inverse:
  "vv_bcj_arm64 (fst (vv_bcj_arm64 data ip True)) ip False = (data, snd (vv_bcj_arm64 data ip True))"
proof (cases "length data < 4")
  case False
  let ?l = "length data - length data mod 4"
  obtain out q where o: "bcj_arm64_loop True ip ?l data 0 = (out, q)"
    by fastforce
  have "length out = length data" using bcj_arm64_frame [OF o] by simp
  moreover have "4 dvd ?l" by (simp add: dvd_minus_mod)
  ultimately show ?thesis
    using bcj_arm64_inverse [OF _ _ _ o] o False by (simp add: vv_bcj_arm64_def)
qed (simp add: vv_bcj_arm64_def)

section \<open>Choosing a filter\<close>

datatype vv_filter_kind_t = VV_FILTER_NONE | VV_FILTER_X86 | VV_FILTER_ARM64

definition detect_le32 :: "bytes \<Rightarrow> nat \<Rightarrow> u32" where
  "detect_le32 data i =
     ucast (data ! i) OR push_bit 8 (ucast (data ! (i + 1))) OR
     push_bit 16 (ucast (data ! (i + 2))) OR push_bit 24 (ucast (data ! (i + 3)))"

definition detect_le16 :: "bytes \<Rightarrow> nat \<Rightarrow> u32" where
  "detect_le16 data i = ucast (data ! i) OR push_bit 8 (ucast (data ! (i + 1)))"

text \<open>\<open>None\<close> is the null pointer.\<close>

definition vv_bcj_detect :: "bytes option \<Rightarrow> vv_filter_kind_t" where
  "vv_bcj_detect buf =
     (case buf of None \<Rightarrow> VV_FILTER_NONE
      | Some data \<Rightarrow>
        let size = length data in
        if size \<ge> 20 \<and> data ! 0 = 0x7F \<and> data ! 1 = 0x45 \<and> data ! 2 = 0x4C \<and> data ! 3 = 0x46 then
          let mach = (if data ! 5 = 2 then push_bit 8 (ucast (data ! 18)) OR ucast (data ! 19)
                      else detect_le16 data 18) in
          if mach = 62 \<or> mach = 3 then VV_FILTER_X86
          else if mach = 183 then VV_FILTER_ARM64
          else VV_FILTER_NONE
        else if size \<ge> 0x40 \<and> data ! 0 = 0x4D \<and> data ! 1 = 0x5A then
          let pe = unat (detect_le32 data 0x3C) in
          if pe + 6 \<le> size \<and> data ! pe = 0x50 \<and> data ! (pe + 1) = 0x45 \<and>
             data ! (pe + 2) = 0 \<and> data ! (pe + 3) = 0 then
            let mach = detect_le16 data (pe + 4) in
            if mach = 0x8664 \<or> mach = 0x014C then VV_FILTER_X86
            else if mach = 0xAA64 then VV_FILTER_ARM64
            else VV_FILTER_NONE
          else VV_FILTER_NONE
        else if size \<ge> 8 then
          let magic = detect_le32 data 0 in
          if magic = 0xFEEDFACE \<or> magic = 0xFEEDFACF then
            let cpu = detect_le32 data 4 in
            if cpu = 0x01000007 \<or> cpu = 7 then VV_FILTER_X86
            else if cpu = 0x0100000C then VV_FILTER_ARM64
            else VV_FILTER_NONE
          else VV_FILTER_NONE
        else VV_FILTER_NONE)"

section \<open>The filters as reversible filters\<close>

text \<open>The filter the encoder applies for a detected kind, and the one the decoder undoes it with.\<close>

definition bcj_apply :: "vv_filter_kind_t \<times> u32 \<Rightarrow> bool \<Rightarrow> bytes \<Rightarrow> bytes" where
  "bcj_apply k encoding data =
     (case k of (VV_FILTER_NONE, ip) \<Rightarrow> data
      | (VV_FILTER_X86, ip) \<Rightarrow> fst (vv_bcj_x86 data ip encoding)
      | (VV_FILTER_ARM64, ip) \<Rightarrow> fst (vv_bcj_arm64 data ip encoding))"

lemma length_vv_bcj_x86: "length (fst (vv_bcj_x86 data ip e)) = length data"
proof (cases "length data < 5")
  case False
  obtain out q where o: "bcj_x86_loop e (ip + 5) (length data - 4) data 0 0 = (out, q)"
    by fastforce
  show ?thesis using bcj_x86_frame [OF _ _ o] False o by (simp add: vv_bcj_x86_def)
qed (simp add: vv_bcj_x86_def)

lemma length_vv_bcj_arm64: "length (fst (vv_bcj_arm64 data ip e)) = length data"
proof (cases "length data < 4")
  case False
  obtain out q where o: "bcj_arm64_loop e ip (length data - length data mod 4) data 0 = (out, q)"
    by fastforce
  show ?thesis using bcj_arm64_frame [OF o] False o by (simp add: vv_bcj_arm64_def)
qed (simp add: vv_bcj_arm64_def)

lemmas bcj_inverses = vv_bcj_x86_inverse vv_bcj_arm64_inverse length_vv_bcj_x86 length_vv_bcj_arm64

interpretation bcj: reversible_filter "\<lambda>k. bcj_apply k True" "\<lambda>k. bcj_apply k False"
  by unfold_locales
     (auto simp: bcj_apply_def bcj_inverses split: prod.split vv_filter_kind_t.split)

section \<open>Properties\<close>

text \<open>
  C22. The inverse x86 filter undoes the forward filter on every buffer and at every stream
  position: it restores the bytes, stops at the same position, and the length never changes.
\<close>

theorem bcj_x86_reversible:
  "vv_bcj_x86 (fst (vv_bcj_x86 data ip True)) ip False = (data, snd (vv_bcj_x86 data ip True)) \<and>
   length (fst (vv_bcj_x86 data ip True)) = length data"
  by (simp add: bcj_inverses)

text \<open>
  C23. The inverse AArch64 filter undoes the forward filter on every buffer and at every stream
  position, and a filter selected for a block by \<open>bcj_apply\<close> is reversible whatever its kind.
\<close>

theorem bcj_arm64_reversible:
  "vv_bcj_arm64 (fst (vv_bcj_arm64 data ip True)) ip False = (data, snd (vv_bcj_arm64 data ip True)) \<and>
   bcj_apply k False (bcj_apply k True data) = data"
  by (simp add: bcj_inverses bcj.bwd_fwd)

end
