(* ===== verification/Lz.thy ===== *)
theory Lz
  imports Prelude
begin

text \<open>
  The LZ77 codec of the archive format (\<open>src/zupt_lz.c\<close>): the hash chain match finder, the
  greedy and lazy parser of \<open>zupt_lz_compress\<close> with its capacity checks, and
  \<open>zupt_lz_decompress\<close> with its bounds checks.

  The hash tables are total functions; nothing is assumed of their contents, so what is proved
  of a match holds because the finder compares the bytes, as in the code. The destination
  buffer is the list of bytes written so far and \<open>op\<close> is its length. \<open>None\<close> is the result 0
  of the error paths.
\<close>

section \<open>The match finder\<close>

abbreviation (input) LZ_MIN_MATCH :: nat where "LZ_MIN_MATCH \<equiv> 3"
abbreviation (input) LZ_MAX_OFFSET :: nat where "LZ_MAX_OFFSET \<equiv> 65535"
abbreviation (input) LZ_WINDOW_SIZE :: nat where "LZ_WINDOW_SIZE \<equiv> 65535"

text \<open>An \<open>int32_t\<close> is the 32-bit word that \<open>sint\<close> reads.\<close>

type_synonym i32 = "32 word"

record lz_tables =
  hash_table :: "u32 \<Rightarrow> i32"
  chain :: "nat \<Rightarrow> i32"

text \<open>The four bytes at \<open>p\<close>, read in little-endian order.\<close>

definition lz_hash4 :: "bytes \<Rightarrow> nat \<Rightarrow> u32" where
  "lz_hash4 src p = drop_bit (32 - 18) (zupt_le32_get (take 4 (drop p src)) * 2654435761)"

function lz_extend :: "bytes \<Rightarrow> nat \<Rightarrow> nat \<Rightarrow> nat \<Rightarrow> nat \<Rightarrow> nat" where
  "lz_extend src ref ip mlen max_m =
     (if mlen < max_m \<and> src ! (ref + mlen) = src ! (ip + mlen)
      then lz_extend src ref ip (mlen + 1) max_m else mlen)"
  by pat_completeness auto
termination by (relation "measure (\<lambda>(src, ref, ip, mlen, max_m). max_m - mlen)") auto

declare lz_extend.simps [simp del]

text \<open>
  One candidate \<open>ref\<close> of the chain: whether the walk stops there, and the best match so far.
\<close>

definition lz_candidate :: "bytes \<Rightarrow> nat \<Rightarrow> i32 \<Rightarrow> nat \<times> nat \<Rightarrow> bool \<times> nat \<times> nat" where
  "lz_candidate src ip ref best =
     (if \<not> 0 \<le> sint ref then (True, best)
      else
        let dist = nat ((int ip - sint ref) mod 2 ^ 64) in
        if dist > LZ_MAX_OFFSET \<or> dist = 0 then (True, best)
        else
          let r = nat (sint ref); best_len = fst best in
          if best_len < length src - ip \<and>
             src ! (r + best_len) = src ! (ip + best_len) \<and> src ! r = src ! ip
          then
            let mlen = lz_extend src r ip 0 (min (length src - ip) 65535) in
            if mlen > best_len then (mlen \<ge> 256, mlen, dist) else (False, best)
          else (False, best))"

text \<open>The walk along the chain; \<open>n\<close> is the number of candidates still allowed.\<close>

fun lz_walk :: "bytes \<Rightarrow> nat \<Rightarrow> (nat \<Rightarrow> i32) \<Rightarrow> nat \<Rightarrow> i32 \<Rightarrow> nat \<times> nat \<Rightarrow> nat \<times> nat" where
  "lz_walk src ip chn 0 ref best = best"
| "lz_walk src ip chn (Suc n) ref best =
     (case lz_candidate src ip ref best of
        (True, best') \<Rightarrow> best'
      | (False, best') \<Rightarrow> lz_walk src ip chn n (chn (nat (sint ref) mod LZ_WINDOW_SIZE)) best')"

definition lz_find_match :: "bytes \<Rightarrow> nat \<Rightarrow> lz_tables \<Rightarrow> nat \<Rightarrow> nat \<times> nat" where
  "lz_find_match src ip tabs max_chain =
     (if ip + 4 > length src then (0, 0)
      else
        let (best_len, best_off) =
          lz_walk src ip (chain tabs) max_chain (hash_table tabs (lz_hash4 src ip)) (LZ_MIN_MATCH - 1, 0) in
        (if best_len \<ge> LZ_MIN_MATCH then best_len else 0, best_off))"

definition lz_insert_hash :: "bytes \<Rightarrow> nat \<Rightarrow> lz_tables \<Rightarrow> lz_tables" where
  "lz_insert_hash src ip tabs =
     (if ip + 4 \<le> length src then
        let h = lz_hash4 src ip in
        \<lparr>hash_table = (hash_table tabs)(h := word_of_nat ip),
         chain = (chain tabs)(ip mod LZ_WINDOW_SIZE := hash_table tabs h)\<rparr>
      else tabs)"

function lz_insert_range :: "bytes \<Rightarrow> nat \<Rightarrow> nat \<Rightarrow> lz_tables \<Rightarrow> lz_tables" where
  "lz_insert_range src ip match_end tabs =
     (if ip < match_end \<and> ip + 4 \<le> length src
      then lz_insert_range src (ip + 1) match_end (lz_insert_hash src ip tabs) else tabs)"
  by pat_completeness auto
termination by (relation "measure (\<lambda>(src, ip, match_end, tabs). match_end - ip)") auto

declare lz_insert_range.simps [simp del]

section \<open>The compressor\<close>

definition zupt_lz_bound :: "nat \<Rightarrow> nat" where
  "zupt_lz_bound src_len = src_len + src_len div 255 + 32"

text \<open>The bytes \<open>lz_write_extra\<close> stores when \<open>cap\<close> bytes are left.\<close>

function lz_write_extra :: "nat \<Rightarrow> nat \<Rightarrow> bytes" where
  "lz_write_extra cap len =
     (if cap = 0 then []
      else if len \<ge> 255 then 0xFF # lz_write_extra (cap - 1) (len - 255)
      else [word_of_nat len])"
  by pat_completeness auto
termination by (relation "measure fst") auto

declare lz_write_extra.simps [simp del]

text \<open>One sequence: \<open>None\<close> when the capacity check fails.\<close>

definition lz_emit :: "bytes \<Rightarrow> nat \<Rightarrow> nat \<Rightarrow> nat \<Rightarrow> nat \<Rightarrow> nat \<Rightarrow> bytes \<Rightarrow> bytes option" where
  "lz_emit src dst_cap anchor ip len1 off1 dst =
     (let lit_len = ip - anchor; match_extra = len1 - LZ_MIN_MATCH in
      if length dst + 1 + lit_len div 255 + 1 + lit_len + 2 + match_extra div 255 + 1 > dst_cap
      then None
      else
        let tl = (if lit_len \<ge> 15 then 15 else word_of_nat lit_len :: u8);
            tm = (if match_extra \<ge> 15 then 15 else word_of_nat match_extra :: u8);
            dst1 = dst @ [push_bit 4 tl OR tm];
            dst2 = (if lit_len \<ge> 15
                    then dst1 @ lz_write_extra (dst_cap - length dst1) (lit_len - 15) else dst1);
            dst3 = dst2 @ take lit_len (drop anchor src);
            dst4 = dst3 @ [word_of_nat (off1 mod 256), word_of_nat (off1 div 256 mod 256)] in
        Some (if match_extra \<ge> 15
              then dst4 @ lz_write_extra (dst_cap - length dst4) (match_extra - 15) else dst4))"

definition lz_emit_last :: "bytes \<Rightarrow> nat \<Rightarrow> nat \<Rightarrow> bytes \<Rightarrow> bytes option" where
  "lz_emit_last src dst_cap anchor dst =
     (let lit_len = length src - anchor in
      if length dst + 1 + lit_len div 255 + 1 + lit_len > dst_cap then None
      else
        let tl = (if lit_len \<ge> 15 then 15 else word_of_nat lit_len :: u8);
            dst1 = dst @ [push_bit 4 tl OR 0];
            dst2 = (if lit_len \<ge> 15
                    then dst1 @ lz_write_extra (dst_cap - length dst1) (lit_len - 15) else dst1) in
        Some (dst2 @ take lit_len (drop anchor src)))"

text \<open>
  The lazy step: the position, length and offset of the match to emit and the tables after
  the insertions so far.
\<close>

definition lz_lazy :: "bytes \<Rightarrow> bool \<Rightarrow> nat \<Rightarrow> nat \<Rightarrow> nat \<Rightarrow> nat \<Rightarrow> lz_tables \<Rightarrow> nat \<times> nat \<times> nat \<times> lz_tables" where
  "lz_lazy src lzy max_chain ip len1 off1 tabs =
     (if lzy \<and> ip + 1 + LZ_MIN_MATCH \<le> length src then
        let tabs1 = lz_insert_hash src ip tabs;
            (len2, off2) = lz_find_match src (ip + 1) tabs1 max_chain in
        if len2 > len1 + 1 then (ip + 1, len2, off2, tabs1) else (ip, len1, off1, tabs1)
      else (ip, len1, off1, tabs))"

lemma lz_lazy_pos: "lz_lazy src lzy mc ip len1 off1 tabs = (ip', len', off', tabs') \<Longrightarrow> 0 < len1 \<Longrightarrow>
  ip \<le> ip' \<and> 0 < len'"
  by (auto simp: lz_lazy_def Let_def split: if_splits prod.splits)

function lz_compress_loop ::
  "bytes \<Rightarrow> nat \<Rightarrow> nat \<Rightarrow> bool \<Rightarrow> nat \<Rightarrow> nat \<Rightarrow> lz_tables \<Rightarrow> bytes \<Rightarrow> bytes option" where
  "lz_compress_loop src dst_cap max_chain lzy ip anchor tabs dst =
     (if \<not> ip + LZ_MIN_MATCH \<le> length src then lz_emit_last src dst_cap anchor dst
      else
        let (len1, off1) = lz_find_match src ip tabs max_chain in
        if len1 = 0 then
          lz_compress_loop src dst_cap max_chain lzy (ip + 1) anchor (lz_insert_hash src ip tabs) dst
        else
          let (ip1, len, off, tabs1) = lz_lazy src lzy max_chain ip len1 off1 tabs in
          case lz_emit src dst_cap anchor ip1 len off dst of
            None \<Rightarrow> None
          | Some dst' \<Rightarrow>
              let tabs2 = (if \<not> lzy then lz_insert_hash src ip1 tabs1 else tabs1);
                  tabs3 = lz_insert_range src (ip1 + 1) (ip1 + len) tabs2 in
              lz_compress_loop src dst_cap max_chain lzy (ip1 + len) (ip1 + len) tabs3 dst')"
  by pat_completeness auto
termination
proof (relation "measure (\<lambda>(src, dst_cap, max_chain, lzy, ip, anchor, tabs, dst). length src - ip)",
       simp, goal_cases)
  case (1 src cap mc lzy ip anchor tabs dst p len off)
  then show ?case by simp
next
  case (2 src cap mc lzy ip anchor tabs dst p len off q ip1 q1 len1 q2 off1 tabs1 dst' tabs2 tabs3)
  then have "ip \<le> ip1 \<and> 0 < len1" using lz_lazy_pos by (metis neq0_conv)
  with 2(1) have "ip < ip1 + len1" "ip < length src" by auto
  then show ?case by (simp add: diff_less_mono2)
qed

declare lz_compress_loop.simps [simp del]

text \<open>\<open>alloc_ok\<close> is whether both tables could be allocated.\<close>

definition zupt_lz_compress :: "bool \<Rightarrow> bytes \<Rightarrow> nat \<Rightarrow> int \<Rightarrow> bytes option" where
  "zupt_lz_compress alloc_ok src dst_cap level =
     (if src = [] then None
      else
        let level = (if level < 1 then 1 else level); level = (if level > 9 then 9 else level);
            max_chain = nat (4 + level * level * 3); lzy = (level \<ge> 3) in
        if \<not> alloc_ok then None
        else lz_compress_loop src dst_cap max_chain lzy 0 0
               \<lparr>hash_table = (\<lambda>_. -1), chain = (\<lambda>_. 0)\<rparr> [])"

section \<open>The decompressor\<close>

fun lz_read_extra :: "bytes \<Rightarrow> nat \<Rightarrow> (nat \<times> bytes) option" where
  "lz_read_extra [] t = Some (t, [])"
| "lz_read_extra (b # s) t =
     (if t > 0xFFFFFFFF - 255 then None
      else if unat b < 255 then Some (t + unat b, s) else lz_read_extra s (t + unat b))"

lemma lz_read_extra_length: "lz_read_extra s t = Some (n, r) \<Longrightarrow> length r \<le> length s"
  by (induction s t rule: lz_read_extra.induct) (auto split: if_splits)

text \<open>The overlapping copy: byte \<open>i\<close> of the match is read after the bytes before it are written.\<close>

fun lz_copy :: "nat \<Rightarrow> nat \<Rightarrow> bytes \<Rightarrow> bytes" where
  "lz_copy offset 0 dst = dst"
| "lz_copy offset (Suc n) dst = lz_copy offset n (dst @ [dst ! (length dst - offset)])"

text \<open>The loop: what is left of the input and the output so far.\<close>

function lz_decompress_loop :: "nat \<Rightarrow> bytes \<Rightarrow> bytes \<Rightarrow> bytes option" where
  "lz_decompress_loop dst_len [] dst = Some dst"
| "lz_decompress_loop dst_len (token # s) dst =
     (let match_code = unat (token AND 0xF) in
      case (if unat (drop_bit 4 token AND 0xF) = 15 then lz_read_extra s 15
            else Some (unat (drop_bit 4 token AND 0xF), s)) of
        None \<Rightarrow> None
      | Some (lit_len, s1) \<Rightarrow>
          if lit_len > 0 \<and> (lit_len > length s1 \<or> length dst + lit_len > dst_len) then None
          else
            let dst1 = dst @ take lit_len s1; s2 = drop lit_len s1 in
            if s2 = [] then Some dst1
            else if length s2 < 2 then None
            else
              let offset = unat (s2 ! 0) + 256 * unat (s2 ! 1) in
              if offset = 0 \<or> offset > length dst1 then None
              else
                case (if match_code = 15 then lz_read_extra (drop 2 s2) (15 + LZ_MIN_MATCH)
                      else Some (match_code + LZ_MIN_MATCH, drop 2 s2)) of
                  None \<Rightarrow> None
                | Some (match_len, s3) \<Rightarrow>
                    if length dst1 + match_len > dst_len then None
                    else lz_decompress_loop dst_len s3 (lz_copy offset match_len dst1))"
  by pat_completeness auto
termination
proof (relation "measure (\<lambda>(dst_len, s, dst). length s)", simp, goal_cases)
  case (1 dst_len token s dst mc x lit_len s1 dst1 s2 offset y match_len s3)
  then have "length s1 \<le> length s" "length s3 \<le> length (drop 2 s2)" "length s2 \<le> length s1"
    by (auto dest: lz_read_extra_length split: if_splits)
  with 1 show ?case by simp
qed

declare lz_decompress_loop.simps(2) [simp del]

definition zupt_lz_decompress :: "bytes \<Rightarrow> nat \<Rightarrow> bytes option" where
  "zupt_lz_decompress src dst_len = lz_decompress_loop dst_len src []"

section \<open>Matches\<close>

definition lz_match :: "bytes \<Rightarrow> nat \<Rightarrow> nat \<Rightarrow> nat \<Rightarrow> bool" where
  "lz_match src ip len off \<longleftrightarrow>
     1 \<le> off \<and> off \<le> 65535 \<and> off \<le> ip \<and> len \<le> 65535 \<and> ip + len \<le> length src \<and>
     (\<forall>i<len. src ! (ip - off + i) = src ! (ip + i))"

lemma lz_extend_spec:
  assumes "\<forall>i<mlen. src ! (ref + i) = src ! (ip + i)" "mlen \<le> max_m"
  shows "lz_extend src ref ip mlen max_m \<le> max_m \<and>
    (\<forall>i<lz_extend src ref ip mlen max_m. src ! (ref + i) = src ! (ip + i))"
  using assms
proof (induction src ref ip mlen max_m rule: lz_extend.induct)
  case (1 src ref ip mlen max_m)
  then show ?case
    by (subst (1 2) lz_extend.simps) (auto simp: less_Suc_eq)
qed

text \<open>The \<open>size_t\<close> difference of two positions is small only if the second is the smaller one.\<close>

lemma lz_dist:
  assumes "ip < 2 ^ 63" "0 \<le> sint (ref :: i32)" "nat ((int ip - sint ref) mod 2 ^ 64) \<le> D"
    "D < 2 ^ 62"
  shows "nat ((int ip - sint ref) mod 2 ^ 64) = ip - nat (sint ref) \<and> nat (sint ref) \<le> ip"
proof -
  have r: "sint ref < 2 ^ 31" using sint_lt [of ref] by simp
  have "sint ref \<le> int ip"
  proof (rule ccontr)
    assume "\<not> sint ref \<le> int ip"
    then have "(int ip - sint ref) mod 2 ^ 64 = int ip - sint ref + 2 ^ 64"
      using r mod_pos_pos_trivial [of "int ip - sint ref + 2 ^ 64" "2 ^ 64"] by simp
    with assms r show False by simp
  qed
  moreover from this have "(int ip - sint ref) mod 2 ^ 64 = int ip - sint ref"
    using assms by (intro mod_pos_pos_trivial) simp_all
  ultimately show ?thesis using assms(2) by (simp add: nat_diff_distrib' nat_le_iff)
qed

lemma lz_candidate_match:
  assumes ip: "ip < length src" "ip < 2 ^ 63"
    and best: "lz_match src ip (fst best) (snd best) \<or> fst best < 3"
    and c: "lz_candidate src ip ref best = (st, best')"
  shows "lz_match src ip (fst best') (snd best') \<or> fst best' < 3"
proof -
  let ?dist = "nat ((int ip - sint ref) mod 2 ^ 64)"
  let ?m = "lz_extend src (nat (sint ref)) ip 0 (min (length src - ip) 65535)"
  show ?thesis
  proof (cases "best' = best")
    case False
    then have d: "0 \<le> sint ref" "?dist \<le> 65535" "?dist \<noteq> 0" "best' = (?m, ?dist)"
      using c by (auto simp: lz_candidate_def Let_def split: if_splits)
    have e: "?m \<le> min (length src - ip) 65535"
      "\<forall>i<?m. src ! (nat (sint ref) + i) = src ! (ip + i)"
      using lz_extend_spec [of 0 src "nat (sint ref)" ip "min (length src - ip) 65535"] by simp_all
    from lz_dist [OF ip(2) d(1,2)] have "?dist = ip - nat (sint ref)" "nat (sint ref) \<le> ip" by auto
    moreover have "ip + ?m \<le> length src" using e(1) ip(1) by linarith
    moreover have "1 \<le> ?dist" using d(3) by linarith
    ultimately have "lz_match src ip ?m ?dist"
      using d(2) e unfolding lz_match_def by simp
    with d show ?thesis by simp
  qed (use best in simp)
qed

lemma lz_walk_match:
  assumes "ip < length src" "ip < 2 ^ 63"
    and "lz_match src ip (fst best) (snd best) \<or> fst best < 3"
  shows "lz_match src ip (fst (lz_walk src ip chn n ref best)) (snd (lz_walk src ip chn n ref best)) \<or>
    fst (lz_walk src ip chn n ref best) < 3"
  using assms
proof (induction src ip chn n ref best rule: lz_walk.induct)
  case (2 src ip chn n ref best)
  obtain st best' where c: "lz_candidate src ip ref best = (st, best')"
    by (cases "lz_candidate src ip ref best") auto
  note m = lz_candidate_match [OF 2(2-4) c]
  show ?case
  proof (cases st)
    case False
    with 2(1) [OF c [symmetric] _ 2(2,3) m] c show ?thesis by simp
  qed (use c m in simp)
qed simp

lemma lz_find_match_sound:
  assumes "lz_find_match src ip tabs mc = (len, off)" "len \<noteq> 0" "length src < 2 ^ 63"
  shows "3 \<le> len \<and> lz_match src ip len off"
  using assms lz_walk_match [of ip src "(2, 0)" "chain tabs" mc "hash_table tabs (lz_hash4 src ip)"]
  by (auto simp: lz_find_match_def split: if_splits prod.splits)

lemma lz_lazy_match:
  assumes "lz_lazy src lzy mc ip len1 off1 tabs = (ip', len, off, tabs')"
    "lz_match src ip len1 off1" "3 \<le> len1" "length src < 2 ^ 63"
  shows "ip \<le> ip' \<and> 3 \<le> len \<and> lz_match src ip' len off"
  using assms lz_find_match_sound [of src "ip + 1"]
  by (auto simp: lz_lazy_def Let_def split: if_splits prod.splits)

section \<open>Lengths in the stream\<close>

lemma div_255_step: "255 \<le> n \<Longrightarrow> n div 255 = Suc ((n - 255) div 255)" for n :: nat
  by (simp add: le_div_geq)

lemma length_lz_write_extra:
  "length (lz_write_extra cap len) \<le> cap"
  "length (lz_write_extra cap len) \<le> len div 255 + 1"
proof (induction cap len rule: lz_write_extra.induct)
  case (1 cap len)
  { case 1 then show ?case using "1.IH"(1) by (subst lz_write_extra.simps) force
  next
    case 2
    have "len div 255 = Suc ((len - 255) div 255)" if "255 \<le> len" using that by (rule div_255_step)
    then show ?case using "1.IH"(2) by (subst lz_write_extra.simps) auto }
qed

lemma lz_read_write_extra:
  assumes "len div 255 < cap" "t + len \<le> 0xFFFFFF00"
  shows "lz_read_extra (lz_write_extra cap len @ r) t = Some (t + len, r)"
  using assms
proof (induction cap len arbitrary: t rule: lz_write_extra.induct)
  case (1 cap len)
  show ?case
  proof (cases "255 \<le> len")
    case True
    then have "len div 255 = Suc ((len - 255) div 255)" by (rule div_255_step)
    with 1 True show ?thesis by (subst lz_write_extra.simps) auto
  next
    case False
    then have "unat (word_of_nat len :: u8) = len" by (simp add: unat_of_nat)
    with 1 False show ?thesis by (subst lz_write_extra.simps) auto
  qed
qed

lemma lz_token:
  fixes tl tm :: u8
  assumes "unat tl < 16" "unat tm < 16"
  shows "drop_bit 4 (push_bit 4 tl OR tm) AND 0xF = tl" "(push_bit 4 tl OR tm) AND 0xF = tm"
proof -
  have m: "(0xF :: u8) = mask 4" by (simp add: mask_eq_exp_minus_1)
  have lt: "bit tl n \<Longrightarrow> n < 4" "bit tm n \<Longrightarrow> n < 4" for n
    using bit_unat_less [of tl 4 n] bit_unat_less [of tm 4 n] assms by simp_all
  show "drop_bit 4 (push_bit 4 tl OR tm) AND 0xF = tl"
    unfolding m by (rule bit_word_eqI) (auto simp: bit_simps dest: lt)
  show "(push_bit 4 tl OR tm) AND 0xF = tm"
    unfolding m by (rule bit_word_eqI) (auto simp: bit_simps dest: lt)
qed

section \<open>Copies\<close>

lemma lz_copy_take:
  assumes "off \<le> ip" "1 \<le> off" "ip + len \<le> length src" "\<forall>i<len. src ! (ip - off + i) = src ! (ip + i)"
  shows "lz_copy off len (take ip src) = take (ip + len) src"
  using assms
proof (induction len arbitrary: ip)
  case (Suc n)
  have "take ip src ! (ip - off) = src ! ip" using Suc.prems by force
  then have "take ip src @ [take ip src ! (ip - off)] = take (Suc ip) src"
    using Suc.prems by (simp add: take_Suc_conv_app_nth)
  moreover have "lz_copy off n (take (Suc ip) src) = take (Suc ip + n) src"
  proof (rule Suc.IH)
    show "\<forall>i<n. src ! (Suc ip - off + i) = src ! (Suc ip + i)"
      using Suc.prems(1,4) by (metis Suc_diff_le Suc_less_eq add_Suc add_Suc_right)
  qed (use Suc.prems in auto)
  ultimately show ?case using Suc.prems by simp
qed simp


section \<open>One sequence\<close>

definition lz_nibble :: "nat \<Rightarrow> u8" where
  "lz_nibble n = (if n \<ge> 15 then 15 else word_of_nat n)"

definition lz_more :: "nat \<Rightarrow> nat \<Rightarrow> bytes" where
  "lz_more cap n = (if n \<ge> 15 then lz_write_extra cap (n - 15) else [])"

lemma unat_lz_nibble: "unat (lz_nibble n) = min n 15"
proof (cases "n \<ge> 15")
  case False
  then have "unat (word_of_nat n :: u8) = n" by (simp add: unat_of_nat)
  with False show ?thesis by (simp add: lz_nibble_def)
qed (simp add: lz_nibble_def)

lemma length_lz_more: "length (lz_more cap n) \<le> n div 255 + 1"
  using length_lz_write_extra(2) [of cap "n - 15"] div_le_mono [of "n - 15" n 255]
  unfolding lz_more_def by (auto intro: le_trans)

lemma lz_read_more:
  assumes "n div 255 < cap" "m + n \<le> 0xFFFFFF00"
  shows "(if unat (lz_nibble n) = 15 then lz_read_extra (lz_more cap n @ r) (15 + m)
      else Some (unat (lz_nibble n) + m, lz_more cap n @ r)) = Some (n + m, r)"
proof (cases "n \<ge> 15")
  case True
  have "(n - 15) div 255 < cap" using assms(1) div_le_mono [of "n - 15" n 255] by simp
  with lz_read_write_extra [of "n - 15" cap "15 + m" r] True assms(2) show ?thesis
    by (simp add: lz_more_def unat_lz_nibble)
next
  case False
  then have "unat (lz_nibble n) = n" "n \<noteq> 15" "lz_more cap n = []"
    by (simp_all add: unat_lz_nibble lz_more_def)
  then show ?thesis by simp
qed

lemma lz_decompress_lits:
  assumes "length lits div 255 < cap" "length lits \<le> 0xFFFFFF00" "unat tm < 16"
    "length dst + length lits \<le> dst_len"
  shows "lz_decompress_loop dst_len
      ((push_bit 4 (lz_nibble (length lits)) OR tm) # lz_more cap (length lits) @ lits @ r) dst =
    (if r = [] then Some (dst @ lits)
     else if length r < 2 then None
     else
       let offset = unat (r ! 0) + 256 * unat (r ! 1); dst1 = dst @ lits in
       if offset = 0 \<or> offset > length dst1 then None
       else
         case (if unat tm = 15 then lz_read_extra (drop 2 r) (15 + LZ_MIN_MATCH)
               else Some (unat tm + LZ_MIN_MATCH, drop 2 r)) of
           None \<Rightarrow> None
         | Some (match_len, s3) \<Rightarrow>
             if length dst1 + match_len > dst_len then None
             else lz_decompress_loop dst_len s3 (lz_copy offset match_len dst1))"
proof -
  have "unat (lz_nibble (length lits)) < 16" by (simp add: unat_lz_nibble)
  note tok = lz_token [OF this assms(3)]
  have td: "take (length lits) (lits @ r) = lits" "drop (length lits) (lits @ r) = r"
    "length lits > length (lits @ r) \<longleftrightarrow> False"
    by simp_all
  have H: "(if unat (lz_nibble (length lits)) = 15
      then lz_read_extra (lz_more cap (length lits) @ lits @ r) 15
      else Some (unat (lz_nibble (length lits)), lz_more cap (length lits) @ lits @ r)) =
    Some (length lits, lits @ r)"
    using lz_read_more [OF assms(1), of 0 "lits @ r"] assms(2) by (simp only: add_0_right add_0)
  show ?thesis
    unfolding lz_decompress_loop.simps(2) tok H Let_def option.case prod.case td
    using assms(4) by (simp only: not_le [symmetric] simp_thms if_False)
qed

lemma lz_emit_form:
  assumes em: "lz_emit src dst_cap anchor ip len off dst = Some dst'"
  obtains cap1 cap2 where "dst' = dst @ ((push_bit 4 (lz_nibble (ip - anchor)) OR lz_nibble (len - 3)) #
      lz_more cap1 (ip - anchor) @ take (ip - anchor) (drop anchor src) @
      [word_of_nat (off mod 256), word_of_nat (off div 256 mod 256)] @ lz_more cap2 (len - 3))"
    and "(ip - anchor) div 255 < cap1" "(len - 3) div 255 < cap2"
    and "length dst + 1 + (ip - anchor) div 255 + 1 + (ip - anchor) + 2 + (len - 3) div 255 + 1 \<le> dst_cap"
proof -
  let ?ml = "len - 3" and ?lits = "take (ip - anchor) (drop anchor src)"
  define lit where "lit = ip - anchor"
  let ?d1 = "dst @ [push_bit 4 (lz_nibble lit) OR lz_nibble ?ml]"
  let ?d4 = "?d1 @ lz_more (dst_cap - length ?d1) lit @ ?lits @ [word_of_nat (off mod 256), word_of_nat (off div 256 mod 256)]"
  have c: "length dst + 1 + lit div 255 + 1 + lit + 2 + ?ml div 255 + 1 \<le> dst_cap"
    using em by (auto simp: lz_emit_def lit_def Let_def split: if_splits)
  have e1: "dst' = ?d4 @ lz_more (dst_cap - length ?d4) ?ml"
    using em c by (auto simp: lz_emit_def lz_more_def lz_nibble_def Let_def lit_def add.assoc split: if_splits)
  have e2: "lit div 255 < dst_cap - length ?d1" using c by simp
  have e3: "?ml div 255 < dst_cap - length ?d4"
  proof -
    have "length ?lits \<le> lit" by (simp add: lit_def)
    then have "length ?d4 \<le> length dst + 1 + length (lz_more (dst_cap - length ?d1) lit) + lit + 2"
      by simp
    then show ?thesis using c length_lz_more [of "dst_cap - length ?d1" lit] by linarith
  qed
  show ?thesis
    by (rule that [OF _ e2 [unfolded lit_def] e3 [unfolded lit_def] c [unfolded lit_def]])
       (simp only: e1 lit_def append_assoc append.simps)
qed

lemma lz_emit_decompress:
  assumes em: "lz_emit src dst_cap anchor ip len off dst = Some dst'"
    and m: "lz_match src ip len off" "3 \<le> len" "anchor \<le> ip"
    and len: "length src \<le> 0xFFFFFF00" "length src \<le> dst_len"
  shows "\<exists>e. dst' = dst @ e \<and> length e \<le> 2 * (ip + len - anchor) \<and>
    (\<forall>r. lz_decompress_loop dst_len (e @ r) (take anchor src) = lz_decompress_loop dst_len r (take (ip + len) src))"
proof -
  let ?lits = "take (ip - anchor) (drop anchor src)"
  let ?ml = "len - 3"
  have ip: "ip + len \<le> length src" "off \<le> 65535" "1 \<le> off" "off \<le> ip"
    using m by (auto simp: lz_match_def)
  have ll: "length ?lits = ip - anchor" using ip m(3) by simp
  obtain cap1 cap2 where e: "dst' = dst @ ((push_bit 4 (lz_nibble (ip - anchor)) OR lz_nibble ?ml) #
      lz_more cap1 (ip - anchor) @ ?lits @ [word_of_nat (off mod 256), word_of_nat (off div 256 mod 256)] @
      lz_more cap2 ?ml)"
    and caps: "(ip - anchor) div 255 < cap1" "?ml div 255 < cap2"
    using lz_emit_form [OF em] by metis
  define e where "e = (push_bit 4 (lz_nibble (ip - anchor)) OR lz_nibble ?ml) #
      lz_more cap1 (ip - anchor) @ ?lits @ [word_of_nat (off mod 256), word_of_nat (off div 256 mod 256)] @
      lz_more cap2 ?ml"
  have "length e \<le> 2 * (ip + len - anchor)"
  proof -
    have "length (lz_more c n) \<le> n" for c n
    proof (cases "n < 15")
      case False
      then have "n div 255 + 1 \<le> n" by linarith
      with length_lz_more [of c n] show ?thesis by (rule le_trans)
    qed (simp add: lz_more_def)
    from this [of cap1 "ip - anchor"] this [of cap2 ?ml] show ?thesis
      using ll m(2,3) unfolding e_def length_append list.size by linarith
  qed
  moreover have "lz_decompress_loop dst_len (e @ r) (take anchor src) = lz_decompress_loop dst_len r (take (ip + len) src)" for r
  proof -
    have a: "take anchor src @ ?lits = take ip src"
      using m(3) by (metis le_add_diff_inverse take_add)
    have offv: "unat (word_of_nat (off mod 256) :: u8) + 256 * unat (word_of_nat (off div 256 mod 256) :: u8) = off"
      using ip by (simp add: unat_of_nat)
    have nib: "unat (lz_nibble ?ml) < 16" by (simp add: unat_lz_nibble)
    let ?b0 = "word_of_nat (off mod 256) :: u8" and ?b1 = "word_of_nat (off div 256 mod 256) :: u8"
    let ?R = "[?b0, ?b1] @ lz_more cap2 ?ml @ r"
    have R: "?R = [] \<longleftrightarrow> False" "length ?R < 2 \<longleftrightarrow> False" "?R ! 0 = ?b0" "?R ! 1 = ?b1"
      "drop 2 ?R = lz_more cap2 ?ml @ r"
      by simp_all
    have ml: "?ml + 3 = len" using m(2) by simp
    have more: "(if unat (lz_nibble ?ml) = 15 then lz_read_extra (lz_more cap2 ?ml @ r) (15 + 3)
        else Some (unat (lz_nibble ?ml) + 3, lz_more cap2 ?ml @ r)) = Some (len, r)"
      using lz_read_more [OF caps(2), of 3 r] ip len(1) m(2) by (simp only: ml)
    have g: "off = 0 \<or> off > length (take ip src) \<longleftrightarrow> False"
      "dst_len < length (take ip src) + len \<longleftrightarrow> False"
      using ip len(2) by auto
    have cp: "lz_copy off len (take ip src) = take (ip + len) src"
      by (rule lz_copy_take) (use m(1) [unfolded lz_match_def] in blast)+
    have pre: "length ?lits div 255 < cap1" "length ?lits \<le> 0xFFFFFF00"
      "length (take anchor src) + length ?lits \<le> dst_len"
      using caps ll ip len m(3) by simp_all
    have "lz_decompress_loop dst_len ((push_bit 4 (lz_nibble (length ?lits)) OR lz_nibble ?ml) #
        lz_more cap1 (length ?lits) @ ?lits @ ?R) (take anchor src) =
      lz_decompress_loop dst_len r (take (ip + len) src)"
      unfolding lz_decompress_lits [OF pre(1,2) nib pre(3)] Let_def R a offv g if_False
        more option.case prod.case cp ..
    then show ?thesis unfolding e_def ll by (simp only: append.simps append_assoc)
  qed
  ultimately show ?thesis using e unfolding e_def by blast
qed


lemma lz_emit_last_decompress:
  assumes em: "lz_emit_last src dst_cap anchor dst = Some dst'"
    and len: "length src \<le> 0xFFFFFF00" "length src \<le> dst_len" "anchor \<le> length src"
  shows "\<exists>e. dst' = dst @ e \<and> lz_decompress_loop dst_len e (take anchor src) = Some src"
proof -
  let ?lit = "length src - anchor"
  let ?lits = "drop anchor src"
  define cap where "cap = dst_cap - (length dst + 1)"
  have c: "length dst + 1 + ?lit div 255 + 1 + ?lit \<le> dst_cap"
    using em by (auto simp: lz_emit_last_def Let_def split: if_splits)
  then have cap: "?lit div 255 < cap" by (simp add: cap_def)
  let ?e = "(push_bit 4 (lz_nibble (length ?lits)) OR 0) # lz_more cap (length ?lits) @ ?lits @ []"
  have "dst' = dst @ ?e"
    using em c by (auto simp: lz_emit_last_def lz_more_def lz_nibble_def Let_def cap_def split: if_splits)
  moreover have "lz_decompress_loop dst_len ?e (take anchor src) = Some src"
    by (subst lz_decompress_lits) (use cap len in simp_all)
  ultimately show ?thesis by blast
qed

section \<open>The whole codec\<close>

lemma lz_compress_loop_decompress:
  assumes "lz_compress_loop src dst_cap mc lzy ip anchor tabs dst = Some c"
    and "anchor \<le> ip" "anchor \<le> length src" "length src \<le> 0xFFFFFF00" "length src \<le> dst_len"
    and "\<forall>r. lz_decompress_loop dst_len (dst @ r) [] = lz_decompress_loop dst_len r (take anchor src)"
  shows "lz_decompress_loop dst_len c [] = Some src"
  using assms
proof (induction src dst_cap mc lzy ip anchor tabs dst rule: lz_compress_loop.induct)
  case (1 src dst_cap mc lzy ip anchor tabs dst)
  note hyps = 1(4-8)
  obtain len1 off1 where f: "lz_find_match src ip tabs mc = (len1, off1)" by fastforce
  consider "\<not> ip + 3 \<le> length src" | "ip + 3 \<le> length src" "len1 = 0" | "ip + 3 \<le> length src" "len1 \<noteq> 0"
    by blast
  then show ?case
  proof cases
    case 1
    then have "lz_emit_last src dst_cap anchor dst = Some c"
      using "1.prems"(1) by (subst (asm) lz_compress_loop.simps) simp
    from lz_emit_last_decompress [OF this hyps(3,4,2)] hyps(5) show ?thesis by auto
  next
    case 2
    then have "lz_compress_loop src dst_cap mc lzy (ip + 1) anchor (lz_insert_hash src ip tabs) dst = Some c"
      using "1.prems"(1) f by (subst (asm) lz_compress_loop.simps) simp
    from "1.IH"(1) [OF _ f [symmetric] refl _ this] 2 hyps show ?thesis by simp
  next
    case 3
    obtain ip1 len off tabs1 where l: "lz_lazy src lzy mc ip len1 off1 tabs = (ip1, len, off, tabs1)"
      by (metis prod_cases4)
    have lt: "length src < 2 ^ 63" using hyps by simp
    from lz_find_match_sound [OF f 3(2) lt] lz_lazy_match [OF l _ _ lt]
    have m: "ip \<le> ip1" "3 \<le> len" "lz_match src ip1 len off" by auto
    obtain dst' where em: "lz_emit src dst_cap anchor ip1 len off dst = Some dst'"
      using "1.prems"(1) f l 3
      by (subst (asm) lz_compress_loop.simps) (auto split: option.splits)
    let ?tabs = "lz_insert_range src (ip1 + 1) (ip1 + len) (if \<not> lzy then lz_insert_hash src ip1 tabs1 else tabs1)"
    have nxt: "lz_compress_loop src dst_cap mc lzy (ip1 + len) (ip1 + len) ?tabs dst' = Some c"
      using "1.prems"(1) f l 3 em by (subst (asm) lz_compress_loop.simps) (simp add: Let_def)
    have le: "anchor \<le> ip1" "ip1 + len \<le> length src" using m hyps(1) by (auto simp: lz_match_def)
    from lz_emit_decompress [OF em m(3,2) le(1) hyps(3,4)] obtain e where
      e: "dst' = dst @ e" "\<forall>r. lz_decompress_loop dst_len (e @ r) (take anchor src) =
        lz_decompress_loop dst_len r (take (ip1 + len) src)"
      by blast
    show ?thesis
      by (rule "1.IH"(2) [OF _ f [symmetric] refl _ l [symmetric] refl refl refl em refl refl nxt])
         (use 3 le hyps e in simp_all)
  qed
qed

lemma lz_roundtrip:
  assumes "zupt_lz_compress ok src dst_cap level = Some c" "length src \<le> 0xFFFFFF00" "length src \<le> dst_len"
  shows "zupt_lz_decompress c dst_len = Some src"
  using assms lz_compress_loop_decompress [of src dst_cap _ _ 0 0 _ "[]" c dst_len]
  by (auto simp: zupt_lz_compress_def zupt_lz_decompress_def Let_def split: if_splits)

section \<open>Buffer bounds\<close>

lemma lz_emit_length: "lz_emit src dst_cap anchor ip len off dst = Some dst' \<Longrightarrow> length dst' \<le> dst_cap"
proof (erule lz_emit_form)
  fix c1 c2
  let ?lits = "take (ip - anchor) (drop anchor src)"
  assume d: "dst' = dst @ (push_bit 4 (lz_nibble (ip - anchor)) OR lz_nibble (len - 3)) #
      lz_more c1 (ip - anchor) @ ?lits @
      [word_of_nat (off mod 256), word_of_nat (off div 256 mod 256)] @ lz_more c2 (len - 3)"
    and c: "length dst + 1 + (ip - anchor) div 255 + 1 + (ip - anchor) + 2 + (len - 3) div 255 + 1 \<le> dst_cap"
  have "length ?lits \<le> ip - anchor" by simp
  then have "length dst' \<le> length dst + 1 + length (lz_more c1 (ip - anchor)) + (ip - anchor) + 2 +
      length (lz_more c2 (len - 3))"
    unfolding d by simp
  then show ?thesis
    using c length_lz_more [of c1 "ip - anchor"] length_lz_more [of c2 "len - 3"] by linarith
qed

lemma lz_emit_last_length:
  assumes em: "lz_emit_last src dst_cap anchor dst = Some dst'" shows "length dst' \<le> dst_cap"
proof -
  let ?lit = "length src - anchor"
  define cap where "cap = dst_cap - (length dst + 1)"
  have c: "length dst + 1 + ?lit div 255 + 1 + ?lit \<le> dst_cap"
    using em by (auto simp: lz_emit_last_def Let_def split: if_splits)
  have "dst' = dst @ (push_bit 4 (lz_nibble ?lit) OR 0) # lz_more cap ?lit @ drop anchor src"
    using em c by (auto simp: lz_emit_last_def lz_more_def lz_nibble_def Let_def cap_def split: if_splits)
  then have "length dst' = length dst + 1 + length (lz_more cap ?lit) + ?lit" by simp
  then show ?thesis using c length_lz_more [of cap ?lit] by linarith
qed

lemma lz_compress_loop_length:
  "lz_compress_loop src dst_cap mc lzy ip anchor tabs dst = Some c \<Longrightarrow> length c \<le> dst_cap"
proof (induction src dst_cap mc lzy ip anchor tabs dst rule: lz_compress_loop.induct)
  case (1 src dst_cap mc lzy ip anchor tabs dst)
  obtain len1 off1 where f: "lz_find_match src ip tabs mc = (len1, off1)" by fastforce
  obtain ip1 len off tabs1 where l: "lz_lazy src lzy mc ip len1 off1 tabs = (ip1, len, off, tabs1)"
    by (metis prod_cases4)
  show ?case
    using 1(3) "1.IH"(1) [OF _ f [symmetric] refl]
      "1.IH"(2) [OF _ f [symmetric] refl _ l [symmetric] refl refl refl _ refl refl]
    by (subst (asm) lz_compress_loop.simps)
       (auto simp: f l Let_def dest: lz_emit_last_length split: if_splits option.splits)
qed

lemma lz_emit_total:
  assumes "anchor \<le> ip" "3 \<le> len" "ip + len \<le> length src" "length dst \<le> 2 * anchor" "2 * length src + 2 \<le> dst_cap"
  shows "\<exists>dst'. lz_emit src dst_cap anchor ip len off dst = Some dst'"
proof -
  have "(ip - anchor) div 255 \<le> ip - anchor" "(len - 3) div 255 \<le> len - 3" by (rule div_le_dividend)+
  then have "\<not> length dst + 1 + (ip - anchor) div 255 + 1 + (ip - anchor) + 2 + (len - 3) div 255 + 1 > dst_cap"
    using assms by linarith
  then show ?thesis by (simp add: lz_emit_def Let_def)
qed

lemma lz_compress_loop_total:
  assumes "anchor \<le> ip" "anchor \<le> length src" "length src \<le> 0xFFFFFF00" "length dst \<le> 2 * anchor" "2 * length src + 2 \<le> dst_cap"
  shows "\<exists>c. lz_compress_loop src dst_cap mc lzy ip anchor tabs dst = Some c"
  using assms
proof (induction src dst_cap mc lzy ip anchor tabs dst rule: lz_compress_loop.induct)
  case (1 src dst_cap mc lzy ip anchor tabs dst)
  note hyps = 1(3-7)
  obtain len1 off1 where f: "lz_find_match src ip tabs mc = (len1, off1)" by fastforce
  consider "\<not> ip + 3 \<le> length src" | "ip + 3 \<le> length src" "len1 = 0" | "ip + 3 \<le> length src" "len1 \<noteq> 0"
    by blast
  then show ?case
  proof cases
    case 1
    have "(length src - anchor) div 255 \<le> length src - anchor" by (rule div_le_dividend)
    then have "\<not> length dst + 1 + (length src - anchor) div 255 + 1 + (length src - anchor) > dst_cap"
      using hyps by linarith
    then show ?thesis using 1
      by (subst lz_compress_loop.simps) (simp add: lz_emit_last_def Let_def)
  next
    case 2
    with "1.IH"(1) [OF _ f [symmetric] refl] hyps show ?thesis
      by (subst lz_compress_loop.simps) (simp add: f)
  next
    case 3
    obtain ip1 len off tabs1 where l: "lz_lazy src lzy mc ip len1 off1 tabs = (ip1, len, off, tabs1)"
      by (metis prod_cases4)
    have lt: "length src < 2 ^ 63" using hyps by simp
    from lz_find_match_sound [OF f 3(2) lt] lz_lazy_match [OF l _ _ lt]
    have m: "ip \<le> ip1" "3 \<le> len" "lz_match src ip1 len off" by auto
    then have b: "ip1 + len \<le> length src" "anchor \<le> ip1" using hyps(1) by (simp_all add: lz_match_def)
    obtain dst' where em: "lz_emit src dst_cap anchor ip1 len off dst = Some dst'"
      using lz_emit_total [OF b(2) m(2) b(1) hyps(4,5)] by blast
    from lz_emit_decompress [OF em m(3,2) b(2) hyps(3) le_refl] obtain e
      where "dst' = dst @ e" "length e \<le> 2 * (ip1 + len - anchor)" by blast
    then have "length dst' \<le> 2 * (ip1 + len)" using hyps(4) b(2) by simp
    from "1.IH"(2) [OF _ f [symmetric] refl 3(2) l [symmetric] refl refl refl em refl refl _ b(1) hyps(3) this hyps(5)] 3
    show ?thesis by (subst lz_compress_loop.simps) (simp add: f l em Let_def)
  qed
qed

lemma length_lz_copy [simp]: "length (lz_copy off n dst) = length dst + n"
  by (induction off n dst rule: lz_copy.induct) simp_all

lemma lz_decompress_loop_length:
  "lz_decompress_loop dst_len s dst = Some r \<Longrightarrow> length dst \<le> dst_len \<Longrightarrow> length r \<le> dst_len"
proof (induction dst_len s dst rule: lz_decompress_loop.induct)
  case (2 dst_len token s dst)
  from 2(2,3) show ?case
    by (subst (asm) lz_decompress_loop.simps) 
     (auto simp: Let_def split: option.splits if_splits prod.splits intro!: 2(1) [OF refl])
qed simp

section \<open>The codec as a block codec\<close>

lemma zupt_lz_compress_length: "zupt_lz_compress ok src dst_cap level = Some c \<Longrightarrow> length c \<le> dst_cap"
  by (auto simp: zupt_lz_compress_def Let_def dest: lz_compress_loop_length split: if_splits)

lemma zupt_lz_compress_total:
  assumes "src \<noteq> []" "length src \<le> 0xFFFFFF00" "2 * length src + 2 \<le> dst_cap"
  shows "\<exists>c. zupt_lz_compress True src dst_cap level = Some c"
  using assms lz_compress_loop_total [of 0 0 src "[]" dst_cap]
  by (simp add: zupt_lz_compress_def Let_def)

lemma zupt_lz_decompress_bound: "zupt_lz_decompress c n = Some y \<Longrightarrow> length y \<le> n"
  by (auto simp: zupt_lz_decompress_def dest: lz_decompress_loop_length)

interpretation lz: block_codec
  "\<lambda>(alloc_ok, dst_cap, level) src. zupt_lz_compress alloc_ok src dst_cap level"
  zupt_lz_decompress "\<lambda>src. length src \<le> 0xFFFFFF00"
  by unfold_locales (auto intro: lz_roundtrip zupt_lz_decompress_bound)

section \<open>Properties\<close>

text \<open>
  C9. Whatever \<open>zupt_lz_compress\<close> produces, at any level and with any capacity, fits the
  capacity and decompresses to exactly the input, in any output buffer that can hold it; two
  blocks never share a compressed form. (Blocks are far below the 4 GiB limit.)
\<close>

theorem lz_compress_decompress:
  assumes "zupt_lz_compress ok src dst_cap level = Some c"
    and "length src \<le> 0xFFFFFF00" "length src \<le> dst_len"
  shows "zupt_lz_decompress c dst_len = Some src \<and> length c \<le> dst_cap"
  using assms lz.dec_enc [of "(ok, dst_cap, level)" src c dst_len] zupt_lz_compress_length by simp

theorem lz_compress_decompress_witness:
  "\<exists>c. zupt_lz_compress True (replicate 40 7) 100 5 = Some c \<and>
     zupt_lz_decompress c 64 = Some (replicate 40 7) \<and> length c \<le> 100"
proof -
  obtain c where c: "zupt_lz_compress True (replicate 40 7) 100 5 = Some c"
    using zupt_lz_compress_total [of "replicate 40 7" 100 5] by auto
  from lz_compress_decompress [OF c, of 64] c show ?thesis by auto
qed

text \<open>
  The compressor does not give up while \<open>2 n + 2\<close> bytes of output are available (so the
  caller's fallback to storing a block is a matter of capacity only), and the decompressor
  never produces more than the buffer it was given, on any input, hostile ones included.
\<close>

theorem lz_capacity:
  assumes "src \<noteq> []" "length src \<le> 0xFFFFFF00" "2 * length src + 2 \<le> dst_cap"
  shows "zupt_lz_compress True src dst_cap level \<noteq> None \<and>
    (case zupt_lz_decompress s dst_len of None \<Rightarrow> True | Some out \<Rightarrow> length out \<le> dst_len)"
  using zupt_lz_compress_total [OF assms] lz.dec_bound by (auto split: option.split)

theorem lz_capacity_witness:
  "zupt_lz_compress True [1, 2, 3, 1, 2, 3, 1, 2, 3] 20 9 \<noteq> None \<and>
   (case zupt_lz_decompress [0x10, 65, 1, 0] 3 of None \<Rightarrow> True | Some out \<Rightarrow> length out \<le> 3)"
  using lz_capacity [where src = "[1, 2, 3, 1, 2, 3, 1, 2, 3]" and dst_cap = 20 and level = 9
      and s = "[0x10, 65, 1, 0]" and dst_len = 3] by simp

end
