(* ===== verification/Sha256.thy ===== *)
theory Sha256
  imports Prelude
begin

text \<open>
  SHA-256 (\<open>src/zupt_sha256.c\<close>): the compression function, the buffering \<open>update\<close>, and the
  padding of \<open>final\<close>. The context keeps the message length in a wrapping 64-bit counter and
  up to 63 pending bytes in a buffer whose unused part is stale. The hardware path
  (\<open>zupt_sha256_transform_shani\<close>, compiler intrinsics) is not modelled: \<open>sha256_blocks\<close> is its
  portable branch. Beside the code stands the hash of FIPS 180-4, written from the standard
  (\<open>sha256_hash\<close>), and the proof that the code computes it.
\<close>

section \<open>The compression function\<close>

definition sha256_K :: "u32 list" where
  "sha256_K = concat [
    [0x428a2f98, 0x71374491, 0xb5c0fbcf, 0xe9b5dba5, 0x3956c25b, 0x59f111f1, 0x923f82a4, 0xab1c5ed5],
    [0xd807aa98, 0x12835b01, 0x243185be, 0x550c7dc3, 0x72be5d74, 0x80deb1fe, 0x9bdc06a7, 0xc19bf174],
    [0xe49b69c1, 0xefbe4786, 0x0fc19dc6, 0x240ca1cc, 0x2de92c6f, 0x4a7484aa, 0x5cb0a9dc, 0x76f988da],
    [0x983e5152, 0xa831c66d, 0xb00327c8, 0xbf597fc7, 0xc6e00bf3, 0xd5a79147, 0x06ca6351, 0x14292967],
    [0x27b70a85, 0x2e1b2138, 0x4d2c6dfc, 0x53380d13, 0x650a7354, 0x766a0abb, 0x81c2c92e, 0x92722c85],
    [0xa2bfe8a1, 0xa81a664b, 0xc24b8b70, 0xc76c51a3, 0xd192e819, 0xd6990624, 0xf40e3585, 0x106aa070],
    [0x19a4c116, 0x1e376c08, 0x2748774c, 0x34b0bcb5, 0x391c0cb3, 0x4ed8aa4a, 0x5b9cca4f, 0x682e6ff3],
    [0x748f82ee, 0x78a5636f, 0x84c87814, 0x8cc70208, 0x90befffa, 0xa4506ceb, 0xbef9a3f7, 0xc67178f2]]"

definition RR :: "u32 \<Rightarrow> nat \<Rightarrow> u32" where
  "RR x n = drop_bit n x OR push_bit (32 - n) x"

definition CH :: "u32 \<Rightarrow> u32 \<Rightarrow> u32 \<Rightarrow> u32" where
  "CH x y z = (x AND y) XOR (NOT x AND z)"

definition MAJ :: "u32 \<Rightarrow> u32 \<Rightarrow> u32 \<Rightarrow> u32" where
  "MAJ x y z = (x AND y) XOR (x AND z) XOR (y AND z)"

definition EP0 :: "u32 \<Rightarrow> u32" where "EP0 x = RR x 2 XOR RR x 13 XOR RR x 22"
definition EP1 :: "u32 \<Rightarrow> u32" where "EP1 x = RR x 6 XOR RR x 11 XOR RR x 25"
definition SG0 :: "u32 \<Rightarrow> u32" where "SG0 x = RR x 7 XOR RR x 18 XOR drop_bit 3 x"
definition SG1 :: "u32 \<Rightarrow> u32" where "SG1 x = RR x 17 XOR RR x 19 XOR drop_bit 10 x"

definition be32 :: "bytes \<Rightarrow> nat \<Rightarrow> u32" where
  "be32 p i = push_bit 24 (ucast (p ! i)) OR push_bit 16 (ucast (p ! (i + 1))) OR
              push_bit 8 (ucast (p ! (i + 2))) OR ucast (p ! (i + 3))"

definition be32_put :: "u32 \<Rightarrow> bytes" where
  "be32_put v = [ucast (drop_bit 24 v), ucast (drop_bit 16 v), ucast (drop_bit 8 v), ucast v]"

text \<open>The message schedule, one word at a time: \<open>i\<close> is the number of words so far.\<close>

fun sha256_extend :: "nat \<Rightarrow> u32 list \<Rightarrow> u32 list" where
  "sha256_extend 0 w = w"
| "sha256_extend (Suc n) w =
     (let i = length w in
      sha256_extend n (w @ [SG1 (w ! (i - 2)) + w ! (i - 7) + SG0 (w ! (i - 15)) + w ! (i - 16)]))"

definition sha256_schedule :: "bytes \<Rightarrow> u32 list" where
  "sha256_schedule blk = sha256_extend 48 (map (\<lambda>i. be32 blk (i * 4)) [0..<16])"

text \<open>The working variables \<open>a, b, cc, d, e, f, g, h\<close>.\<close>

type_synonym sha256_vars = "u32 \<times> u32 \<times> u32 \<times> u32 \<times> u32 \<times> u32 \<times> u32 \<times> u32"

fun sha256_round :: "u32 \<times> u32 \<Rightarrow> sha256_vars \<Rightarrow> sha256_vars" where
  "sha256_round (k, w) (a, b, cc, d, e, f, g, h) =
     (let t1 = h + EP1 e + CH e f g + k + w; t2 = EP0 a + MAJ a b cc in
      (t1 + t2, a, b, cc, d + t1, e, f, g))"

definition sha256_vars :: "u32 list \<Rightarrow> sha256_vars" where
  "sha256_vars s = (s ! 0, s ! 1, s ! 2, s ! 3, s ! 4, s ! 5, s ! 6, s ! 7)"

definition sha256_transform :: "u32 list \<Rightarrow> bytes \<Rightarrow> u32 list" where
  "sha256_transform s blk =
     (case fold sha256_round (zip sha256_K (sha256_schedule blk)) (sha256_vars s) of
        (a, b, cc, d, e, f, g, h) \<Rightarrow>
          [s ! 0 + a, s ! 1 + b, s ! 2 + cc, s ! 3 + d, s ! 4 + e, s ! 5 + f, s ! 6 + g, s ! 7 + h])"

section \<open>The context\<close>

record zupt_sha256_ctx =
  sha_state :: "u32 list"
  sha_buf :: bytes
  sha_count :: u64

definition sha256_H0 :: "u32 list" where
  "sha256_H0 = [0x6a09e667, 0xbb67ae85, 0x3c6ef372, 0xa54ff53a,
                0x510e527f, 0x9b05688c, 0x1f83d9ab, 0x5be0cd19]"

text \<open>\<open>stale\<close> is what the 64 bytes of the buffer hold when the context is set up.\<close>

definition zupt_sha256_init :: "(nat \<Rightarrow> u8) \<Rightarrow> zupt_sha256_ctx" where
  "zupt_sha256_init stale = \<lparr>sha_state = sha256_H0, sha_buf = map stale [0..<64], sha_count = 0\<rparr>"

fun sha256_blocks :: "nat \<Rightarrow> u32 list \<Rightarrow> bytes \<Rightarrow> u32 list" where
  "sha256_blocks 0 s data = s"
| "sha256_blocks (Suc n) s data = sha256_blocks n (sha256_transform s (take 64 data)) (drop 64 data)"

text \<open>The three steps of \<open>update\<close>: top up the buffer, whole blocks from the input, the tail.\<close>

definition sha256_top_up :: "zupt_sha256_ctx \<Rightarrow> bytes \<Rightarrow> zupt_sha256_ctx \<times> bytes" where
  "sha256_top_up c d =
     (let off = unat (sha_count c mod 64) in
      if off \<noteq> 0 then
        let chunk = (if 64 - off > length d then length d else 64 - off);
            buf = buf_write (sha_buf c) off (take chunk d);
            count = sha_count c + word_of_nat chunk in
        (\<lparr>sha_state = (if count mod 64 = 0 then sha256_blocks 1 (sha_state c) buf else sha_state c),
          sha_buf = buf, sha_count = count\<rparr>,
         drop chunk d)
      else (c, d))"

definition sha256_bulk :: "zupt_sha256_ctx \<Rightarrow> bytes \<Rightarrow> zupt_sha256_ctx \<times> bytes" where
  "sha256_bulk c d =
     (if length d \<ge> 64 then
        let full = length d div 64; consumed = full * 64 in
        (c\<lparr>sha_state := sha256_blocks full (sha_state c) d,
           sha_count := sha_count c + word_of_nat consumed\<rparr>, drop consumed d)
      else (c, d))"

definition sha256_tail :: "zupt_sha256_ctx \<Rightarrow> bytes \<Rightarrow> zupt_sha256_ctx" where
  "sha256_tail c d =
     (if length d > 0
      then c\<lparr>sha_buf := buf_write (sha_buf c) 0 d, sha_count := sha_count c + word_of_nat (length d)\<rparr>
      else c)"

definition zupt_sha256_update :: "zupt_sha256_ctx \<Rightarrow> bytes \<Rightarrow> zupt_sha256_ctx" where
  "zupt_sha256_update c d =
     (let (c1, d1) = sha256_top_up c d; (c2, d2) = sha256_bulk c1 d1 in sha256_tail c2 d2)"

section \<open>What a context stands for\<close>

text \<open>The chaining value after all whole blocks of a message.\<close>

function sha256_chain :: "u32 list \<Rightarrow> bytes \<Rightarrow> u32 list" where
  "sha256_chain s m = (if length m < 64 then s else sha256_chain (sha256_transform s (take 64 m)) (drop 64 m))"
  by pat_completeness auto
termination by (relation "measure (\<lambda>(s, m). length m)") auto

declare sha256_chain.simps [simp del]

definition sha256_repr :: "zupt_sha256_ctx \<Rightarrow> bytes \<Rightarrow> bool" where
  "sha256_repr c m \<longleftrightarrow>
     sha_state c = sha256_chain sha256_H0 (whole_blocks 64 m) \<and>
     sha_count c = word_of_nat (length m) \<and> length (sha_buf c) = 64 \<and>
     take (length m mod 64) (sha_buf c) = pending 64 m"

lemma sha256_chain_short: "length m < 64 \<Longrightarrow> sha256_chain s m = s"
  by (subst sha256_chain.simps) simp

lemma sha256_chain_append:
  "length a mod 64 = 0 \<Longrightarrow> sha256_chain s (a @ b) = sha256_chain (sha256_chain s a) b"
proof (induction s a rule: sha256_chain.induct)
  case (1 s a)
  show ?case
  proof (cases "length a < 64")
    case True
    then have "a = []" using 1(2) by (cases a) auto
    then show ?thesis by (simp add: sha256_chain_short)
  next
    case False
    then have "length (drop 64 a) mod 64 = 0" using 1(2) by (simp add: le_mod_geq)
    have "sha256_chain s (a @ b) = sha256_chain (sha256_transform s (take 64 a)) (drop 64 a @ b)"
      using False by (subst sha256_chain.simps) simp
    also have "\<dots> = sha256_chain (sha256_chain (sha256_transform s (take 64 a)) (drop 64 a)) b"
      using 1(1) [OF False \<open>length (drop 64 a) mod 64 = 0\<close>] .
    also have "sha256_chain (sha256_transform s (take 64 a)) (drop 64 a) = sha256_chain s a"
      using False by (subst (2) sha256_chain.simps) simp
    finally show ?thesis .
  qed
qed

lemma sha256_blocks_chain:
  "n * 64 \<le> length d \<Longrightarrow> sha256_blocks n s d = sha256_chain s (take (n * 64) d)"
proof (induction n arbitrary: s d)
  case (Suc n)
  have "take (Suc n * 64) d = take 64 d @ take (n * 64) (drop 64 d)"
    by (simp add: take_add add.commute)
  then show ?case using Suc
    by (simp add: sha256_chain_append) (subst (2) sha256_chain.simps, simp add: sha256_chain_short)
qed (simp add: sha256_chain_short)

lemma unat_count_mod: "unat (word_of_nat n mod 64 :: u64) = n mod 64"
  by (simp add: unat_mod unat_of_nat mod_mod_cancel)

lemma count_mod_0: "word_of_nat n mod 64 = (0 :: u64) \<longleftrightarrow> n mod 64 = 0"
  using unat_count_mod [of n] by (metis unat_0 unat_eq_0)

lemma sha256_repr_init: "sha256_repr (zupt_sha256_init stale) []"
  by (simp add: sha256_repr_def zupt_sha256_init_def sha256_chain_short)

text \<open>Bytes that complete no block only change the buffer.\<close>

lemma sha256_repr_short:
  assumes "sha256_repr c m" "length m mod 64 + length d < 64"
  shows "sha256_repr (c\<lparr>sha_buf := buf_write (sha_buf c) (length m mod 64) d,
    sha_count := sha_count c + word_of_nat (length d)\<rparr>) (m @ d)"
proof -
  have p: "length (pending 64 m) + length d < 64" using assms(2) by (simp add: length_pending)
  note b = blocks_more [OF p]
  have l: "length (m @ d) mod 64 = length m mod 64 + length d"
    using arg_cong [OF b(2), of length] by (simp only: length_pending length_append)
  have "take (length m mod 64 + length d) (buf_write (sha_buf c) (length m mod 64) d) = pending 64 m @ d"
    using assms by (simp add: sha256_repr_def take_buf_write)
  then show ?thesis
    using assms unfolding sha256_repr_def l b by simp
qed

lemma sha256_top_up_repr:
  assumes "sha256_repr c m" "sha256_top_up c d = (c1, d1)"
  shows "\<exists>k. d1 = drop k d \<and> sha256_repr c1 (m @ take k d) \<and> (pending 64 (m @ take k d) = [] \<or> d1 = [])"
proof -
  define off where "off = length m mod 64"
  have off: "unat (sha_count c mod 64) = off"
    using assms(1) by (simp add: sha256_repr_def unat_count_mod off_def)
  have lp: "length (pending 64 m) = off" by (simp add: length_pending off_def)
  consider "off = 0" | "off \<noteq> 0" "off + length d < 64" | "off \<noteq> 0" "64 \<le> off + length d" by linarith
  then show ?thesis
  proof cases
    case 1
    then show ?thesis using assms off lp by (intro exI [of _ 0]) (simp add: sha256_top_up_def Let_def)
  next
    case 2
    have r: "sha256_repr (c\<lparr>sha_buf := buf_write (sha_buf c) off d,
        sha_count := sha_count c + word_of_nat (length d)\<rparr>) (m @ d)" (is "sha256_repr ?c _")
      unfolding off_def by (rule sha256_repr_short) (use assms 2 off_def in simp_all)
    have "length (m @ d) mod 64 \<noteq> 0"
      using arg_cong [OF blocks_more(2) [of 64 m d], of length] 2 lp
      by (simp only: length_pending length_append)
    then have "sha_count ?c mod 64 \<noteq> 0"
      using r count_mod_0 unfolding sha256_repr_def by metis
    moreover have "64 - off > length d" using 2(2) by linarith
    ultimately have "sha256_top_up c d = (?c, [])"
      using 2 off by (simp add: sha256_top_up_def Let_def)
    with assms(2) r show ?thesis by (intro exI [of _ "length d"]) simp
  next
    case 3
    define t where "t = take (64 - off) d"
    have lt: "length t = 64 - off" using 3 by (simp add: t_def)
    have o64: "off < 64" by (simp add: off_def)
    let ?buf = "buf_write (sha_buf c) off t"
    let ?cnt = "sha_count c + word_of_nat (64 - off)"
    have buf: "length (sha_buf c) = 64" "take off (sha_buf c) = pending 64 m"
      using assms(1) by (simp_all add: sha256_repr_def off_def)
    have b: "?buf = pending 64 m @ t" using buf lt o64 by (simp add: buf_write_def)
    have l64: "length (pending 64 m @ t) = 64" using lp lt o64 by simp
    then have m64: "length (pending 64 m @ t) mod 64 = 0" by simp
    note blk = blocks_append [OF m64 zero_less_numeral]
    have z: "length (m @ t) mod 64 = 0" using arg_cong [OF blk(2), of length] by (simp only: length_pending list.size)
    have cnt: "?cnt = word_of_nat (length (m @ t))" using assms(1) lt by (simp add: sha256_repr_def)
    then have cz: "?cnt mod 64 = 0" using count_mod_0 z by metis
    have ch: "(if 64 - off > length d then length d else 64 - off) = 64 - off" using 3(2) by auto
    have "sha256_top_up c d = (\<lparr>sha_state = sha256_blocks 1 (sha_state c) ?buf, sha_buf = ?buf,
        sha_count = ?cnt\<rparr>, drop (64 - off) d)"
      unfolding sha256_top_up_def off Let_def ch using 3(1) cz
      by (simp add: t_def del: sha256_blocks.simps)
    then have c1: "c1 = \<lparr>sha_state = sha256_blocks 1 (sha_state c) ?buf, sha_buf = ?buf, sha_count = ?cnt\<rparr>"
      and d1: "d1 = drop (64 - off) d"
      using assms(2) by simp_all
    have "sha256_chain sha256_H0 (whole_blocks 64 m @ pending 64 m @ t) =
        sha256_chain (sha_state c) (pending 64 m @ t)"
      using assms(1) by (simp add: sha256_chain_append length_whole_blocks sha256_repr_def)
    also have "\<dots> = sha256_blocks 1 (sha_state c) ?buf"
      using sha256_blocks_chain [of 1 ?buf "sha_state c"] l64 by (simp only: b) simp
    finally have "sha256_repr c1 (m @ t)"
      unfolding sha256_repr_def c1 blk z using l64 cnt by (simp add: b)
    then show ?thesis using d1 blk(2) by (auto simp: t_def)
  qed
qed

lemma sha256_bulk_repr:
  assumes "sha256_repr c m" "pending 64 m = [] \<or> d = []" "sha256_bulk c d = (c1, d1)"
  shows "\<exists>k. d1 = drop k d \<and> sha256_repr c1 (m @ take k d) \<and>
    (pending 64 (m @ take k d) = [] \<or> d1 = []) \<and> length d1 < 64"
proof (cases "64 \<le> length d")
  case False
  then show ?thesis using assms by (intro exI [of _ 0]) (auto simp: sha256_bulk_def)
next
  case True
  define k where "k = length d div 64 * 64"
  have p: "pending 64 m = []" using assms(2) True by auto
  have le: "k \<le> length d" by (simp add: k_def)
  have c1: "c1 = c\<lparr>sha_state := sha256_blocks (length d div 64) (sha_state c) d,
      sha_count := sha_count c + word_of_nat k\<rparr>" and d1: "d1 = drop k d"
    using assms(3) True by (simp_all add: sha256_bulk_def Let_def k_def)
  have lk: "length (take k d) = k" using le by simp
  have "length (pending 64 m @ take k d) mod 64 = 0" unfolding p length_append lk by (simp add: k_def)
  note blk = blocks_append [OF this zero_less_numeral]
  have z: "length (m @ take k d) mod 64 = 0"
    using arg_cong [OF blk(2), of length] by (simp only: length_pending list.size)
  have "sha256_chain sha256_H0 (whole_blocks 64 m @ take k d) = sha256_chain (sha_state c) (take k d)"
    using assms(1) by (simp add: sha256_chain_append length_whole_blocks sha256_repr_def)
  also have "\<dots> = sha256_blocks (length d div 64) (sha_state c) d"
    using sha256_blocks_chain [of "length d div 64" d] le by (simp only: k_def)
  finally have "sha256_repr c1 (m @ take k d)"
    using assms(1) le unfolding sha256_repr_def c1 blk z p by simp
  moreover have "length d1 < 64" using le d1 by (simp add: k_def minus_div_mult_eq_mod)
  ultimately show ?thesis using d1 blk(2) by auto
qed

lemma sha256_tail_repr:
  assumes "sha256_repr c m" "pending 64 m = [] \<or> d = []" "length d < 64"
  shows "sha256_repr (sha256_tail c d) (m @ d)"
proof (cases "d = []")
  case False
  then have "length m mod 64 = 0" using assms(2) length_pending [of 64 m] by simp
  with sha256_repr_short [OF assms(1), of d] False assms(3) show ?thesis by (simp add: sha256_tail_def)
qed (use assms in \<open>simp add: sha256_tail_def\<close>)

lemma sha256_repr_update:
  assumes "sha256_repr c m" shows "sha256_repr (zupt_sha256_update c d) (m @ d)"
proof -
  obtain c1 d1 where 1: "sha256_top_up c d = (c1, d1)" by fastforce
  obtain c2 d2 where 2: "sha256_bulk c1 d1 = (c2, d2)" by fastforce
  from sha256_top_up_repr [OF assms 1] obtain k where
    k: "d1 = drop k d" "sha256_repr c1 (m @ take k d)" "pending 64 (m @ take k d) = [] \<or> d1 = []" by blast
  from sha256_bulk_repr [OF k(2,3) 2] obtain l where
    l: "d2 = drop l d1" "sha256_repr c2 ((m @ take k d) @ take l d1)"
      "pending 64 ((m @ take k d) @ take l d1) = [] \<or> d2 = []" "length d2 < 64" by blast
  have "((m @ take k d) @ take l d1) @ d2 = m @ d"
    using k(1) l(1) by (simp only: append_assoc append_take_drop_id)
  with sha256_tail_repr [OF l(2,3,4)] show ?thesis by (simp add: zupt_sha256_update_def 1 2)
qed


section \<open>Padding and the digest\<close>

lemma sha_count_update: "sha_count (zupt_sha256_update c [b]) = sha_count c + 1"
proof -
  define off where "off = unat (sha_count c mod 64)"
  have "off < 64" by (simp add: off_def unat_mod)
  then have "(if 64 - off > length [b] then length [b] else 64 - off) = 1" by auto
  then show ?thesis
    unfolding zupt_sha256_update_def sha256_top_up_def off_def [symmetric] Let_def
    by (auto simp: sha256_bulk_def sha256_tail_def)
qed

lemma sha256_pad_step:
  assumes "r < 64" "r \<noteq> 56"
  shows "Suc ((120 - (r + 1) mod 64) mod 64) = (120 - r) mod (64 :: nat)"
proof -
  consider "r < 56" | "r = 63" | "56 < r" "r < 63" using assms by linarith
  then show ?thesis
  proof cases
    case 1
    then show ?thesis using le_mod_geq [of 64 "120 - r"] le_mod_geq [of 64 "120 - (r + 1)"] by simp
  qed auto
qed

lemma sha256_pad_measure:
  "r < 64 \<Longrightarrow> r \<noteq> 56 \<Longrightarrow> (120 - (r + 1) mod 64) mod 64 < (120 - r) mod (64 :: nat)"
  using sha256_pad_step [of r] by linarith

text \<open>The loop that pads with zero bytes until 56 bytes of a block are filled.\<close>

function sha256_pad_loop :: "zupt_sha256_ctx \<Rightarrow> zupt_sha256_ctx" where
  "sha256_pad_loop c =
     (if sha_count c mod 64 \<noteq> 56 then sha256_pad_loop (zupt_sha256_update c [0]) else c)"
  by pat_completeness auto
termination
proof (relation "measure (\<lambda>c. (120 - unat (sha_count c) mod 64) mod 64)", simp, clarsimp)
  fix c :: zupt_sha256_ctx assume ne: "sha_count c mod 64 \<noteq> 56"
  have "unat (sha_count c + 1) mod 64 = (unat (sha_count c) + 1) mod 64"
    by (simp add: unat_word_ariths mod_mod_cancel)
  moreover have "unat (sha_count c) mod 64 \<noteq> 56"
    proof
    assume "unat (sha_count c) mod 64 = 56"
    then have "unat (sha_count c mod 64) = unat (56 :: u64)" by (simp add: unat_mod)
    with ne show False by (simp only: word_unat_eq_iff)
  qed
  ultimately show "(120 - unat (sha_count (zupt_sha256_update c [0])) mod 64) mod 64
      < (120 - unat (sha_count c) mod 64) mod 64"
    unfolding sha_count_update using sha256_pad_measure [of "unat (sha_count c) mod 64"]
    by (simp add: mod_simps)
qed


declare sha256_pad_loop.simps [simp del]

fun be64_put_loop :: "nat \<Rightarrow> u64 \<Rightarrow> bytes \<Rightarrow> bytes" where
  "be64_put_loop 0 bits len = len"
| "be64_put_loop (Suc n) bits len = be64_put_loop n (drop_bit 8 bits) (ucast (bits AND 0xFF) # len)"

definition zupt_sha256_final :: "zupt_sha256_ctx \<Rightarrow> bytes" where
  "zupt_sha256_final c =
     (let bits = sha_count c * 8;
          c1 = sha256_pad_loop (zupt_sha256_update c [0x80]);
          c2 = zupt_sha256_update c1 (be64_put_loop 8 bits []) in
      concat (map (\<lambda>i. be32_put (sha_state c2 ! i)) [0..<8]))"

definition zupt_sha256 :: "(nat \<Rightarrow> u8) \<Rightarrow> bytes \<Rightarrow> bytes" where
  "zupt_sha256 stale d = zupt_sha256_final (zupt_sha256_update (zupt_sha256_init stale) d)"

section \<open>SHA-256 as FIPS 180-4 defines it\<close>

text \<open>
  The standard, written down without any definition of the code: the six functions of 4.1.2 on
  the rotations of the word library, the constants of 4.2.2 and 5.3.3 computed from the cube and
  square roots of the first primes, the padding of 5.1.1, the recursive message schedule and the
  64 rounds of 6.2.2.
\<close>

definition fips_Ch :: "u32 \<Rightarrow> u32 \<Rightarrow> u32 \<Rightarrow> u32" where
  "fips_Ch x y z = (x AND y) XOR (NOT x AND z)"

definition fips_Maj :: "u32 \<Rightarrow> u32 \<Rightarrow> u32 \<Rightarrow> u32" where
  "fips_Maj x y z = (x AND y) XOR (x AND z) XOR (y AND z)"

definition fips_Sigma0 :: "u32 \<Rightarrow> u32" where
  "fips_Sigma0 x = word_rotr 2 x XOR word_rotr 13 x XOR word_rotr 22 x"

definition fips_Sigma1 :: "u32 \<Rightarrow> u32" where
  "fips_Sigma1 x = word_rotr 6 x XOR word_rotr 11 x XOR word_rotr 25 x"

definition fips_sigma0 :: "u32 \<Rightarrow> u32" where
  "fips_sigma0 x = word_rotr 7 x XOR word_rotr 18 x XOR drop_bit 3 x"

definition fips_sigma1 :: "u32 \<Rightarrow> u32" where
  "fips_sigma1 x = word_rotr 17 x XOR word_rotr 19 x XOR drop_bit 10 x"

text \<open>
  The constants are the first 32 bits of the fractional parts of roots of primes:
  \<open>iroot k n i 0\<close> finds the integer part of the \<open>k\<close>-th root of \<open>n\<close> bit by bit, and the integer
  part of \<open>2 ^ 32\<close> times a root, cut to a 32-bit word, is its fraction.
\<close>

fun iroot :: "nat \<Rightarrow> nat \<Rightarrow> nat \<Rightarrow> nat \<Rightarrow> nat" where
  "iroot k n 0 r = r"
| "iroot k n (Suc i) r = iroot k n i (if (r + 2 ^ i) ^ k \<le> n then r + 2 ^ i else r)"

definition root_fraction :: "nat \<Rightarrow> nat \<Rightarrow> u32" where
  "root_fraction k p = word_of_nat (iroot k (p * 2 ^ (32 * k)) 36 0)"

definition first_primes :: "nat list" where
  "first_primes = [2, 3, 5, 7, 11, 13, 17, 19, 23, 29, 31, 37, 41, 43, 47, 53, 59, 61, 67, 71, 73, 79,
     83, 89, 97, 101, 103, 107, 109, 113, 127, 131, 137, 139, 149, 151, 157, 163, 167, 173, 179, 181,
     191, 193, 197, 199, 211, 223, 227, 229, 233, 239, 241, 251, 257, 263, 269, 271, 277, 281, 283,
     293, 307, 311]"

definition fips_K :: "u32 list" where
  "fips_K = map (root_fraction 3) first_primes"

definition fips_H0 :: "u32 list" where
  "fips_H0 = map (root_fraction 2) (take 8 first_primes)"

text \<open>Big-endian bytes of a word; padding with the least number of zero bytes that reaches 56
  modulo 64, then the length in bits.\<close>

definition fips_bytes :: "'a :: len word \<Rightarrow> bytes" where
  "fips_bytes w = map (\<lambda>i. ucast (drop_bit (8 * i) w)) (rev [0..<LENGTH('a) div 8])"

definition fips_pad :: "bytes \<Rightarrow> bytes" where
  "fips_pad m = m @ [0x80] @ replicate (nat ((55 - int (length m)) mod 64)) 0 @
     fips_bytes (word_of_nat (8 * length m) :: u64)"

fun fips_W :: "bytes \<Rightarrow> nat \<Rightarrow> u32" where
  "fips_W blk t =
     (if t < 16 then word_rcat (take 4 (drop (4 * t) blk))
      else fips_sigma1 (fips_W blk (t - 2)) + fips_W blk (t - 7) + fips_sigma0 (fips_W blk (t - 15)) +
        fips_W blk (t - 16))"

declare fips_W.simps [simp del]

fun fips_vars :: "u32 list \<Rightarrow> bytes \<Rightarrow> nat \<Rightarrow> u32 list" where
  "fips_vars H blk 0 = H"
| "fips_vars H blk (Suc t) =
     (case fips_vars H blk t of
        [a, b, c, d, e, f, g, h] \<Rightarrow>
          (let T1 = h + fips_Sigma1 e + fips_Ch e f g + fips_K ! t + fips_W blk t;
               T2 = fips_Sigma0 a + fips_Maj a b c in
           [T1 + T2, a, b, c, d + T1, e, f, g])
      | _ \<Rightarrow> [])"

fun fips_H :: "bytes \<Rightarrow> nat \<Rightarrow> u32 list" where
  "fips_H M 0 = fips_H0"
| "fips_H M (Suc i) = map2 (+) (fips_vars (fips_H M i) (take 64 (drop (64 * i) M)) 64) (fips_H M i)"

definition sha256_hash :: "bytes \<Rightarrow> bytes" where
  "sha256_hash m = (let M = fips_pad m in concat (map fips_bytes (fips_H M (length M div 64))))"

section \<open>The code's tables, functions and compression are those of the standard\<close>

text \<open>\<open>iroot\<close> is the integer root.\<close>

lemma iroot_root:
  assumes "0 < k" "r ^ k \<le> n" "n < (r + 2 ^ i) ^ k"
  shows "iroot k n i r ^ k \<le> n \<and> n < (iroot k n i r + 1) ^ k"
  using assms by (induction i arbitrary: r) (auto simp: algebra_simps mult_2)

lemma power_less_imp_le: "r ^ k < (s + 1) ^ k \<Longrightarrow> r \<le> s" for r s k :: nat
  by (metis Suc_eq_plus1 less_Suc_eq_le not_le power_mono zero_le)

lemma two_32: "(4294967296 :: u32) = 0"
  by simp

text \<open>A word with an integer part \<open>q\<close> that brackets the root is the constant.\<close>

lemma root_fraction_eq:
  assumes "0 < k" "p < 16 ^ k" "(q * 2 ^ 32 + unat w) ^ k \<le> p * 2 ^ (32 * k)"
    "p * 2 ^ (32 * k) < (q * 2 ^ 32 + unat w + 1) ^ k"
  shows "root_fraction k p = w"
proof -
  let ?n = "p * 2 ^ (32 * k)" and ?r = "q * 2 ^ 32 + unat w"
  have "?n < 16 ^ k * 2 ^ (32 * k)" using assms(2) by simp
  also have "\<dots> = (0 + 2 ^ 36) ^ k"
    by (simp only: power_mult power_mult_distrib [symmetric] add_0) simp
  finally have i: "iroot k ?n 36 0 ^ k \<le> ?n" "?n < (iroot k ?n 36 0 + 1) ^ k"
    using iroot_root [OF assms(1), of 0 ?n 36] assms(1) by (simp_all add: zero_power)
  have "iroot k ?n 36 0 = ?r"
    using power_less_imp_le [OF le_less_trans [OF i(1) assms(4)]]
      power_less_imp_le [OF le_less_trans [OF assms(3) i(2)]] by (rule order_antisym)
  then show ?thesis by (simp add: root_fraction_def two_32)
qed

definition brackets :: "nat \<Rightarrow> nat \<Rightarrow> u32 \<Rightarrow> bool" where
  "brackets k p w \<longleftrightarrow>
     (let q = (if p < 2 ^ k then 1 else if p < 3 ^ k then 2 else if p < 4 ^ k then 3 else
               if p < 5 ^ k then 4 else if p < 6 ^ k then 5 else 6); r = q * 2 ^ 32 + unat w in
      r ^ k \<le> p * 2 ^ (32 * k) \<and> p * 2 ^ (32 * k) < (r + 1) ^ k)"

lemma root_fraction_brackets: "0 < k \<Longrightarrow> p < 16 ^ k \<Longrightarrow> brackets k p w \<Longrightarrow> root_fraction k p = w"
  unfolding brackets_def Let_def by (elim conjE) (rule root_fraction_eq)

lemma root_fractions:
  assumes "0 < k" "\<forall>p \<in> set ps. p < 16 ^ k" "list_all2 (brackets k) ps ws"
  shows "map (root_fraction k) ps = ws"
  using assms(3,2) by (induction rule: list_all2_induct) (simp_all add: root_fraction_brackets [OF assms(1)])

lemma fips_H0_code: "fips_H0 = sha256_H0"
  unfolding fips_H0_def
  by (rule root_fractions) (simp_all add: first_primes_def sha256_H0_def brackets_def Let_def)

lemma fips_K_code: "fips_K = sha256_K"
  unfolding fips_K_def
  by (rule root_fractions) (simp_all add: first_primes_def sha256_K_def brackets_def Let_def)

lemma RR_rotr:
  assumes "0 < n" "n < 32" shows "RR x n = word_rotr n x"
proof (rule bit_word_eqI)
  fix i assume i: "i < LENGTH(32)"
  show "bit (RR x n) i = bit (word_rotr n x) i"
  proof (cases "i + n < 32")
    case True
    then have "\<not> 32 - n \<le> i" by linarith
    with True show ?thesis using assms i
      by (simp add: RR_def bit_or_iff bit_drop_bit_eq bit_push_bit_iff bit_word_rotr_iff add.commute)
  next
    case False
    then have "(i + n) mod 32 = i + n - 32" using assms i by (simp add: le_mod_geq)
    moreover have "\<not> bit x (n + i)" using False by (auto dest: bit_imp_le_length)
    ultimately show ?thesis using False assms i
      by (auto simp: RR_def bit_or_iff bit_drop_bit_eq bit_push_bit_iff bit_word_rotr_iff)
  qed
qed

lemma functions_fips:
  "CH = fips_Ch" "MAJ = fips_Maj" "EP0 = fips_Sigma0" "EP1 = fips_Sigma1"
  "SG0 = fips_sigma0" "SG1 = fips_sigma1"
  by (simp_all add: fun_eq_iff CH_def fips_Ch_def MAJ_def fips_Maj_def EP0_def fips_Sigma0_def
    EP1_def fips_Sigma1_def SG0_def fips_sigma0_def SG1_def fips_sigma1_def RR_rotr)

lemma bit_word_rcat_bytes:
  "bit (word_rcat bs :: u32) n \<longleftrightarrow> n < 32 \<and> n div 8 < length bs \<and> bit (rev bs ! (n div 8)) (n mod 8)"
  for bs :: bytes
  by (simp add: word_rcat_def bit_horner_sum_uint_exp_iff [where 'a = 8, simplified] bit_word_of_int_iff)

lemma be32_fips:
  assumes "i + 4 \<le> length p" shows "be32 p i = word_rcat (take 4 (drop i p))"
proof (rule bit_word_eqI)
  have t: "take 4 (drop i p) = [p ! i, p ! (i + 1), p ! (i + 2), p ! (i + 3)]"
    using assms by (intro nth_equalityI) (auto simp: less_Suc_eq numeral_eq_Suc nth_Cons')
  fix n assume n: "n < LENGTH(32)"
  consider "n < 8" | "8 \<le> n" "n < 16" | "16 \<le> n" "n < 24" | "24 \<le> n" using n by linarith
  then show "bit (be32 p i) n = bit (word_rcat (take 4 (drop i p)) :: u32) n"
  proof cases
    case 1
    then show ?thesis
      by (auto simp: t bit_word_rcat_bytes be32_def bit_simps)
  next
    case 2
    then have "n div 8 = 1" "n mod 8 = n - 8" by (simp_all add: le_mod_geq)
    with 2 n show ?thesis
      by (auto simp: t bit_word_rcat_bytes be32_def bit_simps dest: bit_imp_le_length)
  next
    case 3
    then have "n div 8 = 2" "n mod 8 = n - 16" by (simp_all add: le_mod_geq)
    with 3 n show ?thesis
      by (auto simp: t bit_word_rcat_bytes be32_def bit_simps dest: bit_imp_le_length)
  next
    case 4
    then have "n div 8 = 3" "n mod 8 = n - 24" using n by (simp_all add: le_mod_geq)
    with 4 n show ?thesis
      by (auto simp: t bit_word_rcat_bytes be32_def bit_simps dest: bit_imp_le_length)
  qed
qed

lemma be64_put_loop_map: "be64_put_loop n v l = map (\<lambda>i. ucast (drop_bit (8 * i) v)) (rev [0..<n]) @ l"
proof (induction n arbitrary: v l)
  case (Suc n)
  have "(ucast (v AND 0xFF) :: u8) = ucast v"
    by (rule bit_word_eqI) (auto simp: bit_simps mask_eq_exp_minus_1 simp flip: mask_eq_exp_minus_1 [of 8])
  then show ?case
    using Suc by (simp add: upt_conv_Cons [of 0 "Suc n"] map_Suc_upt [symmetric] rev_map drop_bit_drop_bit add.commute
      del: upt_Suc)
qed simp

lemma be64_put_loop_fips: "be64_put_loop 8 v [] = fips_bytes v"
  by (simp add: fips_bytes_def be64_put_loop_map)

lemma be32_put_fips: "be32_put v = fips_bytes v"
proof -
  have "[0..<4] = [0, 1, 2, 3 :: nat]" by code_simp
  then show ?thesis by (simp add: be32_put_def fips_bytes_def)
qed

text \<open>The schedule and the rounds.\<close>

lemma sha256_extend_W:
  assumes "16 \<le> length w" "w = map (fips_W blk) [0..<length w]"
  shows "sha256_extend n w = map (fips_W blk) [0..<length w + n]"
  using assms
proof (induction n arbitrary: w)
  case (Suc n)
  let ?i = "length w"
  let ?x = "SG1 (w ! (?i - 2)) + w ! (?i - 7) + SG0 (w ! (?i - 15)) + w ! (?i - 16)"
  have nth: "w ! j = fips_W blk j" if "j < ?i" for j
    using that Suc.prems(2) by (metis add_0 nth_map_upt minus_nat.diff_0)
  have "?x = fips_W blk ?i"
    using Suc.prems(1) by (subst fips_W.simps) (simp add: nth functions_fips)
  moreover have "w @ [fips_W blk ?i] = map (fips_W blk) [0..<length (w @ [fips_W blk ?i])]"
    using Suc.prems(2) by simp
  ultimately show ?case
    using Suc.IH [of "w @ [fips_W blk ?i]"] Suc.prems(1) by (simp add: Let_def del: upt_Suc)
qed simp

lemma sha256_schedule_W:
  assumes "length blk = 64" shows "sha256_schedule blk = map (fips_W blk) [0..<64]"
proof -
  have "be32 blk (i * 4) = fips_W blk i" if "i < 16" for i
    using that assms by (subst fips_W.simps) (simp add: be32_fips mult.commute)
  then have eq: "map (\<lambda>i. be32 blk (i * 4)) [0..<16] = map (fips_W blk) [0..<16]" by simp
  show ?thesis
    unfolding sha256_schedule_def eq using sha256_extend_W [of "map (fips_W blk) [0..<16]" blk 48] by simp
qed

definition vars_list :: "sha256_vars \<Rightarrow> u32 list" where
  "vars_list v = (case v of (a, b, c, d, e, f, g, h) \<Rightarrow> [a, b, c, d, e, f, g, h])"

lemma length_sha256_K: "length sha256_K = 64"
  by (simp add: sha256_K_def)

lemma list8: "length s = 8 \<Longrightarrow> [s ! 0, s ! 1, s ! 2, s ! 3, s ! 4, s ! 5, s ! 6, s ! 7] = s"
  by (rule nth_equalityI) (auto simp: less_Suc_eq numeral_eq_Suc)

lemma fips_vars_fold:
  assumes "length s = 8" "length blk = 64" "t \<le> 64"
  shows "fips_vars s blk t =
    vars_list (fold sha256_round (take t (zip sha256_K (sha256_schedule blk))) (sha256_vars s))"
  using assms(3)
proof (induction t)
  case 0
  show ?case using list8 [OF assms(1)] by (simp add: vars_list_def sha256_vars_def)
next
  case (Suc t)
  let ?z = "zip sha256_K (sha256_schedule blk)"
  have "take (Suc t) ?z = take t ?z @ [(fips_K ! t, fips_W blk t)]"
    using Suc.prems assms(2)
    by (simp add: take_Suc_conv_app_nth length_sha256_K sha256_schedule_W fips_K_code)
  then show ?case using Suc
    by (simp add: vars_list_def functions_fips Let_def split: prod.splits)
qed

lemma sha256_transform_fips:
  assumes "length s = 8" "length blk = 64"
  shows "sha256_transform s blk = map2 (+) (fips_vars s blk 64) s"
proof -
  have l: "length (zip sha256_K (sha256_schedule blk)) = 64"
    using assms(2) by (simp add: length_sha256_K sha256_schedule_W)
  obtain a u where "fold sha256_round (zip sha256_K (sha256_schedule blk)) (sha256_vars s) = (a, u)"
    by (rule prod.exhaust)
  moreover obtain b c d e f g h where "u = (b, c, d, e, f, g, h)" by (rule prod_cases7)
  ultimately have
    v: "fold sha256_round (zip sha256_K (sha256_schedule blk)) (sha256_vars s) = (a, b, c, d, e, f, g, h)"
    by simp
  have "map2 (+) (fips_vars s blk 64) s =
      map2 (+) [a, b, c, d, e, f, g, h] [s ! 0, s ! 1, s ! 2, s ! 3, s ! 4, s ! 5, s ! 6, s ! 7]"
    using l by (simp only: fips_vars_fold [OF assms order_refl] list8 [OF assms(1)])
      (simp add: v vars_list_def)
  then show ?thesis by (simp add: sha256_transform_def v add.commute)
qed

lemma length_sha256_transform: "length (sha256_transform s blk) = 8"
  by (simp add: sha256_transform_def split: prod.splits)

lemma length_sha256_chain: "length s = 8 \<Longrightarrow> length (sha256_chain s m) = 8"
  by (induction s m rule: sha256_chain.induct) (subst sha256_chain.simps, simp add: length_sha256_transform)

lemma fips_H_chain: "n * 64 \<le> length M \<Longrightarrow> fips_H M n = sha256_chain sha256_H0 (take (n * 64) M)"
proof (induction n)
  case 0
  show ?case by (simp add: fips_H0_code sha256_chain_short)
next
  case (Suc n)
  let ?b = "take 64 (drop (64 * n) M)" and ?s = "sha256_chain sha256_H0 (take (n * 64) M)"
  have b: "length ?b = 64" using Suc.prems by simp
  have s: "length ?s = 8" by (rule length_sha256_chain) (simp add: sha256_H0_def)
  have "take (Suc n * 64) M = take (n * 64) M @ ?b"
    using take_add [of "n * 64" 64 M] by (simp add: mult.commute add.commute)
  moreover have "length (take (n * 64) M) mod 64 = 0" using Suc.prems by simp
  ultimately have "sha256_chain sha256_H0 (take (Suc n * 64) M) = sha256_chain ?s ?b"
    by (simp only: sha256_chain_append)
  also have "\<dots> = sha256_transform ?s ?b"
    using b by (subst sha256_chain.simps) (simp add: sha256_chain_short)
  also have "\<dots> = fips_H M (Suc n)"
    using Suc b s by (simp add: sha256_transform_fips)
  finally show ?case by simp
qed

text \<open>The padding.\<close>

lemma fips_pad_zeros: "nat ((55 - int n) mod 64) = (119 - n mod 64) mod 64"
proof -
  have "int ((119 - n mod 64) mod 64) = (119 - int n mod 64) mod 64"
    by (simp add: zmod_int of_nat_diff order.trans [OF less_imp_le [OF mod_less_divisor]])
  also have "\<dots> = (55 - int n + 64) mod 64" by (simp only: mod_diff_right_eq) simp
  also have "\<dots> = (55 - int n) mod 64" by (rule mod_add_self2)
  finally show ?thesis by linarith
qed

lemma fips_pad_code: "fips_pad m = m @ 0x80 # replicate ((119 - length m mod 64) mod 64) 0 @
    be64_put_loop 8 (word_of_nat (8 * length m)) []"
  by (simp add: fips_pad_def fips_pad_zeros be64_put_loop_fips)

section \<open>The digest of the code is the hash of the standard\<close>

lemma sha256_pad_loop_repr:
  "sha256_repr c m \<Longrightarrow> sha256_repr (sha256_pad_loop c) (m @ replicate ((120 - length m mod 64) mod 64) 0)"
proof (induction c arbitrary: m rule: sha256_pad_loop.induct)
  case (1 c)
  have r: "unat (sha_count c mod 64) = length m mod 64"
    using 1(2) by (simp add: sha256_repr_def unat_count_mod)
  have eq: "sha_count c mod 64 = 56 \<longleftrightarrow> length m mod 64 = 56"
    unfolding word_unat_eq_iff r by simp
  show ?case
  proof (cases "length m mod 64 = 56")
    case True
    then show ?thesis using 1(2) eq by (subst sha256_pad_loop.simps) simp
  next
    case False
    have "sha256_repr (sha256_pad_loop (zupt_sha256_update c [0]))
        ((m @ [0]) @ replicate ((120 - length (m @ [0]) mod 64) mod 64) 0)"
      using 1(1) [OF _ sha256_repr_update [OF 1(2)]] False eq by simp
    moreover have "Suc ((120 - length (m @ [0]) mod 64) mod 64) = (120 - length m mod 64) mod 64"
      using sha256_pad_step [OF _ False] by (simp add: mod_simps)
    ultimately show ?thesis
      using False eq by (subst sha256_pad_loop.simps) (simp flip: replicate_Suc)
  qed
qed

lemma length_be64_put_loop [simp]: "length (be64_put_loop n v l) = n + length l"
  by (induction n v l rule: be64_put_loop.induct) simp_all

lemma length_fips_pad_mod: "length (fips_pad m) mod 64 = 0"
proof -
  define r where "r = length m mod 64"
  have "r < 64" by (simp add: r_def)
  have "length (fips_pad m) = length m + (9 + (119 - r) mod 64)"
    by (simp add: fips_pad_code r_def)
  then have "length (fips_pad m) mod 64 = (r + (9 + (119 - r) mod 64)) mod 64"
    by (simp only: r_def mod_add_left_eq)
  also have "\<dots> = (r + 9 + (119 - r)) mod 64"
    by (simp only: add.assoc [symmetric] mod_add_right_eq)
  also have "r + 9 + (119 - r) = 128" using \<open>r < 64\<close> by simp
  finally show ?thesis by simp
qed

lemma sha256_hash_chain:
  "sha256_hash m = concat (map (\<lambda>i. be32_put (sha256_chain sha256_H0 (fips_pad m) ! i)) [0..<8])"
proof -
  let ?s = "sha256_chain sha256_H0 (fips_pad m)"
  have "length (fips_pad m) div 64 * 64 = length (fips_pad m)"
    using length_fips_pad_mod [of m] by auto
  then have "fips_H (fips_pad m) (length (fips_pad m) div 64) = ?s"
    using fips_H_chain [of "length (fips_pad m) div 64" "fips_pad m"] by simp
  moreover have "length ?s = 8" by (rule length_sha256_chain) (simp add: sha256_H0_def)
  moreover from this have "map fips_bytes ?s = map (\<lambda>i. fips_bytes (?s ! i)) [0..<8]"
    by (simp add: list_eq_iff_nth_eq)
  ultimately show ?thesis
    by (simp only: sha256_hash_def Let_def be32_put_fips)
qed

lemma zupt_sha256_final_repr:
  assumes "sha256_repr c m" shows "zupt_sha256_final c = sha256_hash m"
proof -
  let ?c1 = "sha256_pad_loop (zupt_sha256_update c [0x80])"
  let ?c2 = "zupt_sha256_update ?c1 (be64_put_loop 8 (sha_count c * 8) [])"
  have bits: "sha_count c * 8 = word_of_nat (8 * length m)"
    using assms by (simp add: sha256_repr_def)
  have "(120 - length (m @ [0x80 :: u8]) mod 64) mod 64 = (119 - length m mod 64) mod 64"
  proof (cases "length m mod 64 = 63")
    case False
    moreover have "length m mod 64 < 64" by simp
    ultimately have "(length m mod 64 + 1) mod 64 = length m mod 64 + 1" by simp
    then show ?thesis by (simp add: mod_simps)
  next
    case True
    then have "length (m @ [0x80]) mod 64 = 0" using mod_add_eq [of "length m" 64 1] by simp
    with True show ?thesis by simp
  qed
  then have "sha256_repr ?c2 (fips_pad m)"
    using sha256_repr_update [OF sha256_pad_loop_repr [OF sha256_repr_update [OF assms]],
      of "[0x80]" "be64_put_loop 8 (sha_count c * 8) []"]
    by (simp add: fips_pad_code bits)
  moreover have "whole_blocks 64 (fips_pad m) = fips_pad m"
    using blocks_unique [of "fips_pad m" "fips_pad m" "[]" 64] length_fips_pad_mod by simp
  ultimately show ?thesis
    by (simp add: zupt_sha256_final_def sha256_hash_chain sha256_repr_def Let_def)
qed

section \<open>SHA-256 as a streaming hash\<close>

interpretation sha256: stream_hash sha256_repr "zupt_sha256_init stale" zupt_sha256_update
    zupt_sha256_final sha256_hash
  for stale
  by unfold_locales (simp_all add: sha256_repr_init sha256_repr_update zupt_sha256_final_repr)

lemma length_be32_put [simp]: "length (be32_put v) = 4"
  by (simp add: be32_put_def)

lemma length_sha256_hash [simp]: "length (sha256_hash m) = 32"
  by (simp add: sha256_hash_chain length_concat comp_def sum_list_triv)

lemma zupt_sha256_hash: "zupt_sha256 stale d = sha256_hash d"
  unfolding zupt_sha256_def by (rule sha256.one_shot)

text \<open>
  C17. The code computes SHA-256 as FIPS 180-4 defines it. \<open>sha256_hash\<close> is the standard written
  down on its own (its rotations, its constants as fractions of roots of primes, its padding,
  schedule and rounds). However a message is cut into pieces, feeding the pieces to
  \<open>zupt_sha256_update\<close> and finishing gives the standard's digest of the whole message, whatever
  the uninitialised buffer held; so does the one-shot function. The tables of the code are the
  standard's constants. The length field is 64 bits wide, so on both sides the length in bits of
  a message of \<open>2 ^ 61\<close> bytes or more (which the standard excludes) is taken modulo \<open>2 ^ 64\<close>.
\<close>

theorem sha256_streaming:
  "zupt_sha256_final (foldl zupt_sha256_update (zupt_sha256_init stale) ds) = sha256_hash (concat ds) \<and>
   zupt_sha256 stale (concat ds) = sha256_hash (concat ds) \<and>
   length (sha256_hash (concat ds)) = 32 \<and>
   sha256_K = map (root_fraction 3) first_primes \<and> sha256_H0 = map (root_fraction 2) (take 8 first_primes)"
  by (simp only: sha256.segments zupt_sha256_hash length_sha256_hash simp_thms
    fips_K_code [symmetric] fips_H0_code [symmetric] fips_K_def fips_H0_def)

end
