(* ===== verification/Hmac.thy ===== *)
theory Hmac
  imports Sha256
begin

text \<open>
  HMAC-SHA256 and PBKDF2 (\<open>src/zupt_crypto.c\<close>): the incremental MAC keeps two hash contexts
  that have absorbed the padded key, and the key derivation iterates it. The specifications are
  the formulas of RFC 2104 and RFC 8018 over the hash of a whole message. Wiping of key
  material has no observable effect on results and is not modelled.
\<close>

section \<open>HMAC\<close>

record zupt_hmac_ctx =
  inner :: zupt_sha256_ctx
  outer :: zupt_sha256_ctx

text \<open>\<open>memset(k_pad, b, 64)\<close> and the loop that adds the key.\<close>

definition hmac_k_pad :: "u8 \<Rightarrow> bytes \<Rightarrow> bytes" where
  "hmac_k_pad b key =
     fold (\<lambda>i k_pad. k_pad[i := k_pad ! i XOR key ! i]) [0..<length key] (replicate 64 b)"

text \<open>\<open>s0\<close>, \<open>s1\<close> and \<open>s2\<close> are the uninitialised buffers of the three contexts.\<close>

definition zupt_hmac_sha256_init ::
  "(nat \<Rightarrow> u8) \<Rightarrow> (nat \<Rightarrow> u8) \<Rightarrow> (nat \<Rightarrow> u8) \<Rightarrow> bytes \<Rightarrow> zupt_hmac_ctx" where
  "zupt_hmac_sha256_init s0 s1 s2 key0 =
     (let key = (if length key0 > 64 then zupt_sha256 s0 key0 else key0) in
      \<lparr>inner = zupt_sha256_update (zupt_sha256_init s1) (hmac_k_pad 0x36 key),
       outer = zupt_sha256_update (zupt_sha256_init s2) (hmac_k_pad 0x5c key)\<rparr>)"

definition zupt_hmac_sha256_update :: "zupt_hmac_ctx \<Rightarrow> bytes \<Rightarrow> zupt_hmac_ctx" where
  "zupt_hmac_sha256_update c data = c\<lparr>inner := zupt_sha256_update (inner c) data\<rparr>"

definition zupt_hmac_sha256_final :: "zupt_hmac_ctx \<Rightarrow> bytes" where
  "zupt_hmac_sha256_final c =
     zupt_sha256_final (zupt_sha256_update (outer c) (zupt_sha256_final (inner c)))"

definition zupt_hmac_sha256 ::
  "(nat \<Rightarrow> u8) \<Rightarrow> (nat \<Rightarrow> u8) \<Rightarrow> (nat \<Rightarrow> u8) \<Rightarrow> bytes \<Rightarrow> bytes \<Rightarrow> bytes" where
  "zupt_hmac_sha256 s0 s1 s2 key data =
     zupt_hmac_sha256_final (zupt_hmac_sha256_update (zupt_hmac_sha256_init s0 s1 s2 key) data)"

text \<open>RFC 2104: the key is hashed if it is longer than a block, padded with zeros to a block.\<close>

definition hmac_key_block :: "bytes \<Rightarrow> bytes" where
  "hmac_key_block key =
     (let k = (if length key > 64 then sha256_hash key else key) in k @ replicate (64 - length k) 0)"

definition hmac_spec :: "bytes \<Rightarrow> bytes \<Rightarrow> bytes" where
  "hmac_spec key m =
     sha256_hash (map (\<lambda>b. 0x5c XOR b) (hmac_key_block key) @
       sha256_hash (map (\<lambda>b. 0x36 XOR b) (hmac_key_block key) @ m))"

lemma hmac_k_pad_aux:
  "n \<le> length key \<Longrightarrow> length key \<le> length l \<Longrightarrow>
   fold (\<lambda>i k_pad. k_pad[i := k_pad ! i XOR key ! i]) [0..<n] l = map2 (XOR) (take n l) (take n key) @ drop n l"
proof (induction n)
  case (Suc n)
  have "(map2 (XOR) (take n l) (take n key) @ drop n l)
      [n := (map2 (XOR) (take n l) (take n key) @ drop n l) ! n XOR key ! n] =
    map2 (XOR) (take n l) (take n key) @ (l ! n XOR key ! n) # drop (Suc n) l"
    using Suc.prems by (simp add: list_update_append nth_append Cons_nth_drop_Suc [symmetric])
  with Suc show ?case by (simp add: take_Suc_conv_app_nth)
qed simp

lemma hmac_k_pad_eq:
  assumes "length key \<le> 64"
  shows "hmac_k_pad b key = map (\<lambda>x. b XOR x) (key @ replicate (64 - length key) 0)"
proof -
  have "hmac_k_pad b key = map2 (XOR) (replicate (length key) b) key @ replicate (64 - length key) b"
    using assms hmac_k_pad_aux [of "length key" key "replicate 64 b"] by (simp add: hmac_k_pad_def)
  also have "map2 (XOR) (replicate (length key) b) key = map (\<lambda>x. b XOR x) key"
    by (simp add: zip_replicate1 comp_def)
  finally show ?thesis by (simp add: map_replicate_const)
qed

definition hmac_repr :: "bytes \<Rightarrow> zupt_hmac_ctx \<Rightarrow> bytes \<Rightarrow> bool" where
  "hmac_repr key c m \<longleftrightarrow>
     sha256_repr (inner c) (map (\<lambda>b. 0x36 XOR b) (hmac_key_block key) @ m) \<and>
     sha256_repr (outer c) (map (\<lambda>b. 0x5c XOR b) (hmac_key_block key))"

lemma hmac_repr_init: "hmac_repr key (zupt_hmac_sha256_init s0 s1 s2 key) []"
proof -
  let ?k = "if length key > 64 then sha256_hash key else key"
  have "hmac_k_pad b ?k = map (\<lambda>x. b XOR x) (hmac_key_block key)" for b
    by (subst hmac_k_pad_eq) (auto simp: hmac_key_block_def Let_def)
  then show ?thesis
    using sha256.repr_update [OF sha256.repr_init]
    unfolding hmac_repr_def zupt_hmac_sha256_init_def zupt_sha256_hash Let_def by simp
qed

lemma hmac_repr_update: "hmac_repr key c m \<Longrightarrow> hmac_repr key (zupt_hmac_sha256_update c d) (m @ d)"
  using sha256.repr_update [of "inner c" "map (\<lambda>b. 0x36 XOR b) (hmac_key_block key) @ m" d]
  by (simp add: hmac_repr_def zupt_hmac_sha256_update_def)

lemma hmac_final_repr: "hmac_repr key c m \<Longrightarrow> zupt_hmac_sha256_final c = hmac_spec key m"
  unfolding hmac_repr_def zupt_hmac_sha256_final_def hmac_spec_def
  by (elim conjE) (simp only: sha256.final_repr sha256.final_repr [OF sha256.repr_update, of "outer c"])

interpretation hmac: stream_hash "hmac_repr key" "zupt_hmac_sha256_init s0 s1 s2 key"
    zupt_hmac_sha256_update zupt_hmac_sha256_final "hmac_spec key"
  for key s0 s1 s2
  by unfold_locales (simp_all add: hmac_repr_init hmac_repr_update hmac_final_repr)

lemma zupt_hmac_sha256_spec: "zupt_hmac_sha256 s0 s1 s2 key data = hmac_spec key data"
  unfolding zupt_hmac_sha256_def by (rule hmac.one_shot)

lemma length_hmac_spec [simp]: "length (hmac_spec key m) = 32"
  by (simp add: hmac_spec_def)

section \<open>PBKDF2\<close>

text \<open>
  The stale buffers of the contexts the loop allocates cannot matter
  (\<open>zupt_hmac_sha256_spec\<close>); they are zero here. \<open>i\<close> counts the remaining iterations.
\<close>

definition pbkdf2_mac :: "bytes \<Rightarrow> bytes \<Rightarrow> bytes" where
  "pbkdf2_mac pw m = zupt_hmac_sha256 (\<lambda>_. 0) (\<lambda>_. 0) (\<lambda>_. 0) pw m"

fun pbkdf2_xor_loop :: "nat \<Rightarrow> bytes \<Rightarrow> bytes \<Rightarrow> bytes \<Rightarrow> bytes" where
  "pbkdf2_xor_loop 0 pw u t = t"
| "pbkdf2_xor_loop (Suc i) pw u t =
     (let u' = pbkdf2_mac pw u in pbkdf2_xor_loop i pw u' (map2 (XOR) t u'))"

definition pbkdf2_block :: "bytes \<Rightarrow> bytes \<Rightarrow> u32 \<Rightarrow> u32 \<Rightarrow> bytes" where
  "pbkdf2_block pw salt iterations block_num =
     (let u = pbkdf2_mac pw (salt @
                [ucast (drop_bit 24 block_num), ucast (drop_bit 16 block_num),
                 ucast (drop_bit 8 block_num), ucast block_num]) in
      pbkdf2_xor_loop (unat iterations - 1) pw u u)"

lemma length_pbkdf2_mac [simp]: "length (pbkdf2_mac pw m) = 32"
  by (simp add: pbkdf2_mac_def zupt_hmac_sha256_spec)

lemma length_pbkdf2_xor_loop: "length t = 32 \<Longrightarrow> length (pbkdf2_xor_loop i pw u t) = 32"
  by (induction i pw u t rule: pbkdf2_xor_loop.induct) (simp_all add: Let_def)

lemma length_pbkdf2_block [simp]: "length (pbkdf2_block pw salt c i) = 32"
  by (simp add: pbkdf2_block_def Let_def length_pbkdf2_xor_loop)

function pbkdf2_loop :: "bytes \<Rightarrow> bytes \<Rightarrow> u32 \<Rightarrow> nat \<Rightarrow> u32 \<Rightarrow> bytes \<Rightarrow> bytes" where
  "pbkdf2_loop pw salt iterations olen block_num output =
     (if length output < olen then
        let t = pbkdf2_block pw salt iterations block_num;
            chunk = (if olen - length output > 32 then 32 else olen - length output) in
        pbkdf2_loop pw salt iterations olen (block_num + 1) (output @ take chunk t)
      else output)"
  by pat_completeness auto
termination
  by (relation "measure (\<lambda>(pw, salt, iterations, olen, block_num, output). olen - length output)") auto

declare pbkdf2_loop.simps [simp del]

definition zupt_pbkdf2_sha256 :: "bytes \<Rightarrow> bytes \<Rightarrow> u32 \<Rightarrow> nat \<Rightarrow> bytes" where
  "zupt_pbkdf2_sha256 pw salt iterations olen =
     pbkdf2_loop pw (take (if length salt > 252 then 252 else length salt) salt) iterations olen 1 []"

text \<open>RFC 8018, 5.2: \<open>T\<^sub>i\<close> is the XOR of \<open>c\<close> iterates of the MAC, the key a prefix of all \<open>T\<^sub>i\<close>.\<close>

definition pbkdf2_T :: "bytes \<Rightarrow> bytes \<Rightarrow> u32 \<Rightarrow> nat \<Rightarrow> bytes" where
  "pbkdf2_T pw salt c i =
     (let U = (\<lambda>j. (hmac_spec pw ^^ j) (hmac_spec pw (salt @ be32_put (word_of_nat i)))) in
      foldl (map2 (XOR)) (U 0) (map U [1..<unat c]))"

definition pbkdf2_spec :: "bytes \<Rightarrow> bytes \<Rightarrow> u32 \<Rightarrow> nat \<Rightarrow> bytes" where
  "pbkdf2_spec pw salt c olen =
     take olen (concat (map (\<lambda>i. pbkdf2_T pw salt c (i + 1)) [0..<(olen + 31) div 32]))"

lemma pbkdf2_xor_loop_eq:
  "pbkdf2_xor_loop i pw u t = foldl (map2 (XOR)) t (map (\<lambda>j. (hmac_spec pw ^^ j) u) [1..<Suc i])"
proof (induction i arbitrary: u t)
  case (Suc i)
  have m: "pbkdf2_mac pw u = hmac_spec pw u" for u by (simp add: pbkdf2_mac_def zupt_hmac_sha256_spec)
  have "map (\<lambda>j. (hmac_spec pw ^^ j) u) [1..<Suc (Suc i)] =
      hmac_spec pw u # map (\<lambda>j. (hmac_spec pw ^^ j) (hmac_spec pw u)) [1..<Suc i]"
    by (subst upt_conv_Cons) (simp_all add: funpow_swap1 del: upt_Suc flip: map_Suc_upt)
  then show ?case using Suc by (simp add: m Let_def del: upt_Suc)
qed simp

lemma pbkdf2_block_eq: "pbkdf2_block pw salt c (word_of_nat i) = pbkdf2_T pw salt c i"
proof -
  have m: "pbkdf2_mac pw u = hmac_spec pw u" for u by (simp add: pbkdf2_mac_def zupt_hmac_sha256_spec)
  have "[1..<unat c] = [1..<Suc (unat c - 1)]" by (cases "unat c") simp_all
  then show ?thesis
    by (simp only: pbkdf2_block_def pbkdf2_T_def Let_def m be32_put_def pbkdf2_xor_loop_eq funpow_0)
qed

lemma length_pbkdf2_T [simp]: "length (pbkdf2_T pw salt c i) = 32"
  using length_pbkdf2_block [of pw salt c "word_of_nat i"] by (simp only: pbkdf2_block_eq)

lemma pbkdf2_loop_eq:
  "pbkdf2_loop pw salt c olen (word_of_nat k) acc =
     acc @ take (olen - length acc)
       (concat (map (\<lambda>i. pbkdf2_T pw salt c (i + k)) [0..<(olen - length acc + 31) div 32]))"
proof (induction "olen - length acc" arbitrary: acc k rule: nat_less_induct)
  case 1
  then have IH: "olen - length o' < olen - length acc \<Longrightarrow>
      pbkdf2_loop pw salt c olen (word_of_nat l) o' = o' @ take (olen - length o')
        (concat (map (\<lambda>i. pbkdf2_T pw salt c (i + l)) [0..<(olen - length o' + 31) div 32]))" for o' l
    by blast
  define r where "r = olen - length acc"
  let ?t = "pbkdf2_block pw salt c (word_of_nat k)"
  have k1: "word_of_nat k + 1 = (word_of_nat (Suc k) :: u32)" by simp
  show ?case
  proof (cases "r = 0")
    case True
    then show ?thesis by (subst pbkdf2_loop.simps) (simp add: r_def)
  next
    case False
    let ?chunk = "if r > 32 then 32 else r"
    let ?o = "acc @ take ?chunk ?t"
    have lo: "olen - length ?o = r - ?chunk" by (simp add: r_def)
    have "pbkdf2_loop pw salt c olen (word_of_nat k) acc =
        pbkdf2_loop pw salt c olen (word_of_nat (Suc k)) ?o"
      using False unfolding r_def by (subst pbkdf2_loop.simps) (simp add: Let_def add.commute)
    also have "\<dots> = ?o @ take (r - ?chunk)
       (concat (map (\<lambda>i. pbkdf2_T pw salt c (i + Suc k)) [0..<(r - ?chunk + 31) div 32]))"
      using IH [of ?o "Suc k"] False unfolding lo r_def [symmetric] by simp
    also have "\<dots> = acc @ take r (concat (map (\<lambda>i. pbkdf2_T pw salt c (i + k)) [0..<(r + 31) div 32]))"
    proof (cases "r > 32")
      case True
      then have d: "(r + 31) div 32 = Suc ((r - 32 + 31) div 32)" using le_div_geq [of 32 "r + 31"] by simp
      have "map (\<lambda>i. pbkdf2_T pw salt c (i + k)) [0..<(r + 31) div 32] =
          pbkdf2_T pw salt c k # map (\<lambda>i. pbkdf2_T pw salt c (i + Suc k)) [0..<(r - 32 + 31) div 32]"
        unfolding d by (subst upt_conv_Cons) (simp_all del: upt_Suc flip: map_Suc_upt)
      then show ?thesis using True by (simp add: pbkdf2_block_eq)
    next
      case F: False
      then have "(r + 31) div 32 = 1" using False by simp
      then show ?thesis using F by (simp add: pbkdf2_block_eq)
    qed
    finally show ?thesis by (simp add: r_def)
  qed
qed

lemma zupt_pbkdf2_sha256_spec: "zupt_pbkdf2_sha256 pw salt c olen = pbkdf2_spec pw (take 252 salt) c olen"
  using pbkdf2_loop_eq [of pw "take 252 salt" c olen 1 "[]"]
  by (auto simp: zupt_pbkdf2_sha256_def pbkdf2_spec_def)

text \<open>
  C25. The incremental MAC is HMAC-SHA256 (RFC 2104) of the concatenated pieces for keys of any
  length, and the key derivation is PBKDF2 (RFC 8018) with the salt cut to 252 bytes.
\<close>

theorem hmac_pbkdf2_conform:
  "zupt_hmac_sha256_final (foldl zupt_hmac_sha256_update (zupt_hmac_sha256_init s0 s1 s2 key) ds) =
     hmac_spec key (concat ds) \<and>
   zupt_pbkdf2_sha256 pw salt c olen = pbkdf2_spec pw (take 252 salt) c olen"
  by (simp add: hmac.segments zupt_pbkdf2_sha256_spec)

end
