(* ===== verification/Aes.thy ===== *)
theory Aes
  imports Prelude
begin

text \<open>
  The portable AES-256 block cipher (\<open>src/zupt_aes256.c\<close>) and the counter mode over it
  (\<open>zupt_aes256_ctr\<close> of \<open>src/zupt_crypto.c\<close>, the C fallback; the optional assembly path is
  not modelled). What is shown: for every key the block function is a permutation of the
  blocks, and counter mode is an involution whose byte \<open>i\<close> uses byte \<open>i mod 16\<close> of the block
  for counter \<open>i div 16\<close>, counters being pairwise different for \<open>2 ^ 64\<close> blocks.
\<close>

section \<open>Tables and field arithmetic\<close>

definition SBOX :: "u8 list" where
  "SBOX = [
    0x63,0x7c,0x77,0x7b,0xf2,0x6b,0x6f,0xc5,0x30,0x01,0x67,0x2b,0xfe,0xd7,0xab,0x76,
    0xca,0x82,0xc9,0x7d,0xfa,0x59,0x47,0xf0,0xad,0xd4,0xa2,0xaf,0x9c,0xa4,0x72,0xc0,
    0xb7,0xfd,0x93,0x26,0x36,0x3f,0xf7,0xcc,0x34,0xa5,0xe5,0xf1,0x71,0xd8,0x31,0x15,
    0x04,0xc7,0x23,0xc3,0x18,0x96,0x05,0x9a,0x07,0x12,0x80,0xe2,0xeb,0x27,0xb2,0x75,
    0x09,0x83,0x2c,0x1a,0x1b,0x6e,0x5a,0xa0,0x52,0x3b,0xd6,0xb3,0x29,0xe3,0x2f,0x84,
    0x53,0xd1,0x00,0xed,0x20,0xfc,0xb1,0x5b,0x6a,0xcb,0xbe,0x39,0x4a,0x4c,0x58,0xcf,
    0xd0,0xef,0xaa,0xfb,0x43,0x4d,0x33,0x85,0x45,0xf9,0x02,0x7f,0x50,0x3c,0x9f,0xa8,
    0x51,0xa3,0x40,0x8f,0x92,0x9d,0x38,0xf5,0xbc,0xb6,0xda,0x21,0x10,0xff,0xf3,0xd2,
    0xcd,0x0c,0x13,0xec,0x5f,0x97,0x44,0x17,0xc4,0xa7,0x7e,0x3d,0x64,0x5d,0x19,0x73,
    0x60,0x81,0x4f,0xdc,0x22,0x2a,0x90,0x88,0x46,0xee,0xb8,0x14,0xde,0x5e,0x0b,0xdb,
    0xe0,0x32,0x3a,0x0a,0x49,0x06,0x24,0x5c,0xc2,0xd3,0xac,0x62,0x91,0x95,0xe4,0x79,
    0xe7,0xc8,0x37,0x6d,0x8d,0xd5,0x4e,0xa9,0x6c,0x56,0xf4,0xea,0x65,0x7a,0xae,0x08,
    0xba,0x78,0x25,0x2e,0x1c,0xa6,0xb4,0xc6,0xe8,0xdd,0x74,0x1f,0x4b,0xbd,0x8b,0x8a,
    0x70,0x3e,0xb5,0x66,0x48,0x03,0xf6,0x0e,0x61,0x35,0x57,0xb9,0x86,0xc1,0x1d,0x9e,
    0xe1,0xf8,0x98,0x11,0x69,0xd9,0x8e,0x94,0x9b,0x1e,0x87,0xe9,0xce,0x55,0x28,0xdf,
    0x8c,0xa1,0x89,0x0d,0xbf,0xe6,0x42,0x68,0x41,0x99,0x2d,0x0f,0xb0,0x54,0xbb,0x16]"

definition RCON :: "u8 list" where
  "RCON = [0x00,0x01,0x02,0x04,0x08,0x10,0x20,0x40,0x80,0x1b,0x36]"

definition sbox :: "u8 \<Rightarrow> u8" where
  "sbox b = SBOX ! unat b"

definition xtime :: "u8 \<Rightarrow> u8" where
  "xtime x = push_bit 1 x XOR ((drop_bit 7 x AND 1) * 0x1b)"

fun gmul_loop :: "nat \<Rightarrow> u8 \<Rightarrow> u8 \<Rightarrow> u8 \<Rightarrow> u8" where
  "gmul_loop 0 a b r = r"
| "gmul_loop (Suc n) a b r =
     gmul_loop n (xtime a) (drop_bit 1 b) (if b AND 1 \<noteq> 0 then r XOR a else r)"

definition gmul :: "u8 \<Rightarrow> u8 \<Rightarrow> u8" where
  "gmul a b = gmul_loop 8 a b 0"

section \<open>Key schedule\<close>

definition aes_word :: "bytes \<Rightarrow> nat \<Rightarrow> u32" where
  "aes_word key i =
     push_bit 24 (ucast (key ! (4 * i))) OR push_bit 16 (ucast (key ! (4 * i + 1))) OR
     push_bit 8 (ucast (key ! (4 * i + 2))) OR ucast (key ! (4 * i + 3))"

definition sub_byte :: "u32 \<Rightarrow> nat \<Rightarrow> u32" where
  "sub_byte t n = ucast (sbox (ucast (drop_bit n t AND 0xFF)))"

definition aes_key_word :: "u32 list \<Rightarrow> u32" where
  "aes_key_word rk =
     (let i = length rk; t = rk ! (i - 1);
          t' = (if i mod 8 = 0 then
                  (push_bit 24 (sub_byte t 16) OR push_bit 16 (sub_byte t 8) OR
                   push_bit 8 (sub_byte t 0) OR sub_byte t 24) XOR
                  push_bit 24 (ucast (RCON ! (i div 8)))
                else if i mod 8 = 4 then
                  push_bit 24 (sub_byte t 24) OR push_bit 16 (sub_byte t 16) OR
                  push_bit 8 (sub_byte t 8) OR sub_byte t 0
                else t) in
      rk ! (i - 8) XOR t')"

fun aes_expand :: "nat \<Rightarrow> u32 list \<Rightarrow> u32 list" where
  "aes_expand 0 rk = rk"
| "aes_expand (Suc n) rk = aes_expand n (rk @ [aes_key_word rk])"

definition zupt_aes256_init :: "bytes \<Rightarrow> u32 list" where
  "zupt_aes256_init key = aes_expand 52 (map (aes_word key) [0..<8])"

section \<open>One block\<close>

text \<open>Byte \<open>i\<close> of round key \<open>r\<close>.\<close>

definition round_key_byte :: "u32 list \<Rightarrow> nat \<Rightarrow> nat \<Rightarrow> u8" where
  "round_key_byte rk r i = ucast (drop_bit ((3 - i mod 4) * 8) (rk ! (r * 4 + i div 4)))"

definition add_round_key :: "u32 list \<Rightarrow> nat \<Rightarrow> bytes \<Rightarrow> bytes" where
  "add_round_key rk r s = map (\<lambda>i. s ! i XOR round_key_byte rk r i) [0..<16]"

definition sub_shift :: "bytes \<Rightarrow> bytes" where
  "sub_shift s = (let t = map (\<lambda>i. sbox (s ! i)) [0..<16] in
     [t ! 0, t ! 5, t ! 10, t ! 15, t ! 4, t ! 9, t ! 14, t ! 3,
      t ! 8, t ! 13, t ! 2, t ! 7, t ! 12, t ! 1, t ! 6, t ! 11])"

definition mix_column :: "u8 \<Rightarrow> u8 \<Rightarrow> u8 \<Rightarrow> u8 \<Rightarrow> bytes" where
  "mix_column a0 a1 a2 a3 =
     [gmul a0 2 XOR gmul a1 3 XOR a2 XOR a3, a0 XOR gmul a1 2 XOR gmul a2 3 XOR a3,
      a0 XOR a1 XOR gmul a2 2 XOR gmul a3 3, gmul a0 3 XOR a1 XOR a2 XOR gmul a3 2]"

definition mix_columns :: "bytes \<Rightarrow> bytes" where
  "mix_columns u =
     concat (map (\<lambda>col. mix_column (u ! (col * 4)) (u ! (col * 4 + 1)) (u ! (col * 4 + 2))
                                   (u ! (col * 4 + 3))) [0..<4])"

definition aes_round :: "u32 list \<Rightarrow> nat \<Rightarrow> bytes \<Rightarrow> bytes" where
  "aes_round rk r s = add_round_key rk r (mix_columns (sub_shift s))"

definition zupt_aes256_encrypt_block :: "u32 list \<Rightarrow> bytes \<Rightarrow> bytes" where
  "zupt_aes256_encrypt_block rk input =
     add_round_key rk 14 (sub_shift (fold (aes_round rk) [1..<14] (add_round_key rk 0 input)))"

section \<open>Counter mode\<close>

text \<open>The carry loop over the counter bytes 15 down to 8.\<close>

fun ctr_carry :: "nat \<Rightarrow> bytes \<Rightarrow> bytes" where
  "ctr_carry i counter =
     (if i < 8 then counter
      else let counter' = counter[i := counter ! i + 1] in
           if counter' ! i \<noteq> 0 then counter' else ctr_carry (i - 1) counter')"

declare ctr_carry.simps [simp del]

definition ctr_increment :: "bytes \<Rightarrow> bytes" where
  "ctr_increment counter = ctr_carry 15 counter"

function ctr_loop :: "u32 list \<Rightarrow> bytes \<Rightarrow> bytes \<Rightarrow> bytes" where
  "ctr_loop rk counter input =
     (if input = [] then []
      else let keystream = zupt_aes256_encrypt_block rk counter;
               chunk = (if length input > 16 then 16 else length input) in
           map2 (XOR) (take chunk input) keystream @
           ctr_loop rk (ctr_increment counter) (drop chunk input))"
  by pat_completeness auto
termination by (relation "measure (\<lambda>(rk, counter, input). length input)") auto

declare ctr_loop.simps [simp del]

definition zupt_aes256_ctr :: "bytes \<Rightarrow> bytes \<Rightarrow> bytes \<Rightarrow> bytes" where
  "zupt_aes256_ctr key nonce input = ctr_loop (zupt_aes256_init key) (take 16 nonce) input"

section \<open>The block function is a permutation\<close>

lemma length_SBOX: "length SBOX = 256"
  by (simp add: SBOX_def)

lemma distinct_SBOX: "distinct SBOX"
proof -
  have "distinct (map unat SBOX)" by (simp add: SBOX_def)
  then show ?thesis by (simp only: distinct_map)
qed

lemma sbox_inject: "sbox a = sbox b \<longleftrightarrow> a = b"
  using distinct_SBOX unat_lt2p [of a] unat_lt2p [of b]
  using word_unat_eq_iff [of a b] by (simp add: sbox_def nth_eq_iff_index_eq length_SBOX)

text \<open>Doubling in the field is linear, so products by constants are sums of iterated doublings.\<close>

lemma xtime_xor: "xtime (a XOR b) = xtime a XOR xtime b"
proof -
  have m: "(drop_bit 7 x AND 1) * 0x1b = (if bit x 7 then 0x1b else (0 :: u8))" for x :: u8
    by (simp add: and_one_eq bit_iff_odd_drop_bit mod_2_eq_odd)
  have "(if bit (a XOR b) 7 then 0x1b else (0 :: u8)) =
      (if bit a 7 then 0x1b else 0) XOR (if bit b 7 then 0x1b else 0)"
    by (simp add: bit_xor_iff)
  then show ?thesis unfolding xtime_def m push_bit_xor by (simp only: ac_simps)
qed

lemma xtime_0: "xtime 0 = 0"
  by (simp add: xtime_def)

lemma gmul_loop_8:
  "gmul_loop 8 a b r = gmul_loop (Suc (Suc (Suc (Suc (Suc (Suc (Suc (Suc 0)))))))) a b r"
proof -
  have "(8 :: nat) = Suc (Suc (Suc (Suc (Suc (Suc (Suc (Suc 0)))))))" by simp
  then show ?thesis by (simp only:)
qed

lemma gmul_2: "gmul a 2 = xtime a" and gmul_3: "gmul a 3 = a XOR xtime a"
  by (simp_all add: gmul_def gmul_loop_8)

definition inv_mix :: "u8 \<Rightarrow> u8 \<Rightarrow> u8 \<Rightarrow> u8 \<Rightarrow> u8" where
  "inv_mix s0 s1 s2 s3 =
     (let x = xtime; d2 = s0 XOR s1 XOR s2 XOR s3; e = s0 XOR s2 in
      s0 XOR d2 XOR x (s0 XOR s1) XOR x (x e) XOR x (x (x d2)))"

lemma xor_swap: "(a :: u8) XOR (b XOR c) = b XOR (a XOR c)" by (simp add: ac_simps)
lemma xor_cancel: "(a :: u8) XOR (a XOR b) = b" by (simp flip: xor.assoc)

lemma inv_mix_column:
  "inv_mix (mix_column a b c d ! 0) (mix_column a b c d ! 1) (mix_column a b c d ! 2) (mix_column a b c d ! 3) = a"
  "inv_mix (mix_column a b c d ! 1) (mix_column a b c d ! 2) (mix_column a b c d ! 3) (mix_column a b c d ! 0) = b"
  "inv_mix (mix_column a b c d ! 2) (mix_column a b c d ! 3) (mix_column a b c d ! 0) (mix_column a b c d ! 1) = c"
  "inv_mix (mix_column a b c d ! 3) (mix_column a b c d ! 0) (mix_column a b c d ! 1) (mix_column a b c d ! 2) = d"
  by (simp_all add: inv_mix_def mix_column_def Let_def gmul_2 gmul_3 xtime_xor xtime_0 xor.assoc xor_swap xor_cancel)


lemma upt_16: "[0..<16] = [0, 1, 2, 3, 4, 5, 6, 7, 8, 9, 10, 11, 12, 13, 14, 15 :: nat]"
  by (simp add: upt_rec)

lemma length_mix_columns [simp]: "length (mix_columns u) = 16"
  by (simp add: mix_columns_def mix_column_def length_concat comp_def sum_list_triv)

lemma length_sub_shift [simp]: "length (sub_shift s) = 16"
  by (simp add: sub_shift_def Let_def)

lemma length_add_round_key [simp]: "length (add_round_key rk r s) = 16"
  by (simp add: add_round_key_def)

lemma add_round_key_inject:
  "length s = 16 \<Longrightarrow> length t = 16 \<Longrightarrow> add_round_key rk r s = add_round_key rk r t \<longleftrightarrow> s = t"
proof
  assume l: "length s = 16" "length t = 16" and eq: "add_round_key rk r s = add_round_key rk r t"
  show "s = t"
  proof (rule nth_equalityI)
    fix i assume "i < length s"
    then have "s ! i XOR round_key_byte rk r i = t ! i XOR round_key_byte rk r i"
      using arg_cong [OF eq, of "\<lambda>l. l ! i"] l by (simp add: add_round_key_def)
    from arg_cong [OF this, of "\<lambda>x. x XOR round_key_byte rk r i"]
    show "s ! i = t ! i" by (simp add: xor.assoc)
  qed (use l in simp)
qed simp

lemma list_16_cases: "length s = 16 \<Longrightarrow> (\<And>i. i < 16 \<Longrightarrow> s ! i = t ! i) \<Longrightarrow> length t = 16 \<Longrightarrow> s = t"
  by (rule nth_equalityI) simp_all

lemma less_16: "i < (16 :: nat) \<Longrightarrow> i \<in> {0, 1, 2, 3, 4, 5, 6, 7, 8, 9, 10, 11, 12, 13, 14, 15}"
  by (simp, presburger)

lemma sub_shift_inject:
  "length s = 16 \<Longrightarrow> length t = 16 \<Longrightarrow> sub_shift s = sub_shift t \<longleftrightarrow> s = t"
proof
  assume l: "length s = 16" "length t = 16" and eq: "sub_shift s = sub_shift t"
  have "s ! i = t ! i" if "i < 16" for i
    using less_16 [OF that] eq by (auto simp: sub_shift_def sbox_inject upt_16 Let_def)
  then show "s = t" using l list_16_cases by blast
qed simp

lemma mix_columns_inject:
  "length s = 16 \<Longrightarrow> length t = 16 \<Longrightarrow> mix_columns s = mix_columns t \<longleftrightarrow> s = t"
proof
  assume l: "length s = 16" "length t = 16" and eq: "mix_columns s = mix_columns t"
  have c: "a = a' \<and> b = b' \<and> c = c' \<and> d = d'" if "mix_column a b c d = mix_column a' b' c' d'" for a b c d a' b' c' d'
    using inv_mix_column [of a b c d] inv_mix_column [of a' b' c' d'] unfolding that by metis
  have len: "length (mix_column a b c d) = 4" for a b c d by (simp add: mix_column_def)
  have "s ! i = t ! i" if "i < 16" for i
  proof -
    have q: "mix_column (s ! (k * 4)) (s ! (k * 4 + 1)) (s ! (k * 4 + 2)) (s ! (k * 4 + 3)) =
        mix_column (t ! (k * 4)) (t ! (k * 4 + 1)) (t ! (k * 4 + 2)) (t ! (k * 4 + 3))" if "k < 4" for k
    proof -
      have "map (\<lambda>k. mix_column (s ! (k * 4)) (s ! (k * 4 + 1)) (s ! (k * 4 + 2)) (s ! (k * 4 + 3))) [0..<4] =
        map (\<lambda>k. mix_column (t ! (k * 4)) (t ! (k * 4 + 1)) (t ! (k * 4 + 2)) (t ! (k * 4 + 3))) [0..<4]"
        by (rule concat_injective [OF eq [unfolded mix_columns_def]])
           (auto simp: in_set_zip len)
      then show ?thesis using that by (simp only: map_eq_conv set_upt atLeastLessThan_iff) simp
    qed
    have i: "i = i div 4 * 4 + i mod 4" by simp
    have "i div 4 < 4" using that by simp
    note cc = c [OF q [OF this]]
    have "i mod 4 = 0 \<or> i mod 4 = 1 \<or> i mod 4 = 2 \<or> i mod 4 = 3" by presburger
    then have "s ! (i div 4 * 4 + i mod 4) = t ! (i div 4 * 4 + i mod 4)"
      using cc by (elim disjE) (simp_all only: add_0_right)
    then show ?thesis by (simp only: i [symmetric])
  qed
  then show "s = t" using l list_16_cases by blast
qed simp

lemma aes_rounds_inject:
  "length s = 16 \<Longrightarrow> length t = 16 \<Longrightarrow> fold (aes_round rk) rs s = fold (aes_round rk) rs t \<longleftrightarrow> s = t"
proof (induction rs arbitrary: s t)
  case (Cons r rs)
  have "length (aes_round rk r u) = 16" for u by (simp add: aes_round_def)
  moreover have "aes_round rk r s = aes_round rk r t \<longleftrightarrow> s = t"
    using Cons.prems
    by (simp add: aes_round_def add_round_key_inject mix_columns_inject sub_shift_inject)
  ultimately show ?case using Cons.IH by simp
qed simp

lemma length_aes_rounds: "length s = 16 \<Longrightarrow> length (fold (aes_round rk) rs s) = 16"
  by (induction rs arbitrary: s) (simp_all add: aes_round_def)

lemma zupt_aes256_encrypt_block_inject:
  "length s = 16 \<Longrightarrow> length t = 16 \<Longrightarrow>
   zupt_aes256_encrypt_block rk s = zupt_aes256_encrypt_block rk t \<longleftrightarrow> s = t"
  unfolding zupt_aes256_encrypt_block_def
  by (simp add: add_round_key_inject sub_shift_inject aes_rounds_inject length_aes_rounds)

lemma length_zupt_aes256_encrypt_block [simp]: "length (zupt_aes256_encrypt_block rk s) = 16"
  by (simp add: zupt_aes256_encrypt_block_def)

section \<open>Counters\<close>

text \<open>Counter bytes read from the last one on, as a little-endian number.\<close>

fun le_increment :: "bytes \<Rightarrow> bytes" where
  "le_increment [] = []"
| "le_increment (b # bs) = (if b + 1 \<noteq> 0 then (b + 1) # bs else 0 # le_increment bs)"

fun le_value :: "bytes \<Rightarrow> nat" where
  "le_value [] = 0"
| "le_value (b # bs) = unat b + 256 * le_value bs"

lemma le_value_bound: "le_value bs < 256 ^ length bs"
proof (induction bs)
  case (Cons b bs)
  have "unat b < 256" using unat_lt2p [of b] by simp
  with Cons show ?case by (simp add: power_Suc)
qed simp

lemma le_value_increment: "le_value (le_increment bs) = (le_value bs + 1) mod 256 ^ length bs"
proof (induction bs)
  case (Cons b bs)
  have b: "unat b < 256" using unat_lt2p [of b] by simp
  show ?case
  proof (cases "b + 1 = 0")
    case False
    have u: "unat (b + 1) = (unat b + 1) mod 256" by (simp add: unat_word_ariths)
    have "unat b \<noteq> 255"
    proof
      assume "unat b = 255"
      with u have "unat (b + 1) = 0" by simp
      with False show False by (simp add: unat_eq_zero)
    qed
    with u b have "unat (b + 1) = unat b + 1" by simp
    then have "le_value (le_increment (b # bs)) = le_value (b # bs) + 1" using False by simp
    moreover have "le_value (le_increment (b # bs)) < 256 ^ length (le_increment (b # bs))"
      by (rule le_value_bound)
    ultimately show ?thesis using False by simp
  next
    case True
    have "unat (b + 1) = (unat b + 1) mod 256" by (simp add: unat_word_ariths)
    with True have "(unat b + 1) mod 256 = 0" by simp
    with b have "unat b = 255" by presburger
    then have "le_value (b # bs) + 1 = 256 * (le_value bs + 1)" by simp
    then show ?thesis using True Cons by (simp add: mult_mod_right)
  qed
qed simp

lemma length_le_increment [simp]: "length (le_increment bs) = length bs"
  by (induction bs) simp_all

lemma ctr_carry_le:
  "length hi = 8 \<Longrightarrow> ctr_carry (7 + length xs) (hi @ xs @ ys) = hi @ rev (le_increment (rev xs)) @ ys"
proof (induction xs arbitrary: ys rule: rev_induct)
  case (snoc b xs)
  let ?c = "hi @ (xs @ [b]) @ ys"
  have n: "?c ! (8 + length xs) = b" using snoc.prems by (simp add: nth_append)
  have u: "?c[8 + length xs := x] = hi @ xs @ (x # ys)" for x
    using snoc.prems by (simp add: list_update_append)
  have m: "(hi @ xs @ (x # ys)) ! (8 + length xs) = x" for x
    using snoc.prems by (simp add: nth_append)
  have "ctr_carry (7 + length (xs @ [b])) ?c =
      (if b + 1 \<noteq> 0 then hi @ xs @ (b + 1) # ys else ctr_carry (7 + length xs) (hi @ xs @ (b + 1) # ys))"
    using n u m by (subst ctr_carry.simps) (simp add: Let_def)
  then show ?case using snoc.IH [OF snoc.prems, of "0 # ys"] by simp
qed (subst ctr_carry.simps, simp)

lemma ctr_increment_le:
  "length c = 16 \<Longrightarrow> ctr_increment c = take 8 c @ rev (le_increment (rev (drop 8 c)))"
  using ctr_carry_le [of "take 8 c" "drop 8 c" "[]"] by (simp add: ctr_increment_def)

lemma length_ctr_increment [simp]: "length c = 16 \<Longrightarrow> length (ctr_increment c) = 16"
  by (simp add: ctr_increment_le)

lemma length_ctr_increments [simp]: "length c = 16 \<Longrightarrow> length ((ctr_increment ^^ n) c) = 16"
  by (induction n) simp_all

lemma ctr_value_increments:
  assumes "length c = 16"
  shows "take 8 ((ctr_increment ^^ n) c) = take 8 c \<and>
    le_value (rev (drop 8 ((ctr_increment ^^ n) c))) = (le_value (rev (drop 8 c)) + n) mod 2 ^ 64"
proof (induction n)
  case 0
  have "le_value (rev (drop 8 c)) < 256 ^ 8" using le_value_bound [of "rev (drop 8 c)"] assms by simp
  then show ?case by simp
next
  case (Suc n)
  then show ?case
    using assms by (simp add: ctr_increment_le le_value_increment mod_Suc_eq)
qed

lemma mod_add_inject:
  fixes a i j m :: nat
  assumes "(a + i) mod m = (a + j) mod m" "i < m" "j < m"
  shows "i = j"
proof -
  have "int (a + i) mod int m = int (a + j) mod int m" using assms(1) by (metis zmod_int)
  then have "int i mod int m = int j mod int m" by (simp add: mod_eq_dvd_iff)
  with assms(2,3) show ?thesis by simp
qed

text \<open>No counter repeats within \<open>2 ^ 64\<close> blocks.\<close>

lemma ctr_increments_inject:
  assumes "length c = 16" "i < 2 ^ 64" "j < 2 ^ 64"
  shows "(ctr_increment ^^ i) c = (ctr_increment ^^ j) c \<longleftrightarrow> i = j"
proof
  assume "(ctr_increment ^^ i) c = (ctr_increment ^^ j) c"
  then have "(le_value (rev (drop 8 c)) + i) mod 2 ^ 64 = (le_value (rev (drop 8 c)) + j) mod 2 ^ 64"
    using ctr_value_increments [OF assms(1)] by metis
  with assms(2,3) show "i = j" using mod_add_inject by blast
qed simp

section \<open>Counter mode\<close>

lemma length_ctr_loop [simp]: "length (ctr_loop rk c xs) = length xs"
  by (induction rk c xs rule: ctr_loop.induct) (subst ctr_loop.simps, simp add: Let_def)

lemma ctr_loop_involution: "ctr_loop rk c (ctr_loop rk c xs) = xs"
proof (induction rk c xs rule: ctr_loop.induct)
  case (1 rk c xs)
  show ?case
  proof (cases "xs = []")
    case False
    let ?ks = "zupt_aes256_encrypt_block rk c"
    define k where "k = (if length xs > 16 then 16 else length xs)"
    let ?h = "map2 (XOR) (take k xs) ?ks"
    have k: "0 < k" "k \<le> 16" "k \<le> length xs" using False by (auto simp: k_def)
    have lh: "length ?h = k" using k by simp
    have e: "ctr_loop rk c xs = ?h @ ctr_loop rk (ctr_increment c) (drop k xs)" (is "_ = ?h @ ?r")
      using False by (subst ctr_loop.simps) (simp add: k_def Let_def)
    have ks: "(if length (?h @ ?r) > 16 then 16 else length (?h @ ?r)) = k"
      using k lh by (simp add: k_def)
    have "ctr_loop rk c (?h @ ?r) = map2 (XOR) ?h ?ks @ ctr_loop rk (ctr_increment c) ?r"
    proof -
      have "?h \<noteq> []" using lh k(1) by (metis length_greater_0_conv)
      then have "?h @ ?r \<noteq> []" by blast
      then show ?thesis
        by (subst ctr_loop.simps) (simp only: Let_def ks if_False, use lh in simp)
    qed
    also have "ctr_loop rk (ctr_increment c) ?r = drop k xs"
      using 1 False by (simp add: k_def)
    also have "map2 (XOR) ?h ?ks = take k xs"
      by (rule nth_equalityI) (use k in \<open>simp_all add: xor.assoc\<close>)
    finally show ?thesis using e by simp
  qed (simp add: ctr_loop.simps)
qed

lemma ctr_loop_nth:
  "i < length xs \<Longrightarrow> ctr_loop rk c xs ! i =
     xs ! i XOR zupt_aes256_encrypt_block rk ((ctr_increment ^^ (i div 16)) c) ! (i mod 16)"
proof (induction rk c xs arbitrary: i rule: ctr_loop.induct)
  case (1 rk c xs)
  let ?ks = "zupt_aes256_encrypt_block rk c"
  define k where "k = (if length xs > 16 then 16 else length xs)"
  have ne: "xs \<noteq> []" using 1(2) by auto
  have e: "ctr_loop rk c xs = map2 (XOR) (take k xs) ?ks @ ctr_loop rk (ctr_increment c) (drop k xs)"
    using ne by (subst ctr_loop.simps) (simp add: k_def Let_def)
  show ?case
  proof (cases "i < 16")
    case True
    then have "i < k" "k \<le> 16" using 1(2) by (auto simp: k_def)
    then show ?thesis using True 1(2) by (simp add: e nth_append)
  next
    case False
    then have k: "k = 16" using 1(2) by (simp add: k_def)
    have i: "i div 16 = Suc ((i - 16) div 16)" "i mod 16 = (i - 16) mod 16"
      using False by (simp_all add: le_div_geq le_mod_geq)
    have "ctr_loop rk c xs ! i = ctr_loop rk (ctr_increment c) (drop 16 xs) ! (i - 16)"
      using False 1(2) by (simp add: e k nth_append)
    also have "\<dots> = drop 16 xs ! (i - 16) XOR
        zupt_aes256_encrypt_block rk ((ctr_increment ^^ ((i - 16) div 16)) (ctr_increment c)) ! ((i - 16) mod 16)"
      using 1(1) [OF ne refl refl, of "i - 16"] 1(2) False k unfolding k_def [symmetric] k by simp
    finally show ?thesis using False 1(2) i by (simp add: funpow_swap1)
  qed
qed

lemma length_zupt_aes256_ctr [simp]: "length (zupt_aes256_ctr key nonce xs) = length xs"
  by (simp add: zupt_aes256_ctr_def)

lemma zupt_aes256_ctr_involution: "zupt_aes256_ctr key nonce (zupt_aes256_ctr key nonce xs) = xs"
  by (simp add: zupt_aes256_ctr_def ctr_loop_involution)

section \<open>Properties\<close>

text \<open>
  C29. For every expanded key the block function is injective on 16-byte blocks (a permutation of
  them), since the S-box has no repeated entry and the column mix has an inverse; and in
  counter mode every keystream block of a message of up to \<open>2 ^ 64\<close> blocks is the image of a
  different counter, so no keystream block repeats.
\<close>

theorem aes_permutation_no_keystream_reuse:
  assumes "length s = 16" "length t = 16" "i < 2 ^ 64" "j < 2 ^ 64"
  shows "(zupt_aes256_encrypt_block rk s = zupt_aes256_encrypt_block rk t \<longleftrightarrow> s = t) \<and>
    (zupt_aes256_encrypt_block rk ((ctr_increment ^^ i) s) =
       zupt_aes256_encrypt_block rk ((ctr_increment ^^ j) s) \<longleftrightarrow> i = j)"
  using assms by (simp add: zupt_aes256_encrypt_block_inject ctr_increments_inject)

theorem aes_permutation_no_keystream_reuse_witness:
  "zupt_aes256_encrypt_block (zupt_aes256_init (replicate 32 7)) (replicate 16 0) \<noteq>
     zupt_aes256_encrypt_block (zupt_aes256_init (replicate 32 7)) (replicate 16 1) \<and>
   zupt_aes256_encrypt_block (zupt_aes256_init (replicate 32 7)) ((ctr_increment ^^ 3) (replicate 16 0)) \<noteq>
     zupt_aes256_encrypt_block (zupt_aes256_init (replicate 32 7)) ((ctr_increment ^^ 5) (replicate 16 0))"
  using aes_permutation_no_keystream_reuse
    [of "replicate 16 0" "replicate 16 1" 3 5 "zupt_aes256_init (replicate 32 7)"]
  by (simp add: replicate_eqI)

text \<open>
  Counter mode is its own inverse and keeps the length, and byte \<open>i\<close> of the output is byte
  \<open>i\<close> of the input XOR byte \<open>i mod 16\<close> of the encryption of the nonce incremented \<open>i div 16\<close>
  times.
\<close>

theorem aes_ctr_stream:
  assumes "i < length xs"
  shows "zupt_aes256_ctr key nonce (zupt_aes256_ctr key nonce xs) = xs \<and>
    length (zupt_aes256_ctr key nonce xs) = length xs \<and>
    zupt_aes256_ctr key nonce xs ! i = xs ! i XOR
      zupt_aes256_encrypt_block (zupt_aes256_init key)
        ((ctr_increment ^^ (i div 16)) (take 16 nonce)) ! (i mod 16)"
  using assms ctr_loop_nth by (simp add: zupt_aes256_ctr_involution zupt_aes256_ctr_def [of key nonce xs])
    (simp add: zupt_aes256_ctr_def ctr_loop_involution)

theorem aes_ctr_stream_witness:
  "zupt_aes256_ctr (replicate 32 1) (replicate 16 2) (zupt_aes256_ctr (replicate 32 1) (replicate 16 2) [1, 2, 3]) = [1, 2, 3]"
  using aes_ctr_stream [of 0 "[1, 2, 3]" "replicate 32 1" "replicate 16 2"] by simp

end
