(* ===== verification/Aead.thy ===== *)
theory Aead
  imports Hmac Aes
begin

text \<open>
  Key derivation and the encrypt-then-MAC packages of \<open>src/zupt_crypto.c\<close>: a package is the
  16-byte nonce, the ciphertext and a 32-byte HMAC. With a preface as additional data only one
  MAC input is accepted; without it the reader also accepts the older MAC that does not cover
  the block number. The nonce is drawn from the system's generator and is a parameter here.
\<close>

section \<open>The keyring\<close>

record zupt_keyring_t =
  canary_head :: u64
  enc_key :: bytes
  mac_key :: bytes
  salt :: bytes
  base_nonce :: bytes
  iterations :: u32
  active :: bool
  canary_tail :: u64
  use_preface_aad :: bool

definition ZUPT_CANARY :: u64 where "ZUPT_CANARY = 0xDEADCAFEBABEFACE"

definition zupt_keyring_init :: zupt_keyring_t where
  "zupt_keyring_init =
     \<lparr>canary_head = ZUPT_CANARY, enc_key = replicate 32 0, mac_key = replicate 32 0,
      salt = replicate 32 0, base_nonce = replicate 16 0, iterations = 0, active = False,
      canary_tail = ZUPT_CANARY, use_preface_aad = False\<rparr>"

text \<open>\<open>False\<close> is the process exit of \<open>zupt_keyring_check\<close>.\<close>

definition zupt_keyring_check :: "zupt_keyring_t \<Rightarrow> bool" where
  "zupt_keyring_check kr \<longleftrightarrow> \<not> (canary_head kr \<noteq> ZUPT_CANARY \<or> canary_tail kr \<noteq> ZUPT_CANARY)"

definition zupt_derive_keys :: "zupt_keyring_t \<Rightarrow> bytes \<Rightarrow> bytes \<Rightarrow> bytes \<Rightarrow> u32 \<Rightarrow> zupt_keyring_t" where
  "zupt_derive_keys kr pw slt nonce iters =
     (let kr = kr\<lparr>canary_head := ZUPT_CANARY, canary_tail := ZUPT_CANARY,
                  salt := take 32 slt, base_nonce := take 16 nonce,
                  iterations := iters, active := True\<rparr>;
          material = zupt_pbkdf2_sha256 pw (take 32 slt) iters 64 in
      kr\<lparr>enc_key := take 32 material, mac_key := take 32 (drop 32 material)\<rparr>)"

section \<open>Encrypt-then-MAC\<close>

definition aad_seq_bytes :: "u64 \<Rightarrow> bytes" where
  "aad_seq_bytes block_seq = map (\<lambda>i. ucast (drop_bit (i * 8) block_seq)) [0..<8]"

abbreviation hmac_start :: "bytes \<Rightarrow> zupt_hmac_ctx" where
  "hmac_start key \<equiv> zupt_hmac_sha256_init (\<lambda>_. 0) (\<lambda>_. 0) (\<lambda>_. 0) key"

text \<open>\<open>None\<close> is a failed allocation.\<close>

definition zupt_encrypt_buffer_aad ::
  "bool \<Rightarrow> zupt_keyring_t \<Rightarrow> bytes \<Rightarrow> bytes \<Rightarrow> u64 \<Rightarrow> bytes \<Rightarrow> bytes option" where
  "zupt_encrypt_buffer_aad malloc_ok kr nonce plain block_seq aad_extra =
     (if \<not> malloc_ok then None
      else
        let pkg = take 16 nonce @ zupt_aes256_ctr (enc_key kr) nonce plain;
            hctx = hmac_start (mac_key kr);
            hctx = (if length aad_extra \<noteq> 0 then zupt_hmac_sha256_update hctx aad_extra else hctx);
            hctx = zupt_hmac_sha256_update hctx pkg;
            hctx = zupt_hmac_sha256_update hctx (aad_seq_bytes block_seq) in
        Some (pkg @ zupt_hmac_sha256_final hctx))"

definition zupt_encrypt_buffer ::
  "bool \<Rightarrow> zupt_keyring_t \<Rightarrow> bytes \<Rightarrow> bytes \<Rightarrow> u64 \<Rightarrow> bytes option" where
  "zupt_encrypt_buffer malloc_ok kr nonce plain block_seq =
     zupt_encrypt_buffer_aad malloc_ok kr nonce plain block_seq []"

text \<open>The accumulated difference of two MACs and its fold to one bit.\<close>

fun mac_diff :: "bytes \<Rightarrow> bytes \<Rightarrow> u64 \<Rightarrow> u64" where
  "mac_diff (a # as) (b # bs) d = mac_diff as bs (d OR ucast (a XOR b))"
| "mac_diff _ _ d = d"

definition nonzero_bit :: "u64 \<Rightarrow> u64" where
  "nonzero_bit d = drop_bit 63 (d OR (0 - d))"

definition zupt_decrypt_buffer_aad ::
  "bool \<Rightarrow> zupt_keyring_t \<Rightarrow> bytes \<Rightarrow> u64 \<Rightarrow> bytes \<Rightarrow> bytes option" where
  "zupt_decrypt_buffer_aad malloc_ok kr pkg block_seq aad_extra =
     (if length pkg < 16 + 32 then None
      else
        let clen = length pkg - 16 - 32;
            stored_mac = drop (16 + clen) pkg;
            body = take (16 + clen) pkg;
            plain = zupt_aes256_ctr (enc_key kr) (take 16 pkg) (take clen (drop 16 pkg)) in
        if length aad_extra > 0 then
          let hctx = hmac_start (mac_key kr);
              hctx = zupt_hmac_sha256_update hctx aad_extra;
              hctx = zupt_hmac_sha256_update hctx body;
              hctx = zupt_hmac_sha256_update hctx (aad_seq_bytes block_seq);
              mac_ok = zupt_ct_memeq (zupt_hmac_sha256_final hctx) stored_mac 32 in
          if \<not> malloc_ok then None else if mac_ok = 0 then None else Some plain
        else
          let hctx = hmac_start (mac_key kr);
              hctx = zupt_hmac_sha256_update hctx body;
              hctx = zupt_hmac_sha256_update hctx (aad_seq_bytes block_seq);
              expected_mac_v2 = zupt_hmac_sha256_final hctx;
              expected_mac_v1 = zupt_hmac_sha256 (\<lambda>_. 0) (\<lambda>_. 0) (\<lambda>_. 0) (mac_key kr) body;
              nz_v2 = nonzero_bit (mac_diff expected_mac_v2 stored_mac 0);
              nz_v1 = nonzero_bit (mac_diff expected_mac_v1 stored_mac 0) in
          if \<not> malloc_ok then None else if nz_v2 AND nz_v1 \<noteq> 0 then None else Some plain)"

definition zupt_decrypt_buffer :: "bool \<Rightarrow> zupt_keyring_t \<Rightarrow> bytes \<Rightarrow> u64 \<Rightarrow> bytes option" where
  "zupt_decrypt_buffer malloc_ok kr pkg block_seq =
     zupt_decrypt_buffer_aad malloc_ok kr pkg block_seq []"

section \<open>What the MAC comparison decides\<close>

lemma top_bit_clear: "\<not> bit (w :: u64) 63 \<Longrightarrow> unat w < 2 ^ 63"
proof -
  assume "\<not> bit w 63"
  then have "\<not> bit w (63 + n)" for n using bit_imp_le_length [of w "63 + n"] by (cases n) auto
  then have "drop_bit 63 w = 0" by (intro bit_word_eqI) (simp add: bit_drop_bit_eq)
  then show ?thesis by (simp only: drop_bit_word_eq_0_iff)
qed

lemma nonzero_bit_eq: "nonzero_bit d = (if d = 0 then 0 else 1)"
proof (cases "d = 0")
  case False
  have "bit (d OR (0 - d)) 63"
  proof (rule ccontr)
    assume "\<not> bit (d OR (0 - d)) 63"
    then have "unat d < 2 ^ 63" "unat (- d) < 2 ^ 63"
      using top_bit_clear by (simp_all add: bit_or_iff)
    then have "unat d + unat (- d) = unat (d + - d)" using unat_add_lem [of d "- d"] by simp
    with False show False by (simp add: unat_eq_zero)
  qed
  moreover have "drop_bit 63 (x :: u64) = (if bit x 63 then 1 else 0)" for x
  proof (rule bit_word_eqI)
    fix n assume "n < LENGTH(64)"
    show "bit (drop_bit 63 x) n \<longleftrightarrow> bit (if bit x 63 then 1 else 0 :: u64) n"
      using bit_imp_le_length [of x "63 + n"] by (cases n) (auto simp: bit_simps bit_1_iff)
  qed
  ultimately have "drop_bit 63 (d OR (0 - d)) = 1" by (simp only: if_True)
  then show ?thesis using False by (simp only: nonzero_bit_def if_False)
qed (simp add: nonzero_bit_def)

lemma mac_diff_0_iff: "length as = length bs \<Longrightarrow> mac_diff as bs d = 0 \<longleftrightarrow> d = 0 \<and> as = bs"
proof (induction as bs d rule: mac_diff.induct)
  case (1 a as b bs d)
  have "(ucast (a XOR b) :: u64) = 0 \<longleftrightarrow> a = b"
  proof -
    have "unat (ucast (a XOR b) :: u64) = unat (a XOR b)" by simp
    then show ?thesis using word_xor_eq_0_iff [of a b] by (metis unat_eq_zero)
  qed
  then have "d OR ucast (a XOR b) = 0 \<longleftrightarrow> d = 0 \<and> a = b"
    by (simp add: word_or_eq_0_iff)
  with 1 show ?case by auto
qed auto

section \<open>Packages\<close>

text \<open>The MAC of a package under the additional data, and the older one without it.\<close>

definition package_mac :: "zupt_keyring_t \<Rightarrow> bytes \<Rightarrow> bytes \<Rightarrow> u64 \<Rightarrow> bytes" where
  "package_mac kr aad body block_seq = hmac_spec (mac_key kr) (aad @ body @ aad_seq_bytes block_seq)"

lemma hmac_stream_2:
  "zupt_hmac_sha256_final (zupt_hmac_sha256_update (zupt_hmac_sha256_update (hmac_start key) a) b) =
     hmac_spec key (a @ b)"
  using hmac.segments [of "\<lambda>_. 0" "\<lambda>_. 0" "\<lambda>_. 0" key "[a, b]"] by simp

lemma hmac_stream_3:
  "zupt_hmac_sha256_final (zupt_hmac_sha256_update (zupt_hmac_sha256_update
      (zupt_hmac_sha256_update (hmac_start key) a) b) c) = hmac_spec key (a @ b @ c)"
  using hmac.segments [of "\<lambda>_. 0" "\<lambda>_. 0" "\<lambda>_. 0" key "[a, b, c]"] by simp

lemma zupt_encrypt_buffer_aad_eq:
  "zupt_encrypt_buffer_aad malloc_ok kr nonce plain block_seq aad =
     (if malloc_ok
      then let body = take 16 nonce @ zupt_aes256_ctr (enc_key kr) nonce plain in
           Some (body @ package_mac kr aad body block_seq)
      else None)"
  by (simp add: zupt_encrypt_buffer_aad_def package_mac_def hmac_stream_2 hmac_stream_3 Let_def)

lemma ct_memeq_mac: "length a = 32 \<Longrightarrow> length b = 32 \<Longrightarrow> zupt_ct_memeq a b 32 = (if a = b then 1 else 0)"
  by (simp add: zupt_ct_memeq_eq)

text \<open>What the reader accepts, and what it then returns.\<close>

definition package_body :: "bytes \<Rightarrow> bytes" where
  "package_body pkg = take (length pkg - 32) pkg"

definition package_plain :: "zupt_keyring_t \<Rightarrow> bytes \<Rightarrow> bytes" where
  "package_plain kr pkg =
     zupt_aes256_ctr (enc_key kr) (take 16 pkg) (take (length pkg - 48) (drop 16 pkg))"

definition package_authentic :: "zupt_keyring_t \<Rightarrow> u64 \<times> bytes \<Rightarrow> bytes \<Rightarrow> bool" where
  "package_authentic kr ad pkg \<longleftrightarrow>
     48 \<le> length pkg \<and>
     (drop (length pkg - 32) pkg = package_mac kr (snd ad) (package_body pkg) (fst ad) \<or>
      snd ad = [] \<and> drop (length pkg - 32) pkg = hmac_spec (mac_key kr) (package_body pkg))"

lemma zupt_decrypt_buffer_aad_eq:
  "zupt_decrypt_buffer_aad True kr pkg block_seq aad =
     (if package_authentic kr (block_seq, aad) pkg then Some (package_plain kr pkg) else None)"
proof (cases "48 \<le> length pkg")
  case True
  define stored where "stored = drop (length pkg - 32) pkg"
  have ls: "length stored = 32" using True by (simp add: stored_def)
  have e: "16 + (length pkg - 16 - 32) = length pkg - 32" "length pkg - 16 - 32 = length pkg - 48"
    using True by simp_all
  have b: "\<not> length pkg < 16 + 32" using True by simp
  let ?v2 = "package_mac kr [] (package_body pkg) block_seq"
  let ?v1 = "hmac_spec (mac_key kr) (package_body pkg)"
  show ?thesis
  proof (cases "aad = []")
    case False
    have "zupt_ct_memeq (package_mac kr aad (package_body pkg) block_seq) stored 32 =
        (if package_mac kr aad (package_body pkg) block_seq = stored then 1 else 0)"
      by (rule ct_memeq_mac) (simp_all add: ls package_mac_def)
    then show ?thesis
      using False True b unfolding zupt_decrypt_buffer_aad_def Let_def e hmac_stream_3
      by (auto simp: package_authentic_def package_plain_def package_body_def package_mac_def stored_def)
  next
    case nil: True
    have "nonzero_bit (mac_diff ?v2 stored 0) AND nonzero_bit (mac_diff ?v1 stored 0) \<noteq> 0 \<longleftrightarrow>
        \<not> (stored = ?v2 \<or> stored = ?v1)"
      by (auto simp: nonzero_bit_eq mac_diff_0_iff ls package_mac_def)
    then show ?thesis
      using nil True b unfolding zupt_decrypt_buffer_aad_def Let_def e hmac_stream_2 zupt_hmac_sha256_spec
      by (auto simp: package_authentic_def package_plain_def package_body_def package_mac_def stored_def)
  qed
qed (simp add: zupt_decrypt_buffer_aad_def package_authentic_def)

lemma zupt_decrypt_encrypt:
  assumes "length nonce = 16"
    and "zupt_encrypt_buffer_aad malloc_ok kr nonce plain block_seq aad = Some pkg"
  shows "zupt_decrypt_buffer_aad True kr pkg block_seq aad = Some plain"
proof -
  let ?ct = "zupt_aes256_ctr (enc_key kr) nonce plain"
  let ?mac = "package_mac kr aad (nonce @ ?ct) block_seq"
  have p: "pkg = (nonce @ ?ct) @ ?mac"
    using assms by (simp add: zupt_encrypt_buffer_aad_eq Let_def split: if_splits)
  have lm: "length ?mac = 32" by (simp add: package_mac_def)
  have "package_body pkg = nonce @ ?ct" "drop (length pkg - 32) pkg = ?mac" "48 \<le> length pkg"
    using lm assms(1) by (simp_all add: p package_body_def)
  moreover have "package_plain kr pkg = plain"
    using lm assms(1) by (simp add: p package_plain_def zupt_aes256_ctr_involution)
  ultimately show ?thesis by (simp add: zupt_decrypt_buffer_aad_eq package_authentic_def)
qed

text \<open>The bytes of a block number determine it.\<close>

lemma length_aad_seq_bytes [simp]: "length (aad_seq_bytes s) = 8"
  by (simp add: aad_seq_bytes_def)

lemma aad_seq_bytes_inject: "aad_seq_bytes s = aad_seq_bytes t \<longleftrightarrow> s = t"
proof
  assume e: "aad_seq_bytes s = aad_seq_bytes t"
  show "s = t"
  proof (rule bit_word_eqI)
    fix n assume n: "n < LENGTH(64)"
    then have d: "n div 8 < 8" by simp
    have b: "bit v n \<longleftrightarrow> bit (aad_seq_bytes v ! (n div 8)) (n mod 8)" for v :: u64
      using d by (simp add: aad_seq_bytes_def bit_simps)
    show "bit s n \<longleftrightarrow> bit t n" unfolding b e ..
  qed
qed simp

section \<open>Authenticated encryption as an interface\<close>

text \<open>
  What the callers of a sealing pair rely on: what was sealed opens to the plain bytes, and
  nothing that is not authentic under the key and the additional data opens at all.
\<close>

locale authenticated_encryption =
  fixes seal :: "'k \<Rightarrow> 'n \<Rightarrow> 'a \<Rightarrow> bytes \<Rightarrow> bytes option" and unseal :: "'k \<Rightarrow> 'a \<Rightarrow> bytes \<Rightarrow> bytes option"
    and nonce_ok :: "'n \<Rightarrow> bool" and authentic :: "'k \<Rightarrow> 'a \<Rightarrow> bytes \<Rightarrow> bool"
  assumes unseal_seal: "nonce_ok n \<Longrightarrow> seal k n a p = Some c \<Longrightarrow> unseal k a c = Some p"
    and unseal_iff: "(\<exists>p. unseal k a c = Some p) \<longleftrightarrow> authentic k a c"
begin

lemma seal_authentic: "nonce_ok n \<Longrightarrow> seal k n a p = Some c \<Longrightarrow> authentic k a c"
  using unseal_seal unseal_iff by blast

lemma seal_inject: "nonce_ok n \<Longrightarrow> nonce_ok m \<Longrightarrow> seal k n a p = Some c \<Longrightarrow> seal k m a q = Some c \<Longrightarrow> p = q"
  using unseal_seal by (metis option.inject)

lemma forged_rejected: "\<not> authentic k a c \<Longrightarrow> unseal k a c = None"
  using unseal_iff by (metis not_None_eq)

end

interpretation aead: authenticated_encryption
  "\<lambda>kr nonce ad plain. zupt_encrypt_buffer_aad True kr nonce plain (fst ad) (snd ad)"
  "\<lambda>kr ad pkg. zupt_decrypt_buffer_aad True kr pkg (fst ad) (snd ad)"
  "\<lambda>nonce. length nonce = 16" package_authentic
proof unfold_locales
  fix n :: bytes and kr :: zupt_keyring_t and ad :: "u64 \<times> bytes" and p c :: bytes
  assume "length n = 16" "zupt_encrypt_buffer_aad True kr n p (fst ad) (snd ad) = Some c"
  then show "zupt_decrypt_buffer_aad True kr c (fst ad) (snd ad) = Some p"
    by (rule zupt_decrypt_encrypt)
next
  fix kr :: zupt_keyring_t and ad :: "u64 \<times> bytes" and c :: bytes
  show "(\<exists>p. zupt_decrypt_buffer_aad True kr c (fst ad) (snd ad) = Some p) \<longleftrightarrow> package_authentic kr ad c"
    by (simp add: zupt_decrypt_buffer_aad_eq)
qed

lemma zupt_derive_keys_eq:
  "zupt_derive_keys kr pw slt nonce iters =
     kr\<lparr>canary_head := ZUPT_CANARY, canary_tail := ZUPT_CANARY, salt := take 32 slt,
        base_nonce := take 16 nonce, iterations := iters, active := True,
        enc_key := take 32 (pbkdf2_spec pw (take 32 slt) iters 64),
        mac_key := take 32 (drop 32 (pbkdf2_spec pw (take 32 slt) iters 64))\<rparr>"
  by (simp add: zupt_derive_keys_def Let_def zupt_pbkdf2_sha256_spec min_def)

section \<open>Properties\<close>

text \<open>
  C11. A package opens to exactly the bytes that were sealed, for every key, 16-byte nonce, block
  number and additional data. Which packages open at all is decided by their last 32 bytes. With
  additional data (the preface of a block) these have to be the HMAC of the additional data,
  nonce, ciphertext and block number, and among additional data of one length no two different
  quadruples give the HMAC the same input. Without additional data (archives that do not bind
  prefaces) two MACs are accepted: the one of nonce, ciphertext and block number, and the older
  one of nonce and ciphertext, which covers no block number. What opens is decrypted in counter
  mode.
\<close>

theorem aead_roundtrip_and_authenticity:
  assumes "length nonce = 16"
    and "zupt_encrypt_buffer_aad malloc_ok kr nonce plain block_seq aad = Some pkg"
  shows "zupt_decrypt_buffer_aad True kr pkg block_seq aad = Some plain \<and>
    length pkg = length plain + 48 \<and>
    (let body = take (length forged - 32) forged; tag = drop (length forged - 32) forged;
         opened = zupt_decrypt_buffer_aad True kr forged seq2 aad2 in
      (aad2 \<noteq> [] \<longrightarrow> (opened \<noteq> None \<longleftrightarrow>
         48 \<le> length forged \<and> tag = hmac_spec (mac_key kr) (aad2 @ body @ aad_seq_bytes seq2))) \<and>
      (aad2 = [] \<longrightarrow> (opened \<noteq> None \<longleftrightarrow>
         48 \<le> length forged \<and> (tag = hmac_spec (mac_key kr) (body @ aad_seq_bytes seq2) \<or> tag = hmac_spec (mac_key kr) body))) \<and>
      (\<forall>y. opened = Some y \<longrightarrow> y = zupt_aes256_ctr (enc_key kr) (take 16 body) (drop 16 body)) \<and>
      (length aad = length aad2 \<and> aad @ body2 @ aad_seq_bytes block_seq = aad2 @ body @ aad_seq_bytes seq2 \<longrightarrow>
         aad = aad2 \<and> body2 = body \<and> block_seq = seq2))"
proof -
  have l: "length pkg = length plain + 48"
    using assms by (auto simp: zupt_encrypt_buffer_aad_eq package_mac_def Let_def split: if_splits)
  have p: "package_plain kr forged = zupt_aes256_ctr (enc_key kr) (take 16 (package_body forged)) (drop 16 (package_body forged))"
    if "48 \<le> length forged"
  proof -
    have "16 \<le> length forged - 32" using that by linarith
    then show ?thesis by (simp add: package_plain_def package_body_def min_def drop_take)
  qed
  have inj: "aad = aad2 \<and> body2 = body \<and> block_seq = seq2"
    if "length aad = length aad2" "aad @ body2 @ aad_seq_bytes block_seq = aad2 @ body @ aad_seq_bytes seq2" for body
    using that aad_seq_bytes_inject by (auto simp: append_eq_append_conv)
  show ?thesis
    using zupt_decrypt_encrypt [OF assms] l p inj
    by (auto simp: zupt_decrypt_buffer_aad_eq package_authentic_def package_mac_def Let_def simp flip: package_body_def
        split: if_splits)
qed

theorem aead_roundtrip_and_authenticity_witness:
  "\<exists>pkg. zupt_encrypt_buffer_aad True zupt_keyring_init (replicate 16 9) [1, 2, 3] 7 [5] = Some pkg \<and>
     zupt_decrypt_buffer_aad True zupt_keyring_init pkg 7 [5] = Some [1, 2, 3]"
proof -
  obtain pkg where p: "zupt_encrypt_buffer_aad True zupt_keyring_init (replicate 16 9) [1, 2, 3] 7 [5] = Some pkg"
    by (simp add: zupt_encrypt_buffer_aad_eq Let_def)
  have l: "length (replicate 16 (9 :: u8)) = 16" by simp
  from aead_roundtrip_and_authenticity [OF l p] p show ?thesis by blast
qed

text \<open>
  The keys of a password are the two halves of 64 bytes of PBKDF2 over the first 32 salt
  bytes, and after the derivation the keyring is active, its canaries are intact and its other
  fields are untouched, whatever it held before.
\<close>

theorem derive_keys_pbkdf2:
  "enc_key (zupt_derive_keys kr pw slt nonce iters) @ mac_key (zupt_derive_keys kr pw slt nonce iters) =
     pbkdf2_spec pw (take 32 slt) iters 64 \<and>
   zupt_keyring_check (zupt_derive_keys kr pw slt nonce iters) \<and>
   active (zupt_derive_keys kr pw slt nonce iters) \<and>
   use_preface_aad (zupt_derive_keys kr pw slt nonce iters) = use_preface_aad kr"
proof -
  have "length (pbkdf2_spec pw (take 32 slt) iters 64) = 64"
    by (simp add: pbkdf2_spec_def length_concat comp_def sum_list_triv)
  then show ?thesis
    by (simp add: zupt_derive_keys_eq zupt_keyring_check_def flip: take_add)
qed

end
