(* ===== verification/Xxh64.thy ===== *)
theory Xxh64
  imports Prelude
begin

text \<open>
  The XXH64 checksum: the archive's own one-shot \<open>zupt_xxh64\<close> (\<open>src/zupt_xxh.c\<close>), the codec's
  one-shot \<open>vv_xxh64\<close> and its streaming form \<open>vv_xxh64_init\<close>, \<open>vv_xxh64_update\<close>,
  \<open>vv_xxh64_finalize\<close> (\<open>src/vv_xxh64.c\<close>). Words read by \<open>memcpy\<close> are little-endian (the hosts
  the code supports). The two one-shot functions are shown equal; the streaming form is an
  instance of the interface \<open>stream_hash\<close>, with the one caveat the code has: its 64-bit length
  counter decides between the short and the long start value, so the result is the one-shot
  hash for messages of fewer than \<open>2 ^ 64\<close> bytes.
\<close>

section \<open>Mixing steps\<close>

abbreviation (input) XXH_PRIME64_1 :: u64 where "XXH_PRIME64_1 \<equiv> 0x9E3779B185EBCA87"
abbreviation (input) XXH_PRIME64_2 :: u64 where "XXH_PRIME64_2 \<equiv> 0xC2B2AE3D27D4EB4F"
abbreviation (input) XXH_PRIME64_3 :: u64 where "XXH_PRIME64_3 \<equiv> 0x165667B19E3779F9"
abbreviation (input) XXH_PRIME64_4 :: u64 where "XXH_PRIME64_4 \<equiv> 0x85EBCA77C2B2AE63"
abbreviation (input) XXH_PRIME64_5 :: u64 where "XXH_PRIME64_5 \<equiv> 0x27D4EB2F165667C5"

definition xxh_rotl64 :: "u64 \<Rightarrow> nat \<Rightarrow> u64" where
  "xxh_rotl64 x r = push_bit r x OR drop_bit (64 - r) x"

definition xxh_round :: "u64 \<Rightarrow> u64 \<Rightarrow> u64" where
  "xxh_round acc k =
     (let acc = acc + k * XXH_PRIME64_2; acc = xxh_rotl64 acc 31 in acc * XXH_PRIME64_1)"

definition xxh_merge_round :: "u64 \<Rightarrow> u64 \<Rightarrow> u64" where
  "xxh_merge_round acc val =
     (let val = xxh_round 0 val; acc = acc XOR val in acc * XXH_PRIME64_1 + XXH_PRIME64_4)"

definition xxh_avalanche :: "u64 \<Rightarrow> u64" where
  "xxh_avalanche h =
     (let h = h XOR drop_bit 33 h; h = h * XXH_PRIME64_2;
          h = h XOR drop_bit 29 h; h = h * XXH_PRIME64_3 in
      h XOR drop_bit 32 h)"

text \<open>The four lanes, and one stripe of 32 bytes.\<close>

type_synonym xxh_lanes = "u64 \<times> u64 \<times> u64 \<times> u64"

definition xxh_lanes0 :: "u64 \<Rightarrow> xxh_lanes" where
  "xxh_lanes0 seed =
     (seed + XXH_PRIME64_1 + XXH_PRIME64_2, seed + XXH_PRIME64_2, seed + 0, seed - XXH_PRIME64_1)"

definition xxh_stripe :: "xxh_lanes \<Rightarrow> bytes \<Rightarrow> xxh_lanes" where
  "xxh_stripe v p =
     (case v of (v1, v2, v3, v4) \<Rightarrow>
       (xxh_round v1 (zupt_le64_get p), xxh_round v2 (zupt_le64_get (drop 8 p)),
        xxh_round v3 (zupt_le64_get (drop 16 p)), xxh_round v4 (zupt_le64_get (drop 24 p))))"

definition xxh_converge :: "xxh_lanes \<Rightarrow> u64" where
  "xxh_converge v =
     (case v of (v1, v2, v3, v4) \<Rightarrow>
       let h = xxh_rotl64 v1 1 + xxh_rotl64 v2 7 + xxh_rotl64 v3 12 + xxh_rotl64 v4 18 in
       xxh_merge_round (xxh_merge_round (xxh_merge_round (xxh_merge_round h v1) v2) v3) v4)"

section \<open>The one-shot hash\<close>

text \<open>The \<open>do ... while (remaining >= 32)\<close> loop.\<close>

function xxh_stripes :: "xxh_lanes \<Rightarrow> bytes \<Rightarrow> xxh_lanes \<times> bytes" where
  "xxh_stripes v p =
     (let v = xxh_stripe v p; p = drop 32 p in
      if length p \<ge> 32 then xxh_stripes v p else (v, p))"
  by pat_completeness auto
termination by (relation "measure (\<lambda>(v, p). length p)") auto

text \<open>The three tail loops: eight bytes, four bytes, one byte at a time.\<close>

function xxh_tail8 :: "u64 \<Rightarrow> bytes \<Rightarrow> u64 \<times> bytes" where
  "xxh_tail8 h p =
     (if length p \<ge> 8 then
        let k = zupt_le64_get p * XXH_PRIME64_2; k = xxh_rotl64 k 31 * XXH_PRIME64_1;
            h = h XOR k; h = xxh_rotl64 h 27 * XXH_PRIME64_1 + XXH_PRIME64_4 in
        xxh_tail8 h (drop 8 p)
      else (h, p))"
  by pat_completeness auto
termination by (relation "measure (\<lambda>(h, p). length p)") auto

function xxh_tail4 :: "u64 \<Rightarrow> bytes \<Rightarrow> u64 \<times> bytes" where
  "xxh_tail4 h p =
     (if length p \<ge> 4 then
        let h = h XOR ucast (zupt_le32_get p) * XXH_PRIME64_1;
            h = xxh_rotl64 h 23 * XXH_PRIME64_2 + XXH_PRIME64_3 in
        xxh_tail4 h (drop 4 p)
      else (h, p))"
  by pat_completeness auto
termination by (relation "measure (\<lambda>(h, p). length p)") auto

fun xxh_tail1 :: "u64 \<Rightarrow> bytes \<Rightarrow> u64" where
  "xxh_tail1 h [] = h"
| "xxh_tail1 h (b # p) =
     (let h = h XOR ucast b * XXH_PRIME64_5; h = xxh_rotl64 h 11 * XXH_PRIME64_1 in xxh_tail1 h p)"

declare xxh_stripes.simps [simp del] xxh_tail8.simps [simp del] xxh_tail4.simps [simp del]

definition xxh_finish :: "u64 \<Rightarrow> bytes \<Rightarrow> u64" where
  "xxh_finish h p = (let (h, p) = xxh_tail8 h p; (h, p) = xxh_tail4 h p in xxh_tail1 h p)"

definition vv_xxh64 :: "bytes \<Rightarrow> u64 \<Rightarrow> u64" where
  "vv_xxh64 d seed =
     (if d = [] then xxh_avalanche (seed + XXH_PRIME64_5)
      else
        let (h, p) =
          (if length d \<ge> 32 then
             let (v, p) = xxh_stripes (xxh_lanes0 seed) d in (xxh_converge v, p)
           else (seed + XXH_PRIME64_5, d)) in
        xxh_avalanche (xxh_finish (h + word_of_nat (length d)) p))"

section \<open>The archive's own implementation\<close>

definition rotl64 :: "u64 \<Rightarrow> nat \<Rightarrow> u64" where
  "rotl64 x r = push_bit r x OR drop_bit (64 - r) x"

definition xround :: "u64 \<Rightarrow> u64 \<Rightarrow> u64" where
  "xround a i = rotl64 (a + i * XXH_PRIME64_2) 31 * XXH_PRIME64_1"

definition xmerge :: "u64 \<Rightarrow> u64 \<Rightarrow> u64" where
  "xmerge a v = (a XOR xround 0 v) * XXH_PRIME64_1 + XXH_PRIME64_4"

definition aval :: "u64 \<Rightarrow> u64" where
  "aval h =
     (let h = h XOR drop_bit 33 h; h = h * XXH_PRIME64_2;
          h = h XOR drop_bit 29 h; h = h * XXH_PRIME64_3; h = h XOR drop_bit 32 h in h)"

text \<open>The loop \<open>do ... while (p <= lim)\<close> with \<open>lim = end - 32\<close>.\<close>

function xxh_do_loop :: "xxh_lanes \<Rightarrow> bytes \<Rightarrow> xxh_lanes \<times> bytes" where
  "xxh_do_loop v p =
     (let v = (case v of (v1, v2, v3, v4) \<Rightarrow>
            (xround v1 (zupt_le64_get p), xround v2 (zupt_le64_get (drop 8 p)),
             xround v3 (zupt_le64_get (drop 16 p)), xround v4 (zupt_le64_get (drop 24 p))));
          p = drop 32 p in
      if length p \<ge> 32 then xxh_do_loop v p else (v, p))"
  by pat_completeness auto
termination by (relation "measure (\<lambda>(v, p). length p)") auto

function xxh_loop8 :: "u64 \<Rightarrow> bytes \<Rightarrow> u64 \<times> bytes" where
  "xxh_loop8 h p =
     (if 8 \<le> length p then
        let h = h XOR xround 0 (zupt_le64_get p) in
        xxh_loop8 (rotl64 h 27 * XXH_PRIME64_1 + XXH_PRIME64_4) (drop 8 p)
      else (h, p))"
  by pat_completeness auto
termination by (relation "measure (\<lambda>(h, p). length p)") auto

fun xxh_loop1 :: "u64 \<Rightarrow> bytes \<Rightarrow> u64" where
  "xxh_loop1 h [] = h"
| "xxh_loop1 h (b # p) = xxh_loop1 (rotl64 (h XOR ucast b * XXH_PRIME64_5) 11 * XXH_PRIME64_1) p"

declare xxh_do_loop.simps [simp del] xxh_loop8.simps [simp del]

definition zupt_xxh64 :: "bytes \<Rightarrow> u64 \<Rightarrow> u64" where
  "zupt_xxh64 d seed =
     (let (h, p) =
        (if length d \<ge> 32 then
           let (v, p) = xxh_do_loop (seed + XXH_PRIME64_1 + XXH_PRIME64_2, seed + XXH_PRIME64_2,
                          seed, seed - XXH_PRIME64_1) d;
               (v1, v2, v3, v4) = v;
               h = rotl64 v1 1 + rotl64 v2 7 + rotl64 v3 12 + rotl64 v4 18;
               h = xmerge h v1; h = xmerge h v2; h = xmerge h v3; h = xmerge h v4 in
           (h, p)
         else (seed + XXH_PRIME64_5, d));
          h = h + word_of_nat (length d);
          (h, p) = xxh_loop8 h p;
          (h, p) =
            (if 4 \<le> length p then
               (rotl64 (h XOR ucast (zupt_le32_get p) * XXH_PRIME64_1) 23 * XXH_PRIME64_2
                  + XXH_PRIME64_3, drop 4 p)
             else (h, p)) in
      aval (xxh_loop1 h p))"

section \<open>The streaming hash\<close>

record vv_xxh64_state_t =
  xxh_v1 :: u64
  xxh_v2 :: u64
  xxh_v3 :: u64
  xxh_v4 :: u64
  xxh_total_len :: u64
  xxh_buf :: bytes
  xxh_buf_len :: nat
  xxh_seed :: u64

text \<open>\<open>stale\<close> is what the state's buffer held before: \<open>vv_xxh64_init\<close> does not clear it.\<close>

definition vv_xxh64_init :: "(nat \<Rightarrow> u8) \<Rightarrow> u64 \<Rightarrow> vv_xxh64_state_t" where
  "vv_xxh64_init stale seed =
     \<lparr>xxh_v1 = seed + XXH_PRIME64_1 + XXH_PRIME64_2, xxh_v2 = seed + XXH_PRIME64_2,
      xxh_v3 = seed + 0, xxh_v4 = seed - XXH_PRIME64_1, xxh_total_len = 0,
      xxh_buf = map stale [0..<32], xxh_buf_len = 0, xxh_seed = seed\<rparr>"

definition xxh_lanes_of :: "vv_xxh64_state_t \<Rightarrow> xxh_lanes" where
  "xxh_lanes_of s = (xxh_v1 s, xxh_v2 s, xxh_v3 s, xxh_v4 s)"

definition xxh_set_lanes :: "xxh_lanes \<Rightarrow> vv_xxh64_state_t \<Rightarrow> vv_xxh64_state_t" where
  "xxh_set_lanes v s =
     (case v of (v1, v2, v3, v4) \<Rightarrow> s\<lparr>xxh_v1 := v1, xxh_v2 := v2, xxh_v3 := v3, xxh_v4 := v4\<rparr>)"

text \<open>\<open>while (remaining >= 32)\<close>, then the trailing bytes go to the buffer.\<close>

function xxh_chunks :: "xxh_lanes \<Rightarrow> bytes \<Rightarrow> xxh_lanes \<times> bytes" where
  "xxh_chunks v p = (if length p \<ge> 32 then xxh_chunks (xxh_stripe v p) (drop 32 p) else (v, p))"
  by pat_completeness auto
termination by (relation "measure (\<lambda>(v, p). length p)") auto

declare xxh_chunks.simps [simp del]

definition xxh_bulk :: "vv_xxh64_state_t \<Rightarrow> bytes \<Rightarrow> vv_xxh64_state_t" where
  "xxh_bulk s p =
     (let (v, p) = xxh_chunks (xxh_lanes_of s) p; s = xxh_set_lanes v s in
      if length p > 0 then
        s\<lparr>xxh_buf := buf_write (xxh_buf s) (xxh_buf_len s) p,
          xxh_buf_len := xxh_buf_len s + length p\<rparr>
      else s)"

definition vv_xxh64_update :: "vv_xxh64_state_t \<Rightarrow> bytes \<Rightarrow> vv_xxh64_state_t" where
  "vv_xxh64_update s d =
     (if length d = 0 then s
      else
        let s = s\<lparr>xxh_total_len := xxh_total_len s + word_of_nat (length d)\<rparr> in
        if xxh_buf_len s > 0 then
          let fill = 32 - xxh_buf_len s;
              fill = (if fill > length d then length d else fill);
              s = s\<lparr>xxh_buf := buf_write (xxh_buf s) (xxh_buf_len s) (take fill d),
                    xxh_buf_len := xxh_buf_len s + fill\<rparr> in
          if xxh_buf_len s < 32 then s
          else
            let s = (xxh_set_lanes (xxh_stripe (xxh_lanes_of s) (xxh_buf s)) s)\<lparr>xxh_buf_len := 0\<rparr> in
            xxh_bulk s (drop fill d)
        else xxh_bulk s d)"

definition vv_xxh64_finalize :: "vv_xxh64_state_t \<Rightarrow> u64" where
  "vv_xxh64_finalize s =
     (let h = (if xxh_total_len s \<ge> 32 then xxh_converge (xxh_lanes_of s)
               else xxh_seed s + XXH_PRIME64_5);
          h = xxh_finish (h + xxh_total_len s) (take (xxh_buf_len s) (xxh_buf s)) in
      xxh_avalanche h)"

section \<open>The two one-shot functions agree\<close>

lemma rotl64_eq: "rotl64 = xxh_rotl64"
  by (intro ext) (simp add: rotl64_def xxh_rotl64_def)

lemma xround_eq: "xround = xxh_round"
  by (intro ext) (simp add: xround_def xxh_round_def rotl64_eq)

lemma xmerge_eq: "xmerge = xxh_merge_round"
  by (intro ext) (simp add: xmerge_def xxh_merge_round_def xround_eq)

lemma aval_eq: "aval = xxh_avalanche"
  by (intro ext) (simp add: aval_def xxh_avalanche_def)

lemma xxh_do_loop_eq: "xxh_do_loop v p = xxh_stripes v p"
  by (induction v p rule: xxh_do_loop.induct)
     (subst xxh_do_loop.simps, subst xxh_stripes.simps,
      simp add: xround_eq xxh_stripe_def Let_def split: prod.split)

lemma xxh_loop8_eq: "xxh_loop8 h p = xxh_tail8 h p"
  by (induction h p rule: xxh_loop8.induct)
     (subst xxh_loop8.simps, subst xxh_tail8.simps,
      simp add: xround_eq rotl64_eq xxh_round_def Let_def)

lemma xxh_loop1_eq: "xxh_loop1 h p = xxh_tail1 h p"
  by (induction h p rule: xxh_loop1.induct) (simp_all add: rotl64_eq)

lemma xxh_tail8_rest: "xxh_tail8 h p = (h', p') \<Longrightarrow> length p' < 8"
proof (induction h p rule: xxh_tail8.induct)
  case (1 h p)
  then show ?case
    by (cases "8 \<le> length p") (simp_all add: xxh_tail8.simps [of h p] Let_def)
qed

lemma xxh_tail4_short: "length p < 4 \<Longrightarrow> xxh_tail4 h p = (h, p)"
  by (subst xxh_tail4.simps) simp

text \<open>Fewer than eight bytes: the loop that reads four bytes runs at most once.\<close>

lemma xxh_tail4_once:
  "length p < 8 \<Longrightarrow> xxh_tail4 h p =
     (if 4 \<le> length p then
        (xxh_rotl64 (h XOR ucast (zupt_le32_get p) * XXH_PRIME64_1) 23 * XXH_PRIME64_2
           + XXH_PRIME64_3, drop 4 p)
      else (h, p))"
  by (subst xxh_tail4.simps) (simp add: xxh_tail4_short Let_def)

lemma zupt_xxh64_eq: "zupt_xxh64 d seed = vv_xxh64 d seed"
proof (cases "d = []")
  case True
  show ?thesis
    by (simp add: True zupt_xxh64_def vv_xxh64_def xxh_loop8_eq xxh_loop1_eq xxh_tail8.simps aval_eq)
next
  case False
  obtain v1 v2 v3 v4 p where s:
    "xxh_stripes (seed + XXH_PRIME64_1 + XXH_PRIME64_2, seed + XXH_PRIME64_2, seed, seed - XXH_PRIME64_1) d
       = ((v1, v2, v3, v4), p)"
    by (metis surj_pair)
  have fin: "xxh_avalanche (xxh_finish h q) =
      aval (case xxh_loop8 h q of (h, p) \<Rightarrow>
        case (if 4 \<le> length p then
               (rotl64 (h XOR ucast (zupt_le32_get p) * XXH_PRIME64_1) 23 * XXH_PRIME64_2
                  + XXH_PRIME64_3, drop 4 p)
             else (h, p)) of (h, p) \<Rightarrow> xxh_loop1 h p)" for h q
  proof -
    obtain h' q' where t: "xxh_tail8 h q = (h', q')" by fastforce
    show ?thesis
      unfolding xxh_finish_def xxh_loop8_eq t Let_def prod.case xxh_tail4_once [OF xxh_tail8_rest [OF t]]
      by (simp add: aval_eq rotl64_eq xxh_loop1_eq)
  qed
  show ?thesis
    unfolding zupt_xxh64_def vv_xxh64_def xxh_do_loop_eq
    using False s
    by (simp add: fin Let_def xxh_lanes0_def xxh_converge_def xmerge_eq rotl64_eq split: prod.split)
qed

section \<open>The streaming form\<close>

lemma xxh_chunks_short: "length p < 32 \<Longrightarrow> xxh_chunks v p = (v, p)"
  by (subst xxh_chunks.simps) simp

lemma xxh_chunks_append:
  "length a mod 32 = 0 \<Longrightarrow> xxh_chunks v (a @ b) = xxh_chunks (fst (xxh_chunks v a)) b"
proof (induction v a rule: xxh_chunks.induct)
  case (1 v a)
  show ?case
  proof (cases "length a < 32")
    case True
    then have "a = []" using 1(2) by (cases a) auto
    then show ?thesis by (simp add: xxh_chunks_short)
  next
    case False
    then have "length (drop 32 a) mod 32 = 0" using 1(2) by (simp add: le_mod_geq)
    moreover have "xxh_stripe v (a @ b) = xxh_stripe v a"
      using False by (simp add: xxh_stripe_def zupt_le64_get_def split: prod.split)
    ultimately show ?thesis
      using False 1(1) by (simp add: xxh_chunks.simps [of v "a @ b"] xxh_chunks.simps [of v a])
  qed
qed

lemma xxh_chunks_blocks: "xxh_chunks v p = (fst (xxh_chunks v (whole_blocks 32 p)), pending 32 p)"
proof -
  have "xxh_chunks v (whole_blocks 32 p @ pending 32 p) =
      (fst (xxh_chunks v (whole_blocks 32 p)), pending 32 p)"
    by (simp only: xxh_chunks_append [of "whole_blocks 32 p" v "pending 32 p"]
        length_whole_blocks mod_mult_self2_is_0)
       (rule xxh_chunks_short, simp add: length_pending)
  then show ?thesis by (simp only: whole_pending)
qed

lemma xxh_stripes_chunks: "32 \<le> length p \<Longrightarrow> xxh_stripes v p = xxh_chunks v p"
proof (induction v p rule: xxh_stripes.induct)
  case (1 v p)
  show ?case
  proof (cases "32 \<le> length (drop 32 p)")
    case True
    with 1 show ?thesis
      by (subst xxh_stripes.simps, subst xxh_chunks.simps) (simp add: Let_def)
  next
    case False
    with 1 show ?thesis
      by (subst xxh_stripes.simps, subst xxh_chunks.simps) (simp add: Let_def xxh_chunks_short)
  qed
qed

text \<open>What a state stands for: the message fed so far.\<close>

definition xxh_repr :: "u64 \<Rightarrow> vv_xxh64_state_t \<Rightarrow> bytes \<Rightarrow> bool" where
  "xxh_repr seed s m \<longleftrightarrow>
     xxh_lanes_of s = fst (xxh_chunks (xxh_lanes0 seed) (whole_blocks 32 m)) \<and>
     xxh_total_len s = word_of_nat (length m) \<and> xxh_seed s = seed \<and> length (xxh_buf s) = 32 \<and>
     xxh_buf_len s = length m mod 32 \<and> take (length m mod 32) (xxh_buf s) = pending 32 m"

text \<open>
  The hash the streaming form computes: the short or long start value is chosen by the 64-bit
  length, which wraps for a message of \<open>2 ^ 64\<close> bytes or more.
\<close>

definition xxh_stream :: "u64 \<Rightarrow> bytes \<Rightarrow> u64" where
  "xxh_stream seed m =
     (let n = word_of_nat (length m);
          h = (if n \<ge> 32 then xxh_converge (fst (xxh_chunks (xxh_lanes0 seed) m))
               else seed + XXH_PRIME64_5) in
      xxh_avalanche (xxh_finish (h + n) (pending 32 m)))"

lemma xxh_stream_one_shot:
  assumes "length m < 2 ^ 64" shows "xxh_stream seed m = vv_xxh64 m seed"
proof -
  have n: "(32 :: u64) \<le> word_of_nat (length m) \<longleftrightarrow> 32 \<le> length m"
    using assms by (simp add: word_le_nat_alt unat_of_nat)
  show ?thesis
  proof (cases "32 \<le> length m")
    case True
    then have "m \<noteq> []" by auto
    moreover obtain v p where s: "xxh_chunks (xxh_lanes0 seed) m = (v, p)" by fastforce
    moreover have "p = pending 32 m" using xxh_chunks_blocks [of "xxh_lanes0 seed" m] s by simp
    ultimately show ?thesis using True
      by (simp add: xxh_stream_def vv_xxh64_def n xxh_stripes_chunks)
  next
    case False
    then show ?thesis
      by (simp add: xxh_stream_def vv_xxh64_def n pending_small xxh_finish_def
          xxh_tail8.simps [of _ "[]"] xxh_tail4.simps [of _ "[]"])
  qed
qed

lemma xxh_repr_init: "xxh_repr seed (vv_xxh64_init stale seed) []"
  by (simp add: xxh_repr_def vv_xxh64_init_def xxh_lanes_of_def xxh_lanes0_def xxh_chunks_short)

lemma xxh_lanes_of_set [simp]: "xxh_lanes_of (xxh_set_lanes v s) = v"
  by (cases v) (simp add: xxh_lanes_of_def xxh_set_lanes_def)

lemma xxh_lanes_of_update [simp]:
  "xxh_lanes_of (s\<lparr>xxh_total_len := a\<rparr>) = xxh_lanes_of s"
  "xxh_lanes_of (s\<lparr>xxh_buf := b\<rparr>) = xxh_lanes_of s"
  "xxh_lanes_of (s\<lparr>xxh_buf_len := n\<rparr>) = xxh_lanes_of s"
  by (simp_all add: xxh_lanes_of_def)

lemma xxh_set_lanes_fields [simp]:
  "xxh_total_len (xxh_set_lanes v s) = xxh_total_len s" "xxh_buf (xxh_set_lanes v s) = xxh_buf s"
  "xxh_buf_len (xxh_set_lanes v s) = xxh_buf_len s" "xxh_seed (xxh_set_lanes v s) = xxh_seed s"
  by (cases v; simp add: xxh_set_lanes_def)+

lemma xxh_repr_final: "xxh_repr seed s m \<Longrightarrow> vv_xxh64_finalize s = xxh_stream seed m"
  using xxh_chunks_blocks [of "xxh_lanes0 seed" m]
  by (simp add: xxh_repr_def vv_xxh64_finalize_def xxh_stream_def Let_def)

text \<open>
  The part after the buffer is empty. The length counter is advanced first in the code, so the
  lemma speaks of a state that already counts \<open>d\<close>.
\<close>

lemma xxh_bulk_repr:
  assumes "xxh_lanes_of s = fst (xxh_chunks (xxh_lanes0 seed) m)" "length m mod 32 = 0"
    "xxh_total_len s = word_of_nat (length (m @ d))" "xxh_seed s = seed" "length (xxh_buf s) = 32"
    "xxh_buf_len s = 0"
  shows "xxh_repr seed (xxh_bulk s d) (m @ d)"
proof -
  have u: "whole_blocks 32 (m @ d) = m @ whole_blocks 32 d" "pending 32 (m @ d) = pending 32 d"
    using blocks_unique [of "m @ d" "m @ whole_blocks 32 d" "pending 32 d" 32] assms(2)
    by (simp_all add: whole_pending length_pending length_whole_blocks)
  have l: "length (m @ d) mod 32 = length d mod 32" using assms(2) by (simp add: mod_add_eq flip: mod_add_left_eq)
  have lp: "length (pending 32 d) = length d mod 32" by (simp add: length_pending)
  then have le: "length (pending 32 d) \<le> 32" by simp
  have ch: "xxh_chunks (xxh_lanes_of s) d =
      (fst (xxh_chunks (xxh_lanes0 seed) (m @ whole_blocks 32 d)), pending 32 d)"
    using xxh_chunks_append [OF assms(2), of "xxh_lanes0 seed"]
      xxh_chunks_blocks [of "xxh_lanes_of s" d] assms(1) by simp
  show ?thesis
    unfolding xxh_repr_def xxh_bulk_def ch u l
    using assms lp le take_buf_write [of 0 "xxh_buf s" "pending 32 d"]
    by (auto simp: Let_def)
qed

lemma xxh_repr_update:
  assumes "xxh_repr seed s m" shows "xxh_repr seed (vv_xxh64_update s d) (m @ d)"
proof -
  define off where "off = length m mod 32"
  have off: "off < 32" and lp: "length (pending 32 m) = off" by (simp_all add: off_def length_pending)
  define s1 where "s1 = s\<lparr>xxh_total_len := xxh_total_len s + word_of_nat (length d)\<rparr>"
  have r: "xxh_lanes_of s1 = fst (xxh_chunks (xxh_lanes0 seed) (whole_blocks 32 m))"
    "xxh_total_len s1 = word_of_nat (length (m @ d))" "xxh_seed s1 = seed" "length (xxh_buf s1) = 32"
    "xxh_buf_len s1 = off" "take off (xxh_buf s1) = pending 32 m"
    using assms by (simp_all add: xxh_repr_def s1_def off_def)
  consider "d = []" | "d \<noteq> []" "off = 0" | "d \<noteq> []" "0 < off" "off + length d < 32"
    | "d \<noteq> []" "0 < off" "32 \<le> off + length d" by fastforce
  then show ?thesis
  proof cases
    case 1
    with assms show ?thesis by (simp add: vv_xxh64_update_def)
  next
    case 2
    then have m: "whole_blocks 32 m = m" using whole_pending [of 32 m] lp by simp
    have upd: "vv_xxh64_update s d = xxh_bulk s1 d"
      using 2 r(5) unfolding vv_xxh64_update_def Let_def s1_def by simp
    show ?thesis unfolding upd
      using r m 2 by (intro xxh_bulk_repr) (simp_all add: off_def)
  next
    case 3
    have p: "length (pending 32 m) + length d < 32" using 3 lp by simp
    note b = blocks_more [OF p]
    have l: "length (m @ d) mod 32 = off + length d"
      using arg_cong [OF b(2), of length] lp by (simp only: length_pending length_append)
    have f: "(if 32 - off > length d then length d else 32 - off) = length d" using 3 by auto
    let ?s = "s1\<lparr>xxh_buf := buf_write (xxh_buf s1) off d, xxh_buf_len := off + length d\<rparr>"
    have upd: "vv_xxh64_update s d = ?s"
      using 3 f r(5) unfolding vv_xxh64_update_def Let_def s1_def [symmetric] by simp
    show ?thesis unfolding upd xxh_repr_def l b
      using r 3 take_buf_write [of off "xxh_buf s1" d] by simp
  next
    case 4
    define t where "t = take (32 - off) d"
    have lt: "length t = 32 - off" using 4 by (simp add: t_def)
    have f: "(if 32 - off > length d then length d else 32 - off) = 32 - off" using 4 by auto
    let ?b = "buf_write (xxh_buf s1) off t"
    have b: "?b = pending 32 m @ t" using r lt off by (simp add: buf_write_def)
    have l32: "length (pending 32 m @ t) = 32" using lp lt off by simp
    then have "length (pending 32 m @ t) mod 32 = 0" by simp
    note blk = blocks_append [OF this zero_less_numeral]
    have z: "length (m @ t) mod 32 = 0"
      using arg_cong [OF blk(2), of length] by (simp only: length_pending list.size)
    have mt: "whole_blocks 32 (m @ t) = m @ t" using whole_pending [of 32 "m @ t"] blk(2) by simp
    let ?s2 = "s1\<lparr>xxh_buf := ?b, xxh_buf_len := off + (32 - off)\<rparr>"
    let ?s3 = "(xxh_set_lanes (xxh_stripe (xxh_lanes_of s1) ?b) ?s2)\<lparr>xxh_buf_len := 0\<rparr>"
    have upd: "vv_xxh64_update s d = xxh_bulk ?s3 (drop (32 - off) d)"
      using 4 f r(5) off unfolding vv_xxh64_update_def Let_def s1_def [symmetric] t_def by simp
    have one: "fst (xxh_chunks v ?b) = xxh_stripe v ?b" for v
      using l32 b by (subst xxh_chunks.simps) (simp add: xxh_chunks_short)
    have lanes: "xxh_lanes_of ?s3 = fst (xxh_chunks (xxh_lanes0 seed) (m @ t))"
    proof -
      have "m @ t = whole_blocks 32 m @ ?b" using blk(1) mt b by simp
      then have "fst (xxh_chunks (xxh_lanes0 seed) (m @ t)) =
          fst (xxh_chunks (fst (xxh_chunks (xxh_lanes0 seed) (whole_blocks 32 m))) ?b)"
        using xxh_chunks_append [of "whole_blocks 32 m" "xxh_lanes0 seed" ?b]
        by (simp only: length_whole_blocks mod_mult_self2_is_0)
      then show ?thesis by (simp add: one r(1))
    qed
    have md: "(m @ t) @ drop (32 - off) d = m @ d" by (simp add: t_def)
    have "xxh_repr seed (xxh_bulk ?s3 (drop (32 - off) d)) ((m @ t) @ drop (32 - off) d)"
    proof (rule xxh_bulk_repr [OF lanes z])
      show "xxh_total_len ?s3 = word_of_nat (length ((m @ t) @ drop (32 - off) d))"
        unfolding md by (simp add: r(2))
      show "length (xxh_buf ?s3) = 32" using l32 b by simp
    qed (simp_all add: r(3))
    then show ?thesis unfolding upd md .
  qed
qed

interpretation xxh64: stream_hash "xxh_repr seed" "vv_xxh64_init stale seed" vv_xxh64_update
    vv_xxh64_finalize "xxh_stream seed"
  for stale seed
  by unfold_locales (simp_all add: xxh_repr_init xxh_repr_update xxh_repr_final)

text \<open>
  C35. The archive's XXH64 and the codec's XXH64 are one function: on every input the two
  independent implementations return the same value, and the streaming form returns it too,
  however the message is cut into pieces, for every message of fewer than \<open>2 ^ 64\<close> bytes and
  whatever the uninitialised buffer held.
\<close>

theorem xxh64_implementations_agree:
  assumes "length (concat ds) < 2 ^ 64"
  shows "vv_xxh64_finalize (foldl vv_xxh64_update (vv_xxh64_init stale seed) ds) = zupt_xxh64 (concat ds) seed \<and>
    vv_xxh64 (concat ds) seed = zupt_xxh64 (concat ds) seed"
  using xxh_stream_one_shot [OF assms] by (simp add: xxh64.segments zupt_xxh64_eq)

theorem xxh64_implementations_agree_witness:
  "vv_xxh64_finalize (foldl vv_xxh64_update (vv_xxh64_init (\<lambda>_. 0) 7) [[1, 2], [], [3]]) =
     zupt_xxh64 [1, 2, 3] 7"
  using xxh64_implementations_agree [of "[[1, 2], [], [3]]" "\<lambda>_. 0" 7] by simp

end
