(* ===== verification/Vv.thy ===== *)
theory Vv
  imports Bcj Xxh64
begin

text \<open>
  The frame layer of the VaptVupt codec and its adapter: the frame loop of
  \<open>vv_decompress_flags\<close> (\<open>src/vv_decoder.c\<close>) and \<open>vvz_compress\<close>, \<open>vvz_decompress\<close>
  (\<open>src/vaptvupt_api.c\<close>). What is not modelled is inside a block: the decoders of
  \<open>VV_BLOCK_COMPRESSED\<close> and \<open>VV_BLOCK_ENTROPY\<close> payloads (\<open>vv_block_decoders\<close>) and the encoder
  \<open>vv_compress\<close> (\<open>vv_engine\<close>) are arguments, functions of which nothing is assumed.

  The archive uses the decoder in two ways. \<open>vvz_decompress\<close> skips the checksum of a frame's
  footer, \<open>vv_decompress\<close> compares it. The lemmas say how the two are related, and that what
  \<open>vvz_compress\<close> returns is decoded to its input, because it decodes it itself.
\<close>

section \<open>Headers\<close>

datatype vv_error_t =
    VV_ERR_IO | VV_ERR_CORRUPT | VV_ERR_NOMEM | VV_ERR_OVERFLOW | VV_ERR_BAD_MAGIC | VV_ERR_PARAM

datatype vv_block_type_t = VV_BLOCK_RAW | VV_BLOCK_COMPRESSED | VV_BLOCK_RLE | VV_BLOCK_ENTROPY

definition vv_bh_type :: "u32 \<Rightarrow> vv_block_type_t" where
  "vv_bh_type h =
     (if h AND 3 = 0 then VV_BLOCK_RAW else if h AND 3 = 1 then VV_BLOCK_COMPRESSED
      else if h AND 3 = 2 then VV_BLOCK_RLE else VV_BLOCK_ENTROPY)"

definition vv_bh_last :: "u32 \<Rightarrow> bool" where
  "vv_bh_last h \<longleftrightarrow> drop_bit 2 h AND 1 \<noteq> 0"

definition vv_bh_size :: "u32 \<Rightarrow> nat" where
  "vv_bh_size h = unat (drop_bit 3 h AND 0x1FFFFF)"

definition VV_MAX_BLOCK_SIZE :: nat where
  "VV_MAX_BLOCK_SIZE = 2 ^ 20"

record vv_frame_header_t =
  fh_magic :: u32
  fh_version :: u8
  fh_flags :: u8
  fh_mode_hint :: u8
  fh_window_log :: u8
  fh_content_size :: u64

definition vv_read_header :: "bytes \<Rightarrow> vv_frame_header_t" where
  "vv_read_header p =
     \<lparr>fh_magic = zupt_le32_get p, fh_version = p ! 4, fh_flags = p ! 5, fh_mode_hint = p ! 6,
      fh_window_log = p ! 7, fh_content_size = zupt_le64_get (drop 8 p)\<rparr>"

definition frame_max_offset :: "u8 \<Rightarrow> nat option" where
  "frame_max_offset window_log =
     (if unat window_log < 10 \<or> unat window_log > 24 then None
      else
        let limit = (if window_log = 24 then 0xFFFFFF else 2 ^ unat window_log);
            limit = (if limit > 0xFFFFFF then 0xFFFFFF else limit);
            limit = (if unat window_log \<le> 16 \<and> limit > 0xFFFF then 0xFFFF else limit) in
        Some limit)"

section \<open>Decoding frames\<close>

text \<open>
  The decoders of a block's payload. They are given the payload, the announced size, the width of
  an offset (not the sequence decoders), the frame's output so far (which matches may refer to)
  and the largest offset, and return an error or the bytes they produced.
\<close>

type_synonym vv_block_decoder = "bytes \<Rightarrow> nat \<Rightarrow> nat \<Rightarrow> bytes \<Rightarrow> nat \<Rightarrow> vv_error_t + bytes"
type_synonym vv_sequence_decoder = "bytes \<Rightarrow> nat \<Rightarrow> bytes \<Rightarrow> nat \<Rightarrow> vv_error_t + bytes"

record vv_block_decoders =
  decode_block_tokens :: vv_block_decoder
  decode_block_ans :: vv_block_decoder
  decode_block_ans4 :: vv_block_decoder
  decode_block_ctx :: vv_block_decoder
  vva_decode_sequences :: vv_sequence_decoder
  vva_decode_sequences_v2 :: vv_sequence_decoder
  decode_block_huffman :: vv_block_decoder

text \<open>A decoder's output has to fill the announced size.\<close>

definition vv_filled :: "nat \<Rightarrow> vv_error_t + bytes \<Rightarrow> vv_error_t + bytes" where
  "vv_filled dsz r = (case r of Inl e \<Rightarrow> Inl e | Inr out \<Rightarrow> if length out \<noteq> dsz then Inl VV_ERR_CORRUPT else Inr out)"

definition any_corrupt :: "vv_error_t + bytes \<Rightarrow> vv_error_t + bytes" where
  "any_corrupt r = (case r of Inl _ \<Rightarrow> Inl VV_ERR_CORRUPT | Inr out \<Rightarrow> Inr out)"

definition vv_decode_entropy ::
  "vv_block_decoders \<Rightarrow> u8 \<Rightarrow> vv_block_decoder" where
  "vv_decode_entropy bd tag bdata dsz off_bytes hist max_offset =
     (if tag = 0x41 then decode_block_ans bd bdata dsz off_bytes hist max_offset
      else if tag = 0x49 then decode_block_ans4 bd bdata dsz off_bytes hist max_offset
      else if tag = 0x43 then decode_block_ctx bd bdata dsz off_bytes hist max_offset
      else if tag = 0x53 then any_corrupt (vva_decode_sequences bd bdata dsz hist max_offset)
      else if tag = 0x54 then any_corrupt (vva_decode_sequences_v2 bd bdata dsz hist max_offset)
      else if tag = 0x48 then decode_block_huffman bd bdata dsz off_bytes hist max_offset
      else Inl VV_ERR_CORRUPT)"

definition vv_read24 :: "bytes \<Rightarrow> nat" where
  "vv_read24 p = unat (ucast (p ! 0) OR push_bit 8 (ucast (p ! 1)) OR push_bit 16 (ucast (p ! 2)) :: u32)"

text \<open>
  One block: \<open>room\<close> is what is left of the output buffer, \<open>hist\<close> the frame's output so far, \<open>s\<close> the
  rest of the input. The result is whether the block was the last, its bytes, and the rest.
\<close>

definition vv_decode_block ::
  "vv_block_decoders \<Rightarrow> nat \<Rightarrow> nat \<Rightarrow> nat \<Rightarrow> bytes \<Rightarrow> bytes \<Rightarrow> vv_error_t + (bool \<times> bytes \<times> bytes)" where
  "vv_decode_block bd off_bytes max_offset room hist s =
     (if length s < 4 then Inl VV_ERR_CORRUPT
      else
        let bh_packed = zupt_le32_get s; ip = drop 4 s;
            dsz = vv_bh_size bh_packed;
            done = (\<lambda>used r. case vv_filled dsz r of
                      Inl e \<Rightarrow> Inl e | Inr out \<Rightarrow> Inr (vv_bh_last bh_packed, out, drop used ip)) in
        if dsz > VV_MAX_BLOCK_SIZE then Inl VV_ERR_OVERFLOW
        else if dsz > room then Inl VV_ERR_OVERFLOW
        else case vv_bh_type bh_packed of
          VV_BLOCK_RAW \<Rightarrow> if dsz > length ip then Inl VV_ERR_CORRUPT else done dsz (Inr (take dsz ip))
        | VV_BLOCK_RLE \<Rightarrow> if ip = [] then Inl VV_ERR_CORRUPT else done 1 (Inr (replicate dsz (ip ! 0)))
        | VV_BLOCK_COMPRESSED \<Rightarrow>
            if length ip < 3 then Inl VV_ERR_CORRUPT
            else
              let csz = vv_read24 ip in
              if csz > length ip - 3 then Inl VV_ERR_CORRUPT
              else done (3 + csz) (decode_block_tokens bd (take csz (drop 3 ip)) dsz off_bytes hist max_offset)
        | VV_BLOCK_ENTROPY \<Rightarrow>
            if length ip < 3 then Inl VV_ERR_CORRUPT
            else
              let csz = vv_read24 ip in
              if csz < 1 \<or> csz > length ip - 3 then Inl VV_ERR_CORRUPT
              else done (3 + csz)
                     (vv_decode_entropy bd (ip ! 3) (take (csz - 1) (drop 4 ip)) dsz off_bytes hist max_offset))"

lemma vv_decode_block_shrinks:
  "vv_decode_block bd ob mo room hist s = Inr (l, out, r) \<Longrightarrow> length r < length s"
  by (auto simp: vv_decode_block_def Let_def split: if_splits sum.splits vv_block_type_t.splits)

lemma vv_decode_block_room:
  "vv_decode_block bd ob mo room hist s = Inr (l, out, r) \<Longrightarrow> length out \<le> room"
  by (auto simp: vv_decode_block_def vv_filled_def Let_def split: if_splits sum.splits vv_block_type_t.splits)

text \<open>The blocks of a frame, up to the one marked as the last; \<open>cap\<close> is the room for the frame.\<close>

function vv_decode_blocks ::
  "vv_block_decoders \<Rightarrow> nat \<Rightarrow> nat \<Rightarrow> nat \<Rightarrow> bytes \<Rightarrow> bytes \<Rightarrow> vv_error_t + (bytes \<times> bytes)" where
  "vv_decode_blocks bd off_bytes max_offset cap hist s =
     (case vv_decode_block bd off_bytes max_offset (cap - length hist) hist s of
        Inl e \<Rightarrow> Inl e
      | Inr (is_last, out, r) \<Rightarrow>
          if is_last then Inr (hist @ out, r)
          else vv_decode_blocks bd off_bytes max_offset cap (hist @ out) r)"
  by pat_completeness auto
termination
  by (relation "measure (\<lambda>(bd, ob, mo, cap, hist, s). length s)") (auto dest: vv_decode_block_shrinks)

declare vv_decode_blocks.simps [simp del]

text \<open>The footer's checksum covers the bytes before the branch filter is undone.\<close>

definition vv_frame_footer :: "bool \<Rightarrow> bool \<Rightarrow> bytes \<Rightarrow> bytes \<Rightarrow> vv_error_t + bytes" where
  "vv_frame_footer skip has_checksum out s =
     (if \<not> has_checksum then Inr s
      else if length s < 12 then Inl VV_ERR_CORRUPT
      else if zupt_le32_get (drop 8 s) \<noteq> 0x56564E44 then Inl VV_ERR_CORRUPT
      else if \<not> skip \<and> vv_xxh64 out 0 \<noteq> zupt_le64_get s then Inl VV_ERR_CORRUPT
      else Inr (drop 12 s))"

definition vv_unfilter :: "u8 \<Rightarrow> bytes \<Rightarrow> bytes" where
  "vv_unfilter flags out =
     (let out = (if flags AND 4 \<noteq> 0 then fst (vv_bcj_x86 out 0 False) else out) in
      if flags AND 8 \<noteq> 0 then fst (vv_bcj_arm64 out 0 False) else out)"

definition vv_decode_frame ::
  "vv_block_decoders \<Rightarrow> bool \<Rightarrow> nat \<Rightarrow> bytes \<Rightarrow> vv_error_t + (bytes \<times> bytes)" where
  "vv_decode_frame bd skip cap s =
     (if length s < 16 then Inl VV_ERR_CORRUPT
      else
        let fh = vv_read_header s in
        if fh_magic fh \<noteq> 0x56560100 then Inl VV_ERR_BAD_MAGIC
        else if fh_version fh \<noteq> 1 then Inl VV_ERR_CORRUPT
        else if fh_flags fh AND 0x0C = 0x0C then Inl VV_ERR_CORRUPT
        else case frame_max_offset (fh_window_log fh) of
          None \<Rightarrow> Inl VV_ERR_CORRUPT
        | Some max_offset \<Rightarrow>
            (case vv_decode_blocks bd (if unat (fh_window_log fh) > 16 then 3 else 2) max_offset cap [] (drop 16 s) of
               Inl e \<Rightarrow> Inl e
             | Inr (out, r) \<Rightarrow>
                 (case vv_frame_footer skip (fh_flags fh AND 1 \<noteq> 0) out r of
                    Inl e \<Rightarrow> Inl e
                  | Inr r \<Rightarrow> Inr (vv_unfilter (fh_flags fh) out, r))))"

lemma vv_decode_blocks_shrinks:
  "vv_decode_blocks bd ob mo cap hist s = Inr (out, r) \<Longrightarrow> length r < length s"
proof (induction bd ob mo cap hist s rule: vv_decode_blocks.induct)
  case (1 bd ob mo cap hist s)
  obtain l x r1 where b: "vv_decode_block bd ob mo (cap - length hist) hist s = Inr (l, x, r1)"
    using 1(2) by (subst (asm) vv_decode_blocks.simps) (auto split: sum.splits)
  note sh = vv_decode_block_shrinks [OF b]
  show ?case
  proof (cases l)
    case True
    then show ?thesis using 1(2) sh by (subst (asm) vv_decode_blocks.simps) (simp add: b)
  next
    case False
    then have "vv_decode_blocks bd ob mo cap (hist @ x) r1 = Inr (out, r)"
      using 1(2) by (subst (asm) vv_decode_blocks.simps) (simp add: b)
    from 1(1) [OF b refl refl False this] sh show ?thesis by simp
  qed
qed

lemma vv_decode_blocks_room:
  "vv_decode_blocks bd ob mo cap hist s = Inr (out, r) \<Longrightarrow> length hist \<le> cap \<Longrightarrow> length out \<le> cap"
proof (induction bd ob mo cap hist s rule: vv_decode_blocks.induct)
  case (1 bd ob mo cap hist s)
  obtain l x r1 where b: "vv_decode_block bd ob mo (cap - length hist) hist s = Inr (l, x, r1)"
    using 1(2) by (subst (asm) vv_decode_blocks.simps) (auto split: sum.splits)
  have le: "length (hist @ x) \<le> cap" using vv_decode_block_room [OF b] 1(3) by simp
  show ?case
  proof (cases l)
    case True
    then show ?thesis using 1(2) le by (subst (asm) vv_decode_blocks.simps) (simp add: b)
  next
    case False
    then have "vv_decode_blocks bd ob mo cap (hist @ x) r1 = Inr (out, r)"
      using 1(2) by (subst (asm) vv_decode_blocks.simps) (simp add: b)
    from 1(1) [OF b refl refl False this le] show ?thesis .
  qed
qed

lemma vv_frame_footer_le: "vv_frame_footer skip c out s = Inr r \<Longrightarrow> length r \<le> length s"
  by (auto simp: vv_frame_footer_def split: if_splits)

lemma vv_decode_frame_cases:
  assumes "vv_decode_frame bd skip cap s = Inr (out, r)"
  obtains out0 r0 ob mo where "vv_decode_blocks bd ob mo cap [] (drop 16 s) = Inr (out0, r0)"
    "vv_frame_footer skip (fh_flags (vv_read_header s) AND 1 \<noteq> 0) out0 r0 = Inr r"
    "out = vv_unfilter (fh_flags (vv_read_header s)) out0"
  using assms by (auto simp: vv_decode_frame_def Let_def split: if_splits option.splits sum.splits)

lemma vv_decode_frame_shrinks: "vv_decode_frame bd skip cap s = Inr (out, r) \<Longrightarrow> length r < length s"
  by (elim vv_decode_frame_cases) (auto dest!: vv_decode_blocks_shrinks vv_frame_footer_le)

text \<open>The frames of the input, one after the other; \<open>out\<close> is what was produced so far.\<close>

function vv_frames :: "vv_block_decoders \<Rightarrow> bool \<Rightarrow> nat \<Rightarrow> bytes \<Rightarrow> bytes \<Rightarrow> vv_error_t + bytes" where
  "vv_frames bd skip dst_cap out s =
     (if s = [] then Inr out
      else case vv_decode_frame bd skip (dst_cap - length out) s of
        Inl e \<Rightarrow> Inl e
      | Inr (f, r) \<Rightarrow> vv_frames bd skip dst_cap (out @ f) r)"
  by pat_completeness auto
termination
  by (relation "measure (\<lambda>(bd, skip, cap, out, s). length s)") (auto dest: vv_decode_frame_shrinks)

declare vv_frames.simps [simp del]

definition vv_decompress_flags :: "vv_block_decoders \<Rightarrow> bool \<Rightarrow> bytes \<Rightarrow> nat \<Rightarrow> vv_error_t + bytes" where
  "vv_decompress_flags bd skip src dst_cap =
     (if length src < 16 then Inl VV_ERR_CORRUPT else vv_frames bd skip dst_cap [] src)"

definition vv_decompress :: "vv_block_decoders \<Rightarrow> bytes \<Rightarrow> nat \<Rightarrow> vv_error_t + bytes" where
  "vv_decompress bd src dst_cap = vv_decompress_flags bd False src dst_cap"

section \<open>The adapter\<close>

definition vvz_decompress :: "vv_block_decoders \<Rightarrow> bytes \<Rightarrow> nat \<Rightarrow> vv_error_t + bytes" where
  "vvz_decompress bd src dst_cap = vv_decompress_flags bd True src dst_cap"

datatype vv_mode_t = VV_MODE_ULTRA_FAST | VV_MODE_BALANCED | VV_MODE_EXTREME

record vv_options_t =
  vo_mode :: vv_mode_t
  vo_window_log :: u8
  vo_checksum :: int
  vo_verbose :: int
  vo_format_v2 :: int
  vo_compat_v246_5_decoder :: int
  vo_filter_x86 :: int
  vo_filter_arm64 :: int
  vo_filter_auto :: int
  vo_depth_override :: u32
  vo_accel :: u32
  vo_no_rep :: int

definition vv_default_options :: vv_options_t where
  "vv_default_options =
     \<lparr>vo_mode = VV_MODE_BALANCED, vo_window_log = 0, vo_checksum = 1, vo_verbose = 0, vo_format_v2 = 0,
      vo_compat_v246_5_decoder = 0, vo_filter_x86 = 0, vo_filter_arm64 = 0, vo_filter_auto = 0,
      vo_depth_override = 0, vo_accel = 0, vo_no_rep = 0\<rparr>"

definition vvz_options :: "int \<Rightarrow> vv_options_t" where
  "vvz_options level =
     (let opts = vv_default_options\<lparr>vo_checksum := 0, vo_compat_v246_5_decoder := 0\<rparr>;
          opts = (if level \<le> 2 then opts\<lparr>vo_mode := VV_MODE_ULTRA_FAST, vo_format_v2 := 0\<rparr>
                  else if level \<le> 7 then opts\<lparr>vo_mode := VV_MODE_BALANCED, vo_format_v2 := 0, vo_filter_auto := 1\<rparr>
                  else opts\<lparr>vo_mode := VV_MODE_EXTREME, vo_format_v2 := 0, vo_filter_auto := 1\<rparr>) in
      opts\<lparr>vo_window_log := 0\<rparr>)"

text \<open>
  The encoder \<open>vv_compress\<close>: the input, the size of the output buffer, the options. What it returns
  is decoded and compared before it is accepted; \<open>chk_ok\<close> is the allocation of the buffer for
  that.
\<close>

type_synonym vv_engine = "bytes \<Rightarrow> nat \<Rightarrow> vv_options_t \<Rightarrow> vv_error_t + bytes"

definition vvz_compress ::
  "vv_block_decoders \<Rightarrow> bool \<Rightarrow> vv_engine \<Rightarrow> bytes \<Rightarrow> nat \<Rightarrow> int \<Rightarrow> vv_error_t + bytes" where
  "vvz_compress bd chk_ok vv_compress src dst_cap level =
     (case vv_compress src dst_cap (vvz_options level) of
        Inl e \<Rightarrow> Inl e
      | Inr c \<Rightarrow>
          if c = [] then Inr []
          else if \<not> chk_ok then Inl VV_ERR_IO
          else case vv_decompress_flags bd True c (length src + 64) of
            Inl _ \<Rightarrow> Inl VV_ERR_IO
          | Inr y \<Rightarrow> if length y = length src \<and> y = src then Inr c else Inl VV_ERR_IO)"

text \<open>The callers look at the size only: \<open>None\<close> is a negative result.\<close>

definition vv_result :: "vv_error_t + bytes \<Rightarrow> bytes option" where
  "vv_result r = (case r of Inl _ \<Rightarrow> None | Inr y \<Rightarrow> Some y)"

lemma vv_result_Some [simp]: "vv_result r = Some y \<longleftrightarrow> r = Inr y"
  by (simp add: vv_result_def split: sum.splits)

lemma vv_result_simps [simp]: "vv_result (Inl e) = None" "vv_result (Inr y) = Some y"
  by (simp_all add: vv_result_def)

section \<open>Facts about the codec\<close>

text \<open>What the adapter returns is decoded to its input, whatever the engine did.\<close>

lemma vvz_compress_decodes:
  assumes "vvz_compress bd chk engine src cap level = Inr c" "c \<noteq> []"
  shows "vvz_decompress bd c (length src + 64) = Inr src"
  using assms by (auto simp: vvz_compress_def vvz_decompress_def split: sum.splits if_splits)

text \<open>Comparing the checksum only ever turns a result into \<open>VV_ERR_CORRUPT\<close>.\<close>

lemma vv_decode_frame_skip:
  "vv_decode_frame bd False cap s = vv_decode_frame bd True cap s \<or> vv_decode_frame bd False cap s = Inl VV_ERR_CORRUPT"
  by (auto simp: vv_decode_frame_def vv_frame_footer_def Let_def split: option.splits sum.splits)

lemma vv_frames_skip:
  "vv_frames bd False cap out s = vv_frames bd True cap out s \<or> vv_frames bd False cap out s = Inl VV_ERR_CORRUPT"
proof (induction bd "True" cap out s rule: vv_frames.induct)
  case (1 bd cap out s)
  show ?case
  proof (cases "s = []")
    case False
    consider "vv_decode_frame bd False (cap - length out) s = Inl VV_ERR_CORRUPT"
      | e where "vv_decode_frame bd False (cap - length out) s = Inl e" "vv_decode_frame bd True (cap - length out) s = Inl e"
      | f r where "vv_decode_frame bd False (cap - length out) s = Inr (f, r)" "vv_decode_frame bd True (cap - length out) s = Inr (f, r)"
      using vv_decode_frame_skip [of bd "cap - length out" s]
      by (cases "vv_decode_frame bd True (cap - length out) s") auto
    then show ?thesis
    proof cases
      case 1
      then show ?thesis using False by (simp add: vv_frames.simps [of bd False])
    next
      case 2
      then show ?thesis using False by (simp add: vv_frames.simps [of bd _ cap out s])
    next
      case 3
      then show ?thesis using False 1 [OF False 3(2) refl] by (simp add: vv_frames.simps [of bd _ cap out s])
    qed
  qed (simp add: vv_frames.simps)
qed

lemma vv_decompress_vvz:
  "vv_decompress bd c cap = vvz_decompress bd c cap \<or> vv_decompress bd c cap = Inl VV_ERR_CORRUPT"
  using vv_frames_skip by (auto simp: vv_decompress_def vvz_decompress_def vv_decompress_flags_def)

lemma vv_decompress_Inr: "vv_decompress bd c cap = Inr y \<Longrightarrow> vvz_decompress bd c cap = Inr y"
  using vv_decompress_vvz [of bd c cap] by auto

lemma length_vv_unfilter [simp]: "length (vv_unfilter flags out) = length out"
  by (simp add: vv_unfilter_def length_vv_bcj_x86 length_vv_bcj_arm64 Let_def)

lemma vv_frames_room: "vv_frames bd skip cap out s = Inr y \<Longrightarrow> length out \<le> cap \<Longrightarrow> length y \<le> cap"
proof (induction bd skip cap out s rule: vv_frames.induct)
  case (1 bd skip cap out s)
  show ?case
  proof (cases "s = []")
    case False
    then obtain f r where f: "vv_decode_frame bd skip (cap - length out) s = Inr (f, r)" "vv_frames bd skip cap (out @ f) r = Inr y"
      using 1(2) by (subst (asm) vv_frames.simps) (auto split: sum.splits)
    have "length f \<le> cap - length out"
      using f(1) by (elim vv_decode_frame_cases) (auto dest: vv_decode_blocks_room)
    with 1(1) [OF False f(1) refl f(2)] 1(3) show ?thesis by simp
  qed (use 1(2,3) in \<open>simp add: vv_frames.simps\<close>)
qed

text \<open>The decoder stays within its buffer, whatever the input and the block decoders produce.\<close>

lemma vvz_decompress_room: "vvz_decompress bd c cap = Inr y \<Longrightarrow> length y \<le> cap"
  by (auto simp: vvz_decompress_def vv_decompress_flags_def dest: vv_frames_room split: if_splits)

text \<open>The checksums that the frames of the input carry do not keep it from being decoded.\<close>

definition vv_checksums_ok :: "vv_block_decoders \<Rightarrow> bytes \<Rightarrow> nat \<Rightarrow> bool" where
  "vv_checksums_ok bd src dst_cap \<longleftrightarrow>
     (case vvz_decompress bd src dst_cap of Inl _ \<Rightarrow> True | Inr y \<Rightarrow> vv_decompress bd src dst_cap = Inr y)"

lemma vv_result_checksums: "vv_checksums_ok bd c cap \<Longrightarrow> vv_result (vv_decompress bd c cap) = vv_result (vvz_decompress bd c cap)"
  using vv_decompress_vvz [of bd c cap] by (auto simp: vv_checksums_ok_def split: sum.splits)

text \<open>A frame of one raw block whose footer holds the wrong checksum.\<close>

definition no_block_decoders :: vv_block_decoders where
  "no_block_decoders = \<lparr>decode_block_tokens = (\<lambda>_ _ _ _ _. Inl VV_ERR_CORRUPT), decode_block_ans = (\<lambda>_ _ _ _ _. Inl VV_ERR_CORRUPT),
     decode_block_ans4 = (\<lambda>_ _ _ _ _. Inl VV_ERR_CORRUPT), decode_block_ctx = (\<lambda>_ _ _ _ _. Inl VV_ERR_CORRUPT),
     vva_decode_sequences = (\<lambda>_ _ _ _. Inl VV_ERR_CORRUPT), vva_decode_sequences_v2 = (\<lambda>_ _ _ _. Inl VV_ERR_CORRUPT),
     decode_block_huffman = (\<lambda>_ _ _ _ _. Inl VV_ERR_CORRUPT)\<rparr>"

definition example_raw_frame :: "bool \<Rightarrow> bytes \<Rightarrow> bytes" where
  "example_raw_frame checksum footer =
     [0x00, 0x01, 0x56, 0x56, 1, if checksum then 1 else 0, 1, 10, 0, 0, 0, 0, 0, 0, 0, 0, 0x14, 0, 0, 0, 1, 2] @ footer"

lemma example_frame_checksum:
  "vvz_decompress bd (example_raw_frame True [0, 0, 0, 0, 0, 0, 0, 0, 0x44, 0x4E, 0x56, 0x56]) 66 = Inr [1, 2]"
  "vv_decompress bd (example_raw_frame True [0, 0, 0, 0, 0, 0, 0, 0, 0x44, 0x4E, 0x56, 0x56]) 66 = Inl VV_ERR_CORRUPT"
proof -
  have x: "vv_xxh64 [1, 2] 0 \<noteq> 0" by code_simp
  show "vvz_decompress bd (example_raw_frame True [0, 0, 0, 0, 0, 0, 0, 0, 0x44, 0x4E, 0x56, 0x56]) 66 = Inr [1, 2]"
    "vv_decompress bd (example_raw_frame True [0, 0, 0, 0, 0, 0, 0, 0, 0x44, 0x4E, 0x56, 0x56]) 66 = Inl VV_ERR_CORRUPT"
    using x by (simp_all add: vvz_decompress_def vv_decompress_def vv_decompress_flags_def example_raw_frame_def vv_frames.simps
        vv_decode_frame_def vv_read_header_def vv_decode_blocks.simps vv_decode_block_def zupt_le32_get_def zupt_le64_get_def
        vv_bh_size_def vv_bh_type_def vv_bh_last_def vv_filled_def VV_MAX_BLOCK_SIZE_def frame_max_offset_def
        vv_frame_footer_def vv_unfilter_def Let_def)
qed

end
