(* ===== verification/Wire.thy ===== *)
theory Wire
  imports Varint Aead Xxh64
begin

text \<open>
  The wire format of an archive (\<open>src/zupt_format.c\<close>, \<open>include/zupt.h\<close>): the 64-byte archive
  header, the 32-byte footer, the 32-byte integrity trailer (AIT) behind it, the frame of a
  block and the preface that a block's MAC covers. A file is a list of bytes; a \<open>FILE *\<close> that is
  being read is the list of bytes from its position on, one that is being written is the list
  of bytes written so far (writes succeed; a full disk is outside the model).

  Every reader here is exact: it returns a value and a rest precisely when the input is the
  serial form of the value followed by the rest. That is stated once as the interface
  \<open>stream_field\<close>, which is interpreted for bytes, little-endian fields, varints and block
  frames, and gives round trip, unique reading and rejection of every truncated input.
\<close>

section \<open>Constants\<close>

abbreviation (input) ZUPT_FORMAT_MAJOR :: u8 where "ZUPT_FORMAT_MAJOR \<equiv> 1"
abbreviation (input) ZUPT_FORMAT_MINOR :: u8 where "ZUPT_FORMAT_MINOR \<equiv> 6"
abbreviation (input) ZUPT_BLOCK_DATA :: u8 where "ZUPT_BLOCK_DATA \<equiv> 0x00"
abbreviation (input) ZUPT_BLOCK_INDEX :: u8 where "ZUPT_BLOCK_INDEX \<equiv> 0x02"
abbreviation (input) ZUPT_BLOCK_ENC_HEADER :: u8 where "ZUPT_BLOCK_ENC_HEADER \<equiv> 0x03"
abbreviation (input) ZUPT_BLOCK_DEDUP_REF :: u8 where "ZUPT_BLOCK_DEDUP_REF \<equiv> 0x04"
abbreviation (input) ZUPT_BLOCK_COMMENT :: u8 where "ZUPT_BLOCK_COMMENT \<equiv> 0x05"
abbreviation (input) ZUPT_BFLAG_ENCRYPTED :: u16 where "ZUPT_BFLAG_ENCRYPTED \<equiv> 1"
abbreviation (input) ZUPT_CODEC_STORE :: u16 where "ZUPT_CODEC_STORE \<equiv> 0x0000"
abbreviation (input) ZUPT_CODEC_ZUPT_LZ :: u16 where "ZUPT_CODEC_ZUPT_LZ \<equiv> 0x0008"
abbreviation (input) ZUPT_CODEC_ZUPT_LZH :: u16 where "ZUPT_CODEC_ZUPT_LZH \<equiv> 0x0009"
abbreviation (input) ZUPT_CODEC_ZUPT_LZHP :: u16 where "ZUPT_CODEC_ZUPT_LZHP \<equiv> 0x000A"
abbreviation (input) ZUPT_CODEC_VAPTVUPT :: u16 where "ZUPT_CODEC_VAPTVUPT \<equiv> 0x0010"
abbreviation (input) ZUPT_CODEC_AUTO :: u16 where "ZUPT_CODEC_AUTO \<equiv> 0xFFFF"

definition zupt_magic :: bytes where
  "zupt_magic = [0x5A, 0x55, 0x50, 0x54, 0x1A, 0x00]"

definition ZUPT_MAX_BLOCK_SZ :: nat where
  "ZUPT_MAX_BLOCK_SZ = 256 * 1024 * 1024"

section \<open>Reading and writing a stream\<close>

definition fread_exact :: "nat \<Rightarrow> bytes \<Rightarrow> (bytes \<times> bytes) result" where
  "fread_exact n s = (if n \<le> length s then Inr (take n s, drop n s) else Inl ZUPT_ERR_IO)"

definition zupt_w8 :: "u8 \<Rightarrow> bytes" where
  "zupt_w8 v = [v]"

definition zupt_w16le :: "u16 \<Rightarrow> bytes" where
  "zupt_w16le v = zupt_le16_put v"

definition zupt_w64le :: "u64 \<Rightarrow> bytes" where
  "zupt_w64le v = zupt_le64_put v"

definition r8 :: "bytes \<Rightarrow> (u8 \<times> bytes) result" where
  "r8 s = rbind (fread_exact 1 s) (\<lambda>(b, s). Inr (b ! 0, s))"

definition r16le :: "bytes \<Rightarrow> (u16 \<times> bytes) result" where
  "r16le s = rbind (fread_exact 2 s) (\<lambda>(b, s). Inr (zupt_le16_get b, s))"

definition r64le :: "bytes \<Rightarrow> (u64 \<times> bytes) result" where
  "r64le s = rbind (fread_exact 8 s) (\<lambda>(b, s). Inr (zupt_le64_get b, s))"

definition zupt_write_varint :: "u64 \<Rightarrow> bytes" where
  "zupt_write_varint v = zupt_encode_varint v"

text \<open>The stream decoder of \<open>zupt_read_varint\<close>: \<open>None\<close> is \<open>-1\<close>, end of file included.\<close>

fun read_varint_loop :: "bytes \<Rightarrow> nat \<Rightarrow> nat \<Rightarrow> u64 \<Rightarrow> (nat \<times> u64 \<times> bytes) option" where
  "read_varint_loop [] i shift v = None"
| "read_varint_loop (byte # s) i shift v =
     (if \<not> i < 10 then None
      else
        let payload = byte AND 0x7F in
        if i = 9 \<and> byte AND 0xFE \<noteq> 0 then None
        else
          let v' = v OR push_bit shift (ucast payload) in
          if byte AND 0x80 = 0 then
            (if i > 0 \<and> payload = 0 then None else Some (i + 1, v', s))
          else read_varint_loop s (i + 1) (shift + 7) v')"

definition zupt_read_varint :: "bytes \<Rightarrow> (nat \<times> u64 \<times> bytes) option" where
  "zupt_read_varint s = read_varint_loop s 0 0 0"

text \<open>A negative result is \<open>ZUPT_ERR_IO\<close> for \<open>read_block\<close>.\<close>

definition r_varint :: "bytes \<Rightarrow> (u64 \<times> bytes) result" where
  "r_varint s = (case zupt_read_varint s of None \<Rightarrow> Inl ZUPT_ERR_IO | Some (n, v, s) \<Rightarrow> Inr (v, s))"

section \<open>Block frames\<close>

record zupt_block_t =
  block_type :: u8
  codec_id :: u16
  block_flags :: u16
  uncompressed_size :: u64
  compressed_size :: u64
  checksum :: u64
  payload :: bytes

text \<open>
  The sequence of writes every producer of a block makes: magic, type, codec, flags, the two
  sizes, the checksum of the plain bytes, and the payload.
\<close>

definition write_preface :: "u8 \<Rightarrow> u16 \<Rightarrow> u16 \<Rightarrow> u64 \<Rightarrow> u64 \<Rightarrow> u64 \<Rightarrow> bytes" where
  "write_preface btype codec flags usize csize cksum =
     zupt_w8 0xBB @ zupt_w8 0x01 @ zupt_w8 btype @ zupt_w16le codec @ zupt_w16le flags @
     zupt_write_varint usize @ zupt_write_varint csize @ zupt_w64le cksum"

definition write_block :: "zupt_block_t \<Rightarrow> bytes" where
  "write_block b =
     write_preface (block_type b) (codec_id b) (block_flags b) (uncompressed_size b)
       (compressed_size b) (checksum b) @ payload b"

text \<open>\<open>alloc n\<close> tells whether \<open>malloc(n)\<close> succeeds.\<close>

definition read_block :: "(nat \<Rightarrow> bool) \<Rightarrow> bytes \<Rightarrow> (zupt_block_t \<times> bytes) result" where
  "read_block alloc s =
     rbind (fread_exact 2 s) (\<lambda>(m, s).
     if m ! 0 \<noteq> 0xBB \<or> m ! 1 \<noteq> 0x01 then Inl ZUPT_ERR_CORRUPT else
     rbind (r8 s) (\<lambda>(bt, s).
     rbind (r16le s) (\<lambda>(codec, s).
     rbind (r16le s) (\<lambda>(flags, s).
     rbind (r_varint s) (\<lambda>(usize, s).
     rbind (r_varint s) (\<lambda>(csize, s).
     rbind (r64le s) (\<lambda>(cksum, s).
     if unat csize > ZUPT_MAX_BLOCK_SZ + 4096 then Inl ZUPT_ERR_OVERFLOW else
     if unat usize > ZUPT_MAX_BLOCK_SZ then Inl ZUPT_ERR_OVERFLOW else
     if \<not> alloc (unat csize) then Inl ZUPT_ERR_NOMEM else
     rbind (fread_exact (unat csize) s) (\<lambda>(p, s).
     Inr (\<lparr>block_type = bt, codec_id = codec, block_flags = flags, uncompressed_size = usize,
           compressed_size = csize, checksum = cksum, payload = p\<rparr>, s)))))))))"

text \<open>
  The preface as additional data of the block's MAC: the fixed-width form of the six fields,
  from a block that was read and from the values a writer has.
\<close>

definition le_bytes :: "nat \<Rightarrow> u64 \<Rightarrow> bytes" where
  "le_bytes n v = map (\<lambda>i. ucast (drop_bit (i * 8) v)) [0..<n]"

definition zupt_serialize_preface_aad :: "zupt_block_t \<Rightarrow> bytes" where
  "zupt_serialize_preface_aad b =
     [block_type b,
      ucast (codec_id b AND 0xFF), ucast (drop_bit 8 (codec_id b) AND 0xFF),
      ucast (block_flags b AND 0xFF), ucast (drop_bit 8 (block_flags b) AND 0xFF)] @
     le_bytes 8 (uncompressed_size b) @ le_bytes 8 (compressed_size b) @ le_bytes 8 (checksum b)"

definition zupt_serialize_preface_aad_scalars :: "u8 \<Rightarrow> u16 \<Rightarrow> u16 \<Rightarrow> u64 \<Rightarrow> u64 \<Rightarrow> u64 \<Rightarrow> bytes" where
  "zupt_serialize_preface_aad_scalars btype codec flags usize csize cksum =
     [btype, ucast (codec AND 0xFF), ucast (drop_bit 8 codec AND 0xFF),
      ucast (flags AND 0xFF), ucast (drop_bit 8 flags AND 0xFF)] @
     le_bytes 8 usize @ le_bytes 8 csize @ le_bytes 8 cksum"

section \<open>Archive header, footer and integrity trailer\<close>

record zupt_archive_header_t =
  hdr_magic :: bytes
  version_major :: u8
  version_minor :: u8
  global_flags :: u32
  creation_time :: u64
  archive_id :: bytes
  encryption_header_off :: u64
  comment_offset :: u64
  hdr_reserved :: bytes

record zupt_footer_t =
  index_offset :: u64
  total_blocks :: u64
  archive_checksum :: u64
  footer_magic :: bytes
  footer_version :: u32

text \<open>The sizes of the array members, which the C types fix.\<close>

definition header_wf :: "zupt_archive_header_t \<Rightarrow> bool" where
  "header_wf h \<longleftrightarrow> length (hdr_magic h) = 6 \<and> length (archive_id h) = 16 \<and> length (hdr_reserved h) = 12"

definition footer_wf :: "zupt_footer_t \<Rightarrow> bool" where
  "footer_wf f \<longleftrightarrow> length (footer_magic f) = 4"

definition zupt_serialize_archive_header :: "zupt_archive_header_t \<Rightarrow> bytes" where
  "zupt_serialize_archive_header h =
     (let out = replicate 64 0;
          out = buf_write out 0 (hdr_magic h);
          out = out[6 := version_major h];
          out = out[7 := version_minor h];
          out = buf_write out 8 (zupt_le32_put (global_flags h));
          out = buf_write out 12 (zupt_le64_put (creation_time h));
          out = buf_write out 20 (archive_id h);
          out = buf_write out 36 (zupt_le64_put (encryption_header_off h));
          out = buf_write out 44 (zupt_le64_put (comment_offset h)) in
      buf_write out 52 (hdr_reserved h))"

definition zupt_serialize_footer :: "zupt_footer_t \<Rightarrow> bytes" where
  "zupt_serialize_footer f =
     (let out = replicate 32 0;
          out = buf_write out 0 (zupt_le64_put (index_offset f));
          out = buf_write out 8 (zupt_le64_put (total_blocks f));
          out = buf_write out 16 (zupt_le64_put (archive_checksum f));
          out = buf_write out 24 (footer_magic f) in
      buf_write out 28 (zupt_le32_put (footer_version f)))"

definition deserialize_archive_header :: "bytes \<Rightarrow> zupt_archive_header_t" where
  "deserialize_archive_header b =
     \<lparr>hdr_magic = take 6 b, version_major = b ! 6, version_minor = b ! 7,
      global_flags = zupt_le32_get (drop 8 b), creation_time = zupt_le64_get (drop 12 b),
      archive_id = take 16 (drop 20 b), encryption_header_off = zupt_le64_get (drop 36 b),
      comment_offset = zupt_le64_get (drop 44 b), hdr_reserved = take 12 (drop 52 b)\<rparr>"

definition deserialize_footer :: "bytes \<Rightarrow> zupt_footer_t" where
  "deserialize_footer b =
     \<lparr>index_offset = zupt_le64_get b, total_blocks = zupt_le64_get (drop 8 b),
      archive_checksum = zupt_le64_get (drop 16 b), footer_magic = take 4 (drop 24 b),
      footer_version = zupt_le32_get (drop 28 b)\<rparr>"

definition read_header :: "bytes \<Rightarrow> (zupt_archive_header_t \<times> bytes) result" where
  "read_header s =
     rbind (fread_exact 64 s) (\<lambda>(b, s).
     let h = deserialize_archive_header b in
     if hdr_magic h \<noteq> zupt_magic then Inl ZUPT_ERR_BAD_MAGIC
     else if version_major h \<noteq> ZUPT_FORMAT_MAJOR then Inl ZUPT_ERR_BAD_VERSION
     else Inr (h, s))"

definition ZEND :: bytes where
  "ZEND = [0x5A, 0x45, 0x4E, 0x44]"

text \<open>
  \<open>locate_footer_v15\<close> on the bytes of the whole file; the trailer comes back as \<open>Some\<close> when
  the file has one (\<open>has_ait\<close>).
\<close>

definition locate_footer_legacy :: "bytes \<Rightarrow> (zupt_footer_t \<times> bytes option) result" where
  "locate_footer_legacy f =
     (let ft = deserialize_footer (take 32 (drop (length f - 32) f)) in
      if footer_magic ft \<noteq> ZEND then Inl ZUPT_ERR_CORRUPT
      else if footer_version ft \<noteq> 1 then Inl ZUPT_ERR_BAD_VERSION
      else Inr (ft, None))"

definition locate_footer_v15 :: "bytes \<Rightarrow> (zupt_footer_t \<times> bytes option) result" where
  "locate_footer_v15 f =
     (if length f < 32 then Inl ZUPT_ERR_CORRUPT
      else if length f \<ge> 32 + 32 then
        let cand = deserialize_footer (take 32 (drop (length f - (32 + 32)) f)) in
        if footer_magic cand = ZEND \<and> footer_version cand = 1
        then Inr (cand, Some (take 32 (drop (length f - 32) f)))
        else locate_footer_legacy f
      else locate_footer_legacy f)"

text \<open>What the trailer covers, its value, and its verification.\<close>

definition ait_serialize_mac_input :: "zupt_archive_header_t \<Rightarrow> zupt_footer_t \<Rightarrow> bytes" where
  "ait_serialize_mac_input h f = zupt_serialize_archive_header h @ take 24 (zupt_serialize_footer f)"

abbreviation hmac_oneshot :: "bytes \<Rightarrow> bytes \<Rightarrow> bytes" where
  "hmac_oneshot key m \<equiv> zupt_hmac_sha256 (\<lambda>_. 0) (\<lambda>_. 0) (\<lambda>_. 0) key m"

definition zupt_format_ait_write ::
  "zupt_archive_header_t \<Rightarrow> zupt_footer_t \<Rightarrow> zupt_keyring_t option \<Rightarrow> bytes" where
  "zupt_format_ait_write h f kr =
     (let m = ait_serialize_mac_input h f in
      case kr of
        Some k \<Rightarrow> if active k then hmac_oneshot (mac_key k) m
                  else buf_write (replicate 32 0) 0 (le_bytes 8 (zupt_xxh64 m 0))
      | None \<Rightarrow> buf_write (replicate 32 0) 0 (le_bytes 8 (zupt_xxh64 m 0)))"

definition ait_verify ::
  "zupt_archive_header_t \<Rightarrow> zupt_footer_t \<Rightarrow> bytes \<Rightarrow> zupt_keyring_t option \<Rightarrow> unit result" where
  "ait_verify h f ait kr =
     (let m = ait_serialize_mac_input h f;
          plain = (if buf_write (replicate 32 0) 0 (le_bytes 8 (zupt_xxh64 m 0)) = ait
                   then Inr () else Inl ZUPT_ERR_BAD_CHECKSUM) in
      case kr of
        Some k \<Rightarrow>
          if active k then
            (if zupt_ct_memeq (hmac_oneshot (mac_key k) m) ait 32 \<noteq> 0
             then Inr () else Inl ZUPT_ERR_AUTH_FAIL)
          else plain
      | None \<Rightarrow> plain)"

section \<open>Exact readers\<close>

lemma fread_exact_iff: "fread_exact n s = Inr (a, r) \<longleftrightarrow> length a = n \<and> s = a @ r"
  by (auto simp: fread_exact_def)

lemma fread_exact_Inl: "fread_exact n s = Inl e \<longleftrightarrow> length s < n \<and> e = ZUPT_ERR_IO"
  by (auto simp: fread_exact_def)

lemma r8_iff: "r8 s = Inr (v, r) \<longleftrightarrow> s = zupt_w8 v @ r"
  by (cases s) (auto simp: r8_def fread_exact_def zupt_w8_def)

lemma r16le_iff: "r16le s = Inr (v, r) \<longleftrightarrow> s = zupt_w16le v @ r"
proof
  assume "r16le s = Inr (v, r)"
  then obtain b where "length b = 2" "s = b @ r" "v = zupt_le16_get b"
    by (auto simp: r16le_def rbind_Inr_iff fread_exact_iff)
  with le16_put_get [of b] show "s = zupt_w16le v @ r" by (simp add: zupt_w16le_def)
qed (simp add: r16le_def zupt_w16le_def fread_exact_def)

lemma r64le_iff: "r64le s = Inr (v, r) \<longleftrightarrow> s = zupt_w64le v @ r"
proof
  assume "r64le s = Inr (v, r)"
  then obtain b where "length b = 8" "s = b @ r" "v = zupt_le64_get b"
    by (auto simp: r64le_def rbind_Inr_iff fread_exact_iff)
  with le64_put_get [of b] show "s = zupt_w64le v @ r" by (simp add: zupt_w64le_def)
qed (simp add: r64le_def zupt_w64le_def fread_exact_def)

text \<open>The stream decoder is the buffer decoder, which reports how far it read.\<close>

lemma read_varint_loop_eq:
  "i \<le> 10 \<Longrightarrow> read_varint_loop s i shift v =
     map_option (\<lambda>(n, v). (n, v, drop (n - i) s)) (decode_varint_loop s i shift v) \<and>
   (case decode_varint_loop s i shift v of None \<Rightarrow> True | Some (n, _) \<Rightarrow> i < n)"
proof (induction s i shift v rule: read_varint_loop.induct)
  case (2 byte s i shift v)
  let ?v = "v OR push_bit shift (ucast (byte AND 0x7F))"
  show ?case
  proof (cases "i < 10 \<and> \<not> (i = 9 \<and> byte AND 0xFE \<noteq> 0) \<and> byte AND 0x80 \<noteq> 0")
    case True
    then have IH: "read_varint_loop s (i + 1) (shift + 7) ?v =
         map_option (\<lambda>(n, v). (n, v, drop (n - (i + 1)) s)) (decode_varint_loop s (i + 1) (shift + 7) ?v) \<and>
       (case decode_varint_loop s (i + 1) (shift + 7) ?v of None \<Rightarrow> True | Some (n, _) \<Rightarrow> i + 1 < n)"
      using 2(1) [OF _ refl] by simp
    have step: "read_varint_loop (byte # s) i shift v = read_varint_loop s (i + 1) (shift + 7) ?v"
      "decode_varint_loop (byte # s) i shift v = decode_varint_loop s (i + 1) (shift + 7) ?v"
      using True by (simp_all only: read_varint_loop.simps decode_varint_loop.simps Let_def)
         (simp_all del: read_varint_loop.simps decode_varint_loop.simps)
    show ?thesis unfolding step
      using IH by (cases "decode_varint_loop s (i + 1) (shift + 7) ?v")
        (auto simp: drop_Cons' simp del: read_varint_loop.simps decode_varint_loop.simps)
  next
    case False
    then show ?thesis using 2(2)
      by (auto simp: Let_def simp del: read_varint_loop.simps(1))
  qed
qed simp

lemma zupt_read_varint_eq:
  "zupt_read_varint s = map_option (\<lambda>(n, v). (n, v, drop n s)) (zupt_decode_varint s)"
  using read_varint_loop_eq [of 0 s 0 0] by (simp add: zupt_read_varint_def zupt_decode_varint_def)

lemma r_varint_iff: "r_varint s = Inr (v, r) \<longleftrightarrow> s = zupt_write_varint v @ r"
proof
  assume "r_varint s = Inr (v, r)"
  then obtain n where n: "zupt_decode_varint s = Some (n, v)" "r = drop n s"
    by (auto simp: r_varint_def zupt_read_varint_eq split: option.splits)
  with zupt_decode_varint_Some [OF n(1)] show "s = zupt_write_varint v @ r"
    by (metis append_take_drop_id zupt_write_varint_def)
qed (simp add: r_varint_def zupt_read_varint_eq zupt_write_varint_def zupt_decode_encode_varint)

lemma r8_Inl: "r8 s = Inl e \<Longrightarrow> e = ZUPT_ERR_IO"
  by (auto simp: r8_def fread_exact_def split: if_splits)
lemma r16le_Inl: "r16le s = Inl e \<Longrightarrow> e = ZUPT_ERR_IO"
  by (auto simp: r16le_def fread_exact_def split: if_splits)
lemma r64le_Inl: "r64le s = Inl e \<Longrightarrow> e = ZUPT_ERR_IO"
  by (auto simp: r64le_def fread_exact_def split: if_splits)
lemma r_varint_Inl: "r_varint s = Inl e \<Longrightarrow> e = ZUPT_ERR_IO"
  by (auto simp: r_varint_def split: option.splits)

lemmas stream_iffs = fread_exact_iff r8_iff r16le_iff r64le_iff r_varint_iff
lemmas stream_Inls = fread_exact_Inl r8_Inl r16le_Inl r64le_Inl r_varint_Inl

interpretation byte_field: stream_field zupt_w8 r8 "\<lambda>_. True"
  by unfold_locales (simp add: r8_iff)
interpretation u16_field: stream_field zupt_w16le r16le "\<lambda>_. True"
  by unfold_locales (simp add: r16le_iff)
interpretation u64_field: stream_field zupt_w64le r64le "\<lambda>_. True"
  by unfold_locales (simp add: r64le_iff)
interpretation varint_field: stream_field zupt_write_varint r_varint "\<lambda>_. True"
  by unfold_locales (simp add: r_varint_iff)

section \<open>Block frames are read exactly\<close>

text \<open>The preface of a frame as one reader: what \<open>read_block\<close> does before it looks at sizes.\<close>

definition read_preface :: "bytes \<Rightarrow> ((u8 \<times> u16 \<times> u16 \<times> u64 \<times> u64 \<times> u64) \<times> bytes) result" where
  "read_preface s =
     rbind (r8 s) (\<lambda>(bt, s). rbind (r16le s) (\<lambda>(codec, s). rbind (r16le s) (\<lambda>(flags, s).
     rbind (r_varint s) (\<lambda>(usize, s). rbind (r_varint s) (\<lambda>(csize, s). rbind (r64le s) (\<lambda>(cksum, s).
     Inr ((bt, codec, flags, usize, csize, cksum), s)))))))"

lemma read_preface_iff:
  "read_preface s = Inr ((bt, codec, flags, usize, csize, cksum), r) \<longleftrightarrow>
     [0xBB, 0x01] @ s = write_preface bt codec flags usize csize cksum @ r"
  unfolding read_preface_def write_preface_def
  by (auto simp: rbind_Inr_iff stream_iffs zupt_w8_def)


text \<open>A reader whose only error is that the stream ended or could not be decoded.\<close>

definition io_only :: "'a result \<Rightarrow> bool" where
  "io_only r \<longleftrightarrow> (\<forall>e. r = Inl e \<longrightarrow> e = ZUPT_ERR_IO)"

lemma io_only_rbind: "io_only r \<Longrightarrow> (\<And>a. io_only (f a)) \<Longrightarrow> io_only (rbind r f)"
  by (cases r) (auto simp: io_only_def)

lemma io_only_readers:
  "io_only (fread_exact n s)" "io_only (r8 s)" "io_only (r16le s)" "io_only (r64le s)"
  "io_only (r_varint s)" "io_only (Inr a)"
  by (auto simp: io_only_def fread_exact_Inl dest: r8_Inl r16le_Inl r64le_Inl r_varint_Inl)

lemma read_preface_io: "io_only (read_preface s)"
  unfolding read_preface_def by (simp add: io_only_rbind io_only_readers case_prod_beta)

lemma io_only_cases:
  assumes "io_only r" obtains "r = Inl ZUPT_ERR_IO" | a where "r = Inr a"
  using assms by (cases r) (auto simp: io_only_def)

lemma if_or: "(if P \<or> Q then a else b) = (if P then a else if Q then a else b)"
  by simp

text \<open>\<open>read_block\<close> in terms of the preface.\<close>

lemma rbind_assoc: "rbind (rbind r f) g = rbind r (\<lambda>a. rbind (f a) g)"
  by (cases r) simp_all

lemma read_block_eq:
  "read_block alloc s =
     (if length s < 2 then Inl ZUPT_ERR_IO
      else if take 2 s \<noteq> [0xBB, 0x01] then Inl ZUPT_ERR_CORRUPT
      else rbind (read_preface (drop 2 s)) (\<lambda>((bt, codec, flags, usize, csize, cksum), s).
        if unat csize > ZUPT_MAX_BLOCK_SZ + 4096 \<or> unat usize > ZUPT_MAX_BLOCK_SZ then Inl ZUPT_ERR_OVERFLOW
        else if \<not> alloc (unat csize) then Inl ZUPT_ERR_NOMEM
        else rbind (fread_exact (unat csize) s) (\<lambda>(p, s).
          Inr (\<lparr>block_type = bt, codec_id = codec, block_flags = flags, uncompressed_size = usize,
            compressed_size = csize, checksum = cksum, payload = p\<rparr>, s))))"
proof (cases "length s < 2")
  case False
  then obtain a b t where s: "s = a # b # t" by (cases s; cases "tl s") auto
  show ?thesis
    unfolding read_block_def read_preface_def s rbind_assoc
    by (simp add: fread_exact_def case_prod_beta' rbind_assoc if_or cong: if_cong)
qed (simp add: read_block_def fread_exact_def)

text \<open>The blocks that can be read.\<close>

definition block_wf :: "(nat \<Rightarrow> bool) \<Rightarrow> zupt_block_t \<Rightarrow> bool" where
  "block_wf alloc b \<longleftrightarrow>
     length (payload b) = unat (compressed_size b) \<and>
     unat (compressed_size b) \<le> ZUPT_MAX_BLOCK_SZ + 4096 \<and>
     unat (uncompressed_size b) \<le> ZUPT_MAX_BLOCK_SZ \<and> alloc (unat (compressed_size b))"

lemma write_preface_magic: "write_preface bt c f u n k = [0xBB, 0x01] @ drop 2 (write_preface bt c f u n k)"
  by (simp add: write_preface_def zupt_w8_def)

lemma read_block_iff:
  "read_block alloc s = Inr (b, r) \<longleftrightarrow> block_wf alloc b \<and> s = write_block b @ r"
proof
  assume ok: "read_block alloc s = Inr (b, r)"
  then have "take 2 s = [0xBB, 0x01]" "\<not> length s < 2"
    by (auto simp: read_block_eq split: if_splits)
  then have s: "s = [0xBB, 0x01] @ drop 2 s" by (metis append_take_drop_id)
  from ok obtain bt codec flags usize csize cksum t where
    "read_preface (drop 2 s) = Inr ((bt, codec, flags, usize, csize, cksum), t)"
    by (auto simp: read_block_eq rbind_Inr_iff split: if_splits)
  moreover from this ok have "block_wf alloc b" "t = payload b @ r" "bt = block_type b" "codec = codec_id b"
    "flags = block_flags b" "usize = uncompressed_size b" "csize = compressed_size b" "cksum = checksum b"
    by (auto simp: read_block_eq rbind_Inr_iff fread_exact_iff block_wf_def split: if_splits)
  ultimately show "block_wf alloc b \<and> s = write_block b @ r"
    using s by (simp add: read_preface_iff write_block_def)
next
  assume b: "block_wf alloc b \<and> s = write_block b @ r"
  define f where "f = write_preface (block_type b) (codec_id b) (block_flags b) (uncompressed_size b)
       (compressed_size b) (checksum b)"
  have f: "f = [0xBB, 0x01] @ drop 2 f" unfolding f_def by (rule write_preface_magic)
  have s: "s = [0xBB, 0x01] @ drop 2 f @ payload b @ r"
    using b f by (simp add: write_block_def f_def)
  have "read_preface (drop 2 f @ payload b @ r) =
      Inr ((block_type b, codec_id b, block_flags b, uncompressed_size b, compressed_size b, checksum b),
        payload b @ r)"
    using f by (simp add: read_preface_iff flip: f_def)
  then show "read_block alloc s = Inr (b, r)"
    using b by (simp add: read_block_eq s block_wf_def fread_exact_def)
qed

interpretation block_frame: stream_field write_block "read_block alloc" "block_wf alloc" for alloc
  by unfold_locales (rule read_block_iff)

text \<open>Which inputs end in which error.\<close>

lemma read_block_errors:
  "read_block alloc s = Inl e \<longleftrightarrow>
    (if length s < 2 then e = ZUPT_ERR_IO
     else if take 2 s \<noteq> [0xBB, 0x01] then e = ZUPT_ERR_CORRUPT
     else case read_preface (drop 2 s) of
       Inl _ \<Rightarrow> e = ZUPT_ERR_IO
     | Inr ((bt, codec, flags, usize, csize, cksum), r) \<Rightarrow>
         if unat csize > ZUPT_MAX_BLOCK_SZ + 4096 \<or> unat usize > ZUPT_MAX_BLOCK_SZ then e = ZUPT_ERR_OVERFLOW
         else if \<not> alloc (unat csize) then e = ZUPT_ERR_NOMEM
         else length r < unat csize \<and> e = ZUPT_ERR_IO)"
  using read_preface_io [of "drop 2 s"]
  by (auto simp: read_block_eq io_only_def rbind_def fread_exact_def split: sum.splits prod.splits)

section \<open>The preface as additional data\<close>

lemma length_le_bytes [simp]: "length (le_bytes n v) = n"
  by (simp add: le_bytes_def)

lemma le_bytes_loop: "le64_put_loop n v = le_bytes n v"
proof (induction n arbitrary: v)
  case (Suc n)
  have "le_bytes (Suc n) v = ucast v # map (\<lambda>i. ucast (drop_bit (i * 8) (drop_bit 8 v))) [0..<n]"
    unfolding le_bytes_def upt_conv_Cons [OF zero_less_Suc] map_Suc_upt [symmetric]
    by (simp add: comp_def add.commute)
  with Suc show ?case by (simp add: le_bytes_def)
qed (simp add: le_bytes_def)

lemma le_bytes_8: "le_bytes 8 v = zupt_le64_put v"
  by (simp add: zupt_le64_put_def le_bytes_loop)

lemma preface_aad_scalars:
  "zupt_serialize_preface_aad_scalars bt c f u n k =
     zupt_w8 bt @ zupt_w16le c @ zupt_w16le f @ zupt_w64le u @ zupt_w64le n @ zupt_w64le k"
  by (simp add: zupt_serialize_preface_aad_scalars_def zupt_w8_def zupt_w16le_def zupt_w64le_def
      le_bytes_8 zupt_le16_put_def)

lemma preface_aad_block:
  "zupt_serialize_preface_aad b =
     zupt_serialize_preface_aad_scalars (block_type b) (codec_id b) (block_flags b)
       (uncompressed_size b) (compressed_size b) (checksum b)"
  by (simp add: zupt_serialize_preface_aad_def zupt_serialize_preface_aad_scalars_def)

lemma length_preface_aad [simp]: "length (zupt_serialize_preface_aad_scalars bt c f u n k) = 29"
  by (simp add: zupt_serialize_preface_aad_scalars_def)

lemma preface_aad_inject:
  "zupt_serialize_preface_aad_scalars bt c f u n k @ r = zupt_serialize_preface_aad_scalars bt' c' f' u' n' k' @ s \<longleftrightarrow>
     bt = bt' \<and> c = c' \<and> f = f' \<and> u = u' \<and> n = n' \<and> k = k' \<and> r = s"
  by (simp add: preface_aad_scalars byte_field.put_inject u16_field.put_inject u64_field.put_inject)

section \<open>Headers and footers\<close>

lemma buf_write_append:
  "length a = n \<Longrightarrow> length d \<le> length c \<Longrightarrow> buf_write (a @ c) n d = (a @ d) @ drop (length d) c"
  by (simp add: buf_write_def)

lemma serialize_header_eq:
  assumes "header_wf h"
  shows "zupt_serialize_archive_header h =
    hdr_magic h @ [version_major h, version_minor h] @ zupt_le32_put (global_flags h) @
    zupt_le64_put (creation_time h) @ archive_id h @ zupt_le64_put (encryption_header_off h) @
    zupt_le64_put (comment_offset h) @ hdr_reserved h"
proof -
  note l = assms [unfolded header_wf_def]
  have a: "buf_write (replicate 64 0) 0 (hdr_magic h) = hdr_magic h @ replicate 58 0"
    using l by (simp add: buf_write_def)
  have b: "((hdr_magic h @ replicate 58 0)[6 := version_major h])[7 := version_minor h] =
      (hdr_magic h @ [version_major h, version_minor h]) @ replicate 56 0"
    using l by (simp add: list_update_append numeral_eq_Suc)
  show ?thesis
    unfolding zupt_serialize_archive_header_def Let_def a b
    using l by (simp add: buf_write_append del: append_assoc append_Cons append_Nil)
qed

lemma serialize_footer_eq:
  assumes "footer_wf f"
  shows "zupt_serialize_footer f =
    zupt_le64_put (index_offset f) @ zupt_le64_put (total_blocks f) @
    zupt_le64_put (archive_checksum f) @ footer_magic f @ zupt_le32_put (footer_version f)"
proof -
  have a: "buf_write (replicate 32 0) 0 (zupt_le64_put (index_offset f)) =
      zupt_le64_put (index_offset f) @ replicate 24 0"
    by (simp add: buf_write_def)
  show ?thesis
    unfolding zupt_serialize_footer_def Let_def a
    using assms by (simp add: buf_write_append footer_wf_def del: append_assoc)
qed

lemma length_serialize_header: "header_wf h \<Longrightarrow> length (zupt_serialize_archive_header h) = 64"
  by (simp add: serialize_header_eq) (simp add: header_wf_def)

lemma length_serialize_footer: "footer_wf f \<Longrightarrow> length (zupt_serialize_footer f) = 32"
  by (simp add: serialize_footer_eq) (simp add: footer_wf_def)

lemma take_drop_split: "n + k \<le> length b \<Longrightarrow> drop n b = take k (drop n b) @ drop (n + k) b"
  by (metis add.commute append_take_drop_id drop_drop)

lemma header_bijective:
  "length b = 64 \<and> deserialize_archive_header b = h \<longleftrightarrow> header_wf h \<and> zupt_serialize_archive_header h = b"
proof
  assume h: "length b = 64 \<and> deserialize_archive_header b = h"
  then have l: "length b = 64" and wf: "header_wf h"
    by (auto simp: header_wf_def deserialize_archive_header_def)
  have "zupt_serialize_archive_header h =
      take 6 b @ [b ! 6, b ! 7] @ take 4 (drop 8 b) @ take 8 (drop 12 b) @ take 16 (drop 20 b) @
      take 8 (drop 36 b) @ take 8 (drop 44 b) @ take 12 (drop 52 b)"
    using h l by (simp add: serialize_header_eq [OF wf]) (auto simp: deserialize_archive_header_def
        le32_put_get le64_put_get)
  also have "[b ! 6, b ! 7] = take 2 (drop 6 b)"
    using l by (simp add: take_Suc_conv_app_nth numeral_2_eq_2)
  also have "take 6 b @ take 2 (drop 6 b) @ take 4 (drop 8 b) @ take 8 (drop 12 b) @ take 16 (drop 20 b) @
      take 8 (drop 36 b) @ take 8 (drop 44 b) @ take 12 (drop 52 b) = b"
    using l by (simp add: take_add [symmetric] flip: append_assoc)
  finally show "header_wf h \<and> zupt_serialize_archive_header h = b" using wf by simp
next
  assume h: "header_wf h \<and> zupt_serialize_archive_header h = b"
  then have "deserialize_archive_header b = h"
    by (auto simp: serialize_header_eq deserialize_archive_header_def header_wf_def nth_append)
  moreover have "length b = 64" using h length_serialize_header by blast
  ultimately show "length b = 64 \<and> deserialize_archive_header b = h" by simp
qed

lemma footer_bijective:
  "length b = 32 \<and> deserialize_footer b = f \<longleftrightarrow> footer_wf f \<and> zupt_serialize_footer f = b"
proof
  assume f: "length b = 32 \<and> deserialize_footer b = f"
  then have l: "length b = 32" and wf: "footer_wf f"
    by (auto simp: footer_wf_def deserialize_footer_def)
  have "zupt_serialize_footer f =
      take 8 b @ take 8 (drop 8 b) @ take 8 (drop 16 b) @ take 4 (drop 24 b) @ take 4 (drop 28 b)"
    using f l by (simp add: serialize_footer_eq [OF wf]) (auto simp: deserialize_footer_def
        le32_put_get le64_put_get)
  also have "\<dots> = b" using l by (simp add: take_add [symmetric] flip: append_assoc)
  finally show "footer_wf f \<and> zupt_serialize_footer f = b" using wf by simp
next
  assume f: "footer_wf f \<and> zupt_serialize_footer f = b"
  then have "deserialize_footer b = f"
    by (auto simp: serialize_footer_eq deserialize_footer_def footer_wf_def)
  moreover have "length b = 32" using f length_serialize_footer by blast
  ultimately show "length b = 32 \<and> deserialize_footer b = f" by simp
qed


lemma read_header_iff:
  "read_header s = Inr (h, r) \<longleftrightarrow>
     (header_wf h \<and> hdr_magic h = zupt_magic \<and> version_major h = 1) \<and> s = zupt_serialize_archive_header h @ r"
  (is "_ \<longleftrightarrow> ?ok \<and> _")
proof
  assume "read_header s = Inr (h, r)"
  then obtain b where "length b = 64" "s = b @ r" "h = deserialize_archive_header b"
    "hdr_magic h = zupt_magic" "version_major h = 1"
    by (auto simp: read_header_def rbind_Inr_iff fread_exact_iff Let_def split: if_splits)
  with header_bijective [of b h] show "?ok \<and> s = zupt_serialize_archive_header h @ r" by simp
next
  assume h: "?ok \<and> s = zupt_serialize_archive_header h @ r"
  then have "length (zupt_serialize_archive_header h) = 64"
    "deserialize_archive_header (zupt_serialize_archive_header h) = h"
    using header_bijective [of "zupt_serialize_archive_header h" h] by simp_all
  with h show "read_header s = Inr (h, r)" by (simp add: read_header_def fread_exact_def)
qed

interpretation archive_header: stream_field zupt_serialize_archive_header read_header
    "\<lambda>h. header_wf h \<and> hdr_magic h = zupt_magic \<and> version_major h = 1"
  by unfold_locales (rule read_header_iff)

section \<open>Locating the footer\<close>

definition footer_valid :: "zupt_footer_t \<Rightarrow> bool" where
  "footer_valid ft \<longleftrightarrow> footer_magic ft = ZEND \<and> footer_version ft = 1"

lemma footer_valid_wf: "footer_valid ft \<Longrightarrow> footer_wf ft"
  by (simp add: footer_valid_def footer_wf_def ZEND_def)

lemma deserialize_serialize_footer: "footer_wf ft \<Longrightarrow> deserialize_footer (zupt_serialize_footer ft) = ft"
  using footer_bijective [of "zupt_serialize_footer ft" ft] by simp

lemma footer_at_iff:
  assumes "n + 32 \<le> length f"
  shows "footer_valid (deserialize_footer (take 32 (drop n f))) \<and>
      ft = deserialize_footer (take 32 (drop n f)) \<longleftrightarrow>
    footer_valid ft \<and> take 32 (drop n f) = zupt_serialize_footer ft"
  using footer_bijective [of "take 32 (drop n f)" ft] assms by (auto dest: footer_valid_wf)

lemma locate_footer_ait_iff:
  "locate_footer_v15 f = Inr (ft, Some ait) \<longleftrightarrow>
     (\<exists>body. f = body @ zupt_serialize_footer ft @ ait \<and> length ait = 32 \<and> footer_valid ft)"
proof
  assume loc: "locate_footer_v15 f = Inr (ft, Some ait)"
  have leg: "locate_footer_legacy f \<noteq> Inr (ft, Some ait)"
    by (simp add: locate_footer_legacy_def Let_def)
  define n where "n = length f - 64"
  have n: "64 \<le> length f" "length f - 32 = n + 32"
    using loc leg by (auto simp: locate_footer_v15_def n_def split: if_splits)
  have "footer_valid (deserialize_footer (take 32 (drop n f))) \<and>
      ft = deserialize_footer (take 32 (drop n f)) \<and> ait = take 32 (drop (n + 32) f)"
    using loc leg n by (auto simp: locate_footer_v15_def footer_valid_def n_def Let_def split: if_splits)
  moreover have le: "n + 32 \<le> length f" "length (drop (n + 32) f) = 32" using n by (simp_all add: n_def)
  ultimately have a: "footer_valid ft" "take 32 (drop n f) = zupt_serialize_footer ft" "ait = drop (n + 32) f"
    using footer_at_iff [OF le(1), of ft] by simp_all
  moreover have "f = take n f @ take 32 (drop n f) @ drop (n + 32) f"
    by (metis append_take_drop_id add.commute drop_drop)
  ultimately show "\<exists>body. f = body @ zupt_serialize_footer ft @ ait \<and> length ait = 32 \<and> footer_valid ft"
    using a le(2) by metis
next
  assume "\<exists>body. f = body @ zupt_serialize_footer ft @ ait \<and> length ait = 32 \<and> footer_valid ft"
  then obtain body where f: "f = body @ zupt_serialize_footer ft @ ait" "length ait = 32" "footer_valid ft"
    by blast
  note wf = footer_valid_wf [OF f(3)]
  have "length f = length body + 64"
    using f length_serialize_footer [OF wf] by simp
  then show "locate_footer_v15 f = Inr (ft, Some ait)"
    using f wf length_serialize_footer [OF wf] deserialize_serialize_footer [OF wf]
    by (simp add: locate_footer_v15_def footer_valid_def)
qed

lemma locate_footer_none_iff:
  "locate_footer_v15 f = Inr (ft, None) \<longleftrightarrow>
     (\<exists>body. f = body @ zupt_serialize_footer ft \<and> footer_valid ft) \<and>
     \<not> (\<exists>body ft ait. f = body @ zupt_serialize_footer ft @ ait \<and> length ait = 32 \<and> footer_valid ft)"
  (is "?loc \<longleftrightarrow> ?at \<and> \<not> ?trailer")
proof -
  have no_trailer: "\<not> ?trailer \<longleftrightarrow> (\<forall>ft ait. locate_footer_v15 f \<noteq> Inr (ft, Some ait))"
    by (simp add: locate_footer_ait_iff) blast
  have leg: "locate_footer_legacy f = Inr (ft, None) \<longleftrightarrow> ?at" if "32 \<le> length f"
  proof -
    define n where "n = length f - 32"
    have n: "n + 32 \<le> length f" "drop (n + 32) f = []" using that by (simp_all add: n_def)
    have "locate_footer_legacy f = Inr (ft, None) \<longleftrightarrow>
        footer_valid (deserialize_footer (take 32 (drop n f))) \<and> ft = deserialize_footer (take 32 (drop n f))"
      unfolding locate_footer_legacy_def Let_def n_def [symmetric]
      by (cases "deserialize_footer (take 32 (drop n f)) = ft") (simp_all add: footer_valid_def)
    also have "\<dots> \<longleftrightarrow> footer_valid ft \<and> drop n f = zupt_serialize_footer ft"
      using footer_at_iff [OF n(1), of ft] that by (simp only: take_all n_def length_drop)
    also have "\<dots> \<longleftrightarrow> ?at"
    proof
      assume "footer_valid ft \<and> drop n f = zupt_serialize_footer ft"
      then show ?at by (metis append_take_drop_id)
    next
      assume ?at
      then obtain body where b: "f = body @ zupt_serialize_footer ft" "footer_valid ft" by blast
      then show "footer_valid ft \<and> drop n f = zupt_serialize_footer ft"
        using length_serialize_footer [OF footer_valid_wf [OF b(2)]] by (simp add: n_def)
    qed
    finally show ?thesis .
  qed
  have short: "length f < 32 \<Longrightarrow> \<not> ?at" using length_serialize_footer footer_valid_wf by fastforce
  show ?thesis
  proof
    assume l: ?loc
    then have "32 \<le> length f" "locate_footer_legacy f = Inr (ft, None)"
      by (auto simp: locate_footer_v15_def Let_def split: if_splits)
    with leg have ?at by blast
    moreover have "\<not> ?trailer" using l no_trailer by simp
    ultimately show "?at \<and> \<not> ?trailer" by simp
  next
    assume r: "?at \<and> \<not> ?trailer"
    then have "32 \<le> length f" using short by fastforce
    with leg r have "locate_footer_legacy f = Inr (ft, None)" by blast
    moreover have "\<forall>ft ait. locate_footer_v15 f \<noteq> Inr (ft, Some ait)" using r no_trailer by blast
    ultimately show ?loc using \<open>32 \<le> length f\<close>
      by (auto simp: locate_footer_v15_def Let_def split: if_splits)
  qed
qed

section \<open>The integrity trailer\<close>

lemma ait_input_inject:
  assumes "header_wf h" "header_wf h'" "footer_wf f" "footer_wf f'"
  shows "ait_serialize_mac_input h f = ait_serialize_mac_input h' f' \<longleftrightarrow>
    h = h' \<and> index_offset f = index_offset f' \<and> total_blocks f = total_blocks f' \<and>
    archive_checksum f = archive_checksum f'"
proof -
  have t: "take 24 (zupt_serialize_footer g) =
      zupt_w64le (index_offset g) @ zupt_w64le (total_blocks g) @ zupt_w64le (archive_checksum g)"
    if "footer_wf g" for g
    using that by (simp add: serialize_footer_eq zupt_w64le_def)
  have "zupt_serialize_archive_header h = zupt_serialize_archive_header h' \<longleftrightarrow> h = h'"
    using assms(1,2) header_bijective by metis
  then show ?thesis
    using assms t [OF assms(3)] t [OF assms(4)] length_serialize_header
      u64_field.put_inject u64_field.put_inject [where r = "[]" and s = "[]"]
    by (simp add: ait_serialize_mac_input_def)
qed

lemma length_ait [simp]: "length (zupt_format_ait_write h f kr) = 32"
  by (auto simp: zupt_format_ait_write_def zupt_hmac_sha256_spec Let_def split: option.split)

lemma ait_verify_iff:
  assumes "length ait = 32"
  shows "ait_verify h f ait kr = Inr () \<longleftrightarrow> ait = zupt_format_ait_write h f kr"
  using assms
  by (auto simp: ait_verify_def zupt_format_ait_write_def zupt_ct_memeq_eq zupt_hmac_sha256_spec Let_def
      split: option.split)

section \<open>Truncated and oversized frames\<close>

lemma write_preface_inject:
  "write_preface bt c f u n k @ r = write_preface bt' c' f' u' n' k' @ r' \<longleftrightarrow>
     (bt, c, f, u, n, k) = (bt', c', f', u', n', k') \<and> r = r'"
proof
  assume eq: "write_preface bt c f u n k @ r = write_preface bt' c' f' u' n' k' @ r'"
  define t where "t = drop 2 (write_preface bt c f u n k) @ r"
  have "[0xBB, 0x01] @ t = write_preface bt c f u n k @ r"
    using write_preface_magic [of bt c f u n k] by (simp add: t_def)
  then have "read_preface t = Inr ((bt, c, f, u, n, k), r)" "read_preface t = Inr ((bt', c', f', u', n', k'), r')"
    unfolding read_preface_iff using eq by simp_all
  then show "(bt, c, f, u, n, k) = (bt', c', f', u', n', k') \<and> r = r'" by simp
qed simp

lemma read_block_take:
  assumes "block_wf alloc b" "n < length (write_block b)"
  shows "read_block alloc (take n (write_block b)) = Inl ZUPT_ERR_IO"
proof -
  define p where "p = take n (write_block b)"
  define q where "q = drop n (write_block b)"
  have pq: "write_block b = p @ q" "q \<noteq> []" using assms(2) by (simp_all add: p_def q_def)
  obtain e where e: "read_block alloc p = Inl e"
    using block_frame.truncated [OF assms(1) pq] by blast
  have "e = ZUPT_ERR_IO"
  proof (cases "length p < 2")
    case True
    then show ?thesis using e by (simp add: read_block_errors)
  next
    case False
    have "take 2 (write_block b) = [0xBB, 0x01]"
      by (simp add: write_block_def write_preface_def zupt_w8_def)
    with pq(1) False have m: "take 2 p = [0xBB, 0x01]" by simp
    show ?thesis
    proof (cases "read_preface (drop 2 p)")
      case (Inl _)
      then show ?thesis using e False m by (simp add: read_block_errors)
    next
      case (Inr a)
      obtain bt c f u k ck r where a: "a = ((bt, c, f, u, k, ck), r)" by (metis surj_pair)
      have "p = [0xBB, 0x01] @ drop 2 p" using m by (metis append_take_drop_id)
      then have "p = write_preface bt c f u k ck @ r" using Inr a by (simp add: read_preface_iff)
      with pq(1) have "u = uncompressed_size b" "k = compressed_size b"
        by (simp_all add: write_block_def write_preface_inject)
      with Inr a e False m assms(1) show ?thesis
        by (auto simp: read_block_errors block_wf_def)
    qed
  qed
  with e show ?thesis by (simp add: p_def)
qed

lemma preface_parsed:
  "length s \<ge> 2 \<and> take 2 s = [0xBB, 0x01] \<and> read_preface (drop 2 s) = Inr ((bt, c, f, u, n, k), r) \<longleftrightarrow>
     s = write_preface bt c f u n k @ r" (is "?parsed \<longleftrightarrow> ?s")
proof
  assume p: ?parsed
  then have "s = [0xBB, 0x01] @ drop 2 s" by (metis append_take_drop_id)
  with p show ?s by (simp add: read_preface_iff)
next
  assume s: ?s
  have "s = [0xBB, 0x01] @ drop 2 s"
    unfolding s using write_preface_magic [of bt c f u n k] by (simp add: write_preface_def zupt_w8_def)
  then show ?parsed using s by (simp add: read_preface_iff)
qed

definition oversized :: "u64 \<Rightarrow> u64 \<Rightarrow> bool" where
  "oversized u n \<longleftrightarrow> unat n > ZUPT_MAX_BLOCK_SZ + 4096 \<or> unat u > ZUPT_MAX_BLOCK_SZ"

lemma read_block_corrupt: "read_block alloc s = Inl ZUPT_ERR_CORRUPT \<longleftrightarrow> 2 \<le> length s \<and> take 2 s \<noteq> [0xBB, 0x01]"
  by (auto simp: read_block_errors split: sum.splits)

lemma read_block_sizes:
  assumes "s = write_preface bt c f u n k @ r"
  shows "read_block alloc s =
    (if oversized u n then Inl ZUPT_ERR_OVERFLOW else if \<not> alloc (unat n) then Inl ZUPT_ERR_NOMEM
     else if length r < unat n then Inl ZUPT_ERR_IO
     else Inr (\<lparr>block_type = bt, codec_id = c, block_flags = f, uncompressed_size = u,
       compressed_size = n, checksum = k, payload = take (unat n) r\<rparr>, drop (unat n) r))"
proof -
  have "length s \<ge> 2 \<and> take 2 s = [0xBB, 0x01] \<and> read_preface (drop 2 s) = Inr ((bt, c, f, u, n, k), r)"
    using assms by (simp only: preface_parsed)
  then show ?thesis by (auto simp: read_block_eq oversized_def fread_exact_def)
qed

lemma read_block_overflow:
  "read_block alloc s = Inl ZUPT_ERR_OVERFLOW \<longleftrightarrow>
     (\<exists>bt c f u n k r. s = write_preface bt c f u n k @ r \<and> oversized u n)"
proof
  assume e: "read_block alloc s = Inl ZUPT_ERR_OVERFLOW"
  then have m: "length s \<ge> 2" "take 2 s = [0xBB, 0x01]"
    by (auto simp: read_block_errors split: if_splits)
  with e obtain bt c f u n k r where "read_preface (drop 2 s) = Inr ((bt, c, f, u, n, k), r)" "oversized u n"
    by (auto simp: read_block_errors oversized_def split: sum.splits if_splits prod.splits)
  with m show "\<exists>bt c f u n k r. s = write_preface bt c f u n k @ r \<and> oversized u n"
    using preface_parsed by blast
qed (auto simp: read_block_sizes)

section \<open>Properties\<close>

text \<open>
  C30. The block reader is exact: it returns a block and the rest of the stream precisely when
  the stream is the written form of that block followed by the rest, the payload has the
  announced length, the two sizes are within the format's limits and the allocation succeeded.
  It reports corruption precisely for a wrong magic and overflow precisely for a well-formed
  preface that announces too large a size, before any payload is read.
\<close>

theorem block_frame_exact:
  "(read_block alloc s = Inr (b, r) \<longleftrightarrow> block_wf alloc b \<and> s = write_block b @ r) \<and>
   (read_block alloc s = Inl ZUPT_ERR_CORRUPT \<longleftrightarrow> 2 \<le> length s \<and> take 2 s \<noteq> [0xBB, 0x01]) \<and>
   (read_block alloc s = Inl ZUPT_ERR_OVERFLOW \<longleftrightarrow>
     (\<exists>bt c f u n k t. s = write_preface bt c f u n k @ t \<and> oversized u n))"
  by (simp only: read_block_iff read_block_corrupt read_block_overflow simp_thms)

text \<open>
  A block that was cut off anywhere, in its preface, inside a varint or in its payload, is
  never taken for another block: reading the first \<open>n\<close> bytes of its written form is an I/O
  error for every \<open>n\<close> short of the whole.
\<close>

theorem block_frame_truncation:
  assumes "block_wf alloc b"
  shows "read_block alloc (take n (write_block b)) =
    (if n < length (write_block b) then Inl ZUPT_ERR_IO else Inr (b, []))"
  using read_block_take [OF assms] block_frame.get_put [OF assms, of "[]"] by simp

theorem block_frame_truncation_witness:
  "read_block (\<lambda>_. True) (take 18 (write_block \<lparr>block_type = 0, codec_id = 8, block_flags = 0,
     uncompressed_size = 300, compressed_size = 3, checksum = 1, payload = [1, 2, 3]\<rparr>)) = Inl ZUPT_ERR_IO"
proof -
  let ?b = "\<lparr>block_type = 0, codec_id = 8, block_flags = 0,
     uncompressed_size = 300, compressed_size = 3, checksum = 1, payload = [1, 2, 3 :: u8]\<rparr>"
  have "block_wf (\<lambda>_. True) ?b" by (simp add: block_wf_def ZUPT_MAX_BLOCK_SZ_def)
  moreover have "18 < length (write_block ?b)"
    by (simp add: write_block_def write_preface_def zupt_w8_def zupt_w16le_def zupt_w64le_def
        zupt_write_varint_def zupt_encode_varint.simps Let_def)
  ultimately show ?thesis using block_frame_truncation [of "\<lambda>_. True" ?b 18] by simp
qed

text \<open>
  Header and footer have exactly one serial form each, and every 64 or 32 bytes are the
  serial form of exactly one header or footer: serialising and deserialising are inverse
  bijections, so no field is dropped, duplicated or read from another place.
\<close>

theorem header_footer_bijective:
  "(length b = 64 \<and> deserialize_archive_header b = h \<longleftrightarrow> header_wf h \<and> zupt_serialize_archive_header h = b) \<and>
   (length c = 32 \<and> deserialize_footer c = f \<longleftrightarrow> footer_wf f \<and> zupt_serialize_footer f = c)"
  by (simp only: header_bijective footer_bijective simp_thms)

text \<open>
  The footer is located with a trailer precisely when the file ends in a valid footer and 32
  more bytes, whatever comes before, and without one precisely when the file ends in a valid
  footer and does not end that way: a file with a trailer is never read as one without.
\<close>

theorem footer_located:
  "(locate_footer_v15 file = Inr (ft, Some ait) \<longleftrightarrow>
     (\<exists>body. file = body @ zupt_serialize_footer ft @ ait \<and> length ait = 32 \<and> footer_valid ft)) \<and>
   (locate_footer_v15 file = Inr (ft, None) \<longleftrightarrow>
     (\<exists>body. file = body @ zupt_serialize_footer ft \<and> footer_valid ft) \<and>
     \<not> (\<exists>body ft ait. file = body @ zupt_serialize_footer ft @ ait \<and> length ait = 32 \<and> footer_valid ft))"
  by (simp only: locate_footer_ait_iff locate_footer_none_iff simp_thms)

text \<open>
  C32. The integrity trailer: verification accepts precisely the 32 bytes the writer produces for
  the same header, footer and keyring, and what is authenticated determines every field of the
  header and the index offset, block count and archive checksum of the footer: two archives
  that differ in any of them are authenticated under different input.
\<close>

theorem trailer_covers_header_and_footer:
  assumes "length ait = 32" "header_wf h" "header_wf h'" "footer_wf f" "footer_wf f'"
  shows "(ait_verify h f ait kr = Inr () \<longleftrightarrow> ait = zupt_format_ait_write h f kr) \<and>
    (ait_serialize_mac_input h f = ait_serialize_mac_input h' f' \<longleftrightarrow>
      h = h' \<and> index_offset f = index_offset f' \<and> total_blocks f = total_blocks f' \<and>
      archive_checksum f = archive_checksum f')"
  using ait_verify_iff [OF assms(1)] ait_input_inject [OF assms(2-5)] by blast

theorem trailer_covers_header_and_footer_witness:
  "ait_verify (deserialize_archive_header (replicate 64 1)) (deserialize_footer (replicate 32 2))
     (zupt_format_ait_write (deserialize_archive_header (replicate 64 1)) (deserialize_footer (replicate 32 2)) None)
     None = Inr () \<and>
   ait_serialize_mac_input (deserialize_archive_header (replicate 64 1)) (deserialize_footer (replicate 32 2)) \<noteq>
   ait_serialize_mac_input (deserialize_archive_header (replicate 64 1)) (deserialize_footer (replicate 32 3))"
proof -
  have l: "length (replicate 64 (1 :: u8)) = 64" "length (replicate 32 (2 :: u8)) = 32"
    "length (replicate 32 (3 :: u8)) = 32" by simp_all
  have wf: "header_wf (deserialize_archive_header (replicate 64 1))"
    "footer_wf (deserialize_footer (replicate 32 2))" "footer_wf (deserialize_footer (replicate 32 3))"
    using header_bijective footer_bijective l by blast+
  have ne: "index_offset (deserialize_footer (replicate 32 2)) \<noteq> index_offset (deserialize_footer (replicate 32 3))"
  proof
    assume "index_offset (deserialize_footer (replicate 32 2)) = index_offset (deserialize_footer (replicate 32 3))"
    then have "zupt_le64_put (zupt_le64_get (replicate 32 2)) = zupt_le64_put (zupt_le64_get (replicate 32 3))"
      by (simp add: deserialize_footer_def)
    then have "take 8 (replicate 32 (2 :: u8)) = take 8 (replicate 32 3)" by (simp only: le64_put_get l)
    then show False by simp
  qed
  show ?thesis
    using trailer_covers_header_and_footer [OF length_ait wf(1) wf(1) wf(2) wf(3)] ne by blast
qed

end
