(* ===== verification/Paths.thy ===== *)
theory Paths
  imports Prelude
begin

text \<open>
  Text and paths that come out of an archive (\<open>src/zupt_format.c\<close>): the UTF-8 scanner, the
  terminal-safe printer, and the check that decides whether an entry may be extracted. A C
  string is the list of its bytes without the terminating NUL; \<open>c_at\<close> reads the terminator.

  Shown: the scanner accepts exactly the shortest-form encodings of the Unicode scalar values;
  what the printer emits always passes the same check that names have to pass and safe text is
  printed unchanged; a path that is accepted resolves strictly below the extraction directory,
  on POSIX and with the Windows separators and device names.
\<close>

section \<open>UTF-8\<close>

definition c_at :: "bytes \<Rightarrow> nat \<Rightarrow> u8" where
  "c_at text i = (if i < length text then text ! i else 0)"

text \<open>\<open>None\<close> is the length 0 of an invalid sequence.\<close>

definition zupt_decode_utf8_scalar :: "bytes \<Rightarrow> (nat \<times> u32) option" where
  "zupt_decode_utf8_scalar text =
     (let a = c_at text 0 in
      if a < 0x80 then Some (1, ucast a)
      else if c_at text 1 = 0 then None
      else
        let b = c_at text 1 in
        if a \<ge> 0xC2 \<and> a \<le> 0xDF \<and> b AND 0xC0 = 0x80 then
          Some (2, push_bit 6 (ucast (a AND 0x1F)) OR ucast (b AND 0x3F))
        else if c_at text 2 = 0 then None
        else
          let c = c_at text 2 in
          if c AND 0xC0 \<noteq> 0x80 then None
          else if a = 0xE0 \<and> b \<ge> 0xA0 \<and> b \<le> 0xBF \<or>
                  a \<ge> 0xE1 \<and> a \<le> 0xEC \<and> b AND 0xC0 = 0x80 \<or>
                  a = 0xED \<and> b \<ge> 0x80 \<and> b \<le> 0x9F \<or>
                  a \<ge> 0xEE \<and> a \<le> 0xEF \<and> b AND 0xC0 = 0x80 then
            Some (3, push_bit 12 (ucast (a AND 0x0F)) OR push_bit 6 (ucast (b AND 0x3F)) OR
                     ucast (c AND 0x3F))
          else if c_at text 3 = 0 then None
          else
            let d = c_at text 3 in
            if d AND 0xC0 \<noteq> 0x80 then None
            else if \<not> (a = 0xF0 \<and> b \<ge> 0x90 \<and> b \<le> 0xBF \<or>
                       a \<ge> 0xF1 \<and> a \<le> 0xF3 \<and> b AND 0xC0 = 0x80 \<or>
                       a = 0xF4 \<and> b \<ge> 0x80 \<and> b \<le> 0x8F) then None
            else
              Some (4, push_bit 18 (ucast (a AND 0x07)) OR push_bit 12 (ucast (b AND 0x3F)) OR
                       push_bit 6 (ucast (c AND 0x3F)) OR ucast (d AND 0x3F)))"

definition zupt_codepoint_is_display_control :: "u32 \<Rightarrow> bool" where
  "zupt_codepoint_is_display_control cp \<longleftrightarrow>
     cp < 0x20 \<or>
     cp \<ge> 0x7F \<and> cp \<le> 0x9F \<or>
     cp = 0x061C \<or>
     cp \<ge> 0x200B \<and> cp \<le> 0x200F \<or>
     cp \<ge> 0x2028 \<and> cp \<le> 0x202E \<or>
     cp \<ge> 0x2060 \<and> cp \<le> 0x206F \<or>
     cp = 0xFEFF \<or>
     cp \<ge> 0xFFF9 \<and> cp \<le> 0xFFFB"

lemma c_at_nonzero: "c_at text i \<noteq> 0 \<Longrightarrow> i < length text"
  by (auto simp: c_at_def split: if_splits)

lemma utf8_length:
  assumes "zupt_decode_utf8_scalar text = Some (n, cp)" "text \<noteq> []"
  shows "0 < n \<and> n \<le> length text"
proof -
  have "1 \<le> length text" using assms(2) by (simp add: Suc_le_eq)
  then show ?thesis
    using assms(1) c_at_nonzero [of "text" 1] c_at_nonzero [of "text" 2] c_at_nonzero [of "text" 3]
    unfolding zupt_decode_utf8_scalar_def Let_def by (auto split: if_splits simp del: length_greater_0_conv)
qed

section \<open>Printing untrusted text\<close>

definition hex_digit :: "u8 \<Rightarrow> u8" where
  "hex_digit d = (if d < 10 then 0x30 + d else 0x41 + (d - 10))"

text \<open>\<open>fprintf(stream, "\x%02X", c)\<close>.\<close>

definition print_escaped :: "u8 \<Rightarrow> bytes" where
  "print_escaped c = [0x5C, 0x78, hex_digit (drop_bit 4 c), hex_digit (c AND 0x0F)]"

function zupt_print_terminal_safe_text :: "bytes \<Rightarrow> bytes" where
  "zupt_print_terminal_safe_text [] = []"
| "zupt_print_terminal_safe_text (c # cs) =
     (case zupt_decode_utf8_scalar (c # cs) of
        None \<Rightarrow> print_escaped c @ zupt_print_terminal_safe_text cs
      | Some (n, cp) \<Rightarrow>
          (if zupt_codepoint_is_display_control cp then concat (map print_escaped (take n (c # cs)))
           else take n (c # cs)) @
          zupt_print_terminal_safe_text (drop n (c # cs)))"
  by pat_completeness auto
termination
  by (relation "measure length") (auto dest!: utf8_length)

function zupt_path_has_unsafe_text :: "bytes \<Rightarrow> bool" where
  "zupt_path_has_unsafe_text [] = False"
| "zupt_path_has_unsafe_text (c # cs) =
     (case zupt_decode_utf8_scalar (c # cs) of
        None \<Rightarrow> True
      | Some (n, cp) \<Rightarrow>
          if zupt_codepoint_is_display_control cp then True
          else zupt_path_has_unsafe_text (drop n (c # cs)))"
  by pat_completeness auto
termination
  by (relation "measure length") (auto dest!: utf8_length)

declare zupt_print_terminal_safe_text.simps(2) [simp del] zupt_path_has_unsafe_text.simps(2) [simp del]

section \<open>Entry names\<close>

definition ascii_upper :: "u8 \<Rightarrow> u8" where
  "ascii_upper a = (if a \<ge> 0x61 \<and> a \<le> 0x7A then a - 0x20 else a)"

fun ascii_equal_loop :: "bytes \<Rightarrow> bytes \<Rightarrow> bool" where
  "ascii_equal_loop (a # as) (b # bs) =
     (if ascii_upper a \<noteq> ascii_upper b then False else ascii_equal_loop as bs)"
| "ascii_equal_loop _ _ = True"

definition zupt_ascii_equal_ci :: "bytes \<Rightarrow> bytes \<Rightarrow> bool" where
  "zupt_ascii_equal_ci value literal =
     (if length value \<noteq> length literal then False else ascii_equal_loop value literal)"

text \<open>The names \<open>CON\<close>, \<open>PRN\<close>, \<open>AUX\<close>, \<open>NUL\<close>, then \<open>COM\<close> and \<open>LPT\<close> with a digit from 1 to 9.\<close>

definition zupt_is_reserved_dos_name :: "bytes \<Rightarrow> bool" where
  "zupt_is_reserved_dos_name component =
     (let base = takeWhile (\<lambda>c. c \<noteq> 0x2E) component in
      if zupt_ascii_equal_ci base [0x43, 0x4F, 0x4E] \<or> zupt_ascii_equal_ci base [0x50, 0x52, 0x4E] \<or>
         zupt_ascii_equal_ci base [0x41, 0x55, 0x58] \<or> zupt_ascii_equal_ci base [0x4E, 0x55, 0x4C]
      then True
      else if length base = 4 \<and>
        (component ! 0 = 0x43 \<or> component ! 0 = 0x63) \<and> (component ! 1 = 0x4F \<or> component ! 1 = 0x6F) \<and>
        (component ! 2 = 0x4D \<or> component ! 2 = 0x6D) \<and> component ! 3 \<ge> 0x31 \<and> component ! 3 \<le> 0x39
      then True
      else if length base = 4 \<and>
        (component ! 0 = 0x4C \<or> component ! 0 = 0x6C) \<and> (component ! 1 = 0x50 \<or> component ! 1 = 0x70) \<and>
        (component ! 2 = 0x54 \<or> component ! 2 = 0x74) \<and> component ! 3 \<ge> 0x31 \<and> component ! 3 \<le> 0x39
      then True
      else False)"

definition is_sep :: "u8 \<Rightarrow> bool" where
  "is_sep c \<longleftrightarrow> c = 0x2F \<or> c = 0x5C"

text \<open>The checks on one nonempty component, then the scan; \<open>cur\<close> holds \<open>start[0..i-1]\<close>.\<close>

definition component_ok :: "bytes \<Rightarrow> bool" where
  "component_ok cur =
     (if length cur = 1 \<and> cur ! 0 = 0x2E \<or> length cur = 2 \<and> cur ! 0 = 0x2E \<and> cur ! 1 = 0x2E then False
      else if cur ! (length cur - 1) = 0x2E \<or> cur ! (length cur - 1) = 0x20 \<or>
              zupt_is_reserved_dos_name cur then False
      else \<not> list_ex (\<lambda>c. c < 0x20 \<or> c = 0x7F) cur)"

fun path_scan :: "bytes \<Rightarrow> bytes \<Rightarrow> bool" where
  "path_scan cur [] = (if cur = [] then False else component_ok cur)"
| "path_scan cur (c # cs) =
     (if is_sep c then
        if cur = [] then path_scan [] cs
        else if component_ok cur then path_scan [] cs else False
      else path_scan (cur @ [c]) cs)"

definition zupt_path_is_safe :: "bytes \<Rightarrow> bool" where
  "zupt_path_is_safe path =
     (if path = [] then False
      else if length path \<ge> 4096 then False
      else if zupt_path_has_unsafe_text path then False
      else if path ! 0 = 0x2F \<or> path ! 0 = 0x5C then False
      else if 0x3A \<in> set path then False
      else path_scan [] path)"

text \<open>
  The stored form of a name: separators become a single slash, letters are folded when the
  name is compared. \<open>prev\<close> is \<open>previous_separator\<close>.
\<close>

fun normalize_loop :: "bool \<Rightarrow> bool \<Rightarrow> bytes \<Rightarrow> bytes" where
  "normalize_loop fold_ascii prev [] = []"
| "normalize_loop fold_ascii prev (c # cs) =
     (if c = 0x2F \<or> c = 0x5C then
        (if prev then normalize_loop fold_ascii prev cs
         else 0x2F # normalize_loop fold_ascii True cs)
      else
        (if fold_ascii \<and> c \<ge> 0x41 \<and> c \<le> 0x5A then c + 0x20 else c) #
        normalize_loop fold_ascii False cs)"

definition zupt_normalize_archive_path :: "bytes \<Rightarrow> bool \<Rightarrow> bytes" where
  "zupt_normalize_archive_path path fold_ascii = normalize_loop fold_ascii False path"

section \<open>The scanner accepts exactly UTF-8\<close>

text \<open>RFC 3629: the scalar values and their shortest encodings.\<close>

definition utf8_scalar :: "nat \<Rightarrow> bool" where
  "utf8_scalar cp \<longleftrightarrow> cp < 0x110000 \<and> \<not> (0xD800 \<le> cp \<and> cp \<le> 0xDFFF)"

definition utf8_nats :: "nat \<Rightarrow> nat list" where
  "utf8_nats c =
     (if c < 0x80 then [c]
      else if c < 0x800 then [0xC0 + c div 64, 0x80 + c mod 64]
      else if c < 0x10000 then [0xE0 + c div 4096, 0x80 + c div 64 mod 64, 0x80 + c mod 64]
      else [0xF0 + c div 262144, 0x80 + c div 4096 mod 64, 0x80 + c div 64 mod 64, 0x80 + c mod 64])"

definition utf8_encode :: "nat \<Rightarrow> bytes" where
  "utf8_encode c = map of_nat (utf8_nats c)"

lemma unat_and_mask: "unat (w AND mask n :: 'a::len word) = unat w mod 2 ^ n"
  by (simp only: take_bit_eq_mask [symmetric] unsigned_take_bit_eq) (simp only: take_bit_eq_mod)

lemma byte_masks:
  "unat (b AND 0x3F :: u8) = unat b mod 64" "unat (b AND 0x1F :: u8) = unat b mod 32"
  "unat (b AND 0x0F :: u8) = unat b mod 16" "unat (b AND 0x07 :: u8) = unat b mod 8"
proof -
  have m: "(0x3F :: u8) = mask 6" "(0x1F :: u8) = mask 5" "(0x0F :: u8) = mask 4" "(0x07 :: u8) = mask 3"
    by (simp_all add: mask_eq_exp_minus_1)
  show "unat (b AND 0x3F :: u8) = unat b mod 64" "unat (b AND 0x1F :: u8) = unat b mod 32"
    "unat (b AND 0x0F :: u8) = unat b mod 16" "unat (b AND 0x07 :: u8) = unat b mod 8"
    unfolding m unat_and_mask by simp_all
qed

lemma unat_push_bit:
  assumes "unat x * 2 ^ k < 2 ^ LENGTH('a)"
  shows "unat (push_bit k x :: 'a::len word) = unat x * 2 ^ k"
  using assms by (simp only: unsigned_push_bit_eq) (simp add: push_bit_eq_mult take_bit_eq_mod)

lemma continuation_byte: "(b :: u8) AND 0xC0 = 0x80 \<longleftrightarrow> 128 \<le> unat b \<and> unat b < 192"
proof -
  have m: "(0xC0 :: u8) = NOT (mask 6)" by (simp add: mask_eq_exp_minus_1)
  have "b AND 0xC0 = push_bit 6 (drop_bit 6 b)"
    unfolding m by (rule bit_word_eqI) (auto simp: bit_simps)
  moreover have "unat (push_bit 6 (drop_bit 6 b)) = unat b div 64 * 64"
  proof -
    have "unat b div 64 * 64 < 2 ^ LENGTH(8)" using unat_lt2p [of b] by simp
    then show ?thesis by (simp add: unat_push_bit unat_drop_bit)
  qed
  ultimately have "b AND 0xC0 = 0x80 \<longleftrightarrow> unat b div 64 * 64 = unat (0x80 :: u8)"
    by (simp only: word_unat_eq_iff)
  also have "\<dots> \<longleftrightarrow> unat b div 64 * 64 = 128" by simp
  also have "\<dots> \<longleftrightarrow> unat b div 64 = 2" by simp
  also have "\<dots> \<longleftrightarrow> 128 \<le> unat b \<and> unat b < 192" by linarith
  finally show ?thesis .
qed

lemma unat_push_or:
  assumes "unat y < 2 ^ k" "unat x < 2 ^ n" "n + k \<le> LENGTH('a)"
  shows "unat (push_bit k x OR y :: 'a::len word) = unat x * 2 ^ k + unat y"
proof -
  have "push_bit k x AND y = 0"
    using bit_unat_less [OF assms(1)] by (intro bit_word_eqI) (fastforce simp: bit_simps)
  then have s: "push_bit k x OR y = push_bit k x + y" by (simp add: disjunctive_add_eq_or)
  have "unat x * 2 ^ k + unat y < (unat x + 1) * 2 ^ k" using assms(1) by simp
  also have "\<dots> \<le> 2 ^ n * 2 ^ k" using assms(2) by (intro mult_right_mono) simp_all
  also have "\<dots> \<le> 2 ^ LENGTH('a)" using assms(3) by (simp flip: power_add)
  finally have lt: "unat x * 2 ^ k + unat y < 2 ^ LENGTH('a)" .
  then have p: "unat (push_bit k x) = unat x * 2 ^ k" by (intro unat_push_bit) simp
  show ?thesis
    using lt unfolding s p [symmetric] by (rule unat_add_lem [THEN iffD1])
qed


text \<open>The four branches of the scanner over naturals.\<close>

lemma scalar_2:
  "unat (push_bit 6 (ucast (a AND 0x1F)) OR ucast (b AND 0x3F) :: u32) = unat a mod 32 * 64 + unat b mod 64"
  for a b :: u8
  by (subst unat_push_or [of _ 6 _ 5]) (simp_all add: byte_masks)

lemma scalar_3:
  "unat (push_bit 12 (ucast (a AND 0x0F)) OR push_bit 6 (ucast (b AND 0x3F)) OR ucast (c AND 0x3F) :: u32) =
     unat a mod 16 * 4096 + (unat b mod 64 * 64 + unat c mod 64)"
  for a b c :: u8
proof -
  have i: "unat (push_bit 6 (ucast (b AND 0x3F)) OR ucast (c AND 0x3F) :: u32) = unat b mod 64 * 64 + unat c mod 64"
    by (subst unat_push_or [of _ 6 _ 6]) (simp_all add: byte_masks)
  have "unat b mod 64 * 64 + unat c mod 64 < 4096"
    using mod_less_divisor [of 64 "unat b"] mod_less_divisor [of 64 "unat c"] by linarith
  then show ?thesis
    using i by (subst unat_push_or [of _ 12 _ 4]) (simp_all add: byte_masks)
qed

lemma scalar_4:
  "unat (push_bit 18 (ucast (a AND 0x07)) OR push_bit 12 (ucast (b AND 0x3F)) OR
     push_bit 6 (ucast (c AND 0x3F)) OR ucast (d AND 0x3F) :: u32) =
   unat a mod 8 * 262144 + (unat b mod 64 * 4096 + (unat c mod 64 * 64 + unat d mod 64))"
  for a b c d :: u8
proof -
  have i: "unat (push_bit 6 (ucast (c AND 0x3F)) OR ucast (d AND 0x3F) :: u32) = unat c mod 64 * 64 + unat d mod 64"
    by (subst unat_push_or [of _ 6 _ 6]) (simp_all add: byte_masks)
  have l: "unat c mod 64 * 64 + unat d mod 64 < 4096"
    using mod_less_divisor [of 64 "unat c"] mod_less_divisor [of 64 "unat d"] by linarith
  have j: "unat (push_bit 12 (ucast (b AND 0x3F)) OR push_bit 6 (ucast (c AND 0x3F)) OR ucast (d AND 0x3F) :: u32) =
      unat b mod 64 * 4096 + (unat c mod 64 * 64 + unat d mod 64)"
    using i l by (subst unat_push_or [of _ 12 _ 6]) (simp_all add: byte_masks)
  have "unat b mod 64 * 4096 + (unat c mod 64 * 64 + unat d mod 64) < 262144"
    using l mod_less_divisor [of 64 "unat b"] by linarith
  then show ?thesis
    using j by (subst unat_push_or [of _ 18 _ 3]) (simp_all add: byte_masks)
qed

lemma byte_of_nat_eq: "n < 256 \<Longrightarrow> (of_nat n = (b :: u8)) \<longleftrightarrow> n = unat b"
  by (auto simp: unat_of_nat)

text \<open>Digits to base 64, and what they are made of.\<close>

lemma base64_digits:
  "y < 64 \<Longrightarrow> (x * 64 + y) div 64 = (x :: nat)" "y < 64 \<Longrightarrow> (x * 64 + y) mod 64 = y"
  by simp_all

lemma lead_mod:
  "(192 + x) mod 32 = x mod (32 :: nat)" "(224 + x) mod 16 = x mod (16 :: nat)"
  "(240 + x) mod 8 = x mod (8 :: nat)" "(128 + x) mod 64 = x mod (64 :: nat)"
  using mod_mult_self3 [of 6 32 x] mod_mult_self3 [of 14 16 x] mod_mult_self3 [of 30 8 x]
    mod_mult_self3 [of 2 64 x] by simp_all

lemma utf8_nats_2:
  assumes "2 \<le> x" "x < 32" "y < 64"
  shows "utf8_nats (x * 64 + y) = [192 + x, 128 + y] \<and> utf8_scalar (x * 64 + y)"
  using assms by (simp add: utf8_nats_def utf8_scalar_def)

lemma utf8_nats_3:
  assumes "x < 16" "y < 64" "z < 64" "x = 0 \<longrightarrow> 32 \<le> y" "x = 13 \<longrightarrow> y < 32"
  shows "utf8_nats (x * 4096 + (y * 64 + z)) = [224 + x, 128 + y, 128 + z] \<and>
    utf8_scalar (x * 4096 + (y * 64 + z))"
proof -
  define c where "c = x * 4096 + (y * 64 + z)"
  have c: "c = (x * 64 + y) * 64 + z" by (simp add: c_def)
  have d: "c div 64 = x * 64 + y" "c mod 64 = z" unfolding c using assms(3) by (rule base64_digits)+
  have "c div 4096 = c div 64 div 64" by (simp add: div_mult2_eq [symmetric])
  then have e: "c div 4096 = x" "c div 64 mod 64 = y" using d assms(2) by simp_all
  have r: "2048 \<le> c" "c < 65536" using assms by (cases "x = 0"; simp add: c_def)+
  have "\<not> (0xD800 \<le> c \<and> c \<le> 0xDFFF)" using assms by (cases "x = 13"; simp add: c_def)
  with r d e show ?thesis unfolding c_def [symmetric] utf8_nats_def utf8_scalar_def by simp
qed

lemma utf8_nats_4:
  assumes "x \<le> 4" "y < 64" "z < 64" "w < 64" "x = 0 \<longrightarrow> 16 \<le> y" "x = 4 \<longrightarrow> y < 16"
  shows "utf8_nats (x * 262144 + (y * 4096 + (z * 64 + w))) = [240 + x, 128 + y, 128 + z, 128 + w] \<and>
    utf8_scalar (x * 262144 + (y * 4096 + (z * 64 + w)))"
proof -
  define c where "c = x * 262144 + (y * 4096 + (z * 64 + w))"
  have c: "c = ((x * 64 + y) * 64 + z) * 64 + w" by (simp add: c_def)
  have d: "c div 64 = (x * 64 + y) * 64 + z" "c mod 64 = w" unfolding c using assms(4) by (rule base64_digits)+
  have "c div 4096 = c div 64 div 64" "c div 262144 = c div 64 div 64 div 64"
    by (simp_all add: div_mult2_eq [symmetric])
  moreover have "c div 64 div 64 = x * 64 + y" "c div 64 mod 64 = z"
    unfolding d using assms(3) by (rule base64_digits)+
  ultimately have e: "c div 262144 = x" "c div 4096 mod 64 = y" "c div 64 mod 64 = z"
    using assms(2) by simp_all
  have r: "65536 \<le> c" "c < 0x110000" using assms by (cases "x = 0"; cases "x = 4"; simp add: c_def)+
  with d e show ?thesis unfolding c_def [symmetric] utf8_nats_def utf8_scalar_def by simp
qed

text \<open>The scanner over the numerical values of the four bytes.\<close>

definition scan_nat :: "nat \<Rightarrow> nat \<Rightarrow> nat \<Rightarrow> nat \<Rightarrow> (nat \<times> nat) option" where
  "scan_nat a b c d =
     (if a < 128 then Some (1, a)
      else if b = 0 then None
      else if 194 \<le> a \<and> a \<le> 223 \<and> 128 \<le> b \<and> b < 192 then Some (2, a mod 32 * 64 + b mod 64)
      else if c = 0 then None
      else if \<not> (128 \<le> c \<and> c < 192) then None
      else if a = 224 \<and> 160 \<le> b \<and> b \<le> 191 \<or> 225 \<le> a \<and> a \<le> 236 \<and> 128 \<le> b \<and> b < 192 \<or>
              a = 237 \<and> 128 \<le> b \<and> b \<le> 159 \<or> 238 \<le> a \<and> a \<le> 239 \<and> 128 \<le> b \<and> b < 192
      then Some (3, a mod 16 * 4096 + (b mod 64 * 64 + c mod 64))
      else if d = 0 then None
      else if \<not> (128 \<le> d \<and> d < 192) then None
      else if \<not> (a = 240 \<and> 144 \<le> b \<and> b \<le> 191 \<or> 241 \<le> a \<and> a \<le> 243 \<and> 128 \<le> b \<and> b < 192 \<or>
                 a = 244 \<and> 128 \<le> b \<and> b \<le> 143)
      then None
      else Some (4, a mod 8 * 262144 + (b mod 64 * 4096 + (c mod 64 * 64 + d mod 64))))"

lemma scan_nat_eq:
  "map_option (apsnd unat) (zupt_decode_utf8_scalar t) =
     scan_nat (unat (c_at t 0)) (unat (c_at t 1)) (unat (c_at t 2)) (unat (c_at t 3))"
proof -
  have eq: "(w = v) \<longleftrightarrow> unat w = unat v" for w v :: u8 by (rule word_unat_eq_iff)
  define a b c d where "a = c_at t 0" and "b = c_at t 1" and "c = c_at t 2" and "d = c_at t 3"
  show ?thesis
    unfolding zupt_decode_utf8_scalar_def scan_nat_def Let_def a_def [symmetric] b_def [symmetric]
      c_def [symmetric] d_def [symmetric] continuation_byte word_le_nat_alt word_less_nat_alt
      eq [of a] eq [of b 0] eq [of c 0] eq [of d 0]
    by (simp add: scalar_2 scalar_3 scalar_4)
qed

lemma scan_nat_3:
  assumes "x < 16" "y < 64" "z < 64" "x = 0 \<longrightarrow> 32 \<le> y" "x = 13 \<longrightarrow> y < 32"
  shows "scan_nat (224 + x) (128 + y) (128 + z) d = Some (3, x * 4096 + (y * 64 + z))"
proof -
  have n: "\<not> 224 + x < 128" "128 + y \<noteq> 0"
    "\<not> (194 \<le> 224 + x \<and> 224 + x \<le> 223 \<and> 128 \<le> 128 + y \<and> 128 + y < 192)" "128 + z \<noteq> 0"
    "\<not> \<not> (128 \<le> 128 + z \<and> 128 + z < 192)"
    using assms(3) by simp_all
  have p: "224 + x = 224 \<and> 160 \<le> 128 + y \<and> 128 + y \<le> 191 \<or> 225 \<le> 224 + x \<and> 224 + x \<le> 236 \<and> 128 \<le> 128 + y \<and> 128 + y < 192 \<or>
      224 + x = 237 \<and> 128 \<le> 128 + y \<and> 128 + y \<le> 159 \<or> 238 \<le> 224 + x \<and> 224 + x \<le> 239 \<and> 128 \<le> 128 + y \<and> 128 + y < 192"
    using assms by linarith
  show ?thesis
    unfolding scan_nat_def if_not_P [OF n(1)] if_not_P [OF n(2)] if_not_P [OF n(3)] if_not_P [OF n(4)]
      if_not_P [OF n(5)] if_P [OF p] lead_mod
    using assms by simp
qed

lemma scan_nat_4:
  assumes "x \<le> 4" "y < 64" "z < 64" "w < 64" "x = 0 \<longrightarrow> 16 \<le> y" "x = 4 \<longrightarrow> y < 16"
  shows "scan_nat (240 + x) (128 + y) (128 + z) (128 + w) =
    Some (4, x * 262144 + (y * 4096 + (z * 64 + w)))"
proof -
  have n: "\<not> 240 + x < 128" "128 + y \<noteq> 0"
    "\<not> (194 \<le> 240 + x \<and> 240 + x \<le> 223 \<and> 128 \<le> 128 + y \<and> 128 + y < 192)" "128 + z \<noteq> 0"
    "\<not> \<not> (128 \<le> 128 + z \<and> 128 + z < 192)"
    "\<not> (240 + x = 224 \<and> 160 \<le> 128 + y \<and> 128 + y \<le> 191 \<or> 225 \<le> 240 + x \<and> 240 + x \<le> 236 \<and> 128 \<le> 128 + y \<and> 128 + y < 192 \<or>
      240 + x = 237 \<and> 128 \<le> 128 + y \<and> 128 + y \<le> 159 \<or> 238 \<le> 240 + x \<and> 240 + x \<le> 239 \<and> 128 \<le> 128 + y \<and> 128 + y < 192)"
    "128 + w \<noteq> 0" "\<not> \<not> (128 \<le> 128 + w \<and> 128 + w < 192)"
    using assms(3,4) by simp_all
  have p: "\<not> \<not> (240 + x = 240 \<and> 144 \<le> 128 + y \<and> 128 + y \<le> 191 \<or> 241 \<le> 240 + x \<and> 240 + x \<le> 243 \<and> 128 \<le> 128 + y \<and> 128 + y < 192 \<or>
      240 + x = 244 \<and> 128 \<le> 128 + y \<and> 128 + y \<le> 143)"
    using assms by linarith
  show ?thesis
    unfolding scan_nat_def if_not_P [OF n(1)] if_not_P [OF n(2)] if_not_P [OF n(3)] if_not_P [OF n(4)]
      if_not_P [OF n(5)] if_not_P [OF n(6)] if_not_P [OF n(7)] if_not_P [OF n(8)] if_not_P [OF p] lead_mod
    using assms by simp
qed

lemma scan_nat_encode:
  assumes "utf8_scalar k" "length (utf8_nats k) = n"
    "take n [a, b, c, d] = utf8_nats k"
  shows "scan_nat a b c d = Some (n, k)"
proof -
  consider "k < 0x80" | "0x80 \<le> k" "k < 0x800" | "0x800 \<le> k" "k < 0x10000" | "0x10000 \<le> k" by linarith
  then show ?thesis
  proof cases
    case 1
    then have "n = 1" "a = k" using assms by (auto simp: utf8_nats_def)
    with 1 show ?thesis by (simp add: scan_nat_def)
  next
    case 2
    define x y where "x = k div 64" and "y = k mod 64"
    have k: "k = x * 64 + y" "y < 64" by (simp_all add: x_def y_def)
    have "2 \<le> x" "x < 32" using 2 k by linarith+
    moreover have "a = 192 + x" "b = 128 + y" "n = 2"
      using assms(2,3) utf8_nats_2 [of x y] calculation k by auto
    ultimately show ?thesis using k by (simp add: scan_nat_def lead_mod)
  next
    case 3
    define x y z where "x = k div 64 div 64" and "y = k div 64 mod 64" and "z = k mod 64"
    have "(x * 64 + y) * 64 + z = k" by (simp add: x_def y_def z_def)
    then have k: "k = x * 4096 + (y * 64 + z)" "y < 64" "z < 64" by (simp, simp_all add: y_def z_def)
    have r: "x < 16" "x = 0 \<longrightarrow> 32 \<le> y" "x = 13 \<longrightarrow> y < 32"
      using 3 k assms(1) unfolding utf8_scalar_def by linarith+
    note e = utf8_nats_3 [OF r(1) k(2,3) r(2,3), folded k(1)]
    have n: "n = 3" using assms(2) e by simp
    have "a = 224 + x" "b = 128 + y" "c = 128 + z" using assms(3) e unfolding n by simp_all
    then show ?thesis using scan_nat_3 [OF r(1) k(2,3) r(2,3)] n k(1) by simp
  next
    case 4
    define x y z w where "x = k div 64 div 64 div 64" and "y = k div 64 div 64 mod 64"
      and "z = k div 64 mod 64" and "w = k mod 64"
    have "((x * 64 + y) * 64 + z) * 64 + w = k" by (simp add: x_def y_def z_def w_def)
    then have k: "k = x * 262144 + (y * 4096 + (z * 64 + w))" "y < 64" "z < 64" "w < 64"
      by (simp, simp_all add: y_def z_def w_def)
    have r: "x \<le> 4" "x = 0 \<longrightarrow> 16 \<le> y" "x = 4 \<longrightarrow> y < 16"
      using 4 k assms(1) unfolding utf8_scalar_def by linarith+
    note e = utf8_nats_4 [OF r(1) k(2-4) r(2,3), folded k(1)]
    have n: "n = 4" using assms(2) e by simp
    have "a = 240 + x" "b = 128 + y" "c = 128 + z" "d = 128 + w" using assms(3) e unfolding n by simp_all
    then show ?thesis using scan_nat_4 [OF r(1) k(2-4) r(2,3)] n k(1) by simp
  qed
qed

lemma scan_nat_cases:
  assumes "scan_nat a b c d = Some (n, k)"
  obtains "a < 128" "n = 1" "k = a"
    | "194 \<le> a" "a \<le> 223" "128 \<le> b" "b < 192" "n = 2" "k = a mod 32 * 64 + b mod 64"
    | "224 \<le> a" "a \<le> 239" "128 \<le> b" "b < 192" "a = 224 \<longrightarrow> 160 \<le> b" "a = 237 \<longrightarrow> b < 160"
      "128 \<le> c" "c < 192" "n = 3" "k = a mod 16 * 4096 + (b mod 64 * 64 + c mod 64)"
    | "240 \<le> a" "a \<le> 244" "128 \<le> b" "b < 192" "a = 240 \<longrightarrow> 144 \<le> b" "a = 244 \<longrightarrow> b < 144"
      "128 \<le> c" "c < 192" "128 \<le> d" "d < 192" "n = 4"
      "k = a mod 8 * 262144 + (b mod 64 * 4096 + (c mod 64 * 64 + d mod 64))"
proof (cases "a < 128")
  case True
  then show ?thesis using that(1) assms by (simp add: scan_nat_def)
next
  case a: False
  then have b: "b \<noteq> 0" using assms by (simp add: scan_nat_def split: if_splits)
  show ?thesis
  proof (cases "194 \<le> a \<and> a \<le> 223 \<and> 128 \<le> b \<and> b < 192")
    case True
    then show ?thesis using that(2) a b assms by (simp add: scan_nat_def)
  next
    case n2: False
    have c: "128 \<le> c" "c < 192"
      using assms unfolding scan_nat_def if_not_P [OF a] if_not_P [OF b] if_not_P [OF n2]
      by (auto split: if_splits)
    then have c0: "c \<noteq> 0" "\<not> \<not> (128 \<le> c \<and> c < 192)" by simp_all
    note r = assms [unfolded scan_nat_def if_not_P [OF a] if_not_P [OF b] if_not_P [OF n2]
      if_not_P [OF c0(1)] if_not_P [OF c0(2)]]
    show ?thesis
    proof (cases "a = 224 \<and> 160 \<le> b \<and> b \<le> 191 \<or> 225 \<le> a \<and> a \<le> 236 \<and> 128 \<le> b \<and> b < 192 \<or>
              a = 237 \<and> 128 \<le> b \<and> b \<le> 159 \<or> 238 \<le> a \<and> a \<le> 239 \<and> 128 \<le> b \<and> b < 192")
      case True
      from r [unfolded if_P [OF True]] have "n = 3" "k = a mod 16 * 4096 + (b mod 64 * 64 + c mod 64)"
        by simp_all
      with that(3) True c show ?thesis by linarith
    next
      case n3: False
      from r [unfolded if_not_P [OF n3]] have d: "128 \<le> d" "d < 192" "n = 4"
        "k = a mod 8 * 262144 + (b mod 64 * 4096 + (c mod 64 * 64 + d mod 64))"
        and p: "a = 240 \<and> 144 \<le> b \<and> b \<le> 191 \<or> 241 \<le> a \<and> a \<le> 243 \<and> 128 \<le> b \<and> b < 192 \<or>
                 a = 244 \<and> 128 \<le> b \<and> b \<le> 143"
        by (auto split: if_splits)
      with that(4) c show ?thesis by linarith
    qed
  qed
qed

lemma scan_nat_Some:
  assumes "scan_nat a b c d = Some (n, k)"
  shows "utf8_scalar k \<and> length (utf8_nats k) = n \<and> take n [a, b, c, d] = utf8_nats k"
  using assms
proof (cases rule: scan_nat_cases)
  case 1
    then show ?thesis by (simp add: utf8_nats_def utf8_scalar_def)
  next
    case 2
    obtain x y where "a = 192 + x" "b = 128 + y" using 2 le_Suc_ex [of 192 a] le_Suc_ex [of 128 b] by auto
    with 2 utf8_nats_2 [of x y] show ?thesis by (simp add: lead_mod)
  next
    case 3
    obtain x y z where "a = 224 + x" "b = 128 + y" "c = 128 + z"
      using 3 le_Suc_ex [of 224 a] le_Suc_ex [of 128 b] le_Suc_ex [of 128 c] by auto
    with 3 utf8_nats_3 [of x y z] show ?thesis by (auto simp: lead_mod)
  next
    case 4
    obtain x y z w where "a = 240 + x" "b = 128 + y" "c = 128 + z" "d = 128 + w"
      using 4 le_Suc_ex [of 240 a] le_Suc_ex [of 128 b] le_Suc_ex [of 128 c] le_Suc_ex [of 128 d] by auto
    with 4 utf8_nats_4 [of x y z w] show ?thesis by (auto simp: lead_mod)
qed


lemma utf8_nats_shape:
  assumes "utf8_scalar k"
  shows "0 < length (utf8_nats k) \<and> length (utf8_nats k) \<le> 4 \<and> list_all (\<lambda>x. x < 256) (utf8_nats k) \<and>
    (1 < length (utf8_nats k) \<longrightarrow> 0 \<notin> set (utf8_nats k))"
proof -
  have "k < 0x800 \<Longrightarrow> k div 64 < 32" "k < 0x10000 \<Longrightarrow> k div 4096 < 16" "k div 262144 \<le> 4"
    using assms unfolding utf8_scalar_def by linarith+
  moreover have "128 + n mod 64 < 256" for n :: nat
    using mod_less_divisor [of 64 n] by linarith
  ultimately show ?thesis by (auto simp: utf8_nats_def)
qed

lemma c_at_buffer: "i \<le> length t \<Longrightarrow> c_at t i = (t @ [0]) ! i"
  by (simp add: c_at_def nth_append)

lemma take_four: "n \<le> 4 \<Longrightarrow> take n [f 0, f 1, f 2, f (3 :: nat)] = map f [0..<n]"
proof -
  assume "n \<le> 4"
  have "[f 0, f 1, f 2, f 3] = map f [0..<4]" by (simp add: upt_rec numeral_2_eq_2 numeral_3_eq_3)
  with \<open>n \<le> 4\<close> show ?thesis by (simp add: take_map)
qed

lemma utf8_buffer:
  assumes "utf8_scalar k" "n = length (utf8_nats k)"
  shows "map (\<lambda>i. unat (c_at t i)) [0..<n] = utf8_nats k \<longleftrightarrow> (\<exists>rest. t @ [0] = utf8_encode k @ rest)"
proof
  note sh = utf8_nats_shape [OF assms(1), folded assms(2)]
  assume eq: "map (\<lambda>i. unat (c_at t i)) [0..<n] = utf8_nats k"
  have "n \<le> length (t @ [0])"
  proof (cases "n \<le> 1")
    case False
    then have "unat (c_at t (n - 1)) \<in> set (utf8_nats k)" using eq by (metis (no_types, lifting)
      atLeastLessThan_iff diff_less image_eqI le_eq_less_or_eq less_one linorder_not_less list.set_map set_upt zero_le zero_less_one)
    with sh False have "c_at t (n - 1) \<noteq> 0" by (metis leI unat_0)
    with c_at_nonzero [of t "n - 1"] show ?thesis by simp
  qed simp
  moreover from this have "take n (t @ [0]) = map (c_at t) [0..<n]"
    by (intro nth_equalityI) (simp_all add: c_at_buffer del: take_append)
  moreover have "map (c_at t) [0..<n] = utf8_encode k"
    unfolding utf8_encode_def eq [symmetric] by simp
  ultimately show "\<exists>rest. t @ [0] = utf8_encode k @ rest" by (metis append_take_drop_id)
next
  assume "\<exists>rest. t @ [0] = utf8_encode k @ rest"
  then obtain rest where r: "t @ [0] = utf8_encode k @ rest" by blast
  have le: "length (utf8_encode k) = n" by (simp add: utf8_encode_def assms(2))
  show "map (\<lambda>i. unat (c_at t i)) [0..<n] = utf8_nats k"
  proof (rule nth_equalityI)
    fix i assume i: "i < length (map (\<lambda>i. unat (c_at t i)) [0..<n])"
    then have "i < n" by simp
    moreover have "n \<le> length t + 1" using arg_cong [OF r, of length] le by simp
    ultimately have "c_at t i = utf8_encode k ! i" using le by (simp add: c_at_buffer r nth_append)
    moreover have "utf8_nats k ! i < 256"
      using utf8_nats_shape [OF assms(1)] \<open>i < n\<close> assms(2) by (simp add: list_all_length)
    ultimately show "map (\<lambda>i. unat (c_at t i)) [0..<n] ! i = utf8_nats k ! i"
      using \<open>i < n\<close> assms(2) by (simp add: utf8_encode_def unat_of_nat)
  qed (simp add: assms(2))
qed

lemma utf8_scanner_exact:
  "zupt_decode_utf8_scalar t = Some (n, cp) \<longleftrightarrow>
     utf8_scalar (unat cp) \<and> n = length (utf8_encode (unat cp)) \<and>
     (\<exists>rest. t @ [0] = utf8_encode (unat cp) @ rest)"
proof -
  have "zupt_decode_utf8_scalar t = Some (n, cp) \<longleftrightarrow>
      map_option (apsnd unat) (zupt_decode_utf8_scalar t) = Some (n, unat cp)"
    by (cases "zupt_decode_utf8_scalar t") (auto simp: word_unat_eq_iff)
  also have "\<dots> \<longleftrightarrow> utf8_scalar (unat cp) \<and> length (utf8_nats (unat cp)) = n \<and>
      take n [unat (c_at t 0), unat (c_at t 1), unat (c_at t 2), unat (c_at t 3)] = utf8_nats (unat cp)"
    unfolding scan_nat_eq using scan_nat_Some scan_nat_encode by blast
  also have "\<dots> \<longleftrightarrow> utf8_scalar (unat cp) \<and> length (utf8_nats (unat cp)) = n \<and>
      map (\<lambda>i. unat (c_at t i)) [0..<n] = utf8_nats (unat cp)"
    using utf8_nats_shape [of "unat cp"] take_four [of n "\<lambda>i. unat (c_at t i)"] by auto
  finally show ?thesis
    using utf8_buffer [of "unat cp" n t] by (auto simp: utf8_encode_def)
qed

section \<open>What is printed is safe text\<close>

lemma utf8_prefix:
  assumes "zupt_decode_utf8_scalar u = Some (n, cp)" "u \<noteq> []"
  shows "zupt_decode_utf8_scalar (take n u @ v) = Some (n, cp)" "zupt_decode_utf8_scalar (u @ v) = Some (n, cp)"
proof -
  have n: "n \<le> length u" using utf8_length [OF assms] by simp
  from assms(1) obtain rest where r: "utf8_scalar (unat cp)" "n = length (utf8_encode (unat cp))"
    "u @ [0] = utf8_encode (unat cp) @ rest"
    unfolding utf8_scanner_exact by blast
  then have t: "take n u = utf8_encode (unat cp)" using n by (metis append_eq_append_conv_if take_append take_all_iff
    append_eq_conv_conj diff_is_0_eq take_0 append_Nil2)
  have e: "\<exists>rest. (utf8_encode (unat cp) @ w) @ [0] = utf8_encode (unat cp) @ rest" for w by simp
  show "zupt_decode_utf8_scalar (take n u @ v) = Some (n, cp)"
    unfolding utf8_scanner_exact t using r(1,2) e by blast
  have "u = utf8_encode (unat cp) @ drop n u" using t by (metis append_take_drop_id)
  then show "zupt_decode_utf8_scalar (u @ v) = Some (n, cp)"
    unfolding utf8_scanner_exact using r(1,2) e [of "drop n u @ v"] by (metis append_assoc)
qed

lemma safe_append: "\<not> zupt_path_has_unsafe_text u \<Longrightarrow> zupt_path_has_unsafe_text (u @ v) = zupt_path_has_unsafe_text v"
proof (induction u rule: zupt_path_has_unsafe_text.induct)
  case (2 c cs)
  then obtain n cp where d: "zupt_decode_utf8_scalar (c # cs) = Some (n, cp)"
    "\<not> zupt_codepoint_is_display_control cp" "\<not> zupt_path_has_unsafe_text (drop n (c # cs))"
    by (auto simp: zupt_path_has_unsafe_text.simps(2) [of c cs] split: option.splits if_splits)
  have "zupt_decode_utf8_scalar (c # (cs @ v)) = Some (n, cp)" "n \<le> length (c # cs)"
    using utf8_prefix(2) [OF d(1), of v] utf8_length [OF d(1)] by simp_all
  then have "zupt_path_has_unsafe_text ((c # cs) @ v) = zupt_path_has_unsafe_text (drop n (c # cs) @ v)"
    using d(2) by (simp add: zupt_path_has_unsafe_text.simps(2) [of c "cs @ v"] del: drop_append)
      (simp add: drop_Cons' split: if_splits)
  also have "\<dots> = zupt_path_has_unsafe_text v" using 2(1) [OF d(1) refl d(2,3)] .
  finally show ?case .
qed simp

lemma scalar_safe:
  assumes "zupt_decode_utf8_scalar u = Some (n, cp)" "u \<noteq> []" "\<not> zupt_codepoint_is_display_control cp"
  shows "\<not> zupt_path_has_unsafe_text (take n u)"
proof -
  have n: "0 < n" "n \<le> length u" using utf8_length [OF assms(1,2)] by simp_all
  then obtain c cs where t: "take n u = c # cs" using assms(2) by (cases "take n u") auto
  have "zupt_decode_utf8_scalar (c # cs) = Some (n, cp)"
    using utf8_prefix(1) [OF assms(1,2), of "[]"] t by simp
  moreover have "drop n (c # cs) = []" using arg_cong [OF t, of length] n by simp
  ultimately show ?thesis
    unfolding t using assms(3) by (simp add: zupt_path_has_unsafe_text.simps(2))
qed

definition printable :: "u8 \<Rightarrow> bool" where
  "printable c \<longleftrightarrow> 0x20 \<le> c \<and> c < 0x7F"

lemma printable_safe: "list_all printable u \<Longrightarrow> \<not> zupt_path_has_unsafe_text u"
proof (induction u)
  case (Cons c cs)
  then have c: "32 \<le> unat c" "unat c < 127"
    by (simp_all add: printable_def word_le_nat_alt word_less_nat_alt)
  then have "zupt_decode_utf8_scalar (c # cs) = Some (1, ucast c)"
    by (simp add: zupt_decode_utf8_scalar_def c_at_def word_less_nat_alt)
  moreover have "\<not> zupt_codepoint_is_display_control (ucast c)"
    using c by (simp add: zupt_codepoint_is_display_control_def word_le_nat_alt word_less_nat_alt word_unat_eq_iff)
  ultimately show ?case using Cons by (simp add: zupt_path_has_unsafe_text.simps(2))
qed simp

lemma hex_digit_printable: "unat d < 16 \<Longrightarrow> printable (hex_digit d)"
proof -
  assume d: "unat d < 16"
  show ?thesis
  proof (cases "unat d < 10")
    case True
    then have "unat (0x30 + d) = 48 + unat d" by (simp add: unat_word_ariths)
    then show ?thesis using True by (simp add: hex_digit_def printable_def word_le_nat_alt word_less_nat_alt)
  next
    case False
    then have "unat (0x41 + (d - 10)) = 65 + (unat d - 10)" using d
      by (simp add: unat_word_ariths unat_sub word_le_nat_alt)
    then show ?thesis using False d by (simp add: hex_digit_def printable_def word_le_nat_alt word_less_nat_alt)
  qed
qed

lemma print_escaped_printable: "list_all printable (print_escaped c)"
proof -
  have "unat (drop_bit 4 c) < 16" using unat_lt2p [of c] by (simp add: unat_drop_bit)
  moreover have "unat (c AND 0x0F) < 16" by (simp add: byte_masks)
  moreover have "printable 0x5C" "printable 0x78" by (simp_all add: printable_def)
  ultimately show ?thesis by (simp add: print_escaped_def hex_digit_printable)
qed

lemma print_terminal_safe: "\<not> zupt_path_has_unsafe_text (zupt_print_terminal_safe_text t)"
proof (induction t rule: zupt_print_terminal_safe_text.induct)
  case (2 c cs)
  show ?case
  proof (cases "zupt_decode_utf8_scalar (c # cs)")
    case None
    then show ?thesis
      using 2(1) safe_append [OF printable_safe [OF print_escaped_printable]]
      by (simp add: zupt_print_terminal_safe_text.simps(2))
  next
    case (Some a)
    then obtain n cp where d: "zupt_decode_utf8_scalar (c # cs) = Some (n, cp)" by (cases a) auto
    let ?out = "if zupt_codepoint_is_display_control cp then concat (map print_escaped (take n (c # cs)))
           else take n (c # cs)"
    have "list_all printable (concat (map print_escaped l))" for l
      by (induction l) (simp_all add: print_escaped_printable)
    then have "\<not> zupt_path_has_unsafe_text ?out"
      using scalar_safe [OF d] printable_safe by simp
    then show ?thesis
      unfolding zupt_print_terminal_safe_text.simps(2) d option.case prod.case
      using 2(2) [OF d refl] safe_append by blast
  qed
qed simp

lemma print_safe_unchanged: "\<not> zupt_path_has_unsafe_text t \<Longrightarrow> zupt_print_terminal_safe_text t = t"
proof (induction t rule: zupt_path_has_unsafe_text.induct)
  case (2 c cs)
  then obtain n cp where d: "zupt_decode_utf8_scalar (c # cs) = Some (n, cp)"
    "\<not> zupt_codepoint_is_display_control cp" "\<not> zupt_path_has_unsafe_text (drop n (c # cs))"
    by (auto simp: zupt_path_has_unsafe_text.simps(2) [of c cs] split: option.splits if_splits)
  then show ?case
    unfolding zupt_print_terminal_safe_text.simps(2) d(1) option.case prod.case
    using 2(1) [OF d(1) refl d(2,3)] by (simp only: if_False append_take_drop_id)
qed simp

text \<open>
  What must not reach a terminal, from the Unicode character database: the control characters
  (category Cc), the line and paragraph separators (Zl, Zp), the characters that steer the
  bidirectional algorithm (Bidi_Control), the other zero-width and invisible format characters of
  the block U+2000-206F and the byte order mark, and the interlinear annotation characters. The
  format characters outside these groups (U+00AD, U+0600-0605, U+180E, the tags of plane 14 and
  others) are not in the list.
\<close>

definition unicode_Cc :: "nat list" where
  "unicode_Cc = [0x00..<0x20] @ [0x7F..<0xA0]"

definition unicode_separators :: "nat list" where
  "unicode_separators = [0x2028, 0x2029]"

definition unicode_Bidi_Control :: "nat list" where
  "unicode_Bidi_Control = [0x061C, 0x200E, 0x200F] @ [0x202A..<0x202F] @ [0x2066..<0x206A]"

definition unicode_invisible :: "nat list" where
  "unicode_invisible = [0x200B, 0x200C, 0x200D, 0xFEFF] @ [0x2060..<0x2066] @ [0x206A..<0x2070]"

definition unicode_annotation :: "nat list" where
  "unicode_annotation = [0xFFF9, 0xFFFA, 0xFFFB]"

definition displayable :: "nat \<Rightarrow> bool" where
  "displayable k \<longleftrightarrow> utf8_scalar k \<and> k \<notin> set (unicode_Cc @ unicode_separators @
     unicode_Bidi_Control @ unicode_invisible @ unicode_annotation)"

lemma display_ranges: fixes k :: nat shows
  "8203 \<le> k \<and> k \<le> 8207 \<longleftrightarrow> k = 8203 \<or> k = 8204 \<or> k = 8205 \<or> k = 8206 \<or> k = 8207"
  "65529 \<le> k \<and> k \<le> 65531 \<longleftrightarrow> k = 65529 \<or> k = 65530 \<or> k = 65531"
  "8232 \<le> k \<and> k \<le> 8238 \<longleftrightarrow> k = 8232 \<or> k = 8233 \<or> 8234 \<le> k \<and> k < 8239"
  "8288 \<le> k \<and> k \<le> 8303 \<longleftrightarrow> 8288 \<le> k \<and> k < 8294 \<or> 8294 \<le> k \<and> k < 8298 \<or> 8298 \<le> k \<and> k < 8304"
  "127 \<le> k \<and> k \<le> 159 \<longleftrightarrow> 127 \<le> k \<and> k < 160" "0 \<le> k \<and> k < 32 \<longleftrightarrow> k < 32"
  by presburger+

lemma display_control_unicode:
  assumes "utf8_scalar (unat cp)"
  shows "zupt_codepoint_is_display_control cp \<longleftrightarrow> \<not> displayable (unat cp)"
proof -
  let ?k = "unat cp"
  have "zupt_codepoint_is_display_control cp \<longleftrightarrow>
      ?k < 32 \<or> 127 \<le> ?k \<and> ?k \<le> 159 \<or> ?k = 1564 \<or> 8203 \<le> ?k \<and> ?k \<le> 8207 \<or> 8232 \<le> ?k \<and> ?k \<le> 8238 \<or>
      8288 \<le> ?k \<and> ?k \<le> 8303 \<or> ?k = 65279 \<or> 65529 \<le> ?k \<and> ?k \<le> 65531"
    by (simp add: zupt_codepoint_is_display_control_def word_le_nat_alt word_less_nat_alt word_unat_eq_iff)
  moreover have "?k \<in> set (unicode_Cc @ unicode_separators @ unicode_Bidi_Control @ unicode_invisible @
      unicode_annotation) \<longleftrightarrow>
      ?k < 32 \<or> 127 \<le> ?k \<and> ?k \<le> 159 \<or> ?k = 1564 \<or> 8203 \<le> ?k \<and> ?k \<le> 8207 \<or> 8232 \<le> ?k \<and> ?k \<le> 8238 \<or>
      8288 \<le> ?k \<and> ?k \<le> 8303 \<or> ?k = 65279 \<or> 65529 \<le> ?k \<and> ?k \<le> 65531"
    unfolding unicode_Cc_def unicode_separators_def unicode_Bidi_Control_def unicode_invisible_def
      unicode_annotation_def set_append set_upt list.set Un_iff atLeastLessThan_iff insert_iff empty_iff
    unfolding display_ranges by blast
  ultimately show ?thesis using assms unfolding displayable_def by blast
qed

lemma utf8_decode_encode:
  assumes "utf8_scalar k"
  shows "zupt_decode_utf8_scalar (utf8_encode k @ v) = Some (length (utf8_encode k), word_of_nat k)"
proof -
  have "k < 2 ^ 32" using assms by (auto simp: utf8_scalar_def)
  then have "unat (word_of_nat k :: u32) = k" by (simp add: unat_of_nat)
  with assms show ?thesis by (simp add: utf8_scanner_exact)
qed

lemma utf8_encode_nonempty: "utf8_encode k \<noteq> []"
  by (simp add: utf8_encode_def utf8_nats_def)

text \<open>The name check accepts just the encodings of displayable scalars.\<close>

lemma safe_text_displayable:
  "\<not> zupt_path_has_unsafe_text t \<longleftrightarrow> (\<exists>ks. t = concat (map utf8_encode ks) \<and> list_all displayable ks)"
proof
  show "\<not> zupt_path_has_unsafe_text t \<Longrightarrow> \<exists>ks. t = concat (map utf8_encode ks) \<and> list_all displayable ks"
  proof (induction t rule: zupt_path_has_unsafe_text.induct)
    case 1
    show ?case by (intro exI [of _ "[]"]) simp
  next
    case (2 c cs)
    then obtain n cp where d: "zupt_decode_utf8_scalar (c # cs) = Some (n, cp)"
      "\<not> zupt_codepoint_is_display_control cp" "\<not> zupt_path_has_unsafe_text (drop n (c # cs))"
      by (auto simp: zupt_path_has_unsafe_text.simps(2) [of c cs] split: option.splits if_splits)
    from d(1) have u: "utf8_scalar (unat cp)" "n = length (utf8_encode (unat cp))"
      and "\<exists>rest. (c # cs) @ [0] = utf8_encode (unat cp) @ rest"
      unfolding utf8_scanner_exact by blast+
    then have t: "take n (c # cs) = utf8_encode (unat cp)"
      using utf8_length [OF d(1)] by (metis append_eq_conv_conj list.distinct(1) take_append
        append_Nil2 diff_is_0_eq take_0)
    from 2(1) [OF d(1) refl d(2,3)] obtain ks where
      ks: "drop n (c # cs) = concat (map utf8_encode ks)" "list_all displayable ks" by blast
    have "c # cs = concat (map utf8_encode (unat cp # ks))"
      using append_take_drop_id [of n "c # cs"] unfolding t ks(1) by simp
    moreover have "list_all displayable (unat cp # ks)"
      using ks(2) d(2) display_control_unicode [OF u(1)] by simp
    ultimately show ?case by blast
  qed
  have "list_all displayable ks \<Longrightarrow> \<not> zupt_path_has_unsafe_text (concat (map utf8_encode ks))" for ks
  proof (induction ks)
    case (Cons k ks)
    then have u: "utf8_scalar k" by (simp add: displayable_def)
    then have k: "unat (word_of_nat k :: u32) = k" by (auto simp: utf8_scalar_def unat_of_nat)
    have "\<not> zupt_codepoint_is_display_control (word_of_nat k)"
      using display_control_unicode [of "word_of_nat k"] Cons.prems u k by simp
    from scalar_safe [OF utf8_decode_encode [OF u, of "[]"] _ this]
    have "\<not> zupt_path_has_unsafe_text (utf8_encode k)" by (simp add: utf8_encode_nonempty)
    with Cons show ?case by (simp add: safe_append)
  qed simp
  then show "\<exists>ks. t = concat (map utf8_encode ks) \<and> list_all displayable ks \<Longrightarrow> \<not> zupt_path_has_unsafe_text t"
    by blast
qed

text \<open>A format character outside the list reaches the terminal as it is: the soft hyphen.\<close>

lemma format_character_printed: "zupt_print_terminal_safe_text [0xC2, 0xAD] = [0xC2, 0xAD]"
  by (simp add: zupt_print_terminal_safe_text.simps(2) zupt_decode_utf8_scalar_def c_at_def
    zupt_codepoint_is_display_control_def)

section \<open>Accepted paths stay below the extraction directory\<close>

text \<open>
  The components of a path, and what a path names when it is resolved from a directory
  (a list of components): empty components and a single dot stay, two dots go up.
\<close>

fun split_path :: "bytes \<Rightarrow> bytes \<Rightarrow> bytes list" where
  "split_path cur [] = [cur]"
| "split_path cur (c # cs) = (if is_sep c then cur # split_path [] cs else split_path (cur @ [c]) cs)"

fun resolve_path :: "bytes list \<Rightarrow> bytes list \<Rightarrow> bytes list" where
  "resolve_path dir [] = dir"
| "resolve_path dir (c # cs) =
     (if c = [] \<or> c = [0x2E] then resolve_path dir cs
      else if c = [0x2E, 0x2E] then resolve_path (butlast dir) cs
      else resolve_path (dir @ [c]) cs)"

definition entry_components :: "bytes \<Rightarrow> bytes list" where
  "entry_components path = filter (\<lambda>c. c \<noteq> []) (split_path [] path)"

lemma split_path_nonempty [simp]: "split_path cur p \<noteq> []"
  by (induction cur p rule: split_path.induct) auto

lemma path_scan_eq:
  "path_scan cur p \<longleftrightarrow> last (split_path cur p) \<noteq> [] \<and>
     list_all (\<lambda>c. c = [] \<or> component_ok c) (split_path cur p)"
  by (induction cur p rule: split_path.induct) auto

lemma component_ok_dots: "component_ok c \<Longrightarrow> c \<noteq> [0x2E] \<and> c \<noteq> [0x2E, 0x2E]"
  by (auto simp: component_ok_def)

lemma resolve_ok:
  "list_all (\<lambda>c. c = [] \<or> component_ok c) cs \<Longrightarrow> resolve_path dir cs = dir @ filter (\<lambda>c. c \<noteq> []) cs"
  by (induction cs arbitrary: dir) (auto dest: component_ok_dots)

lemma split_path_chars: "c \<in> set (split_path cur p) \<Longrightarrow> set c \<subseteq> set cur \<union> set p"
  by (induction cur p rule: split_path.induct) (auto split: if_splits)

lemma split_path_no_sep:
  "list_all (\<lambda>x. \<not> is_sep x) cur \<Longrightarrow> c \<in> set (split_path cur p) \<Longrightarrow> list_all (\<lambda>x. \<not> is_sep x) c"
  by (induction cur p rule: split_path.induct) (auto split: if_splits)

text \<open>The reserved device names, in upper case.\<close>

definition dos_devices :: "bytes set" where
  "dos_devices = {[0x43, 0x4F, 0x4E], [0x50, 0x52, 0x4E], [0x41, 0x55, 0x58], [0x4E, 0x55, 0x4C]} \<union>
     {p @ [d] | p d. p \<in> {[0x43, 0x4F, 0x4D], [0x4C, 0x50, 0x54]} \<and> 0x31 \<le> d \<and> d \<le> 0x39}"

lemma ascii_equal_loop_eq:
  "length as = length bs \<Longrightarrow> ascii_equal_loop as bs \<longleftrightarrow> map ascii_upper as = map ascii_upper bs"
  by (induction as bs rule: ascii_equal_loop.induct) auto

lemma ascii_equal_ci_eq: "zupt_ascii_equal_ci a b \<longleftrightarrow> map ascii_upper a = map ascii_upper b"
  using ascii_equal_loop_eq [of a b] map_eq_imp_length_eq [of ascii_upper a ascii_upper b]
  by (auto simp: zupt_ascii_equal_ci_def)

lemma upper_letter:
  assumes "0x41 \<le> l" "l \<le> 0x5A"
  shows "ascii_upper a = l \<longleftrightarrow> a = l \<or> a = l + 0x20"
proof -
  have l: "65 \<le> unat l" "unat l \<le> 90" using assms by (simp_all add: word_le_nat_alt)
  then have u: "unat (l + 0x20) = unat l + 32" by (simp add: unat_word_ariths)
  show ?thesis
  proof (cases "97 \<le> unat a \<and> unat a \<le> 122")
    case True
    then have "unat (a - 0x20) = unat a - 32" by (simp add: unat_sub word_le_nat_alt)
    then show ?thesis using True l u
      by (auto simp: ascii_upper_def word_le_nat_alt word_unat_eq_iff)
  next
    case False
    then show ?thesis using l u
      by (auto simp: ascii_upper_def word_le_nat_alt word_unat_eq_iff)
  qed
qed

lemma upper_digit: "0x31 \<le> ascii_upper d \<and> ascii_upper d \<le> 0x39 \<longleftrightarrow> 0x31 \<le> d \<and> d \<le> 0x39"
proof (cases "97 \<le> unat d \<and> unat d \<le> 122")
  case True
  then have "unat (d - 0x20) = unat d - 32" by (simp add: unat_sub word_le_nat_alt)
  then show ?thesis using True by (auto simp: ascii_upper_def word_le_nat_alt)
next
  case False
  then show ?thesis by (auto simp: ascii_upper_def word_le_nat_alt)
qed

lemma map_upper_4:
  "length b = 4 \<Longrightarrow> map ascii_upper b = [ascii_upper (b ! 0), ascii_upper (b ! 1), ascii_upper (b ! 2), ascii_upper (b ! 3)]"
  by (cases b; cases "tl b"; cases "tl (tl b)"; cases "tl (tl (tl b))") auto

lemma reserved_dos_name_iff:
  "zupt_is_reserved_dos_name c \<longleftrightarrow> map ascii_upper (takeWhile (\<lambda>x. x \<noteq> 0x2E) c) \<in> dos_devices"
proof -
  define b where "b = takeWhile (\<lambda>x. x \<noteq> 0x2E) c"
  have nth: "length b = 4 \<Longrightarrow> i < 4 \<Longrightarrow> c ! i = b ! i" for i
    by (simp add: b_def takeWhile_nth)
  have up: "map ascii_upper [0x43, 0x4F, 0x4E] = [0x43, 0x4F, 0x4E]"
    "map ascii_upper [0x50, 0x52, 0x4E] = [0x50, 0x52, 0x4E]"
    "map ascii_upper [0x41, 0x55, 0x58] = [0x41, 0x55, 0x58]"
    "map ascii_upper [0x4E, 0x55, 0x4C] = [0x4E, 0x55, 0x4C]"
    by (simp_all add: ascii_upper_def)
  have dev: "length b = 4 \<and> ascii_upper (b ! 0) = p \<and> ascii_upper (b ! 1) = q \<and> ascii_upper (b ! 2) = r \<and>
      0x31 \<le> b ! 3 \<and> b ! 3 \<le> 0x39 \<longleftrightarrow>
      (\<exists>d. map ascii_upper b = [p, q, r] @ [d] \<and> 0x31 \<le> d \<and> d \<le> 0x39)" for p q r
  proof
    assume "\<exists>d. map ascii_upper b = [p, q, r] @ [d] \<and> 0x31 \<le> d \<and> d \<le> 0x39"
    then obtain d where d: "map ascii_upper b = [p, q, r, d]" "0x31 \<le> d" "d \<le> 0x39" by auto
    from d(1) have "length (map ascii_upper b) = 4" by (simp only: list.size)
    then have "length b = 4" by simp
    with d map_upper_4 [of b] upper_digit [of "b ! 3"]
    show "length b = 4 \<and> ascii_upper (b ! 0) = p \<and> ascii_upper (b ! 1) = q \<and> ascii_upper (b ! 2) = r \<and>
      0x31 \<le> b ! 3 \<and> b ! 3 \<le> 0x39" by simp
  qed (use map_upper_4 [of b] upper_digit [of "b ! 3"] in auto)
  have com: "length b = 4 \<and> (c ! 0 = 0x43 \<or> c ! 0 = 0x63) \<and> (c ! 1 = 0x4F \<or> c ! 1 = 0x6F) \<and>
      (c ! 2 = 0x4D \<or> c ! 2 = 0x6D) \<and> c ! 3 \<ge> 0x31 \<and> c ! 3 \<le> 0x39 \<longleftrightarrow>
      (\<exists>d. map ascii_upper b = [0x43, 0x4F, 0x4D] @ [d] \<and> 0x31 \<le> d \<and> d \<le> 0x39)"
    unfolding dev [symmetric] using nth by (auto simp: upper_letter)
  have lpt: "length b = 4 \<and> (c ! 0 = 0x4C \<or> c ! 0 = 0x6C) \<and> (c ! 1 = 0x50 \<or> c ! 1 = 0x70) \<and>
      (c ! 2 = 0x54 \<or> c ! 2 = 0x74) \<and> c ! 3 \<ge> 0x31 \<and> c ! 3 \<le> 0x39 \<longleftrightarrow>
      (\<exists>d. map ascii_upper b = [0x4C, 0x50, 0x54] @ [d] \<and> 0x31 \<le> d \<and> d \<le> 0x39)"
    unfolding dev [symmetric] using nth by (auto simp: upper_letter)
  show ?thesis
    unfolding zupt_is_reserved_dos_name_def b_def [symmetric] Let_def ascii_equal_ci_eq up com lpt dos_devices_def
    by auto
qed


lemma normalize_components:
  "prev \<longrightarrow> cur = [] \<Longrightarrow>
   filter (\<lambda>c. c \<noteq> []) (split_path cur (normalize_loop False prev p)) = filter (\<lambda>c. c \<noteq> []) (split_path cur p)"
proof (induction p arbitrary: prev cur)
  case (Cons c p)
  then show ?case
    using Cons.IH [of True "[]"] Cons.IH [of False "cur @ [c]"] by (auto simp: is_sep_def)
qed simp

lemma path_is_safe_eq:
  "zupt_path_is_safe p \<longleftrightarrow>
     p \<noteq> [] \<and> length p < 4096 \<and> \<not> zupt_path_has_unsafe_text p \<and> \<not> is_sep (hd p) \<and> 0x3A \<notin> set p \<and>
     last (split_path [] p) \<noteq> [] \<and> list_all (\<lambda>c. c = [] \<or> component_ok c) (split_path [] p)"
  by (cases p) (auto simp: zupt_path_is_safe_def path_scan_eq is_sep_def)

section \<open>Properties\<close>

text \<open>
  C39. The UTF-8 scanner is RFC 3629: it reports a scalar value and a length precisely when the
  string, terminator included, begins with the shortest encoding of that Unicode scalar value
  (no surrogates, nothing above \<open>10FFFF\<close>, no overlong form), and it never reads past the
  terminating NUL.
\<close>

theorem utf8_scanner_is_rfc3629:
  "zupt_decode_utf8_scalar t = Some (n, cp) \<longleftrightarrow>
     utf8_scalar (unat cp) \<and> n = length (utf8_encode (unat cp)) \<and>
     (\<exists>rest. t @ [0] = utf8_encode (unat cp) @ rest)"
  by (rule utf8_scanner_exact)

text \<open>
  C40. What the terminal-safe printer emits for any bytes whatsoever is the UTF-8 encoding of a
  sequence of Unicode scalar values none of which is a control character, a line or paragraph
  separator, a bidirectional control, an invisible format character of U+200B-206F, a byte order
  mark or an annotation character (the lists above, taken from the Unicode character database and
  not from the code). A text is printed unchanged precisely when it is such an encoding already,
  which is also what entry names are checked for. Other format characters (U+00AD and others) are
  not on these lists and are printed.
\<close>

theorem terminal_output_is_safe:
  "(\<exists>ks. zupt_print_terminal_safe_text t = concat (map utf8_encode ks) \<and> list_all displayable ks) \<and>
   (zupt_print_terminal_safe_text t = t \<longleftrightarrow>
      (\<exists>ks. t = concat (map utf8_encode ks) \<and> list_all displayable ks)) \<and>
   (zupt_path_has_unsafe_text t \<longleftrightarrow> zupt_print_terminal_safe_text t \<noteq> t)"
  unfolding safe_text_displayable [symmetric]
  using print_terminal_safe [of t] print_safe_unchanged [of t] by metis

text \<open>
  C18. A path that is accepted resolves from every directory to a place strictly below it: the
  directory followed by the path's nonempty components, of which there is at least one. It is
  relative, has no drive or stream colon and no control characters, and no component ends in a
  dot or space or is a reserved device name with or without an extension. Normalising the path
  for the archive does not change its components.
\<close>

theorem accepted_path_is_confined:
  assumes "zupt_path_is_safe p"
  shows "resolve_path dir (split_path [] p) = dir @ entry_components p \<and> entry_components p \<noteq> [] \<and>
    entry_components (zupt_normalize_archive_path p False) = entry_components p \<and>
    \<not> is_sep (hd p) \<and> 0x3A \<notin> set p \<and> \<not> zupt_path_has_unsafe_text p \<and>
    list_all (\<lambda>c. c \<noteq> [] \<and> list_all (\<lambda>x. \<not> is_sep x) c \<and> last c \<noteq> 0x2E \<and> last c \<noteq> 0x20 \<and>
      map ascii_upper (takeWhile (\<lambda>x. x \<noteq> 0x2E) c) \<notin> dos_devices) (entry_components p)"
proof -
  have ok: "last (split_path [] p) \<noteq> []" "list_all (\<lambda>c. c = [] \<or> component_ok c) (split_path [] p)"
    "\<not> is_sep (hd p)" "0x3A \<notin> set p" "\<not> zupt_path_has_unsafe_text p"
    using assms unfolding path_is_safe_eq by simp_all
  have "last (split_path [] p) \<in> set (entry_components p)"
    using ok(1) by (simp add: entry_components_def)
  then have ne: "entry_components p \<noteq> []" by auto
  have comp: "list_all (\<lambda>c. c \<noteq> [] \<and> list_all (\<lambda>x. \<not> is_sep x) c \<and> last c \<noteq> 0x2E \<and> last c \<noteq> 0x20 \<and>
      map ascii_upper (takeWhile (\<lambda>x. x \<noteq> 0x2E) c) \<notin> dos_devices) (entry_components p)"
    using ok(2) split_path_no_sep [of "[]" _ p]
    by (auto simp: entry_components_def list_all_iff component_ok_def last_conv_nth reserved_dos_name_iff
        split: if_splits)
  have "entry_components (zupt_normalize_archive_path p False) = entry_components p"
    using normalize_components [of False "[]" p] by (simp add: entry_components_def zupt_normalize_archive_path_def)
  with resolve_ok [OF ok(2), of dir] ne ok(3-5) comp show ?thesis
    by (simp only: entry_components_def [symmetric] simp_thms)
qed

theorem accepted_path_is_confined_witness:
  "resolve_path [[0x78]] (split_path [] [0x61, 0x2F, 0x62, 0x2E, 0x63]) = [[0x78], [0x61], [0x62, 0x2E, 0x63]]"
proof -
  have "zupt_path_is_safe [0x61, 0x2F, 0x62, 0x2E, 0x63]"
    by (simp add: zupt_path_is_safe_def zupt_path_has_unsafe_text.simps(2) zupt_decode_utf8_scalar_def c_at_def
        zupt_codepoint_is_display_control_def is_sep_def component_ok_def reserved_dos_name_iff dos_devices_def
        ascii_upper_def)
  from accepted_path_is_confined [OF this, of "[[0x78]]"]
  show ?thesis by (simp add: entry_components_def is_sep_def)
qed

end
