(* ===== verification/Dedup.thy ===== *)
theory Dedup
  imports Wire
begin

text \<open>
  Block deduplication (\<open>src/zupt_dedup.c\<close>). The index is an open-addressing table with linear
  probing of at most 64 slots and no deletion; an entry is found by the XXH64 fingerprint and a
  128-bit digest together. References to earlier blocks are frames of their own, plain or
  sealed.

  The table's invariant is that every occupied slot lies on the probe chain of its fingerprint
  with no empty slot before it. From it follow the laws of the interface \<open>content_index\<close>: a
  lookup answers with the value of the first insertion under the key and nothing else. Index
  sizes (\<open>uint32_t\<close> in the code) are natural numbers: the capacity is 2097152, so no product or
  sum over them leaves 32 bits.
\<close>

section \<open>The table\<close>

record zupt_dedup_entry_t =
  de_fingerprint :: u64
  de_block_offset :: u64
  de_digest :: bytes
  de_block_size :: u32
  de_occupied :: bool
  de_aad_seq :: u64

record zupt_dedup_ctx =
  dd_table :: "zupt_dedup_entry_t list"
  dd_capacity :: nat
  dd_count :: nat
  dd_blocks_seen :: u64
  dd_blocks_deduped :: u64
  dd_bytes_saved :: u64

definition ZUPT_DEDUP_MAX_ENTRIES :: nat where
  "ZUPT_DEDUP_MAX_ENTRIES = 2 * 1024 * 1024"

definition empty_entry :: zupt_dedup_entry_t where
  "empty_entry = \<lparr>de_fingerprint = 0, de_block_offset = 0, de_digest = replicate 16 0,
     de_block_size = 0, de_occupied = False, de_aad_seq = 0\<rparr>"

text \<open>The two results of \<open>calloc\<close> are parameters; \<open>None\<close> is a \<open>NULL\<close> context.\<close>

definition zupt_dedup_init :: "bool \<Rightarrow> bool \<Rightarrow> zupt_dedup_ctx option" where
  "zupt_dedup_init ctx_ok table_ok =
     (if \<not> ctx_ok then None
      else if \<not> table_ok then None
      else Some \<lparr>dd_table = replicate ZUPT_DEDUP_MAX_ENTRIES empty_entry,
             dd_capacity = ZUPT_DEDUP_MAX_ENTRIES, dd_count = 0,
             dd_blocks_seen = 0, dd_blocks_deduped = 0, dd_bytes_saved = 0\<rparr>)"

text \<open>The probe loops run over \<open>i = 0, ..., 63\<close>.\<close>

fun lookup_loop :: "zupt_dedup_ctx \<Rightarrow> u64 \<Rightarrow> bytes \<Rightarrow> nat \<Rightarrow> nat list \<Rightarrow> (u64 \<times> u32 \<times> u64) option" where
  "lookup_loop ctx fp digest idx [] = None"
| "lookup_loop ctx fp digest idx (i # is) =
     (let slot = (idx + i) mod dd_capacity ctx; e = dd_table ctx ! slot in
      if \<not> de_occupied e then None
      else if de_fingerprint e = fp \<and> de_digest e = digest
      then Some (de_block_offset e, de_block_size e, de_aad_seq e)
      else lookup_loop ctx fp digest idx is)"

definition zupt_dedup_lookup_secure ::
  "zupt_dedup_ctx \<Rightarrow> u64 \<Rightarrow> bytes \<Rightarrow> (u64 \<times> u32 \<times> u64) option" where
  "zupt_dedup_lookup_secure ctx fp digest =
     lookup_loop ctx fp digest (unat fp mod dd_capacity ctx) [0..<64]"

fun insert_loop ::
  "zupt_dedup_ctx \<Rightarrow> u64 \<Rightarrow> bytes \<Rightarrow> u64 \<Rightarrow> u32 \<Rightarrow> u64 \<Rightarrow> nat \<Rightarrow> nat list \<Rightarrow> zupt_dedup_ctx option" where
  "insert_loop ctx fp digest offset bsize aad idx [] = None"
| "insert_loop ctx fp digest offset bsize aad idx (i # is) =
     (let slot = (idx + i) mod dd_capacity ctx in
      if \<not> de_occupied (dd_table ctx ! slot) then
        Some (ctx\<lparr>dd_table := (dd_table ctx)[slot :=
            \<lparr>de_fingerprint = fp, de_block_offset = offset, de_digest = digest,
             de_block_size = bsize, de_occupied = True, de_aad_seq = aad\<rparr>],
          dd_count := dd_count ctx + 1\<rparr>)
      else insert_loop ctx fp digest offset bsize aad idx is)"

definition zupt_dedup_insert_secure ::
  "zupt_dedup_ctx \<Rightarrow> u64 \<Rightarrow> bytes \<Rightarrow> u64 \<Rightarrow> u32 \<Rightarrow> u64 \<Rightarrow> zupt_dedup_ctx option" where
  "zupt_dedup_insert_secure ctx fp digest offset bsize aad =
     (if dd_count ctx \<ge> dd_capacity ctx * 3 div 4 then None
      else insert_loop ctx fp digest offset bsize aad (unat fp mod dd_capacity ctx) [0..<64])"

definition zupt_dedup_lookup :: "zupt_dedup_ctx \<Rightarrow> u64 \<Rightarrow> (u64 \<times> u32) option" where
  "zupt_dedup_lookup ctx fp =
     map_option (\<lambda>(offset, bsize, _). (offset, bsize)) (zupt_dedup_lookup_secure ctx fp (replicate 16 0))"

definition zupt_dedup_insert :: "zupt_dedup_ctx \<Rightarrow> u64 \<Rightarrow> u64 \<Rightarrow> u32 \<Rightarrow> zupt_dedup_ctx option" where
  "zupt_dedup_insert ctx fp offset bsize =
     zupt_dedup_insert_secure ctx fp (replicate 16 0) offset bsize 0"

definition zupt_dedup_record_hit :: "zupt_dedup_ctx \<Rightarrow> u64 \<Rightarrow> zupt_dedup_ctx" where
  "zupt_dedup_record_hit ctx saved =
     ctx\<lparr>dd_blocks_deduped := dd_blocks_deduped ctx + 1, dd_bytes_saved := dd_bytes_saved ctx + saved\<rparr>"

definition zupt_dedup_record_block :: "zupt_dedup_ctx \<Rightarrow> zupt_dedup_ctx" where
  "zupt_dedup_record_block ctx = ctx\<lparr>dd_blocks_seen := dd_blocks_seen ctx + 1\<rparr>"

definition zupt_dedup_stats :: "zupt_dedup_ctx option \<Rightarrow> u64 \<times> u64 \<times> u64" where
  "zupt_dedup_stats ctx =
     (case ctx of None \<Rightarrow> (0, 0, 0)
      | Some c \<Rightarrow> (dd_blocks_seen c, dd_blocks_deduped c, dd_bytes_saved c))"

section \<open>Reference blocks\<close>

definition zupt_dedup_write_ref :: "u64 \<Rightarrow> u32 \<Rightarrow> u64 \<Rightarrow> bytes" where
  "zupt_dedup_write_ref ref_offset orig_size orig_checksum =
     write_preface ZUPT_BLOCK_DEDUP_REF ZUPT_CODEC_STORE 0 (ucast orig_size) 8 orig_checksum @
     zupt_le64_put ref_offset"

text \<open>
  \<open>nonce\<close> is what the random generator delivers and \<open>malloc_ok\<close> whether the package could be
  allocated; \<open>None\<close> is the result \<open>-1\<close>.
\<close>

definition zupt_dedup_write_ref_secure ::
  "bool \<Rightarrow> bytes \<Rightarrow> u64 \<Rightarrow> u32 \<Rightarrow> u64 \<Rightarrow> u64 \<Rightarrow> u64 \<Rightarrow> zupt_keyring_t option \<Rightarrow> bytes option" where
  "zupt_dedup_write_ref_secure malloc_ok nonce ref_offset orig_size orig_checksum current_seq referenced_seq keyring =
     (let reference = zupt_le64_put ref_offset @ zupt_le64_put referenced_seq;
          frame = (\<lambda>flags payload.
            write_preface ZUPT_BLOCK_DEDUP_REF ZUPT_CODEC_STORE flags (ucast orig_size)
              (word_of_nat (length payload)) orig_checksum @ payload) in
      case keyring of
        None \<Rightarrow> Some (frame 0 (take 8 reference))
      | Some kr \<Rightarrow>
          if active kr then
            let encrypted =
              (if use_preface_aad kr then
                 let predicted = 16 + 16 + 32;
                     preface = zupt_serialize_preface_aad_scalars ZUPT_BLOCK_DEDUP_REF ZUPT_CODEC_STORE
                       ZUPT_BFLAG_ENCRYPTED (ucast orig_size) predicted orig_checksum in
                 zupt_encrypt_buffer_aad malloc_ok kr nonce reference current_seq preface
               else zupt_encrypt_buffer malloc_ok kr nonce reference current_seq) in
            (case encrypted of None \<Rightarrow> None | Some pkg \<Rightarrow> Some (frame ZUPT_BFLAG_ENCRYPTED pkg))
          else Some (frame 0 (take 8 reference)))"

definition zupt_dedup_read_ref ::
  "bool \<Rightarrow> zupt_block_t \<Rightarrow> zupt_keyring_t option \<Rightarrow> bool \<Rightarrow> u64 \<Rightarrow> (u64 \<times> u64) result" where
  "zupt_dedup_read_ref malloc_ok b keyring require_authentication current_seq =
     (if block_type b \<noteq> ZUPT_BLOCK_DEDUP_REF \<or> codec_id b \<noteq> ZUPT_CODEC_STORE then Inl ZUPT_ERR_CORRUPT
      else
        let p = take (unat (compressed_size b)) (payload b) in
        if require_authentication then
          (case keyring of
             None \<Rightarrow> Inl ZUPT_ERR_AUTH_FAIL
           | Some kr \<Rightarrow>
               if block_flags b AND ZUPT_BFLAG_ENCRYPTED = 0 \<or> \<not> active kr then Inl ZUPT_ERR_AUTH_FAIL
               else
                 let plain =
                   (if use_preface_aad kr then
                      zupt_decrypt_buffer_aad malloc_ok kr p current_seq
                        (zupt_serialize_preface_aad_scalars (block_type b) (codec_id b) (block_flags b)
                          (uncompressed_size b) (compressed_size b) (checksum b))
                    else zupt_decrypt_buffer malloc_ok kr p current_seq) in
                 (case plain of
                    None \<Rightarrow> Inl ZUPT_ERR_AUTH_FAIL
                  | Some pl \<Rightarrow>
                      if length pl \<noteq> 16 then Inl ZUPT_ERR_CORRUPT
                      else Inr (zupt_le64_get pl, zupt_le64_get (drop 8 pl))))
        else if block_flags b \<noteq> 0 \<or> compressed_size b \<noteq> 8 then Inl ZUPT_ERR_CORRUPT
        else Inr (zupt_le64_get p, 0))"

section \<open>The probe loops\<close>

abbreviation dedup_slot :: "zupt_dedup_ctx \<Rightarrow> u64 \<Rightarrow> nat \<Rightarrow> nat" where
  "dedup_slot ctx fp i \<equiv> (unat fp mod dd_capacity ctx + i) mod dd_capacity ctx"

abbreviation dedup_at :: "zupt_dedup_ctx \<Rightarrow> u64 \<Rightarrow> nat \<Rightarrow> zupt_dedup_entry_t" where
  "dedup_at ctx fp i \<equiv> dd_table ctx ! dedup_slot ctx fp i"

definition entry_key :: "zupt_dedup_entry_t \<Rightarrow> u64 \<times> bytes" where
  "entry_key e = (de_fingerprint e, de_digest e)"

definition entry_value :: "zupt_dedup_entry_t \<Rightarrow> u64 \<times> u32 \<times> u64" where
  "entry_value e = (de_block_offset e, de_block_size e, de_aad_seq e)"

lemma find_upt: "find P [0..<n] = Some i \<longleftrightarrow> i < n \<and> P i \<and> (\<forall>j<i. \<not> P j)"
  by (auto simp: find_Some_iff)

lemma lookup_loop_find:
  "lookup_loop ctx fp digest (unat fp mod dd_capacity ctx) is =
     (case find (\<lambda>i. \<not> de_occupied (dedup_at ctx fp i) \<or> entry_key (dedup_at ctx fp i) = (fp, digest)) is of
        None \<Rightarrow> None
      | Some i \<Rightarrow> if de_occupied (dedup_at ctx fp i) then Some (entry_value (dedup_at ctx fp i)) else None)"
  by (induction "is") (auto simp: entry_key_def entry_value_def Let_def)

lemma lookup_Some_iff:
  "zupt_dedup_lookup_secure ctx fp digest = Some v \<longleftrightarrow>
     (\<exists>i<64. (\<forall>j<i. de_occupied (dedup_at ctx fp j) \<and> entry_key (dedup_at ctx fp j) \<noteq> (fp, digest)) \<and>
       de_occupied (dedup_at ctx fp i) \<and> entry_key (dedup_at ctx fp i) = (fp, digest) \<and>
       v = entry_value (dedup_at ctx fp i))"
proof -
  let ?P = "\<lambda>i. \<not> de_occupied (dedup_at ctx fp i) \<or> entry_key (dedup_at ctx fp i) = (fp, digest)"
  have "zupt_dedup_lookup_secure ctx fp digest = Some v \<longleftrightarrow>
      (\<exists>i. find ?P [0..<64] = Some i \<and> de_occupied (dedup_at ctx fp i) \<and> v = entry_value (dedup_at ctx fp i))"
    unfolding zupt_dedup_lookup_secure_def lookup_loop_find
    by (cases "find ?P [0..<64]") auto
  also have "\<dots> \<longleftrightarrow> (\<exists>i<64. (\<forall>j<i. \<not> ?P j) \<and> ?P i \<and> de_occupied (dedup_at ctx fp i) \<and> v = entry_value (dedup_at ctx fp i))"
    unfolding find_upt by blast
  finally show ?thesis by (simp only: de_Morgan_disj not_not) blast
qed

lemma insert_loop_find:
  "insert_loop ctx fp digest offset bsize aad (unat fp mod dd_capacity ctx) is =
     map_option (\<lambda>i. ctx\<lparr>dd_table := (dd_table ctx)[dedup_slot ctx fp i :=
            \<lparr>de_fingerprint = fp, de_block_offset = offset, de_digest = digest,
             de_block_size = bsize, de_occupied = True, de_aad_seq = aad\<rparr>],
          dd_count := dd_count ctx + 1\<rparr>)
       (find (\<lambda>i. \<not> de_occupied (dedup_at ctx fp i)) is)"
  by (induction "is") (auto simp: Let_def)

lemma insert_Some_iff:
  "zupt_dedup_insert_secure ctx fp digest offset bsize aad = Some ctx' \<longleftrightarrow>
     dd_count ctx < dd_capacity ctx * 3 div 4 \<and>
     (\<exists>i<64. (\<forall>j<i. de_occupied (dedup_at ctx fp j)) \<and> \<not> de_occupied (dedup_at ctx fp i) \<and>
       ctx' = ctx\<lparr>dd_table := (dd_table ctx)[dedup_slot ctx fp i :=
            \<lparr>de_fingerprint = fp, de_block_offset = offset, de_digest = digest,
             de_block_size = bsize, de_occupied = True, de_aad_seq = aad\<rparr>],
          dd_count := dd_count ctx + 1\<rparr>)"
proof -
  let ?P = "\<lambda>i. \<not> de_occupied (dedup_at ctx fp i)"
  have "map_option f (find ?P [0..<64]) = Some c \<longleftrightarrow> (\<exists>i<64. (\<forall>j<i. \<not> ?P j) \<and> ?P i \<and> c = f i)"
    for f :: "nat \<Rightarrow> zupt_dedup_ctx" and c
    unfolding map_option_eq_Some find_upt by blast
  then show ?thesis
    unfolding zupt_dedup_insert_secure_def insert_loop_find by (simp add: not_le)
qed

section \<open>The invariant\<close>

text \<open>
  Every occupied slot is reached from its fingerprint within 64 probes without passing an empty
  slot, the counter is the number of occupied slots and stays within the load limit.
\<close>

definition on_chain :: "zupt_dedup_ctx \<Rightarrow> nat \<Rightarrow> bool" where
  "on_chain ctx s \<longleftrightarrow>
     (\<exists>i<64. s = dedup_slot ctx (de_fingerprint (dd_table ctx ! s)) i \<and>
       (\<forall>j<i. de_occupied (dedup_at ctx (de_fingerprint (dd_table ctx ! s)) j)))"

definition dedup_inv :: "zupt_dedup_ctx \<Rightarrow> bool" where
  "dedup_inv ctx \<longleftrightarrow>
     0 < dd_capacity ctx \<and> length (dd_table ctx) = dd_capacity ctx \<and>
     dd_count ctx = length (filter de_occupied (dd_table ctx)) \<and>
     dd_count ctx \<le> dd_capacity ctx * 3 div 4 \<and>
     (\<forall>s<dd_capacity ctx. de_occupied (dd_table ctx ! s) \<longrightarrow> on_chain ctx s)"

lemma slot_less: "dedup_inv ctx \<Longrightarrow> dedup_slot ctx fp i < dd_capacity ctx"
  by (simp add: dedup_inv_def)

lemma dedup_init_inv: "zupt_dedup_init a b = Some ctx \<Longrightarrow> dedup_inv ctx"
  by (auto simp: zupt_dedup_init_def dedup_inv_def empty_entry_def ZUPT_DEDUP_MAX_ENTRIES_def filter_replicate
      split: if_splits)

lemma filter_update_length:
  "s < length xs \<Longrightarrow> \<not> P (xs ! s) \<Longrightarrow> P x \<Longrightarrow> length (filter P (xs[s := x])) = Suc (length (filter P xs))"
  by (induction xs arbitrary: s) (auto simp: nth_Cons' split: nat.splits)

text \<open>An insertion fills one empty slot at the end of the probed part of a chain.\<close>

lemma insert_effect:
  assumes "zupt_dedup_insert_secure ctx fp digest offset bsize aad = Some ctx'" "dedup_inv ctx"
  obtains i e where "i < 64" "\<forall>j<i. de_occupied (dedup_at ctx fp j)"
    "\<not> de_occupied (dedup_at ctx fp i)" "dd_count ctx < dd_capacity ctx * 3 div 4"
    "dd_table ctx' = (dd_table ctx)[dedup_slot ctx fp i := e]" "de_occupied e"
    "entry_key e = (fp, digest)" "entry_value e = (offset, bsize, aad)"
    "dd_capacity ctx' = dd_capacity ctx" "dd_count ctx' = dd_count ctx + 1"
  using assms(1) unfolding insert_Some_iff
  by (auto simp: entry_key_def entry_value_def intro!: that)

lemma occupied_mono:
  assumes "\<not> de_occupied (t ! s)" "de_occupied e" "de_occupied (t ! k)"
  shows "t[s := e] ! k = t ! k"
  using assms by (cases "k = s") auto

lemma dedup_insert_inv:
  assumes inv: "dedup_inv ctx"
    and ins: "zupt_dedup_insert_secure ctx fp digest offset bsize aad = Some ctx'"
  shows "dedup_inv ctx'"
proof -
  from ins inv obtain i e where i: "i < 64" "\<forall>j<i. de_occupied (dedup_at ctx fp j)"
    "\<not> de_occupied (dedup_at ctx fp i)" "dd_count ctx < dd_capacity ctx * 3 div 4"
    and t: "dd_table ctx' = (dd_table ctx)[dedup_slot ctx fp i := e]" "de_occupied e"
    "entry_key e = (fp, digest)" "dd_capacity ctx' = dd_capacity ctx" "dd_count ctx' = dd_count ctx + 1"
    by (rule insert_effect)
  define s where "s = dedup_slot ctx fp i"
  have s: "s < length (dd_table ctx)" "\<not> de_occupied (dd_table ctx ! s)"
    using slot_less [OF inv] inv i(3) by (simp_all add: s_def dedup_inv_def)
  note keep = occupied_mono [OF s(2) t(2)]
  have fpe: "de_fingerprint e = fp" using t(3) by (simp add: entry_key_def)
  have chain: "on_chain ctx' k" if k: "k < dd_capacity ctx'" "de_occupied (dd_table ctx' ! k)" for k
  proof (cases "k = s")
    case True
    have "dd_table ctx' ! k = e" using True s t(1) by (simp add: s_def)
    moreover have "de_occupied (dedup_at ctx' fp j)" if "j < i" for j
      using i(2) that keep by (simp add: t(1,4) s_def [symmetric])
    ultimately show ?thesis
      unfolding on_chain_def using i(1) fpe True by (intro exI [of _ i]) (simp add: s_def t(4))
  next
    case False
    then have e: "dd_table ctx' ! k = dd_table ctx ! k" by (simp add: t(1) s_def)
    then have "on_chain ctx k" using inv k t(4) by (simp add: dedup_inv_def)
    then obtain n where n: "n < 64" "k = dedup_slot ctx (de_fingerprint (dd_table ctx ! k)) n"
      "\<forall>j<n. de_occupied (dedup_at ctx (de_fingerprint (dd_table ctx ! k)) j)"
      by (auto simp: on_chain_def)
    then have "\<forall>j<n. de_occupied (dedup_at ctx' (de_fingerprint (dd_table ctx ! k)) j)"
      using keep by (simp add: t(1,4) s_def [symmetric])
    then show ?thesis unfolding on_chain_def e t(4) using n(1,2) by blast
  qed
  have "length (filter de_occupied (dd_table ctx')) = dd_count ctx'"
    using filter_update_length [of s "dd_table ctx" de_occupied e] s t inv by (simp add: s_def dedup_inv_def)
  then show ?thesis
    using inv chain i(4) t(1,4,5) by (simp add: dedup_inv_def)
qed

section \<open>Lookup after insertion\<close>

text \<open>Under the invariant a lookup fails only when no slot holds the key.\<close>

lemma lookup_None_iff:
  assumes inv: "dedup_inv ctx"
  shows "zupt_dedup_lookup_secure ctx fp digest = None \<longleftrightarrow>
    (\<forall>s<dd_capacity ctx. \<not> (de_occupied (dd_table ctx ! s) \<and> entry_key (dd_table ctx ! s) = (fp, digest)))"
proof -
  have "\<exists>v. zupt_dedup_lookup_secure ctx fp digest = Some v"
    if s: "s < dd_capacity ctx" "de_occupied (dd_table ctx ! s)" "entry_key (dd_table ctx ! s) = (fp, digest)" for s
  proof -
    have "on_chain ctx s" using inv s by (simp add: dedup_inv_def)
    then obtain n where n: "n < 64" "s = dedup_slot ctx fp n" "\<forall>j<n. de_occupied (dedup_at ctx fp j)"
      using s(3) by (auto simp: on_chain_def entry_key_def)
    define m where "m = (LEAST m. entry_key (dedup_at ctx fp m) = (fp, digest))"
    have k: "entry_key (dedup_at ctx fp n) = (fp, digest)" using s(3) n(2) by simp
    have m: "entry_key (dedup_at ctx fp m) = (fp, digest)" unfolding m_def
      by (rule LeastI [where P = "\<lambda>m. entry_key (dedup_at ctx fp m) = (fp, digest)", OF k])
    have le: "m \<le> n" unfolding m_def using k by (rule Least_le)
    have before: "entry_key (dedup_at ctx fp j) \<noteq> (fp, digest)" if "j < m" for j
      using not_less_Least that unfolding m_def by blast
    have "\<forall>j<n. de_occupied (dedup_at ctx fp j)" "de_occupied (dedup_at ctx fp n)"
      using n(2,3) s(2) by simp_all
    then have occ: "de_occupied (dedup_at ctx fp j)" if "j \<le> n" for j
      using that by (cases "j = n") simp_all
    have "\<forall>j<m. de_occupied (dedup_at ctx fp j) \<and> entry_key (dedup_at ctx fp j) \<noteq> (fp, digest)"
      using occ before le by simp
    with m occ [OF le] le n(1) have "zupt_dedup_lookup_secure ctx fp digest = Some (entry_value (dedup_at ctx fp m))"
      unfolding lookup_Some_iff by (intro exI [of _ m]) simp
    then show ?thesis by blast
  qed
  moreover have "\<exists>s<dd_capacity ctx. de_occupied (dd_table ctx ! s) \<and> entry_key (dd_table ctx ! s) = (fp, digest)"
    if "zupt_dedup_lookup_secure ctx fp digest = Some v" for v
    using that slot_less [OF inv] unfolding lookup_Some_iff by blast
  ultimately show ?thesis by (cases "zupt_dedup_lookup_secure ctx fp digest") auto
qed

lemma lookup_insert:
  assumes inv: "dedup_inv ctx"
    and ins: "zupt_dedup_insert_secure ctx fp digest offset bsize aad = Some ctx'"
  shows "zupt_dedup_lookup_secure ctx' fp' digest' =
    (if (fp', digest') = (fp, digest) \<and> zupt_dedup_lookup_secure ctx fp digest = None
     then Some (offset, bsize, aad) else zupt_dedup_lookup_secure ctx fp' digest')"
proof -
  from ins inv obtain i e where i: "\<not> de_occupied (dedup_at ctx fp i)"
    and t: "dd_table ctx' = (dd_table ctx)[dedup_slot ctx fp i := e]" "de_occupied e"
    "entry_key e = (fp, digest)" "entry_value e = (offset, bsize, aad)" "dd_capacity ctx' = dd_capacity ctx"
    by (rule insert_effect)
  note inv' = dedup_insert_inv [OF inv ins]
  define s where "s = dedup_slot ctx fp i"
  have s: "s < dd_capacity ctx" "\<not> de_occupied (dd_table ctx ! s)" "dd_table ctx' ! s = e"
    using slot_less [OF inv] inv i t(1) by (simp_all add: s_def dedup_inv_def)
  have keep: "dd_table ctx' ! k = dd_table ctx ! k" if "de_occupied (dd_table ctx ! k)" for k
    using occupied_mono [OF s(2) t(2) that] by (simp add: t(1) s_def)
  have other: "dd_table ctx' ! k = dd_table ctx ! k" if "k \<noteq> s" for k using that by (simp add: t(1) s_def)
  show ?thesis
  proof (cases "zupt_dedup_lookup_secure ctx fp' digest'")
    case (Some v)
    then obtain n where n: "n < 64"
      "\<forall>j<n. de_occupied (dedup_at ctx fp' j) \<and> entry_key (dedup_at ctx fp' j) \<noteq> (fp', digest')"
      "de_occupied (dedup_at ctx fp' n) \<and> entry_key (dedup_at ctx fp' n) = (fp', digest') \<and>
       v = entry_value (dedup_at ctx fp' n)"
      unfolding lookup_Some_iff by blast
    then have "zupt_dedup_lookup_secure ctx' fp' digest' = Some v"
      unfolding lookup_Some_iff t(5) using keep by (intro exI [of _ n]) simp
    with Some show ?thesis by auto
  next
    case None
    have none: "\<not> (de_occupied (dd_table ctx ! k) \<and> entry_key (dd_table ctx ! k) = (fp', digest'))"
      if "k < dd_capacity ctx" for k
      using None that unfolding lookup_None_iff [OF inv] by blast
    show ?thesis
    proof (cases "(fp', digest') = (fp, digest)")
      case True
      have "zupt_dedup_lookup_secure ctx' fp' digest' \<noteq> None"
        unfolding lookup_None_iff [OF inv'] using s t(2,3,5) True by auto
      then obtain v where v: "zupt_dedup_lookup_secure ctx' fp' digest' = Some v" by blast
      then obtain n where n: "de_occupied (dedup_at ctx' fp' n)" "entry_key (dedup_at ctx' fp' n) = (fp', digest')"
        "v = entry_value (dedup_at ctx' fp' n)"
        unfolding lookup_Some_iff by blast
      have "dedup_slot ctx' fp' n = s"
        using none [of "dedup_slot ctx' fp' n"] n other slot_less [OF inv] by (metis t(5))
      with n(3) s(3) t(4) v None True show ?thesis by simp
    next
      case False
      have "\<not> (de_occupied (dd_table ctx' ! k) \<and> entry_key (dd_table ctx' ! k) = (fp', digest'))"
        if "k < dd_capacity ctx'" for k
        using none [of k] that other [of k] s(3) t(3,5) False by (cases "k = s") auto
      then have "zupt_dedup_lookup_secure ctx' fp' digest' = None"
        unfolding lookup_None_iff [OF inv'] by blast
      with None False show ?thesis by auto
    qed
  qed
qed

section \<open>The index as an interface\<close>

text \<open>
  What the archive writers rely on: an index answers a lookup with the value of the first
  successful insertion under the key, and with nothing for a key that was never inserted.
\<close>

locale content_index =
  fixes inv :: "'c \<Rightarrow> bool" and find_in :: "'c \<Rightarrow> 'k \<Rightarrow> 'v option" and add :: "'c \<Rightarrow> 'k \<Rightarrow> 'v \<Rightarrow> 'c option"
  assumes add_inv: "inv c \<Longrightarrow> add c k v = Some c' \<Longrightarrow> inv c'"
    and find_add: "inv c \<Longrightarrow> add c k v = Some c' \<Longrightarrow>
      find_in c' l = (if l = k \<and> find_in c k = None then Some v else find_in c l)"
begin

lemma add_keeps: "inv c \<Longrightarrow> add c k v = Some c' \<Longrightarrow> find_in c l = Some w \<Longrightarrow> find_in c' l = Some w"
  by (auto simp: find_add)

lemma add_fresh: "inv c \<Longrightarrow> add c k v = Some c' \<Longrightarrow> find_in c k = None \<Longrightarrow> find_in c' k = Some v"
  by (simp add: find_add)

text \<open>An association list of the insertions so far describes the index.\<close>

lemma find_add_map_of:
  assumes "inv c" "add c k v = Some c'" "find_in c = map_of h"
  shows "find_in c' = map_of (h @ [(k, v)])"
proof
  fix l show "find_in c' l = map_of (h @ [(k, v)]) l"
    using find_add [OF assms(1,2), of l] assms(3) by (cases "map_of h l") (auto simp: map_add_def)
qed

end

interpretation dedup_index: content_index dedup_inv "\<lambda>c k. zupt_dedup_lookup_secure c (fst k) (snd k)"
    "\<lambda>c k v. zupt_dedup_insert_secure c (fst k) (snd k) (fst v) (fst (snd v)) (snd (snd v))"
proof unfold_locales
  fix c k v c'
  assume *: "dedup_inv c" "zupt_dedup_insert_secure c (fst k) (snd k) (fst v) (fst (snd v)) (snd (snd v)) = Some c'"
  show "dedup_inv c'" using * by (rule dedup_insert_inv)
  fix l show "zupt_dedup_lookup_secure c' (fst l) (snd l) =
      (if l = k \<and> zupt_dedup_lookup_secure c (fst k) (snd k) = None then Some v
       else zupt_dedup_lookup_secure c (fst l) (snd l))"
    using lookup_insert [OF *, of "fst l" "snd l"] by (cases k; cases l) auto
qed

section \<open>Runs of a writer\<close>

text \<open>
  The states a writer's index goes through, with the insertions that succeeded so far, in
  order. A failed insertion leaves the index as it is.
\<close>

inductive dedup_run :: "((u64 \<times> bytes) \<times> (u64 \<times> u32 \<times> u64)) list \<Rightarrow> zupt_dedup_ctx \<Rightarrow> bool" where
  start: "zupt_dedup_init True True = Some c \<Longrightarrow> dedup_run [] c"
| insert: "dedup_run h c \<Longrightarrow> zupt_dedup_insert_secure c fp digest offset bsize aad = Some c' \<Longrightarrow>
    dedup_run (h @ [((fp, digest), (offset, bsize, aad))]) c'"
| hit: "dedup_run h c \<Longrightarrow> dedup_run h (zupt_dedup_record_hit c saved)"
| block: "dedup_run h c \<Longrightarrow> dedup_run h (zupt_dedup_record_block c)"

inductive_cases dedup_run_NilE: "dedup_run [] c"

lemma dedup_stats_irrelevant:
  assumes "dd_table c' = dd_table c" "dd_capacity c' = dd_capacity c" "dd_count c' = dd_count c"
  shows "dedup_inv c' = dedup_inv c" "zupt_dedup_lookup_secure c' fp digest = zupt_dedup_lookup_secure c fp digest"
proof -
  show "dedup_inv c' = dedup_inv c"
    by (simp add: dedup_inv_def on_chain_def assms)
  have "lookup_loop c' fp digest idx is = lookup_loop c fp digest idx is" for idx "is"
    by (induction "is") (simp_all add: assms Let_def)
  then show "zupt_dedup_lookup_secure c' fp digest = zupt_dedup_lookup_secure c fp digest"
    by (simp add: zupt_dedup_lookup_secure_def assms)
qed

lemma dedup_run_inv:
  "dedup_run h c \<Longrightarrow> dedup_inv c \<and> dd_capacity c = ZUPT_DEDUP_MAX_ENTRIES \<and> dd_count c = length h \<and>
     (\<lambda>k. zupt_dedup_lookup_secure c (fst k) (snd k)) = map_of h"
proof (induction rule: dedup_run.induct)
  case (start c)
  note inv = dedup_init_inv [OF start]
  have "zupt_dedup_lookup_secure c fp digest = None" for fp digest
    unfolding lookup_None_iff [OF inv] using start by (auto simp: zupt_dedup_init_def empty_entry_def)
  with start inv show ?case by (auto simp: zupt_dedup_init_def)
next
  case (insert h c fp digest offset bsize aad c')
  let ?k = "(fp, digest)" and ?v = "(offset, bsize, aad)"
  have ins: "zupt_dedup_insert_secure c (fst ?k) (snd ?k) (fst ?v) (fst (snd ?v)) (snd (snd ?v)) = Some c'"
    using insert.hyps(2) by simp
  have "dd_count c' = dd_count c + 1 \<and> dd_capacity c' = dd_capacity c"
    using insert.hyps(2) by (auto simp: insert_Some_iff)
  with dedup_index.find_add_map_of [OF _ ins, of h] dedup_index.add_inv [OF _ ins] insert.IH
  show ?case by simp
next
  case (hit h c saved)
  then show ?case
    using dedup_stats_irrelevant [of "zupt_dedup_record_hit c saved" c] by (simp add: zupt_dedup_record_hit_def)
next
  case (block h c)
  then show ?case
    using dedup_stats_irrelevant [of "zupt_dedup_record_block c" c] by (simp add: zupt_dedup_record_block_def)
qed

section \<open>References\<close>

lemma le64_pair:
  "length pl = 16 \<Longrightarrow> zupt_le64_put (zupt_le64_get pl) @ zupt_le64_put (zupt_le64_get (drop 8 pl)) = pl"
  by (simp add: le64_put_get)

lemma le64_pair_iff:
  "length pl = 16 \<and> zupt_le64_get pl = a \<and> zupt_le64_get (drop 8 pl) = b \<longleftrightarrow>
     pl = zupt_le64_put a @ zupt_le64_put b"
  using le64_pair [of pl] by auto

definition ref_aad :: "zupt_keyring_t \<Rightarrow> zupt_block_t \<Rightarrow> bytes" where
  "ref_aad kr b = (if use_preface_aad kr then zupt_serialize_preface_aad b else [])"

lemma read_ref_authentic_iff:
  "zupt_dedup_read_ref True b (Some kr) True cur = Inr (off, refseq) \<longleftrightarrow>
     block_type b = ZUPT_BLOCK_DEDUP_REF \<and> codec_id b = ZUPT_CODEC_STORE \<and>
     block_flags b AND ZUPT_BFLAG_ENCRYPTED \<noteq> 0 \<and> active kr \<and>
     (let p = take (unat (compressed_size b)) (payload b) in
      package_authentic kr (cur, ref_aad kr b) p \<and>
      package_plain kr p = zupt_le64_put off @ zupt_le64_put refseq)"
  unfolding le64_pair_iff [symmetric]
  by (auto simp: zupt_dedup_read_ref_def zupt_decrypt_buffer_def zupt_decrypt_buffer_aad_eq ref_aad_def
      preface_aad_block Let_def split: if_splits)

lemma write_ref_secure_plain:
  "\<not> active kr \<Longrightarrow> zupt_dedup_write_ref_secure m n off sz ck cur refseq (Some kr) = Some (zupt_dedup_write_ref off sz ck)"
  "zupt_dedup_write_ref_secure m n off sz ck cur refseq None = Some (zupt_dedup_write_ref off sz ck)"
  by (simp_all add: zupt_dedup_write_ref_secure_def zupt_dedup_write_ref_def Let_def)

lemma ref_roundtrip_plain:
  assumes "unat sz \<le> ZUPT_MAX_BLOCK_SZ" "alloc 8"
  shows "\<exists>b. read_block alloc (zupt_dedup_write_ref off sz ck @ r) = Inr (b, r) \<and>
    zupt_dedup_read_ref m b keyring False cur = Inr (off, 0)"
proof -
  define b where "b = \<lparr>block_type = ZUPT_BLOCK_DEDUP_REF, codec_id = ZUPT_CODEC_STORE, block_flags = 0,
    uncompressed_size = ucast sz, compressed_size = 8, checksum = ck, payload = zupt_le64_put off\<rparr>"
  have "block_wf alloc b" using assms by (simp add: block_wf_def b_def)
  moreover have "zupt_dedup_write_ref off sz ck = write_block b"
    by (simp add: zupt_dedup_write_ref_def write_block_def b_def)
  moreover have "zupt_dedup_read_ref m b keyring False cur = Inr (off, 0)"
    by (simp add: zupt_dedup_read_ref_def b_def)
  ultimately show ?thesis using block_frame.get_put by metis
qed

lemma ref_roundtrip_sealed:
  assumes "unat sz \<le> ZUPT_MAX_BLOCK_SZ" "alloc 64" "length nonce = 16" "active kr"
    and w: "zupt_dedup_write_ref_secure True nonce off sz ck cur refseq (Some kr) = Some frame"
  shows "\<exists>b. read_block alloc (frame @ r) = Inr (b, r) \<and>
    zupt_dedup_read_ref True b (Some kr) True cur = Inr (off, refseq)"
proof -
  define aad where "aad = (if use_preface_aad kr then zupt_serialize_preface_aad_scalars ZUPT_BLOCK_DEDUP_REF
    ZUPT_CODEC_STORE ZUPT_BFLAG_ENCRYPTED (ucast sz) 64 ck else [])"
  define reference where "reference = zupt_le64_put off @ zupt_le64_put refseq"
  have lr: "length reference = 16" by (simp add: reference_def)
  obtain pkg where pkg: "zupt_encrypt_buffer_aad True kr nonce reference cur aad = Some pkg"
    by (simp add: zupt_encrypt_buffer_aad_eq Let_def)
  then have lp: "length pkg = 64"
    using assms(3) lr by (auto simp: zupt_encrypt_buffer_aad_eq package_mac_def Let_def)
  define b where "b = \<lparr>block_type = ZUPT_BLOCK_DEDUP_REF, codec_id = ZUPT_CODEC_STORE,
    block_flags = ZUPT_BFLAG_ENCRYPTED, uncompressed_size = ucast sz, compressed_size = 64, checksum = ck,
    payload = pkg\<rparr>"
  have frame: "frame = write_block b"
    using w assms(4) pkg lp
    by (simp add: zupt_dedup_write_ref_secure_def zupt_encrypt_buffer_def aad_def reference_def b_def write_block_def
        Let_def split: if_splits option.splits)
  have wf: "block_wf alloc b" using assms(1,2) lp by (simp add: block_wf_def b_def ZUPT_MAX_BLOCK_SZ_def)
  have aad: "ref_aad kr b = aad" by (simp add: ref_aad_def aad_def b_def preface_aad_block)
  have auth: "package_authentic kr (cur, aad) pkg"
    using aead.seal_authentic [where n = nonce and k = kr and a = "(cur, aad)" and p = reference and c = pkg] pkg assms(3) by simp
  have plain: "package_plain kr pkg = reference"
    using zupt_decrypt_encrypt [OF assms(3) pkg] auth by (simp add: zupt_decrypt_buffer_aad_eq)
  have "zupt_dedup_read_ref True b (Some kr) True cur = Inr (off, refseq)"
    unfolding read_ref_authentic_iff aad using auth plain assms(4) lp
    by (simp add: b_def reference_def)
  then show ?thesis using block_frame.get_put [OF wf] frame by metis
qed

section \<open>Properties\<close>

text \<open>
  C21. In every state a writer can reach, whatever it inserted and however often an insertion was
  refused, the index satisfies its invariant, is filled to at most three quarters, and a lookup
  returns exactly what the first successful insertion under that fingerprint and digest
  recorded, and nothing for a key that was not inserted: no false match and no lost entry.
\<close>

theorem dedup_index_faithful:
  assumes "dedup_run h c"
  shows "dedup_inv c \<and> length h \<le> 1572864 \<and> dd_count c = length h \<and>
    zupt_dedup_lookup_secure c fp digest = map_of h (fp, digest)"
proof -
  have inv: "dedup_inv c" and cap: "dd_capacity c = ZUPT_DEDUP_MAX_ENTRIES" and n: "dd_count c = length h"
    and f: "(\<lambda>k. zupt_dedup_lookup_secure c (fst k) (snd k)) = map_of h"
    using dedup_run_inv [OF assms] by blast+
  have "dd_count c \<le> ZUPT_DEDUP_MAX_ENTRIES * 3 div 4" using inv unfolding dedup_inv_def cap by blast
  then have "length h \<le> 1572864" by (simp add: ZUPT_DEDUP_MAX_ENTRIES_def n)
  with inv n fun_cong [OF f, of "(fp, digest)"] show ?thesis by simp
qed

theorem dedup_index_faithful_witness:
  "\<exists>c. dedup_run [((1, replicate 16 7), (64, 100, 0))] c \<and>
     zupt_dedup_lookup_secure c 1 (replicate 16 7) = Some (64, 100, 0) \<and>
     zupt_dedup_lookup_secure c 1 (replicate 16 8) = None"
proof -
  obtain c where c: "zupt_dedup_init True True = Some c" by (simp add: zupt_dedup_init_def)
  then have f: "\<not> de_occupied (dedup_at c 1 0)" "dd_count c < dd_capacity c * 3 div 4"
    by (auto simp: zupt_dedup_init_def empty_entry_def ZUPT_DEDUP_MAX_ENTRIES_def)
  then have "zupt_dedup_insert_secure c 1 (replicate 16 7) 64 100 0 \<noteq> None"
    unfolding zupt_dedup_insert_secure_def insert_loop_find upt_conv_Cons [OF zero_less_numeral] by simp
  then obtain d where "zupt_dedup_insert_secure c 1 (replicate 16 7) 64 100 0 = Some d" by blast
  from dedup_run.insert [OF dedup_run.start [OF c] this]
  have run: "dedup_run [((1, replicate 16 7), (64, 100, 0))] d" by simp
  from dedup_index_faithful [OF this, of 1 "replicate 16 7"] dedup_index_faithful [OF this, of 1 "replicate 16 8"] run
  show ?thesis by (auto intro!: exI [of _ d])
qed

text \<open>
  A reference block that was written is read back as a block frame and then as the same
  offset, in both forms: plain without a keyring, and sealed with one (with or without preface
  authentication), where the sequence number of the referenced block comes back too.
\<close>

theorem dedup_reference_roundtrip:
  assumes "unat sz \<le> ZUPT_MAX_BLOCK_SZ" "alloc 8" "alloc 64" "length nonce = 16"
    and "zupt_dedup_write_ref_secure True nonce off sz ck cur refseq keyring = Some frame"
  shows "\<exists>b. read_block alloc (frame @ r) = Inr (b, r) \<and>
    (case keyring of
       None \<Rightarrow> zupt_dedup_read_ref True b None False cur = Inr (off, 0)
     | Some kr \<Rightarrow> zupt_dedup_read_ref True b (Some kr) (active kr) cur =
         Inr (off, if active kr then refseq else 0))"
proof (cases keyring)
  case None
  with assms(5) have "frame = zupt_dedup_write_ref off sz ck" by (simp add: write_ref_secure_plain)
  with None ref_roundtrip_plain [where alloc = alloc, OF assms(1,2)] show ?thesis by simp
next
  case (Some kr)
  show ?thesis
  proof (cases "active kr")
    case True
    with Some ref_roundtrip_sealed [where alloc = alloc, OF assms(1,3,4) True] assms(5) show ?thesis by simp
  next
    case False
    with Some assms(5) have "frame = zupt_dedup_write_ref off sz ck" by (simp add: write_ref_secure_plain)
    with Some False ref_roundtrip_plain [where alloc = alloc, OF assms(1,2), of off ck r True keyring cur] show ?thesis by simp
  qed
qed

theorem dedup_reference_roundtrip_witness:
  "\<exists>frame b. zupt_dedup_write_ref_secure True (replicate 16 5) 4096 100 7 3 2
       (Some (zupt_keyring_init\<lparr>active := True, use_preface_aad := True\<rparr>)) = Some frame \<and>
     read_block (\<lambda>_. True) frame = Inr (b, []) \<and>
     zupt_dedup_read_ref True b (Some (zupt_keyring_init\<lparr>active := True, use_preface_aad := True\<rparr>)) True 3 =
       Inr (4096, 2)"
proof -
  let ?kr = "zupt_keyring_init\<lparr>active := True, use_preface_aad := True\<rparr>"
  obtain frame where f: "zupt_dedup_write_ref_secure True (replicate 16 5) 4096 100 7 3 2 (Some ?kr) = Some frame"
    by (simp add: zupt_dedup_write_ref_secure_def zupt_encrypt_buffer_aad_eq Let_def)
  have "unat (100 :: u32) \<le> ZUPT_MAX_BLOCK_SZ" by (simp add: ZUPT_MAX_BLOCK_SZ_def)
  from dedup_reference_roundtrip [where alloc = "\<lambda>_. True" and r = "[]", OF this _ _ _ f] f
  show ?thesis by auto
qed

text \<open>
  C37. When authentication is required, a reference is accepted precisely if it is a stored
  reference block flagged as encrypted, the keyring is active, and its payload is authentic for
  the position it is read at and (in archives with preface authentication) for every field of
  its own preface; what is then returned is the decrypted pair. In every other case an error is
  returned, so a moved, edited or downgraded reference is never followed.
\<close>

theorem dedup_reference_authentic:
  "zupt_dedup_read_ref True b (Some kr) True cur = Inr (off, refseq) \<longleftrightarrow>
     block_type b = ZUPT_BLOCK_DEDUP_REF \<and> codec_id b = ZUPT_CODEC_STORE \<and>
     block_flags b AND ZUPT_BFLAG_ENCRYPTED \<noteq> 0 \<and> active kr \<and>
     (let p = take (unat (compressed_size b)) (payload b) in
      package_authentic kr (cur, ref_aad kr b) p \<and>
      package_plain kr p = zupt_le64_put off @ zupt_le64_put refseq)"
  by (rule read_ref_authentic_iff)

end
