(* ===== verification/Huff.thy ===== *)
theory Huff
  imports Prelude "HOL-Library.Multiset"
begin

text \<open>
  Bit streams and canonical prefix codes of the LZH codec (\<open>src/zupt_lzh.c\<close>): the bit writer
  and reader, the assignment of canonical codes to code lengths, the decoder's table, and the
  decoding of one symbol. Code lengths and code values are natural numbers (at most 15 and 15
  bits; the counters of the code, \<open>uint32_t\<close>, stay below \<open>2 ^ 24\<close>).

  The main result: when the code lengths satisfy the Kraft inequality, a stream that begins
  with the code of a symbol decodes to that symbol and to nothing else.
\<close>

section \<open>Bit streams\<close>

record bitwr_t =
  bw_out :: bytes
  bw_cap :: nat
  bw_acc :: u64
  bw_nb :: nat

record bitrd_t =
  br_rest :: bytes
  br_acc :: u64
  br_nb :: int

definition bw_init :: "nat \<Rightarrow> bitwr_t" where
  "bw_init cap = \<lparr>bw_out = [], bw_cap = cap, bw_acc = 0, bw_nb = 0\<rparr>"

text \<open>The loop that moves whole bytes from the accumulator to the buffer while there is room.\<close>

function bw_drain :: "bitwr_t \<Rightarrow> bitwr_t" where
  "bw_drain w =
     (if bw_nb w \<ge> 8 \<and> length (bw_out w) < bw_cap w then
        bw_drain (w\<lparr>bw_out := bw_out w @ [ucast (bw_acc w AND 0xFF)], bw_acc := drop_bit 8 (bw_acc w),
          bw_nb := bw_nb w - 8\<rparr>)
      else w)"
  by pat_completeness auto
termination by (relation "measure bw_nb") auto

declare bw_drain.simps [simp del]

definition bw_put :: "bitwr_t \<Rightarrow> u32 \<Rightarrow> nat \<Rightarrow> bitwr_t" where
  "bw_put w v n =
     bw_drain (w\<lparr>bw_acc := bw_acc w OR push_bit (bw_nb w) (ucast v), bw_nb := bw_nb w + n\<rparr>)"

function bw_flush :: "bitwr_t \<Rightarrow> bitwr_t" where
  "bw_flush w =
     (if bw_nb w > 0 \<and> length (bw_out w) < bw_cap w then
        bw_flush (w\<lparr>bw_out := bw_out w @ [ucast (bw_acc w AND 0xFF)], bw_acc := drop_bit 8 (bw_acc w),
          bw_nb := (if bw_nb w < 8 then 0 else bw_nb w - 8)\<rparr>)
      else w)"
  by pat_completeness auto
termination by (relation "measure bw_nb") auto

declare bw_flush.simps [simp del]

definition br_init :: "bytes \<Rightarrow> bitrd_t" where
  "br_init b = \<lparr>br_rest = b, br_acc = 0, br_nb = 0\<rparr>"

fun br_fill_loop :: "nat \<Rightarrow> bytes \<Rightarrow> u64 \<Rightarrow> int \<Rightarrow> bitrd_t" where
  "br_fill_loop n [] acc nb = \<lparr>br_rest = [], br_acc = acc, br_nb = nb\<rparr>"
| "br_fill_loop n (b # rest) acc nb =
     (if nb < int n then br_fill_loop n rest (acc OR push_bit (nat nb) (ucast b)) (nb + 8)
      else \<lparr>br_rest = b # rest, br_acc = acc, br_nb = nb\<rparr>)"

definition br_peek :: "bitrd_t \<Rightarrow> nat \<Rightarrow> nat \<times> bitrd_t" where
  "br_peek r n =
     (let r = br_fill_loop n (br_rest r) (br_acc r) (br_nb r) in
      (unat (br_acc r AND (push_bit n 1 - 1)), r))"

definition br_skip :: "bitrd_t \<Rightarrow> nat \<Rightarrow> bitrd_t" where
  "br_skip r n = r\<lparr>br_acc := drop_bit n (br_acc r), br_nb := br_nb r - int n\<rparr>"

definition br_get :: "bitrd_t \<Rightarrow> nat \<Rightarrow> nat \<times> bitrd_t" where
  "br_get r n = (let (v, r) = br_peek r n in (v, br_skip r n))"

section \<open>Canonical codes\<close>

abbreviation (input) LZH_MAX_CODELEN :: nat where "LZH_MAX_CODELEN \<equiv> 15"

text \<open>\<open>lc[b]\<close>: how many symbols have length \<open>b\<close>; \<open>nc[b]\<close>: the first code of length \<open>b\<close>.\<close>

definition len_counts :: "nat list \<Rightarrow> nat list" where
  "len_counts lens =
     foldl (\<lambda>lc l. if l > 0 \<and> l \<le> LZH_MAX_CODELEN then lc[l := lc ! l + 1] else lc)
       (replicate (LZH_MAX_CODELEN + 1) 0) lens"

fun next_codes_loop :: "nat list \<Rightarrow> nat \<Rightarrow> nat list \<Rightarrow> nat list \<Rightarrow> nat list" where
  "next_codes_loop lc cv [] nc = nc"
| "next_codes_loop lc cv (b # bs) nc =
     (let cv = (cv + lc ! (b - 1)) * 2 in next_codes_loop lc cv bs (nc[b := cv]))"

definition next_codes :: "nat list \<Rightarrow> nat list" where
  "next_codes lc = next_codes_loop lc 0 [1..<LZH_MAX_CODELEN + 1] (replicate (LZH_MAX_CODELEN + 1) 0)"

text \<open>The code is stored with its first bit lowest.\<close>

definition rev_code :: "nat \<Rightarrow> nat \<Rightarrow> nat" where
  "rev_code c n = foldl (\<lambda>rev b. rev OR push_bit (n - 1 - b) (drop_bit b c AND 1)) 0 [0..<n]"

fun assign_codes :: "nat list \<Rightarrow> nat list \<Rightarrow> (nat \<times> nat) list" where
  "assign_codes nc [] = []"
| "assign_codes nc (l # ls) =
     (if l > 0 then (rev_code (nc ! l mod 2 ^ 16) l, l) # assign_codes (nc[l := nc ! l + 1]) ls
      else (0, 0) # assign_codes nc ls)"

text \<open>One entry of the decoder's table: symbol and length, \<open>(-1, 0)\<close> when no code matches.\<close>

type_synonym hlut = "(int \<times> nat) list"

fun lut_loop :: "nat \<Rightarrow> nat list \<Rightarrow> nat list \<Rightarrow> hlut \<Rightarrow> hlut" where
  "lut_loop i nc [] lut = lut"
| "lut_loop i nc (l # ls) lut =
     (if l = 0 \<or> l > LZH_MAX_CODELEN then lut_loop (i + 1) nc ls lut
      else
        let rv = rev_code (nc ! l mod 2 ^ 16) l;
            lut = foldl (\<lambda>t j. t[rv OR push_bit l j := (int i, l)]) lut [0..<2 ^ (LZH_MAX_CODELEN - l)] in
        lut_loop (i + 1) (nc[l := nc ! l + 1]) ls lut)"

definition huff_lut :: "nat list \<Rightarrow> nat \<Rightarrow> hlut" where
  "huff_lut lens ns =
     lut_loop 0 (next_codes (len_counts (take ns lens))) (take ns lens)
       (replicate (2 ^ LZH_MAX_CODELEN) (-1, 0))"

text \<open>\<open>None\<close> is the result \<open>-1\<close>.\<close>

definition huff_dec :: "bitrd_t \<Rightarrow> hlut \<Rightarrow> nat option \<times> bitrd_t" where
  "huff_dec r lut =
     (let (bits, r) = br_peek r LZH_MAX_CODELEN;
          e = lut ! (bits AND (push_bit LZH_MAX_CODELEN 1 - 1)) in
      if fst e < 0 then (None, r) else (Some (nat (fst e)), br_skip r (snd e)))"

section \<open>What the streams stand for\<close>

definition byte_bits :: "u8 \<Rightarrow> bool list" where
  "byte_bits b = map (bit b) [0..<8]"

definition acc_bits :: "u64 \<Rightarrow> nat \<Rightarrow> bool list" where
  "acc_bits a n = map (bit a) [0..<n]"

definition bytes_bits :: "bytes \<Rightarrow> bool list" where
  "bytes_bits bs = concat (map byte_bits bs)"

definition val_bits :: "nat \<Rightarrow> nat \<Rightarrow> bool list" where
  "val_bits n v = map (bit v) [0..<n]"

definition bits_val :: "bool list \<Rightarrow> nat" where
  "bits_val bs = horner_sum of_bool 2 bs"

lemma length_bits [simp]: "length (byte_bits b) = 8" "length (acc_bits a n) = n" "length (val_bits n v) = n"
  by (simp_all add: byte_bits_def acc_bits_def val_bits_def)

lemma bytes_bits_simps [simp]:
  "bytes_bits [] = []" "bytes_bits (b # bs) = byte_bits b @ bytes_bits bs"
  "bytes_bits (as @ bs) = bytes_bits as @ bytes_bits bs"
  by (simp_all add: bytes_bits_def)

lemma length_bytes_bits [simp]: "length (bytes_bits bs) = 8 * length bs"
  by (induction bs) simp_all

lemma bit_bits_val: "bit (bits_val bs) k \<longleftrightarrow> k < length bs \<and> bs ! k"
  by (simp add: bits_val_def bit_horner_sum_bit_iff)

lemma bits_val_less: "bits_val bs < 2 ^ length bs"
  unfolding bits_val_def by (rule horner_sum_of_bool_2_less)

lemma bits_val_val_bits: "v < 2 ^ n \<Longrightarrow> bits_val (val_bits n v) = v"
proof (rule bit_eqI)
  fix k assume "v < 2 ^ n"
  then have "bit v k \<Longrightarrow> k < n"
    by (metis bit_take_bit_iff take_bit_nat_eq_self)
  then show "bit (bits_val (val_bits n v)) k = bit v k"
    by (auto simp: bit_bits_val val_bits_def)
qed

lemma bits_val_snoc_False: "bits_val (bs @ replicate k False) = bits_val bs"
  by (rule bit_eqI) (auto simp: bit_bits_val nth_append)

text \<open>The first \<open>n\<close> bits, missing ones read as zero.\<close>

definition peek_val :: "nat \<Rightarrow> bool list \<Rightarrow> nat" where
  "peek_val n bs = bits_val (take n bs)"

lemma peek_val_append: "length a = n \<Longrightarrow> peek_val n (a @ b) = bits_val a"
  by (simp add: peek_val_def)

text \<open>Accumulators that hold exactly their counted bits.\<close>

definition acc_ok :: "u64 \<Rightarrow> nat \<Rightarrow> bool" where
  "acc_ok a n \<longleftrightarrow> (\<forall>k. bit a k \<longrightarrow> k < n)"

lemma acc_push:
  assumes "acc_ok a n" "n + m \<le> 64" "\<forall>k. bit (v :: u64) k \<longrightarrow> k < m"
  shows "acc_ok (a OR push_bit n v) (n + m)"
    "acc_bits (a OR push_bit n v) (n + m) = acc_bits a n @ map (bit v) [0..<m]"
proof -
  show "acc_ok (a OR push_bit n v) (n + m)"
    using assms(1,3) unfolding acc_ok_def by (auto simp: bit_or_iff bit_push_bit_iff)
  show "acc_bits (a OR push_bit n v) (n + m) = acc_bits a n @ map (bit v) [0..<m]"
  proof (rule nth_equalityI)
    fix k assume "k < length (acc_bits (a OR push_bit n v) (n + m))"
    then have k: "k < n + m" by simp
    show "acc_bits (a OR push_bit n v) (n + m) ! k = (acc_bits a n @ map (bit v) [0..<m]) ! k"
    proof (cases "k < n")
      case True
      then show ?thesis using k by (simp add: acc_bits_def nth_append bit_or_iff bit_push_bit_iff)
    next
      case False
      then have "\<not> bit a k" using assms(1) by (auto simp: acc_ok_def)
      then show ?thesis using False k assms(2) by (simp add: acc_bits_def nth_append bit_or_iff bit_push_bit_iff)
    qed
  qed simp
qed

lemma acc_drop:
  assumes "acc_ok a n" shows "acc_ok (drop_bit m a) (n - m)" "m \<le> n \<Longrightarrow> acc_bits (drop_bit m a) (n - m) = drop m (acc_bits a n)"
proof -
  show "acc_ok (drop_bit m a) (n - m)"
    using assms by (auto simp: acc_ok_def bit_drop_bit_eq)
  show "m \<le> n \<Longrightarrow> acc_bits (drop_bit m a) (n - m) = drop m (acc_bits a n)"
    by (rule nth_equalityI) (simp_all add: acc_bits_def bit_drop_bit_eq)
qed

lemma bit_u8_less: "bit (b :: u8) k \<Longrightarrow> k < 8"
  using bit_imp_le_length by fastforce

section \<open>The reader\<close>

definition rd_bits :: "bitrd_t \<Rightarrow> bool list" where
  "rd_bits r = acc_bits (br_acc r) (nat (br_nb r)) @ bytes_bits (br_rest r)"

text \<open>A negative count occurs only when the reader skipped past the end of its buffer.\<close>

definition rd_ok :: "bitrd_t \<Rightarrow> bool" where
  "rd_ok r \<longleftrightarrow> acc_ok (br_acc r) (nat (br_nb r)) \<and> br_nb r \<le> 40 \<and> (br_nb r < 0 \<longrightarrow> br_rest r = [])"

lemma rd_init: "rd_ok (br_init b)" "rd_bits (br_init b) = bytes_bits b"
  by (simp_all add: rd_ok_def rd_bits_def br_init_def acc_ok_def acc_bits_def)

lemma br_fill:
  assumes "rd_ok \<lparr>br_rest = rest, br_acc = acc, br_nb = nb\<rparr>" "n \<le> 32"
    "br_fill_loop n rest acc nb = r'"
  shows "rd_ok r' \<and> rd_bits r' = rd_bits \<lparr>br_rest = rest, br_acc = acc, br_nb = nb\<rparr> \<and>
    (int n \<le> br_nb r' \<or> br_rest r' = [])"
  using assms
proof (induction n rest acc nb rule: br_fill_loop.induct)
  case (2 n b rest acc nb)
  show ?case
  proof (cases "nb < int n")
    case True
    have nb: "0 \<le> nb" "nb \<le> 40" "acc_ok acc (nat nb)" using 2(2) by (auto simp: rd_ok_def)
    then have le: "nat nb + 8 \<le> 64" by simp
    have e: "nat (nb + 8) = nat nb + 8" using nb by simp
    have b: "\<forall>k. bit (ucast b :: u64) k \<longrightarrow> k < 8" by (auto simp: bit_simps dest: bit_u8_less)
    have bb: "map (bit (ucast b :: u64)) [0..<8] = byte_bits b"
      by (auto simp: byte_bits_def bit_simps intro!: map_cong)
    note p = acc_push [OF nb(3) le b]
    have ok: "rd_ok \<lparr>br_rest = rest, br_acc = acc OR push_bit (nat nb) (ucast b), br_nb = nb + 8\<rparr>"
      using p(1) nb(1) True 2(3) e by (simp add: rd_ok_def)
    have bits: "rd_bits \<lparr>br_rest = rest, br_acc = acc OR push_bit (nat nb) (ucast b), br_nb = nb + 8\<rparr> =
        rd_bits \<lparr>br_rest = b # rest, br_acc = acc, br_nb = nb\<rparr>"
      using p(2) bb e by (simp add: rd_bits_def)
    show ?thesis using 2(1) [OF True ok 2(3)] 2(4) True bits by simp
  qed (use 2 in auto)
qed auto

lemma br_peek_spec:
  assumes "rd_ok r" "n \<le> 32" "br_peek r n = (v, r')"
  shows "rd_ok r'" "rd_bits r' = rd_bits r" "v = peek_val n (rd_bits r)" "int n \<le> br_nb r' \<or> br_rest r' = []"
proof -
  have r': "br_fill_loop n (br_rest r) (br_acc r) (br_nb r) = r'"
    and v: "v = unat (br_acc r' AND (push_bit n 1 - 1))"
    using assms(3) by (auto simp: br_peek_def Let_def)
  have f: "rd_ok r' \<and> rd_bits r' = rd_bits r \<and> (int n \<le> br_nb r' \<or> br_rest r' = [])"
    using br_fill [OF _ assms(2) r'] assms(1) by (cases r) simp
  then show "rd_ok r'" "rd_bits r' = rd_bits r" "int n \<le> br_nb r' \<or> br_rest r' = []" by simp_all
  have m: "(push_bit n 1 - 1 :: u64) = mask n" by (simp add: mask_eq_exp_minus_1)
  have "unat (br_acc r' AND mask n) = peek_val n (rd_bits r')"
  proof (rule bit_eqI)
    fix k
    have acc: "acc_ok (br_acc r') (nat (br_nb r'))" using f by (simp add: rd_ok_def)
    have "bit (unat (br_acc r' AND mask n)) k \<longleftrightarrow> bit (br_acc r') k \<and> k < n"
      using assms(2) by (auto simp: bit_unsigned_iff bit_and_iff bit_mask_iff dest: bit_imp_le_length)
    moreover have "bit (peek_val n (rd_bits r')) k \<longleftrightarrow> k < n \<and> bit (br_acc r') k"
    proof (cases "k < nat (br_nb r')")
      case True
      then show ?thesis by (auto simp: peek_val_def bit_bits_val rd_bits_def nth_append acc_bits_def)
    next
      case False
      then have "\<not> bit (br_acc r') k" using acc by (auto simp: acc_ok_def)
      moreover have "\<not> (k < n \<and> k < length (rd_bits r'))"
      proof (cases "br_rest r' = []")
        case True
        then have "length (rd_bits r') = nat (br_nb r')" by (simp add: rd_bits_def)
        with False show ?thesis by simp
      next
        case False
        then have "int n \<le> br_nb r'" using f by blast
        then have "n \<le> nat (br_nb r')" by linarith
        with \<open>\<not> k < nat (br_nb r')\<close> show ?thesis by simp
      qed
      ultimately show ?thesis by (auto simp: peek_val_def bit_bits_val)
    qed
    ultimately show "bit (unat (br_acc r' AND mask n)) k = bit (peek_val n (rd_bits r')) k" by blast
  qed
  then show "v = peek_val n (rd_bits r)" using v m f by simp
qed

lemma br_skip_spec:
  assumes "rd_ok r" "int n \<le> br_nb r \<or> br_rest r = []"
  shows "rd_ok (br_skip r n)" "rd_bits (br_skip r n) = drop n (rd_bits r)"
proof -
  note a = acc_drop [of "br_acc r" "nat (br_nb r)" n]
  have ok: "acc_ok (br_acc r) (nat (br_nb r))" using assms(1) by (simp add: rd_ok_def)
  have e: "nat (br_nb r - int n) = nat (br_nb r) - n" by simp
  show "rd_ok (br_skip r n)"
    using a(1) [OF ok] assms e by (auto simp: rd_ok_def br_skip_def)
  show "rd_bits (br_skip r n) = drop n (rd_bits r)"
  proof (cases "n \<le> nat (br_nb r)")
    case True
    then show ?thesis using a(2) [OF ok True] by (simp add: rd_bits_def br_skip_def e)
  next
    case False
    then have "br_rest r = []" using assms(2) by auto
    then show ?thesis using False by (simp add: rd_bits_def br_skip_def e acc_bits_def)
  qed
qed

lemma br_get_spec:
  assumes "rd_ok r" "n \<le> 32" "br_get r n = (v, r')"
  shows "rd_ok r' \<and> rd_bits r' = drop n (rd_bits r) \<and> v = peek_val n (rd_bits r)"
proof -
  obtain w s where p: "br_peek r n = (w, s)" by fastforce
  note f = br_peek_spec [OF assms(1,2) p]
  have "v = w" "r' = br_skip s n" using assms(3) p by (simp_all add: br_get_def)
  then show ?thesis using br_skip_spec [OF f(1,4)] f(2,3) by simp
qed

section \<open>The writer\<close>

definition wr_bits :: "bitwr_t \<Rightarrow> bool list" where
  "wr_bits w = bytes_bits (bw_out w) @ acc_bits (bw_acc w) (bw_nb w)"

definition wr_ok :: "bitwr_t \<Rightarrow> bool" where
  "wr_ok w \<longleftrightarrow> acc_ok (bw_acc w) (bw_nb w) \<and> length (bw_out w) \<le> bw_cap w"

definition wr_full :: "bitwr_t \<Rightarrow> bool" where
  "wr_full w \<longleftrightarrow> length (bw_out w) = bw_cap w"

lemma wr_init: "wr_ok (bw_init cap)" "wr_bits (bw_init cap) = []" "bw_nb (bw_init cap) = 0"
  by (simp_all add: wr_ok_def wr_bits_def bw_init_def acc_ok_def acc_bits_def)

lemma byte_bits_low: "8 \<le> n \<Longrightarrow> byte_bits (ucast (a AND 0xFF)) = take 8 (acc_bits a n)"
  by (rule nth_equalityI) (simp_all add: byte_bits_def acc_bits_def and_0xFF bit_simps)

lemma bw_drain_spec:
  "wr_ok w \<Longrightarrow> wr_ok (bw_drain w) \<and> wr_bits (bw_drain w) = wr_bits w \<and> bw_cap (bw_drain w) = bw_cap w \<and>
     (bw_nb (bw_drain w) < 8 \<or> wr_full (bw_drain w))"
proof (induction w rule: bw_drain.induct)
  case (1 w)
  show ?case
  proof (cases "bw_nb w \<ge> 8 \<and> length (bw_out w) < bw_cap w")
    case True
    let ?w = "w\<lparr>bw_out := bw_out w @ [ucast (bw_acc w AND 0xFF)], bw_acc := drop_bit 8 (bw_acc w),
          bw_nb := bw_nb w - 8\<rparr>"
    have ok: "acc_ok (bw_acc w) (bw_nb w)" using 1(2) by (simp add: wr_ok_def)
    have e: "bw_drain w = bw_drain ?w" using True by (subst bw_drain.simps) simp
    have "wr_ok ?w" using acc_drop(1) [OF ok, of 8] True by (simp add: wr_ok_def)
    moreover have "wr_bits ?w = wr_bits w"
      using acc_drop(2) [OF ok, of 8] byte_bits_low [of "bw_nb w" "bw_acc w"] True
      by (simp add: wr_bits_def)
    ultimately show ?thesis using 1(1) [OF True] by (simp add: e)
  next
    case False
    then have e: "bw_drain w = w" by (subst bw_drain.simps) (rule if_not_P)
    have "length (bw_out w) \<le> bw_cap w" using 1(2) by (simp add: wr_ok_def)
    then show ?thesis using False 1(2) by (auto simp: e wr_full_def)
  qed
qed

lemma bw_put_spec:
  assumes "wr_ok w" "bw_nb w < 8 \<or> wr_full w" "n \<le> 32" "unat v < 2 ^ n" "\<not> wr_full (bw_put w v n)"
  shows "wr_ok (bw_put w v n) \<and> wr_bits (bw_put w v n) = wr_bits w @ val_bits n (unat v) \<and>
    bw_nb (bw_put w v n) < 8 \<and> bw_nb w < 8 \<and> \<not> wr_full w"
proof -
  let ?w = "w\<lparr>bw_acc := bw_acc w OR push_bit (bw_nb w) (ucast v), bw_nb := bw_nb w + n\<rparr>"
  have nf: "\<not> wr_full w"
  proof
    assume "wr_full w"
    then have "bw_drain ?w = ?w" by (subst bw_drain.simps) (simp add: wr_full_def)
    with \<open>wr_full w\<close> assms(5) show False by (simp add: bw_put_def wr_full_def)
  qed
  then have nb: "bw_nb w < 8" using assms(2) by blast
  have ok: "acc_ok (bw_acc w) (bw_nb w)" "length (bw_out w) \<le> bw_cap w" using assms(1) by (simp_all add: wr_ok_def)
  have v: "\<forall>k. bit (ucast v :: u64) k \<longrightarrow> k < n"
    using bit_unat_less [OF assms(4)] by (auto simp: bit_simps)
  have le: "bw_nb w + n \<le> 64" using nb assms(3) by simp
  note p = acc_push [OF ok(1) le v]
  have vb: "map (bit (ucast v :: u64)) [0..<n] = val_bits n (unat v)"
    using assms(3) by (auto simp: val_bits_def bit_simps bit_unsigned_iff intro!: map_cong)
  have "wr_ok ?w" using p(1) ok(2) by (simp add: wr_ok_def)
  from bw_drain_spec [OF this] show ?thesis
    using p(2) vb nf nb assms(5) by (simp add: bw_put_def wr_bits_def)
qed

lemma bw_put_keeps: "wr_ok w \<Longrightarrow> bw_nb w < 8 \<or> wr_full w \<Longrightarrow> n \<le> 32 \<Longrightarrow> unat v < 2 ^ n \<Longrightarrow>
    bw_cap (bw_put w v n) = bw_cap w \<and> (bw_nb (bw_put w v n) < 8 \<or> wr_full (bw_put w v n)) \<and>
    length (bw_out (bw_put w v n)) \<le> bw_cap w"
proof -
  assume a: "wr_ok w" "bw_nb w < 8 \<or> wr_full w" "n \<le> 32" "unat v < 2 ^ n"
  show ?thesis
  proof (cases "wr_full w")
    case True
    then show ?thesis
      using a(1) by (simp add: bw_put_def bw_drain.simps wr_full_def)
  next
    case False
    then have nb: "bw_nb w < 8" using a(2) by blast
    have "\<forall>k. bit (ucast v :: u64) k \<longrightarrow> k < n"
      using bit_unat_less [OF a(4)] by (auto simp: bit_simps)
    then have "wr_ok (w\<lparr>bw_acc := bw_acc w OR push_bit (bw_nb w) (ucast v), bw_nb := bw_nb w + n\<rparr>)"
      using a acc_push(1) [of "bw_acc w" "bw_nb w" n "ucast v"] nb by (simp add: wr_ok_def)
    from bw_drain_spec [OF this] show ?thesis by (simp add: bw_put_def wr_ok_def)
  qed
qed

text \<open>Flushing pads the last byte with zero bits.\<close>

lemma bw_flush_spec:
  assumes "wr_ok w" "bw_nb w < 8" "\<not> wr_full w"
  shows "\<exists>k < 8. bytes_bits (bw_out (bw_flush w)) = wr_bits w @ replicate k False"
proof (cases "bw_nb w = 0")
  case True
  then have "bw_flush w = w" by (subst bw_flush.simps) simp
  with True show ?thesis by (intro exI [of _ 0]) (simp add: wr_bits_def acc_bits_def)
next
  case False
  let ?b = "ucast (bw_acc w AND 0xFF) :: u8"
  let ?w = "w\<lparr>bw_out := bw_out w @ [?b], bw_acc := drop_bit 8 (bw_acc w), bw_nb := 0\<rparr>"
  have room: "length (bw_out w) < bw_cap w" using assms(1,3) by (simp add: wr_ok_def wr_full_def)
  have "bw_flush w = bw_flush ?w" using False assms(2) room by (subst bw_flush.simps) simp
  also have "\<dots> = ?w" by (subst bw_flush.simps) simp
  finally have e: "bw_flush w = ?w" .
  have ok: "acc_ok (bw_acc w) (bw_nb w)" using assms(1) by (simp add: wr_ok_def)
  have "byte_bits ?b = acc_bits (bw_acc w) (bw_nb w) @ replicate (8 - bw_nb w) False"
    by (rule nth_equalityI)
      (use assms(2) ok in \<open>auto simp: byte_bits_def acc_bits_def acc_ok_def nth_append and_0xFF bit_simps\<close>)
  then show ?thesis
    using assms(2) False by (intro exI [of _ "8 - bw_nb w"]) (simp add: e wr_bits_def)
qed

lemma bw_flush_length: "length (bw_out w) \<le> bw_cap w \<Longrightarrow> length (bw_out (bw_flush w)) \<le> bw_cap w \<and>
    (wr_full w \<longrightarrow> length (bw_out (bw_flush w)) = bw_cap w)"
proof (induction w rule: bw_flush.induct)
  case (1 w)
  show ?case
  proof (cases "bw_nb w > 0 \<and> length (bw_out w) < bw_cap w")
    case True
    then show ?thesis using 1(1) [OF True] by (subst (1 2) bw_flush.simps) (simp add: wr_full_def)
  next
    case False
    then have "bw_flush w = w" by (subst bw_flush.simps) (rule if_not_P)
    then show ?thesis using 1(2) by (simp add: wr_full_def)
  qed
qed

section \<open>Canonical codes form a prefix code\<close>

definition kraft :: "nat list \<Rightarrow> nat" where
  "kraft lens = (\<Sum>l \<leftarrow> lens. if l = 0 then 0 else 2 ^ (15 - l))"

definition lens_ok :: "nat list \<Rightarrow> bool" where
  "lens_ok lens \<longleftrightarrow> (\<forall>l \<in> set lens. l \<le> 15) \<and> kraft lens \<le> 2 ^ 15"

text \<open>The first canonical code of a length, and the code of symbol \<open>i\<close>.\<close>

fun first_code :: "nat list \<Rightarrow> nat \<Rightarrow> nat" where
  "first_code lens 0 = 0"
| "first_code lens (Suc b) = (first_code lens b + (if b = 0 then 0 else count_list lens b)) * 2"

definition canon :: "nat list \<Rightarrow> nat \<Rightarrow> nat" where
  "canon lens i = first_code lens (lens ! i) + count_list (take i lens) (lens ! i)"

lemma len_counts_step_length:
  "length (foldl (\<lambda>lc l. if l > 0 \<and> l \<le> 15 then lc[l := lc ! l + 1] else lc) lc0 lens) = length lc0"
  by (induction lens arbitrary: lc0) auto

lemma len_counts_step:
  "length lc0 = 16 \<Longrightarrow> b < 16 \<Longrightarrow>
   foldl (\<lambda>lc l. if l > 0 \<and> l \<le> 15 then lc[l := lc ! l + 1] else lc) lc0 lens ! b =
     lc0 ! b + (if b = 0 then 0 else count_list lens b)"
proof (induction lens arbitrary: lc0)
  case (Cons l lens)
  show ?case
  proof (cases "l > 0 \<and> l \<le> 15")
    case True
    then show ?thesis using Cons.IH [of "lc0[l := lc0 ! l + 1]"] Cons.prems by (auto simp: nth_list_update)
  next
    case False
    then show ?thesis using Cons.IH [of lc0] Cons.prems by auto
  qed
qed simp

lemma len_counts_nth:
  "b < 16 \<Longrightarrow> len_counts lens ! b = (if b = 0 then 0 else count_list lens b)"
  unfolding len_counts_def by (subst len_counts_step) (auto simp del: replicate_Suc)

lemma next_codes_loop_nth:
  assumes "length nc = 16" "1 \<le> a" "a \<le> 16" "cv = first_code lens (a - 1)"
  shows "length (next_codes_loop (len_counts lens) cv [a..<16] nc) = 16 \<and>
    (\<forall>b < 16. next_codes_loop (len_counts lens) cv [a..<16] nc ! b = (if a \<le> b then first_code lens b else nc ! b))"
  using assms
proof (induction "16 - a" arbitrary: a cv nc)
  case (Suc n)
  have a: "a < 16" using Suc(2) by simp
  define cv' where "cv' = (cv + len_counts lens ! (a - 1)) * 2"
  have cv': "cv' = first_code lens a"
    using Suc.prems(2,4) a by (cases a) (simp_all add: cv'_def len_counts_nth)
  have "next_codes_loop (len_counts lens) cv [a..<16] nc = next_codes_loop (len_counts lens) cv' [Suc a..<16] (nc[a := cv'])"
    using a by (subst upt_conv_Cons) (simp_all add: cv'_def Let_def)
  moreover have "n = 16 - Suc a" using Suc(2) by simp
  note Suc(1) [OF this, of "nc[a := cv']" cv']
  ultimately show ?case using Suc.prems a cv'
    by (auto simp: nth_list_update le_Suc_eq not_less_eq_eq dest: le_antisym)
qed auto

lemma next_codes_nth:
  "length (next_codes (len_counts lens)) = 16"
  "b < 16 \<Longrightarrow> next_codes (len_counts lens) ! b = first_code lens b"
proof -
  have *: "length (next_codes_loop (len_counts lens) 0 [1..<16] (replicate 16 0)) = 16 \<and>
    (\<forall>b < 16. next_codes_loop (len_counts lens) 0 [1..<16] (replicate 16 0) ! b =
      (if 1 \<le> b then first_code lens b else replicate 16 0 ! b))"
    by (rule next_codes_loop_nth) simp_all
  have d: "next_codes (len_counts lens) = next_codes_loop (len_counts lens) 0 [1..<16] (replicate 16 0)"
    unfolding next_codes_def by (simp only: numeral_eq_Suc) simp
  show "length (next_codes (len_counts lens)) = 16" unfolding d using * by blast
  show "next_codes (len_counts lens) ! b = first_code lens b" if "b < 16"
    unfolding d using * that by (cases b) (simp_all del: replicate_Suc)
qed

lemma assign_codes_length [simp]: "length (assign_codes nc ls) = length ls"
  by (induction nc ls rule: assign_codes.induct) auto

lemma assign_codes_nth:
  "length nc = 16 \<Longrightarrow> \<forall>l \<in> set ls. l \<le> 15 \<Longrightarrow> i < length ls \<Longrightarrow>
   assign_codes nc ls ! i = (if ls ! i = 0 then (0, 0)
     else (rev_code ((nc ! (ls ! i) + count_list (take i ls) (ls ! i)) mod 2 ^ 16) (ls ! i), ls ! i))"
proof (induction nc ls arbitrary: i rule: assign_codes.induct)
  case (2 nc l ls)
  show ?case
  proof (cases i)
    case (Suc j)
    have j: "j < length ls" using 2(5) Suc by simp
    show ?thesis
    proof (cases "l > 0")
      case True
      then show ?thesis
        using 2(1) [OF True _ _ j] 2(3,4) j Suc by (auto simp: nth_list_update)
    next
      case False
      then show ?thesis using 2(2) [OF False _ _ j] 2(3,4) j Suc by auto
    qed
  qed auto
qed simp

lemma kraft_counts:
  "\<forall>l \<in> set lens. l \<le> 15 \<Longrightarrow> (\<Sum>k \<in> {1..15}. count_list lens k * 2 ^ (15 - k)) = kraft lens"
proof (induction lens)
  case (Cons l lens)
  have "(\<Sum>k \<in> {1..15}. count_list (l # lens) k * 2 ^ (15 - k)) =
      (\<Sum>k \<in> {1..15}. (if l = k then 2 ^ (15 - k) else 0) + count_list lens k * 2 ^ (15 - k))"
    by (rule sum.cong) auto
  also have "\<dots> = (\<Sum>k \<in> {1..15}. if l = k then 2 ^ (15 - k) else 0) + kraft lens"
    using Cons by (simp add: sum.distrib)
  also have "(\<Sum>k \<in> {1..15}. if l = k then 2 ^ (15 - k) else 0) = (if l = 0 then 0 else 2 ^ (15 - l) :: nat)"
    using Cons.prems by simp
  finally show ?case by (simp add: kraft_def)
qed (simp add: kraft_def)

lemma first_code_sum:
  "b \<le> 15 \<Longrightarrow> first_code lens b * 2 ^ (15 - b) = (\<Sum>k \<in> {1..<b}. count_list lens k * 2 ^ (15 - k))"
proof (induction b)
  case (Suc b)
  have e: "2 * 2 ^ (15 - Suc b) = (2 ^ (15 - b) :: nat)"
    using Suc.prems by (metis Suc_diff_le diff_Suc_Suc power_Suc)
  have "first_code lens (Suc b) * 2 ^ (15 - Suc b) =
      (first_code lens b + (if b = 0 then 0 else count_list lens b)) * 2 ^ (15 - b)"
    unfolding e [symmetric] by simp
  also have "\<dots> = (\<Sum>k \<in> {1..<b}. count_list lens k * 2 ^ (15 - k)) + (if b = 0 then 0 else count_list lens b * 2 ^ (15 - b))"
    using Suc by (simp add: add_mult_distrib)
  also have "\<dots> = (\<Sum>k \<in> {1..<Suc b}. count_list lens k * 2 ^ (15 - k))"
    by (cases b) (simp_all add: sum.atLeastLessThan_Suc)
  finally show ?case .
qed simp

lemma rank_less: "i < length lens \<Longrightarrow> count_list (take i lens) (lens ! i) < count_list lens (lens ! i)"
proof -
  assume i: "i < length lens"
  have "count_list lens (lens ! i) = count_list (take i lens @ lens ! i # drop (Suc i) lens) (lens ! i)"
    using i by (simp add: id_take_nth_drop [symmetric])
  then show ?thesis by simp
qed

text \<open>The codes as disjoint intervals of the \<open>15\<close>-bit numbers.\<close>

lemma canon_upper:
  assumes "lens_ok lens" "i < length lens" "lens ! i > 0"
  shows "(canon lens i + 1) * 2 ^ (15 - lens ! i) \<le> (\<Sum>k \<in> {1..<Suc (lens ! i)}. count_list lens k * 2 ^ (15 - k))"
    "canon lens i < 2 ^ (lens ! i)"
proof -
  let ?l = "lens ! i"
  have l: "?l \<le> 15" using assms(1,2) by (simp add: lens_ok_def)
  have "(canon lens i + 1) * 2 ^ (15 - ?l) \<le> (first_code lens ?l + count_list lens ?l) * 2 ^ (15 - ?l)"
    using rank_less [OF assms(2)] by (intro mult_right_mono) (simp_all add: canon_def)
  also have "\<dots> = (\<Sum>k \<in> {1..<Suc ?l}. count_list lens k * 2 ^ (15 - k))"
    using assms(3) l first_code_sum [of ?l lens] by (simp add: add_mult_distrib sum.atLeastLessThan_Suc)
  finally show u: "(canon lens i + 1) * 2 ^ (15 - ?l) \<le> (\<Sum>k \<in> {1..<Suc ?l}. count_list lens k * 2 ^ (15 - k))" .
  also have "\<dots> \<le> (\<Sum>k \<in> {1..15}. count_list lens k * 2 ^ (15 - k))"
    using l by (intro sum_mono2) auto
  also have "\<dots> \<le> 2 ^ 15" using kraft_counts [of lens] assms(1) by (simp add: lens_ok_def)
  also have "\<dots> = 2 ^ ?l * 2 ^ (15 - ?l)" using l by (simp flip: power_add)
  finally have "canon lens i + 1 \<le> 2 ^ ?l" by (subst (asm) mult_le_cancel2) simp
  then show "canon lens i < 2 ^ ?l" by simp
qed

lemma canon_disjoint:
  assumes "lens_ok lens" "i < length lens" "j < length lens" "lens ! i > 0"
    "lens ! i < lens ! j \<or> lens ! i = lens ! j \<and> i < j"
  shows "(canon lens i + 1) * 2 ^ (15 - lens ! i) \<le> canon lens j * 2 ^ (15 - lens ! j)"
  using assms(5)
proof
  assume l: "lens ! i < lens ! j"
  have lj: "lens ! j \<le> 15" using assms(1,3) by (simp add: lens_ok_def)
  have "(canon lens i + 1) * 2 ^ (15 - lens ! i) \<le> (\<Sum>k \<in> {1..<Suc (lens ! i)}. count_list lens k * 2 ^ (15 - k))"
    by (rule canon_upper(1)) (use assms in auto)
  also have "\<dots> \<le> (\<Sum>k \<in> {1..<lens ! j}. count_list lens k * 2 ^ (15 - k))"
    using l by (intro sum_mono2) auto
  also have "\<dots> = first_code lens (lens ! j) * 2 ^ (15 - lens ! j)" using first_code_sum [OF lj] by simp
  finally show ?thesis by (simp add: canon_def add_mult_distrib)
next
  assume e: "lens ! i = lens ! j \<and> i < j"
  have "take j lens = take i lens @ lens ! i # take (j - Suc i) (drop (Suc i) lens)"
    using e assms(3) by (metis Cons_nth_drop_Suc Suc_diff_Suc add_diff_inverse_nat assms(2) less_imp_not_less take_Suc_Cons take_add)
  then have "canon lens i + 1 \<le> canon lens j" using e by (simp add: canon_def)
  then show ?thesis using e mult_le_mono1 [of "canon lens i + 1" "canon lens j" "2 ^ (15 - lens ! j)"] by simp
qed

lemma bit_rev_code: "bit (rev_code c n) k \<longleftrightarrow> k < n \<and> bit c (n - 1 - k)"
proof -
  have "bit (foldl (\<lambda>rev b. rev OR push_bit (n - 1 - b) (drop_bit b c AND 1)) 0 [0..<m]) k \<longleftrightarrow>
      k < n \<and> n - 1 - k < m \<and> bit c (n - 1 - k)" if "m \<le> n" for m
    using that
  proof (induction m)
    case (Suc m)
    have "bit (push_bit (n - 1 - m) (drop_bit m c AND 1)) k \<longleftrightarrow> k = n - 1 - m \<and> bit c m"
      by (auto simp: bit_push_bit_iff_nat bit_and_iff bit_1_iff bit_drop_bit_eq simp flip: bit_iff_odd_drop_bit)
    moreover have "k = n - 1 - m \<longleftrightarrow> k < n \<and> n - 1 - k = m" using Suc.prems by auto
    ultimately show ?case using Suc by (auto simp: bit_or_iff less_Suc_eq)
  qed simp
  from this [of n] show ?thesis by (auto simp: rev_code_def)
qed

lemma nat_less_power_iff: "(v :: nat) < 2 ^ n \<longleftrightarrow> (\<forall>k. bit v k \<longrightarrow> k < n)"
  by (metis bit_take_bit_iff bit_eqI take_bit_nat_eq_self take_bit_nat_less_exp)

lemma rev_code_less: "rev_code c n < 2 ^ n"
  by (simp add: nat_less_power_iff bit_rev_code)

lemma all_less_flip: "(\<forall>k < l. P k (l - 1 - k)) \<longleftrightarrow> (\<forall>k < l :: nat. P (l - 1 - k) k)"
proof -
  have *: "\<forall>k < l. Q (l - 1 - k) k" if "\<forall>k < l. Q k (l - 1 - k)" for Q :: "nat \<Rightarrow> nat \<Rightarrow> bool"
  proof (intro allI impI)
    fix k assume "k < l"
    then have "l - 1 - k < l" "l - 1 - (l - 1 - k) = k" by auto
    then show "Q (l - 1 - k) k" using that by metis
  qed
  show ?thesis using * [of P] * [of "\<lambda>a b. P b a"] by blast
qed

lemma take_bit_rev_iff:
  assumes "c < 2 ^ l" "l \<le> 15"
  shows "take_bit l v = rev_code c l \<longleftrightarrow> drop_bit (15 - l) (rev_code v 15) = c"
proof -
  have c: "bit c k \<Longrightarrow> k < l" for k using assms(1) by (simp add: nat_less_power_iff)
  have *: "15 - l + k < 15 \<longleftrightarrow> k < l" "k < l \<Longrightarrow> 14 - (15 - l + k) = l - Suc k" for k using assms(2) by auto
  have "take_bit l v = rev_code c l \<longleftrightarrow> (\<forall>k < l. bit v k = bit c (l - 1 - k))"
    by (auto simp: bit_eq_iff bit_take_bit_iff bit_rev_code)
  also have "\<dots> \<longleftrightarrow> (\<forall>k < l. bit v (l - 1 - k) = bit c k)"
    by (rule all_less_flip)
  also have "\<dots> \<longleftrightarrow> drop_bit (15 - l) (rev_code v 15) = c"
  proof -
    have b: "bit (drop_bit (15 - l) (rev_code v 15)) k \<longleftrightarrow> k < l \<and> bit v (l - Suc k)" for k
    proof (cases "k < l")
      case True
      then have "15 + k - l < 15" "14 - (15 + k - l) = l - Suc k" using assms(2) by auto
      then show ?thesis using True * [of k] by (simp add: bit_drop_bit_eq bit_rev_code)
    next
      case False
      then show ?thesis using *(1) [of k] by (simp add: bit_drop_bit_eq bit_rev_code)
    qed
    have "(\<forall>k < l. bit v (l - Suc k) = bit c k) \<longleftrightarrow> (\<forall>k. (k < l \<and> bit v (l - Suc k)) = bit c k)"
      using c by blast
    then show ?thesis unfolding bit_eq_iff b by simp
  qed
  finally show ?thesis .
qed

text \<open>A number whose low bits are the code of a symbol.\<close>

definition has_code :: "nat list \<Rightarrow> nat \<Rightarrow> nat \<Rightarrow> bool" where
  "has_code lens v i \<longleftrightarrow> lens ! i > 0 \<and> take_bit (lens ! i) v = rev_code (canon lens i) (lens ! i)"

lemma has_code_unique:
  assumes "lens_ok lens" "i < length lens" "j < length lens" "has_code lens v i" "has_code lens v j"
  shows "i = j"
proof -
  let ?r = "rev_code v 15"
  have iv: "canon lens k * 2 ^ (15 - lens ! k) \<le> ?r \<and> ?r < (canon lens k + 1) * 2 ^ (15 - lens ! k)"
    if "k < length lens" "has_code lens v k" for k
  proof -
    have "lens ! k > 0" "lens ! k \<le> 15" using assms(1) that by (auto simp: lens_ok_def has_code_def)
    then have "?r div 2 ^ (15 - lens ! k) = canon lens k"
      using that(2) take_bit_rev_iff canon_upper(2) [OF assms(1) that(1)]
      by (simp add: has_code_def drop_bit_eq_div)
    then show ?thesis
      by (metis Suc_eq_plus1 div_less_iff_less_mult lessI less_eq_div_iff_mult_less_eq order_refl zero_less_numeral zero_less_power)
  qed
  have False if "i \<noteq> j"
  proof (cases "lens ! i < lens ! j \<or> lens ! i = lens ! j \<and> i < j")
    case True
    then show False
      using canon_disjoint [OF assms(1-3) _ True] iv [OF assms(2,4)] iv [OF assms(3,5)] assms(4)
      by (simp add: has_code_def)
  next
    case False
    then have T: "lens ! j < lens ! i \<or> lens ! j = lens ! i \<and> j < i" using that by auto
    then show False
      using canon_disjoint [OF assms(1,3,2) _ T] iv [OF assms(2,4)] iv [OF assms(3,5)] assms(5)
      by (simp add: has_code_def)
  qed
  then show ?thesis by blast
qed

lemma canon_codes:
  assumes "lens_ok lens" "i < length lens"
  shows "assign_codes (next_codes (len_counts lens)) lens ! i =
    (if lens ! i = 0 then (0, 0) else (rev_code (canon lens i) (lens ! i), lens ! i))"
proof (cases "lens ! i = 0")
  case False
  have l: "lens ! i \<le> 15" "lens ! i < 16" using assms by (auto simp: lens_ok_def less_Suc_eq_le dest!: bspec [OF _ nth_mem])
  have "canon lens i < 2 ^ (lens ! i)" using canon_upper(2) [OF assms] False by simp
  also have "\<dots> \<le> 2 ^ 15" using l(1) by (intro power_increasing) auto
  finally have "canon lens i mod 2 ^ 16 = canon lens i" by simp
  then show ?thesis using assms next_codes_nth(1) next_codes_nth(2) [OF l(2), of lens]
    by (subst assign_codes_nth) (auto simp: lens_ok_def canon_def)
qed (use assms next_codes_nth in \<open>subst assign_codes_nth, auto simp: lens_ok_def\<close>)

section \<open>The table and the decoder\<close>

lemma foldl_update_nth:
  "v < length t \<Longrightarrow> foldl (\<lambda>t j. t[f j := x]) t js ! v = (if v \<in> f ` set js then x else t ! v)"
  by (induction js arbitrary: t) (auto simp: nth_list_update)

lemma foldl_update_length [simp]: "length (foldl (\<lambda>t j. t[f j := x]) t js) = length t"
  by (induction js arbitrary: t) auto

lemma fill_set:
  assumes "rv < 2 ^ l" "l \<le> 15" "v < 2 ^ 15"
  shows "v \<in> (\<lambda>j. rv OR push_bit l j) ` set [0..<2 ^ (15 - l)] \<longleftrightarrow> take_bit l v = rv"
proof
  have rv: "bit rv k \<Longrightarrow> k < l" for k using assms(1) by (simp add: nat_less_power_iff)
  {
    assume "v \<in> (\<lambda>j. rv OR push_bit l j) ` set [0..<2 ^ (15 - l)]"
    then show "take_bit l v = rv"
      using rv by (auto simp: bit_eq_iff bit_take_bit_iff bit_or_iff bit_push_bit_iff_nat)
  next
    assume "take_bit l v = rv"
    moreover have "v = take_bit l v OR push_bit l (drop_bit l v)"
    proof (rule bit_eqI)
      fix k show "bit v k = bit (take_bit l v OR push_bit l (drop_bit l v)) k"
        by (cases "k < l") (simp_all add: bit_take_bit_iff bit_or_iff bit_push_bit_iff_nat bit_drop_bit_eq)
    qed
    ultimately have "v = rv OR push_bit l (drop_bit l v)" by simp
    moreover have "drop_bit l v < 2 ^ (15 - l)"
      using assms(2,3) unfolding drop_bit_eq_div
      by (intro less_mult_imp_div_less) (simp flip: power_add)
    ultimately show "v \<in> (\<lambda>j. rv OR push_bit l j) ` set [0..<2 ^ (15 - l)]" by auto
  }
qed

lemma lut_loop_nth:
  assumes "length nc = 16" "\<forall>l \<in> set ls. l \<le> 15" "length lut = 2 ^ 15" "v < 2 ^ 15"
  shows "lut_loop i nc ls lut ! v =
    foldl (\<lambda>e (j, c, l). if l > 0 \<and> take_bit l v = c then (int j, l) else e) (lut ! v)
      (zip [i..<i + length ls] (assign_codes nc ls))"
  using assms
proof (induction i nc ls lut rule: lut_loop.induct)
  case (2 i nc l ls lut)
  have e: "[i..<i + length (l # ls)] = i # [Suc i..<Suc i + length ls]" by (subst upt_conv_Cons) simp_all
  show ?case
  proof (cases "l = 0 \<or> l > 15")
    case True
    then have "l = 0" using 2(4) by auto
    then show ?thesis using 2(1) [OF True] 2(3-) e by (simp del: upt_Suc)
  next
    case False
    let ?rv = "rev_code (nc ! l mod 2 ^ 16) l"
    let ?lut = "foldl (\<lambda>t j. t[?rv OR push_bit l j := (int i, l)]) lut [0..<2 ^ (15 - l)]"
    have "?lut ! v = (if take_bit l v = ?rv then (int i, l) else lut ! v)"
      using fill_set [OF rev_code_less [of "nc ! l mod 2 ^ 16" l] _ 2(6)] False 2(5,6)
      by (subst foldl_update_nth) (simp_all del: set_upt)
    then show ?thesis using 2(2) [OF False refl refl] 2(3-) False e
      by (simp add: Let_def del: upt_Suc)
  qed
qed simp

text \<open>At most one symbol has its code at the start of \<open>v\<close>, so the entry names it.\<close>

lemma foldl_pick:
  assumes "\<And>x. x \<in> set xs \<Longrightarrow> P x \<Longrightarrow> f x = y" "\<exists>x \<in> set xs. P x"
  shows "foldl (\<lambda>e x. if P x then f x else e) e0 xs = y"
proof -
  have "foldl (\<lambda>e x. if P x then f x else e) e0 xs = (if \<exists>x \<in> set xs. P x then y else e0)"
    using assms(1) by (induction xs arbitrary: e0) auto
  then show ?thesis using assms(2) by simp
qed

lemma huff_lut_code:
  assumes "lens_ok (take ns lens)" "v < 2 ^ 15" "i < length (take ns lens)" "has_code (take ns lens) v i"
  shows "huff_lut lens ns ! v = (int i, take ns lens ! i)"
proof -
  let ?ls = "take ns lens"
  let ?cs = "assign_codes (next_codes (len_counts ?ls)) ?ls"
  have "huff_lut lens ns ! v = foldl (\<lambda>e (j, c, l). if l > 0 \<and> take_bit l v = c then (int j, l) else e)
      (replicate (2 ^ 15) (-1, 0) ! v) (zip [0..<0 + length ?ls] ?cs)"
    unfolding huff_lut_def by (rule lut_loop_nth) (use assms(1,2) next_codes_nth in \<open>auto simp: lens_ok_def\<close>)
  also have "(\<lambda>e (j, c, l). if l > 0 \<and> take_bit l v = c then (int j, l) else e) =
      (\<lambda>e x. if (\<lambda>(j, c, l). l > 0 \<and> take_bit l v = c) x then (\<lambda>(j, c, l). (int j, l)) x else e)"
    by (auto simp: fun_eq_iff)
  also have "foldl (\<lambda>e x. if (\<lambda>(j, c, l). l > 0 \<and> take_bit l v = c) x then (\<lambda>(j, c, l). (int j, l)) x else e)
      (replicate (2 ^ 15) (-1, 0) ! v) (zip [0..<0 + length ?ls] ?cs) = (int i, ?ls ! i)"
  proof (rule foldl_pick)
    fix x assume x: "x \<in> set (zip [0..<0 + length ?ls] ?cs)" and px: "(\<lambda>(j, c, l). l > 0 \<and> take_bit l v = c) x"
    obtain j where j: "j < length ?ls" "x = (j, ?cs ! j)"
      using x unfolding in_set_zip by (cases x) (force simp: nth_upt)
    have p: "(\<lambda>(j, c, l). l > 0 \<and> take_bit l v = c) (j, ?cs ! j)" using px j(2) by simp
    have "has_code ?ls v j" using p canon_codes [OF assms(1) j(1)] by (auto simp: has_code_def split: if_splits)
    then have "j = i" using has_code_unique assms(1,3,4) j(1) by blast
    then show "(\<lambda>(j, c, l). (int j, l)) x = (int i, ?ls ! i)"
      using j canon_codes [OF assms(1,3)] assms(4) by (auto simp: has_code_def)
  next
    have "(i, ?cs ! i) \<in> set (zip [0..<0 + length ?ls] ?cs)"
      unfolding in_set_zip using assms(3) by (intro exI [of _ i]) simp
    moreover have "(\<lambda>(j, c, l). l > 0 \<and> take_bit l v = c) (i, ?cs ! i)"
      using canon_codes [OF assms(1,3)] assms(4) by (auto simp: has_code_def)
    ultimately show "\<exists>x \<in> set (zip [0..<0 + length ?ls] ?cs). (\<lambda>(j, c, l). l > 0 \<and> take_bit l v = c) x" by (rule rev_bexI)
  qed
  finally show ?thesis .
qed

text \<open>The bits a code contributes to the stream, and the decoding of a symbol.\<close>

definition code_bits :: "(nat \<times> nat) list \<Rightarrow> nat \<Rightarrow> bool list" where
  "code_bits cs i = val_bits (snd (cs ! i)) (fst (cs ! i))"

lemma bits_val_take: "bits_val (take n bs) = take_bit n (bits_val bs)"
  by (rule bit_eqI) (auto simp: bit_bits_val bit_take_bit_iff)

lemma huff_dec_code:
  assumes "lens_ok (take ns lens)" "i < length (take ns lens)" "take ns lens ! i > 0" "rd_ok r"
    "rd_bits r = code_bits (assign_codes (next_codes (len_counts (take ns lens))) (take ns lens)) i @ rest"
  shows "\<exists>r'. huff_dec r (huff_lut lens ns) = (Some i, r') \<and> rd_ok r' \<and> rd_bits r' = rest"
proof -
  let ?ls = "take ns lens"
  let ?c = "rev_code (canon ?ls i) (?ls ! i)"
  have l: "?ls ! i \<le> 15" using assms(1,2) by (auto simp: lens_ok_def dest!: bspec [OF _ nth_mem])
  obtain v r1 where p: "br_peek r 15 = (v, r1)" by fastforce
  note f = br_peek_spec [OF assms(4) _ p]
  have bits: "rd_bits r = val_bits (?ls ! i) ?c @ rest"
    using canon_codes [OF assms(1,2)] assms(3,5) by (simp add: code_bits_def)
  have v: "v = bits_val (take 15 (rd_bits r))" using f(3) by (simp add: peek_val_def)
  have "v < 2 ^ length (take 15 (rd_bits r))" unfolding v by (rule bits_val_less)
  also have "\<dots> \<le> 2 ^ 15" by (intro power_increasing) auto
  finally have v15: "v < 2 ^ 15" .
  have "take_bit (?ls ! i) v = bits_val (take (?ls ! i) (rd_bits r))"
    using l by (simp add: v bits_val_take min_def)
  also have "take (?ls ! i) (rd_bits r) = val_bits (?ls ! i) ?c" by (simp add: bits)
  also have "bits_val \<dots> = ?c" by (rule bits_val_val_bits) (rule rev_code_less)
  finally have "has_code ?ls v i" using assms(3) by (simp add: has_code_def)
  then have e: "huff_lut lens ns ! v = (int i, ?ls ! i)"
    by (rule huff_lut_code [OF assms(1) v15 assms(2)])
  have "v AND (push_bit 15 1 - 1) = take_bit 15 v" by (simp add: take_bit_eq_mask mask_eq_exp_minus_1)
  also have "\<dots> = v" using v15 by (simp add: take_bit_nat_eq_self)
  finally have "huff_dec r (huff_lut lens ns) = (Some i, br_skip r1 (?ls ! i))"
    by (simp add: huff_dec_def p e)
  moreover have "int (?ls ! i) \<le> br_nb r1 \<or> br_rest r1 = []" using f(4) l by auto
  ultimately show ?thesis using br_skip_spec [of r1 "?ls ! i"] f(1,2) bits by simp
qed

lemma snd_assign_codes: "map snd (assign_codes nc lens) = lens"
  by (induction nc lens rule: assign_codes.induct) auto

end
