(* ===== verification/HuffBuild.thy ===== *)
theory HuffBuild
  imports Huff
begin

text \<open>
  The construction of Huffman codes in the LZH encoder (\<open>huff_build\<close> of \<open>src/zupt_lzh.c\<close>): the
  binary heap, the merging loop with its two child arrays, the depths of the leaves clamped at
  fifteen, the redistribution that brings the Kraft sum back to its bound, the assignment of
  lengths by frequency, and the canonical codes.

  The main result: whatever the frequencies, the lengths are at most fifteen, exactly the
  symbols that occur have one, and the Kraft inequality holds, so that the decoder's table of
  theory \<open>Huff\<close> reads every code back.
\<close>

section \<open>The heap\<close>

record hnode_t =
  hn_f :: u32
  hn_s :: int

function h_down :: "hnode_t list \<Rightarrow> nat \<Rightarrow> nat \<Rightarrow> hnode_t list" where
  "h_down h n i =
     (let l = 2 * i + 1; r = 2 * i + 2;
          b = (if l < n \<and> hn_f (h ! l) < hn_f (h ! i) then l else i);
          b = (if r < n \<and> hn_f (h ! r) < hn_f (h ! b) then r else b) in
      if b = i then h else h_down (h[i := h ! b, b := h ! i]) n b)"
  by pat_completeness auto
termination by (relation "measure (\<lambda>(h, n, i). n - i)") (auto split: if_splits)

declare h_down.simps [simp del]

function h_up :: "hnode_t list \<Rightarrow> nat \<Rightarrow> hnode_t list" where
  "h_up h i =
     (if i > 0 then
        let p = (i - 1) div 2 in
        if hn_f (h ! p) \<le> hn_f (h ! i) then h else h_up (h[i := h ! p, p := h ! i]) p
      else h)"
  by pat_completeness auto
termination by (relation "measure snd") auto

declare h_up.simps [simp del]

text \<open>Taking the root: the last element replaces it and sinks.\<close>

definition heap_pop :: "hnode_t list \<Rightarrow> hnode_t \<times> hnode_t list" where
  "heap_pop hp =
     (let rest = butlast (hp[0 := last hp]) in
      (hd hp, if length rest > 0 then h_down rest (length rest) 0 else rest))"

definition heap_push :: "hnode_t list \<Rightarrow> hnode_t \<Rightarrow> hnode_t list" where
  "heap_push hp x = h_up (hp @ [x]) (length hp)"

fun heap_fill :: "nat \<Rightarrow> u32 list \<Rightarrow> hnode_t list \<Rightarrow> hnode_t list" where
  "heap_fill i [] hp = hp"
| "heap_fill i (f # fs) hp = heap_fill (i + 1) fs (if f > 0 then heap_push hp \<lparr>hn_f = f, hn_s = int i\<rparr> else hp)"

section \<open>The tree\<close>

lemma h_down_length [simp]: "length (h_down h n i) = length h"
  by (induction h n i rule: h_down.induct) (subst h_down.simps, simp add: Let_def)

lemma heap_pop_length: "length (snd (heap_pop hp)) = length hp - 1"
  proof -
  have "length (butlast (hp[0 := last hp])) = length hp - 1" by simp
  then show ?thesis unfolding heap_pop_def Let_def by (auto simp del: length_butlast)
qed

lemma h_up_length [simp]: "length (h_up h i) = length h"
  by (induction h i rule: h_up.induct) (subst h_up.simps, simp add: Let_def)

lemma heap_push_length [simp]: "length (heap_push hp x) = Suc (length hp)"
  by (simp add: heap_push_def)

function merge_loop :: "hnode_t list \<Rightarrow> int list \<Rightarrow> int list \<Rightarrow> hnode_t list \<times> int list \<times> int list" where
  "merge_loop hp L R =
     (if length hp > 1 then
        let (a, hp) = heap_pop hp; (b, hp) = heap_pop hp in
        merge_loop (heap_push hp \<lparr>hn_f = hn_f a + hn_f b, hn_s = - (int (length L) + 1)\<rparr>)
          (L @ [hn_s a]) (R @ [hn_s b])
      else (hp, L, R))"
  by pat_completeness auto
termination
  by (relation "measure (\<lambda>(hp, L, R). length hp)")
    (auto dest!: arg_cong [where f = "\<lambda>p. length (snd p)"] simp: heap_pop_length)

declare merge_loop.simps [simp del]

text \<open>The recursion is as deep as the tree, which has at most \<open>ns\<close> leaves.\<close>

fun tree_depths :: "nat \<Rightarrow> int \<Rightarrow> nat \<Rightarrow> int list \<Rightarrow> int list \<Rightarrow> nat list \<Rightarrow> nat \<Rightarrow> nat list option" where
  "tree_depths 0 nd depth L R dp ns = None"
| "tree_depths (Suc fuel) nd depth L R dp ns =
     (if 0 \<le> nd \<and> nd < int ns then Some (dp[nat nd := (if depth > LZH_MAX_CODELEN then LZH_MAX_CODELEN else depth)])
      else
        let x = nat (- nd - 1) in
        case tree_depths fuel (L ! x) (depth + 1) L R dp ns of
          None \<Rightarrow> None
        | Some dp \<Rightarrow> tree_depths fuel (R ! x) (depth + 1) L R dp ns)"

section \<open>The length limit\<close>

definition depth_counts :: "nat list \<Rightarrow> int list" where
  "depth_counts dp = foldl (\<lambda>lc d. if d > 0 then lc[d := lc ! d + 1] else lc) (replicate (LZH_MAX_CODELEN + 1) 0) dp"

definition kraft_sum :: "int list \<Rightarrow> nat" where
  "kraft_sum lcount = foldl (\<lambda>k b. k + nat (lcount ! b) * 2 ^ (LZH_MAX_CODELEN - b)) 0 [1..<LZH_MAX_CODELEN + 1]"

fun deepest :: "int list \<Rightarrow> nat \<Rightarrow> nat" where
  "deepest lcount 0 = 0"
| "deepest lcount (Suc b) = (if lcount ! Suc b = 0 then deepest lcount b else Suc b)"

text \<open>Each round moves one code of the deepest length below the limit one level down, where it
  makes room for one of the codes at the limit.\<close>

definition split_code :: "int list \<Rightarrow> nat \<Rightarrow> int list" where
  "split_code lcount bits =
     (let lcount = lcount[bits := lcount ! bits - 1];
          lcount = lcount[bits + 1 := lcount ! (bits + 1) + 2] in
      lcount[LZH_MAX_CODELEN := lcount ! LZH_MAX_CODELEN - 1])"

function repair_loop :: "int list \<Rightarrow> nat \<Rightarrow> nat \<Rightarrow> int list" where
  "repair_loop lcount ksum target =
     (if ksum > target then
        let bits = deepest lcount (LZH_MAX_CODELEN - 1) in
        if bits < 1 then lcount else repair_loop (split_code lcount bits) (ksum - 1) target
      else lcount)"
  by pat_completeness auto
termination by (relation "measure (\<lambda>(lcount, ksum, target). ksum)") auto

declare repair_loop.simps [simp del]

text \<open>Insertion sort of the symbols, most frequent first: the inner loop shifts, the outer one
  takes the next key.\<close>

fun shift_key :: "(nat \<Rightarrow> u32) \<Rightarrow> nat \<Rightarrow> nat list \<Rightarrow> nat \<Rightarrow> nat list" where
  "shift_key f key s 0 = s[0 := key]"
| "shift_key f key s (Suc j) =
     (if f (s ! j) < f key then shift_key f key (s[Suc j := s ! j]) j else s[Suc j := key])"

definition sort_symbols :: "(nat \<Rightarrow> u32) \<Rightarrow> nat list \<Rightarrow> nat list" where
  "sort_symbols f s = foldl (\<lambda>s i. shift_key f (s ! i) s i) s [1..<length s]"

fun give_length :: "nat \<Rightarrow> nat \<Rightarrow> nat list \<Rightarrow> nat list \<Rightarrow> nat list \<times> nat list" where
  "give_length b c dp [] = (dp, [])"
| "give_length b c dp (s # ss) = (if c > 0 then give_length b (c - 1) (dp[s := b]) ss else (dp, s # ss))"

definition give_lengths :: "int list \<Rightarrow> nat list \<Rightarrow> nat list \<Rightarrow> nat list" where
  "give_lengths lcount dp syms =
     fst (foldl (\<lambda>(dp, ss) b. give_length b (nat (lcount ! b)) dp ss) (dp, syms) [1..<LZH_MAX_CODELEN + 1])"

text \<open>\<open>alloc\<close>: whether the last allocation, of the sorted symbols, succeeds.\<close>

definition limit_lengths :: "bool \<Rightarrow> u32 list \<Rightarrow> nat list \<Rightarrow> nat list" where
  "limit_lengths alloc freq dp =
     (let lcount = depth_counts dp;
          ksum = kraft_sum lcount;
          target = push_bit LZH_MAX_CODELEN 1 in
      if ksum > target then
        let lcount = repair_loop lcount ksum target in
        if alloc then
          give_lengths lcount dp (sort_symbols (\<lambda>i. freq ! i) (List.filter (\<lambda>i. dp ! i > 0) [0..<length dp]))
        else dp
      else dp)"

section \<open>huff_build\<close>

definition active_syms :: "u32 list \<Rightarrow> nat list" where
  "active_syms freq = List.filter (\<lambda>i. freq ! i > 0) [0..<length freq]"

text \<open>The three allocations: of the arrays and the heap, of the depths, and of the sorted
  symbols. When one of the first two fails every symbol is left without a code.\<close>

definition huff_lengths :: "bool \<times> bool \<times> bool \<Rightarrow> u32 list \<Rightarrow> nat list option" where
  "huff_lengths alloc freq =
     (let (alloc_tree, alloc_dp, alloc_sorted) = alloc; ns = length freq in
      if \<not> alloc_tree then None
      else
        let (hp, L, R) = merge_loop (heap_fill 0 freq []) [] [] in
        if \<not> alloc_dp then None
        else
          case (if length hp = 1 then tree_depths ns (hn_s (hd hp)) 0 L R (replicate ns 0) ns
                else Some (replicate ns 0)) of
            None \<Rightarrow> None
          | Some dp \<Rightarrow> Some (limit_lengths alloc_sorted freq dp))"

definition huff_build :: "bool \<times> bool \<times> bool \<Rightarrow> u32 list \<Rightarrow> (nat \<times> nat) list" where
  "huff_build alloc freq =
     (let act = length (active_syms freq); none = replicate (length freq) (0, 0) in
      if act = 0 then none
      else if act = 1 then map (\<lambda>f. if f > 0 then (0, 1) else (0, 0)) freq
      else
        case huff_lengths alloc freq of
          None \<Rightarrow> none
        | Some dp \<Rightarrow> assign_codes (next_codes (len_counts dp)) dp)"

section \<open>The heap keeps its elements\<close>

lemma mset_swap_nth:
  "i < length h \<Longrightarrow> j < length h \<Longrightarrow> mset (h[i := h ! j, j := h ! i]) = mset h"
  by (rule mset_swap)

lemma h_down_mset: "n \<le> length h \<Longrightarrow> mset (h_down h n i) = mset h"
proof (induction h n i rule: h_down.induct)
  case (1 h n i)
  define l where "l = (if 2 * i + 1 < n \<and> hn_f (h ! (2 * i + 1)) < hn_f (h ! i) then 2 * i + 1 else i)"
  define b where "b = (if 2 * i + 2 < n \<and> hn_f (h ! (2 * i + 2)) < hn_f (h ! l) then 2 * i + 2 else l)"
  have e: "h_down h n i = (if b = i then h else h_down (h[i := h ! b, b := h ! i]) n b)"
    by (subst h_down.simps) (simp only: Let_def l_def b_def)
  show ?case
  proof (cases "b = i")
    case False
    have "i < n" "b < n" using False by (auto simp: b_def l_def split: if_splits)
    then have "mset (h[i := h ! b, b := h ! i]) = mset h" using 1(2) by (intro mset_swap_nth) auto
    moreover have "mset (h_down (h[i := h ! b, b := h ! i]) n b) = mset (h[i := h ! b, b := h ! i])"
      by (rule 1(1) [OF refl refl l_def b_def False]) (simp add: 1(2))
    ultimately show ?thesis using False by (simp add: e)
  qed (simp add: e)
qed

lemma h_up_mset: "i < length h \<Longrightarrow> mset (h_up h i) = mset h"
proof (induction h i rule: h_up.induct)
  case (1 h i)
  show ?case
  proof (cases "i > 0 \<and> \<not> hn_f (h ! ((i - 1) div 2)) \<le> hn_f (h ! i)")
    case True
    then show ?thesis using 1 mset_swap_nth [of i h "(i - 1) div 2"]
      by (subst h_up.simps) (simp add: Let_def)
  next
    case False
    then show ?thesis by (subst h_up.simps) (auto simp: Let_def)
  qed
qed

lemma heap_push_mset [simp]: "mset (heap_push hp x) = add_mset x (mset hp)"
  by (simp add: heap_push_def h_up_mset)

lemma heap_pop_mset: "hp \<noteq> [] \<Longrightarrow> mset hp = add_mset (fst (heap_pop hp)) (mset (snd (heap_pop hp)))"
proof -
  assume hp: "hp \<noteq> []"
  have "mset (snd (heap_pop hp)) = mset (butlast (hp[0 := last hp]))"
    by (simp add: heap_pop_def Let_def h_down_mset del: length_butlast)
  also have "add_mset (hd hp) \<dots> = mset hp"
  proof (cases hp)
    case (Cons x xs)
    show ?thesis
    proof (cases "xs = []")
      case False
      then have "butlast (hp[0 := last hp]) = last xs # butlast xs" by (simp add: Cons)
      then show ?thesis using False Cons mset_append [of "butlast xs" "[last xs]"]
        by (simp add: append_butlast_last_id)
    qed (simp add: Cons)
  qed (use hp in simp)
  finally show ?thesis by (simp add: heap_pop_def Let_def)
qed

lemma heap_fill_mset:
  "mset (heap_fill i fs hp) =
     mset hp + mset (map (\<lambda>j. \<lparr>hn_f = fs ! j, hn_s = int (i + j)\<rparr>) (List.filter (\<lambda>j. fs ! j > 0) [0..<length fs]))"
proof (induction i fs hp rule: heap_fill.induct)
  case (2 i f fs hp)
  have u: "[0..<length (f # fs)] = 0 # map Suc [0..<length fs]" by (simp add: upt_conv_Cons map_Suc_upt del: upt_Suc)
  have "List.filter (\<lambda>j. (f # fs) ! j > 0) [0..<length (f # fs)] =
      (if f > 0 then [0] else []) @ map Suc (List.filter (\<lambda>j. fs ! j > 0) [0..<length fs])"
    unfolding u by (simp add: filter_map o_def)
  then show ?case using 2 by (simp add: o_def ac_simps del: upt_Suc)
qed simp

section \<open>The tree behind the child arrays\<close>

datatype htree = HLeaf nat | HNode htree htree

primrec leaves :: "htree \<Rightarrow> nat list" where
  "leaves (HLeaf i) = [i]"
| "leaves (HNode a b) = leaves a @ leaves b"

primrec height :: "htree \<Rightarrow> nat" where
  "height (HLeaf i) = 0"
| "height (HNode a b) = Suc (max (height a) (height b))"

primrec depths :: "nat \<Rightarrow> htree \<Rightarrow> (nat \<times> nat) list" where
  "depths d (HLeaf i) = [(i, min 15 d)]"
| "depths d (HNode a b) = depths (d + 1) a @ depths (d + 1) b"

text \<open>\<open>rep L R nd t\<close>: node \<open>nd\<close> is the root of \<open>t\<close>.\<close>

fun rep :: "int list \<Rightarrow> int list \<Rightarrow> int \<Rightarrow> htree \<Rightarrow> bool" where
  "rep L R nd (HLeaf i) \<longleftrightarrow> nd = int i"
| "rep L R nd (HNode a b) \<longleftrightarrow>
     nd < 0 \<and> nat (- nd - 1) < length L \<and> nat (- nd - 1) < length R \<and>
     rep L R (L ! nat (- nd - 1)) a \<and> rep L R (R ! nat (- nd - 1)) b"

lemma rep_append: "rep L R nd t \<Longrightarrow> rep (L @ L') (R @ R') nd t"
  by (induction t arbitrary: nd) (auto simp: nth_append)

lemma rep_range: "rep L R nd t \<Longrightarrow> nd \<noteq> - (int (length L) + 1)"
  by (cases t) auto

lemma height_leaves: "height t < length (leaves t)"
  by (induction t) auto

lemma fst_depths [simp]: "map fst (depths d t) = leaves t"
  by (induction t arbitrary: d) auto

definition set_all :: "nat list \<Rightarrow> (nat \<times> nat) list \<Rightarrow> nat list" where
  "set_all dp us = foldl (\<lambda>dp (i, v). dp[i := v]) dp us"

lemma set_all_simps [simp]:
  "set_all dp [] = dp" "set_all dp ((i, v) # us) = set_all (dp[i := v]) us"
  "set_all dp (us @ vs) = set_all (set_all dp us) vs"
  by (simp_all add: set_all_def)

lemma length_set_all [simp]: "length (set_all dp us) = length dp"
  by (induction us arbitrary: dp) auto

lemma tree_depths_rep:
  "rep L R nd t \<Longrightarrow> \<forall>i \<in> set (leaves t). i < ns \<Longrightarrow> height t < fuel \<Longrightarrow>
   tree_depths fuel nd d L R dp ns = Some (set_all dp (depths d t))"
proof (induction t arbitrary: nd fuel d dp)
  case (HLeaf i)
  then show ?case by (cases fuel) (auto simp: min_def)
next
  case (HNode a b)
  obtain n where n: "fuel = Suc n" using HNode.prems(3) by (cases fuel) auto
  show ?case
    using HNode.prems HNode.IH(1) [of "L ! nat (- nd - 1)" n "d + 1" dp]
      HNode.IH(2) [of "R ! nat (- nd - 1)" n "d + 1" "set_all dp (depths (d + 1) a)"]
    by (simp add: n Let_def)
qed


definition heap_rep :: "hnode_t list \<Rightarrow> int list \<Rightarrow> int list \<Rightarrow> (int \<Rightarrow> htree) \<Rightarrow> nat list \<Rightarrow> bool" where
  "heap_rep hp L R tr syms \<longleftrightarrow> length L = length R \<and> (\<forall>x \<in># mset hp. rep L R (hn_s x) (tr (hn_s x))) \<and>
     (\<Sum>x \<in># mset hp. mset (leaves (tr (hn_s x)))) = mset syms"

lemma merge_step:
  assumes "heap_rep hp L R tr syms" "mset hp = add_mset a (add_mset b M)"
    "mset hp' = add_mset \<lparr>hn_f = f, hn_s = - (int (length L) + 1)\<rparr> M"
  shows "\<exists>tr'. heap_rep hp' (L @ [hn_s a]) (R @ [hn_s b]) tr' syms"
proof -
  let ?n = "- (int (length L) + 1)"
  let ?tr = "tr(?n := HNode (tr (hn_s a)) (tr (hn_s b)))"
  have LR: "length L = length R" and r: "\<And>x. x \<in># mset hp \<Longrightarrow> rep L R (hn_s x) (tr (hn_s x))"
    and sum: "(\<Sum>x \<in># mset hp. mset (leaves (tr (hn_s x)))) = mset syms"
    using assms(1) by (auto simp: heap_rep_def)
  have M: "?tr (hn_s x) = tr (hn_s x)" "rep (L @ [hn_s a]) (R @ [hn_s b]) (hn_s x) (tr (hn_s x))" if "x \<in># M" for x
    using rep_range rep_append r [of x] that assms(2) by auto
  have "rep (L @ [hn_s a]) (R @ [hn_s b]) ?n (HNode (tr (hn_s a)) (tr (hn_s b)))"
    using rep_append [OF r, of a] rep_append [OF r, of b] assms(2) LR by (simp add: nth_append)
  then have "\<forall>x \<in># mset hp'. rep (L @ [hn_s a]) (R @ [hn_s b]) (hn_s x) (?tr (hn_s x))"
    using M unfolding assms(3) by auto
  moreover have "(\<Sum>x \<in># M. mset (leaves (?tr (hn_s x)))) = (\<Sum>x \<in># M. mset (leaves (tr (hn_s x))))"
    using M(1) by (intro arg_cong [where f = sum_mset] image_mset_cong) (simp only:)
  then have "(\<Sum>x \<in># mset hp'. mset (leaves (?tr (hn_s x)))) = mset syms"
    using sum unfolding assms(2,3) by (simp add: add.assoc)
  ultimately have "heap_rep hp' (L @ [hn_s a]) (R @ [hn_s b]) ?tr syms" using LR by (simp add: heap_rep_def)
  then show ?thesis by (intro exI)
qed

lemma merge_loop_rep:
  "heap_rep hp L R tr syms \<Longrightarrow> hp \<noteq> [] \<Longrightarrow> merge_loop hp L R = (hp', L', R') \<Longrightarrow>
   (\<exists>tr'. heap_rep hp' L' R' tr' syms) \<and> length hp' = 1"
proof (induction hp L R arbitrary: tr rule: merge_loop.induct)
  case (1 hp L R)
  show ?case
  proof (cases "length hp > 1")
    case True
    obtain a h1 where a: "heap_pop hp = (a, h1)" by fastforce
    obtain b h2 where b: "heap_pop h1 = (b, h2)" by fastforce
    have "h1 \<noteq> []" using heap_pop_length [of hp] True by (auto simp: a)
    then have "mset hp = add_mset a (add_mset b (mset h2))"
      using heap_pop_mset [of hp] heap_pop_mset [of h1] 1(3) by (simp add: a b)
    from merge_step [OF 1(2) this, of "heap_push h2 \<lparr>hn_f = hn_f a + hn_f b, hn_s = - (int (length L) + 1)\<rparr>" "hn_f a + hn_f b"]
    obtain tr' where tr': "heap_rep (heap_push h2 \<lparr>hn_f = hn_f a + hn_f b, hn_s = - (int (length L) + 1)\<rparr>)
        (L @ [hn_s a]) (R @ [hn_s b]) tr' syms" by auto
    have e: "merge_loop hp L R = merge_loop (heap_push h2 \<lparr>hn_f = hn_f a + hn_f b, hn_s = - (int (length L) + 1)\<rparr>)
        (L @ [hn_s a]) (R @ [hn_s b])"
      using True by (subst merge_loop.simps) (simp add: a b)
    have "heap_push h2 \<lparr>hn_f = hn_f a + hn_f b, hn_s = - (int (length L) + 1)\<rparr> \<noteq> []"
      by (metis heap_push_length list.size(3) nat.distinct(1))
    from 1(1) [OF True a [symmetric] refl b [symmetric] refl tr' this] show ?thesis using 1(4) e by simp
  next
    case False
    then have "merge_loop hp L R = (hp, L, R)" by (subst merge_loop.simps) simp
    then show ?thesis using 1(2-) False by (cases hp) auto
  qed
qed

section \<open>Assigning lengths\<close>

lemma set_all_nth:
  "distinct (map fst us) \<Longrightarrow> \<forall>i \<in> fst ` set us. i < length dp \<Longrightarrow>
   set_all dp us ! i = (case map_of us i of None \<Rightarrow> dp ! i | Some v \<Rightarrow> v)"
proof (induction us arbitrary: dp)
  case (Cons u us)
  obtain j v where u: "u = (j, v)" by fastforce
  then have "map_of us j = None" using Cons.prems(1) by (simp add: map_of_eq_None_iff)
  then show ?case using Cons u by (auto simp: nth_list_update split: option.split)
qed simp

text \<open>Lengths given to distinct symbols, all others without one: sums over the whole array are
  sums over the given lengths.\<close>

lemma set_all_sum:
  fixes w :: "nat \<Rightarrow> nat"
  assumes "distinct (map fst us)" "\<forall>i \<in> fst ` set us. i < length dp"
    "\<forall>i < length dp. i \<notin> fst ` set us \<longrightarrow> dp ! i = 0" "w 0 = 0"
  shows "(\<Sum>l \<leftarrow> set_all dp us. w l) = (\<Sum>l \<leftarrow> map snd us. w l)"
proof -
  let ?d = "set_all dp us"
  have nth: "?d ! i = (case map_of us i of None \<Rightarrow> dp ! i | Some v \<Rightarrow> v)" for i
    by (rule set_all_nth [OF assms(1,2)])
  have "(\<Sum>l \<leftarrow> ?d. w l) = (\<Sum>i \<in> {0..<length dp}. w (?d ! i))"
    by (subst sum_list_sum_nth) simp
  also have "\<dots> = (\<Sum>i \<in> set (map fst us). w (?d ! i))"
  proof (rule sum.mono_neutral_right)
    show "\<forall>i \<in> {0..<length dp} - set (map fst us). w (?d ! i) = 0"
    proof
      fix i assume i: "i \<in> {0..<length dp} - set (map fst us)"
      then have "map_of us i = None" by (simp add: map_of_eq_None_iff)
      then show "w (?d ! i) = 0" using i assms(3,4) by (simp add: nth)
    qed
  qed (use assms(2) in auto)
  also have "\<dots> = (\<Sum>i \<leftarrow> map fst us. w (?d ! i))"
    by (rule sum_list_distinct_conv_sum_set [OF assms(1), symmetric])
  also have "\<dots> = (\<Sum>u \<leftarrow> us. w (?d ! fst u))" by (simp add: o_def)
  also have "\<dots> = (\<Sum>u \<leftarrow> us. w (snd u))"
  proof (intro arg_cong [where f = sum_list] map_cong refl)
    fix u assume "u \<in> set us"
    then have "map_of us (fst u) = Some (snd u)" using assms(1) by simp
    then show "w (?d ! fst u) = w (snd u)" by (simp add: nth)
  qed
  finally show ?thesis by (simp add: o_def)
qed

lemma sum_list_le_zero: "(\<Sum>l \<leftarrow> xs. w l :: nat) = 0 \<longleftrightarrow> (\<forall>l \<in> set xs. w l = 0)"
  by (induction xs) auto

section \<open>The depths of the leaves\<close>

text \<open>The clamped Kraft sum of a subtree at depth \<open>d\<close> exceeds its share by at most the number of
  leaves at the limit.\<close>

definition weight :: "nat \<Rightarrow> nat" where "weight l = (if l = 0 then 0 else 2 ^ (15 - l))"

lemma kraft_weight: "kraft lens = (\<Sum>l \<leftarrow> lens. weight l)"
  by (simp add: kraft_def weight_def)

lemma count_list_sum: "count_list xs k = (\<Sum>l \<leftarrow> xs. if l = k then 1 else 0)"
  by (induction xs) auto

definition at_limit :: "nat \<Rightarrow> htree \<Rightarrow> nat" where
  "at_limit d t = (\<Sum>l \<leftarrow> map snd (depths d t). if l = 15 then 1 else 0)"

lemma depths_deep: "15 \<le> d \<Longrightarrow> (\<Sum>l \<leftarrow> map snd (depths d t). weight l) = at_limit d t"
  by (induction t arbitrary: d) (simp_all add: at_limit_def weight_def min_def)

lemma depths_kraft:
  "0 < d \<Longrightarrow> (\<Sum>l \<leftarrow> map snd (depths d t). weight l) \<le> (if d \<le> 15 then 2 ^ (15 - d) else 0) + at_limit d t"
proof (induction t arbitrary: d)
  case (HNode a b)
  show ?case
  proof (cases "d < 15")
    case True
    have e: "(2 :: nat) ^ (15 - d) = 2 * 2 ^ (15 - Suc d)" using True by (metis Suc_diff_Suc power_Suc)
    from HNode.IH(1) [of "Suc d"] HNode.IH(2) [of "Suc d"] True show ?thesis
      by (simp add: at_limit_def e)
  next
    case False
    then show ?thesis using depths_deep [of d "HNode a b"] by simp
  qed
qed (simp add: weight_def min_def at_limit_def)

lemma depths_root:
  "(\<Sum>l \<leftarrow> map snd (depths 0 (HNode a b)). weight l) \<le> 2 ^ 15 + at_limit 0 (HNode a b)"
  using depths_kraft [of 1 a] depths_kraft [of 1 b] by (simp add: at_limit_def)

lemma depths_range: "l \<in> snd ` set (depths d t) \<Longrightarrow> l \<le> 15 \<and> (0 < d \<longrightarrow> 0 < l)"
  by (induction t arbitrary: d) auto

lemma depths_root_range: "l \<in> snd ` set (depths 0 (HNode a b)) \<Longrightarrow> 0 < l \<and> l \<le> 15"
  using depths_range [of l 1 a] depths_range [of l 1 b] by auto

section \<open>The redistribution\<close>

definition wsum :: "(nat \<Rightarrow> int) \<Rightarrow> int list \<Rightarrow> int" where
  "wsum w lc = (\<Sum>b \<in> {1..15}. w b * lc ! b)"

lemma wsum_update:
  "length lc = 16 \<Longrightarrow> 1 \<le> b \<Longrightarrow> b \<le> 15 \<Longrightarrow> wsum w (lc[b := lc ! b + v]) = wsum w lc + w b * v"
proof -
  assume a: "length lc = 16" "1 \<le> b" "b \<le> 15"
  have "wsum w (lc[b := lc ! b + v]) = (\<Sum>k \<in> {1..15}. w k * lc ! k + (if k = b then w b * v else 0))"
    unfolding wsum_def using a by (intro sum.cong refl) (auto simp: nth_list_update algebra_simps)
  also have "\<dots> = wsum w lc + w b * v" using a by (simp add: sum.distrib wsum_def)
  finally show ?thesis .
qed

lemma split_code_length [simp]: "length (split_code lc b) = length lc"
  by (simp add: split_code_def Let_def)

lemma wsum_split:
  assumes "length lc = 16" "1 \<le> b" "b \<le> 14"
  shows "wsum w (split_code lc b) = wsum w lc - w b + 2 * w (b + 1) - w 15"
proof -
  define l1 where "l1 = lc[b := lc ! b + - 1]"
  define l2 where "l2 = l1[b + 1 := l1 ! (b + 1) + 2]"
  have e: "split_code lc b = l2[15 := l2 ! 15 + - 1]"
    by (simp only: split_code_def Let_def l1_def l2_def diff_conv_add_uminus)
  have "wsum w (split_code lc b) = wsum w l2 + w 15 * - 1"
    unfolding e by (rule wsum_update) (use assms in \<open>simp_all add: l2_def l1_def\<close>)
  also have "wsum w l2 = wsum w l1 + w (b + 1) * 2"
    unfolding l2_def by (rule wsum_update) (use assms in \<open>simp_all add: l1_def\<close>)
  also have "wsum w l1 = wsum w lc + w b * - 1"
    unfolding l1_def by (rule wsum_update) (use assms in simp_all)
  finally show ?thesis by simp
qed

lemma split_code_nth:
  assumes "length lc = 16" "1 \<le> b" "b \<le> 14" "k < 16"
  shows "split_code lc b ! k =
    lc ! k - (if k = b then 1 else 0) + (if k = b + 1 then 2 else 0) - (if k = 15 then 1 else 0)"
  using assms by (auto simp: split_code_def Let_def nth_list_update)

lemma deepest_spec:
  "deepest lc n \<le> n \<and> (\<forall>k. deepest lc n < k \<and> k \<le> n \<longrightarrow> lc ! k = 0) \<and> (deepest lc n \<noteq> 0 \<longrightarrow> lc ! deepest lc n \<noteq> 0)"
proof (induction n)
  case (Suc n)
  then show ?case by (auto simp: le_Suc_eq)
qed simp

definition counts_ok :: "int \<Rightarrow> int list \<Rightarrow> nat \<Rightarrow> bool" where
  "counts_ok n lc k \<longleftrightarrow> length lc = 16 \<and> (\<forall>b \<in> {1..15}. 0 \<le> lc ! b) \<and> wsum (\<lambda>b. 1) lc = n \<and>
     wsum (\<lambda>b. 2 ^ (15 - b)) lc = int k \<and> int k \<le> 2 ^ 15 + lc ! 15"

lemma split_keeps:
  assumes "counts_ok n lc k" "2 ^ 15 < k" "1 \<le> b" "b \<le> 14" "lc ! b \<noteq> 0"
  shows "counts_ok n (split_code lc b) (k - 1)"
proof -
  have len: "length lc = 16" and nn: "\<forall>b \<in> {1..15}. 0 \<le> lc ! b" and le: "int k \<le> 2 ^ 15 + lc ! 15"
    using assms(1) by (auto simp: counts_ok_def)
  have "0 < lc ! b" using nn assms(3-5) by (simp add: order_less_le)
  have l15: "1 \<le> lc ! 15"
  proof -
    have "2 ^ 15 < int k" using assms(2) by simp
    with le show ?thesis by linarith
  qed
  have e: "(2 :: int) ^ (15 - b) = 2 * 2 ^ (15 - (b + 1))"
    using assms(4) 
    by (subst power_Suc [symmetric]) (simp add: Suc_diff_le flip: power_Suc)
  have "\<forall>c \<in> {1..15}. 0 \<le> split_code lc b ! c"
  proof
    fix c :: nat assume c: "c \<in> {1..15}"
    then have "0 \<le> lc ! c" using nn by blast
    then show "0 \<le> split_code lc b ! c"
      using c l15 assms(4) \<open>0 < lc ! b\<close> by (subst split_code_nth [OF len assms(3,4)]) auto
  qed
  moreover have "split_code lc b ! 15 = lc ! 15 + (if b = 14 then 2 else 0) - 1"
    using assms(3,4) by (subst split_code_nth [OF len assms(3,4)]) auto
  ultimately show ?thesis
    using assms(1,2) wsum_split [OF len assms(3,4)] e by (simp add: counts_ok_def)
qed

lemma repair_loop_ok:
  assumes "counts_ok n lc k" "n < 2 ^ 15"
  shows "\<exists>k' \<le> 2 ^ 15. counts_ok n (repair_loop lc k (2 ^ 15)) k'"
  using assms(1)
proof (induction k arbitrary: lc rule: less_induct)
  case (less k)
  let ?b = "deepest lc 14"
  note d = deepest_spec [of lc 14]
  show ?case
  proof (cases "2 ^ 15 < k")
    case True
    have "?b \<noteq> 0"
    proof
      assume "?b = 0"
      then have z: "lc ! c = 0" if "c \<in> {1..14}" for c using d that by auto
      have "wsum w lc = w 15 * lc ! 15" for w
      proof -
        have "wsum w lc = (\<Sum>c \<in> {1..14}. w c * lc ! c) + w 15 * lc ! 15"
          unfolding wsum_def by (simp add: eval_nat_numeral)
        then show ?thesis using z by simp
      qed
      then show False using less.prems True assms(2) by (simp add: counts_ok_def)
    qed
    then have b: "1 \<le> ?b" "?b \<le> 14" "lc ! ?b \<noteq> 0" using d by auto
    have "repair_loop lc k (2 ^ 15) = repair_loop (split_code lc ?b) (k - 1) (2 ^ 15)"
      using True b by (subst repair_loop.simps) (simp add: Let_def)
    then show ?thesis using less.IH [OF _ split_keeps [OF less.prems True b]] True by simp
  next
    case False
    then have "repair_loop lc k (2 ^ 15) = lc" by (subst repair_loop.simps) simp
    then show ?thesis using less.prems False by (intro exI [of _ k]) simp
  qed
qed

section \<open>Reassigning the lengths\<close>

lemma shift_key_mset:
  "p < length s \<Longrightarrow> mset (shift_key f key s p) = mset (s[p := key]) \<and> length (shift_key f key s p) = length s"
proof (induction p arbitrary: s)
  case (Suc j)
  have "mset (s[Suc j := s ! j, j := key]) = mset (s[Suc j := key])"
    using mset_swap_nth [of "Suc j" "s[Suc j := key]" j] Suc.prems
    by (simp add: list_update_swap)
  then show ?case using Suc by simp
qed simp

lemma sort_symbols_mset [simp]: "mset (sort_symbols f s) = mset s"
proof -
  have "mset (foldl (\<lambda>s i. shift_key f (s ! i) s i) s [1..<n]) = mset s \<and>
      length (foldl (\<lambda>s i. shift_key f (s ! i) s i) s [1..<n]) = length s" if "n \<le> length s" for n
    using that
  proof (induction n)
    case (Suc n)
    then show ?case
      by (cases "n = 0") (simp_all add: shift_key_mset)
  qed simp
  then show ?thesis by (simp add: sort_symbols_def)
qed

lemma give_length_spec: "give_length b c dp ss = (set_all dp (zip ss (replicate c b)), drop c ss)"
proof (induction ss arbitrary: c dp)
  case (Cons s ss)
  then show ?case by (cases c) auto
qed simp

lemma give_lengths_loop:
  "foldl (\<lambda>(dp, ss) b. give_length b (nat (lc ! b)) dp ss) (dp, ss) bs =
     (set_all dp (zip ss (concat (map (\<lambda>b. replicate (nat (lc ! b)) b) bs))),
      drop (length (concat (map (\<lambda>b. replicate (nat (lc ! b)) b) bs))) ss)"
proof (induction bs arbitrary: dp ss)
  case (Cons b bs)
  show ?case
    using Cons by (simp add: give_length_spec zip_append2 zip_replicate2 add.commute
        flip: zip_replicate2) (simp add: zip_replicate2 take_zip)
qed simp

lemma depth_counts_step:
  "length lc0 = 16 \<Longrightarrow> b < 16 \<Longrightarrow> \<forall>d \<in> set dp. d \<le> 15 \<Longrightarrow>
   foldl (\<lambda>lc d. if d > 0 then lc[d := lc ! d + 1] else lc) lc0 dp ! b =
     lc0 ! b + (if b = 0 then 0 else int (count_list dp b))"
proof (induction dp arbitrary: lc0)
  case (Cons d dp)
  then show ?case using Cons.IH [of "if d > 0 then lc0[d := lc0 ! d + 1] else lc0"]
    by (auto simp: nth_list_update)
qed simp

lemma depth_counts_length: "length (depth_counts dp) = 16"
proof -
  have "length (foldl (\<lambda>lc d. if d > 0 then lc[d := lc ! d + 1] else lc) lc0 dp) = length lc0" for lc0 :: "int list"
    by (induction dp arbitrary: lc0) auto
  then show ?thesis by (simp add: depth_counts_def)
qed

lemma depth_counts_nth:
  assumes "\<forall>d \<in> set dp. d \<le> 15" "b \<in> {1..15}"
  shows "depth_counts dp ! b = int (count_list dp b)"
proof -
  have b: "b < 16" "b \<noteq> 0" using assms(2) by auto
  show ?thesis unfolding depth_counts_def
    using b by (subst depth_counts_step [OF _ b(1) assms(1)]) (simp_all del: replicate_Suc)
qed

lemma atLeastLessThan_16: "{1..<16 :: nat} = {1..15}" by auto

lemma kraft_sum_eq: "kraft_sum lc = (\<Sum>b \<in> {1..15}. nat (lc ! b) * 2 ^ (15 - b))"
proof -
  have "foldl (\<lambda>k b. k + nat (lc ! b) * 2 ^ (15 - b)) a xs = a + (\<Sum>b \<leftarrow> xs. nat (lc ! b) * 2 ^ (15 - b))" for a xs
    by (induction xs arbitrary: a) auto
  then have "kraft_sum lc = (\<Sum>b \<leftarrow> [1..<16]. nat (lc ! b) * 2 ^ (15 - b))" by (simp add: kraft_sum_def)
  also have "\<dots> = (\<Sum>b \<in> {1..15}. nat (lc ! b) * 2 ^ (15 - b))"
    by (subst sum_list_distinct_conv_sum_set) (auto intro!: sum.cong)
  finally show ?thesis .
qed

lemma sum_counts: "\<forall>d \<in> set dp. d \<le> (15 :: nat) \<Longrightarrow>
    (\<Sum>b \<in> {1..15}. count_list dp b) = length (List.filter (\<lambda>d. d > 0) dp)"
proof (induction dp)
  case (Cons d dp)
  have "(\<Sum>b \<in> {1..15}. count_list (d # dp) b) = (\<Sum>b \<in> {1..15}. (if d = b then 1 else 0) + count_list dp b)"
    by (rule sum.cong) auto
  also have "\<dots> = (\<Sum>b \<in> {1..15}. if d = b then 1 else 0) + length (List.filter (\<lambda>d. d > 0) dp)"
    using Cons by (simp add: sum.distrib)
  also have "(\<Sum>b \<in> {1..15}. if d = b then 1 else 0) = (if d > 0 then 1 else 0 :: nat)"
    using Cons.prems by simp
  finally show ?case by simp
qed simp

lemma depth_counts_ok:
  assumes "\<forall>d \<in> set dp. d \<le> 15" "kraft dp \<le> 2 ^ 15 + count_list dp 15"
  shows "kraft_sum (depth_counts dp) = kraft dp"
    "counts_ok (int (length (List.filter (\<lambda>d. d > 0) dp))) (depth_counts dp) (kraft dp)"
proof -
  note n = depth_counts_nth [OF assms(1)]
  show "kraft_sum (depth_counts dp) = kraft dp"
    unfolding kraft_sum_eq kraft_counts [OF assms(1), symmetric]
    by (rule sum.cong) (simp_all add: n)
  have "wsum (\<lambda>b. 1) (depth_counts dp) = int (length (List.filter (\<lambda>d. d > 0) dp))"
    unfolding wsum_def sum_counts [OF assms(1), symmetric] of_nat_sum by (rule sum.cong) (simp_all add: n)
  moreover have "wsum (\<lambda>b. 2 ^ (15 - b)) (depth_counts dp) = int (kraft dp)"
    unfolding wsum_def kraft_counts [OF assms(1), symmetric] of_nat_sum
    by (rule sum.cong) (simp_all add: n mult.commute)
  moreover have "int (kraft dp) \<le> 2 ^ 15 + int (count_list dp 15)" using assms(2) by simp
  ultimately show "counts_ok (int (length (List.filter (\<lambda>d. d > 0) dp))) (depth_counts dp) (kraft dp)"
    using depth_counts_length n by (simp add: counts_ok_def)
qed

definition length_list :: "int list \<Rightarrow> nat list" where
  "length_list lc = concat (map (\<lambda>b. replicate (nat (lc ! b)) b) [1..<16])"

lemma length_list_sum:
  "(\<Sum>l \<leftarrow> length_list lc. w l) = (\<Sum>b \<in> {1..15}. nat (lc ! b) * w b)"
proof -
  have "(\<Sum>l \<leftarrow> concat (map (\<lambda>b. replicate (nat (lc ! b)) b) bs). w l) = (\<Sum>b \<leftarrow> bs. nat (lc ! b) * w b)" for bs
    by (induction bs) (simp_all add: sum_list_replicate)
  then show ?thesis unfolding length_list_def
    by (subst sum_list_distinct_conv_sum_set [symmetric, of "[1..<16]", simplified atLeastLessThan_16 set_upt]) simp_all
qed

lemma length_list_set: "l \<in> set (length_list lc) \<Longrightarrow> 0 < l \<and> l \<le> 15"
  by (auto simp: length_list_def)

lemma length_list_ok:
  assumes "counts_ok n lc k"
  shows "int (length (length_list lc)) = n" "(\<Sum>l \<leftarrow> length_list lc. weight l) = k"
proof -
  have nn: "\<forall>b \<in> {1..15}. 0 \<le> lc ! b" using assms by (simp add: counts_ok_def)
  have "length (length_list lc) = (\<Sum>b \<in> {1..15}. nat (lc ! b))"
    using length_list_sum [of "\<lambda>_. 1" lc] by (simp add: sum_list_triv)
  also have "int \<dots> = wsum (\<lambda>b. 1) lc" unfolding wsum_def of_nat_sum using nn by (intro sum.cong) auto
  finally show "int (length (length_list lc)) = n" using assms by (simp add: counts_ok_def)
  have "int (\<Sum>b \<in> {1..15}. nat (lc ! b) * weight b) = wsum (\<lambda>b. 2 ^ (15 - b)) lc"
    unfolding wsum_def of_nat_sum using nn by (intro sum.cong) (auto simp: weight_def)
  also have "\<dots> = int k" using assms by (simp add: counts_ok_def)
  finally show "(\<Sum>l \<leftarrow> length_list lc. weight l) = k"
    unfolding length_list_sum of_nat_eq_iff .
qed

lemma limit_lengths_ok:
  assumes "\<forall>d \<in> set dp. d \<le> 15" "kraft dp \<le> 2 ^ 15 + count_list dp 15" "length dp < 2 ^ 15"
  shows "length (limit_lengths True freq dp) = length dp \<and> lens_ok (limit_lengths True freq dp) \<and>
    (\<forall>i < length dp. limit_lengths True freq dp ! i > 0 \<longleftrightarrow> dp ! i > 0)"
proof (cases "2 ^ 15 < kraft dp")
  case True
  note d = depth_counts_ok [OF assms(1,2)]
  let ?n = "length (List.filter (\<lambda>d. d > 0) dp)"
  let ?lc = "repair_loop (depth_counts dp) (kraft dp) (2 ^ 15)"
  let ?act = "List.filter (\<lambda>i. dp ! i > 0) [0..<length dp]"
  let ?syms = "sort_symbols (\<lambda>i. freq ! i) ?act"
  have "?n \<le> length dp" by (rule length_filter_le)
  then have "?n < 2 ^ 15" using assms(3) by (rule le_less_trans)
  then have "int ?n < 2 ^ 15" by (simp only: of_nat_less_numeral_power_cancel_iff)
  from repair_loop_ok [OF d(2) this] obtain k where k: "k \<le> 2 ^ 15" "counts_ok (int ?n) ?lc k" by blast
  have e: "limit_lengths True freq dp = set_all dp (zip ?syms (length_list ?lc))"
    using True by (simp add: limit_lengths_def d(1) give_lengths_def give_lengths_loop length_list_def push_bit_eq_mult)
  have "length ?act = ?n"
  proof -
    have "dp = map (\<lambda>i. dp ! i) [0..<length dp]" by (simp add: map_nth)
    then have "?n = length (List.filter (\<lambda>d. d > 0) (map (\<lambda>i. dp ! i) [0..<length dp]))" by simp
    then show ?thesis by (simp add: filter_map o_def)
  qed
  then have len: "length ?syms = length (length_list ?lc)"
    using length_list_ok(1) [OF k(2)] mset_eq_length [OF sort_symbols_mset] by simp
  have "set ?syms = set ?act" using mset_eq_setD [OF sort_symbols_mset] .
  then have set: "set ?syms = {i. i < length dp \<and> dp ! i > 0}" by auto
  define z where "z = zip ?syms (length_list ?lc)"
  have dist: "distinct (map fst z)"
    unfolding z_def using len mset_eq_imp_distinct_iff [OF sort_symbols_mset] by simp
  have keys: "fst ` set z = {i. i < length dp \<and> dp ! i > 0}"
    unfolding z_def set [symmetric] set_map [symmetric] map_fst_zip [OF len] ..
  have nth: "set_all dp z ! i =
      (case map_of z i of None \<Rightarrow> dp ! i | Some v \<Rightarrow> v)" for i
    by (rule set_all_nth [OF dist]) (use keys in auto)
  have range: "set_all dp z ! i \<le> 15 \<and>
      (set_all dp z ! i > 0 \<longleftrightarrow> dp ! i > 0)" if i: "i < length dp" for i
  proof (cases "map_of z i")
    case None
    then show ?thesis using assms(1) i by (simp add: nth)
  next
    case (Some v)
    then have "(i, v) \<in> set z" by (rule map_of_SomeD)
    then have "v \<in> set (length_list ?lc)" "i \<in> set ?syms" by (auto simp: z_def dest: set_zip_rightD set_zip_leftD)
    then show ?thesis using length_list_set set Some by (auto simp: nth)
  qed
  have "kraft (set_all dp z) = (\<Sum>l \<leftarrow> map snd z. weight l)"
    unfolding kraft_weight by (rule set_all_sum [OF dist]) (use keys in \<open>auto simp: weight_def\<close>)
  then have "kraft (set_all dp z) \<le> 2 ^ 15"
    using len length_list_ok(2) [OF k(2)] k(1) by (simp add: z_def)
  then show ?thesis unfolding e z_def [symmetric] lens_ok_def using range by (auto simp: in_set_conv_nth)
next
  case False
  then have "limit_lengths True freq dp = dp"
    using depth_counts_ok(1) [OF assms(1,2)] by (simp add: limit_lengths_def push_bit_eq_mult)
  then show ?thesis using assms False by (simp add: lens_ok_def)
qed

section \<open>The lengths of a code\<close>

definition lengths_for :: "u32 list \<Rightarrow> nat list \<Rightarrow> bool" where
  "lengths_for freq lens \<longleftrightarrow> length lens = length freq \<and> lens_ok lens \<and>
     (\<forall>i < length freq. lens ! i > 0 \<longleftrightarrow> freq ! i > 0)"

lemma huff_lengths_ok:
  assumes "length (active_syms freq) \<ge> 2" "length freq < 2 ^ 15"
  shows "\<exists>lens. huff_lengths (True, True, True) freq = Some lens \<and> lengths_for freq lens"
proof -
  let ?ns = "length freq"
  let ?act = "active_syms freq"
  let ?hp = "heap_fill 0 freq []"
  have m: "mset ?hp = mset (map (\<lambda>j. \<lparr>hn_f = freq ! j, hn_s = int j\<rparr>) ?act)"
    by (simp add: heap_fill_mset active_syms_def)
  have "size (mset ?hp) = length ?act" unfolding m by simp
  then have ne: "?hp \<noteq> []" using assms(1) by auto
  have "(\<Sum>x \<in># mset ?hp. mset (leaves (HLeaf (nat (hn_s x))))) = mset ?act"
    unfolding m by (simp add: image_mset.compositionality o_def)
  then have "heap_rep ?hp [] [] (\<lambda>s. HLeaf (nat s)) ?act"
    unfolding heap_rep_def m by auto
  moreover obtain hp L R where ml: "merge_loop ?hp [] [] = (hp, L, R)" by (metis prod_cases3)
  ultimately obtain tr where hr: "heap_rep hp L R tr ?act" and one: "length hp = 1"
    using merge_loop_rep [OF _ ne ml] by blast
  obtain x where x: "hp = [x]" using one by (auto simp: length_Suc_conv)
  define t where "t = tr (hn_s x)"
  have rt: "rep L R (hn_s x) t" and lt: "mset (leaves t) = mset ?act" using hr by (simp_all add: heap_rep_def x t_def)
  have st: "set (leaves t) = {i. i < ?ns \<and> freq ! i > 0}" using mset_eq_setD [OF lt] by (auto simp: active_syms_def)
  have dt: "distinct (leaves t)" using mset_eq_imp_distinct_iff [OF lt] by (simp add: active_syms_def)
  have ln: "length (leaves t) = length ?act" using mset_eq_length [OF lt] .
  have "length ?act \<le> ?ns" unfolding active_syms_def by (rule order_trans [OF length_filter_le]) simp
  then have "height t < ?ns" using height_leaves [of t] ln by simp
  define dp where "dp = set_all (replicate ?ns 0) (depths 0 t)"
  have td: "tree_depths ?ns (hn_s x) 0 L R (replicate ?ns 0) ?ns = Some dp"
    unfolding dp_def by (rule tree_depths_rep [OF rt]) (use st \<open>height t < ?ns\<close> in auto)
  obtain ta tb where tn: "t = HNode ta tb" using ln assms(1) by (cases t) auto
  have dist: "distinct (map fst (depths 0 t))" using dt by simp
  have keys: "fst ` set (depths 0 t) = {i. i < ?ns \<and> freq ! i > 0}"
    using st by (metis fst_depths set_map)
  have nth: "dp ! i = (case map_of (depths 0 t) i of None \<Rightarrow> replicate ?ns 0 ! i | Some v \<Rightarrow> v)" for i
    unfolding dp_def by (rule set_all_nth [OF dist]) (use keys in auto)
  have sums: "(\<Sum>l \<leftarrow> dp. w l) = (\<Sum>l \<leftarrow> map snd (depths 0 t). w l)" if "w 0 = 0" for w :: "nat \<Rightarrow> nat"
    unfolding dp_def by (rule set_all_sum [where w = w, OF dist _ _ that]) (use keys in auto)
  have range: "dp ! i \<le> 15 \<and> (dp ! i > 0 \<longleftrightarrow> freq ! i > 0)" if i: "i < ?ns" for i
  proof (cases "map_of (depths 0 t) i")
    case None
    then have "i \<notin> fst ` set (depths 0 t)" by (simp add: map_of_eq_None_iff)
    then show ?thesis using None i keys by (auto simp: nth)
  next
    case (Some v)
    then have "(i, v) \<in> set (depths 0 t)" by (rule map_of_SomeD)
    then have "v \<in> snd ` set (depths 0 t)" "i \<in> fst ` set (depths 0 t)" by force+
    then show ?thesis using depths_root_range [of v ta tb] Some keys by (auto simp: nth tn)
  qed
  have lend: "length dp = ?ns" by (simp add: dp_def)
  have d15: "\<forall>d \<in> set dp. d \<le> 15" using range lend by (auto simp: in_set_conv_nth)
  have "kraft dp \<le> 2 ^ 15 + at_limit 0 t"
    using depths_root [of ta tb] sums [of weight] by (simp add: kraft_weight tn weight_def [of 0] del: depths.simps)
  also have "at_limit 0 t = count_list dp 15"
    unfolding at_limit_def count_list_sum by (subst sums) simp_all
  finally have "length (limit_lengths True freq dp) = length dp \<and> lens_ok (limit_lengths True freq dp) \<and>
    (\<forall>i < length dp. limit_lengths True freq dp ! i > 0 \<longleftrightarrow> dp ! i > 0)"
    by (rule limit_lengths_ok [OF d15]) (use assms(2) lend in simp)
  then have "lengths_for freq (limit_lengths True freq dp)" using range lend by (simp add: lengths_for_def)
  moreover have "huff_lengths (True, True, True) freq = Some (limit_lengths True freq dp)"
    using ml td by (simp add: huff_lengths_def x)
  ultimately show ?thesis by blast
qed

lemma kraft_at_most_one:
  assumes "\<forall>l \<in> set lens. l \<le> 1" "count_list lens 1 \<le> 1"
  shows "lens_ok lens"
proof -
  have "kraft lens = (\<Sum>l \<leftarrow> lens. if l = 1 then 2 ^ 14 else 0)"
    unfolding kraft_def using assms(1) by (intro arg_cong [where f = sum_list] map_cong refl) (auto simp: le_Suc_eq)
  also have "\<dots> = count_list lens 1 * 2 ^ 14" by (induction lens) auto
  also have "\<dots> \<le> 2 ^ 14" using assms(2) by simp
  finally show ?thesis using assms(1) by (auto simp: lens_ok_def)
qed

lemma huff_build_ok:
  assumes "length freq < 2 ^ 15"
  shows "\<exists>lens. huff_build (True, True, True) freq = assign_codes (next_codes (len_counts lens)) lens \<and> lengths_for freq lens"
proof -
  let ?act = "active_syms freq"
  let ?lens = "map (\<lambda>f. if f > 0 then 1 else 0 :: nat) freq"
  have act: "length ?act = length (List.filter (\<lambda>f. f > 0) freq)"
  proof -
    have "List.filter (\<lambda>f. f > 0) freq = List.filter (\<lambda>f. f > 0) (map (\<lambda>i. freq ! i) [0..<length freq])"
      by (simp add: map_nth)
    then show ?thesis by (simp add: active_syms_def filter_map o_def)
  qed
  have cnt: "count_list ?lens 1 = length ?act" unfolding act by (induction freq) auto
  show ?thesis
  proof (cases "length ?act \<ge> 2")
    case True
    from huff_lengths_ok [OF True assms] show ?thesis using True
      by (auto simp: huff_build_def Let_def)
  next
    case False
    then have small: "length ?act = 0 \<or> length ?act = 1" by linarith
    have ok: "lens_ok ?lens" by (rule kraft_at_most_one) (use False cnt in auto)
    then have "lengths_for freq ?lens" by (simp add: lengths_for_def)
    moreover have "huff_build (True, True, True) freq = assign_codes (next_codes (len_counts ?lens)) ?lens"
    proof (rule nth_equalityI)
      show "length (huff_build (True, True, True) freq) = length (assign_codes (next_codes (len_counts ?lens)) ?lens)"
        using small by (auto simp: huff_build_def Let_def)
    next
      fix i assume "i < length (huff_build (True, True, True) freq)"
      then have i: "i < length freq" using small by (auto simp: huff_build_def Let_def split: if_splits)
      have il: "i < length ?lens" using i by simp
      have c0: "canon ?lens i = 0" if "freq ! i > 0"
      proof -
        have l1: "?lens ! i = 1" using i that by simp
        have "count_list (take i ?lens) (?lens ! i) < count_list ?lens (?lens ! i)" by (rule rank_less [OF il])
        then have "count_list (take i ?lens) 1 = 0" unfolding l1 using cnt small by linarith
        then show ?thesis using i that by (simp add: canon_def)
      qed
      have z: "freq ! i = 0" if "length ?act = 0"
        using that i by (auto simp: active_syms_def filter_empty_conv word_gt_0)
      have "rev_code 0 1 = 0" by (simp add: rev_code_def)
      then show "huff_build (True, True, True) freq ! i = assign_codes (next_codes (len_counts ?lens)) ?lens ! i"
        using canon_codes [OF ok il] c0 z i small
        by (cases "length ?act = 0") (auto simp: huff_build_def Let_def)
    qed
    ultimately show ?thesis by blast
  qed
qed

section \<open>Properties\<close>

text \<open>
  C24. For every table of frequencies the construction gives lengths of at most fifteen bits, a
  length to exactly the symbols that occur, and lengths that satisfy the Kraft inequality: the
  redistribution of the code that limits the lengths always ends with a valid code.
\<close>

theorem huff_build_lengths:
  assumes "length freq < 2 ^ 15"
  shows "length (huff_build (True, True, True) freq) = length freq \<and>
    kraft (map snd (huff_build (True, True, True) freq)) \<le> 2 ^ 15 \<and>
    (\<forall>i < length freq. snd (huff_build (True, True, True) freq ! i) \<le> 15 \<and>
      (snd (huff_build (True, True, True) freq ! i) > 0 \<longleftrightarrow> freq ! i > 0))"
proof -
  obtain lens where l: "huff_build (True, True, True) freq = assign_codes (next_codes (len_counts lens)) lens"
    "lengths_for freq lens" using huff_build_ok [OF assms] by blast
  have "map snd (huff_build (True, True, True) freq) = lens" by (simp add: l(1) snd_assign_codes)
  moreover from this have "snd (huff_build (True, True, True) freq ! i) = lens ! i" if "i < length freq" for i
    using that l by (metis assign_codes_length lengths_for_def nth_map)
  ultimately show ?thesis using l by (auto simp: lengths_for_def lens_ok_def)
qed

theorem huff_build_lengths_witness:
  "length (huff_build (True, True, True) [3, 0, 5]) = 3 \<and> kraft (map snd (huff_build (True, True, True) [3, 0, 5])) \<le> 2 ^ 15"
  using huff_build_lengths [of "[3, 0, 5]"] by simp

text \<open>
  C28. Encoder and decoder agree: a stream that begins with the code \<open>huff_build\<close> gave to a
  symbol decodes, with the table \<open>huff_lut\<close> builds from the code lengths alone, to that symbol,
  and the reader stands exactly behind the code.
\<close>

theorem huff_build_decodes:
  assumes "length freq < 2 ^ 15" "i < length freq" "freq ! i > 0" "rd_ok r"
    "rd_bits r = code_bits (huff_build (True, True, True) freq) i @ rest"
  shows "\<exists>r'. huff_dec r (huff_lut (map snd (huff_build (True, True, True) freq)) (length freq)) = (Some i, r') \<and>
    rd_ok r' \<and> rd_bits r' = rest"
proof -
  obtain lens where l: "huff_build (True, True, True) freq = assign_codes (next_codes (len_counts lens)) lens"
    "lengths_for freq lens" using huff_build_ok [OF assms(1)] by blast
  then have t: "take (length freq) lens = lens" "map snd (huff_build (True, True, True) freq) = lens"
    by (simp_all add: lengths_for_def snd_assign_codes)
  from huff_dec_code [of "length freq" lens i r rest] show ?thesis
    using l assms t by (simp add: lengths_for_def)
qed

theorem huff_build_decodes_witness:
  "\<exists>r'. huff_dec (br_init [0]) (huff_lut (map snd (huff_build (True, True, True) [0, 3])) (length [0, 3 :: u32])) = (Some 1, r') \<and>
     rd_ok r' \<and> rd_bits r' = [False, False, False, False, False, False, False]"
  using huff_build_decodes [of "[0, 3]" 1 "br_init [0]" "[False, False, False, False, False, False, False]"] rd_init [of "[0]"]
  by (simp add: huff_build_def active_syms_def code_bits_def val_bits_def byte_bits_def upt_rec)

end
