(* ===== verification/LzhCode.thy ===== *)
theory LzhCode
  imports HuffBuild
begin

text \<open>
  The parts of the LZH codec (\<open>src/zupt_lzh.c\<close>) around its Huffman codes: the length and
  distance classes with their extra bits, the run length coding of zero bytes that may precede
  the codec, and the run length coding of the code lengths in the block header. Each encoder is
  proved to be undone by its decoder.
\<close>

section \<open>Length and distance classes\<close>

abbreviation (input) LZH_MAX_LITLEN :: nat where "LZH_MAX_LITLEN \<equiv> 293"
abbreviation (input) LZH_MAX_DIST :: nat where "LZH_MAX_DIST \<equiv> 40"
abbreviation (input) LZH_MAX_MATCH :: nat where "LZH_MAX_MATCH \<equiv> 4322"
abbreviation (input) LEN_CODES :: nat where "LEN_CODES \<equiv> 36"

definition LEN_BASE :: "nat list" where
  "LEN_BASE = concat [
     [3, 4, 5, 6, 7, 8, 9, 10],
     [11, 13, 15, 17],
     [19, 23, 27, 31],
     [35, 43, 51, 59],
     [67, 83, 99, 115],
     [131, 163, 195, 227, 258],
     [259, 291, 355, 483, 739, 1251, 2275]]"

definition LEN_EXTRA :: "nat list" where
  "LEN_EXTRA = concat [
     [0, 0, 0, 0, 0, 0, 0, 0],
     [1, 1, 1, 1],
     [2, 2, 2, 2],
     [3, 3, 3, 3],
     [4, 4, 4, 4],
     [5, 5, 5, 5, 0],
     [5, 6, 7, 8, 9, 10, 11]]"

definition DIST_BASE :: "nat list" where
  "DIST_BASE = concat [
     [1, 2, 3, 4], [5, 7, 9, 13], [17, 25, 33, 49], [65, 97, 129, 193],
     [257, 385, 513, 769], [1025, 1537, 2049, 3073], [4097, 6145, 8193, 12289], [16385, 24577],
     [32769, 49153, 65537, 98305, 131073], [196609, 262145, 393217, 524289, 786433]]"

definition DIST_EXTRA :: "nat list" where
  "DIST_EXTRA = concat [
     [0, 0, 0, 0], [1, 1, 2, 2], [3, 3, 4, 4], [5, 5, 6, 6],
     [7, 7, 8, 8], [9, 9, 10, 10], [11, 11, 12, 12], [13, 13],
     [14, 14, 15, 15, 16], [16, 17, 17, 18, 18]]"

definition len_to_code :: "nat \<Rightarrow> nat" where
  "len_to_code len =
     (case find (\<lambda>i. LEN_BASE ! i \<le> len) (rev [0..<LEN_CODES]) of Some i \<Rightarrow> 257 + i | None \<Rightarrow> 257)"

definition dist_to_code :: "nat \<Rightarrow> nat" where
  "dist_to_code d =
     (case find (\<lambda>i. DIST_BASE ! i \<le> d) (rev [0..<LZH_MAX_DIST]) of Some i \<Rightarrow> i | None \<Rightarrow> 0)"

section \<open>Run length coding of zero bytes\<close>

text \<open>The length of the run of zeros, counted up to 65535, and the pairs that stand for it;
  \<open>None\<close> is the result 0 of a full buffer.\<close>

definition zero_run :: "nat \<Rightarrow> bytes \<Rightarrow> nat" where
  "zero_run limit s = min limit (length (takeWhile (\<lambda>b. b = 0) s))"

function rle_chunks :: "nat \<Rightarrow> nat \<Rightarrow> bytes \<Rightarrow> bytes option" where
  "rle_chunks dc run d =
     (if run > 0 then
        let ch = (if run > 255 then 255 else run) in
        if length d + 2 > dc then None else rle_chunks dc (run - ch) (d @ [0, word_of_nat ch])
      else Some d)"
  by pat_completeness auto
termination by (relation "measure (\<lambda>(dc, run, d). run)") auto

declare rle_chunks.simps [simp del]

function rle_encode_loop :: "nat \<Rightarrow> bytes \<Rightarrow> bytes \<Rightarrow> bytes option" where
  "rle_encode_loop dc [] d = Some d"
| "rle_encode_loop dc (b # s) d =
     (if b = 0 then
        let run = zero_run 65535 (b # s) in
        if run = 1 then
          if length d + 2 > dc then None else rle_encode_loop dc s (d @ [0, 0])
        else
          case rle_chunks dc run d of
            None \<Rightarrow> None
          | Some d \<Rightarrow> rle_encode_loop dc (drop run (b # s)) d
      else if length d + 1 > dc then None else rle_encode_loop dc s (d @ [b]))"
  by pat_completeness auto
termination
  by (relation "measure (\<lambda>(dc, s, d). length s)") (auto simp: zero_run_def)

definition rle_encode :: "bytes \<Rightarrow> nat \<Rightarrow> bytes option" where
  "rle_encode s dc =
     (case rle_encode_loop dc s [] of
        None \<Rightarrow> None
      | Some d \<Rightarrow> if length d < length s then Some d else None)"

text \<open>\<open>[]\<close> for the result 0.\<close>

fun rle_decode_loop :: "nat \<Rightarrow> bytes \<Rightarrow> bytes \<Rightarrow> bytes" where
  "rle_decode_loop dc [] d = d"
| "rle_decode_loop dc [b] d = (if length d < dc then d @ [b] else d)"
| "rle_decode_loop dc (b # c # s) d =
     (if length d < dc then
        if b = 0 then
          if c = 0 then rle_decode_loop dc s (d @ [0])
          else if length d + unat c > dc then []
          else rle_decode_loop dc s (d @ replicate (unat c) 0)
        else rle_decode_loop dc (c # s) (d @ [b])
      else d)"

definition rle_decode :: "bytes \<Rightarrow> nat \<Rightarrow> bytes" where
  "rle_decode s dc = rle_decode_loop dc s []"

section \<open>Run length coding of code lengths\<close>

text \<open>The inner loop over a run of zeros: what it stores; it consumes the run. \<open>None\<close> is the
  result 0 of a full buffer.\<close>

function cl_zeros :: "nat \<Rightarrow> nat \<Rightarrow> bytes \<Rightarrow> bytes option" where
  "cl_zeros ocap run out =
     (if run > 0 then
        if run \<ge> 11 then
          let r = (if run > 138 then 138 else run) in
          if length out + 2 > ocap then None
          else cl_zeros ocap (run - r) (out @ [18, word_of_nat (r - 11)])
        else if run \<ge> 3 then
          if length out + 2 > ocap then None else cl_zeros ocap 0 (out @ [17, word_of_nat (run - 3)])
        else if length out + 1 > ocap then None else cl_zeros ocap (run - 1) (out @ [0])
      else Some out)"
  by pat_completeness auto
termination by (relation "measure (\<lambda>(ocap, run, out). run)") auto

declare cl_zeros.simps [simp del]

text \<open>The two inner loops over at most six repetitions of the length \<open>v\<close>.\<close>

function cl_repeats :: "nat \<Rightarrow> nat \<Rightarrow> nat \<Rightarrow> bytes \<Rightarrow> bytes option" where
  "cl_repeats ocap v run out =
     (if run \<ge> 3 then
        let r = (if run > 6 then 6 else run) in
        if length out + 2 > ocap then None
        else cl_repeats ocap v (run - r) (out @ [16, word_of_nat (r - 3)])
      else if run > 0 then
        if length out + 1 > ocap then None else cl_repeats ocap v (run - 1) (out @ [word_of_nat v])
      else Some out)"
  by pat_completeness auto
termination by (relation "measure (\<lambda>(ocap, v, run, out). run)") auto

declare cl_repeats.simps [simp del]

definition run_of :: "nat \<Rightarrow> nat \<Rightarrow> nat list \<Rightarrow> nat" where
  "run_of limit v lens = min limit (length (takeWhile (\<lambda>l. l = v) lens))"

function cl_encode_loop :: "nat \<Rightarrow> nat list \<Rightarrow> bytes \<Rightarrow> bytes option" where
  "cl_encode_loop ocap [] out = Some out"
| "cl_encode_loop ocap (l # lens) out =
     (if length out < ocap then
        if l = 0 then
          let run = 1 + run_of 137 0 lens in
          case cl_zeros ocap run out of
            None \<Rightarrow> None
          | Some out \<Rightarrow> cl_encode_loop ocap (drop run (l # lens)) out
        else if length out + 1 > ocap then None
        else
          let run = run_of 6 l lens in
          case cl_repeats ocap l run (out @ [word_of_nat l]) of
            None \<Rightarrow> None
          | Some out \<Rightarrow> cl_encode_loop ocap (drop run lens) out
      else Some out)"
  by pat_completeness auto
termination by (relation "measure (\<lambda>(ocap, lens, out). length lens)") auto

definition cl_encode :: "nat list \<Rightarrow> nat \<Rightarrow> bytes" where
  "cl_encode lens ocap = (case cl_encode_loop ocap lens [] of None \<Rightarrow> [] | Some out \<Rightarrow> out)"

text \<open>The decoder fills the lengths in order; \<open>None\<close> is the result \<open>-1\<close>.\<close>

definition repeat_length :: "nat \<Rightarrow> nat \<Rightarrow> nat \<Rightarrow> nat list \<Rightarrow> nat list" where
  "repeat_length cnt reps v lens = lens @ replicate (min reps (cnt - length lens)) v"

fun cl_decode_loop :: "nat \<Rightarrow> bytes \<Rightarrow> nat list \<Rightarrow> nat \<Rightarrow> nat list option" where
  "cl_decode_loop cnt [] lens prev = Some lens"
| "cl_decode_loop cnt (c # inp) lens prev =
     (if length lens < cnt then
        if unat c \<le> 15 then cl_decode_loop cnt inp (lens @ [unat c]) (unat c)
        else if c = 16 \<or> c = 17 \<or> c = 18 then
          case inp of
            [] \<Rightarrow> None
          | n # inp \<Rightarrow>
              if c = 16 then cl_decode_loop cnt inp (repeat_length cnt (3 + unat n) prev lens) prev
              else if c = 17 then cl_decode_loop cnt inp (repeat_length cnt (3 + unat n) 0 lens) prev
              else cl_decode_loop cnt inp (repeat_length cnt (11 + unat n) 0 lens) prev
        else None
      else Some lens)"

text \<open>The array of the caller, of \<open>sz\<close> elements, holds zeros before.\<close>

definition cl_decode :: "nat \<Rightarrow> bytes \<Rightarrow> nat \<Rightarrow> nat list option" where
  "cl_decode sz inp cnt =
     map_option (\<lambda>lens. lens @ replicate (sz - length lens) 0) (cl_decode_loop cnt inp [] 0)"

section \<open>The classes cover every length and distance\<close>

lemma find_rev_upt:
  "find P (rev [0..<n]) = (if \<exists>i < n. P i then Some (Max {i. i < n \<and> P i}) else None)"
proof (induction n)
  case (Suc n)
  show ?case
  proof (cases "P n")
    case True
    have "Max {i. i < Suc n \<and> P i} = n" by (rule Max_eqI) (use True in auto)
    with True show ?thesis by auto
  next
    case False
    then have "{i. i < Suc n \<and> P i} = {i. i < n \<and> P i}" by (auto simp: less_Suc_eq)
    with False Suc show ?thesis by (auto simp: less_Suc_eq)
  qed
qed simp

lemma find_rev_class:
  fixes B :: "nat list"
  assumes "B ! 0 \<le> v" "0 < n" "find (\<lambda>i. B ! i \<le> v) (rev [0..<n]) = r"
  shows "\<exists>i < n. r = Some i \<and> B ! i \<le> v \<and> (\<forall>j. i < j \<and> j < n \<longrightarrow> v < B ! j)"
proof -
  let ?S = "{i. i < n \<and> B ! i \<le> v}"
  have fin: "finite ?S" "?S \<noteq> {}" using assms(1,2) by auto
  have "Max ?S \<in> ?S" by (rule Max_in [OF fin])
  moreover have "v < B ! j" if "Max ?S < j" "j < n" for j
  proof (rule ccontr)
    assume "\<not> v < B ! j"
    then have "j \<le> Max ?S" using that(2) by (intro Max_ge) auto
    with that(1) show False by simp
  qed
  ultimately show ?thesis using assms by (auto simp: find_rev_upt)
qed

text \<open>Each class ends where the next one begins, or overlaps with it.\<close>

definition classes_meet :: "nat list \<Rightarrow> nat list \<Rightarrow> bool" where
  "classes_meet base extra \<longleftrightarrow> list_all2 (\<lambda>(b, e) b'. b' \<le> b + 2 ^ e) (butlast (zip base extra)) (tl base)"

lemma classes_meet_nth:
  assumes "classes_meet base extra" "length base = length extra" "Suc i < length base"
  shows "base ! Suc i \<le> base ! i + 2 ^ (extra ! i)"
proof -
  have "(\<lambda>(b, e) b'. b' \<le> b + 2 ^ e) (butlast (zip base extra) ! i) (tl base ! i)"
    by (rule list_all2_nthD [OF assms(1) [unfolded classes_meet_def]]) (use assms(2,3) in simp)
  then show ?thesis using assms(2,3) by (simp add: nth_butlast nth_tl)
qed

lemma len_table:
  "classes_meet LEN_BASE LEN_EXTRA"
  "LEN_BASE ! 35 + 2 ^ (LEN_EXTRA ! 35) = 4323" "length LEN_BASE = 36" "length LEN_EXTRA = 36" "LEN_BASE ! 0 = 3"
  "\<forall>e \<in> set LEN_EXTRA. e \<le> 11" "\<forall>e \<in> set LEN_BASE. 3 \<le> e"
  by (simp_all add: classes_meet_def LEN_BASE_def LEN_EXTRA_def)

lemma dist_table:
  "classes_meet DIST_BASE DIST_EXTRA"
  "DIST_BASE ! 39 + 2 ^ (DIST_EXTRA ! 39) = 1048577" "length DIST_BASE = 40" "length DIST_EXTRA = 40" "DIST_BASE ! 0 = 1"
  "\<forall>e \<in> set DIST_EXTRA. e \<le> 18" "\<forall>e \<in> set DIST_BASE. 1 \<le> e"
  by (simp_all add: classes_meet_def DIST_BASE_def DIST_EXTRA_def)

lemma len_to_code:
  assumes "3 \<le> len" "len \<le> 4322"
  shows "\<exists>i < 36. len_to_code len = 257 + i \<and> LEN_BASE ! i \<le> len \<and> len - LEN_BASE ! i < 2 ^ (LEN_EXTRA ! i)"
proof -
  have "LEN_BASE ! 0 \<le> len" "0 < (36 :: nat)" using assms(1) len_table(5) by simp_all
  from find_rev_class [OF this refl] obtain i where i: "i < 36" "find (\<lambda>i. LEN_BASE ! i \<le> len) (rev [0..<36]) = Some i"
      "LEN_BASE ! i \<le> len" "\<forall>j. i < j \<and> j < 36 \<longrightarrow> len < LEN_BASE ! j" by blast
  have "len - LEN_BASE ! i < 2 ^ (LEN_EXTRA ! i)"
  proof (cases "i = 35")
    case True
    then show ?thesis using i(3) assms(2) len_table(2) by simp
  next
    case False
    then have "len < LEN_BASE ! Suc i" "LEN_BASE ! Suc i \<le> LEN_BASE ! i + 2 ^ (LEN_EXTRA ! i)"
      using i(1,4) classes_meet_nth [OF len_table(1), of i] len_table(3,4) by auto
    then show ?thesis using i(3) by linarith
  qed
  with i show ?thesis by (auto simp: len_to_code_def simp del: upt_rec_numeral)
qed

lemma dist_to_code:
  assumes "1 \<le> d" "d \<le> 1048576"
  shows "dist_to_code d < 40 \<and> DIST_BASE ! dist_to_code d \<le> d \<and>
    d - DIST_BASE ! dist_to_code d < 2 ^ (DIST_EXTRA ! dist_to_code d)"
proof -
  have "DIST_BASE ! 0 \<le> d" "0 < (40 :: nat)" using assms(1) dist_table(5) by simp_all
  from find_rev_class [OF this refl] obtain i where i: "i < 40" "find (\<lambda>i. DIST_BASE ! i \<le> d) (rev [0..<40]) = Some i"
      "DIST_BASE ! i \<le> d" "\<forall>j. i < j \<and> j < 40 \<longrightarrow> d < DIST_BASE ! j" by blast
  have "d - DIST_BASE ! i < 2 ^ (DIST_EXTRA ! i)"
  proof (cases "i = 39")
    case True
    then show ?thesis using i(3) assms(2) dist_table(2) by simp
  next
    case False
    then have "d < DIST_BASE ! Suc i" "DIST_BASE ! Suc i \<le> DIST_BASE ! i + 2 ^ (DIST_EXTRA ! i)"
      using i(1,4) classes_meet_nth [OF dist_table(1), of i] dist_table(3,4) by auto
    then show ?thesis using i(3) by linarith
  qed
  with i show ?thesis by (auto simp: dist_to_code_def simp del: upt_rec_numeral)
qed

section \<open>Run lengths of zeros are read back\<close>

lemma zero_run_split: "s = replicate (zero_run n s) 0 @ drop (zero_run n s) s"
proof -
  have "takeWhile (\<lambda>b. b = 0) s = replicate (length (takeWhile (\<lambda>b. b = 0) s)) 0"
    by (induction s) auto
  then have "take (zero_run n s) s = replicate (zero_run n s) 0"
    unfolding zero_run_def
    by (metis (no_types, lifting) min.cobounded2 take_replicate min.absorb1 takeWhile_eq_take take_take)
  then show ?thesis by (metis append_take_drop_id)
qed

lemma zero_run_pos: "zero_run (Suc n) (0 # s) > 0"
  by (simp add: zero_run_def)

lemma rle_chunks_decode:
  "rle_chunks dc run d = Some d' \<Longrightarrow>
   \<exists>e. d' = d @ e \<and> (\<forall>N r out. length out + run \<le> N \<longrightarrow>
     rle_decode_loop N (e @ r) out = rle_decode_loop N r (out @ replicate run 0))"
proof (induction dc run d rule: rle_chunks.induct)
  case (1 dc run d)
  show ?case
  proof (cases "run > 0")
    case True
    let ?ch = "if run > 255 then 255 else run"
    have ch: "unat (word_of_nat ?ch :: u8) = ?ch" "0 < ?ch" "?ch \<le> run"
      using True by (simp_all add: unat_of_nat)
    have ne: "(word_of_nat ?ch :: u8) \<noteq> 0" using ch(1,2) by (metis unat_0 less_irrefl)
    have u: "rle_chunks dc run d = (if length d + 2 > dc then None else rle_chunks dc (run - ?ch) (d @ [0, word_of_nat ?ch]))"
      by (subst rle_chunks.simps) (simp only: Let_def True if_True)
    have len: "\<not> length d + 2 > dc"
    proof
      assume "length d + 2 > dc"
      then show False using 1(2) unfolding u by simp
    qed
    then have rec: "rle_chunks dc (run - ?ch) (d @ [0, word_of_nat ?ch]) = Some d'"
      using 1(2) unfolding u by (simp only: if_False)
    from 1(1) [OF True refl len rec] obtain e where e: "d' = (d @ [0, word_of_nat ?ch]) @ e"
      "\<forall>N r out. length out + (run - ?ch) \<le> N \<longrightarrow>
        rle_decode_loop N (e @ r) out = rle_decode_loop N r (out @ replicate (run - ?ch) 0)" by blast
    have "rle_decode_loop N (([0, word_of_nat ?ch] @ e) @ r) out = rle_decode_loop N r (out @ replicate run 0)"
      if "length out + run \<le> N" for N r out
    proof -
      have "rle_decode_loop N (([0, word_of_nat ?ch] @ e) @ r) out = rle_decode_loop N (e @ r) (out @ replicate ?ch 0)"
        using that True ch ne by (simp only: append_Cons append_Nil rle_decode_loop.simps ch(1) if_True refl if_False) auto
      also have "\<dots> = rle_decode_loop N r ((out @ replicate ?ch 0) @ replicate (run - ?ch) 0)"
        using e(2) that ch(3) by simp
      also have "(out @ replicate ?ch 0) @ replicate (run - ?ch) (0 :: u8) = out @ replicate run 0"
        using ch(3) by (simp flip: replicate_add)
      finally show ?thesis .
    qed
    then show ?thesis using e(1) by (intro exI [of _ "[0, word_of_nat ?ch] @ e"]) auto
  next
    case False
    then show ?thesis using 1(2) by (subst (asm) rle_chunks.simps) simp
  qed
qed

lemma rle_encode_decode_loop:
  "rle_encode_loop dc s d = Some d' \<Longrightarrow>
   \<exists>e. d' = d @ e \<and> (\<forall>N r out. length out + length s \<le> N \<longrightarrow>
     rle_decode_loop N (e @ r) out = rle_decode_loop N r (out @ s))"
proof (induction dc s d rule: rle_encode_loop.induct)
  case (2 dc b s d)
  consider (lit) "b \<noteq> 0" | (one) "b = 0" "zero_run 65535 (b # s) = 1"
    | (run) "b = 0" "zero_run 65535 (b # s) \<noteq> 1" by blast
  then show ?case
  proof cases
    case lit
    have len: "\<not> length d + 1 > dc" and rec: "rle_encode_loop dc s (d @ [b]) = Some d'"
      using lit 2(4) by (auto split: if_splits)
    from 2(3) [OF lit len rec] obtain e where e: "d' = (d @ [b]) @ e"
      "\<forall>N r out. length out + length s \<le> N \<longrightarrow> rle_decode_loop N (e @ r) out = rle_decode_loop N r (out @ s)" by blast
    have "rle_decode_loop N (b # t) out = rle_decode_loop N t (out @ [b])" if "length out < N" for N t out
      using that lit by (cases t) auto
    then show ?thesis using e by (intro exI [of _ "[b] @ e"]) simp
  next
    case one
    have len: "\<not> length d + 2 > dc" and rec: "rle_encode_loop dc s (d @ [0, 0]) = Some d'"
      using one 2(4) by (auto split: if_splits)
    from 2(1) [OF one(1) refl one(2) len rec] obtain e where e: "d' = (d @ [0, 0]) @ e"
      "\<forall>N r out. length out + length s \<le> N \<longrightarrow> rle_decode_loop N (e @ r) out = rle_decode_loop N r (out @ s)" by blast
    then show ?thesis using one by (intro exI [of _ "[0, 0] @ e"]) simp
  next
    case run
    let ?run = "zero_run 65535 (b # s)"
    obtain d1 where c: "rle_chunks dc ?run d = Some d1"
      and rec: "rle_encode_loop dc (drop ?run (b # s)) d1 = Some d'"
      using 2(4) run by (auto simp: Let_def split: option.splits)
    from rle_chunks_decode [OF c] obtain e1 where e1: "d1 = d @ e1"
      "\<forall>N r out. length out + ?run \<le> N \<longrightarrow>
        rle_decode_loop N (e1 @ r) out = rle_decode_loop N r (out @ replicate ?run 0)" by blast
    from 2(2) [OF run(1) refl run(2) c rec] obtain e2 where e2: "d' = d1 @ e2"
      "\<forall>N r out. length out + length (drop ?run (b # s)) \<le> N \<longrightarrow>
        rle_decode_loop N (e2 @ r) out = rle_decode_loop N r (out @ drop ?run (b # s))" by blast
    have sp: "replicate ?run 0 @ drop ?run (b # s) = b # s" by (rule zero_run_split [symmetric])
    then have ln: "?run + length (drop ?run (b # s)) = length (b # s)"
      by (metis length_append length_replicate)
    have "rle_decode_loop N ((e1 @ e2) @ r) out = rle_decode_loop N r (out @ (b # s))"
      if "length out + length (b # s) \<le> N" for N r out
    proof -
      have "rle_decode_loop N ((e1 @ e2) @ r) out = rle_decode_loop N (e2 @ r) (out @ replicate ?run 0)"
        using e1(2) that ln by simp
      also have "\<dots> = rle_decode_loop N r ((out @ replicate ?run 0) @ drop ?run (b # s))"
        using e2(2) that ln by simp
      finally show ?thesis using sp by simp
    qed
    then show ?thesis using e1(1) e2(1) by (intro exI [of _ "e1 @ e2"]) simp
  qed
qed simp

lemma rle_decode_encode:
  assumes "rle_encode s dc = Some d" "length s \<le> N"
  shows "rle_decode d N = s"
proof -
  have "rle_encode_loop dc s [] = Some d" using assms(1) by (auto simp: rle_encode_def split: option.splits if_splits)
  from rle_encode_decode_loop [OF this] obtain e where
    "d = [] @ e" "\<forall>N r out. length out + length s \<le> N \<longrightarrow> rle_decode_loop N (e @ r) out = rle_decode_loop N r (out @ s)" by blast
  then show ?thesis using assms(2) by (simp add: rle_decode_def) (metis append.right_neutral append_Nil list.size(3) add_0 rle_decode_loop.simps(1))
qed

section \<open>Code lengths are read back\<close>

text \<open>\<open>reads e ls p p'\<close>: the bytes \<open>e\<close> add the lengths \<open>ls\<close> and move the previous length from
  \<open>p\<close> to \<open>p'\<close>, whatever follows.\<close>

definition reads :: "bytes \<Rightarrow> nat list \<Rightarrow> nat \<Rightarrow> nat \<Rightarrow> bool" where
  "reads e ls p p' \<longleftrightarrow> length e \<le> length ls \<and> (\<forall>n r done. length done + length ls \<le> n \<longrightarrow>
     cl_decode_loop n (e @ r) done p = cl_decode_loop n r (done @ ls) p')"

lemma reads_Nil: "reads [] [] p p"
  by (simp add: reads_def)

lemma reads_append: "reads e ls p p' \<Longrightarrow> reads e' ls' p' p'' \<Longrightarrow> reads (e @ e') (ls @ ls') p p''"
  by (simp add: reads_def)

lemma unat_word_small: "n < 256 \<Longrightarrow> unat (word_of_nat n :: u8) = n"
  by (simp add: unat_of_nat)

lemma reads_literal: "l \<le> 15 \<Longrightarrow> reads [word_of_nat l] [l] p l"
  by (simp add: reads_def unat_word_small)

lemma reads_repeat: "3 \<le> r \<Longrightarrow> r \<le> 258 \<Longrightarrow> reads [16, word_of_nat (r - 3)] (replicate r p) p p"
proof -
  have "reads [16, word_of_nat n] (replicate (3 + n) p) p p" if "n < 256" for n
    using that by (auto simp: reads_def unat_word_small repeat_length_def)
  from this [of "r - 3"] show "3 \<le> r \<Longrightarrow> r \<le> 258 \<Longrightarrow> ?thesis" by simp
qed

lemma reads_zeros3: "3 \<le> r \<Longrightarrow> r \<le> 258 \<Longrightarrow> reads [17, word_of_nat (r - 3)] (replicate r 0) p p"
proof -
  have "reads [17, word_of_nat n] (replicate (3 + n) 0) p p" if "n < 256" for n
    using that by (auto simp: reads_def unat_word_small repeat_length_def)
  from this [of "r - 3"] show "3 \<le> r \<Longrightarrow> r \<le> 258 \<Longrightarrow> ?thesis" by simp
qed

lemma reads_zeros11: "11 \<le> r \<Longrightarrow> r \<le> 138 \<Longrightarrow> reads [18, word_of_nat (r - 11)] (replicate r 0) p p"
proof -
  have "reads [18, word_of_nat n] (replicate (11 + n) 0) p p" if "n < 256" for n
    using that by (auto simp: reads_def unat_word_small repeat_length_def)
  from this [of "r - 11"] show "11 \<le> r \<Longrightarrow> r \<le> 138 \<Longrightarrow> ?thesis" by simp
qed

lemma cl_zeros_reads:
  "length out + run \<le> ocap \<Longrightarrow>
   \<exists>e p'. cl_zeros ocap run out = Some (out @ e) \<and> reads e (replicate run 0) p p'"
proof (induction ocap run out arbitrary: p rule: cl_zeros.induct)
  case (1 ocap run out)
  consider (big) "run \<ge> 11" | (mid) "3 \<le> run" "run < 11" | (small) "0 < run" "run < 3" | (nil) "run = 0" by linarith
  then show ?case
  proof cases
    case big
    let ?r = "if run > 138 then 138 else run"
    have c: "run > 0" "\<not> length out + 2 > ocap" using big 1(4) by auto
    have u: "cl_zeros ocap run out = cl_zeros ocap (run - ?r) (out @ [18, word_of_nat (?r - 11)])"
      using big c by (subst cl_zeros.simps) (simp only: Let_def if_True if_False)
    have le: "length (out @ [18, word_of_nat (?r - 11)]) + (run - ?r) \<le> ocap" using 1(4) big by auto
    from 1(1) [OF c(1) big refl c(2) le, of p] obtain e p' where
      e: "cl_zeros ocap (run - ?r) (out @ [18, word_of_nat (?r - 11)]) = Some ((out @ [18, word_of_nat (?r - 11)]) @ e)"
        "reads e (replicate (run - ?r) 0) p p'" by blast
    have "reads ([18, word_of_nat (?r - 11)] @ e) (replicate ?r 0 @ replicate (run - ?r) 0) p p'"
      by (rule reads_append [OF reads_zeros11 e(2)]) (use big in auto)
    moreover have "replicate ?r 0 @ replicate (run - ?r) 0 = replicate run (0 :: nat)"
      by (simp flip: replicate_add)
    ultimately have "reads ([18, word_of_nat (?r - 11)] @ e) (replicate run 0) p p'" by simp
    then show ?thesis using e(1) u by (intro exI [of _ "[18, word_of_nat (?r - 11)] @ e"] exI [of _ p']) simp
  next
    case mid
    then have "cl_zeros ocap run out = cl_zeros ocap 0 (out @ [17, word_of_nat (run - 3)])"
      using 1(4) by (subst cl_zeros.simps) simp
    also have "\<dots> = Some (out @ [17, word_of_nat (run - 3)])" by (subst cl_zeros.simps) simp
    finally show ?thesis using reads_zeros3 [of run p] mid by auto
  next
    case small
    then have c: "run > 0" "\<not> run \<ge> 11" "\<not> run \<ge> 3" "\<not> length out + 1 > ocap" using 1(4) by auto
    then have u: "cl_zeros ocap run out = cl_zeros ocap (run - 1) (out @ [0])" by (subst cl_zeros.simps) simp
    from 1(3) [OF c, of 0] obtain e p' where
      e: "cl_zeros ocap (run - 1) (out @ [0]) = Some ((out @ [0]) @ e)" "reads e (replicate (run - 1) 0) 0 p'"
      using 1(4) small by auto
    have "reads ([word_of_nat 0] @ e) ([0] @ replicate (run - 1) 0) p p'"
      by (rule reads_append [OF reads_literal e(2)]) simp
    moreover have "[0] @ replicate (run - 1) 0 = replicate run (0 :: nat)" using small by (cases run) auto
    ultimately have "reads ([0] @ e) (replicate run 0) p p'" by simp
    then show ?thesis using e(1) u by (intro exI [of _ "[0] @ e"] exI [of _ p']) simp
  next
    case nil
    then have "cl_zeros ocap run out = Some out" by (subst cl_zeros.simps) simp
    then show ?thesis using nil reads_Nil by auto
  qed
qed

lemma cl_repeats_reads:
  "length out + run \<le> ocap \<Longrightarrow> v \<le> 15 \<Longrightarrow>
   \<exists>e. cl_repeats ocap v run out = Some (out @ e) \<and> reads e (replicate run v) v v"
proof (induction ocap v run out rule: cl_repeats.induct)
  case (1 ocap v run out)
  consider (big) "run \<ge> 3" | (small) "0 < run" "run < 3" | (nil) "run = 0" by linarith
  then show ?case
  proof cases
    case big
    let ?r = "if run > 6 then 6 else run"
    have c: "\<not> length out + 2 > ocap" using big 1(3) by auto
    have u: "cl_repeats ocap v run out = cl_repeats ocap v (run - ?r) (out @ [16, word_of_nat (?r - 3)])"
      using big c by (subst cl_repeats.simps) (simp only: Let_def if_True if_False)
    have le: "length (out @ [16, word_of_nat (?r - 3)]) + (run - ?r) \<le> ocap" using 1(3) big by auto
    from 1(1) [OF big refl c le 1(4)] obtain e where
      e: "cl_repeats ocap v (run - ?r) (out @ [16, word_of_nat (?r - 3)]) = Some ((out @ [16, word_of_nat (?r - 3)]) @ e)"
        "reads e (replicate (run - ?r) v) v v" by blast
    have "reads ([16, word_of_nat (?r - 3)] @ e) (replicate ?r v @ replicate (run - ?r) v) v v"
      by (rule reads_append [OF reads_repeat e(2)]) (use big in auto)
    moreover have "replicate ?r v @ replicate (run - ?r) v = replicate run v"
      by (simp flip: replicate_add)
    ultimately have "reads ([16, word_of_nat (?r - 3)] @ e) (replicate run v) v v" by simp
    then show ?thesis using e(1) u by (intro exI [of _ "[16, word_of_nat (?r - 3)] @ e"]) simp
  next
    case small
    then have c: "\<not> run \<ge> 3" "run > 0" "\<not> length out + 1 > ocap" using 1(3) by auto
    then have u: "cl_repeats ocap v run out = cl_repeats ocap v (run - 1) (out @ [word_of_nat v])"
      by (subst cl_repeats.simps) simp
    from 1(2) [OF c] obtain e where
      e: "cl_repeats ocap v (run - 1) (out @ [word_of_nat v]) = Some ((out @ [word_of_nat v]) @ e)"
        "reads e (replicate (run - 1) v) v v"
      using 1(3,4) small by auto
    have "reads ([word_of_nat v] @ e) ([v] @ replicate (run - 1) v) v v"
      by (rule reads_append [OF reads_literal e(2)]) (use 1(4) in simp)
    moreover have "[v] @ replicate (run - 1) v = replicate run v" using small by (cases run) auto
    ultimately have "reads ([word_of_nat v] @ e) (replicate run v) v v" by simp
    then show ?thesis using e(1) u by (intro exI [of _ "[word_of_nat v] @ e"]) simp
  next
    case nil
    then have "cl_repeats ocap v run out = Some out" by (subst cl_repeats.simps) simp
    then show ?thesis using nil reads_Nil by auto
  qed
qed

lemma run_of_split: "lens = replicate (run_of n v lens) v @ drop (run_of n v lens) lens"
proof -
  have "takeWhile (\<lambda>l. l = v) lens = replicate (length (takeWhile (\<lambda>l. l = v) lens)) v"
    by (induction lens) auto
  then have "take (run_of n v lens) lens = replicate (run_of n v lens) v"
    unfolding run_of_def
    by (metis (no_types, lifting) min.cobounded2 take_replicate min.absorb1 takeWhile_eq_take take_take)
  then show ?thesis by (metis append_take_drop_id)
qed

lemma run_of_length: "run_of n v lens \<le> length lens"
  unfolding run_of_def by (meson length_takeWhile_le min.coboundedI2)

lemma cl_encode_reads:
  "length out + length lens \<le> ocap \<Longrightarrow> \<forall>l \<in> set lens. l \<le> 15 \<Longrightarrow>
   \<exists>e p'. cl_encode_loop ocap lens out = Some (out @ e) \<and> reads e lens p p'"
proof (induction ocap lens out arbitrary: p rule: cl_encode_loop.induct)
  case (2 ocap l lens out)
  have room: "length out < ocap" using 2(3) by simp
  show ?case
  proof (cases "l = 0")
    case True
    let ?run = "1 + run_of 137 0 lens"
    have le: "?run \<le> length (l # lens)" using run_of_length by simp
    obtain e1 p1 where z: "cl_zeros ocap ?run out = Some (out @ e1)" "reads e1 (replicate ?run 0) p p1"
      using cl_zeros_reads [of out ?run ocap p] 2(3) le by auto
    have "length e1 \<le> ?run" using z(2) by (simp add: reads_def)
    then have "length (out @ e1) + length (drop ?run (l # lens)) \<le> ocap" using 2(3) le by simp
    moreover have "\<forall>l \<in> set (drop ?run (l # lens)). l \<le> 15" using 2(4) by (meson in_set_dropD)
    ultimately obtain e2 p2 where e2: "cl_encode_loop ocap (drop ?run (l # lens)) (out @ e1) = Some ((out @ e1) @ e2)"
        "reads e2 (drop ?run (l # lens)) p1 p2"
      using 2(1) [OF room True refl z(1), of p1] by blast
    have "l # lens = replicate ?run 0 @ drop ?run (l # lens)"
      using run_of_split [of lens 137 0] True by simp
    then have "reads (e1 @ e2) (l # lens) p p2" using reads_append [OF z(2) e2(2)] by simp
    then show ?thesis using e2(1) z(1) room True by auto
  next
    case False
    let ?run = "run_of 6 l lens"
    have le: "?run \<le> length lens" using run_of_length by simp
    have l: "l \<le> 15" using 2(4) by simp
    obtain e1 where z: "cl_repeats ocap l ?run (out @ [word_of_nat l]) = Some ((out @ [word_of_nat l]) @ e1)"
        "reads e1 (replicate ?run l) l l"
      using cl_repeats_reads [of "out @ [word_of_nat l]" ?run ocap l] 2(3) le l by auto
    have nl: "\<not> length out + 1 > ocap" using room by simp
    have "length e1 \<le> ?run" using z(2) by (simp add: reads_def)
    then have "length ((out @ [word_of_nat l]) @ e1) + length (drop ?run lens) \<le> ocap" using 2(3) le by simp
    moreover have "\<forall>l \<in> set (drop ?run lens). l \<le> 15" using 2(4) by (auto dest: in_set_dropD)
    ultimately obtain e2 p2 where e2: "cl_encode_loop ocap (drop ?run lens) ((out @ [word_of_nat l]) @ e1) =
          Some (((out @ [word_of_nat l]) @ e1) @ e2)"
        "reads e2 (drop ?run lens) l p2"
      using 2(2) [OF room False nl refl z(1), of l] by blast
    have sp: "l # lens = [l] @ replicate ?run l @ drop ?run lens" using run_of_split [of lens 6 l] by simp
    have "reads ([word_of_nat l] @ e1 @ e2) ([l] @ replicate ?run l @ drop ?run lens) p p2"
      by (intro reads_append [OF reads_literal [OF l]] reads_append [OF z(2) e2(2)])
    then have "reads ([word_of_nat l] @ e1 @ e2) (l # lens) p p2" using sp by simp
    then show ?thesis using e2(1) z(1) room False by auto
  qed
qed (use reads_Nil in auto)

lemma cl_decode_encode:
  assumes "length lens \<le> sz" "\<forall>l \<in> set lens. l \<le> 15" "length lens \<le> ocap"
  shows "cl_decode sz (cl_encode lens ocap) (length lens) = Some (lens @ replicate (sz - length lens) 0)"
    "length (cl_encode lens ocap) \<le> length lens"
proof -
  obtain e p' where e: "cl_encode_loop ocap lens [] = Some ([] @ e)" "reads e lens 0 p'"
    using cl_encode_reads [of "[]" lens ocap 0] assms by auto
  have "cl_decode_loop (length lens) (e @ []) [] 0 = cl_decode_loop (length lens) [] ([] @ lens) p'"
    using e(2) by (simp only: reads_def list.size add_0 order_refl simp_thms)
  then show "cl_decode sz (cl_encode lens ocap) (length lens) = Some (lens @ replicate (sz - length lens) 0)"
    using e(1) by (simp add: cl_decode_def cl_encode_def)
  show "length (cl_encode lens ocap) \<le> length lens"
    using e by (simp add: cl_encode_def reads_def)
qed

end
