(* ===== verification/Lzh.thy ===== *)
theory Lzh
  imports Lz LzhCode
begin

text \<open>
  The LZH codec (\<open>src/zupt_lzh.c\<close>): the match finder, the lazy parser and its stream of
  symbols, the block header, the bit stream, and the decoder, over the Huffman codes of theories
  \<open>Huff\<close> and \<open>HuffBuild\<close> and the run length codings of theory \<open>LzhCode\<close>.

  Fields that the code copies with \<open>memcpy\<close> are in the byte order of the machine, which the
  format documents as little-endian. The hash tables are the records of theory \<open>Lz\<close>: total
  functions, of whose contents nothing is assumed. The main result is the round trip: what the
  compressor returns is decoded to its input, at every level.
\<close>

section \<open>Configuration\<close>

record lzh_config_t =
  win_size :: nat
  hash_bits :: nat
  max_chain :: nat
  lazy_depth :: nat
  min_match :: nat

definition lzh_config :: "int \<Rightarrow> lzh_config_t" where
  "lzh_config level =
     (if level = 1 then \<lparr>win_size = 65536, hash_bits = 20, max_chain = 12, lazy_depth = 0, min_match = 4\<rparr>
      else if level = 2 then \<lparr>win_size = 131072, hash_bits = 20, max_chain = 24, lazy_depth = 1, min_match = 4\<rparr>
      else if level = 3 then \<lparr>win_size = 131072, hash_bits = 20, max_chain = 48, lazy_depth = 1, min_match = 3\<rparr>
      else if level = 4 then \<lparr>win_size = 262144, hash_bits = 20, max_chain = 96, lazy_depth = 2, min_match = 3\<rparr>
      else if level = 5 then \<lparr>win_size = 524288, hash_bits = 20, max_chain = 160, lazy_depth = 2, min_match = 3\<rparr>
      else if level = 6 then \<lparr>win_size = 524288, hash_bits = 20, max_chain = 256, lazy_depth = 3, min_match = 3\<rparr>
      else if level = 7 then \<lparr>win_size = 1048576, hash_bits = 20, max_chain = 384, lazy_depth = 3, min_match = 3\<rparr>
      else if level = 8 then \<lparr>win_size = 1048576, hash_bits = 20, max_chain = 512, lazy_depth = 4, min_match = 3\<rparr>
      else if level = 9 then \<lparr>win_size = 1048576, hash_bits = 20, max_chain = 768, lazy_depth = 5, min_match = 3\<rparr>
      else \<lparr>win_size = 524288, hash_bits = 20, max_chain = 256, lazy_depth = 3, min_match = 3\<rparr>)"

section \<open>The match finder\<close>

definition lzh_hash :: "bytes \<Rightarrow> nat \<Rightarrow> nat \<Rightarrow> u32" where
  "lzh_hash src p bits = drop_bit (32 - bits) (zupt_le32_get (take 4 (drop p src)) * 2654435761)"

text \<open>The comparison by eight bytes, then byte by byte.\<close>

function lzh_extend8 :: "bytes \<Rightarrow> nat \<Rightarrow> nat \<Rightarrow> nat \<Rightarrow> nat \<Rightarrow> nat" where
  "lzh_extend8 src ref ip len mx =
     (if len + 8 \<le> mx \<and> take 8 (drop (ref + len) src) = take 8 (drop (ip + len) src)
      then lzh_extend8 src ref ip (len + 8) mx else len)"
  by pat_completeness auto
termination by (relation "measure (\<lambda>(src, ref, ip, len, mx). mx - len)") auto

declare lzh_extend8.simps [simp del]

text \<open>One candidate of the chain: whether the walk ends, the length to beat, and the match so
  far as a pair of length and distance.\<close>

definition lzh_candidate :: "bytes \<Rightarrow> nat \<Rightarrow> nat \<Rightarrow> nat \<Rightarrow> nat \<Rightarrow> i32 \<Rightarrow> nat \<times> nat \<times> nat \<Rightarrow> bool \<times> nat \<times> nat \<times> nat" where
  "lzh_candidate src ip maxchain win cnt ref st =
     (if \<not> 0 \<le> sint ref then (True, st)
      else
        let d = nat ((int ip - sint ref) mod 2 ^ 64) in
        if d > win \<or> d = 0 then (True, st)
        else
          let r = nat (sint ref); best = fst st in
          if best < length src - ip \<and> src ! (r + best) = src ! (ip + best) \<and>
             src ! r = src ! ip \<and> src ! (r + 1) = src ! (ip + 1)
          then
            let mx = min (length src - ip) LZH_MAX_MATCH;
                len = lz_extend src r ip (lzh_extend8 src r ip 0 mx) mx in
            if len > best then (len \<ge> LZH_MAX_MATCH \<or> len \<ge> 512 \<and> cnt > maxchain div 4, len, len, d)
            else (False, st)
          else (False, st))"

fun lzh_walk :: "bytes \<Rightarrow> nat \<Rightarrow> (nat \<Rightarrow> i32) \<Rightarrow> nat \<Rightarrow> nat \<Rightarrow> nat \<Rightarrow> i32 \<Rightarrow> nat \<times> nat \<times> nat \<Rightarrow> nat \<times> nat \<times> nat" where
  "lzh_walk src ip chn maxchain win 0 ref st = st"
| "lzh_walk src ip chn maxchain win (Suc n) ref st =
     (case lzh_candidate src ip maxchain win (maxchain - Suc n) ref st of
        (True, st) \<Rightarrow> st
      | (False, st) \<Rightarrow> lzh_walk src ip chn maxchain win n (chn (nat (sint ref) mod win)) st)"

definition find_match :: "bytes \<Rightarrow> nat \<Rightarrow> lz_tables \<Rightarrow> nat \<Rightarrow> nat \<Rightarrow> nat \<Rightarrow> nat \<times> nat" where
  "find_match src ip tabs maxchain win min_m =
     (if ip + 4 > length src then (0, 0)
      else
        let (best, m) = lzh_walk src ip (chain tabs) maxchain win maxchain
              (hash_table tabs (lzh_hash src ip 20)) (min_m - 1, 0, 0) in
        if fst m \<ge> min_m then m else (0, 0))"

definition insert_hash :: "bytes \<Rightarrow> nat \<Rightarrow> nat \<Rightarrow> lz_tables \<Rightarrow> lz_tables" where
  "insert_hash src ip win tabs =
     (if ip + 4 \<le> length src then
        let h = lzh_hash src ip 20 in
        \<lparr>hash_table = (hash_table tabs)(h := word_of_nat ip),
         chain = (chain tabs)(ip mod win := hash_table tabs h)\<rparr>
      else tabs)"

section \<open>The parser\<close>

record lzsym_t =
  litlen :: nat
  dist_code :: nat
  match_len :: nat
  match_dist :: nat

definition literal_sym :: "u8 \<Rightarrow> lzsym_t" where
  "literal_sym b = \<lparr>litlen = unat b, dist_code = 0, match_len = 0, match_dist = 0\<rparr>"

definition match_sym :: "nat \<times> nat \<Rightarrow> lzsym_t" where
  "match_sym m = \<lparr>litlen = len_to_code (fst m), dist_code = dist_to_code (snd m), match_len = fst m, match_dist = snd m\<rparr>"

definition eob_sym :: lzsym_t where
  "eob_sym = \<lparr>litlen = 256, dist_code = 0, match_len = 0, match_dist = 0\<rparr>"

definition cfg_find :: "lzh_config_t \<Rightarrow> bytes \<Rightarrow> nat \<Rightarrow> lz_tables \<Rightarrow> nat \<times> nat" where
  "cfg_find cfg src ip tabs = find_match src ip tabs (max_chain cfg) (win_size cfg) (min_match cfg)"

text \<open>The nested attempts at the next positions, for the lazy depths one, two and three.\<close>

fun lazy_steps :: "lzh_config_t \<Rightarrow> bytes \<Rightarrow> nat list \<Rightarrow> nat \<times> (nat \<times> nat) \<times> lzsym_t list \<times> lz_tables \<Rightarrow>
    nat \<times> (nat \<times> nat) \<times> lzsym_t list \<times> lz_tables" where
  "lazy_steps cfg src [] st = st"
| "lazy_steps cfg src (k # ks) (ip, m1, syms, tabs) =
     (if lazy_depth cfg \<ge> k \<and> ip + 1 < length src then
        let tabs = insert_hash src ip (win_size cfg) tabs;
            m2 = cfg_find cfg src (ip + 1) tabs in
        if fst m2 > fst m1 + 1 then lazy_steps cfg src ks (ip + 1, m2, syms @ [literal_sym (src ! ip)], tabs)
        else (ip, m1, syms, tabs)
      else (ip, m1, syms, tabs))"

lemma lazy_steps_pos:
  "lazy_steps cfg src ks (ip, m, syms, tabs) = (ip', m', syms', tabs') \<Longrightarrow> ip \<le> ip' \<and> fst m \<le> fst m'"
proof (induction ks arbitrary: ip m syms tabs)
  case (Cons k ks)
  then show ?case by (fastforce simp: Let_def split: if_splits)
qed simp

text \<open>The insertions inside a match stop at the last position with four bytes.\<close>

definition insert_inside :: "bytes \<Rightarrow> nat \<Rightarrow> nat \<Rightarrow> nat \<Rightarrow> lz_tables \<Rightarrow> lz_tables" where
  "insert_inside src ip stop win tabs =
     foldl (\<lambda>t j. insert_hash src j win t) tabs (takeWhile (\<lambda>j. j + 4 \<le> length src) [ip + 1..<stop])"

function lzh_parse :: "lzh_config_t \<Rightarrow> bytes \<Rightarrow> nat \<Rightarrow> lz_tables \<Rightarrow> lzsym_t list \<Rightarrow> lzsym_t list" where
  "lzh_parse cfg src ip tabs syms =
     (if ip < length src then
        let m1 = cfg_find cfg src ip tabs in
        if fst m1 = 0 then
          lzh_parse cfg src (ip + 1) (insert_hash src ip (win_size cfg) tabs) (syms @ [literal_sym (src ! ip)])
        else
          let (ip', m, syms', tabs') = lazy_steps cfg src [1, 2, 3] (ip, m1, syms, tabs);
              tabs' = (if lazy_depth cfg < 1 then insert_hash src ip' (win_size cfg) tabs' else tabs');
              stop = ip' + fst m in
          lzh_parse cfg src stop (insert_inside src ip' stop (win_size cfg) tabs') (syms' @ [match_sym m])
      else syms @ [eob_sym])"
  by pat_completeness auto
termination
proof (relation "measure (\<lambda>(cfg, src, ip, tabs, syms). length src - ip)", goal_cases)
  case (3 cfg src ip tabs syms m1 x ip' y m z syms' t w e)
  have "lazy_steps cfg src [1, 2, 3] (ip, m1, syms, tabs) = (ip', m, syms', t)"
    using 3(4-7) by metis
  then have "ip \<le> ip' \<and> fst m1 \<le> fst m" by (rule lazy_steps_pos)
  with 3 show ?case by auto
qed auto

declare lzh_parse.simps [simp del]

section \<open>The compressor\<close>

definition zupt_lzh_bound :: "nat \<Rightarrow> nat" where
  "zupt_lzh_bound slen = slen + slen div 8 + 2048"

definition bump :: "u32 list \<Rightarrow> nat \<Rightarrow> u32 list" where
  "bump f i = f[i := f ! i + 1]"

definition count_litlen :: "lzsym_t list \<Rightarrow> u32 list" where
  "count_litlen syms = foldl (\<lambda>f s. if litlen s < LZH_MAX_LITLEN then bump f (litlen s) else f)
     (replicate LZH_MAX_LITLEN 0) syms"

definition count_dist :: "lzsym_t list \<Rightarrow> u32 list" where
  "count_dist syms = foldl (\<lambda>f s. if 257 \<le> litlen s \<and> litlen s \<le> 292 then bump f (dist_code s) else f)
     (replicate LZH_MAX_DIST 0) syms"

text \<open>The highest symbol that occurs, from \<open>low\<close> on, delimits the alphabet.\<close>

definition alphabet_size :: "nat \<Rightarrow> nat \<Rightarrow> u32 list \<Rightarrow> nat" where
  "alphabet_size low dflt f =
     (case find (\<lambda>i. f ! i > 0) (rev [low..<length f]) of Some i \<Rightarrow> i + 1 | None \<Rightarrow> dflt)"

definition write_lens :: "nat \<Rightarrow> nat list \<Rightarrow> nat \<Rightarrow> bytes \<Rightarrow> bytes option" where
  "write_lens slack lens dcap out =
     (let cl = cl_encode lens 2048 in
      if cl = [] then
        if length out + 2 + length lens + slack > dcap then None
        else Some (out @ zupt_le16_put (word_of_nat (length lens)) @ map word_of_nat lens)
      else
        if length out + 2 + length cl > dcap then None
        else Some (out @ zupt_le16_put (word_of_nat (length cl) OR 0x8000) @ cl))"

definition put_sym :: "(nat \<times> nat) list \<Rightarrow> (nat \<times> nat) list \<Rightarrow> bitwr_t \<Rightarrow> lzsym_t \<Rightarrow> bitwr_t" where
  "put_sym ll_codes d_codes w s =
     (let w = (if litlen s < length ll_codes \<and> snd (ll_codes ! litlen s) > 0
               then bw_put w (word_of_nat (fst (ll_codes ! litlen s))) (snd (ll_codes ! litlen s)) else w) in
      if 257 \<le> litlen s \<and> litlen s \<le> 292 then
        let li = litlen s - 257; dc = dist_code s;
            w = (if li < LEN_CODES \<and> LEN_EXTRA ! li > 0
                 then bw_put w (word_of_nat (match_len s - LEN_BASE ! li)) (LEN_EXTRA ! li) else w);
            w = (if dc < length d_codes \<and> snd (d_codes ! dc) > 0
                 then bw_put w (word_of_nat (fst (d_codes ! dc))) (snd (d_codes ! dc)) else w) in
        if dc < LZH_MAX_DIST \<and> DIST_EXTRA ! dc > 0
        then bw_put w (word_of_nat (match_dist s - DIST_BASE ! dc)) (DIST_EXTRA ! dc) else w
      else w)"

text \<open>The outcomes of the allocations: of the run length buffer, of the tables and the symbols,
  and of the two code constructions.\<close>

record lzh_alloc =
  al_rle :: bool
  al_tab :: bool
  al_ll :: "bool \<times> bool \<times> bool"
  al_d :: "bool \<times> bool \<times> bool"

definition lzh_preprocess :: "bool \<Rightarrow> bytes \<Rightarrow> bool \<times> bytes" where
  "lzh_preprocess alloc src =
     (if length (List.filter (\<lambda>b. b = 0) src) > length src div 8 \<and> alloc then
        case rle_encode src (length src) of
          Some d \<Rightarrow> if length d > 0 \<and> length d < length src * 9 div 10 then (True, d) else (False, src)
        | None \<Rightarrow> (False, src)
      else (False, src))"

text \<open>The output: flags, the size before the run length coding, the two alphabets with their
  code lengths, and the bit stream. It counts only if it is shorter than the block.\<close>

definition lzh_write :: "bool \<Rightarrow> nat \<Rightarrow> lzsym_t list \<Rightarrow> (nat \<times> nat) list \<Rightarrow> (nat \<times> nat) list \<Rightarrow> nat \<Rightarrow> bytes" where
  "lzh_write rle_on slen syms ll_codes d_codes dcap =
     (let ll_cnt = length ll_codes; d_cnt = length d_codes in
      if 0 \<ge> dcap then []
      else
        let out = [if rle_on then 1 else 0] in
        if rle_on \<and> length out + 4 > dcap then []
        else
          let out = (if rle_on then out @ zupt_le32_put (word_of_nat slen) else out) in
          if length out + 4 > dcap then []
          else
            let out = out @ zupt_le16_put (word_of_nat ll_cnt) @ zupt_le16_put (word_of_nat d_cnt) in
            case write_lens d_cnt (map snd ll_codes) dcap out of
              None \<Rightarrow> []
            | Some out \<Rightarrow>
                (case write_lens 0 (map snd d_codes) dcap out of
                   None \<Rightarrow> []
                 | Some out \<Rightarrow>
                     let bw = bw_flush (foldl (put_sym ll_codes d_codes) (bw_init (dcap - length out)) syms);
                         out = out @ bw_out bw in
                     if length out < slen then out else []))"

definition zupt_lzh_compress :: "lzh_alloc \<Rightarrow> bytes \<Rightarrow> nat \<Rightarrow> int \<Rightarrow> bytes" where
  "zupt_lzh_compress al src dcap level =
     (if src = [] then []
      else
        let level = (if level < 1 then 1 else level);
            level = (if level > 9 then 9 else level);
            cfg = lzh_config level;
            (rle_on, lz_in) = lzh_preprocess (al_rle al) src in
        if \<not> al_tab al then []
        else
          let syms = lzh_parse cfg lz_in 0 \<lparr>hash_table = (\<lambda>_. - 1), chain = (\<lambda>_. 0)\<rparr> [];
              ll_freq = count_litlen syms; d_freq = count_dist syms;
              ll_cnt = alphabet_size 257 257 ll_freq; d_cnt = alphabet_size 0 1 d_freq;
              ll_codes = huff_build (al_ll al) (take ll_cnt ll_freq);
              d_codes = huff_build (al_d al) (take d_cnt d_freq);
              ll_codes = (if snd (ll_codes ! 256) = 0 then ll_codes[256 := (0, 1)] else ll_codes) in
          lzh_write rle_on (length src) syms ll_codes d_codes dcap)"

section \<open>The decompressor\<close>

text \<open>Code lengths of an alphabet of at most \<open>sz\<close> symbols, of which \<open>cnt\<close> are coded: the lengths
  and the rest of the stream.\<close>

definition read_lens :: "nat \<Rightarrow> nat \<Rightarrow> bytes \<Rightarrow> (nat list \<times> bytes) option" where
  "read_lens sz cnt s =
     (if length s < 2 then None
      else
        let hdr = zupt_le16_get s; s = drop 2 s in
        if hdr AND 0x8000 \<noteq> 0 then
          let cl_len = unat (hdr AND 0x7FFF) in
          if cl_len > length s then None
          else map_option (\<lambda>lens. (lens, drop cl_len s)) (cl_decode sz (take cl_len s) cnt)
        else if unat hdr > sz \<or> unat hdr > length s then None
        else if \<exists>b \<in> set (take (unat hdr) s). unat b > LZH_MAX_CODELEN then None
        else Some (map unat (take (unat hdr) s) @ replicate (sz - unat hdr) 0, drop (unat hdr) s))"

definition get_extra :: "bitrd_t \<Rightarrow> nat \<Rightarrow> nat \<times> bitrd_t" where
  "get_extra r n = (if n > 0 then br_get r n else (0, r))"

lemma LEN_BASE_pos: "i < 36 \<Longrightarrow> 3 \<le> LEN_BASE ! i"
  using len_table(3,7) by (metis nth_mem)

function lzh_decode_loop :: "hlut \<Rightarrow> hlut \<Rightarrow> nat \<Rightarrow> bitrd_t \<Rightarrow> bytes \<Rightarrow> bytes" where
  "lzh_decode_loop ll_lut d_lut out_cap br out =
     (case huff_dec br ll_lut of
        (None, br) \<Rightarrow> out
      | (Some s, br) \<Rightarrow>
          if s \<ge> LZH_MAX_LITLEN then out
          else if s < 256 then
            if length out \<ge> out_cap then out
            else lzh_decode_loop ll_lut d_lut out_cap br (out @ [word_of_nat s])
          else if s = 256 then out
          else
            let li = s - 257 in
            if li \<ge> LEN_CODES then out
            else
              let (x, br) = get_extra br (LEN_EXTRA ! li);
                  len = LEN_BASE ! li + x in
              (case huff_dec br d_lut of
                 (None, br) \<Rightarrow> out
               | (Some ds, br) \<Rightarrow>
                   if ds \<ge> LZH_MAX_DIST then out
                   else
                     let (y, br) = get_extra br (DIST_EXTRA ! ds);
                         distance = DIST_BASE ! ds + y in
                     if distance = 0 \<or> distance > length out \<or> length out + len > out_cap then out
                     else lzh_decode_loop ll_lut d_lut out_cap br (lz_copy distance len out)))"
  by pat_completeness auto
termination
proof (relation "measure (\<lambda>(ll_lut, d_lut, out_cap, br, out). out_cap - length out)", goal_cases)
  case (3 ll_lut d_lut out_cap br out x br1 s li p xx br2 len q br3 ds r yy br4 dist)
  then have "3 \<le> len" using LEN_BASE_pos [of li] by simp
  with 3 show ?case by auto
qed auto

declare lzh_decode_loop.simps [simp del]

text \<open>\<open>al_lut\<close>, \<open>al_tmp\<close>: whether the tables and the buffer of the run length decoder are allocated.\<close>

definition zupt_lzh_decompress :: "bool \<Rightarrow> bool \<Rightarrow> bytes \<Rightarrow> nat \<Rightarrow> bytes" where
  "zupt_lzh_decompress al_lut al_tmp src dlen =
     (if length src < 5 then []
      else
        let rle_on = (hd src AND 1 \<noteq> 0);
            s = (if rle_on then drop 5 src else drop 1 src) in
        if length s < 4 then []
        else
          let ll_cnt = unat (zupt_le16_get s); d_cnt = unat (zupt_le16_get (drop 2 s)) in
          if ll_cnt > LZH_MAX_LITLEN \<or> d_cnt > LZH_MAX_DIST then []
          else
            case read_lens LZH_MAX_LITLEN ll_cnt (drop 4 s) of
              None \<Rightarrow> []
            | Some (ll_lens, s) \<Rightarrow>
                (case read_lens LZH_MAX_DIST d_cnt s of
                   None \<Rightarrow> []
                 | Some (d_lens, s) \<Rightarrow>
                     if \<not> al_lut \<or> rle_on \<and> \<not> al_tmp then []
                     else
                       let out = lzh_decode_loop (huff_lut ll_lens ll_cnt) (huff_lut d_lens d_cnt) dlen (br_init s) [] in
                       if rle_on then rle_decode out dlen else out))"

section \<open>Matches\<close>

definition lzh_match :: "bytes \<Rightarrow> nat \<Rightarrow> nat \<times> nat \<Rightarrow> bool" where
  "lzh_match src ip m \<longleftrightarrow>
     1 \<le> snd m \<and> snd m \<le> 1048576 \<and> snd m \<le> ip \<and> fst m \<le> 4322 \<and> ip + fst m \<le> length src \<and>
     (\<forall>i < fst m. src ! (ip - snd m + i) = src ! (ip + i))"

lemma lzh_extend8_spec:
  assumes "\<forall>i<len. src ! (ref + i) = src ! (ip + i)" "len \<le> mx" "ref \<le> ip" "ip + mx \<le> length src"
  shows "lzh_extend8 src ref ip len mx \<le> mx \<and>
    (\<forall>i<lzh_extend8 src ref ip len mx. src ! (ref + i) = src ! (ip + i))"
  using assms
proof (induction src ref ip len mx rule: lzh_extend8.induct)
  case (1 src ref ip len mx)
  show ?case
  proof (cases "len + 8 \<le> mx \<and> take 8 (drop (ref + len) src) = take 8 (drop (ip + len) src)")
    case True
    have "src ! (ref + i) = src ! (ip + i)" if "i < len + 8" for i
    proof (cases "i < len")
      case False
      define j where "j = i - len"
      have j: "i = len + j" "j < 8" using False that by (simp_all add: j_def)
      have "take 8 (drop (ref + len) src) ! j = take 8 (drop (ip + len) src) ! j" using True by simp
      moreover have "ref + len \<le> length src" "ip + len \<le> length src" using True 1(4,5) by auto
      ultimately have "src ! (ref + len + j) = src ! (ip + len + j)" using j(2) by (simp only: nth_take nth_drop)
      then show ?thesis by (simp only: j(1) add.assoc)
    qed (use 1(2) in blast)
    then have "\<forall>i < len + 8. src ! (ref + i) = src ! (ip + i)" by blast
    then show ?thesis using True 1 by (subst (1 2) lzh_extend8.simps) simp
  next
    case False
    then have "lzh_extend8 src ref ip len mx = len" by (subst lzh_extend8.simps) (rule if_not_P)
    then show ?thesis using 1(2,3) by simp
  qed
qed

lemma lzh_candidate_match:
  assumes ip: "ip < length src" "ip < 2 ^ 63" and win: "win \<le> 1048576"
    and st: "lzh_match src ip (snd st) \<or> snd st = (0, 0)"
    and c: "lzh_candidate src ip mc win cnt ref st = (stop, st')"
  shows "lzh_match src ip (snd st') \<or> snd st' = (0, 0)"
proof (cases "st' = st")
  case False
  let ?d = "nat ((int ip - sint ref) mod 2 ^ 64)"
  let ?mx = "min (length src - ip) 4322"
  let ?r = "nat (sint ref)"
  let ?len = "lz_extend src ?r ip (lzh_extend8 src ?r ip 0 ?mx) ?mx"
  have d: "0 \<le> sint ref" "?d \<le> win" "?d \<noteq> 0" "st' = (?len, ?len, ?d)"
    using c False by (auto simp: lzh_candidate_def Let_def split: if_splits)
  have w: "win < 2 ^ 62" using win by simp
  from lz_dist [OF ip(2) d(1,2) w] have r: "?d = ip - ?r" "?r \<le> ip" by auto
  have mx: "ip + ?mx \<le> length src" using ip(1) by linarith
  have e8: "lzh_extend8 src ?r ip 0 ?mx \<le> ?mx \<and>
      (\<forall>i<lzh_extend8 src ?r ip 0 ?mx. src ! (?r + i) = src ! (ip + i))"
    using lzh_extend8_spec [OF _ _ r(2) mx, of 0] by simp
  have e: "?len \<le> ?mx \<and> (\<forall>i<?len. src ! (?r + i) = src ! (ip + i))"
    using lz_extend_spec [of "lzh_extend8 src ?r ip 0 ?mx" src ?r ip ?mx] e8 by blast
  have "?len \<le> 4322" "ip + ?len \<le> length src" using e mx by linarith+
  moreover have "1 \<le> ?d" using d(3) by linarith
  ultimately have "lzh_match src ip (?len, ?d)"
    using d(2) win r e unfolding lzh_match_def by simp
  with d(4) show ?thesis by simp
qed (use st in simp)

lemma lzh_walk_match:
  assumes "ip < length src" "ip < 2 ^ 63" "win \<le> 1048576" "lzh_match src ip (snd st) \<or> snd st = (0, 0)"
  shows "lzh_match src ip (snd (lzh_walk src ip chn mc win n ref st)) \<or> snd (lzh_walk src ip chn mc win n ref st) = (0, 0)"
  using assms
proof (induction src ip chn mc win n ref st rule: lzh_walk.induct)
  case (2 src ip chn mc win n ref st)
  obtain stop st' where c: "lzh_candidate src ip mc win (mc - Suc n) ref st = (stop, st')"
    by (cases "lzh_candidate src ip mc win (mc - Suc n) ref st")
  note m = lzh_candidate_match [OF 2(2-5) c]
  show ?case
  proof (cases stop)
    case False
    with 2(1) [OF c [symmetric] _ 2(2-4) m] c show ?thesis by simp
  qed (use c m in simp)
qed simp

lemma find_match_sound:
  assumes "fst (find_match src ip tabs mc win min_m) \<noteq> 0" "length src < 2 ^ 63" "win \<le> 1048576"
  shows "lzh_match src ip (find_match src ip tabs mc win min_m) \<and> min_m \<le> fst (find_match src ip tabs mc win min_m)"
proof -
  let ?w = "lzh_walk src ip (chain tabs) mc win mc (hash_table tabs (lzh_hash src ip 20)) (min_m - 1, 0, 0)"
  have "ip + 4 \<le> length src" and f: "find_match src ip tabs mc win min_m = snd ?w" "min_m \<le> fst (snd ?w)"
    using assms(1) by (auto simp: find_match_def split: if_splits prod.splits)
  then have "lzh_match src ip (snd ?w) \<or> snd ?w = (0, 0)"
    by (intro lzh_walk_match) (use assms(2,3) in auto)
  then show ?thesis using assms(1) f by auto
qed

definition cfg_ok :: "lzh_config_t \<Rightarrow> bool" where
  "cfg_ok cfg \<longleftrightarrow> win_size cfg \<le> 1048576 \<and> 3 \<le> min_match cfg"

lemma lzh_config_ok: "cfg_ok (lzh_config level)"
  by (simp add: lzh_config_def cfg_ok_def)

lemma cfg_find_sound:
  assumes "fst (cfg_find cfg src ip tabs) \<noteq> 0" "cfg_ok cfg" "length src < 2 ^ 63"
  shows "lzh_match src ip (cfg_find cfg src ip tabs) \<and> 3 \<le> fst (cfg_find cfg src ip tabs)"
  using find_match_sound assms by (fastforce simp: cfg_find_def cfg_ok_def)

section \<open>What the symbols stand for\<close>

definition step_sym :: "bytes \<Rightarrow> lzsym_t \<Rightarrow> bytes" where
  "step_sym out s = (if litlen s < 256 then out @ [word_of_nat (litlen s)] else lz_copy (match_dist s) (match_len s) out)"

definition sym_ok :: "nat \<Rightarrow> lzsym_t \<Rightarrow> bool" where
  "sym_ok n s \<longleftrightarrow> litlen s < 256 \<or>
     s = match_sym (match_len s, match_dist s) \<and> 3 \<le> match_len s \<and> match_len s \<le> 4322 \<and>
     1 \<le> match_dist s \<and> match_dist s \<le> 1048576 \<and> match_dist s \<le> n"

fun run_syms :: "bytes \<Rightarrow> lzsym_t list \<Rightarrow> bytes option" where
  "run_syms out [] = Some out"
| "run_syms out (s # ss) = (if sym_ok (length out) s then run_syms (step_sym out s) ss else None)"

lemma run_syms_append:
  "run_syms out (ss @ ts) = (case run_syms out ss of None \<Rightarrow> None | Some out \<Rightarrow> run_syms out ts)"
  by (induction ss arbitrary: out) auto

lemma step_literal: "ip < length src \<Longrightarrow> run_syms (take ip src) [literal_sym (src ! ip)] = Some (take (ip + 1) src)"
  using unat_lt2p [of "src ! ip"] by (simp add: sym_ok_def literal_sym_def step_sym_def take_Suc_conv_app_nth)

lemma len_to_code_ge: "257 \<le> len_to_code n"
  by (simp add: len_to_code_def split: option.split)

lemma step_match:
  assumes "lzh_match src ip m" "3 \<le> fst m"
  shows "run_syms (take ip src) [match_sym m] = Some (take (ip + fst m) src)"
proof -
  have "lz_copy (snd m) (fst m) (take ip src) = take (ip + fst m) src"
    by (rule lz_copy_take) (use assms(1) in \<open>auto simp: lzh_match_def\<close>)
  moreover have "\<not> len_to_code (fst m) < 256" using len_to_code_ge [of "fst m"] by linarith
  ultimately show ?thesis using assms by (auto simp: sym_ok_def match_sym_def step_sym_def lzh_match_def)
qed

lemma lazy_steps_run:
  assumes "cfg_ok cfg" "length src < 2 ^ 63"
  shows "lazy_steps cfg src ks (ip, m, syms, tabs) = (ip', m', syms', tabs') \<Longrightarrow> ip < length src \<Longrightarrow>
    lzh_match src ip m \<Longrightarrow> 3 \<le> fst m \<Longrightarrow>
    \<exists>ss. syms' = syms @ ss \<and> run_syms (take ip src) ss = Some (take ip' src) \<and> ip' < length src \<and>
      lzh_match src ip' m' \<and> 3 \<le> fst m'"
proof (induction ks arbitrary: ip m syms tabs)
  case (Cons k ks)
  let ?t = "insert_hash src ip (win_size cfg) tabs"
  let ?m2 = "cfg_find cfg src (ip + 1) ?t"
  show ?case
  proof (cases "lazy_depth cfg \<ge> k \<and> ip + 1 < length src \<and> fst ?m2 > fst m + 1")
    case True
    then have rec: "lazy_steps cfg src ks (ip + 1, ?m2, syms @ [literal_sym (src ! ip)], ?t) = (ip', m', syms', tabs')"
      using Cons.prems(1) by (simp add: Let_def)
    have "lzh_match src (ip + 1) ?m2 \<and> 3 \<le> fst ?m2" by (rule cfg_find_sound) (use True assms in auto)
    with Cons.IH [OF rec] True obtain ss where ss: "syms' = (syms @ [literal_sym (src ! ip)]) @ ss"
      "run_syms (take (ip + 1) src) ss = Some (take ip' src)" "ip' < length src" "lzh_match src ip' m'" "3 \<le> fst m'"
      by blast
    moreover have "run_syms (take ip src) ([literal_sym (src ! ip)] @ ss) = Some (take ip' src)"
      unfolding run_syms_append step_literal [OF Cons.prems(2)] using ss(2) by simp
    ultimately show ?thesis by (intro exI [of _ "[literal_sym (src ! ip)] @ ss"]) simp
  next
    case False
    then have "(ip', m', syms', tabs') = (ip, m, syms, tabs) \<or> syms' = syms \<and> ip' = ip \<and> m' = m"
      using Cons.prems(1) by (auto simp: Let_def split: if_splits)
    then show ?thesis using Cons.prems by auto
  qed
qed auto

lemma lzh_parse_run:
  assumes "cfg_ok cfg" "length src < 2 ^ 63"
  shows "ip \<le> length src \<Longrightarrow>
    \<exists>ss. lzh_parse cfg src ip tabs syms = syms @ ss @ [eob_sym] \<and> run_syms (take ip src) ss = Some src"
proof (induction "length src - ip" arbitrary: ip tabs syms rule: less_induct)
  case less
  let ?m1 = "cfg_find cfg src ip tabs"
  consider (eof) "\<not> ip < length src" | (lit) "ip < length src" "fst ?m1 = 0" | (m) "ip < length src" "fst ?m1 \<noteq> 0" by blast
  then show ?case
  proof cases
    case eof
    then show ?thesis using less.prems by (subst lzh_parse.simps) simp
  next
    case lit
    then have "lzh_parse cfg src ip tabs syms =
        lzh_parse cfg src (ip + 1) (insert_hash src ip (win_size cfg) tabs) (syms @ [literal_sym (src ! ip)])"
      by (subst lzh_parse.simps) simp
    moreover obtain ss where "lzh_parse cfg src (ip + 1) (insert_hash src ip (win_size cfg) tabs) (syms @ [literal_sym (src ! ip)]) =
        (syms @ [literal_sym (src ! ip)]) @ ss @ [eob_sym]" "run_syms (take (ip + 1) src) ss = Some src"
      using less.hyps [of "ip + 1"] lit(1) by fastforce
    moreover from this have "run_syms (take ip src) ([literal_sym (src ! ip)] @ ss) = Some src"
      unfolding run_syms_append step_literal [OF lit(1)] by simp
    ultimately show ?thesis by (intro exI [of _ "[literal_sym (src ! ip)] @ ss"]) simp
  next
    case m
    obtain ip' m2 syms' tabs' where lz: "lazy_steps cfg src [1, 2, 3] (ip, ?m1, syms, tabs) = (ip', m2, syms', tabs')"
      by (metis prod_cases4)
    define t2 where "t2 = insert_inside src ip' (ip' + fst m2) (win_size cfg)
        (if lazy_depth cfg < 1 then insert_hash src ip' (win_size cfg) tabs' else tabs')"
    have u: "lzh_parse cfg src ip tabs syms = lzh_parse cfg src (ip' + fst m2) t2 (syms' @ [match_sym m2])"
      using m by (subst lzh_parse.simps) (simp only: Let_def lz prod.case if_True if_False t2_def)
    have "lzh_match src ip ?m1 \<and> 3 \<le> fst ?m1" by (rule cfg_find_sound [OF m(2) assms])
    with lazy_steps_run [OF assms lz m(1)] obtain s1 where s1: "syms' = syms @ s1"
      "run_syms (take ip src) s1 = Some (take ip' src)" "ip' < length src" "lzh_match src ip' m2" "3 \<le> fst m2" by blast
    have "ip \<le> ip'" using lazy_steps_pos [OF lz] by simp
    then have "length src - (ip' + fst m2) < length src - ip" "ip' + fst m2 \<le> length src"
      using m(1) s1(3-5) by (auto simp: lzh_match_def)
    from less.hyps [OF this, of t2 "syms' @ [match_sym m2]"] obtain s2 where
      s2: "lzh_parse cfg src (ip' + fst m2) t2 (syms' @ [match_sym m2]) = (syms' @ [match_sym m2]) @ s2 @ [eob_sym]"
        "run_syms (take (ip' + fst m2) src) s2 = Some src" by blast
    have "run_syms (take ip src) (s1 @ [match_sym m2] @ s2) = Some src"
      by (simp only: run_syms_append s1(2) step_match [OF s1(4,5)] s2(2) option.case)
    then show ?thesis using u s2(1) s1(1) by (intro exI [of _ "s1 @ [match_sym m2] @ s2"]) simp
  qed
qed

section \<open>Writing the bit stream\<close>

text \<open>A writer with its capacity: it has run full, or it holds exactly the bits put so far.\<close>

definition wr_inv :: "bitwr_t \<Rightarrow> bool list \<Rightarrow> nat \<Rightarrow> bool" where
  "wr_inv w bits cap \<longleftrightarrow> bw_cap w = cap \<and> length (bw_out w) \<le> cap \<and>
     (wr_full w \<or> wr_ok w \<and> bw_nb w < 8 \<and> wr_bits w = bits)"

lemma wr_inv_init: "wr_inv (bw_init cap) [] cap"
  using wr_init by (simp add: wr_inv_def wr_ok_def) (simp add: bw_init_def)

lemma wr_inv_put:
  assumes "wr_inv w bits cap" "n \<le> 32" "unat v < 2 ^ n"
  shows "wr_inv (bw_put w v n) (bits @ val_bits n (unat v)) cap"
proof (cases "wr_full w")
  case True
  then show ?thesis using assms(1) by (simp add: wr_inv_def bw_put_def bw_drain.simps wr_full_def)
next
  case False
  then have w: "wr_ok w" "bw_nb w < 8" "wr_bits w = bits" "bw_cap w = cap" using assms(1) by (auto simp: wr_inv_def)
  have "bw_cap (bw_put w v n) = cap" "length (bw_out (bw_put w v n)) \<le> cap"
    using bw_put_keeps [OF w(1) _ assms(2,3)] w(2,4) by auto
  moreover have "wr_full (bw_put w v n) \<or> wr_ok (bw_put w v n) \<and> bw_nb (bw_put w v n) < 8 \<and>
      wr_bits (bw_put w v n) = bits @ val_bits n (unat v)"
    using bw_put_spec [OF w(1) _ assms(2,3)] w(2,3) by auto
  ultimately show ?thesis by (simp add: wr_inv_def)
qed

lemma wr_inv_put_nat:
  assumes "wr_inv w bits cap" "n \<le> 18" "v < 2 ^ n"
  shows "wr_inv (if n > 0 then bw_put w (word_of_nat v) n else w) (bits @ val_bits n v) cap"
proof (cases "n > 0")
  case True
  have "(2 :: nat) ^ n \<le> 2 ^ 18" by (rule power_increasing) (use assms(2) in auto)
  then have "v < 2 ^ 32" using assms(3) by simp
  then have "unat (word_of_nat v :: u32) = v" by (simp add: unat_of_nat)
  then show ?thesis using wr_inv_put [OF assms(1), of n "word_of_nat v"] assms(2,3) True by simp
next
  case False
  then show ?thesis using assms(1) by (simp add: val_bits_def)
qed

definition codes_ok :: "(nat \<times> nat) list \<Rightarrow> bool" where
  "codes_ok cs \<longleftrightarrow> (\<forall>x \<in> set cs. snd x \<le> 15 \<and> fst x < 2 ^ snd x)"

lemma canonical_codes_ok:
  assumes "lens_ok lens" shows "codes_ok (assign_codes (next_codes (len_counts lens)) lens)"
proof -
  have "snd x \<le> 15 \<and> fst x < 2 ^ snd x" if "x \<in> set (assign_codes (next_codes (len_counts lens)) lens)" for x
  proof -
    from that obtain i where i: "i < length lens" "x = assign_codes (next_codes (len_counts lens)) lens ! i"
      by (auto simp: in_set_conv_nth)
    have "lens ! i \<le> 15" using assms i(1) by (simp add: lens_ok_def)
    then show ?thesis using canon_codes [OF assms i(1)] i(2) rev_code_less by auto
  qed
  then show ?thesis by (simp add: codes_ok_def)
qed

definition sym_bits :: "(nat \<times> nat) list \<Rightarrow> (nat \<times> nat) list \<Rightarrow> lzsym_t \<Rightarrow> bool list" where
  "sym_bits ll d s =
     code_bits ll (litlen s) @
     (if 257 \<le> litlen s then
        val_bits (LEN_EXTRA ! (litlen s - 257)) (match_len s - LEN_BASE ! (litlen s - 257)) @
        code_bits d (dist_code s) @
        val_bits (DIST_EXTRA ! dist_code s) (match_dist s - DIST_BASE ! dist_code s)
      else [])"

text \<open>Symbols whose fields lie in the ranges of their classes.\<close>

definition sym_classes :: "(nat \<times> nat) list \<Rightarrow> (nat \<times> nat) list \<Rightarrow> lzsym_t \<Rightarrow> bool" where
  "sym_classes ll d s \<longleftrightarrow> litlen s < length ll \<and> snd (ll ! litlen s) > 0 \<and> litlen s < 293 \<and>
     (257 \<le> litlen s \<longrightarrow> dist_code s < length d \<and> snd (d ! dist_code s) > 0 \<and> dist_code s < 40 \<and>
        LEN_BASE ! (litlen s - 257) \<le> match_len s \<and>
        match_len s - LEN_BASE ! (litlen s - 257) < 2 ^ (LEN_EXTRA ! (litlen s - 257)) \<and>
        DIST_BASE ! dist_code s \<le> match_dist s \<and>
        match_dist s - DIST_BASE ! dist_code s < 2 ^ (DIST_EXTRA ! dist_code s))"

lemma extra_bounds: "i < 36 \<Longrightarrow> LEN_EXTRA ! i \<le> 11" "j < 40 \<Longrightarrow> DIST_EXTRA ! j \<le> 18"
  using len_table(4,6) dist_table(4,6) by (metis nth_mem)+

lemma put_sym_bits:
  assumes "wr_inv w bits cap" "codes_ok ll" "codes_ok d" "sym_classes ll d s"
  shows "wr_inv (put_sym ll d w s) (bits @ sym_bits ll d s) cap"
proof -
  have ll: "snd (ll ! litlen s) \<le> 15" "fst (ll ! litlen s) < 2 ^ snd (ll ! litlen s)"
    using assms(2,4) nth_mem [of "litlen s" ll] by (auto simp: codes_ok_def sym_classes_def simp del: nth_mem)
  define w1 where "w1 = bw_put w (word_of_nat (fst (ll ! litlen s))) (snd (ll ! litlen s))"
  have i1: "wr_inv w1 (bits @ code_bits ll (litlen s)) cap"
    using wr_inv_put_nat [OF assms(1) _ ll(2)] ll(1) assms(4) by (simp add: w1_def code_bits_def sym_classes_def)
  show ?thesis
  proof (cases "257 \<le> litlen s")
    case True
    let ?li = "litlen s - 257"
    let ?dc = "dist_code s"
    have c: "?li < 36" "litlen s \<le> 292" "?dc < 40" "?dc < length d" "snd (d ! ?dc) > 0"
      "match_len s - LEN_BASE ! ?li < 2 ^ (LEN_EXTRA ! ?li)" "match_dist s - DIST_BASE ! ?dc < 2 ^ (DIST_EXTRA ! ?dc)"
      using assms(4) True by (auto simp: sym_classes_def)
    have d: "snd (d ! ?dc) \<le> 15" "fst (d ! ?dc) < 2 ^ snd (d ! ?dc)"
      using assms(3) c(4) nth_mem [of ?dc d] by (auto simp: codes_ok_def simp del: nth_mem)
    define w2 where "w2 = (if LEN_EXTRA ! ?li > 0 then bw_put w1 (word_of_nat (match_len s - LEN_BASE ! ?li)) (LEN_EXTRA ! ?li) else w1)"
    define w3 where "w3 = bw_put w2 (word_of_nat (fst (d ! ?dc))) (snd (d ! ?dc))"
    define w4 where "w4 = (if DIST_EXTRA ! ?dc > 0 then bw_put w3 (word_of_nat (match_dist s - DIST_BASE ! ?dc)) (DIST_EXTRA ! ?dc) else w3)"
    have i2: "wr_inv w2 ((bits @ code_bits ll (litlen s)) @ val_bits (LEN_EXTRA ! ?li) (match_len s - LEN_BASE ! ?li)) cap"
      unfolding w2_def by (rule wr_inv_put_nat [OF i1 _ c(6)]) (use extra_bounds(1) [OF c(1)] in simp)
    have i3: "wr_inv w3 (((bits @ code_bits ll (litlen s)) @ val_bits (LEN_EXTRA ! ?li) (match_len s - LEN_BASE ! ?li)) @
        code_bits d ?dc) cap"
      using wr_inv_put_nat [OF i2 _ d(2)] d(1) c(5) by (simp add: w3_def code_bits_def)
    have "wr_inv w4 ((((bits @ code_bits ll (litlen s)) @ val_bits (LEN_EXTRA ! ?li) (match_len s - LEN_BASE ! ?li)) @
        code_bits d ?dc) @ val_bits (DIST_EXTRA ! ?dc) (match_dist s - DIST_BASE ! ?dc)) cap"
      unfolding w4_def by (rule wr_inv_put_nat [OF i3 extra_bounds(2) [OF c(3)] c(7)])
    moreover have "put_sym ll d w s = w4"
      using True c assms(4) by (simp add: put_sym_def Let_def w1_def w2_def w3_def w4_def sym_classes_def)
    ultimately show ?thesis using True by (simp add: sym_bits_def)
  next
    case False
    then have "put_sym ll d w s = w1" using assms(4) by (simp add: put_sym_def Let_def w1_def sym_classes_def)
    then show ?thesis using i1 False by (simp add: sym_bits_def)
  qed
qed

lemma put_syms_bits:
  "wr_inv w bits cap \<Longrightarrow> codes_ok ll \<Longrightarrow> codes_ok d \<Longrightarrow> \<forall>s \<in> set ss. sym_classes ll d s \<Longrightarrow>
   wr_inv (foldl (put_sym ll d) w ss) (bits @ concat (map (sym_bits ll d) ss)) cap"
proof (induction ss arbitrary: w bits)
  case (Cons s ss)
  then show ?case using Cons.IH [OF put_sym_bits] by simp
qed simp

lemma stream_flush:
  assumes "wr_inv w bits cap" "length (bw_out (bw_flush w)) < cap"
  shows "\<exists>k. bytes_bits (bw_out (bw_flush w)) = bits @ replicate k False"
proof -
  have "\<not> wr_full w"
    using bw_flush_length [of w] assms by (auto simp: wr_inv_def)
  then show ?thesis using bw_flush_spec [of w] assms(1) by (auto simp: wr_inv_def)
qed

section \<open>Reading the bit stream\<close>

lemma get_extra_bits:
  assumes "rd_ok r" "n \<le> 18" "v < 2 ^ n" "rd_bits r = val_bits n v @ rest"
  shows "\<exists>r'. get_extra r n = (v, r') \<and> rd_ok r' \<and> rd_bits r' = rest"
proof (cases "n > 0")
  case True
  obtain x r' where g: "br_get r n = (x, r')" by fastforce
  have "n \<le> 32" using assms(2) by simp
  from br_get_spec [OF assms(1) this g]
  have "rd_ok r'" "rd_bits r' = rest" "x = bits_val (val_bits n v)"
    by (simp_all add: assms(4) peek_val_def)
  then show ?thesis using True g bits_val_val_bits [OF assms(3)] by (auto simp: get_extra_def)
next
  case False
  then show ?thesis using assms by (simp add: get_extra_def val_bits_def)
qed

text \<open>The decoder's tables belong to the code lengths of the encoder.\<close>

definition tables_for :: "nat list \<Rightarrow> nat \<Rightarrow> (nat \<times> nat) list \<Rightarrow> bool" where
  "tables_for lens n cs \<longleftrightarrow> lens_ok (take n lens) \<and> cs = assign_codes (next_codes (len_counts (take n lens))) (take n lens)"

lemma tables_dec:
  assumes "tables_for lens n cs" "i < length cs" "snd (cs ! i) > 0" "rd_ok r" "rd_bits r = code_bits cs i @ rest"
  shows "\<exists>r'. huff_dec r (huff_lut lens n) = (Some i, r') \<and> rd_ok r' \<and> rd_bits r' = rest"
proof -
  have t: "lens_ok (take n lens)" "cs = assign_codes (next_codes (len_counts (take n lens))) (take n lens)"
    using assms(1) by (auto simp: tables_for_def)
  have i: "i < length (take n lens)" using assms(2) unfolding t(2) assign_codes_length .
  have "take n lens ! i > 0" using assms(3) canon_codes [OF t(1) i] t(2) by (auto split: if_splits)
  from huff_dec_code [OF t(1) i this assms(4)] assms(5) t(2) show ?thesis by simp
qed

lemma step_sym_length: "length out \<le> length (step_sym out s)"
  by (simp add: step_sym_def)

lemma run_syms_length: "run_syms out ss = Some out' \<Longrightarrow> length out \<le> length out'"
proof (induction ss arbitrary: out)
  case (Cons s ss)
  then have "length (step_sym out s) \<le> length out'" by (simp split: if_splits)
  with step_sym_length [of out s] show ?case by linarith
qed simp

lemma decode_literal:
  assumes "tables_for ll_lens ll_cnt ll" "sym_classes ll d s" "litlen s < 256" "length (step_sym out s) \<le> cap"
    "rd_ok r" "rd_bits r = sym_bits ll d s @ rest"
  shows "\<exists>r'. lzh_decode_loop (huff_lut ll_lens ll_cnt) D cap r out =
      lzh_decode_loop (huff_lut ll_lens ll_cnt) D cap r' (step_sym out s) \<and> rd_ok r' \<and> rd_bits r' = rest"
proof -
  have "rd_bits r = code_bits ll (litlen s) @ rest" using assms(3,6) by (simp add: sym_bits_def)
  from tables_dec [OF assms(1) _ _ assms(5) this] assms(2) obtain r' where
    r': "huff_dec r (huff_lut ll_lens ll_cnt) = (Some (litlen s), r')" "rd_ok r'" "rd_bits r' = rest"
    by (auto simp: sym_classes_def)
  have "length out < cap" using assms(3,4) by (simp add: step_sym_def)
  then have "lzh_decode_loop (huff_lut ll_lens ll_cnt) D cap r out =
      lzh_decode_loop (huff_lut ll_lens ll_cnt) D cap r' (step_sym out s)"
    using r'(1) assms(3) by (subst lzh_decode_loop.simps) (simp add: step_sym_def)
  then show ?thesis using r' by blast
qed

lemma decode_match:
  assumes "tables_for ll_lens ll_cnt ll" "tables_for d_lens d_cnt d" "sym_classes ll d s" "sym_ok (length out) s"
    "\<not> litlen s < 256" "length (step_sym out s) \<le> cap" "rd_ok r" "rd_bits r = sym_bits ll d s @ rest"
  shows "\<exists>r'. lzh_decode_loop (huff_lut ll_lens ll_cnt) (huff_lut d_lens d_cnt) cap r out =
      lzh_decode_loop (huff_lut ll_lens ll_cnt) (huff_lut d_lens d_cnt) cap r' (step_sym out s) \<and>
      rd_ok r' \<and> rd_bits r' = rest"
proof -
  let ?L = "huff_lut ll_lens ll_cnt" and ?D = "huff_lut d_lens d_cnt"
  have s: "s = match_sym (match_len s, match_dist s)" "3 \<le> match_len s" "1 \<le> match_dist s" "match_dist s \<le> length out"
    using assms(4,5) by (auto simp: sym_ok_def)
  have ge: "257 \<le> litlen s" using s(1) len_to_code_ge by (metis fst_conv lzsym_t.select_convs(1) match_sym_def)
  let ?li = "litlen s - 257" and ?dc = "dist_code s"
  let ?x = "match_len s - LEN_BASE ! ?li" and ?y = "match_dist s - DIST_BASE ! ?dc"
  have c: "litlen s < length ll" "snd (ll ! litlen s) > 0" "litlen s < 293" "?li < 36" "?dc < length d" "snd (d ! ?dc) > 0" "?dc < 40"
    "LEN_BASE ! ?li \<le> match_len s" "?x < 2 ^ (LEN_EXTRA ! ?li)"
    "DIST_BASE ! ?dc \<le> match_dist s" "?y < 2 ^ (DIST_EXTRA ! ?dc)"
    using assms(3) ge by (auto simp: sym_classes_def)
  have b: "rd_bits r = code_bits ll (litlen s) @ val_bits (LEN_EXTRA ! ?li) ?x @ code_bits d ?dc @
      val_bits (DIST_EXTRA ! ?dc) ?y @ rest"
    using assms(8) ge by (simp add: sym_bits_def)
  obtain r1 where r1: "huff_dec r ?L = (Some (litlen s), r1)" "rd_ok r1"
      "rd_bits r1 = val_bits (LEN_EXTRA ! ?li) ?x @ code_bits d ?dc @ val_bits (DIST_EXTRA ! ?dc) ?y @ rest"
    using tables_dec [OF assms(1) c(1,2) assms(7) b] by blast
  have "LEN_EXTRA ! ?li \<le> 18" using extra_bounds(1) [OF c(4)] by simp
  from get_extra_bits [OF r1(2) this c(9) r1(3)] obtain r2 where
    r2: "get_extra r1 (LEN_EXTRA ! ?li) = (?x, r2)" "rd_ok r2" "rd_bits r2 = code_bits d ?dc @ val_bits (DIST_EXTRA ! ?dc) ?y @ rest"
    by blast
  obtain r3 where r3: "huff_dec r2 ?D = (Some ?dc, r3)" "rd_ok r3" "rd_bits r3 = val_bits (DIST_EXTRA ! ?dc) ?y @ rest"
    using tables_dec [OF assms(2) c(5,6) r2(2,3)] by blast
  from get_extra_bits [OF r3(2) extra_bounds(2) [OF c(7)] c(11) r3(3)] obtain r4 where
    r4: "get_extra r3 (DIST_EXTRA ! ?dc) = (?y, r4)" "rd_ok r4" "rd_bits r4 = rest" by blast
  have "1 \<le> DIST_BASE ! ?dc" using dist_table(3,7) c(7) by (metis nth_mem)
  then have "DIST_BASE ! ?dc \<noteq> 0" by simp
  moreover have "length out + match_len s \<le> cap" using assms(5,6) by (simp add: step_sym_def)
  ultimately have "lzh_decode_loop ?L ?D cap r out = lzh_decode_loop ?L ?D cap r4 (lz_copy (match_dist s) (match_len s) out)"
    using r1(1) r2(1) r3(1) r4(1) ge c(3,4,7,8,10) s(3,4)
    by (subst lzh_decode_loop.simps) (simp add: Let_def)
  then show ?thesis using r4 assms(5) by (auto simp: step_sym_def)
qed

lemma decode_syms:
  assumes "tables_for ll_lens ll_cnt ll" "tables_for d_lens d_cnt d"
  shows "run_syms out ss = Some out' \<Longrightarrow> \<forall>s \<in> set ss. sym_classes ll d s \<Longrightarrow> length out' \<le> cap \<Longrightarrow> rd_ok r \<Longrightarrow>
    rd_bits r = concat (map (sym_bits ll d) ss) @ code_bits ll 256 @ rest \<Longrightarrow> 256 < length ll \<Longrightarrow> snd (ll ! 256) > 0 \<Longrightarrow>
    lzh_decode_loop (huff_lut ll_lens ll_cnt) (huff_lut d_lens d_cnt) cap r out = out'"
proof (induction ss arbitrary: out r)
  case Nil
  then obtain r' where "huff_dec r (huff_lut ll_lens ll_cnt) = (Some 256, r')"
    using tables_dec [OF assms(1), of 256 r rest] by auto
  then show ?case using Nil by (subst lzh_decode_loop.simps) simp
next
  case (Cons s ss)
  have s: "sym_ok (length out) s" "run_syms (step_sym out s) ss = Some out'"
    using Cons.prems(1) by (auto split: if_splits)
  have cap: "length (step_sym out s) \<le> cap" using run_syms_length [OF s(2)] Cons.prems(3) by simp
  have cl: "sym_classes ll d s" using Cons.prems(2) by simp
  have b: "rd_bits r = sym_bits ll d s @ concat (map (sym_bits ll d) ss) @ code_bits ll 256 @ rest"
    using Cons.prems(5) by simp
  obtain r' where r': "lzh_decode_loop (huff_lut ll_lens ll_cnt) (huff_lut d_lens d_cnt) cap r out =
      lzh_decode_loop (huff_lut ll_lens ll_cnt) (huff_lut d_lens d_cnt) cap r' (step_sym out s)" "rd_ok r'"
      "rd_bits r' = concat (map (sym_bits ll d) ss) @ code_bits ll 256 @ rest"
    using decode_literal [OF assms(1) cl _ cap Cons.prems(4) b]
      decode_match [OF assms cl s(1) _ cap Cons.prems(4) b] by blast
  show ?case unfolding r'(1)
    by (rule Cons.IH [OF s(2) _ Cons.prems(3) r'(2,3) Cons.prems(6,7)]) (use Cons.prems(2) in simp)
qed

section \<open>Frequencies\<close>

definition bumps :: "(lzsym_t \<Rightarrow> bool) \<Rightarrow> (lzsym_t \<Rightarrow> nat) \<Rightarrow> lzsym_t list \<Rightarrow> u32 list \<Rightarrow> u32 list" where
  "bumps P g ss f = foldl (\<lambda>f s. if P s then bump f (g s) else f) f ss"

lemma bumps_length [simp]: "length (bumps P g ss f) = length f"
  by (induction ss arbitrary: f) (auto simp: bumps_def bump_def)

lemma bumps_nth:
  "i < length f \<Longrightarrow> bumps P g ss f ! i = f ! i + word_of_nat (length (List.filter (\<lambda>s. P s \<and> g s = i) ss))"
proof (induction ss arbitrary: f)
  case (Cons s ss)
  then show ?case using Cons.IH [of "if P s then bump f (g s) else f"]
    by (auto simp: bumps_def bump_def nth_list_update)
qed (simp add: bumps_def)

lemma bumps_pos:
  assumes "i < n" "s \<in> set ss" "P s" "g s = i" "length ss < 2 ^ 32"
  shows "bumps P g ss (replicate n 0) ! i > 0"
proof -
  let ?k = "length (List.filter (\<lambda>s. P s \<and> g s = i) ss)"
  have "?k < 2 ^ 32" using length_filter_le [of "\<lambda>s. P s \<and> g s = i" ss] assms(5) by linarith
  moreover have "List.filter (\<lambda>s. P s \<and> g s = i) ss \<noteq> []" using assms by (auto simp: filter_empty_conv)
  then have "0 < ?k" by blast
  ultimately have "unat (word_of_nat ?k :: u32) \<noteq> 0" by (simp add: unat_of_nat)
  then have "(word_of_nat ?k :: u32) > 0" by (metis unat_0 word_gt_0)
  then show ?thesis using assms(1) by (simp add: bumps_nth)
qed

lemma alphabet_size_bounds:
  assumes "low \<le> dflt" "dflt \<le> length f" "dflt \<le> low + 1"
  shows "dflt \<le> alphabet_size low dflt f \<or> low < alphabet_size low dflt f" "alphabet_size low dflt f \<le> length f"
    "low \<le> i \<Longrightarrow> i < length f \<Longrightarrow> f ! i > 0 \<Longrightarrow> i < alphabet_size low dflt f"
proof -
  let ?P = "\<lambda>i. f ! i > 0"
  have m: "alphabet_size low dflt f = dflt \<and> (\<forall>j. low \<le> j \<and> j < length f \<longrightarrow> \<not> ?P j) \<or>
      (\<exists>k. low \<le> k \<and> k < length f \<and> alphabet_size low dflt f = k + 1 \<and> (\<forall>j. k < j \<and> j < length f \<longrightarrow> \<not> ?P j))"
  proof (cases "find ?P (rev [low..<length f])")
    case None
    then have "\<forall>j. low \<le> j \<and> j < length f \<longrightarrow> \<not> ?P j" by (auto simp: find_None_iff)
    then show ?thesis using None by (simp add: alphabet_size_def)
  next
    case (Some k)
    obtain n where n: "n < length (rev [low..<length f])" "?P (rev [low..<length f] ! n)" "rev [low..<length f] ! n = k"
      "\<forall>j < n. \<not> ?P (rev [low..<length f] ! j)"
      using Some unfolding find_Some_iff by blast
    have len: "length [low..<length f] = length f - low" by simp
    have k: "k = length f - Suc n" "low \<le> k" "k < length f" using n(1,3) by (auto simp: rev_nth)
    have "\<not> ?P j" if "k < j" "j < length f" for j
    proof -
      have "length f - Suc j < n" using that k n(1) by auto
      then have "\<not> ?P (rev [low..<length f] ! (length f - Suc j))" using n(4) by blast
      moreover have "rev [low..<length f] ! (length f - Suc j) = j" using that k by (simp add: rev_nth)
      ultimately show ?thesis by simp
    qed
    then show ?thesis using k Some by (auto simp: alphabet_size_def)
  qed
  show "dflt \<le> alphabet_size low dflt f \<or> low < alphabet_size low dflt f" using m by auto
  show "alphabet_size low dflt f \<le> length f" using m assms(2) by auto
  show "i < alphabet_size low dflt f" if "low \<le> i" "i < length f" "f ! i > 0"
    using m that by (metis Suc_eq_plus1 less_Suc_eq_le not_less)
qed

section \<open>The header\<close>

lemma u16_high_bit:
  assumes "k < 2 ^ 15"
  shows "(word_of_nat k OR 0x8000 :: u16) AND 0x8000 \<noteq> 0" "unat ((word_of_nat k OR 0x8000 :: u16) AND 0x7FFF) = k"
    "(word_of_nat k :: u16) AND 0x8000 = 0" "unat (word_of_nat k :: u16) = k"
proof -
  have u: "unat (word_of_nat k :: u16) = k" using assms by (simp add: unat_of_nat)
  have lo: "\<not> bit (word_of_nat k :: u16) 15" using bit_unat_less [of "word_of_nat k :: u16" 15 15] u assms by auto
  have h: "(0x8000 :: u16) = 2 ^ 15" "(0x7FFF :: u16) = mask 15" by (simp_all add: mask_eq_exp_minus_1)
  show "(word_of_nat k OR 0x8000 :: u16) AND 0x8000 \<noteq> 0"
    unfolding h and_exp_eq_0_iff_not_bit by (simp add: bit_or_iff bit_exp_iff)
  show "(word_of_nat k :: u16) AND 0x8000 = 0" unfolding h and_exp_eq_0_iff_not_bit using lo by simp
  have "(word_of_nat k OR 0x8000 :: u16) AND 0x7FFF = word_of_nat k"
    unfolding h by (rule bit_word_eqI) (use lo in \<open>auto simp: bit_and_iff bit_or_iff bit_exp_iff bit_mask_iff less_Suc_eq numeral_eq_Suc\<close>)
  then show "unat ((word_of_nat k OR 0x8000 :: u16) AND 0x7FFF) = k" using u by simp
  show "unat (word_of_nat k :: u16) = k" by (rule u)
qed

lemma read_write_lens:
  assumes "write_lens slack lens dcap out = Some out'" "\<forall>l \<in> set lens. l \<le> 15" "length lens \<le> sz" "sz \<le> 293"
  shows "\<exists>e. out' = out @ e \<and> read_lens sz (length lens) (e @ r) = Some (lens @ replicate (sz - length lens) 0, r)"
proof -
  let ?cl = "cl_encode lens 2048"
  have n: "length lens < 2 ^ 15" "length lens \<le> 2048" using assms(3,4) by simp_all
  note cl = cl_decode_encode [OF assms(3,2) n(2)]
  have k: "length ?cl < 2 ^ 15" using cl(2) n(1) by simp
  show ?thesis
  proof (cases "?cl = []")
    case True
    let ?e = "zupt_le16_put (word_of_nat (length lens)) @ map word_of_nat lens"
    have "out' = out @ ?e" using assms(1) True by (simp add: write_lens_def Let_def split: if_splits)
    moreover have small: "unat (word_of_nat l :: u8) = l" if "l \<in> set lens" for l
      using assms(2) that unat_word_small [of l] by auto
    have "map unat (map word_of_nat lens :: bytes) = lens" using small by (induction lens) auto
    moreover have "\<not> (\<exists>b \<in> set (map word_of_nat lens :: bytes). unat b > 15)" using small assms(2) by auto
    ultimately show ?thesis using u16_high_bit(3,4) [OF n(1)] assms(3)
      by (intro exI [of _ ?e]) (simp add: read_lens_def Let_def)
  next
    case False
    let ?e = "zupt_le16_put (word_of_nat (length ?cl) OR 0x8000) @ ?cl"
    have "out' = out @ ?e" using assms(1) False by (simp add: write_lens_def Let_def split: if_splits)
    then show ?thesis using u16_high_bit(1,2) [OF k] cl(1)
      by (intro exI [of _ ?e]) (simp add: read_lens_def Let_def)
  qed
qed

section \<open>The codes of a block\<close>

lemma block_code:
  assumes "length f < 2 ^ 15" "n \<le> length f"
  shows "\<exists>lens. huff_build (True, True, True) (take n f) = assign_codes (next_codes (len_counts lens)) lens \<and>
    lens_ok lens \<and> length lens = n \<and> (\<forall>i < n. f ! i > 0 \<longrightarrow> lens ! i > 0) \<and>
    map snd (huff_build (True, True, True) (take n f)) = lens"
proof -
  have "length (take n f) < 2 ^ 15" using assms by simp
  from huff_build_ok [OF this] obtain lens where
    l: "huff_build (True, True, True) (take n f) = assign_codes (next_codes (len_counts lens)) lens"
      "lengths_for (take n f) lens" by blast
  then show ?thesis
    using assms(2) by (intro exI [of _ lens]) (simp add: lengths_for_def snd_assign_codes)
qed

lemma run_syms_count: "run_syms out ss = Some out' \<Longrightarrow> length out + length ss \<le> length out'"
proof (induction ss arbitrary: out)
  case (Cons s ss)
  then have s: "sym_ok (length out) s" "length (step_sym out s) + length ss \<le> length out'" by (auto split: if_splits)
  have "length out + 1 \<le> length (step_sym out s)" using s(1) by (auto simp: step_sym_def sym_ok_def)
  with s(2) show ?case by simp
qed simp

lemma run_syms_ok: "run_syms out ss = Some out' \<Longrightarrow> s \<in> set ss \<Longrightarrow> \<exists>n. sym_ok n s"
  by (induction ss arbitrary: out) (auto split: if_splits)

lemma syms_classes:
  assumes "sym_ok n s" "s \<in> set syms" "length syms < 2 ^ 32"
    "\<And>i. i < ll_cnt \<Longrightarrow> count_litlen syms ! i > 0 \<Longrightarrow> snd (ll ! i) > 0" "length ll = ll_cnt"
    "ll_cnt = alphabet_size 257 257 (count_litlen syms)"
    "\<And>i. i < d_cnt \<Longrightarrow> count_dist syms ! i > 0 \<Longrightarrow> snd (d ! i) > 0" "length d = d_cnt"
    "d_cnt = alphabet_size 0 1 (count_dist syms)"
  shows "sym_classes ll d s"
proof -
  have cl: "count_litlen syms = bumps (\<lambda>s. litlen s < 293) litlen syms (replicate 293 0)"
    by (simp only: count_litlen_def bumps_def)
  have cd: "count_dist syms = bumps (\<lambda>s. 257 \<le> litlen s \<and> litlen s \<le> 292) dist_code syms (replicate 40 0)"
    by (simp only: count_dist_def bumps_def)
  have len: "length (count_litlen syms) = 293" "length (count_dist syms) = 40" unfolding cl cd by simp_all
  have m: "litlen s < 293 \<and> (257 \<le> litlen s \<longrightarrow> dist_code s < 40 \<and>
      LEN_BASE ! (litlen s - 257) \<le> match_len s \<and>
      match_len s - LEN_BASE ! (litlen s - 257) < 2 ^ (LEN_EXTRA ! (litlen s - 257)) \<and>
      DIST_BASE ! dist_code s \<le> match_dist s \<and>
      match_dist s - DIST_BASE ! dist_code s < 2 ^ (DIST_EXTRA ! dist_code s))"
  proof (cases "litlen s < 256")
    case False
    then have s: "s = match_sym (match_len s, match_dist s)" "3 \<le> match_len s" "match_len s \<le> 4322"
      "1 \<le> match_dist s" "match_dist s \<le> 1048576"
      using assms(1) by (auto simp: sym_ok_def)
    have f: "litlen s = len_to_code (match_len s)" "dist_code s = dist_to_code (match_dist s)"
      using s(1) by (metis fst_conv snd_conv lzsym_t.select_convs(1,2) match_sym_def)+
    from len_to_code [OF s(2,3)] dist_to_code [OF s(4,5)] show ?thesis unfolding f by auto
  qed simp
  have "count_litlen syms ! litlen s > 0"
    unfolding cl by (rule bumps_pos [OF _ assms(2)]) (use m assms(3) in auto)
  moreover have "litlen s < ll_cnt"
  proof (cases "257 \<le> litlen s")
    case True
    then show ?thesis unfolding assms(6)
      using alphabet_size_bounds(3) [of 257 257 "count_litlen syms" "litlen s"] len m calculation by auto
  next
    case False
    then show ?thesis unfolding assms(6)
      using alphabet_size_bounds(1) [of 257 257 "count_litlen syms"] len by auto
  qed
  moreover have "dist_code s < d_cnt \<and> snd (d ! dist_code s) > 0" if "257 \<le> litlen s"
  proof -
    have "count_dist syms ! dist_code s > 0"
      unfolding cd by (rule bumps_pos [OF _ assms(2)]) (use m that assms(3) in auto)
    moreover from this have "dist_code s < d_cnt" unfolding assms(9)
      using alphabet_size_bounds(3) [of 0 1 "count_dist syms" "dist_code s"] len m that by auto
    ultimately show ?thesis using assms(7) by blast
  qed
  ultimately show ?thesis using m assms(4,5,8) by (auto simp: sym_classes_def)
qed

section \<open>The round trip\<close>

lemma lzh_preprocess_cases:
  assumes "lzh_preprocess al src = (rle_on, x)" "src \<noteq> []"
  shows "if rle_on then rle_encode src (length src) = Some x \<and> length x < length src else x = src"
  using assms by (auto simp: lzh_preprocess_def split: if_splits option.splits)

definition lzh_head :: "bool \<Rightarrow> nat \<Rightarrow> bytes" where
  "lzh_head rle_on slen = (if rle_on then [1] @ zupt_le32_put (word_of_nat slen) else [0])"

text \<open>What is written when the output counts.\<close>

lemma lzh_write_form:
  assumes "lzh_write rle_on slen syms ll d dcap \<noteq> []" "slen \<le> dcap" "codes_ok ll" "codes_ok d"
    "\<forall>s \<in> set syms. sym_classes ll d s"
  shows "\<exists>o1 o2 w k. write_lens (length d) (map snd ll) dcap (lzh_head rle_on slen @
        zupt_le16_put (word_of_nat (length ll)) @ zupt_le16_put (word_of_nat (length d))) = Some o1 \<and>
      write_lens 0 (map snd d) dcap o1 = Some o2 \<and>
      bytes_bits w = concat (map (sym_bits ll d) syms) @ replicate k False \<and>
      lzh_write rle_on slen syms ll d dcap = o2 @ w \<and> length (o2 @ w) < slen"
proof -
  let ?h = "lzh_head rle_on slen @ zupt_le16_put (word_of_nat (length ll)) @ zupt_le16_put (word_of_nat (length d))"
  let ?w = "\<lambda>o2. bw_out (bw_flush (foldl (put_sym ll d) (bw_init (dcap - length o2)) syms))"
  have "lzh_write rle_on slen syms ll d dcap = (if dcap = 0 \<or> rle_on \<and> 5 > dcap \<or> length (lzh_head rle_on slen) + 4 > dcap then []
      else case write_lens (length d) (map snd ll) dcap ?h of None \<Rightarrow> []
        | Some o1 \<Rightarrow> (case write_lens 0 (map snd d) dcap o1 of None \<Rightarrow> []
            | Some o2 \<Rightarrow> if length (o2 @ ?w o2) < slen then o2 @ ?w o2 else []))"
    by (simp add: lzh_write_def Let_def lzh_head_def split: option.splits)
  with assms(1) obtain o1 o2 where o: "write_lens (length d) (map snd ll) dcap ?h = Some o1"
      "write_lens 0 (map snd d) dcap o1 = Some o2" "length (o2 @ ?w o2) < slen"
      "lzh_write rle_on slen syms ll d dcap = o2 @ ?w o2"
    by (auto split: if_splits option.splits)
  have "wr_inv (foldl (put_sym ll d) (bw_init (dcap - length o2)) syms)
      ([] @ concat (map (sym_bits ll d) syms)) (dcap - length o2)"
    by (rule put_syms_bits [OF wr_inv_init assms(3-5)])
  moreover have "length (?w o2) < dcap - length o2" using o(3) assms(2) by simp
  ultimately obtain k where "bytes_bits (?w o2) = ([] @ concat (map (sym_bits ll d) syms)) @ replicate k False"
    using stream_flush by blast
  then show ?thesis using o by (intro exI [of _ o1] exI [of _ o2] exI [of _ "?w o2"] exI [of _ k]) simp
qed

text \<open>What is read back.\<close>

lemma lzh_read_form:
  assumes "length ll_lens \<le> 293" "length d_lens \<le> 40" "2 \<le> length e1"
    "\<And>r. read_lens 293 (length ll_lens) (e1 @ r) = Some (ll_lens @ replicate (293 - length ll_lens) 0, r)"
    "\<And>r. read_lens 40 (length d_lens) (e2 @ r) = Some (d_lens @ replicate (40 - length d_lens) 0, r)"
  shows "zupt_lzh_decompress True True (lzh_head rle_on slen @ zupt_le16_put (word_of_nat (length ll_lens)) @
      zupt_le16_put (word_of_nat (length d_lens)) @ e1 @ e2 @ w) n =
    (let out = lzh_decode_loop (huff_lut (ll_lens @ replicate (293 - length ll_lens) 0) (length ll_lens))
        (huff_lut (d_lens @ replicate (40 - length d_lens) 0) (length d_lens)) n (br_init w) [] in
     if rle_on then rle_decode out n else out)"
proof -
  have u: "unat (word_of_nat (length ll_lens) :: u16) = length ll_lens" "unat (word_of_nat (length d_lens) :: u16) = length d_lens"
    using assms(1,2) by (auto simp: unat_of_nat)
  let ?s = "zupt_le16_put (word_of_nat (length ll_lens)) @ zupt_le16_put (word_of_nat (length d_lens)) @ e1 @ e2 @ w"
  let ?src = "lzh_head rle_on slen @ ?s"
  have len: "\<not> length ?src < 5" "\<not> length ?s < 4" using assms(3) by (auto simp: lzh_head_def)
  have fl: "(hd ?src AND 1 \<noteq> 0) = rle_on" "(if rle_on then drop 5 ?src else drop 1 ?src) = ?s"
    by (auto simp: lzh_head_def)
  have cnt: "unat (zupt_le16_get ?s) = length ll_lens" "unat (zupt_le16_get (drop 2 ?s)) = length d_lens" "drop 4 ?s = e1 @ e2 @ w"
    using u by simp_all
  show ?thesis
    unfolding zupt_lzh_decompress_def Let_def fl cnt assms(4,5) prod.case option.case if_not_P [OF len(1)] if_not_P [OF len(2)]
    using assms(1,2) by simp
qed


text \<open>The codes of the symbols of a block.\<close>

lemma block_codes:
  assumes "run_syms [] ss = Some x" "length x < 2 ^ 32 - 1" "syms = ss @ [eob_sym]"
    "ll = huff_build (True, True, True) (take (alphabet_size 257 257 (count_litlen syms)) (count_litlen syms))"
    "d = huff_build (True, True, True) (take (alphabet_size 0 1 (count_dist syms)) (count_dist syms))"
  obtains ll_lens d_lens where
    "ll = assign_codes (next_codes (len_counts ll_lens)) ll_lens" "d = assign_codes (next_codes (len_counts d_lens)) d_lens"
    "lens_ok ll_lens" "lens_ok d_lens" "length ll_lens \<le> 293" "length d_lens \<le> 40"
    "256 < length ll_lens" "ll_lens ! 256 > 0" "\<forall>s \<in> set syms. sym_classes ll d s"
proof -
  define lc where "lc = alphabet_size 257 257 (count_litlen syms)"
  define dc where "dc = alphabet_size 0 1 (count_dist syms)"
  have lens: "length (count_litlen syms) = 293" "length (count_dist syms) = 40"
    using bumps_length [of "\<lambda>s. litlen s < 293" litlen syms "replicate 293 0"]
      bumps_length [of "\<lambda>s. 257 \<le> litlen s \<and> litlen s \<le> 292" dist_code syms "replicate 40 0"]
    by (simp_all only: count_litlen_def count_dist_def bumps_def length_replicate)
  have cnt: "lc \<le> 293" "dc \<le> 40" "256 < lc"
    using alphabet_size_bounds(1,2) [of 257 257 "count_litlen syms"] alphabet_size_bounds(2) [of 0 1 "count_dist syms"] lens
    by (auto simp: lc_def dc_def)
  have ll: "ll = huff_build (True, True, True) (take lc (count_litlen syms))"
    and d: "d = huff_build (True, True, True) (take dc (count_dist syms))"
    by (simp_all only: assms(4,5) lc_def dc_def)
  have b: "length (count_litlen syms) < 2 ^ 15" "lc \<le> length (count_litlen syms)"
    "length (count_dist syms) < 2 ^ 15" "dc \<le> length (count_dist syms)" using lens cnt by simp_all
  obtain ll_lens where
    L: "ll = assign_codes (next_codes (len_counts ll_lens)) ll_lens" "lens_ok ll_lens" "length ll_lens = lc"
      "\<forall>i < lc. count_litlen syms ! i > 0 \<longrightarrow> ll_lens ! i > 0" "map snd ll = ll_lens"
    using block_code [OF b(1,2), folded ll] by blast
  obtain d_lens where
    D: "d = assign_codes (next_codes (len_counts d_lens)) d_lens" "lens_ok d_lens" "length d_lens = dc"
      "\<forall>i < dc. count_dist syms ! i > 0 \<longrightarrow> d_lens ! i > 0" "map snd d = d_lens"
    using block_code [OF b(3,4), folded d] by blast
  have lll: "length ll = lc" "length d = dc" using L(1,3) D(1,3) by simp_all
  have sl: "snd (ll ! i) = ll_lens ! i" if "i < lc" for i using L(5) lll(1) that nth_map [of i ll snd] by simp
  have sd: "snd (d ! i) = d_lens ! i" if "i < dc" for i using D(5) lll(2) that nth_map [of i d snd] by simp
  have ns: "length syms < 2 ^ 32" using run_syms_count [OF assms(1)] assms(2,3) by simp
  have cls: "sym_classes ll d s" if s: "s \<in> set ss" for s
  proof -
    obtain n where n: "sym_ok n s" using run_syms_ok [OF assms(1) s] by blast
    have "s \<in> set syms" using s assms(3) by simp
    show ?thesis
      by (rule syms_classes [OF n \<open>s \<in> set syms\<close> ns _ lll(1) lc_def _ lll(2) dc_def])
        (simp_all add: sl sd L(4) D(4))
  qed
  have "count_litlen syms ! 256 > 0"
    unfolding count_litlen_def bumps_def [symmetric]
    by (rule bumps_pos [where s = eob_sym, OF _ _ _ _ ns]) (simp_all add: assms(3) eob_sym_def)
  then have eob: "ll_lens ! 256 > 0" using L(4) cnt(3) by blast
  have "sym_classes ll d eob_sym"
    using eob cnt(3) sl [OF cnt(3)] lll(1) by (simp add: sym_classes_def eob_sym_def)
  then have all: "\<forall>s \<in> set syms. sym_classes ll d s" using cls assms(3) by auto
  show ?thesis
    by (rule that [OF L(1) D(1) L(2) D(2) _ _ _ eob all]) (use cnt L(3) D(3) in simp_all)
qed

lemma lzh_roundtrip:
  assumes "zupt_lzh_compress al src dcap level \<noteq> []" "al_ll al = (True, True, True)" "al_d al = (True, True, True)"
    "length src \<le> dcap" "length src < 2 ^ 32 - 1" "length src \<le> n"
  shows "zupt_lzh_decompress True True (zupt_lzh_compress al src dcap level) n = src"
proof -
  have ne: "src \<noteq> []" using assms(1) by (auto simp: zupt_lzh_compress_def)
  have tab: "al_tab al" using assms(1) by (auto simp: zupt_lzh_compress_def Let_def split: prod.splits if_splits)
  obtain rle_on x where pre: "lzh_preprocess (al_rle al) src = (rle_on, x)" by fastforce
  define level' where "level' = (let level = (if level < 1 then 1 else level) in if level > 9 then 9 else level)"
  define syms where "syms = lzh_parse (lzh_config level') x 0 \<lparr>hash_table = (\<lambda>_. - 1), chain = (\<lambda>_. 0)\<rparr> []"
  define ll where "ll = huff_build (True, True, True) (take (alphabet_size 257 257 (count_litlen syms)) (count_litlen syms))"
  define d where "d = huff_build (True, True, True) (take (alphabet_size 0 1 (count_dist syms)) (count_dist syms))"
  have lx: "length x \<le> length src" using lzh_preprocess_cases [OF pre ne] by (auto split: if_splits)
  have x63: "length x < 2 ^ 63" using lx assms(5) by simp
  obtain ss where ss: "syms = ss @ [eob_sym]" "run_syms [] ss = Some x"
    using lzh_parse_run [OF lzh_config_ok x63, of 0 level' _ "[]"] unfolding syms_def by (metis append_Nil le0 take0 take_0)
  have x32: "length x < 2 ^ 32 - 1" using lx assms(5) by linarith
  obtain ll_lens d_lens where
    code: "ll = assign_codes (next_codes (len_counts ll_lens)) ll_lens" "d = assign_codes (next_codes (len_counts d_lens)) d_lens"
    and ok: "lens_ok ll_lens" "lens_ok d_lens" "length ll_lens \<le> 293" "length d_lens \<le> 40"
    and eob: "256 < length ll_lens" "ll_lens ! 256 > 0" and cls: "\<forall>s \<in> set syms. sym_classes ll d s"
    using block_codes [OF ss(2) x32 ss(1) ll_def d_def] by blast
  have s256: "snd (ll ! 256) > 0" using canon_codes [OF ok(1) eob(1)] eob(2) by (simp add: code)
  then have c: "zupt_lzh_compress al src dcap level = lzh_write rle_on (length src) syms ll d dcap"
    using ne tab unfolding zupt_lzh_compress_def Let_def pre assms(2,3) syms_def ll_def d_def level'_def by simp
  have lens: "map snd ll = ll_lens" "map snd d = d_lens" "length ll = length ll_lens" "length d = length d_lens"
    by (simp_all add: code snd_assign_codes)
  have cok: "codes_ok ll" "codes_ok d" using canonical_codes_ok ok code by simp_all
  obtain o1 o2 w k where o: "write_lens (length d_lens) ll_lens dcap (lzh_head rle_on (length src) @
        zupt_le16_put (word_of_nat (length ll_lens)) @ zupt_le16_put (word_of_nat (length d_lens))) = Some o1"
      "write_lens 0 d_lens dcap o1 = Some o2"
      "bytes_bits w = concat (map (sym_bits ll d) syms) @ replicate k False"
      "zupt_lzh_compress al src dcap level = o2 @ w"
    using lzh_write_form [OF assms(1) [unfolded c] assms(4) cok cls] unfolding lens c by blast
  have le15: "\<forall>l \<in> set ll_lens. l \<le> 15" "\<forall>l \<in> set d_lens. l \<le> 15" using ok by (auto simp: lens_ok_def)
  obtain e1 where e1: "o1 = (lzh_head rle_on (length src) @ zupt_le16_put (word_of_nat (length ll_lens)) @
      zupt_le16_put (word_of_nat (length d_lens))) @ e1"
    using read_write_lens [OF o(1) le15(1) ok(3) order_refl] by blast
  have r1: "read_lens 293 (length ll_lens) (e1 @ r) = Some (ll_lens @ replicate (293 - length ll_lens) 0, r)" for r
    using read_write_lens [OF o(1) le15(1) ok(3) order_refl, of r] unfolding e1 same_append_eq by blast
  have f40: "(40 :: nat) \<le> 293" by simp
  obtain e2 where e2: "o2 = o1 @ e2" using read_write_lens [OF o(2) le15(2) ok(4) f40] by blast
  have r2: "read_lens 40 (length d_lens) (e2 @ r) = Some (d_lens @ replicate (40 - length d_lens) 0, r)" for r
    using read_write_lens [OF o(2) le15(2) ok(4) f40, of r] unfolding e2 same_append_eq by blast
  have "2 \<le> length e1" using r1 [of "[]"] by (auto simp: read_lens_def split: if_splits)
  from lzh_read_form [OF ok(3,4) this r1 r2, of rle_on "length src" w n]
  have dec: "zupt_lzh_decompress True True (o2 @ w) n =
    (let out = lzh_decode_loop (huff_lut (ll_lens @ replicate (293 - length ll_lens) 0) (length ll_lens))
        (huff_lut (d_lens @ replicate (40 - length d_lens) 0) (length d_lens)) n (br_init w) [] in
     if rle_on then rle_decode out n else out)"
    unfolding e1 e2 by simp
  have "sym_bits ll d eob_sym = code_bits ll 256" by (simp add: sym_bits_def eob_sym_def)
  then have bits: "rd_bits (br_init w) = concat (map (sym_bits ll d) ss) @ code_bits ll 256 @ replicate k False"
    using o(3) rd_init(2) [of w] ss(1) by simp
  have "lzh_decode_loop (huff_lut (ll_lens @ replicate (293 - length ll_lens) 0) (length ll_lens))
        (huff_lut (d_lens @ replicate (40 - length d_lens) 0) (length d_lens)) n (br_init w) [] = x"
    by (rule decode_syms [OF _ _ ss(2) _ _ rd_init(1) bits])
      (use ok code cls ss(1) lx assms(6) s256 eob(1) lens(3) in \<open>auto simp: tables_for_def\<close>)
  then show ?thesis
    using lzh_preprocess_cases [OF pre ne] rle_decode_encode [of src "length src" x n] assms(6) unfolding o(4) dec
    by (cases rle_on) simp_all
qed

section \<open>Bounds\<close>

lemma lzh_decode_loop_length:
  "length out \<le> cap \<Longrightarrow> length (lzh_decode_loop L D cap r out) \<le> cap"
proof (induction L D cap r out rule: lzh_decode_loop.induct)
  case (1 L D cap br out)
  obtain s r1 where h: "huff_dec br L = (s, r1)" by fastforce
  show ?case
  proof (cases s)
    case None
    then show ?thesis using 1(3) h by (subst lzh_decode_loop.simps) simp
  next
    case (Some c)
    obtain x r2 where x: "get_extra r1 (LEN_EXTRA ! (c - 257)) = (x, r2)" by fastforce
    obtain ds r3 where d: "huff_dec r2 D = (ds, r3)" by fastforce
    obtain y r4 where y: "get_extra r3 (DIST_EXTRA ! the ds) = (y, r4)" by fastforce
    note IH = 1(1) [OF h [symmetric] Some] 1(2) [OF h [symmetric] Some _ _ _ refl _ x [symmetric] refl refl d [symmetric] _ _ _ refl refl]
    show ?thesis
      using 1(3) IH h Some x d y
      by (subst lzh_decode_loop.simps) (auto simp: Let_def split: option.split)
  qed
qed

lemma rle_decode_loop_length: "length d \<le> dc \<Longrightarrow> length (rle_decode_loop dc s d) \<le> dc"
  by (induction dc s d rule: rle_decode_loop.induct) auto

lemma zupt_lzh_decompress_bound: "length (zupt_lzh_decompress a b s n) \<le> n"
  by (auto simp: zupt_lzh_decompress_def Let_def rle_decode_def
      intro: lzh_decode_loop_length rle_decode_loop_length split: option.split)

lemma val_bits_sym: "codes_ok ll \<Longrightarrow> codes_ok d \<Longrightarrow> sym_classes ll d s \<Longrightarrow> length (sym_bits ll d s) \<le> 59"
proof -
  assume a: "codes_ok ll" "codes_ok d" "sym_classes ll d s"
  have "snd (ll ! litlen s) \<le> 15" using a(1,3) nth_mem [of "litlen s" ll] by (auto simp: codes_ok_def sym_classes_def simp del: nth_mem)
  moreover have "257 \<le> litlen s \<Longrightarrow> snd (d ! dist_code s) \<le> 15"
    using a(2,3) nth_mem [of "dist_code s" d] by (auto simp: codes_ok_def sym_classes_def simp del: nth_mem)
  moreover have "257 \<le> litlen s \<Longrightarrow> LEN_EXTRA ! (litlen s - 257) \<le> 11 \<and> DIST_EXTRA ! dist_code s \<le> 18"
    using a(3) extra_bounds by (auto simp: sym_classes_def)
  ultimately show ?thesis by (auto simp: sym_bits_def code_bits_def)
qed

lemma write_lens_length:
  assumes "length out + 2 + length lens + slack \<le> dcap" "\<forall>l \<in> set lens. l \<le> 15" "length lens \<le> 293"
  shows "\<exists>out'. write_lens slack lens dcap out = Some out' \<and> length out' \<le> length out + 2 + length lens"
  using assms cl_decode_encode(2) [of lens 293 2048] by (auto simp: write_lens_def Let_def)

lemma length_bits_bytes: "bytes_bits w = bs @ replicate k False \<Longrightarrow> k < 8 \<Longrightarrow> 8 * length w < length bs + 8"
  by (metis add_less_cancel_left length_append length_bytes_bits length_replicate)

lemma bw_drain_count: "8 * length (bw_out (bw_drain w)) + bw_nb (bw_drain w) = 8 * length (bw_out w) + bw_nb w"
proof (induction w rule: bw_drain.induct)
  case (1 w)
  show ?case
  proof (cases "bw_nb w \<ge> 8 \<and> length (bw_out w) < bw_cap w")
    case True
    then show ?thesis using 1 [OF True] by (subst (1 2) bw_drain.simps) simp
  next
    case False
    then have "bw_drain w = w" by (subst bw_drain.simps) (rule if_not_P)
    then show ?thesis by simp
  qed
qed

definition wr_count :: "bitwr_t \<Rightarrow> nat" where "wr_count w = 8 * length (bw_out w) + bw_nb w"

lemma bw_put_count: "wr_count (bw_put w v n) = wr_count w + n"
  using bw_drain_count by (simp add: wr_count_def bw_put_def)

lemma put_sym_count: "sym_classes ll d s \<Longrightarrow> wr_count (put_sym ll d w s) = wr_count w + length (sym_bits ll d s)"
  by (auto simp: put_sym_def Let_def sym_classes_def bw_put_count sym_bits_def code_bits_def)

lemma put_syms_count:
  "\<forall>s \<in> set ss. sym_classes ll d s \<Longrightarrow>
   wr_count (foldl (put_sym ll d) w ss) = wr_count w + length (concat (map (sym_bits ll d) ss))"
  by (induction ss arbitrary: w) (simp_all add: put_sym_count)

text \<open>A parse into few symbols is written in full.\<close>

lemma lzh_write_total:
  assumes "length ll \<le> 293" "length d \<le> 40" "codes_ok ll" "codes_ok d" "\<forall>s \<in> set syms. sym_classes ll d s"
    "400 + 8 * length syms < slen" "slen \<le> dcap"
  shows "lzh_write rle_on slen syms ll d dcap \<noteq> []"
proof -
  let ?h = "lzh_head rle_on slen @ zupt_le16_put (word_of_nat (length ll)) @ zupt_le16_put (word_of_nat (length d))"
  have h: "length ?h \<le> 9" by (simp add: lzh_head_def)
  have l15: "\<forall>l \<in> set (map snd ll). l \<le> 15" "\<forall>l \<in> set (map snd d). l \<le> 15"
    using assms(3,4) by (auto simp: codes_ok_def)
  obtain o1 where o1: "write_lens (length d) (map snd ll) dcap ?h = Some o1" "length o1 \<le> length ?h + 2 + length ll"
    using write_lens_length [of ?h "map snd ll" "length d" dcap] h assms(1,2,6,7) l15(1) by auto
  obtain o2 where o2: "write_lens 0 (map snd d) dcap o1 = Some o2" "length o2 \<le> length o1 + 2 + length d"
    using write_lens_length [of o1 "map snd d" 0 dcap] o1(2) h assms(1,2,6,7) l15(2) by auto
  let ?w = "foldl (put_sym ll d) (bw_init (dcap - length o2)) syms"
  let ?bits = "concat (map (sym_bits ll d) syms)"
  have inv: "wr_inv ?w ([] @ ?bits) (dcap - length o2)"
    by (rule put_syms_bits [OF wr_inv_init assms(3-5)])
  have nb: "length ?bits \<le> 59 * length syms"
    using assms(5) val_bits_sym [OF assms(3,4)] by (induction syms) fastforce+
  have room: "360 + 8 * length syms < slen" "length o2 \<le> 346" using assms(6) o2(2) o1(2) h assms(1,2) by auto
  have "wr_count ?w = length ?bits"
    using put_syms_count [OF assms(5)] by (simp add: wr_count_def bw_init_def)
  then have "8 * length (bw_out ?w) \<le> 59 * length syms" using nb by (simp add: wr_count_def)
  then have "\<not> wr_full ?w" using inv room assms(7) by (auto simp: wr_inv_def wr_full_def)
  then have w: "wr_ok ?w" "bw_nb ?w < 8" "wr_bits ?w = ?bits" using inv by (auto simp: wr_inv_def)
  obtain k where "k < 8" "bytes_bits (bw_out (bw_flush ?w)) = ?bits @ replicate k False"
    using bw_flush_spec [OF w(1,2) \<open>\<not> wr_full ?w\<close>] w(3) by auto
  then have "8 * length (bw_out (bw_flush ?w)) < 59 * length syms + 8"
    using length_bits_bytes nb by fastforce
  then have len: "length (o2 @ bw_out (bw_flush ?w)) < slen" using room by simp
  have "dcap \<noteq> 0" "\<not> (rle_on \<and> 5 > dcap)" "\<not> length (lzh_head rle_on slen) + 4 > dcap"
    using h room assms(7) by auto
  then have "lzh_write rle_on slen syms ll d dcap = o2 @ bw_out (bw_flush ?w)"
    using o1(1) o2(1) len by (simp add: lzh_write_def Let_def lzh_head_def split: if_splits)
  moreover have "length o2 > 0"
  proof -
    have "length o1 \<ge> 2" using o1(1) by (auto simp: write_lens_def Let_def split: if_splits)
    then show ?thesis using o2(1) by (auto simp: write_lens_def Let_def split: if_splits)
  qed
  ultimately show ?thesis by auto
qed

lemma lz_extend_all:
  "len \<le> mx \<Longrightarrow> \<forall>i < mx. src ! (ref + i) = src ! (ip + i) \<Longrightarrow> lz_extend src ref ip len mx = mx"
proof (induction src ref ip len mx rule: lz_extend.induct)
  case (1 src ref ip len mx)
  then show ?case by (subst lz_extend.simps) (cases "len = mx", auto simp: Suc_le_eq)
qed

lemma lzh_extend8_le: "len \<le> mx \<Longrightarrow> lzh_extend8 src ref ip len mx \<le> mx"
proof (induction src ref ip len mx rule: lzh_extend8.induct)
  case (1 src ref ip len mx)
  show ?case
  proof (cases "len + 8 \<le> mx \<and> take 8 (drop (ref + len) src) = take 8 (drop (ip + len) src)")
    case True
    then show ?thesis using 1(1) [OF True] by (subst lzh_extend8.simps) simp
  next
    case False
    then have "lzh_extend8 src ref ip len mx = len" by (subst lzh_extend8.simps) (rule if_not_P)
    then show ?thesis using 1(2) by simp
  qed
qed

text \<open>A block of one repeated byte is a literal and a match.\<close>

lemma parse_repeated:
  assumes "lzh_config 1 = cfg" "T = \<lparr>hash_table = (\<lambda>_. - 1), chain = (\<lambda>_. 0)\<rparr>"
  shows "lzh_parse cfg (replicate 1000 7) 0 T [] = [literal_sym 7, match_sym (999, 1), eob_sym]"
proof -
  let ?src = "replicate 1000 7 :: bytes"
  define h where "h = lzh_hash ?src 0 20"
  have h1: "lzh_hash ?src 1 20 = h" by (simp add: h_def lzh_hash_def min_def)
  have cfg: "win_size cfg = 65536" "max_chain cfg = 12" "min_match cfg = 4" "lazy_depth cfg = 0"
    using assms(1) by (auto simp: lzh_config_def)
  have w12: "lzh_walk s i c 12 win 12 ref st = (case lzh_candidate s i 12 win 0 ref st of
      (True, st) \<Rightarrow> st | (False, st) \<Rightarrow> lzh_walk s i c 12 win 11 (c (nat (sint ref) mod win)) st)" for s i c win ref st
    using lzh_walk.simps(2) [of s i c 12 win 11 ref st] by simp
  have w11: "lzh_walk s i c 12 win 11 ref st = (case lzh_candidate s i 12 win 1 ref st of
      (True, st) \<Rightarrow> st | (False, st) \<Rightarrow> lzh_walk s i c 12 win 10 (c (nat (sint ref) mod win)) st)" for s i c win ref st
    using lzh_walk.simps(2) [of s i c 12 win 10 ref st] by simp
  have f0: "cfg_find cfg ?src 0 T = (0, 0)"
    unfolding cfg_find_def find_match_def cfg by (simp add: w12 assms(2) lzh_candidate_def)
  define T1 where "T1 = insert_hash ?src 0 65536 T"
  have T1: "T1 = \<lparr>hash_table = (\<lambda>_. - 1)(h := 0), chain = (\<lambda>_. 0)(0 := - 1)\<rparr>"
    by (simp add: T1_def insert_hash_def assms(2) h_def)
  have len: "lz_extend ?src 0 1 (lzh_extend8 ?src 0 1 0 999) 999 = 999"
    by (rule lz_extend_all [OF lzh_extend8_le]) simp_all
  have c1: "lzh_candidate ?src 1 12 65536 0 0 (3, 0, 0) = (False, 999, 999, 1)"
    using len by (simp add: lzh_candidate_def)
  have c2: "lzh_candidate ?src 1 12 65536 1 (- 1) (999, 999, 1) = (True, 999, 999, 1)"
    by (simp add: lzh_candidate_def)
  have f1: "cfg_find cfg ?src 1 T1 = (999, 1)"
    unfolding cfg_find_def find_match_def cfg by (simp add: w12 w11 T1 h1 [unfolded One_nat_def] c1 [unfolded One_nat_def] c2 [unfolded One_nat_def])
  have "lzh_parse cfg ?src 0 T [] = lzh_parse cfg ?src 1 T1 [literal_sym 7]"
    using f0 by (subst lzh_parse.simps) (simp add: cfg T1_def)
  also have "\<dots> = lzh_parse cfg ?src 1000 (insert_inside ?src 1 1000 65536 (insert_hash ?src 1 65536 T1)) [literal_sym 7, match_sym (999, 1)]"
    using f1 by (subst lzh_parse.simps) (simp add: cfg)
  also have "\<dots> = [literal_sym 7, match_sym (999, 1), eob_sym]"
    by (subst lzh_parse.simps) simp
  finally show ?thesis .
qed

lemma lzh_repeated_compresses:
  "zupt_lzh_compress \<lparr>al_rle = True, al_tab = True, al_ll = (True, True, True), al_d = (True, True, True)\<rparr>
     (replicate 1000 7) 1000 1 \<noteq> []"
proof -
  let ?al = "\<lparr>al_rle = True, al_tab = True, al_ll = (True, True, True), al_d = (True, True, True)\<rparr>"
  let ?syms = "[literal_sym 7, match_sym (999, 1), eob_sym]"
  define ll where "ll = huff_build (True, True, True) (take (alphabet_size 257 257 (count_litlen ?syms)) (count_litlen ?syms))"
  define d where "d = huff_build (True, True, True) (take (alphabet_size 0 1 (count_dist ?syms)) (count_dist ?syms))"
  have run: "run_syms [] [literal_sym 7, match_sym (999, 1)] = Some (lz_copy 1 999 [7])"
    using len_to_code_ge [of 999] by (simp add: sym_ok_def literal_sym_def match_sym_def step_sym_def)
  have pre: "lzh_preprocess True (replicate 1000 7) = (False, replicate 1000 7)"
    by (simp add: lzh_preprocess_def)
  obtain ll_lens d_lens where c: "ll = assign_codes (next_codes (len_counts ll_lens)) ll_lens"
      "d = assign_codes (next_codes (len_counts d_lens)) d_lens" "lens_ok ll_lens" "lens_ok d_lens"
      "length ll_lens \<le> 293" "length d_lens \<le> 40" "256 < length ll_lens" "ll_lens ! 256 > 0" "\<forall>s \<in> set ?syms. sym_classes ll d s"
    by (rule block_codes [OF run _ _ ll_def d_def]) simp_all
  have "snd (ll ! 256) > 0" using canon_codes [OF c(3,7)] c(8) by (simp add: c(1))
  then have "zupt_lzh_compress ?al (replicate 1000 7) 1000 1 = lzh_write False 1000 ?syms ll d 1000"
    unfolding zupt_lzh_compress_def Let_def by (simp add: pre parse_repeated ll_def d_def)
  moreover have "lzh_write False 1000 ?syms ll d 1000 \<noteq> []"
    by (rule lzh_write_total) (use c canonical_codes_ok in auto)
  ultimately show ?thesis by simp
qed

section \<open>The codec as a block codec\<close>

text \<open>The codec as its callers use it, with an output buffer of the bound's size; the result 0
  is \<open>None\<close>.\<close>

definition lzh_enc :: "bool \<times> int \<Rightarrow> bytes \<Rightarrow> bytes option" where
  "lzh_enc k x =
     (case zupt_lzh_compress \<lparr>al_rle = fst k, al_tab = True, al_ll = (True, True, True), al_d = (True, True, True)\<rparr>
         x (zupt_lzh_bound (length x)) (snd k) of [] \<Rightarrow> None | c # cs \<Rightarrow> Some (c # cs))"

definition lzh_dec :: "bytes \<Rightarrow> nat \<Rightarrow> bytes option" where
  "lzh_dec c n = (case zupt_lzh_decompress True True c n of [] \<Rightarrow> None | b # bs \<Rightarrow> Some (b # bs))"

lemma lzh_dec_enc:
  assumes "lzh_enc k x = Some c" "length x < 2 ^ 32 - 1" "length x \<le> n"
  shows "lzh_dec c n = Some x"
proof -
  let ?al = "\<lparr>al_rle = fst k, al_tab = True, al_ll = (True, True, True), al_d = (True, True, True)\<rparr>"
  have c: "zupt_lzh_compress ?al x (zupt_lzh_bound (length x)) (snd k) = c" "c \<noteq> []"
    using assms(1) by (auto simp: lzh_enc_def split: list.splits)
  then have "x \<noteq> []" by (auto simp: zupt_lzh_compress_def)
  moreover have "zupt_lzh_decompress True True c n = x"
    using lzh_roundtrip [of ?al x "zupt_lzh_bound (length x)" "snd k" n] c assms(2,3)
    by (simp add: zupt_lzh_bound_def)
  ultimately show ?thesis by (simp add: lzh_dec_def split: list.split)
qed

interpretation lzh: block_codec lzh_enc lzh_dec "\<lambda>x. length x < 2 ^ 32 - 1"
proof
  show "length y \<le> n" if "lzh_dec c n = Some y" for c n y
    using that zupt_lzh_decompress_bound [of True True c n]
    by (cases "zupt_lzh_decompress True True c n") (auto simp: lzh_dec_def)
qed (rule lzh_dec_enc)

section \<open>Properties\<close>

text \<open>
  C10. Whatever \<open>zupt_lzh_compress\<close> returns (a result of size 0 means that the block is to be
  stored) is decoded by \<open>zupt_lzh_decompress\<close> to exactly the block, at every level, with any
  output buffer that holds the block, provided the output buffer of the compressor was as large
  as the block and the allocations of the code construction succeed.
\<close>

theorem lzh_compress_decompress:
  assumes "zupt_lzh_compress al src dcap level \<noteq> []" "al_ll al = (True, True, True)" "al_d al = (True, True, True)"
    "length src \<le> dcap" "length src < 2 ^ 32 - 1" "length src \<le> n"
  shows "zupt_lzh_decompress True True (zupt_lzh_compress al src dcap level) n = src"
  by (rule lzh_roundtrip [OF assms])

theorem lzh_compress_decompress_witness:
  "zupt_lzh_decompress True True
     (zupt_lzh_compress \<lparr>al_rle = True, al_tab = True, al_ll = (True, True, True), al_d = (True, True, True)\<rparr>
       (replicate 1000 7) 1000 1) 1200 = replicate 1000 7"
  by (rule lzh_compress_decompress [OF lzh_repeated_compresses]) simp_all

text \<open>
  C36. The decoder never produces more than the bytes of its output buffer, whatever the stream:
  every literal, match and run is checked against the capacity first. And two blocks never share
  a compressed form.
\<close>

theorem lzh_bounded_and_unambiguous:
  "length (zupt_lzh_decompress al_lut al_tmp s n) \<le> n \<and>
   (if lzh_enc k x = Some c \<and> lzh_enc l y = Some c \<and> length x < 2 ^ 32 - 1 \<and> length y < 2 ^ 32 - 1 then x = y else True)"
  using zupt_lzh_decompress_bound [of al_lut al_tmp s n] lzh.enc_inject [of k x c l y] by simp

end
