(* ===== verification/Blocks.thy ===== *)
theory Blocks
  imports Lzh Predict Lz Dedup Paths Vv
begin

text \<open>
  The content of a block frame (\<open>src/zupt_format.c\<close>): how the single-threaded writer turns a
  chunk of a file into a frame (codec, fall-back to stored bytes, sealing with the preface as
  additional data), and \<open>decompress_block\<close>, which every reader uses to turn a frame back into
  bytes. The map that gives the blocks of an old disk archive their sequence numbers is here
  too.

  The VaptVupt decoder is an argument, \<open>vvz\<close>, a function of the payload and the buffer size: the
  readers pass \<open>vvz_decoder_of\<close> of their block decoders (theory Vv), the workers of the pool
  \<open>vv_decoder_of\<close> of them. Its encoder is \<open>ce_vv\<close>, the adapter around an engine. The floating-point estimate
  \<open>zupt_predict_benefit\<close> only selects between two encodings; its verdict is the parameter
  \<open>ce_benefit\<close>.
\<close>

section \<open>Decoding a block\<close>

text \<open>The allocations of \<open>decompress_block\<close>: the opened package, the output, the buffer before
  prediction is undone, and the two of the LZH decoder.\<close>

record block_alloc =
  ba_plain :: bool
  ba_out :: bool
  ba_pred :: bool
  ba_lut :: bool
  ba_tmp :: bool

definition ZUPT_VV_DECODE_SLACK :: nat where
  "ZUPT_VV_DECODE_SLACK = 64"

type_synonym vvz_decoder = "bytes \<Rightarrow> nat \<Rightarrow> bytes option"

definition vv_decoder_of :: "vv_block_decoders \<Rightarrow> vvz_decoder" where
  "vv_decoder_of bd src dst_cap = vv_result (vv_decompress bd src dst_cap)"

definition vvz_decoder_of :: "vv_block_decoders \<Rightarrow> vvz_decoder" where
  "vvz_decoder_of bd src dst_cap = vv_result (vvz_decompress bd src dst_cap)"

text \<open>A decoder's output, which has to fill the announced size.\<close>

definition exactly :: "nat \<Rightarrow> bytes option \<Rightarrow> bytes result" where
  "exactly olen r = (case r of None \<Rightarrow> Inl ZUPT_ERR_CORRUPT
     | Some y \<Rightarrow> if length y \<noteq> olen then Inl ZUPT_ERR_CORRUPT else Inr y)"

definition decode_lzhp :: "block_alloc \<Rightarrow> bytes \<Rightarrow> nat \<Rightarrow> bytes result" where
  "decode_lzhp al comp_data olen =
     (if length comp_data < 1 then Inl ZUPT_ERR_CORRUPT
      else
        let pred_active = (comp_data ! 0 AND 0x01 \<noteq> 0) in
        if pred_active \<and> length comp_data < 257 then Inl ZUPT_ERR_CORRUPT
        else
          let pred = take 256 (drop 1 comp_data);
              hdr_size = (if pred_active then 257 else 1) in
          if length comp_data \<le> hdr_size then Inl ZUPT_ERR_CORRUPT
          else
            let lzh_data = drop hdr_size comp_data in
            if pred_active then
              (if \<not> ba_pred al then Inl ZUPT_ERR_NOMEM
               else
                 rbind (exactly olen (Some (zupt_lzh_decompress (ba_lut al) (ba_tmp al) lzh_data olen)))
                   (\<lambda>temp. Inr (zupt_predict_decode pred temp)))
            else exactly olen (Some (zupt_lzh_decompress (ba_lut al) (ba_tmp al) lzh_data olen)))"

definition decode_payload :: "block_alloc \<Rightarrow> vvz_decoder \<Rightarrow> u16 \<Rightarrow> bytes \<Rightarrow> nat \<Rightarrow> bytes result" where
  "decode_payload al vvz codec comp_data olen =
     (if codec = ZUPT_CODEC_STORE then
        (if length comp_data < olen then Inl ZUPT_ERR_CORRUPT else Inr (take olen comp_data))
      else if codec = ZUPT_CODEC_ZUPT_LZ then exactly olen (zupt_lz_decompress comp_data olen)
      else if codec = ZUPT_CODEC_ZUPT_LZH then
        exactly olen (Some (zupt_lzh_decompress (ba_lut al) (ba_tmp al) comp_data olen))
      else if codec = ZUPT_CODEC_ZUPT_LZHP then decode_lzhp al comp_data olen
      else if codec = ZUPT_CODEC_VAPTVUPT then
        exactly olen (vvz comp_data (olen + ZUPT_VV_DECODE_SLACK))
      else Inl ZUPT_ERR_UNSUPPORTED)"

text \<open>The payload as the codec sees it: opened first when the block is sealed.\<close>

definition open_payload ::
  "block_alloc \<Rightarrow> zupt_block_t \<Rightarrow> zupt_keyring_t option \<Rightarrow> u64 \<Rightarrow> bytes result" where
  "open_payload al b kr block_seq =
     (let comp_data = take (unat (compressed_size b)) (payload b);
          encrypted = (block_flags b AND ZUPT_BFLAG_ENCRYPTED \<noteq> 0) in
      case kr of
        None \<Rightarrow> if encrypted then Inl ZUPT_ERR_AUTH_FAIL else Inr comp_data
      | Some k \<Rightarrow>
          if active k \<and> \<not> encrypted then Inl ZUPT_ERR_AUTH_FAIL
          else if \<not> encrypted then Inr comp_data
          else if \<not> active k then Inl ZUPT_ERR_AUTH_FAIL
          else
            let dec = (if use_preface_aad k
                       then zupt_decrypt_buffer_aad (ba_plain al) k comp_data block_seq (zupt_serialize_preface_aad b)
                       else zupt_decrypt_buffer (ba_plain al) k comp_data block_seq) in
            (case dec of None \<Rightarrow> Inl ZUPT_ERR_AUTH_FAIL | Some d \<Rightarrow> Inr d))"

definition decompress_block ::
  "block_alloc \<Rightarrow> vvz_decoder \<Rightarrow> zupt_block_t \<Rightarrow> zupt_keyring_t option \<Rightarrow> u64 \<Rightarrow> bytes result" where
  "decompress_block al vvz b kr block_seq =
     (if unat (uncompressed_size b) > ZUPT_MAX_BLOCK_SZ then Inl ZUPT_ERR_OVERFLOW
      else if unat (compressed_size b) > ZUPT_MAX_BLOCK_SZ + 1024 then Inl ZUPT_ERR_OVERFLOW
      else
        rbind (open_payload al b kr block_seq) (\<lambda>comp_data.
        let olen = unat (uncompressed_size b) in
        if olen = 0 then Inr []
        else if \<not> ba_out al then Inl ZUPT_ERR_NOMEM
        else
          rbind (decode_payload al vvz (codec_id b) comp_data olen) (\<lambda>out.
          if zupt_xxh64 out 0 \<noteq> checksum b then Inl ZUPT_ERR_BAD_CHECKSUM else Inr out)))"

section \<open>Producing a block\<close>

text \<open>
  What the choice of an encoding depends on besides the chunk: the benefit estimate, the
  allocations, and the VaptVupt encoder with its size bound, the allocation of its read-back check
  and the block decoders that check uses.
\<close>

record codec_env =
  ce_benefit :: "bytes \<Rightarrow> bool"
  ce_table :: bool
  ce_transformed :: bool
  ce_lzh_pred :: lzh_alloc
  ce_lzh :: lzh_alloc
  ce_lz :: bool
  ce_vv_tmp :: bool
  ce_vv_bound :: "nat \<Rightarrow> nat"
  ce_vv_check :: bool
  ce_vv_blocks :: vv_block_decoders
  ce_vv_engine :: vv_engine

definition ce_vv :: "codec_env \<Rightarrow> bytes \<Rightarrow> nat \<Rightarrow> int \<Rightarrow> bytes option" where
  "ce_vv ce rbuf dst_cap level =
     vv_result (vvz_compress (ce_vv_blocks ce) (ce_vv_check ce) (ce_vv_engine ce) rbuf dst_cap level)"

definition compress_lzhp_plain :: "lzh_alloc \<Rightarrow> int \<Rightarrow> bytes \<Rightarrow> bytes" where
  "compress_lzhp_plain al level rbuf =
     (let plain = zupt_lzh_compress al rbuf (zupt_lzh_bound (length rbuf)) level in
      if length plain > 0 \<and> 1 + length plain < length rbuf then 0x00 # plain else [])"

definition compress_lzhp :: "codec_env \<Rightarrow> int \<Rightarrow> bytes \<Rightarrow> bytes" where
  "compress_lzhp ce level rbuf =
     (if ce_benefit ce rbuf \<and> length rbuf > 256 then
        if ce_transformed ce then
          let pred = zupt_predict_build (ce_table ce) rbuf;
              transformed = zupt_predict_encode pred rbuf;
              lzh = zupt_lzh_compress (ce_lzh_pred ce) transformed (zupt_lzh_bound (length rbuf)) level in
          if length lzh > 0 \<and> 1 + 256 + length lzh < length rbuf then 0x01 # pred @ lzh
          else compress_lzhp_plain (ce_lzh ce) level rbuf
        else []
      else compress_lzhp_plain (ce_lzh ce) level rbuf)"

definition compress_vv :: "codec_env \<Rightarrow> int \<Rightarrow> bytes \<Rightarrow> bytes" where
  "compress_vv ce level rbuf =
     (let nread = length rbuf;
          vv_cap = ce_vv_bound ce nread;
          use = (\<lambda>r. case r of None \<Rightarrow> [] | Some c \<Rightarrow> if length c > 0 \<and> length c < nread then c else []) in
      if vv_cap > zupt_lzh_bound nread + 512
      then if ce_vv_tmp ce then use (ce_vv ce rbuf vv_cap level) else []
      else use (ce_vv ce rbuf (zupt_lzh_bound nread + 512) level))"

text \<open>The codec tried, and the codec and payload written.\<close>

definition compress_try :: "codec_env \<Rightarrow> u16 \<Rightarrow> int \<Rightarrow> bytes \<Rightarrow> bytes" where
  "compress_try ce codec level rbuf =
     (if codec = ZUPT_CODEC_ZUPT_LZHP then compress_lzhp ce level rbuf
      else if codec = ZUPT_CODEC_ZUPT_LZH then
        zupt_lzh_compress (ce_lzh ce) rbuf (zupt_lzh_bound (length rbuf)) level
      else if codec = ZUPT_CODEC_ZUPT_LZ then
        (case zupt_lz_compress (ce_lz ce) rbuf (zupt_lz_bound (length rbuf)) level of
           None \<Rightarrow> [] | Some c \<Rightarrow> c)
      else if codec = ZUPT_CODEC_VAPTVUPT then compress_vv ce level rbuf
      else [])"

definition compress_chunk :: "codec_env \<Rightarrow> u16 \<Rightarrow> int \<Rightarrow> bytes \<Rightarrow> u16 \<times> bytes" where
  "compress_chunk ce codec level rbuf =
     (let c = compress_try ce codec level rbuf in
      if length c = 0 \<or> length c \<ge> length rbuf then (ZUPT_CODEC_STORE, rbuf) else (codec, c))"

text \<open>
  Sealing a payload and framing it: data, comment and index blocks do this alike. \<open>None\<close> is a
  package that could not be allocated. The result is the frame and the stored payload length.
\<close>

definition seal_payload ::
  "bool \<Rightarrow> bytes \<Rightarrow> bool \<Rightarrow> zupt_keyring_t \<Rightarrow> u8 \<Rightarrow> u16 \<Rightarrow> nat \<Rightarrow> bytes \<Rightarrow> u64 \<Rightarrow> u64 \<Rightarrow> (u16 \<times> bytes) option" where
  "seal_payload malloc_ok nonce encrypt kr btype codec nread p cksum aad_seq =
     (if encrypt \<and> active kr then
        let bflags = ZUPT_BFLAG_ENCRYPTED;
            enc = (if use_preface_aad kr then
                     let predicted_csz = 16 + word_of_nat (length p) + 32;
                         preface = zupt_serialize_preface_aad_scalars btype codec bflags
                           (word_of_nat nread) predicted_csz cksum in
                     zupt_encrypt_buffer_aad malloc_ok kr nonce p aad_seq preface
                   else zupt_encrypt_buffer malloc_ok kr nonce p aad_seq) in
        map_option (\<lambda>e. (bflags, e)) enc
      else Some (0, p))"

definition frame_block :: "u8 \<Rightarrow> u16 \<Rightarrow> nat \<Rightarrow> u64 \<Rightarrow> u16 \<times> bytes \<Rightarrow> bytes" where
  "frame_block btype codec nread cksum fp =
     write_preface btype codec (fst fp) (word_of_nat nread) (word_of_nat (length (snd fp))) cksum @ snd fp"

section \<open>What was produced is decoded\<close>

text \<open>The encoder's environment in which the LZH encoder got the memory it asked for, and the
  decoder's in which every allocation succeeded.\<close>

definition lzh_mem :: "lzh_alloc \<Rightarrow> bool" where
  "lzh_mem al \<longleftrightarrow> al_ll al = (True, True, True) \<and> al_d al = (True, True, True)"

definition codec_mem :: "codec_env \<Rightarrow> bool" where
  "codec_mem ce \<longleftrightarrow> lzh_mem (ce_lzh_pred ce) \<and> lzh_mem (ce_lzh ce)"

text \<open>With the VaptVupt codec, the reader's decoder is the one the encoder checked its output with.\<close>

definition own_decoder :: "u16 \<Rightarrow> codec_env \<Rightarrow> vvz_decoder \<Rightarrow> bool" where
  "own_decoder codec ce vvz \<longleftrightarrow> codec = ZUPT_CODEC_VAPTVUPT \<longrightarrow> vvz = vvz_decoder_of (ce_vv_blocks ce)"

definition block_mem :: "block_alloc \<Rightarrow> bool" where
  "block_mem al \<longleftrightarrow> ba_plain al \<and> ba_out al \<and> ba_pred al \<and> ba_lut al \<and> ba_tmp al"

lemma exactly_Inr [simp]: "exactly n r = Inr y \<longleftrightarrow> r = Some y \<and> length y = n"
  by (auto simp: exactly_def split: option.splits)

lemma exactly_Some [simp]: "length y = n \<Longrightarrow> exactly n (Some y) = Inr y"
  by simp

lemma lzh_chunk:
  assumes "zupt_lzh_compress al x (zupt_lzh_bound n) level \<noteq> []" "lzh_mem al"
    "length x = n" "n \<le> ZUPT_MAX_BLOCK_SZ"
  shows "zupt_lzh_decompress True True (zupt_lzh_compress al x (zupt_lzh_bound n) level) n = x"
  using assms by (intro lzh_roundtrip) (auto simp: lzh_mem_def zupt_lzh_bound_def ZUPT_MAX_BLOCK_SZ_def)

lemma decode_lzhp_plain:
  assumes "compress_lzhp_plain lal level x \<noteq> []" "lzh_mem lal" "length x \<le> ZUPT_MAX_BLOCK_SZ" "block_mem al"
  shows "decode_lzhp al (compress_lzhp_plain lal level x) (length x) = Inr x"
  using assms lzh_chunk [of lal x "length x" level]
  by (auto simp: compress_lzhp_plain_def decode_lzhp_def block_mem_def Let_def split: if_splits)

lemma decode_lzhp_chunk:
  assumes "compress_lzhp ce level x \<noteq> []" "codec_mem ce" "length x \<le> ZUPT_MAX_BLOCK_SZ" "block_mem al"
  shows "decode_lzhp al (compress_lzhp ce level x) (length x) = Inr x"
proof -
  let ?p = "zupt_predict_build (ce_table ce) x"
  let ?z = "zupt_lzh_compress (ce_lzh_pred ce) (zupt_predict_encode ?p x) (zupt_lzh_bound (length x)) level"
  consider "compress_lzhp ce level x = 0x01 # ?p @ ?z" "?z \<noteq> []"
    | "compress_lzhp ce level x = compress_lzhp_plain (ce_lzh ce) level x"
    using assms(1) by (auto simp: compress_lzhp_def Let_def split: if_splits)
  then show ?thesis
  proof cases
    case 1
    have "zupt_lzh_decompress True True ?z (length x) = zupt_predict_encode ?p x"
      using 1(2) assms(2,3) by (intro lzh_chunk) (auto simp: codec_mem_def)
    then show ?thesis
      using 1 assms(4) by (simp add: decode_lzhp_def block_mem_def Let_def)
  next
    case 2
    then show ?thesis
      using assms decode_lzhp_plain by (simp add: codec_mem_def)
  qed
qed

lemma lz_chunk:
  assumes "zupt_lz_compress ok x cap level = Some c" "length x \<le> ZUPT_MAX_BLOCK_SZ"
  shows "zupt_lz_decompress c (length x) = Some x"
  using lz.dec_enc [of "(ok, cap, level)" x c "length x"] assms by (simp add: ZUPT_MAX_BLOCK_SZ_def)

text \<open>A block the VaptVupt encoder returned was read back by it.\<close>

lemma vv_chunk:
  assumes "ce_vv ce x cap level = Some c" "c \<noteq> []" "own_decoder ZUPT_CODEC_VAPTVUPT ce vvz"
  shows "decode_payload al vvz ZUPT_CODEC_VAPTVUPT c (length x) = Inr x"
  using vvz_compress_decodes [of "ce_vv_blocks ce" "ce_vv_check ce" "ce_vv_engine ce" x cap level c] assms
  by (simp add: ce_vv_def own_decoder_def vvz_decoder_of_def decode_payload_def ZUPT_VV_DECODE_SLACK_def)

lemma decode_compress_chunk:
  assumes "compress_chunk ce codec level x = (c, p)" "codec_mem ce" "block_mem al"
    "length x \<le> ZUPT_MAX_BLOCK_SZ" "own_decoder codec ce vvz"
  shows "decode_payload al vvz c p (length x) = Inr x"
proof (cases "compress_try ce codec level x = [] \<or> c = ZUPT_CODEC_STORE")
  case True
  with assms(1) have "c = ZUPT_CODEC_STORE \<and> p = x"
    by (auto simp: compress_chunk_def compress_try_def Let_def split: if_splits)
  then show ?thesis by (simp add: decode_payload_def)
next
  case False
  with assms(1) have c: "c = codec" "p = compress_try ce codec level x"
    by (auto simp: compress_chunk_def Let_def split: if_splits)
  consider "codec = ZUPT_CODEC_ZUPT_LZHP" | "codec = ZUPT_CODEC_ZUPT_LZH" | "codec = ZUPT_CODEC_ZUPT_LZ"
    | "codec = ZUPT_CODEC_VAPTVUPT"
    using False by (auto simp: compress_try_def split: if_splits)
  then show ?thesis
  proof cases
    case 1
    then show ?thesis using False assms(2-4) c decode_lzhp_chunk [of ce level x al]
      by (simp add: decode_payload_def compress_try_def)
  next
    case 2
    then show ?thesis
      using False assms(2-4) c lzh_chunk [of "ce_lzh ce" x "length x" level]
      by (simp add: decode_payload_def compress_try_def codec_mem_def block_mem_def)
  next
    case 3
    then show ?thesis
      using False assms(4) c lz_chunk [of "ce_lz ce" x "zupt_lz_bound (length x)" level]
      by (auto simp: decode_payload_def compress_try_def split: option.splits)
  next
    case 4
    then have "compress_vv ce level x = p" "p \<noteq> []" using False c by (simp_all add: compress_try_def)
    then obtain cap where "ce_vv ce x cap level = Some p"
      by (auto simp: compress_vv_def Let_def split: if_splits option.splits)
    then show ?thesis using vv_chunk [of ce x cap level p vvz al] \<open>p \<noteq> []\<close> 4 c(1) assms(5) by simp
  qed
qed

lemma compress_chunk_length:
  "compress_chunk ce codec level x = (c, p) \<Longrightarrow> length p \<le> length x \<and> (x \<noteq> [] \<longrightarrow> p \<noteq> [])"
  by (auto simp: compress_chunk_def Let_def split: if_splits)

section \<open>Frames\<close>

definition frame_of :: "u8 \<Rightarrow> u16 \<Rightarrow> nat \<Rightarrow> u64 \<Rightarrow> u16 \<times> bytes \<Rightarrow> zupt_block_t" where
  "frame_of btype codec nread cksum fp =
     \<lparr>block_type = btype, codec_id = codec, block_flags = fst fp, uncompressed_size = word_of_nat nread,
      compressed_size = word_of_nat (length (snd fp)), checksum = cksum, payload = snd fp\<rparr>"

lemma frame_block_eq: "frame_block btype codec nread cksum fp = write_block (frame_of btype codec nread cksum fp)"
  by (simp add: frame_block_def write_block_def frame_of_def)

lemma length_package:
  assumes "zupt_encrypt_buffer_aad m kr nonce p sq aad = Some e" "length nonce = 16"
  shows "length e = length p + 48"
  using assms by (auto simp: zupt_encrypt_buffer_aad_eq package_mac_def Let_def split: if_splits)

lemma seal_payload_length:
  assumes "seal_payload m nonce en kr bt codec n p ck sq = Some fp" "length nonce = 16"
  shows "length (snd fp) = (if en \<and> active kr then length p + 48 else length p)"
  using assms length_package by (auto simp: seal_payload_def zupt_encrypt_buffer_def Let_def split: if_splits)

lemma unat_small: "n < 2 ^ 64 \<Longrightarrow> unat (word_of_nat n :: u64) = n"
  by (simp add: unat_of_nat take_bit_nat_eq_self)

lemma sealed_frame_wf:
  assumes "seal_payload m nonce en kr bt codec n p ck sq = Some fp" "length nonce = 16"
    "length p \<le> ZUPT_MAX_BLOCK_SZ + 900" "n \<le> ZUPT_MAX_BLOCK_SZ"
  shows "length (snd fp) \<le> length p + 48" "unat (word_of_nat (length (snd fp)) :: u64) = length (snd fp)"
    "unat (word_of_nat n :: u64) = n"
proof -
  show l: "length (snd fp) \<le> length p + 48"
    using seal_payload_length [OF assms(1,2)] by auto
  show "unat (word_of_nat (length (snd fp)) :: u64) = length (snd fp)"
    by (rule unat_small) (use l assms(3) in \<open>simp add: ZUPT_MAX_BLOCK_SZ_def\<close>)
  show "unat (word_of_nat n :: u64) = n"
    by (rule unat_small) (use assms(4) in \<open>simp add: ZUPT_MAX_BLOCK_SZ_def\<close>)
qed

text \<open>A sealed payload is opened again by whoever holds the keyring and knows its position.\<close>

lemma open_sealed:
  assumes s: "seal_payload m nonce en kr bt codec n p ck sq = Some fp" and nonce: "length nonce = 16"
    and size: "length p \<le> ZUPT_MAX_BLOCK_SZ + 900" "n \<le> ZUPT_MAX_BLOCK_SZ"
    and al: "block_mem al" and en: "en = active kr"
  shows "open_payload al (frame_of bt codec n ck fp) (Some kr) sq = Inr p"
proof -
  note wf = sealed_frame_wf [OF s nonce size]
  have tk: "take (unat (compressed_size (frame_of bt codec n ck fp))) (payload (frame_of bt codec n ck fp)) = snd fp"
    using wf(2) by (simp add: frame_of_def)
  show ?thesis
  proof (cases "active kr")
    case False
    then have "fp = (0, p)" using s en by (simp add: seal_payload_def)
    with False tk show ?thesis by (simp add: open_payload_def frame_of_def)
  next
    case True
    define aad where "aad = (if use_preface_aad kr then zupt_serialize_preface_aad_scalars bt codec
      ZUPT_BFLAG_ENCRYPTED (word_of_nat n) (16 + word_of_nat (length p) + 32) ck else [])"
    obtain e where e: "fp = (ZUPT_BFLAG_ENCRYPTED, e)" "zupt_encrypt_buffer_aad m kr nonce p sq aad = Some e"
      using s True en by (auto simp: seal_payload_def aad_def zupt_encrypt_buffer_def Let_def split: if_splits)
    have "length e = length p + 48" using length_package [OF e(2) nonce] .
    then have csz: "(word_of_nat (length e) :: u64) = 16 + word_of_nat (length p) + 32" by simp
    have "zupt_serialize_preface_aad (frame_of bt codec n ck fp) = aad" if "use_preface_aad kr"
      using that by (simp add: preface_aad_block frame_of_def aad_def e(1) csz)
    moreover have "zupt_decrypt_buffer_aad True kr e sq aad = Some p"
      by (rule zupt_decrypt_encrypt [OF nonce e(2)])
    moreover have "ba_plain al" using al by (simp add: block_mem_def)
    ultimately show ?thesis
      using True tk by (auto simp: open_payload_def e(1) zupt_decrypt_buffer_def aad_def frame_of_def Let_def)
  qed
qed

lemma decompress_frame:
  assumes s: "seal_payload m nonce en kr bt c (length x) p (zupt_xxh64 x 0) sq = Some fp" and nonce: "length nonce = 16"
    and size: "length p \<le> ZUPT_MAX_BLOCK_SZ + 900" "length x \<le> ZUPT_MAX_BLOCK_SZ"
    and al: "block_mem al" and en: "en = active kr"
    and dec: "decode_payload al vvz c p (length x) = Inr x"
  shows "decompress_block al vvz (frame_of bt c (length x) (zupt_xxh64 x 0) fp) (Some kr) sq = Inr x"
proof -
  note wf = sealed_frame_wf [OF s nonce size]
  have out: "ba_out al" using al by (simp add: block_mem_def)
  have "unat (compressed_size (frame_of bt c (length x) (zupt_xxh64 x 0) fp)) \<le> ZUPT_MAX_BLOCK_SZ + 1024"
    using wf size by (simp add: frame_of_def)
  moreover have "unat (uncompressed_size (frame_of bt c (length x) (zupt_xxh64 x 0) fp)) = length x"
    using wf by (simp add: frame_of_def)
  ultimately show ?thesis
    using open_sealed [OF s nonce size al en] dec size out
    by (simp add: decompress_block_def frame_of_def Let_def)
qed

lemma frame_wf:
  assumes s: "seal_payload m nonce en kr bt c n p ck sq = Some fp" and nonce: "length nonce = 16"
    and size: "length p \<le> ZUPT_MAX_BLOCK_SZ + 900" "n \<le> ZUPT_MAX_BLOCK_SZ" and alloc: "\<forall>k. alloc k"
  shows "block_wf alloc (frame_of bt c n ck fp)"
  using sealed_frame_wf [OF s nonce size] size alloc by (simp add: block_wf_def frame_of_def)

section \<open>What a decoded block is worth\<close>

lemma decrypt_no_memory: "zupt_decrypt_buffer_aad False kr pkg sq aad = None"
  by (simp add: zupt_decrypt_buffer_aad_def Let_def)

lemma open_payload_Inr:
  assumes "open_payload al b (Some k) sq = Inr p" "active k"
  shows "block_flags b AND ZUPT_BFLAG_ENCRYPTED \<noteq> 0 \<and>
    package_authentic k (sq, ref_aad k b) (take (unat (compressed_size b)) (payload b)) \<and>
    p = package_plain k (take (unat (compressed_size b)) (payload b))"
  using assms
  by (cases "ba_plain al")
     (auto simp: open_payload_def zupt_decrypt_buffer_def zupt_decrypt_buffer_aad_eq decrypt_no_memory ref_aad_def
       Let_def split: if_splits option.splits)

lemma decode_payload_length: "decode_payload al vvz codec p n = Inr y \<Longrightarrow> length y = n"
  by (auto simp: decode_payload_def decode_lzhp_def rbind_Inr_iff Let_def split: if_splits)

lemma decompress_block_Inr:
  assumes "decompress_block al vvz b kr sq = Inr out"
  shows "length out = unat (uncompressed_size b)" "out \<noteq> [] \<Longrightarrow> zupt_xxh64 out 0 = checksum b"
    "\<exists>p. open_payload al b kr sq = Inr p \<and>
       (out \<noteq> [] \<longrightarrow> decode_payload al vvz (codec_id b) p (unat (uncompressed_size b)) = Inr out)"
  using assms
  by (auto simp: decompress_block_def rbind_Inr_iff Let_def dest: decode_payload_length split: if_splits)

lemma decompress_block_downgrade:
  assumes "active k" "block_flags b AND ZUPT_BFLAG_ENCRYPTED = 0"
    "unat (uncompressed_size b) \<le> ZUPT_MAX_BLOCK_SZ" "unat (compressed_size b) \<le> ZUPT_MAX_BLOCK_SZ + 1024"
  shows "decompress_block al vvz b (Some k) sq = Inl ZUPT_ERR_AUTH_FAIL"
  using assms by (simp add: decompress_block_def open_payload_def)

section \<open>Sequence numbers of blocks\<close>

abbreviation (input) ZUPT_FLAG_ENCRYPTED :: u32 where "ZUPT_FLAG_ENCRYPTED \<equiv> 1"
abbreviation (input) ZUPT_FLAG_DISK_IMAGE :: u32 where "ZUPT_FLAG_DISK_IMAGE \<equiv> 0x40"
abbreviation (input) ZUPT_FLAG_DEDUP :: u32 where "ZUPT_FLAG_DEDUP \<equiv> 0x80"
abbreviation (input) ZUPT_FLAG_AAD_SEQ :: u32 where "ZUPT_FLAG_AAD_SEQ \<equiv> 0x100"
abbreviation (input) ZUPT_FLAG_AAD_PREFACE :: u32 where "ZUPT_FLAG_AAD_PREFACE \<equiv> 0x200"
abbreviation (input) ZUPT_FLAG_AUTH_DEDUP_REFS :: u32 where "ZUPT_FLAG_AUTH_DEDUP_REFS \<equiv> 0x400"
abbreviation (input) ZUPT_FLAG_DISK_CONTENT_HASH :: u32 where "ZUPT_FLAG_DISK_CONTENT_HASH \<equiv> 0x800"

text \<open>The position of a block as the writer counts it, and as the reader derives it.\<close>

definition logical_aad_seq :: "nat \<Rightarrow> u64 \<Rightarrow> u64" where
  "logical_aad_seq fi block_seq = push_bit 32 (word_of_nat (fi + 1)) OR block_seq"

definition archive_data_aad_seq :: "u32 \<Rightarrow> nat \<Rightarrow> u64 \<Rightarrow> u64" where
  "archive_data_aad_seq gflags entry_index block_index =
     (if gflags AND ZUPT_FLAG_DISK_IMAGE \<noteq> 0 then block_index
      else if gflags AND ZUPT_FLAG_DEDUP \<noteq> 0 \<and> gflags AND ZUPT_FLAG_AUTH_DEDUP_REFS = 0 then 0
      else push_bit 32 (word_of_nat (entry_index + 1)) OR block_index)"

abbreviation (input) ZUPT_COMMENT_AAD_SEQ :: u64 where "ZUPT_COMMENT_AAD_SEQ \<equiv> 0xFFFFFFFFFFFFFFFE"
abbreviation (input) index_aad_seq :: u64 where "index_aad_seq \<equiv> 0xFFFFFFFFFFFFFFFF"

lemma logical_aad_seq_nat:
  assumes "fi < 2 ^ 31 - 1" "bi < 2 ^ 32"
  shows "unat (logical_aad_seq fi (word_of_nat bi)) = (fi + 1) * 2 ^ 32 + bi"
proof -
  have u: "unat (word_of_nat (fi + 1) :: u64) = fi + 1" "unat (word_of_nat bi :: u64) = bi"
    using assms by (intro unat_small; simp)+
  then have "unat (word_of_nat bi :: u64) < 2 ^ 32" "unat (word_of_nat (fi + 1) :: u64) < 2 ^ 31"
    using assms by simp_all
  from unat_push_or [OF this] u show ?thesis by (simp add: logical_aad_seq_def)
qed

lemma archive_data_aad_seq_new:
  assumes "gflags AND ZUPT_FLAG_DISK_IMAGE = 0"
    "gflags AND ZUPT_FLAG_DEDUP = 0 \<or> gflags AND ZUPT_FLAG_AUTH_DEDUP_REFS \<noteq> 0"
  shows "archive_data_aad_seq gflags fi bi = logical_aad_seq fi bi"
  using assms by (auto simp: archive_data_aad_seq_def logical_aad_seq_def)

lemma base_digits_unique: "(a * n + b = c * n + d) \<Longrightarrow> b < n \<Longrightarrow> d < n \<Longrightarrow> a = (c :: nat)"
  by (metis div_mult_self3 div_less add.commute add_cancel_left_right less_nat_zero_code not_gr_zero)

lemma logical_aad_seq_inject:
  assumes "fi < 2 ^ 31 - 1" "bi < 2 ^ 32" "fj < 2 ^ 31 - 1" "bj < 2 ^ 32"
  shows "logical_aad_seq fi (word_of_nat bi) = logical_aad_seq fj (word_of_nat bj) \<longleftrightarrow> fi = fj \<and> bi = bj"
proof
  assume "logical_aad_seq fi (word_of_nat bi) = logical_aad_seq fj (word_of_nat bj)"
  then have e: "(fi + 1) * 2 ^ 32 + bi = (fj + 1) * 2 ^ 32 + bj"
    by (metis assms logical_aad_seq_nat)
  have "fi + 1 = fj + 1" by (rule base_digits_unique [OF e assms(2,4)])
  with e show "fi = fj \<and> bi = bj" by simp
qed simp

lemma logical_aad_seq_reserved:
  assumes "fi < 2 ^ 31 - 1" "bi < 2 ^ 32"
  shows "logical_aad_seq fi (word_of_nat bi) < ZUPT_COMMENT_AAD_SEQ"
  using logical_aad_seq_nat [OF assms] assms by (simp add: word_less_nat_alt)

section \<open>The sequence numbers of an old disk archive\<close>

record zupt_legacy_disk_aad_entry_t =
  ld_offset :: u64
  ld_aad_seq :: u64

text \<open>The entries in use are the list; \<open>count\<close> is its length.\<close>

record zupt_legacy_disk_aad_map_t =
  ld_entries :: "zupt_legacy_disk_aad_entry_t list"
  ld_capacity :: nat

text \<open>Room for one more entry: the array doubles, up to the number of blocks.\<close>

definition aad_map_reserve ::
  "(nat \<Rightarrow> bool) \<Rightarrow> nat \<Rightarrow> zupt_legacy_disk_aad_map_t \<Rightarrow> zupt_legacy_disk_aad_map_t result" where
  "aad_map_reserve alloc block_count m =
     (if length (ld_entries m) = ld_capacity m then
        let new_capacity = (if ld_capacity m \<noteq> 0 then ld_capacity m * 2 else 64) in
        if new_capacity < ld_capacity m \<or> new_capacity > (2 ^ 64 - 1) div 16 then Inl ZUPT_ERR_OVERFLOW
        else
          let new_capacity = (if new_capacity > block_count then block_count else new_capacity) in
          if \<not> alloc (new_capacity * 16) then Inl ZUPT_ERR_NOMEM
          else Inr (m\<lparr>ld_capacity := new_capacity\<rparr>)
      else Inr m)"

text \<open>\<open>n\<close> counts the frames still to read and \<open>sequence\<close> those read; \<open>pos\<close> is the file position.\<close>

fun aad_map_loop ::
  "(nat \<Rightarrow> bool) \<Rightarrow> bytes \<Rightarrow> nat \<Rightarrow> nat \<Rightarrow> nat \<Rightarrow> nat \<Rightarrow> zupt_legacy_disk_aad_map_t \<Rightarrow>
     zupt_legacy_disk_aad_map_t result" where
  "aad_map_loop alloc f block_count 0 sequence pos m = Inr m"
| "aad_map_loop alloc f block_count (Suc n) sequence pos m =
     rbind (read_block alloc (drop pos f)) (\<lambda>(block, rest).
     rbind
       (if block_type block = ZUPT_BLOCK_DATA then
          rbind (aad_map_reserve alloc block_count m) (\<lambda>m.
          Inr (m\<lparr>ld_entries := ld_entries m @
            [\<lparr>ld_offset = word_of_nat pos, ld_aad_seq = word_of_nat sequence\<rparr>]\<rparr>))
        else if block_type block \<noteq> ZUPT_BLOCK_DEDUP_REF then Inl ZUPT_ERR_CORRUPT
        else Inr m)
       (\<lambda>m. aad_map_loop alloc f block_count n (sequence + 1) (length f - length rest) m))"

definition zupt_legacy_disk_aad_map_build ::
  "(nat \<Rightarrow> bool) \<Rightarrow> bytes \<Rightarrow> u64 \<Rightarrow> u32 \<Rightarrow> zupt_legacy_disk_aad_map_t result" where
  "zupt_legacy_disk_aad_map_build alloc f first_block_offset block_count =
     (if unat first_block_offset > 2 ^ 63 - 1 then Inl ZUPT_ERR_INVALID
      else aad_map_loop alloc f (unat block_count) (unat block_count) 0 (unat first_block_offset)
             \<lparr>ld_entries = [], ld_capacity = 0\<rparr>)"

function aad_map_search :: "zupt_legacy_disk_aad_entry_t list \<Rightarrow> u64 \<Rightarrow> nat \<Rightarrow> nat \<Rightarrow> nat" where
  "aad_map_search entries offset left right =
     (if left < right then
        let middle = left + (right - left) div 2; candidate = ld_offset (entries ! middle) in
        if candidate < offset then aad_map_search entries offset (middle + 1) right
        else aad_map_search entries offset left middle
      else left)"
  by pat_completeness auto
termination
  by (relation "measure (\<lambda>(_, _, left, right). right - left)") auto

declare aad_map_search.simps [simp del]

definition zupt_legacy_disk_aad_map_lookup :: "zupt_legacy_disk_aad_map_t \<Rightarrow> u64 \<Rightarrow> u64 option" where
  "zupt_legacy_disk_aad_map_lookup m offset =
     (let left = aad_map_search (ld_entries m) offset 0 (length (ld_entries m)) in
      if left \<ge> length (ld_entries m) \<or> ld_offset (ld_entries m ! left) \<noteq> offset then None
      else Some (ld_aad_seq (ld_entries m ! left)))"

text \<open>The search finds the first entry that does not lie before the offset.\<close>

lemma aad_map_search_bound:
  assumes "sorted_wrt (<) (map ld_offset es)" "right \<le> length es" "left \<le> right"
    and "\<forall>i<left. ld_offset (es ! i) < off" "\<forall>i. right \<le> i \<longrightarrow> i < length es \<longrightarrow> \<not> ld_offset (es ! i) < off"
  shows "let k = aad_map_search es off left right in
    k \<le> length es \<and> (\<forall>i<k. ld_offset (es ! i) < off) \<and> (\<forall>i. k \<le> i \<longrightarrow> i < length es \<longrightarrow> \<not> ld_offset (es ! i) < off)"
  using assms
proof (induction es off left right rule: aad_map_search.induct)
  case (1 es off left right)
  have mono: "ld_offset (es ! i) \<le> ld_offset (es ! j)" if "i \<le> j" "j < length es" for i j
    using sorted_wrt_nth_less [OF 1(3), of i j] that by (cases "i = j") auto
  show ?case
  proof (cases "left < right")
    case True
    define mid where "mid = left + (right - left) div 2"
    have mid: "left \<le> mid" "mid < right" "mid < length es" using True 1(4) by (auto simp: mid_def)
    show ?thesis
    proof (cases "ld_offset (es ! mid) < off")
      case lt: True
      have "\<forall>i<mid + 1. ld_offset (es ! i) < off"
        using le_less_trans [OF mono [OF _ mid(3)] lt] by simp
      with 1(1) [OF True mid_def refl lt 1(3)] 1(4,7) mid True lt show ?thesis
        by (subst aad_map_search.simps) (simp add: mid_def Let_def)
    next
      case ge: False
      have "\<forall>i. mid \<le> i \<longrightarrow> i < length es \<longrightarrow> \<not> ld_offset (es ! i) < off"
        using mono [of mid] ge by (meson le_less_trans)
      with 1(2) [OF True mid_def refl ge 1(3)] 1(4,6) mid True ge show ?thesis
        by (subst aad_map_search.simps) (simp add: mid_def Let_def)
    qed
  next
    case False
    with 1(4-7) show ?thesis by (subst aad_map_search.simps) simp
  qed
qed

lemma aad_map_lookup_iff:
  assumes "sorted_wrt (<) (map ld_offset (ld_entries m))"
  shows "zupt_legacy_disk_aad_map_lookup m off = Some s \<longleftrightarrow>
    \<lparr>ld_offset = off, ld_aad_seq = s\<rparr> \<in> set (ld_entries m)"
proof -
  let ?es = "ld_entries m"
  define k where "k = aad_map_search ?es off 0 (length ?es)"
  have k: "k \<le> length ?es" "\<forall>i<k. ld_offset (?es ! i) < off"
    "\<forall>i. k \<le> i \<longrightarrow> i < length ?es \<longrightarrow> \<not> ld_offset (?es ! i) < off"
    using aad_map_search_bound [OF assms, of "length ?es" 0 off] by (simp_all add: k_def Let_def)
  have l: "zupt_legacy_disk_aad_map_lookup m off = Some s \<longleftrightarrow>
      k < length ?es \<and> ?es ! k = \<lparr>ld_offset = off, ld_aad_seq = s\<rparr>"
    by (cases "?es ! k") (auto simp: zupt_legacy_disk_aad_map_lookup_def Let_def simp flip: k_def)
  show ?thesis
  proof
    assume "\<lparr>ld_offset = off, ld_aad_seq = s\<rparr> \<in> set ?es"
    then obtain i where i: "i < length ?es" "?es ! i = \<lparr>ld_offset = off, ld_aad_seq = s\<rparr>"
      by (metis in_set_conv_nth)
    have "k \<le> i" using k(2) i(2) by (metis less_irrefl not_le_imp_less zupt_legacy_disk_aad_entry_t.select_convs(1))
    moreover have "\<not> k < i"
      using sorted_wrt_nth_less [OF assms, of k i] k(3) i by auto
    ultimately show "zupt_legacy_disk_aad_map_lookup m off = Some s" using i l by simp
  qed (use l nth_mem in fastforce)
qed

text \<open>The frames of a file from a position on.\<close>

fun block_walk :: "(nat \<Rightarrow> bool) \<Rightarrow> bytes \<Rightarrow> nat \<Rightarrow> nat \<Rightarrow> (nat \<times> zupt_block_t) list result" where
  "block_walk alloc f pos 0 = Inr []"
| "block_walk alloc f pos (Suc n) =
     rbind (read_block alloc (drop pos f)) (\<lambda>(b, rest).
     rbind (block_walk alloc f (length f - length rest) n) (\<lambda>bs. Inr ((pos, b) # bs)))"

lemma read_block_consumes:
  "read_block alloc s = Inr (b, r) \<Longrightarrow> length r + 2 \<le> length s"
  by (auto simp: read_block_iff write_block_def write_preface_def zupt_w8_def)

lemma block_walk_sorted:
  "block_walk alloc f pos n = Inr bs \<Longrightarrow>
     sorted_wrt (<) (map fst bs) \<and> (\<forall>q \<in> set (map fst bs). pos \<le> q \<and> q < length f) \<and> length bs = n"
proof (induction n arbitrary: pos bs)
  case (Suc n)
  then obtain b rest bs' where r: "read_block alloc (drop pos f) = Inr (b, rest)"
    "block_walk alloc f (length f - length rest) n = Inr bs'" "bs = (pos, b) # bs'"
    by (auto simp: rbind_Inr_iff)
  with Suc.IH [OF r(2)] read_block_consumes [OF r(1)] show ?case by fastforce
qed simp

definition data_entries :: "nat \<Rightarrow> (nat \<times> zupt_block_t) list \<Rightarrow> zupt_legacy_disk_aad_entry_t list" where
  "data_entries sq bs =
     map (\<lambda>(i, q, b). \<lparr>ld_offset = word_of_nat q, ld_aad_seq = word_of_nat i\<rparr>)
       (filter (\<lambda>(i, q, b). block_type b = ZUPT_BLOCK_DATA) (List.enumerate sq bs))"

lemma aad_map_reserve_entries: "aad_map_reserve alloc bc m = Inr m' \<Longrightarrow> ld_entries m' = ld_entries m"
  by (auto simp: aad_map_reserve_def Let_def split: if_splits)

lemma aad_map_loop_entries:
  "aad_map_loop alloc f bc n sq pos m = Inr m' \<Longrightarrow>
     \<exists>bs. block_walk alloc f pos n = Inr bs \<and> ld_entries m' = ld_entries m @ data_entries sq bs \<and>
       (\<forall>(q, b) \<in> set bs. block_type b = ZUPT_BLOCK_DATA \<or> block_type b = ZUPT_BLOCK_DEDUP_REF)"
proof (induction n arbitrary: sq pos m)
  case (Suc n)
  then obtain b rest m1 where r: "read_block alloc (drop pos f) = Inr (b, rest)"
    and l: "aad_map_loop alloc f bc n (sq + 1) (length f - length rest) m1 = Inr m'"
    and m1: "ld_entries m1 = ld_entries m @ (if block_type b = ZUPT_BLOCK_DATA
        then [\<lparr>ld_offset = word_of_nat pos, ld_aad_seq = word_of_nat sq\<rparr>] else [])"
    and t: "block_type b = ZUPT_BLOCK_DATA \<or> block_type b = ZUPT_BLOCK_DEDUP_REF"
    by (auto simp: rbind_Inr_iff aad_map_reserve_entries split: if_splits)
  from Suc.IH [OF l] obtain bs where bs: "block_walk alloc f (length f - length rest) n = Inr bs"
    "ld_entries m' = ld_entries m1 @ data_entries (sq + 1) bs"
    "\<forall>(q, b) \<in> set bs. block_type b = ZUPT_BLOCK_DATA \<or> block_type b = ZUPT_BLOCK_DEDUP_REF" by blast
  have "block_walk alloc f pos (Suc n) = Inr ((pos, b) # bs)" using r bs(1) by simp
  moreover have "ld_entries m' = ld_entries m @ data_entries sq ((pos, b) # bs)"
    using bs(2) m1 by (simp add: data_entries_def)
  ultimately show ?case using bs(3) t by auto
qed (simp add: data_entries_def)

lemma data_entries_sorted:
  assumes "sorted_wrt (<) (map fst bs)" "\<forall>q \<in> set (map fst bs). q < 2 ^ 64"
  shows "sorted_wrt (<) (map ld_offset (data_entries sq bs)) \<and>
    (\<forall>e \<in> set (data_entries sq bs). unat (ld_offset e) \<in> set (map fst bs))"
  using assms
proof (induction bs arbitrary: sq)
  case (Cons a bs)
  obtain q b where a: "a = (q, b)" by fastforce
  from Cons.IH [of "Suc sq"] Cons.prems
  have IH: "sorted_wrt (<) (map ld_offset (data_entries (Suc sq) bs))"
    "\<forall>e \<in> set (data_entries (Suc sq) bs). unat (ld_offset e) \<in> set (map fst bs)" by simp_all
  have "word_of_nat q < ld_offset e" if "e \<in> set (data_entries (Suc sq) bs)" for e
    using IH(2) that Cons.prems by (fastforce simp: word_less_nat_alt unat_small a)
  moreover have "data_entries sq (a # bs) =
      (if block_type b = ZUPT_BLOCK_DATA then [\<lparr>ld_offset = word_of_nat q, ld_aad_seq = word_of_nat sq\<rparr>] else [])
      @ data_entries (Suc sq) bs" by (simp add: data_entries_def a)
  ultimately show ?case using IH Cons.prems(2) by (auto simp: a unat_small)
qed (simp add: data_entries_def)

lemma data_entries_iff:
  "\<lparr>ld_offset = off, ld_aad_seq = s\<rparr> \<in> set (data_entries 0 bs) \<longleftrightarrow>
     (\<exists>i<length bs. s = word_of_nat i \<and> off = word_of_nat (fst (bs ! i)) \<and> block_type (snd (bs ! i)) = ZUPT_BLOCK_DATA)"
proof
  assume "\<exists>i<length bs. s = word_of_nat i \<and> off = word_of_nat (fst (bs ! i)) \<and> block_type (snd (bs ! i)) = ZUPT_BLOCK_DATA"
  then obtain i where "i < length bs" "s = word_of_nat i" "off = word_of_nat (fst (bs ! i))"
    "block_type (snd (bs ! i)) = ZUPT_BLOCK_DATA" by blast
  note i = this
  have e: "\<lparr>ld_offset = off, ld_aad_seq = s\<rparr> =
      (\<lambda>(i, q, b). \<lparr>ld_offset = word_of_nat q, ld_aad_seq = word_of_nat i\<rparr>) (i, bs ! i)"
    unfolding i(2,3) by (cases "bs ! i") simp
  have "(i, bs ! i) \<in> set (List.enumerate 0 bs)"
    using i(1) by (simp add: in_set_enumerate_eq)
  moreover have "case (i, bs ! i) of (i, q, b) \<Rightarrow> block_type b = ZUPT_BLOCK_DATA"
    using i(4) by (cases "bs ! i") simp
  ultimately have "(i, bs ! i) \<in> set (filter (\<lambda>(i, q, b). block_type b = ZUPT_BLOCK_DATA) (List.enumerate 0 bs))"
    by simp
  then show "\<lparr>ld_offset = off, ld_aad_seq = s\<rparr> \<in> set (data_entries 0 bs)"
    unfolding data_entries_def set_map e by (rule imageI)
next
  assume "\<lparr>ld_offset = off, ld_aad_seq = s\<rparr> \<in> set (data_entries 0 bs)"
  then obtain i q b where "(i, q, b) \<in> set (List.enumerate 0 bs)" "block_type b = ZUPT_BLOCK_DATA"
    "off = word_of_nat q" "s = word_of_nat i"
    unfolding data_entries_def set_map set_filter by auto
  then show "\<exists>i<length bs. s = word_of_nat i \<and> off = word_of_nat (fst (bs ! i)) \<and> block_type (snd (bs ! i)) = ZUPT_BLOCK_DATA"
    by (intro exI [of _ i]) (simp add: in_set_enumerate_eq)
qed

lemma legacy_aad_map_lookup:
  assumes "zupt_legacy_disk_aad_map_build alloc f first bc = Inr m" "length f < 2 ^ 63"
  shows "\<exists>bs. block_walk alloc f (unat first) (unat bc) = Inr bs \<and>
    (\<forall>off s. zupt_legacy_disk_aad_map_lookup m off = Some s \<longleftrightarrow>
      (\<exists>i<length bs. s = word_of_nat i \<and> unat off = fst (bs ! i) \<and> block_type (snd (bs ! i)) = ZUPT_BLOCK_DATA))"
proof -
  from assms(1) have "aad_map_loop alloc f (unat bc) (unat bc) 0 (unat first) \<lparr>ld_entries = [], ld_capacity = 0\<rparr> = Inr m"
    by (simp add: zupt_legacy_disk_aad_map_build_def split: if_splits)
  from aad_map_loop_entries [OF this] obtain bs where
    bs: "block_walk alloc f (unat first) (unat bc) = Inr bs" "ld_entries m = data_entries 0 bs" by auto
  note w = block_walk_sorted [OF bs(1)]
  have lt: "q < 2 ^ 64" if "q \<in> set (map fst bs)" for q
  proof -
    have "q < length f" using w that by blast
    also have "\<dots> < 2 ^ 64" using assms(2) by simp
    finally show ?thesis .
  qed
  then have s: "sorted_wrt (<) (map ld_offset (ld_entries m))"
    unfolding bs(2) using w data_entries_sorted by blast
  have "off = word_of_nat (fst (bs ! i)) \<longleftrightarrow> unat off = fst (bs ! i)" if "i < length bs" for off :: u64 and i
  proof -
    have "fst (bs ! i) < 2 ^ 64" using that by (intro lt) simp
    then have "unat (word_of_nat (fst (bs ! i)) :: u64) = fst (bs ! i)" by (rule unat_small)
    moreover have "(word_of_nat (unat off) :: u64) = off" by simp
    ultimately show ?thesis by metis
  qed
  then have "\<forall>off s. zupt_legacy_disk_aad_map_lookup m off = Some s \<longleftrightarrow>
      (\<exists>i<length bs. s = word_of_nat i \<and> unat off = fst (bs ! i) \<and> block_type (snd (bs ! i)) = ZUPT_BLOCK_DATA)"
    unfolding aad_map_lookup_iff [OF s] bs(2) data_entries_iff by blast
  with bs(1) show ?thesis by blast
qed

section \<open>Properties\<close>

text \<open>
  C12. Every chunk of at most \<open>ZUPT_MAX_BLOCK_SZ\<close> bytes that the single-threaded writer frames is
  read back, for every codec, benefit estimate and level, sealed or not, with or without the
  preface as additional data: the bytes written are a block frame of the announced kind, and
  \<open>decompress_block\<close> at the same position with the same keyring returns the chunk. Two things
  are required. The allocations inside the code construction of the LZH encoder succeeded
  (\<open>codec_mem\<close>; when they fail the code writes blocks that do not decode). With VaptVupt the
  reader has the same block decoders as the read-back check of \<open>vvz_compress\<close> (\<open>own_decoder\<close>);
  nothing is assumed of the VaptVupt encoder itself.
\<close>

theorem data_block_roundtrip:
  assumes "compress_chunk ce codec level x = (c, p)" "own_decoder codec ce vvz" "codec_mem ce"
    and "seal_payload m nonce (active kr) kr ZUPT_BLOCK_DATA c (length x) p (zupt_xxh64 x 0) sq = Some fp"
    and "length nonce = 16" "length x \<le> ZUPT_MAX_BLOCK_SZ" "\<forall>n. alloc n" "block_mem al"
  shows "\<exists>b. read_block alloc (frame_block ZUPT_BLOCK_DATA c (length x) (zupt_xxh64 x 0) fp @ r) = Inr (b, r) \<and>
    block_type b = ZUPT_BLOCK_DATA \<and> decompress_block al vvz b (Some kr) sq = Inr x"
proof -
  have l: "length p \<le> ZUPT_MAX_BLOCK_SZ + 900"
    using compress_chunk_length [OF assms(1)] assms(6) by simp
  have dec: "decode_payload al vvz c p (length x) = Inr x"
    by (rule decode_compress_chunk [OF assms(1,3,8,6,2)])
  let ?b = "frame_of ZUPT_BLOCK_DATA c (length x) (zupt_xxh64 x 0) fp"
  have "read_block alloc (write_block ?b @ r) = Inr (?b, r)"
    by (rule block_frame.get_put [OF frame_wf [OF assms(4,5) l assms(6,7)]])
  moreover have "decompress_block al vvz ?b (Some kr) sq = Inr x"
    by (rule decompress_frame [OF assms(4,5) l assms(6,8) refl dec])
  ultimately show ?thesis
    unfolding frame_block_eq by (intro exI [of _ ?b] conjI) (simp_all add: frame_of_def)
qed

definition example_keys :: zupt_keyring_t where
  "example_keys = zupt_keyring_init\<lparr>active := True, use_preface_aad := True\<rparr>"

definition example_env :: codec_env where
  "example_env = \<lparr>ce_benefit = (\<lambda>_. True), ce_table = True, ce_transformed = True,
     ce_lzh_pred = \<lparr>al_rle = True, al_tab = True, al_ll = (True, True, True), al_d = (True, True, True)\<rparr>,
     ce_lzh = \<lparr>al_rle = True, al_tab = True, al_ll = (True, True, True), al_d = (True, True, True)\<rparr>,
     ce_lz = True, ce_vv_tmp = True, ce_vv_bound = (\<lambda>n. n), ce_vv_check = True,
     ce_vv_blocks = no_block_decoders, ce_vv_engine = (\<lambda>_ _ _. Inl VV_ERR_PARAM)\<rparr>"

lemma example_sealed:
  "\<exists>fp. seal_payload True (replicate 16 9) True example_keys ZUPT_BLOCK_DATA c n p ck sq = Some fp"
  by (simp add: seal_payload_def example_keys_def zupt_encrypt_buffer_aad_eq Let_def)

theorem data_block_roundtrip_witness:
  "\<exists>fp b. seal_payload True (replicate 16 9) True example_keys ZUPT_BLOCK_DATA ZUPT_CODEC_STORE 3 [1, 2, 3]
       (zupt_xxh64 [1, 2, 3] 0) 7 = Some fp \<and>
     read_block (\<lambda>_. True) (frame_block ZUPT_BLOCK_DATA ZUPT_CODEC_STORE 3 (zupt_xxh64 [1, 2, 3] 0) fp) = Inr (b, []) \<and>
     decompress_block \<lparr>ba_plain = True, ba_out = True, ba_pred = True, ba_lut = True, ba_tmp = True\<rparr> (\<lambda>_ _. None) b
       (Some example_keys) 7 = Inr [1, 2, 3]"
proof -
  have c: "compress_chunk example_env ZUPT_CODEC_STORE 6 [1, 2, 3] = (ZUPT_CODEC_STORE, [1, 2, 3])"
    by (simp add: compress_chunk_def compress_try_def)
  have l: "length [1, 2, 3 :: u8] = 3" by simp
  obtain fp where fp: "seal_payload True (replicate 16 9) (active example_keys) example_keys ZUPT_BLOCK_DATA
      ZUPT_CODEC_STORE 3 [1, 2, 3] (zupt_xxh64 [1, 2, 3] 0) 7 = Some fp"
    using example_sealed by (fastforce simp: example_keys_def)
  have "\<exists>b. read_block (\<lambda>_. True) (frame_block ZUPT_BLOCK_DATA ZUPT_CODEC_STORE (length [1, 2, 3 :: u8])
        (zupt_xxh64 [1, 2, 3] 0) fp @ []) = Inr (b, []) \<and> block_type b = ZUPT_BLOCK_DATA \<and>
      decompress_block \<lparr>ba_plain = True, ba_out = True, ba_pred = True, ba_lut = True, ba_tmp = True\<rparr> (\<lambda>_ _. None) b
        (Some example_keys) 7 = Inr [1, 2, 3]"
    using fp [folded l] by (intro data_block_roundtrip [where m = True and nonce = "replicate 16 9", OF c])
      (simp_all add: codec_mem_def lzh_mem_def example_env_def block_mem_def own_decoder_def ZUPT_MAX_BLOCK_SZ_def)
  with fp show ?thesis unfolding l by (auto simp: example_keys_def)
qed

text \<open>
  C14. In an encrypted archive \<open>decompress_block\<close> fails closed. A block whose encryption flag
  was cleared is refused with an authentication error whatever its codec, payload and checksum
  say; and a block whose content is returned carried the flag, its payload ends in a MAC under
  the keyring, the content is what the codec makes of the authenticated plain bytes, it has
  the announced length, and it matches the checksum. What the MAC covers depends on the archive.
  When it binds prefaces, as all encrypted archives of this writer do, the MAC is the one of the
  block's own preface, its package and exactly this position. Otherwise it covers the package
  and the position or, as the reader still accepts for the oldest archives, the package alone.
\<close>

theorem encrypted_block_fails_closed:
  assumes "active k" "unat (uncompressed_size b) \<le> ZUPT_MAX_BLOCK_SZ"
    "unat (compressed_size b) \<le> ZUPT_MAX_BLOCK_SZ + 1024"
  shows "(block_flags b AND ZUPT_BFLAG_ENCRYPTED = 0 \<longrightarrow>
      decompress_block al vvz b (Some k) sq = Inl ZUPT_ERR_AUTH_FAIL) \<and>
    (\<forall>out. decompress_block al vvz b (Some k) sq = Inr out \<longrightarrow>
      block_flags b AND ZUPT_BFLAG_ENCRYPTED \<noteq> 0 \<and>
      (let p = take (unat (compressed_size b)) (payload b); tag = drop (length p - 32) p in
        48 \<le> length p \<and>
        (use_preface_aad k \<longrightarrow> tag = package_mac k (zupt_serialize_preface_aad b) (package_body p) sq) \<and>
        (\<not> use_preface_aad k \<longrightarrow> tag = package_mac k [] (package_body p) sq \<or> tag = hmac_spec (mac_key k) (package_body p)) \<and>
        (out \<noteq> [] \<longrightarrow> decode_payload al vvz (codec_id b) (package_plain k p) (unat (uncompressed_size b)) = Inr out)) \<and>
      length out = unat (uncompressed_size b) \<and> (out \<noteq> [] \<longrightarrow> zupt_xxh64 out 0 = checksum b))"
proof (intro conjI impI allI)
  show "decompress_block al vvz b (Some k) sq = Inl ZUPT_ERR_AUTH_FAIL" if "block_flags b AND ZUPT_BFLAG_ENCRYPTED = 0"
    by (rule decompress_block_downgrade [OF assms(1) that assms(2,3)])
  fix out assume d: "decompress_block al vvz b (Some k) sq = Inr out"
  from decompress_block_Inr(3) [OF d] obtain p where p: "open_payload al b (Some k) sq = Inr p"
    "out \<noteq> [] \<longrightarrow> decode_payload al vvz (codec_id b) p (unat (uncompressed_size b)) = Inr out" by blast
  define pk where "pk = take (unat (compressed_size b)) (payload b)"
  have ne: "zupt_serialize_preface_aad b \<noteq> []" by (simp add: zupt_serialize_preface_aad_def)
  note o = open_payload_Inr [OF p(1) assms(1), folded pk_def]
  have "48 \<le> length pk"
    "use_preface_aad k \<longrightarrow> drop (length pk - 32) pk = package_mac k (zupt_serialize_preface_aad b) (package_body pk) sq"
    "\<not> use_preface_aad k \<longrightarrow> drop (length pk - 32) pk = package_mac k [] (package_body pk) sq \<or>
       drop (length pk - 32) pk = hmac_spec (mac_key k) (package_body pk)"
    using o ne by (cases "use_preface_aad k"; simp add: package_authentic_def ref_aad_def)+
  with o p(2)
  show "block_flags b AND ZUPT_BFLAG_ENCRYPTED \<noteq> 0"
    "let p = take (unat (compressed_size b)) (payload b); tag = drop (length p - 32) p in
        48 \<le> length p \<and>
        (use_preface_aad k \<longrightarrow> tag = package_mac k (zupt_serialize_preface_aad b) (package_body p) sq) \<and>
        (\<not> use_preface_aad k \<longrightarrow> tag = package_mac k [] (package_body p) sq \<or> tag = hmac_spec (mac_key k) (package_body p)) \<and>
        (out \<noteq> [] \<longrightarrow> decode_payload al vvz (codec_id b) (package_plain k p) (unat (uncompressed_size b)) = Inr out)"
    unfolding Let_def pk_def [symmetric] by blast+
  show "length out = unat (uncompressed_size b)" by (rule decompress_block_Inr(1) [OF d])
  show "zupt_xxh64 out 0 = checksum b" if "out \<noteq> []" by (rule decompress_block_Inr(2) [OF d that])
qed

theorem encrypted_block_fails_closed_witness:
  "decompress_block \<lparr>ba_plain = True, ba_out = True, ba_pred = True, ba_lut = True, ba_tmp = True\<rparr> (\<lambda>_ _. None)
     \<lparr>block_type = ZUPT_BLOCK_DATA, codec_id = ZUPT_CODEC_STORE, block_flags = 0, uncompressed_size = 2,
      compressed_size = 2, checksum = zupt_xxh64 [1, 2] 0, payload = [1, 2]\<rparr> (Some example_keys) 7 =
     Inl ZUPT_ERR_AUTH_FAIL"
  using encrypted_block_fails_closed [where k = example_keys and b = "\<lparr>block_type = ZUPT_BLOCK_DATA, codec_id = ZUPT_CODEC_STORE,
      block_flags = 0, uncompressed_size = 2, compressed_size = 2, checksum = zupt_xxh64 [1, 2] 0, payload = [1, 2]\<rparr>"]
  by (simp add: example_keys_def ZUPT_MAX_BLOCK_SZ_def)

text \<open>
  C33. The position a block is authenticated for is unique in the archive: writer and reader of a
  file archive (not a disk image, and not an old deduplicated archive) derive the same sequence
  number, two blocks of any two files never share one, and none is that of the comment or of
  the index.
\<close>

theorem block_positions_unique:
  assumes "gflags AND ZUPT_FLAG_DISK_IMAGE = 0"
    "gflags AND ZUPT_FLAG_DEDUP = 0 \<or> gflags AND ZUPT_FLAG_AUTH_DEDUP_REFS \<noteq> 0"
    "fi < 2 ^ 31 - 1" "bi < 2 ^ 32" "fj < 2 ^ 31 - 1" "bj < 2 ^ 32"
  shows "archive_data_aad_seq gflags fi (word_of_nat bi) = logical_aad_seq fi (word_of_nat bi) \<and>
    (archive_data_aad_seq gflags fi (word_of_nat bi) = archive_data_aad_seq gflags fj (word_of_nat bj) \<longleftrightarrow>
      fi = fj \<and> bi = bj) \<and>
    archive_data_aad_seq gflags fi (word_of_nat bi) < ZUPT_COMMENT_AAD_SEQ \<and> ZUPT_COMMENT_AAD_SEQ < index_aad_seq"
  unfolding archive_data_aad_seq_new [OF assms(1,2)]
  using logical_aad_seq_inject [OF assms(3-6)] logical_aad_seq_reserved [OF assms(3,4)] by simp

theorem block_positions_unique_witness:
  "archive_data_aad_seq 0x701 2 5 \<noteq> archive_data_aad_seq 0x701 5 2"
proof -
  have "archive_data_aad_seq 0x701 2 (word_of_nat 5) = archive_data_aad_seq 0x701 5 (word_of_nat 2) \<longleftrightarrow> (2 :: nat) = 5 \<and> (5 :: nat) = 2"
    by (rule block_positions_unique [THEN conjunct2, THEN conjunct1]) simp_all
  then show ?thesis by simp
qed

text \<open>
  C34. The map built for an old encrypted disk archive, when it is built at all, gives a sequence
  number for precisely the offsets of its data frames, and the number is the frame's position
  among all frames walked from the first; the binary search finds it whatever the number of
  frames.
\<close>

theorem legacy_aad_map_exact:
  assumes "zupt_legacy_disk_aad_map_build alloc f first bc = Inr m" "length f < 2 ^ 63"
  shows "\<exists>bs. block_walk alloc f (unat first) (unat bc) = Inr bs \<and>
    (\<forall>off s. zupt_legacy_disk_aad_map_lookup m off = Some s \<longleftrightarrow>
      (\<exists>i<length bs. s = word_of_nat i \<and> unat off = fst (bs ! i) \<and> block_type (snd (bs ! i)) = ZUPT_BLOCK_DATA))"
  by (rule legacy_aad_map_lookup [OF assms])

definition example_data_block :: zupt_block_t where
  "example_data_block = \<lparr>block_type = ZUPT_BLOCK_DATA, codec_id = ZUPT_CODEC_STORE, block_flags = 0,
     uncompressed_size = 2, compressed_size = 2, checksum = 5, payload = [1, 2]\<rparr>"

theorem legacy_aad_map_exact_witness:
  "\<exists>m. zupt_legacy_disk_aad_map_build (\<lambda>_. True) (write_block example_data_block) 0 1 = Inr m \<and>
     zupt_legacy_disk_aad_map_lookup m 0 = Some 0 \<and> zupt_legacy_disk_aad_map_lookup m 1 = None"
proof -
  have wf: "block_wf (\<lambda>_. True) example_data_block"
    by (simp add: block_wf_def example_data_block_def ZUPT_MAX_BLOCK_SZ_def)
  have r: "read_block (\<lambda>_. True) (write_block example_data_block) = Inr (example_data_block, [])"
    using block_frame.get_put [OF wf, of "[]"] by simp
  obtain m where m: "zupt_legacy_disk_aad_map_build (\<lambda>_. True) (write_block example_data_block) 0 1 = Inr m"
    using r by (simp add: zupt_legacy_disk_aad_map_build_def aad_map_reserve_def example_data_block_def Let_def)
  have l: "length (write_block example_data_block) < 2 ^ 63"
    by (simp add: write_block_def write_preface_def zupt_w8_def zupt_w16le_def zupt_w64le_def zupt_write_varint_def
      zupt_encode_varint.simps example_data_block_def Let_def)
  from legacy_aad_map_exact [OF m l] obtain bs where
    bs: "block_walk (\<lambda>_. True) (write_block example_data_block) 0 1 = Inr bs"
    "\<And>off s. zupt_legacy_disk_aad_map_lookup m off = Some s \<longleftrightarrow>
      (\<exists>i<length bs. s = word_of_nat i \<and> unat off = fst (bs ! i) \<and> block_type (snd (bs ! i)) = ZUPT_BLOCK_DATA)"
    by (metis One_nat_def unat_0 unat_1)
  from bs(1) r have b: "bs = [(0, example_data_block)]" by (simp add: numeral_eq_Suc)
  have "zupt_legacy_disk_aad_map_lookup m 0 = Some 0" unfolding bs(2) by (simp add: b example_data_block_def)
  moreover have "zupt_legacy_disk_aad_map_lookup m 1 = None"
  proof (rule ccontr)
    assume "zupt_legacy_disk_aad_map_lookup m 1 \<noteq> None"
    then obtain s where "zupt_legacy_disk_aad_map_lookup m 1 = Some s" by blast
    then show False unfolding bs(2) by (simp add: b)
  qed
  ultimately show ?thesis using m by blast
qed

end
