(* ===== verification/Index.thy ===== *)
theory Index
  imports Blocks "HOL-Library.List_Lexorder"
begin

text \<open>
  The central index (\<open>src/zupt_format.c\<close>): its entries, the writer that lays them out, the
  parser that reads them back from bytes an attacker may have chosen, the parser of the old
  disk layout, and the check that every entry has a destination of its own. A path is the
  string without its terminating NUL. The check of destinations is the portable one; its
  additional pass over wide strings on Windows is not modelled.
\<close>

section \<open>Entries and their destinations\<close>

record zupt_index_entry_t =
  ix_path :: bytes
  ix_uncompressed_size :: u64
  ix_compressed_size :: u64
  ix_modification_time :: u64
  ix_content_hash :: u64
  ix_first_block_offset :: u64
  ix_block_count :: u32
  ix_attributes :: u32

definition ZUPT_MAX_PATH :: nat where "ZUPT_MAX_PATH = 4096"
definition ZUPT_MAX_FILES :: nat where "ZUPT_MAX_FILES = 2000000"
definition ZUPT_MAX_INDEX_ALLOC_BYTES :: nat where "ZUPT_MAX_INDEX_ALLOC_BYTES = 256 * 1024 * 1024"
definition ZUPT_MIN_INDEX_ENTRY_BYTES :: nat where "ZUPT_MIN_INDEX_ENTRY_BYTES = 47"

text \<open>\<open>sizeof(zupt_index_entry_t)\<close>: the path buffer, five 64-bit and two 32-bit members.\<close>

definition index_entry_sizeof :: nat where
  "index_entry_sizeof = ZUPT_MAX_PATH + 5 * 8 + 2 * 4"

text \<open>\<open>strcmp\<close> on two strings, and the order in which \<open>qsort\<close> leaves the keys.\<close>

fun strcmp :: "bytes \<Rightarrow> bytes \<Rightarrow> int" where
  "strcmp [] [] = 0"
| "strcmp [] (b # bs) = -1"
| "strcmp (a # as) [] = 1"
| "strcmp (a # as) (b # bs) = (if a < b then -1 else if b < a then 1 else strcmp as bs)"

definition zupt_compare_path_keys :: "bytes \<Rightarrow> bytes \<Rightarrow> int" where
  "zupt_compare_path_keys a b = strcmp a b"

definition qsort_keys :: "bytes list \<Rightarrow> bytes list" where
  "qsort_keys keys = sort keys"

text \<open>The loop over neighbours in the sorted keys.\<close>

definition keys_collide :: "bytes \<Rightarrow> bytes \<Rightarrow> bool" where
  "keys_collide previous key \<longleftrightarrow>
     strcmp previous key = 0 \<or>
     (take (length previous) key = previous \<and> c_at key (length previous) = 0x2F)"

fun neighbours_collide :: "bytes list \<Rightarrow> bool" where
  "neighbours_collide (a # b # ks) \<longleftrightarrow> keys_collide a b \<or> neighbours_collide (b # ks)"
| "neighbours_collide _ \<longleftrightarrow> False"

fun destination_keys :: "(nat \<Rightarrow> bool) \<Rightarrow> bool \<Rightarrow> bytes list \<Rightarrow> bytes list result" where
  "destination_keys alloc require_safe [] = Inr []"
| "destination_keys alloc require_safe (p # ps) =
     (if require_safe \<and> \<not> zupt_path_is_safe p then Inl ZUPT_ERR_INVALID
      else if \<not> alloc (length p + 1) then Inl ZUPT_ERR_NOMEM
      else rbind (destination_keys alloc require_safe ps) (\<lambda>ks. Inr (zupt_normalize_archive_path p True # ks)))"

definition zupt_validate_archive_destinations :: "(nat \<Rightarrow> bool) \<Rightarrow> bytes list \<Rightarrow> bool \<Rightarrow> unit result" where
  "zupt_validate_archive_destinations alloc paths require_safe =
     (if length paths < 2 then
        (if length paths = 1 \<and> require_safe \<and> \<not> zupt_path_is_safe (paths ! 0) then Inl ZUPT_ERR_INVALID
         else Inr ())
      else if \<not> alloc (length paths * 8) then Inl ZUPT_ERR_NOMEM
      else
        rbind (destination_keys alloc require_safe paths) (\<lambda>keys.
        if neighbours_collide (qsort_keys keys) then Inl ZUPT_ERR_INVALID else Inr ()))"

section \<open>The layout of the index\<close>

definition index_put_u64 :: "u64 \<Rightarrow> bytes" where "index_put_u64 v = zupt_le64_put v"
definition index_put_u32 :: "u32 \<Rightarrow> bytes" where "index_put_u32 v = zupt_le32_put v"
definition index_get_u64 :: "bytes \<Rightarrow> u64" where "index_get_u64 buf = zupt_le64_get buf"
definition index_get_u32 :: "bytes \<Rightarrow> u32" where "index_get_u32 buf = zupt_le32_get buf"

definition write_index_entry :: "zupt_index_entry_t \<Rightarrow> bytes" where
  "write_index_entry e =
     zupt_encode_varint (word_of_nat (length (ix_path e))) @ ix_path e @
     index_put_u64 (ix_uncompressed_size e) @ index_put_u64 (ix_compressed_size e) @
     index_put_u64 (ix_modification_time e) @ index_put_u64 (ix_content_hash e) @
     index_put_u64 (ix_first_block_offset e) @ zupt_encode_varint (ucast (ix_block_count e)) @
     index_put_u32 (ix_attributes e)"

definition write_index :: "zupt_index_entry_t list \<Rightarrow> bytes" where
  "write_index es =
     zupt_encode_varint (word_of_nat (length es)) @
     concat (map (\<lambda>e. if ix_path e = [] then [] else write_index_entry e) es)"

section \<open>The parsers\<close>

text \<open>A varint at the front of what is left of the buffer.\<close>

definition index_varint :: "bytes \<Rightarrow> (u64 \<times> bytes) result" where
  "index_varint buf = (case zupt_decode_varint buf of None \<Rightarrow> Inl ZUPT_ERR_CORRUPT
     | Some (vn, v) \<Rightarrow> Inr (v, drop vn buf))"

definition parse_index_entry :: "bytes \<Rightarrow> (zupt_index_entry_t \<times> bytes) result" where
  "parse_index_entry buf =
     rbind (index_varint buf) (\<lambda>(plen, buf).
     if unat plen > length buf then Inl ZUPT_ERR_CORRUPT
     else if plen = 0 \<or> unat plen \<ge> ZUPT_MAX_PATH \<or> 0 \<in> set (take (unat plen) buf) then Inl ZUPT_ERR_CORRUPT
     else
       let path = take (unat plen) buf; buf = drop (unat plen) buf in
       if zupt_path_has_unsafe_text path then Inl ZUPT_ERR_CORRUPT
       else if length buf < 44 then Inl ZUPT_ERR_CORRUPT
       else
         let e = \<lparr>ix_path = path, ix_uncompressed_size = index_get_u64 buf,
                  ix_compressed_size = index_get_u64 (drop 8 buf),
                  ix_modification_time = index_get_u64 (drop 16 buf),
                  ix_content_hash = index_get_u64 (drop 24 buf),
                  ix_first_block_offset = index_get_u64 (drop 32 buf),
                  ix_block_count = 0, ix_attributes = 0\<rparr> in
         rbind (index_varint (drop 40 buf)) (\<lambda>(bc, buf).
         if unat bc > 2 ^ 32 - 1 then Inl ZUPT_ERR_CORRUPT
         else if length buf < 4 then Inl ZUPT_ERR_CORRUPT
         else Inr (e\<lparr>ix_block_count := ucast bc, ix_attributes := index_get_u32 buf\<rparr>, drop 4 buf)))"

fun parse_index_entries :: "nat \<Rightarrow> bytes \<Rightarrow> (zupt_index_entry_t list \<times> bytes) result" where
  "parse_index_entries 0 buf = Inr ([], buf)"
| "parse_index_entries (Suc n) buf =
     rbind (parse_index_entry buf) (\<lambda>(e, buf).
     rbind (parse_index_entries n buf) (\<lambda>(es, buf). Inr (e # es, buf)))"

definition parse_index :: "(nat \<Rightarrow> bool) \<Rightarrow> bytes \<Rightarrow> zupt_index_entry_t list result" where
  "parse_index alloc buf =
     rbind (index_varint buf) (\<lambda>(count, buf).
     if unat count > ZUPT_MAX_FILES then Inl ZUPT_ERR_OVERFLOW
     else if unat count > length buf div ZUPT_MIN_INDEX_ENTRY_BYTES then Inl ZUPT_ERR_CORRUPT
     else if unat count > (2 ^ 64 - 1) div index_entry_sizeof then Inl ZUPT_ERR_OVERFLOW
     else if unat count > ZUPT_MAX_INDEX_ALLOC_BYTES div index_entry_sizeof then Inl ZUPT_ERR_OVERFLOW
     else if count = 0 then (if buf = [] then Inr [] else Inl ZUPT_ERR_CORRUPT)
     else if \<not> alloc (unat count * index_entry_sizeof) then Inl ZUPT_ERR_NOMEM
     else
       rbind (parse_index_entries (unat count) buf) (\<lambda>(parsed, buf).
       if buf \<noteq> [] then Inl ZUPT_ERR_CORRUPT
       else if \<not> alloc (unat count * 8) then Inl ZUPT_ERR_NOMEM
       else
         rbind (zupt_validate_archive_destinations alloc (map ix_path parsed) False) (\<lambda>_.
         Inr parsed)))"

definition parse_legacy_disk_index :: "(nat \<Rightarrow> bool) \<Rightarrow> bytes \<Rightarrow> zupt_index_entry_t list result" where
  "parse_legacy_disk_index alloc buf =
     (if length buf < 4 \<or> index_get_u32 buf \<noteq> 1 then Inl ZUPT_ERR_CORRUPT
      else
        rbind (index_varint (drop 4 buf)) (\<lambda>(path_length, buf).
        let n = unat path_length in
        if path_length = 0 \<or> n \<ge> ZUPT_MAX_PATH \<or> n > length buf then Inl ZUPT_ERR_CORRUPT
        else if 0 \<in> set (take n buf) \<or> length buf - n \<noteq> 48 then Inl ZUPT_ERR_CORRUPT
        else if \<not> alloc index_entry_sizeof then Inl ZUPT_ERR_NOMEM
        else if zupt_path_has_unsafe_text (take n buf) then Inl ZUPT_ERR_CORRUPT
        else
          let b = drop n buf in
          Inr [\<lparr>ix_path = take n buf, ix_uncompressed_size = index_get_u64 b,
                ix_compressed_size = index_get_u64 (drop 8 b),
                ix_modification_time = index_get_u64 (drop 16 b),
                ix_content_hash = index_get_u64 (drop 24 b),
                ix_first_block_offset = index_get_u64 (drop 32 b),
                ix_block_count = index_get_u32 (drop 40 b), ix_attributes = index_get_u32 (drop 44 b)\<rparr>]))"

section \<open>Destinations are distinct\<close>

lemma strcmp_0 [simp]: "strcmp a b = 0 \<longleftrightarrow> a = b"
  by (induction a b rule: strcmp.induct) auto

text \<open>The comparison function is the order the keys are sorted by.\<close>

lemma strcmp_less: "strcmp a b < 0 \<longleftrightarrow> a < b"
  by (induction a b rule: strcmp.induct) auto

lemma destination_keys_Inr:
  "destination_keys alloc rs ps = Inr ks \<Longrightarrow>
     ks = map (\<lambda>p. zupt_normalize_archive_path p True) ps \<and> (rs \<longrightarrow> (\<forall>p \<in> set ps. zupt_path_is_safe p))"
  by (induction ps arbitrary: ks) (auto simp: rbind_Inr_iff split: if_splits)

lemma neighbours_distinct:
  "sorted ks \<Longrightarrow> \<not> neighbours_collide ks \<Longrightarrow> sorted_wrt (<) ks"
proof (induction ks rule: neighbours_collide.induct)
  case (1 a b ks)
  then have "a < b" "sorted_wrt (<) (b # ks)" by (auto simp: keys_collide_def order_le_less)
  then show ?case by (auto intro: less_trans)
qed auto

lemma neighbours_nth:
  "\<not> neighbours_collide ks \<Longrightarrow> Suc i < length ks \<Longrightarrow> \<not> keys_collide (ks ! i) (ks ! Suc i)"
proof (induction ks arbitrary: i rule: neighbours_collide.induct)
  case (1 a b ks)
  then show ?case by (cases i) auto
qed auto

lemma destinations_ok:
  assumes "zupt_validate_archive_destinations alloc ps rs = Inr ()"
  shows "distinct (map (\<lambda>p. zupt_normalize_archive_path p True) ps)" "rs \<Longrightarrow> \<forall>p \<in> set ps. zupt_path_is_safe p"
proof -
  consider "ps = []" | p where "ps = [p]" | "2 \<le> length ps"
    by (cases ps; cases "tl ps") auto
  then have "distinct (map (\<lambda>p. zupt_normalize_archive_path p True) ps) \<and> (rs \<longrightarrow> (\<forall>p \<in> set ps. zupt_path_is_safe p))"
  proof cases
    case 3
    with assms obtain ks where k: "destination_keys alloc rs ps = Inr ks" "\<not> neighbours_collide (sort ks)"
      by (auto simp: zupt_validate_archive_destinations_def rbind_Inr_iff qsort_keys_def split: if_splits)
    have "sorted_wrt (<) (sort ks)" by (rule neighbours_distinct [OF _ k(2)]) simp
    then have "distinct (sort ks)" by (simp add: strict_sorted_iff)
    then show ?thesis using destination_keys_Inr [OF k(1)] by simp
  qed (use assms in \<open>auto simp: zupt_validate_archive_destinations_def split: if_splits\<close>)
  then show "distinct (map (\<lambda>p. zupt_normalize_archive_path p True) ps)" "rs \<Longrightarrow> \<forall>p \<in> set ps. zupt_path_is_safe p"
    by simp_all
qed

section \<open>The parsers are exact\<close>

lemma index_varint_iff: "index_varint s = Inr (v, r) \<longleftrightarrow> s = zupt_encode_varint v @ r"
proof
  assume "index_varint s = Inr (v, r)"
  then obtain n where n: "zupt_decode_varint s = Some (n, v)" "r = drop n s"
    by (auto simp: index_varint_def split: option.splits)
  with zupt_decode_varint_Some [OF n(1)] show "s = zupt_encode_varint v @ r"
    by (metis append_take_drop_id)
qed (simp add: index_varint_def zupt_decode_encode_varint)

lemma index_varint_Inl: "index_varint s = Inl e \<Longrightarrow> e = ZUPT_ERR_CORRUPT"
  by (auto simp: index_varint_def split: option.splits)

definition index_entry_ok :: "zupt_index_entry_t \<Rightarrow> bool" where
  "index_entry_ok e \<longleftrightarrow> ix_path e \<noteq> [] \<and> length (ix_path e) < ZUPT_MAX_PATH \<and> 0 \<notin> set (ix_path e) \<and>
     \<not> zupt_path_has_unsafe_text (ix_path e)"

lemmas index_fields = index_put_u64_def index_put_u32_def index_get_u64_def index_get_u32_def

lemma five_u64:
  assumes "40 \<le> length b"
  shows "zupt_le64_put (zupt_le64_get b) @ zupt_le64_put (zupt_le64_get (drop 8 b)) @
    zupt_le64_put (zupt_le64_get (drop 16 b)) @ zupt_le64_put (zupt_le64_get (drop 24 b)) @
    zupt_le64_put (zupt_le64_get (drop 32 b)) @ drop 40 b = b"
proof -
  have s: "take 8 (drop n b) @ drop (n + 8) b = drop n b" for n
    by (metis append_take_drop_id drop_drop add.commute)
  show ?thesis
    using assms s [of 32] s [of 24] s [of 16] s [of 8] append_take_drop_id [of 8 b]
    by (simp add: le64_put_get)
qed

lemma ucast_u32_u64: "unat (v :: u64) \<le> 2 ^ 32 - 1 \<Longrightarrow> ucast (ucast v :: u32) = v"
  by (simp add: word_unat_eq_iff unsigned_ucast_eq unsigned_take_bit_eq take_bit_nat_eq_self)

lemma parse_index_entry_iff:
  "parse_index_entry s = Inr (e, r) \<longleftrightarrow> index_entry_ok e \<and> s = write_index_entry e @ r"
proof
  assume "parse_index_entry s = Inr (e, r)"
  then obtain plen t bc u where p: "s = zupt_encode_varint plen @ t" "unat plen \<le> length t" "plen \<noteq> 0"
      "unat plen < ZUPT_MAX_PATH" "0 \<notin> set (take (unat plen) t)"
      "\<not> zupt_path_has_unsafe_text (take (unat plen) t)" "44 \<le> length (drop (unat plen) t)"
    and b: "drop 40 (drop (unat plen) t) = zupt_encode_varint bc @ u" "unat bc \<le> 2 ^ 32 - 1" "4 \<le> length u" "r = drop 4 u"
    and e: "e = \<lparr>ix_path = take (unat plen) t, ix_uncompressed_size = zupt_le64_get (drop (unat plen) t),
                  ix_compressed_size = zupt_le64_get (drop 8 (drop (unat plen) t)),
                  ix_modification_time = zupt_le64_get (drop 16 (drop (unat plen) t)),
                  ix_content_hash = zupt_le64_get (drop 24 (drop (unat plen) t)),
                  ix_first_block_offset = zupt_le64_get (drop 32 (drop (unat plen) t)),
                  ix_block_count = ucast bc, ix_attributes = zupt_le32_get u\<rparr>"
    by (auto simp: parse_index_entry_def rbind_Inr_iff index_varint_iff index_fields Let_def not_less not_le
        simp del: drop_drop split: if_splits)
  define b where "b = drop (unat plen) t"
  have t: "t = take (unat plen) t @ b" by (simp add: b_def)
  have l: "word_of_nat (length (take (unat plen) t)) = plen" using p(2) by simp
  have "u = zupt_le32_put (zupt_le32_get u) @ r" using b(3,4) le32_put_get [of u] by simp
  moreover have "ucast (ucast bc :: u32) = bc" by (rule ucast_u32_u64 [OF b(2)])
  ultimately have "s = write_index_entry e @ r"
    using five_u64 [of b] p(1,7) b(1) t l
    by (simp add: e write_index_entry_def index_fields flip: b_def)
  moreover have "index_entry_ok e" using p unat_gt_0 [of plen] by (auto simp: e index_entry_ok_def)
  ultimately show "index_entry_ok e \<and> s = write_index_entry e @ r" by blast
next
  assume e: "index_entry_ok e \<and> s = write_index_entry e @ r"
  have l: "unat (word_of_nat (length (ix_path e)) :: u64) = length (ix_path e)"
    using e by (intro unat_small) (simp add: index_entry_ok_def ZUPT_MAX_PATH_def)
  have nz: "(word_of_nat (length (ix_path e)) :: u64) \<noteq> 0"
    using e l by (metis index_entry_ok_def length_0_conv unat_0)
  have bc: "unat (ucast (ix_block_count e) :: u64) \<le> 2 ^ 32 - 1" "ucast (ucast (ix_block_count e) :: u64) = ix_block_count e"
    using unat_lt2p [of "ix_block_count e"] by (simp_all, intro bit_word_eqI) (auto simp: bit_simps)
  show "parse_index_entry s = Inr (e, r)"
    using e l nz bc
    by (simp add: parse_index_entry_def write_index_entry_def index_varint_iff [THEN iffD2] index_fields
        index_entry_ok_def Let_def)
qed

interpretation index_entry: stream_field write_index_entry parse_index_entry index_entry_ok
  by unfold_locales (rule parse_index_entry_iff)


lemma parse_index_entries_iff:
  "parse_index_entries n s = Inr (es, r) \<longleftrightarrow>
     length es = n \<and> list_all index_entry_ok es \<and> s = concat (map write_index_entry es) @ r"
proof (induction n arbitrary: s es)
  case (Suc n)
  show ?case
    by (cases es) (auto simp: rbind_Inr_iff parse_index_entry_iff Suc.IH)
qed auto

lemma length_write_index_entry: "index_entry_ok e \<Longrightarrow> ZUPT_MIN_INDEX_ENTRY_BYTES \<le> length (write_index_entry e)"
proof -
  assume "index_entry_ok e"
  then have "1 \<le> length (ix_path e)" by (cases "ix_path e") (auto simp: index_entry_ok_def)
  moreover have "1 \<le> length (zupt_encode_varint v)" for v
    using zupt_encode_varint_nonempty [of v] by (cases "zupt_encode_varint v") auto
  from this [of "word_of_nat (length (ix_path e))"] this [of "ucast (ix_block_count e)"] calculation
  show ?thesis by (simp add: write_index_entry_def index_fields ZUPT_MIN_INDEX_ENTRY_BYTES_def)
qed

lemma length_index_entries:
  "list_all index_entry_ok es \<Longrightarrow> ZUPT_MIN_INDEX_ENTRY_BYTES * length es \<le> length (concat (map write_index_entry es))"
  by (induction es) (use length_write_index_entry in fastforce)+

text \<open>The lists of entries an index can hold, and its size limit in entries.\<close>

definition index_ok :: "zupt_index_entry_t list \<Rightarrow> bool" where
  "index_ok es \<longleftrightarrow> list_all index_entry_ok es \<and> length es \<le> ZUPT_MAX_INDEX_ALLOC_BYTES div index_entry_sizeof"

lemma index_limit: "ZUPT_MAX_INDEX_ALLOC_BYTES div index_entry_sizeof = 64776"
  by (simp add: ZUPT_MAX_INDEX_ALLOC_BYTES_def index_entry_sizeof_def ZUPT_MAX_PATH_def)

lemma write_index_ok:
  "list_all index_entry_ok es \<Longrightarrow>
     write_index es = zupt_encode_varint (word_of_nat (length es)) @ concat (map write_index_entry es)"
  by (auto simp: write_index_def index_entry_ok_def list_all_iff intro!: arg_cong [of _ _ concat])

lemma parse_index_iff:
  assumes "\<forall>n. alloc n"
  shows "parse_index alloc s = Inr es \<longleftrightarrow>
    index_ok es \<and> zupt_validate_archive_destinations alloc (map ix_path es) False = Inr () \<and> s = write_index es"
proof
  assume "parse_index alloc s = Inr es"
  note parsed = this
  then obtain c t where c: "s = zupt_encode_varint c @ t"
    by (auto simp: parse_index_def rbind_Inr_iff index_varint_iff)
  then have v: "index_varint s = Inr (c, t)" by (simp add: index_varint_iff)
  from parsed have l: "unat c \<le> ZUPT_MAX_INDEX_ALLOC_BYTES div index_entry_sizeof"
    and "c = 0 \<and> t = [] \<and> es = [] \<or> parse_index_entries (unat c) t = Inr (es, []) \<and>
      zupt_validate_archive_destinations alloc (map ix_path es) False = Inr ()"
    by (auto simp: parse_index_def v rbind_Inr_iff split: if_splits)
  then show "index_ok es \<and> zupt_validate_archive_destinations alloc (map ix_path es) False = Inr () \<and> s = write_index es"
  proof (elim disjE)
    assume "c = 0 \<and> t = [] \<and> es = []"
    then show ?thesis
      by (simp add: c(1) index_ok_def write_index_def zupt_validate_archive_destinations_def)
  next
    assume p: "parse_index_entries (unat c) t = Inr (es, []) \<and>
      zupt_validate_archive_destinations alloc (map ix_path es) False = Inr ()"
    then have e: "length es = unat c" "list_all index_entry_ok es" "t = concat (map write_index_entry es)"
      by (simp_all add: parse_index_entries_iff)
    then have "word_of_nat (length es) = c" by simp
    then show ?thesis using e c l p by (simp add: index_ok_def write_index_ok)
  qed
next
  assume r: "index_ok es \<and> zupt_validate_archive_destinations alloc (map ix_path es) False = Inr () \<and> s = write_index es"
  then have e: "list_all index_entry_ok es" "length es \<le> 64776" unfolding index_ok_def index_limit by simp_all
  have u: "unat (word_of_nat (length es) :: u64) = length es"
    using e(2) by (intro unat_small) simp
  have v: "index_varint s = Inr (word_of_nat (length es), concat (map write_index_entry es))"
    using r e(1) by (simp add: index_varint_iff write_index_ok)
  have p: "parse_index_entries (length es) (concat (map write_index_entry es)) = Inr (es, [])"
    using e(1) by (simp add: parse_index_entries_iff)
  have d: "length es \<le> length (concat (map write_index_entry es)) div ZUPT_MIN_INDEX_ENTRY_BYTES"
    using length_index_entries [OF e(1)]
    by (simp add: less_eq_div_iff_mult_less_eq ZUPT_MIN_INDEX_ENTRY_BYTES_def mult.commute)
  have z: "(word_of_nat (length es) :: u64) = 0 \<longleftrightarrow> es = []"
    using arg_cong [of "word_of_nat (length es) :: u64" 0 unat] unfolding u by auto
  have "length es * index_entry_sizeof \<le> 64776 * 4144"
    using e(2) by (simp add: index_entry_sizeof_def ZUPT_MAX_PATH_def)
  also have "\<dots> \<le> (2 :: nat) ^ 64 - 1" by simp
  finally have big: "length es \<le> (2 ^ 64 - 1) div index_entry_sizeof"
    by (subst less_eq_div_iff_mult_less_eq) (simp_all add: index_entry_sizeof_def)
  have lim: "length es \<le> ZUPT_MAX_FILES" "length es \<le> (2 ^ 64 - 1) div index_entry_sizeof"
    "length es \<le> ZUPT_MAX_INDEX_ALLOC_BYTES div index_entry_sizeof"
    using e(2) big by (simp_all add: ZUPT_MAX_FILES_def index_limit)
  show "parse_index alloc s = Inr es"
    using r v p d lim assms
    unfolding parse_index_def v rbind_simps prod.case u z
    by (cases "es = []") (simp_all add: not_less)
qed

text \<open>The layout the parser of old disk archives reads.\<close>

definition legacy_index :: "zupt_index_entry_t \<Rightarrow> bytes" where
  "legacy_index e =
     zupt_le32_put 1 @ zupt_encode_varint (word_of_nat (length (ix_path e))) @ ix_path e @
     zupt_le64_put (ix_uncompressed_size e) @ zupt_le64_put (ix_compressed_size e) @
     zupt_le64_put (ix_modification_time e) @ zupt_le64_put (ix_content_hash e) @
     zupt_le64_put (ix_first_block_offset e) @ zupt_le32_put (ix_block_count e) @ zupt_le32_put (ix_attributes e)"

lemma two_u32:
  "length b = 8 \<Longrightarrow> zupt_le32_put (zupt_le32_get b) @ zupt_le32_put (zupt_le32_get (drop 4 b)) = b"
  by (simp add: le32_put_get)

lemma parse_legacy_disk_index_iff:
  assumes "\<forall>n. alloc n"
  shows "parse_legacy_disk_index alloc s = Inr es \<longleftrightarrow> (\<exists>e. es = [e] \<and> index_entry_ok e \<and> s = legacy_index e)"
proof
  assume "parse_legacy_disk_index alloc s = Inr es"
  then obtain v t where p: "4 \<le> length s" "zupt_le32_get s = 1" "drop 4 s = zupt_encode_varint v @ t" "v \<noteq> 0"
      "unat v < ZUPT_MAX_PATH" "unat v \<le> length t" "0 \<notin> set (take (unat v) t)" "length t - unat v = 48"
      "\<not> zupt_path_has_unsafe_text (take (unat v) t)"
    and es: "es = [\<lparr>ix_path = take (unat v) t, ix_uncompressed_size = zupt_le64_get (drop (unat v) t),
                ix_compressed_size = zupt_le64_get (drop 8 (drop (unat v) t)),
                ix_modification_time = zupt_le64_get (drop 16 (drop (unat v) t)),
                ix_content_hash = zupt_le64_get (drop 24 (drop (unat v) t)),
                ix_first_block_offset = zupt_le64_get (drop 32 (drop (unat v) t)),
                ix_block_count = zupt_le32_get (drop 40 (drop (unat v) t)),
                ix_attributes = zupt_le32_get (drop 44 (drop (unat v) t))\<rparr>]"
    by (auto simp: parse_legacy_disk_index_def rbind_Inr_iff index_varint_iff index_fields Let_def not_less not_le
        simp del: drop_drop split: if_splits)
  define b where "b = drop (unat v) t"
  have t: "t = take (unat v) t @ b" by (simp add: b_def)
  have lb: "length b = 48" using p(8) by (simp add: b_def)
  have s: "s = zupt_le32_put 1 @ zupt_encode_varint v @ t"
    using p(1-3) le32_put_get [of s] by (metis append_take_drop_id)
  have "es = [hd es] \<and> s = legacy_index (hd es)"
    using five_u64 [of b] two_u32 [of "drop 40 b"] s t lb p(6)
    by (simp add: es legacy_index_def flip: b_def)
  moreover have "index_entry_ok (hd es)"
    using p unat_gt_0 [of v] by (auto simp: es index_entry_ok_def)
  ultimately show "\<exists>e. es = [e] \<and> index_entry_ok e \<and> s = legacy_index e" by blast
next
  assume "\<exists>e. es = [e] \<and> index_entry_ok e \<and> s = legacy_index e"
  then obtain e where e: "es = [e]" "index_entry_ok e" "s = legacy_index e" by blast
  have l: "unat (word_of_nat (length (ix_path e)) :: u64) = length (ix_path e)"
    using e by (intro unat_small) (simp add: index_entry_ok_def ZUPT_MAX_PATH_def)
  have nz: "(word_of_nat (length (ix_path e)) :: u64) \<noteq> 0"
    using e l by (metis index_entry_ok_def length_0_conv unat_0)
  show "parse_legacy_disk_index alloc s = Inr es"
    using assms e l nz
    by (simp add: parse_legacy_disk_index_def legacy_index_def index_varint_iff [THEN iffD2] index_fields
        index_entry_ok_def Let_def)
qed

section \<open>The list of inputs\<close>

text \<open>
  \<open>count\<close> is the length of the two lists, which grow together; a negative capacity marks a list
  that lost an input and must not be used (\<open>src/zupt_internal.h\<close>).
\<close>

record zupt_filelist_t =
  fl_paths :: "bytes list"
  fl_arc_paths :: "bytes list"
  fl_capacity :: int

definition zupt_filelist_init :: zupt_filelist_t where
  "zupt_filelist_init = \<lparr>fl_paths = [], fl_arc_paths = [], fl_capacity = 0\<rparr>"

definition zupt_internal_filelist_failed :: "zupt_filelist_t \<Rightarrow> bool" where
  "zupt_internal_filelist_failed fl \<longleftrightarrow> fl_capacity fl < 0"

definition zupt_internal_filelist_mark_failed :: "zupt_filelist_t \<Rightarrow> zupt_filelist_t" where
  "zupt_internal_filelist_mark_failed fl =
     (if fl_capacity fl \<ge> 0 then fl\<lparr>fl_capacity := - fl_capacity fl - 1\<rparr> else fl)"

text \<open>\<open>grow_ok\<close> and \<open>name_ok\<close> are the allocations of the two arrays and of the two names.\<close>

definition filelist_grow :: "bool \<Rightarrow> zupt_filelist_t \<Rightarrow> zupt_filelist_t option" where
  "filelist_grow grow_ok fl =
     (if int (length (fl_paths fl)) \<ge> fl_capacity fl then
        let new_cap = (if fl_capacity fl \<noteq> 0 then fl_capacity fl * 2 else 256);
            new_cap = (if new_cap < fl_capacity fl \<or> new_cap > int ZUPT_MAX_FILES then int ZUPT_MAX_FILES else new_cap) in
        if \<not> grow_ok then None else Some (fl\<lparr>fl_capacity := new_cap\<rparr>)
      else Some fl)"

definition zupt_filelist_add :: "bool \<Rightarrow> bool \<Rightarrow> zupt_filelist_t \<Rightarrow> bytes \<Rightarrow> bytes \<Rightarrow> zupt_filelist_t" where
  "zupt_filelist_add grow_ok name_ok fl disk arc =
     (let n = int (length (fl_paths fl)) in
      if fl_capacity fl < 0 \<or> fl_capacity fl > int ZUPT_MAX_FILES \<or> n > fl_capacity fl \<or> n \<ge> int ZUPT_MAX_FILES
      then zupt_internal_filelist_mark_failed fl
      else
        (case filelist_grow grow_ok fl of
           None \<Rightarrow> zupt_internal_filelist_mark_failed fl
         | Some fl \<Rightarrow>
             if \<not> name_ok then zupt_internal_filelist_mark_failed fl
             else fl\<lparr>fl_paths := fl_paths fl @ [disk],
                     fl_arc_paths := fl_arc_paths fl @ [zupt_normalize_archive_path arc False]\<rparr>))"

definition filelist_inv :: "zupt_filelist_t \<Rightarrow> bool" where
  "filelist_inv fl \<longleftrightarrow> length (fl_arc_paths fl) = length (fl_paths fl) \<and>
     (let cap = (if fl_capacity fl < 0 then - fl_capacity fl - 1 else fl_capacity fl) in
      int (length (fl_paths fl)) \<le> cap \<and> cap \<le> int ZUPT_MAX_FILES)"

lemma filelist_add_cases:
  fixes fl :: zupt_filelist_t and disk arc :: bytes and grow_ok name_ok :: bool
  assumes "filelist_inv fl"
  defines "fl' \<equiv> zupt_filelist_add grow_ok name_ok fl disk arc"
  shows "filelist_inv fl' \<and>
    (if zupt_internal_filelist_failed fl' then fl_paths fl' = fl_paths fl \<and> fl_arc_paths fl' = fl_arc_paths fl
     else \<not> zupt_internal_filelist_failed fl \<and> fl_paths fl' = fl_paths fl @ [disk] \<and>
       fl_arc_paths fl' = fl_arc_paths fl @ [zupt_normalize_archive_path arc False])"
  unfolding fl'_def using assms(1)
  by (auto simp: zupt_filelist_add_def filelist_grow_def filelist_inv_def zupt_internal_filelist_failed_def
      zupt_internal_filelist_mark_failed_def ZUPT_MAX_FILES_def Suc_le_eq Let_def split: if_splits)

lemma filelist_add_succeeds:
  assumes "filelist_inv fl" "\<not> zupt_internal_filelist_failed fl" "length (fl_paths fl) < ZUPT_MAX_FILES"
  shows "\<not> zupt_internal_filelist_failed (zupt_filelist_add True True fl disk arc)"
  using assms
  by (auto simp: zupt_filelist_add_def filelist_grow_def filelist_inv_def zupt_internal_filelist_failed_def
      ZUPT_MAX_FILES_def Let_def)

text \<open>Adding a sequence of inputs, each with the outcome of its allocations.\<close>

definition filelist_add_all :: "(bool \<times> bool \<times> bytes \<times> bytes) list \<Rightarrow> zupt_filelist_t" where
  "filelist_add_all = foldl (\<lambda>fl (g, n, disk, arc). zupt_filelist_add g n fl disk arc) zupt_filelist_init"

lemma filelist_add_all_snoc:
  "filelist_add_all (ops @ [(g, n, disk, arc)]) = zupt_filelist_add g n (filelist_add_all ops) disk arc"
  by (simp add: filelist_add_all_def)

lemma filelist_add_all_state:
  "filelist_inv (filelist_add_all ops) \<and>
   (\<not> zupt_internal_filelist_failed (filelist_add_all ops) \<longrightarrow>
      fl_paths (filelist_add_all ops) = map (\<lambda>(_, _, disk, _). disk) ops \<and>
      fl_arc_paths (filelist_add_all ops) = map (\<lambda>(_, _, _, arc). zupt_normalize_archive_path arc False) ops)"
proof (induction ops rule: rev_induct)
  case Nil
  show ?case
    by (simp add: filelist_add_all_def zupt_filelist_init_def filelist_inv_def ZUPT_MAX_FILES_def)
next
  case (snoc op ops)
  obtain g n disk arc where op: "op = (g, n, disk, arc)" by (cases op) auto
  show ?case
    using snoc filelist_add_cases [of "filelist_add_all ops" g n disk arc]
    unfolding op filelist_add_all_snoc by (auto split: if_splits)
qed

lemma filelist_add_all_succeeds:
  "length ops \<le> ZUPT_MAX_FILES \<Longrightarrow> (\<forall>(g, n, _) \<in> set ops. g \<and> n) \<Longrightarrow>
     \<not> zupt_internal_filelist_failed (filelist_add_all ops)"
proof (induction ops rule: rev_induct)
  case Nil
  show ?case by (simp add: filelist_add_all_def zupt_filelist_init_def zupt_internal_filelist_failed_def)
next
  case (snoc op ops)
  obtain g n disk arc where op: "op = (g, n, disk, arc)" by (cases op) auto
  with snoc have ok: "\<not> zupt_internal_filelist_failed (filelist_add_all ops)" "g" "n" by auto
  then have "length (fl_paths (filelist_add_all ops)) = length ops"
    using filelist_add_all_state [of ops] by simp
  then show ?case
    using filelist_add_succeeds [of "filelist_add_all ops" disk arc] filelist_add_all_state [of ops] ok snoc.prems(1)
    unfolding op filelist_add_all_snoc by simp
qed

section \<open>Properties\<close>

text \<open>
  C15. The index parser is exact. It accepts precisely the bytes the writer produces for a list
  of entries with well-formed paths, within the memory limit of 64776 entries, whose
  destinations pass the check, and then returns that list: nothing a writer stores is lost or
  changed, no second serial form exists, and no input, however hostile, is accepted for
  anything else or read beyond its end.
\<close>

theorem index_parser_exact:
  assumes "\<forall>n. alloc n"
  shows "parse_index alloc s = Inr es \<longleftrightarrow>
    index_ok es \<and> zupt_validate_archive_destinations alloc (map ix_path es) False = Inr () \<and> s = write_index es"
  by (rule parse_index_iff [OF assms])

definition example_entry :: "bytes \<Rightarrow> zupt_index_entry_t" where
  "example_entry p = \<lparr>ix_path = p, ix_uncompressed_size = 5, ix_compressed_size = 5, ix_modification_time = 1,
     ix_content_hash = 9, ix_first_block_offset = 64, ix_block_count = 1, ix_attributes = 420\<rparr>"

lemma example_names:
  "\<not> zupt_path_has_unsafe_text [0x61]" "\<not> zupt_path_has_unsafe_text [0x62]"
  by (simp_all add: printable_safe printable_def)

theorem index_parser_exact_witness:
  "parse_index (\<lambda>_. True) (write_index [example_entry [0x61], example_entry [0x62]]) =
     Inr [example_entry [0x61], example_entry [0x62]]"
proof (subst index_parser_exact [where alloc = "\<lambda>_. True", OF allI [OF TrueI]], intro conjI refl)
  show "index_ok [example_entry [0x61], example_entry [0x62]]"
    by (simp add: index_ok_def index_limit index_entry_ok_def example_entry_def ZUPT_MAX_PATH_def example_names)
  show "zupt_validate_archive_destinations (\<lambda>_. True) (map ix_path [example_entry [0x61], example_entry [0x62]]) False = Inr ()"
    by (simp add: zupt_validate_archive_destinations_def example_entry_def zupt_normalize_archive_path_def
        qsort_keys_def keys_collide_def c_at_def)
qed

text \<open>
  C31. Paths that pass the check of destinations have pairwise different portable keys (separators
  canonical, ASCII letters folded), so no two entries of an accepted archive are written to the
  same file even where names are case-insensitive; and when the check is the writer's, every
  path is one the extractor accepts.
\<close>

theorem destinations_distinct:
  assumes "zupt_validate_archive_destinations alloc ps require_safe = Inr ()"
  shows "distinct (map (\<lambda>p. zupt_normalize_archive_path p True) ps) \<and>
    (require_safe \<longrightarrow> (\<forall>p \<in> set ps. zupt_path_is_safe p))"
  using destinations_ok [OF assms] by blast

theorem destinations_distinct_witness:
  "distinct (map (\<lambda>p. zupt_normalize_archive_path p True) [[0x61, 0x5C, 0x42], [0x42]])"
  by (rule destinations_distinct [where alloc = "\<lambda>_. True" and require_safe = False, THEN conjunct1])
     (simp add: zupt_validate_archive_destinations_def zupt_normalize_archive_path_def qsort_keys_def
      keys_collide_def c_at_def)

text \<open>
  The check of a file against a directory of the same name looks only at neighbours in the
  sorted keys, and a third name can stand between the two: \<open>a\<close>, \<open>a.b\<close>, \<open>a/c\<close> pass although
  \<open>a\<close> and \<open>a/c\<close> exclude each other, which the same check reports without \<open>a.b\<close>.
\<close>

theorem destinations_prefix_missed:
  "zupt_validate_archive_destinations (\<lambda>_. True) [[0x61], [0x61, 0x2F, 0x63]] False = Inl ZUPT_ERR_INVALID \<and>
   zupt_validate_archive_destinations (\<lambda>_. True) [[0x61], [0x61, 0x2E, 0x62], [0x61, 0x2F, 0x63]] False = Inr ()"
  by (simp add: zupt_validate_archive_destinations_def zupt_normalize_archive_path_def qsort_keys_def
      keys_collide_def c_at_def)

text \<open>
  C38. However inputs are added and whichever allocations fail, the list of inputs keeps its
  invariant (both arrays of one length, within the capacity, the capacity within the format's
  limit); unless the list is marked as failed it holds every input added, in order, under its
  normalised name, so a lost input is never silent; and with memory available it takes any
  sequence of up to two million inputs.
\<close>

theorem filelist_complete_or_failed:
  "filelist_inv (filelist_add_all ops) \<and>
   (\<not> zupt_internal_filelist_failed (filelist_add_all ops) \<longrightarrow>
      fl_paths (filelist_add_all ops) = map (\<lambda>(_, _, disk, _). disk) ops \<and>
      fl_arc_paths (filelist_add_all ops) = map (\<lambda>(_, _, _, arc). zupt_normalize_archive_path arc False) ops) \<and>
   (length ops \<le> ZUPT_MAX_FILES \<and> (\<forall>(g, n, _) \<in> set ops. g \<and> n) \<longrightarrow>
      \<not> zupt_internal_filelist_failed (filelist_add_all ops))"
  using filelist_add_all_state filelist_add_all_succeeds by blast

theorem filelist_complete_or_failed_witness:
  "fl_arc_paths (filelist_add_all [(True, True, [0x61], [0x61, 0x5C, 0x62]), (True, True, [0x63], [0x63])]) =
     [[0x61, 0x2F, 0x62], [0x63]]"
  using filelist_complete_or_failed [of "[(True, True, [0x61], [0x61, 0x5C, 0x62]), (True, True, [0x63], [0x63])]"]
  by (simp add: ZUPT_MAX_FILES_def zupt_normalize_archive_path_def)

end
