(* ===== verification/Open.thy ===== *)
theory Open
  imports Index
begin

text \<open>
  Opening an archive (\<open>src/zupt_format.c\<close>): the encryption header and what it makes of the
  keyring, the integrity trailer, the comment, and the index. A stream is the bytes of the file
  and a position; the file is shorter than \<open>2 ^ 63\<close> bytes.

  The key encapsulations and the Argon2id header (\<open>zupt_hybrid.c\<close>, \<open>zupt_sdk_glue.c\<close> and the
  libraries behind them) enter as one function per header type, \<open>unwrap\<close>, from the keyring, the
  key file or password and the header to the new keyring; the password header with PBKDF2 is
  modelled in full.
\<close>

section \<open>Options\<close>

text \<open>The members the archive code decides on; \<open>verbose\<close> carries the opt-in for archives without
  a trailer in a bit of its own, \<open>opt_legacy_no_ait\<close>.\<close>

record zupt_options_t =
  opt_level :: int
  opt_block_size :: u32
  opt_codec_id :: u16
  opt_encrypt :: bool
  opt_max_output_size :: u64
  opt_pq_mode :: bool
  opt_sdk_mode :: bool
  opt_box_mode :: bool
  opt_pqonly_mode :: bool
  opt_dedup :: bool
  opt_kdf_legacy_pbkdf2 :: bool
  opt_password :: bytes
  opt_keyfile :: bytes
  opt_comment :: bytes
  opt_has_comment :: bool
  opt_keyring :: zupt_keyring_t
  opt_legacy_no_ait :: bool
  opt_threads :: int

definition zupt_default_options :: zupt_options_t where
  "zupt_default_options =
     \<lparr>opt_level = 7, opt_block_size = 0, opt_codec_id = ZUPT_CODEC_AUTO, opt_encrypt = False,
      opt_max_output_size = 0, opt_pq_mode = False, opt_sdk_mode = False, opt_box_mode = False,
      opt_pqonly_mode = False, opt_dedup = False, opt_kdf_legacy_pbkdf2 = False, opt_password = [],
      opt_keyfile = [], opt_comment = [], opt_has_comment = False, opt_keyring = zupt_keyring_init,
      opt_legacy_no_ait = False, opt_threads = 0\<rparr>"

text \<open>\<open>fseeko\<close> to an absolute offset: a negative one fails and leaves the position.\<close>

definition fseeko_set :: "nat \<Rightarrow> u64 \<Rightarrow> nat" where
  "fseeko_set pos off = (if unat off < 2 ^ 63 then unat off else pos)"

definition read_block_at :: "(nat \<Rightarrow> bool) \<Rightarrow> bytes \<Rightarrow> nat \<Rightarrow> (zupt_block_t \<times> nat) result" where
  "read_block_at alloc f pos =
     rbind (read_block alloc (drop pos f)) (\<lambda>(b, rest). Inr (b, length f - length rest))"

section \<open>The encryption header\<close>

abbreviation (input) ZUPT_ENC_PBKDF2 :: u8 where "ZUPT_ENC_PBKDF2 \<equiv> 0x01"
abbreviation (input) ZUPT_ENC_PQ_HYBRID :: u8 where "ZUPT_ENC_PQ_HYBRID \<equiv> 0x02"
abbreviation (input) ZUPT_ENC_PQ_SDK_V2 :: u8 where "ZUPT_ENC_PQ_SDK_V2 \<equiv> 0x03"
abbreviation (input) ZUPT_ENC_PW_ARGON2 :: u8 where "ZUPT_ENC_PW_ARGON2 \<equiv> 0x04"
abbreviation (input) ZUPT_ENC_PQ_BOX_V1 :: u8 where "ZUPT_ENC_PQ_BOX_V1 \<equiv> 0x05"
abbreviation (input) ZUPT_ENC_PQ_ONLY :: u8 where "ZUPT_ENC_PQ_ONLY \<equiv> 0x06"
abbreviation (input) ZUPT_KDF_ITERATIONS :: u32 where "ZUPT_KDF_ITERATIONS \<equiv> 600000"
abbreviation (input) ZUPT_KDF_MAX_ITERATIONS :: u32 where "ZUPT_KDF_MAX_ITERATIONS \<equiv> 100000000"

type_synonym unwrap = "u8 \<Rightarrow> zupt_keyring_t \<Rightarrow> bytes \<Rightarrow> bytes \<Rightarrow> zupt_keyring_t option"

text \<open>A header whose secret is in the key file or password \<open>secret\<close>, present when \<open>ready\<close>.\<close>

definition unwrap_keys ::
  "unwrap \<Rightarrow> u8 \<Rightarrow> bool \<Rightarrow> bytes \<Rightarrow> zupt_options_t \<Rightarrow> bytes \<Rightarrow> zupt_options_t result" where
  "unwrap_keys unwrap enc_type ready secret opts p =
     (if \<not> ready then Inl ZUPT_ERR_AUTH_FAIL
      else
        (case unwrap enc_type (opt_keyring opts) secret p of
           None \<Rightarrow> Inl ZUPT_ERR_AUTH_FAIL
         | Some kr \<Rightarrow> Inr (opts\<lparr>opt_keyring := kr\<rparr>)))"

text \<open>A PBKDF2 header whose salt starts at \<open>off\<close>: 1 behind the type byte, 0 in the oldest format.\<close>

definition pbkdf2_keys :: "nat \<Rightarrow> zupt_options_t \<Rightarrow> bytes \<Rightarrow> zupt_options_t result" where
  "pbkdf2_keys off opts p =
     (if opt_password opts = [] then Inl ZUPT_ERR_AUTH_FAIL
      else if length p < off + 52 then Inl ZUPT_ERR_CORRUPT
      else
        let slt = take 32 (drop off p);
            nonce = take 16 (drop (off + 32) p);
            iter = zupt_le32_get (drop (off + 48) p) in
        if iter < 1 \<or> iter > ZUPT_KDF_MAX_ITERATIONS then Inl ZUPT_ERR_CORRUPT
        else Inr (opts\<lparr>opt_keyring := zupt_derive_keys (opt_keyring opts) (opt_password opts) slt nonce iter\<rparr>))"

definition open_enc_header :: "unwrap \<Rightarrow> zupt_options_t \<Rightarrow> bytes \<Rightarrow> zupt_options_t result" where
  "open_enc_header unwrap opts p =
     (let enc_type = p ! 0; have_key = (opt_keyfile opts \<noteq> []) in
      if enc_type = ZUPT_ENC_PQ_BOX_V1 then
        rbind (unwrap_keys unwrap enc_type (opt_pq_mode opts \<and> have_key) (opt_keyfile opts) opts p)
          (\<lambda>opts. Inr (opts\<lparr>opt_box_mode := True\<rparr>))
      else if enc_type = ZUPT_ENC_PQ_SDK_V2 then
        rbind (unwrap_keys unwrap enc_type (opt_pq_mode opts \<and> have_key) (opt_keyfile opts) opts p)
          (\<lambda>opts. Inr (opts\<lparr>opt_sdk_mode := True\<rparr>))
      else if enc_type = ZUPT_ENC_PW_ARGON2 then
        rbind (unwrap_keys unwrap enc_type (opt_password opts \<noteq> []) (opt_password opts) opts p)
          (\<lambda>opts. Inr (opts\<lparr>opt_sdk_mode := True\<rparr>))
      else if enc_type = ZUPT_ENC_PQ_HYBRID then
        unwrap_keys unwrap enc_type (opt_pq_mode opts \<and> have_key) (opt_keyfile opts) opts p
      else if enc_type = ZUPT_ENC_PQ_ONLY then
        unwrap_keys unwrap enc_type have_key (opt_keyfile opts) opts p
      else if enc_type = ZUPT_ENC_PBKDF2 then pbkdf2_keys 1 opts p
      else pbkdf2_keys 0 opts p)"

definition read_enc_header ::
  "unwrap \<Rightarrow> (nat \<Rightarrow> bool) \<Rightarrow> bytes \<Rightarrow> nat \<Rightarrow> zupt_archive_header_t \<Rightarrow> zupt_options_t \<Rightarrow> (zupt_options_t \<times> nat) result" where
  "read_enc_header unwrap alloc f pos hdr opts =
     (if global_flags hdr AND ZUPT_FLAG_ENCRYPTED = 0 then Inr (opts, pos)
      else if unat (encryption_header_off hdr) > length f then Inl ZUPT_ERR_CORRUPT
      else
        rbind (read_block_at alloc f (fseeko_set pos (encryption_header_off hdr))) (\<lambda>(eb, pos).
        if block_type eb \<noteq> ZUPT_BLOCK_ENC_HEADER then Inl ZUPT_ERR_CORRUPT
        else if codec_id eb \<noteq> ZUPT_CODEC_STORE \<or> block_flags eb \<noteq> 0 \<or>
          compressed_size eb \<noteq> uncompressed_size eb then Inl ZUPT_ERR_CORRUPT
        else if zupt_xxh64 (payload eb) 0 \<noteq> checksum eb then Inl ZUPT_ERR_BAD_CHECKSUM
        else if unat (compressed_size eb) < 1 then Inl ZUPT_ERR_CORRUPT
        else rbind (open_enc_header unwrap opts (payload eb)) (\<lambda>opts. Inr (opts, pos))))"

section \<open>Opening\<close>

definition ZUPT_MAX_COMMENT_LEN :: nat where "ZUPT_MAX_COMMENT_LEN = 4096"

definition header_flags_consistent :: "u32 \<Rightarrow> bool" where
  "header_flags_consistent gflags \<longleftrightarrow>
     (let required = ZUPT_FLAG_ENCRYPTED OR ZUPT_FLAG_DEDUP OR ZUPT_FLAG_AAD_SEQ OR ZUPT_FLAG_AAD_PREFACE;
          enc_seq = ZUPT_FLAG_ENCRYPTED OR ZUPT_FLAG_AAD_SEQ in
      \<not> (gflags AND ZUPT_FLAG_AUTH_DEDUP_REFS \<noteq> 0 \<and> gflags AND required \<noteq> required) \<and>
      \<not> (gflags AND ZUPT_FLAG_AAD_PREFACE \<noteq> 0 \<and> gflags AND enc_seq \<noteq> enc_seq) \<and>
      \<not> (gflags AND ZUPT_FLAG_DISK_CONTENT_HASH \<noteq> 0 \<and> gflags AND ZUPT_FLAG_DISK_IMAGE = 0))"

definition read_comment ::
  "block_alloc \<Rightarrow> vvz_decoder \<Rightarrow> (nat \<Rightarrow> bool) \<Rightarrow> bytes \<Rightarrow> nat \<Rightarrow> u64 \<Rightarrow> zupt_options_t \<Rightarrow> zupt_options_t result" where
  "read_comment al vvz alloc f pos comment_off opts =
     (if comment_off = 0 then Inr opts
      else
        rbind (read_block_at alloc f (fseeko_set pos comment_off)) (\<lambda>(cb, _).
        if block_type cb \<noteq> ZUPT_BLOCK_COMMENT \<or> uncompressed_size cb = 0 \<or>
          unat (uncompressed_size cb) > ZUPT_MAX_COMMENT_LEN then Inl ZUPT_ERR_CORRUPT
        else
          rbind (decompress_block al vvz cb (Some (opt_keyring opts)) ZUPT_COMMENT_AAD_SEQ) (\<lambda>plain.
          Inr (opts\<lparr>opt_comment := take (ZUPT_MAX_COMMENT_LEN - 1) plain, opt_has_comment := True\<rparr>))))"

definition legacy_disk_index :: "u32 \<Rightarrow> bool" where
  "legacy_disk_index gflags \<longleftrightarrow> gflags AND ZUPT_FLAG_DISK_IMAGE \<noteq> 0 \<and> gflags AND ZUPT_FLAG_DISK_CONTENT_HASH = 0"

definition read_index ::
  "block_alloc \<Rightarrow> vvz_decoder \<Rightarrow> (nat \<Rightarrow> bool) \<Rightarrow> bytes \<Rightarrow> nat \<Rightarrow> u32 \<Rightarrow> u64 \<Rightarrow> zupt_keyring_t \<Rightarrow>
     (zupt_index_entry_t list \<times> nat) result" where
  "read_index al vvz alloc f pos gflags index_off kr =
     (if unat index_off > length f then Inl ZUPT_ERR_CORRUPT
      else
        rbind (read_block_at alloc f (fseeko_set pos index_off)) (\<lambda>(ib, pos).
        if block_type ib \<noteq> ZUPT_BLOCK_INDEX then Inl ZUPT_ERR_CORRUPT
        else
          let index_keyring =
            (if gflags AND (ZUPT_FLAG_DISK_IMAGE OR ZUPT_FLAG_ENCRYPTED) = ZUPT_FLAG_DISK_IMAGE OR ZUPT_FLAG_ENCRYPTED \<and>
               gflags AND ZUPT_FLAG_DISK_CONTENT_HASH = 0 then None else Some kr) in
          rbind (decompress_block al vvz ib index_keyring index_aad_seq) (\<lambda>idx.
          rbind (if legacy_disk_index gflags then parse_legacy_disk_index alloc idx else parse_index alloc idx)
            (\<lambda>entries. Inr (entries, pos)))))"

text \<open>What is done with the keyring of the encryption header: the trailer, comment and index.\<close>

definition open_contents ::
  "block_alloc \<Rightarrow> vvz_decoder \<Rightarrow> (nat \<Rightarrow> bool) \<Rightarrow> bytes \<Rightarrow> zupt_archive_header_t \<Rightarrow> zupt_footer_t \<Rightarrow> bytes option \<Rightarrow>
     zupt_options_t \<Rightarrow> nat \<Rightarrow> (zupt_options_t \<times> zupt_index_entry_t list \<times> nat) result" where
  "open_contents al vvz alloc f hdr ft ait opts pos =
     rbind (case ait of None \<Rightarrow> Inr ()
            | Some a \<Rightarrow> ait_verify hdr ft a
                (if global_flags hdr AND ZUPT_FLAG_ENCRYPTED \<noteq> 0 then Some (opt_keyring opts) else None)) (\<lambda>_.
     let opts = (if global_flags hdr AND ZUPT_FLAG_AAD_PREFACE \<noteq> 0
                 then opts\<lparr>opt_keyring := (opt_keyring opts)\<lparr>use_preface_aad := True\<rparr>\<rparr> else opts) in
     rbind (read_comment al vvz alloc f pos (comment_offset hdr) opts) (\<lambda>opts.
     rbind (read_index al vvz alloc f pos (global_flags hdr) (index_offset ft) (opt_keyring opts)) (\<lambda>(entries, pos).
     Inr (opts, entries, pos))))"

definition open_archive ::
  "unwrap \<Rightarrow> block_alloc \<Rightarrow> vvz_decoder \<Rightarrow> (nat \<Rightarrow> bool) \<Rightarrow> bytes \<Rightarrow> zupt_options_t \<Rightarrow>
     (zupt_options_t \<times> zupt_archive_header_t \<times> zupt_footer_t \<times> zupt_index_entry_t list \<times> nat) result" where
  "open_archive unwrap al vvz alloc f opts =
     rbind (read_header f) (\<lambda>(hdr, _).
     rbind (locate_footer_v15 f) (\<lambda>(ft, ait).
     if ait = None \<and> \<not> opt_legacy_no_ait opts then Inl ZUPT_ERR_AUTH_FAIL
     else if \<not> header_flags_consistent (global_flags hdr) then Inl ZUPT_ERR_CORRUPT
     else
       rbind (read_enc_header unwrap alloc f (length f) hdr opts) (\<lambda>(opts, pos).
       rbind (open_contents al vvz alloc f hdr ft ait opts pos) (\<lambda>(opts, entries, pos).
       Inr (opts, hdr, ft, entries, pos)))))"

section \<open>What opening establishes\<close>

lemma read_block_at_Inr:
  "read_block_at alloc f pos = Inr (b, q) \<Longrightarrow> block_wf alloc b \<and> (\<exists>r. drop pos f = write_block b @ r \<and> q = length f - length r)"
  by (auto simp: read_block_at_def rbind_Inr_iff read_block_iff)

lemma pbkdf2_keys_active: "pbkdf2_keys off opts p = Inr o' \<Longrightarrow> active (opt_keyring o')"
  by (auto simp: pbkdf2_keys_def zupt_derive_keys_eq Let_def split: if_splits)

text \<open>The key encapsulations deliver a usable keyring when they deliver one.\<close>

definition unwrap_activates :: "unwrap \<Rightarrow> bool" where
  "unwrap_activates unwrap \<longleftrightarrow> (\<forall>t k s p kr. unwrap t k s p = Some kr \<longrightarrow> active kr)"

lemma unwrap_keys_active:
  "unwrap_activates unwrap \<Longrightarrow> unwrap_keys unwrap t ready secret opts p = Inr o' \<Longrightarrow> active (opt_keyring o')"
  by (auto simp: unwrap_keys_def unwrap_activates_def split: if_splits option.splits)

lemma open_enc_header_active:
  assumes "unwrap_activates unwrap" "open_enc_header unwrap opts p = Inr o'"
  shows "active (opt_keyring o')"
  using assms
  by (auto simp: open_enc_header_def rbind_Inr_iff Let_def split: if_splits
      dest: pbkdf2_keys_active unwrap_keys_active)

lemma read_enc_header_active:
  assumes "unwrap_activates unwrap" "read_enc_header unwrap alloc f pos hdr opts = Inr (o', q)"
    "global_flags hdr AND ZUPT_FLAG_ENCRYPTED \<noteq> 0"
  shows "active (opt_keyring o')"
  using assms
  by (auto simp: read_enc_header_def rbind_Inr_iff split: if_splits dest: open_enc_header_active)

lemma read_comment_keyring: "read_comment al vvz alloc f pos off opts = Inr o' \<Longrightarrow> opt_keyring o' = opt_keyring opts"
  by (auto simp: read_comment_def rbind_Inr_iff split: if_splits)

lemma open_contents_Inr:
  assumes "open_contents al vvz alloc f hdr ft ait o1 p1 = Inr (o', es, pos)"
  obtains "(case ait of None \<Rightarrow> Inr () | Some a \<Rightarrow> ait_verify hdr ft a
        (if global_flags hdr AND ZUPT_FLAG_ENCRYPTED \<noteq> 0 then Some (opt_keyring o1) else None)) = Inr ()"
    "opt_keyring o' = (if global_flags hdr AND ZUPT_FLAG_AAD_PREFACE \<noteq> 0
       then (opt_keyring o1)\<lparr>use_preface_aad := True\<rparr> else opt_keyring o1)"
    "read_index al vvz alloc f p1 (global_flags hdr) (index_offset ft) (opt_keyring o') = Inr (es, pos)"
proof -
  define o2 where "o2 = (if global_flags hdr AND ZUPT_FLAG_AAD_PREFACE \<noteq> 0
       then o1\<lparr>opt_keyring := (opt_keyring o1)\<lparr>use_preface_aad := True\<rparr>\<rparr> else o1)"
  from assms have v: "(case ait of None \<Rightarrow> Inr () | Some a \<Rightarrow> ait_verify hdr ft a
        (if global_flags hdr AND ZUPT_FLAG_ENCRYPTED \<noteq> 0 then Some (opt_keyring o1) else None)) = Inr ()"
    and c: "read_comment al vvz alloc f p1 (comment_offset hdr) o2 = Inr o'"
    and i: "read_index al vvz alloc f p1 (global_flags hdr) (index_offset ft) (opt_keyring o') = Inr (es, pos)"
    unfolding open_contents_def Let_def o2_def [symmetric] by (auto simp: rbind_Inr_iff)
  from read_comment_keyring [OF c] have "opt_keyring o' = (if global_flags hdr AND ZUPT_FLAG_AAD_PREFACE \<noteq> 0
       then (opt_keyring o1)\<lparr>use_preface_aad := True\<rparr> else opt_keyring o1)" by (simp add: o2_def)
  from that [OF v this i] show ?thesis .
qed

lemma open_archive_Inr:
  assumes "open_archive unwrap al vvz alloc f opts = Inr (o', hdr, ft, es, pos)"
  obtains r ait o1 p1 where "read_header f = Inr (hdr, r)" "locate_footer_v15 f = Inr (ft, ait)"
    "ait \<noteq> None \<or> opt_legacy_no_ait opts" "header_flags_consistent (global_flags hdr)"
    "read_enc_header unwrap alloc f (length f) hdr opts = Inr (o1, p1)"
    "\<And>a. ait = Some a \<Longrightarrow> ait_verify hdr ft a
        (if global_flags hdr AND ZUPT_FLAG_ENCRYPTED \<noteq> 0 then Some (opt_keyring o1) else None) = Inr ()"
    "opt_keyring o' = (if global_flags hdr AND ZUPT_FLAG_AAD_PREFACE \<noteq> 0
       then (opt_keyring o1)\<lparr>use_preface_aad := True\<rparr> else opt_keyring o1)"
    "read_index al vvz alloc f p1 (global_flags hdr) (index_offset ft) (opt_keyring o') = Inr (es, pos)"
proof -
  from assms obtain r ait o1 p1 where a: "read_header f = Inr (hdr, r)" "locate_footer_v15 f = Inr (ft, ait)"
    "ait \<noteq> None \<or> opt_legacy_no_ait opts" "header_flags_consistent (global_flags hdr)"
    "read_enc_header unwrap alloc f (length f) hdr opts = Inr (o1, p1)"
    and "open_contents al vvz alloc f hdr ft ait o1 p1 = Inr (o', es, pos)"
    by (auto simp: open_archive_def rbind_Inr_iff split: if_splits)
  from this(6) show ?thesis
  proof (rule open_contents_Inr)
    fix o2
    assume v: "(case ait of None \<Rightarrow> Inr () | Some a \<Rightarrow> ait_verify hdr ft a
        (if global_flags hdr AND ZUPT_FLAG_ENCRYPTED \<noteq> 0 then Some (opt_keyring o1) else None)) = Inr ()"
      and "opt_keyring o' = (if global_flags hdr AND ZUPT_FLAG_AAD_PREFACE \<noteq> 0
         then (opt_keyring o1)\<lparr>use_preface_aad := True\<rparr> else opt_keyring o1)"
        "read_index al vvz alloc f p1 (global_flags hdr) (index_offset ft) (opt_keyring o') = Inr (es, pos)"
    then show ?thesis by (intro that [OF a]) simp_all
  qed
qed

lemma read_index_Inr:
  assumes "read_index al vvz alloc f pos gflags off kr = Inr (es, q)"
  obtains ib r idx where "block_wf alloc ib" "drop (fseeko_set pos off) f = write_block ib @ r" "block_type ib = ZUPT_BLOCK_INDEX"
    "decompress_block al vvz ib
       (if gflags AND (ZUPT_FLAG_DISK_IMAGE OR ZUPT_FLAG_ENCRYPTED) = ZUPT_FLAG_DISK_IMAGE OR ZUPT_FLAG_ENCRYPTED \<and>
          gflags AND ZUPT_FLAG_DISK_CONTENT_HASH = 0 then None else Some kr) index_aad_seq = Inr idx"
    "(if legacy_disk_index gflags then parse_legacy_disk_index alloc idx else parse_index alloc idx) = Inr es"
  using assms by (auto simp: read_index_def rbind_Inr_iff Let_def split: if_splits dest!: read_block_at_Inr)

lemma opened_entries_ok:
  assumes "open_archive unwrap al vvz alloc f opts = Inr (o', hdr, ft, es, pos)" "\<forall>n. alloc n"
  shows "list_all index_entry_ok es \<and> length es \<le> 64776"
proof -
  from assms(1) obtain p1 where "read_index al vvz alloc f p1 (global_flags hdr) (index_offset ft) (opt_keyring o') = Inr (es, pos)"
    by (rule open_archive_Inr)
  then obtain idx where "(if legacy_disk_index (global_flags hdr) then parse_legacy_disk_index alloc idx else parse_index alloc idx) = Inr es"
    by (rule read_index_Inr)
  then show ?thesis
    using assms(2) index_limit by (auto simp: parse_index_iff parse_legacy_disk_index_iff index_ok_def split: if_splits)
qed

lemma opened_authentic:
  assumes op: "open_archive unwrap al vvz alloc f opts = Inr (o', hdr, ft, es, pos)"
    and act: "unwrap_activates unwrap" and enc: "global_flags hdr AND ZUPT_FLAG_ENCRYPTED \<noteq> 0"
    and new: "\<not> opt_legacy_no_ait opts"
    and disk: "global_flags hdr AND ZUPT_FLAG_DISK_IMAGE = 0 \<or> global_flags hdr AND ZUPT_FLAG_DISK_CONTENT_HASH \<noteq> 0"
    and alloc: "\<forall>n. alloc n"
  shows "active (opt_keyring o') \<and>
    (\<exists>body ait. f = body @ zupt_serialize_footer ft @ ait \<and> ait = hmac_oneshot (mac_key (opt_keyring o')) (ait_serialize_mac_input hdr ft)) \<and>
    (\<exists>ib. block_type ib = ZUPT_BLOCK_INDEX \<and> block_flags ib AND ZUPT_BFLAG_ENCRYPTED \<noteq> 0 \<and>
      package_authentic (opt_keyring o') (index_aad_seq, ref_aad (opt_keyring o') ib) (payload ib) \<and>
      (\<exists>pos r. drop pos f = write_block ib @ r) \<and>
      decompress_block al vvz ib (Some (opt_keyring o')) index_aad_seq = Inr (write_index es))"
proof -
  from op obtain r ait o1 p1 where a: "locate_footer_v15 f = Inr (ft, ait)" "ait \<noteq> None"
    "read_enc_header unwrap alloc f (length f) hdr opts = Inr (o1, p1)"
    and v: "\<And>a. ait = Some a \<Longrightarrow> ait_verify hdr ft a (Some (opt_keyring o1)) = Inr ()"
    and k: "opt_keyring o' = (if global_flags hdr AND ZUPT_FLAG_AAD_PREFACE \<noteq> 0
       then (opt_keyring o1)\<lparr>use_preface_aad := True\<rparr> else opt_keyring o1)"
    and ri: "read_index al vvz alloc f p1 (global_flags hdr) (index_offset ft) (opt_keyring o') = Inr (es, pos)"
    by (rule open_archive_Inr) (use new enc in auto)
  have act1: "active (opt_keyring o1)" by (rule read_enc_header_active [OF act a(3) enc])
  then have actk: "active (opt_keyring o')" by (simp add: k)
  have mk: "mac_key (opt_keyring o') = mac_key (opt_keyring o1)" by (simp add: k)
  obtain t where t: "ait = Some t" using a(2) by blast
  from a(1) t obtain body where f: "f = body @ zupt_serialize_footer ft @ t" "length t = 32"
    by (auto simp: locate_footer_ait_iff)
  have tm: "t = hmac_oneshot (mac_key (opt_keyring o')) (ait_serialize_mac_input hdr ft)"
    using v [OF t] act1 unfolding ait_verify_iff [OF f(2)] by (simp add: zupt_format_ait_write_def mk)
  from ri obtain ib r idx where ib: "block_wf alloc ib" "drop (fseeko_set p1 (index_offset ft)) f = write_block ib @ r"
    "block_type ib = ZUPT_BLOCK_INDEX"
    and d: "decompress_block al vvz ib (if global_flags hdr AND (ZUPT_FLAG_DISK_IMAGE OR ZUPT_FLAG_ENCRYPTED) =
          ZUPT_FLAG_DISK_IMAGE OR ZUPT_FLAG_ENCRYPTED \<and> global_flags hdr AND ZUPT_FLAG_DISK_CONTENT_HASH = 0
        then None else Some (opt_keyring o')) index_aad_seq = Inr idx"
    and p: "(if legacy_disk_index (global_flags hdr) then parse_legacy_disk_index alloc idx else parse_index alloc idx) = Inr es"
    by (rule read_index_Inr)
  have nd: "\<not> (global_flags hdr AND (ZUPT_FLAG_DISK_IMAGE OR ZUPT_FLAG_ENCRYPTED) =
          ZUPT_FLAG_DISK_IMAGE OR ZUPT_FLAG_ENCRYPTED \<and> global_flags hdr AND ZUPT_FLAG_DISK_CONTENT_HASH = 0)"
  proof
    assume h: "global_flags hdr AND (ZUPT_FLAG_DISK_IMAGE OR ZUPT_FLAG_ENCRYPTED) =
          ZUPT_FLAG_DISK_IMAGE OR ZUPT_FLAG_ENCRYPTED \<and> global_flags hdr AND ZUPT_FLAG_DISK_CONTENT_HASH = 0"
    then have "(global_flags hdr AND (ZUPT_FLAG_DISK_IMAGE OR ZUPT_FLAG_ENCRYPTED)) AND ZUPT_FLAG_DISK_IMAGE = ZUPT_FLAG_DISK_IMAGE"
      by simp
    then have "global_flags hdr AND ZUPT_FLAG_DISK_IMAGE = ZUPT_FLAG_DISK_IMAGE"
      by (simp add: and.assoc)
    with disk h show False by auto
  qed
  note d = d [unfolded if_not_P [OF nd]]
  have "parse_index alloc idx = Inr es"
    using p disk by (auto simp: legacy_disk_index_def split: if_splits)
  then have idx: "idx = write_index es" using alloc by (simp add: parse_index_iff)
  from decompress_block_Inr(3) [OF d] obtain pl where pl: "open_payload al ib (Some (opt_keyring o')) index_aad_seq = Inr pl"
    by blast
  have tk: "take (unat (compressed_size ib)) (payload ib) = payload ib" using ib(1) by (simp add: block_wf_def)
  from open_payload_Inr [OF pl actk] tk have
    "block_flags ib AND ZUPT_BFLAG_ENCRYPTED \<noteq> 0"
    "package_authentic (opt_keyring o') (index_aad_seq, ref_aad (opt_keyring o') ib) (payload ib)" by simp_all
  with actk f(1) tm ib d idx show ?thesis by blast
qed

end
