(* ===== verification/Extract.thy ===== *)
theory Extract
  imports Open
begin

text \<open>
  Extraction (\<open>zupt_extract_archive\<close>, single-threaded, and the chunk writer it shares with
  restore): an ordinary archive file by file, a solid archive through one buffer. What the file
  system does is a parameter: whether an output can be created, each write succeeds and the
  output can be published. A file's output is the bytes published for it, if any.
\<close>

section \<open>Writing what was verified\<close>

text \<open>The state is the bytes written and the running hash; \<open>None\<close> is the result 0.\<close>

definition zupt_write_verified_chunk ::
  "bool \<Rightarrow> bytes \<Rightarrow> u64 \<Rightarrow> u64 \<times> u64 \<Rightarrow> (u64 \<times> u64) option" where
  "zupt_write_verified_chunk fwrite_ok data expected_size st =
     (let (written, hash) = st in
      if written > expected_size \<or> word_of_nat (length data) > expected_size - written then None
      else if length data > 0 then
        if \<not> fwrite_ok then None
        else Some (written + word_of_nat (length data), zupt_xxh64 data hash)
      else Some (written + word_of_nat (length data), hash))"

record out_env =
  oe_create :: "nat \<Rightarrow> bool"
  oe_write :: "nat \<Rightarrow> nat \<Rightarrow> bool"
  oe_publish :: "nat \<Rightarrow> bool"
  oe_after_failure :: "nat \<Rightarrow> nat"

text \<open>What reading needs: the allocations, the block decoders of VaptVupt and the allocator of the
  reader. On one thread \<open>vvz_decompress\<close> decodes.\<close>

record read_env =
  re_block :: block_alloc
  re_vv_blocks :: vv_block_decoders
  re_alloc :: "nat \<Rightarrow> bool"

definition re_vvz :: "read_env \<Rightarrow> vvz_decoder" where
  "re_vvz env = vvz_decoder_of (re_vv_blocks env)"

section \<open>The blocks of a file\<close>

text \<open>
  A reference block: the block it names has to lie earlier in the file, be a data block and
  agree in size and checksum. \<open>cur\<close> is the position behind the reference, \<open>bi\<close> its place in the
  file \<open>fi\<close>, and \<open>lmap\<close> the map of an old encrypted disk archive.
\<close>

definition extract_ref ::
  "read_env \<Rightarrow> bytes \<Rightarrow> u32 \<Rightarrow> zupt_keyring_t \<Rightarrow> zupt_legacy_disk_aad_map_t option \<Rightarrow> nat \<Rightarrow> u64 \<Rightarrow>
     zupt_block_t \<Rightarrow> nat \<Rightarrow> bytes result" where
  "extract_ref env f gflags kr lmap fi bi blk cur =
     (let require_authentication = (gflags AND ZUPT_FLAG_AUTH_DEDUP_REFS \<noteq> 0) in
      rbind (zupt_dedup_read_ref (ba_plain (re_block env)) blk (Some kr) require_authentication
               (if require_authentication then archive_data_aad_seq gflags fi bi else 0)) (\<lambda>(ref_off, rseq).
      rbind (case lmap of None \<Rightarrow> Inr rseq
             | Some m \<Rightarrow> (case zupt_legacy_disk_aad_map_lookup m ref_off of
                           None \<Rightarrow> Inl ZUPT_ERR_CORRUPT | Some s \<Rightarrow> Inr s)) (\<lambda>rseq.
      if unat ref_off \<ge> cur then Inl ZUPT_ERR_CORRUPT
      else
        rbind (read_block_at (re_alloc env) f (unat ref_off)) (\<lambda>(ref_blk, _).
        if block_type ref_blk \<noteq> ZUPT_BLOCK_DATA \<or> uncompressed_size ref_blk \<noteq> uncompressed_size blk \<or>
          checksum ref_blk \<noteq> checksum blk then Inl ZUPT_ERR_CORRUPT
        else decompress_block (re_block env) (re_vvz env) ref_blk (Some kr) rseq))))"

definition extract_block ::
  "read_env \<Rightarrow> bytes \<Rightarrow> u32 \<Rightarrow> zupt_keyring_t \<Rightarrow> zupt_legacy_disk_aad_map_t option \<Rightarrow> nat \<Rightarrow> u64 \<Rightarrow> nat \<Rightarrow>
     (bytes \<times> nat) result" where
  "extract_block env f gflags kr lmap fi bi pos =
     rbind (read_block_at (re_alloc env) f pos) (\<lambda>(blk, cur).
     if block_type blk = ZUPT_BLOCK_DEDUP_REF then
       rbind (extract_ref env f gflags kr lmap fi bi blk cur) (\<lambda>dec. Inr (dec, cur))
     else if block_type blk \<noteq> ZUPT_BLOCK_DATA then Inl ZUPT_ERR_CORRUPT
     else
       rbind (decompress_block (re_block env) (re_vvz env) blk (Some kr) (archive_data_aad_seq gflags fi bi))
         (\<lambda>dec. Inr (dec, cur)))"

text \<open>
  The loop over \<open>block_count\<close> blocks: \<open>n\<close> are left, \<open>b\<close> were read. A chunk that cannot be written
  fails the file; that the code then still reads the remaining blocks shows nowhere but in the
  position, which a failed file leaves unspecified (\<open>oe_after_failure\<close>).
\<close>

fun extract_blocks ::
  "read_env \<Rightarrow> (nat \<Rightarrow> bool) \<Rightarrow> bytes \<Rightarrow> u32 \<Rightarrow> zupt_keyring_t \<Rightarrow> zupt_legacy_disk_aad_map_t option \<Rightarrow> u64 \<Rightarrow> nat \<Rightarrow>
     nat \<Rightarrow> nat \<Rightarrow> nat \<Rightarrow> bytes \<Rightarrow> u64 \<times> u64 \<Rightarrow> (bytes \<times> (u64 \<times> u64) \<times> nat) option" where
  "extract_blocks env wr f gflags kr lmap expected fi 0 b pos content st = Some (content, st, pos)"
| "extract_blocks env wr f gflags kr lmap expected fi (Suc n) b pos content st =
     (case extract_block env f gflags kr lmap fi (word_of_nat b) pos of
        Inl _ \<Rightarrow> None
      | Inr (dec, pos) \<Rightarrow>
          (case zupt_write_verified_chunk (wr b) dec expected st of
             None \<Rightarrow> None
           | Some st \<Rightarrow> extract_blocks env wr f gflags kr lmap expected fi n (b + 1) pos (content @ dec) st))"

definition require_content_hash :: "u32 \<Rightarrow> bool" where
  "require_content_hash gflags \<longleftrightarrow>
     gflags AND ZUPT_FLAG_DISK_IMAGE = 0 \<or> gflags AND ZUPT_FLAG_DISK_CONTENT_HASH \<noteq> 0"

definition extract_entry ::
  "read_env \<Rightarrow> out_env \<Rightarrow> bytes \<Rightarrow> u32 \<Rightarrow> zupt_keyring_t \<Rightarrow> zupt_legacy_disk_aad_map_t option \<Rightarrow> nat \<Rightarrow>
     zupt_index_entry_t \<Rightarrow> nat \<Rightarrow> bytes option \<times> nat" where
  "extract_entry env oe f gflags kr lmap i e pos =
     (if \<not> zupt_path_is_safe (ix_path e) then (None, pos)
      else if \<not> oe_create oe i then (None, pos)
      else
        (case extract_blocks env (oe_write oe i) f gflags kr lmap (ix_uncompressed_size e) i
                (unat (ix_block_count e)) 0 (fseeko_set pos (ix_first_block_offset e)) [] (0, 0) of
           None \<Rightarrow> (None, oe_after_failure oe i)
         | Some (content, (extracted, hash), pos) \<Rightarrow>
             if extracted \<noteq> ix_uncompressed_size e \<or>
               require_content_hash gflags \<and> hash \<noteq> ix_content_hash e then (None, pos)
             else if \<not> oe_publish oe i then (None, pos)
             else (Some content, pos)))"

fun extract_entries ::
  "read_env \<Rightarrow> out_env \<Rightarrow> bytes \<Rightarrow> u32 \<Rightarrow> zupt_keyring_t \<Rightarrow> zupt_legacy_disk_aad_map_t option \<Rightarrow> nat \<Rightarrow>
     zupt_index_entry_t list \<Rightarrow> nat \<Rightarrow> bytes option list" where
  "extract_entries env oe f gflags kr lmap i [] pos = []"
| "extract_entries env oe f gflags kr lmap i (e # es) pos =
     (let (r, pos) = extract_entry env oe f gflags kr lmap i e pos in
      r # extract_entries env oe f gflags kr lmap (i + 1) es pos)"

section \<open>Solid archives\<close>

abbreviation (input) ZUPT_FLAG_SOLID :: u32 where "ZUPT_FLAG_SOLID \<equiv> 2"

text \<open>The sum of the sizes, unless it leaves 64 bits.\<close>

fun solid_total :: "zupt_index_entry_t list \<Rightarrow> u64 \<Rightarrow> u64 option" where
  "solid_total [] tot = Some tot"
| "solid_total (e # es) tot =
     (if ix_uncompressed_size e > 0xFFFFFFFFFFFFFFFF - tot then None
      else solid_total es (tot + ix_uncompressed_size e))"

lemma read_block_at_forward: "read_block_at alloc f pos = Inr (b, q) \<Longrightarrow> pos < q \<and> q \<le> length f"
  by (auto simp: read_block_at_def rbind_Inr_iff dest!: read_block_consumes)

text \<open>The loop over the frames up to the end of the data; it ends because every frame read moves
  the position. \<open>buf\<close> is the filled part of the buffer and \<open>sq\<close> the number of blocks read.\<close>

function solid_blocks ::
  "read_env \<Rightarrow> bytes \<Rightarrow> zupt_keyring_t \<Rightarrow> nat \<Rightarrow> nat \<Rightarrow> nat \<Rightarrow> bytes \<Rightarrow> u64 \<Rightarrow> (bytes \<times> u64) option" where
  "solid_blocks env f kr tot data_end pos buf sq =
     (if pos = data_end then Some (buf, sq)
      else if pos > data_end then None
      else
        (case read_block_at (re_alloc env) f pos of
           Inl _ \<Rightarrow> None
         | Inr (blk, pos') \<Rightarrow>
             if block_type blk \<noteq> ZUPT_BLOCK_DATA then None
             else
               (case decompress_block (re_block env) (re_vvz env) blk (Some kr) (push_bit 32 1 OR sq) of
                  Inl _ \<Rightarrow> None
                | Inr dec \<Rightarrow>
                    if length dec > tot - length buf then None
                    else solid_blocks env f kr tot data_end pos' (buf @ dec) (sq + 1))))"
  by pat_completeness auto

termination
  by (relation "measure (\<lambda>(_, f, _, _, _, pos, _, _). length f - pos)")
     (auto dest!: read_block_at_forward)

declare solid_blocks.simps [simp del]

definition extract_solid_entry ::
  "out_env \<Rightarrow> bytes \<Rightarrow> u64 \<Rightarrow> nat \<Rightarrow> zupt_index_entry_t \<Rightarrow> bytes option" where
  "extract_solid_entry oe buf tot i e =
     (let off = ix_first_block_offset e; sz = ix_uncompressed_size e in
      if \<not> zupt_path_is_safe (ix_path e) then None
      else if off > tot \<or> sz > tot - off then None
      else
        let content = take (unat sz) (drop (unat off) buf);
            ck = (if sz > 0 then zupt_xxh64 content 0 else 0) in
        if ck \<noteq> ix_content_hash e then None
        else if \<not> oe_create oe i then None
        else if (sz > 0 \<and> \<not> oe_write oe i 0) \<or> \<not> oe_publish oe i then None
        else Some content)"

definition extract_solid ::
  "read_env \<Rightarrow> out_env \<Rightarrow> bytes \<Rightarrow> zupt_archive_header_t \<Rightarrow> zupt_footer_t \<Rightarrow> zupt_keyring_t \<Rightarrow>
     zupt_index_entry_t list \<Rightarrow> bytes option list result" where
  "extract_solid env oe f hdr ft kr es =
     (case solid_total es 0 of
        None \<Rightarrow> Inl ZUPT_ERR_OVERFLOW
      | Some tot \<Rightarrow>
          if unat tot > 4 * 1024 * 1024 * 1024 then Inl ZUPT_ERR_OVERFLOW
          else if \<not> re_alloc env (if tot = 0 then 1 else unat tot) then Inl ZUPT_ERR_NOMEM
          else
            rbind (if global_flags hdr AND ZUPT_FLAG_ENCRYPTED \<noteq> 0 then rbind (read_block_at (re_alloc env) f 64) (\<lambda>(_, pos). Inr pos)
                   else Inr 64) (\<lambda>pos.
            let data_end = (if comment_offset hdr \<noteq> 0 then comment_offset hdr else index_offset ft);
                metadata = (if comment_offset hdr \<noteq> 0 then 2 else 1) in
            (case solid_blocks env f kr (unat tot) (unat data_end) pos [] 0 of
               None \<Rightarrow> Inl ZUPT_ERR_CORRUPT
             | Some (buf, sq) \<Rightarrow>
                 if length buf \<noteq> unat tot \<or> total_blocks ft < metadata \<or> sq \<noteq> total_blocks ft - metadata
                 then Inl ZUPT_ERR_CORRUPT
                 else Inr (map (\<lambda>(i, e). extract_solid_entry oe buf tot i e) (List.enumerate 0 es)))))"

section \<open>The whole extraction\<close>

text \<open>The aggregate limit on the output, checked before anything is created.\<close>

fun output_quota :: "u64 \<Rightarrow> zupt_index_entry_t list \<Rightarrow> u64 \<Rightarrow> bool" where
  "output_quota limit [] tot = True"
| "output_quota limit (e # es) tot =
     (if ix_uncompressed_size e > 0xFFFFFFFFFFFFFFFF - tot \<or>
        limit \<noteq> 0 \<and> ix_uncompressed_size e > limit - tot then False
      else output_quota limit es (tot + ix_uncompressed_size e))"

text \<open>The outputs per entry, and the result of the call: failed entries make it a corrupt archive.\<close>

definition zupt_extract_archive ::
  "unwrap \<Rightarrow> read_env \<Rightarrow> out_env \<Rightarrow> bytes \<Rightarrow> zupt_options_t \<Rightarrow> (zupt_index_entry_t list \<times> bytes option list) result" where
  "zupt_extract_archive unwrap env oe f opts =
     rbind (open_archive unwrap (re_block env) (re_vvz env) (re_alloc env) f opts) (\<lambda>(opts, hdr, ft, es, pos).
     if \<not> output_quota (opt_max_output_size opts) es 0 then Inl ZUPT_ERR_OVERFLOW
     else if global_flags hdr AND ZUPT_FLAG_SOLID \<noteq> 0 then
       rbind (extract_solid env oe f hdr ft (opt_keyring opts) es) (\<lambda>rs. Inr (es, rs))
     else
       let gflags = global_flags hdr in
       if gflags AND ZUPT_FLAG_DISK_IMAGE \<noteq> 0 \<and> gflags AND ZUPT_FLAG_ENCRYPTED \<noteq> 0 \<and>
         gflags AND ZUPT_FLAG_DEDUP \<noteq> 0 \<and> gflags AND ZUPT_FLAG_AUTH_DEDUP_REFS = 0 then
         (if length es \<noteq> 1 then Inl ZUPT_ERR_CORRUPT
          else
            rbind (zupt_legacy_disk_aad_map_build (re_alloc env) f (ix_first_block_offset (es ! 0))
                     (ix_block_count (es ! 0))) (\<lambda>m.
            Inr (es, extract_entries env oe f gflags (opt_keyring opts) (Some m) 0 es pos)))
       else Inr (es, extract_entries env oe f gflags (opt_keyring opts) None 0 es pos))"

definition extract_status :: "bytes option list \<Rightarrow> unit result" where
  "extract_status rs = (if None \<in> set rs then Inl ZUPT_ERR_CORRUPT else Inr ())"

end
