(* ===== verification/Compress.thy ===== *)
theory Compress
  imports Extract
begin

text \<open>
  The writer of ordinary archives (\<open>zupt_compress_files\<close> on one thread): header, encryption
  header, the blocks of each file with or without deduplication, comment, index, footer and
  trailer. The archive is built in a temporary file that is published at the end; the model is
  the bytes of that file, and a failed write (which discards it) is not modelled. Inputs are
  given by their names and bytes.
\<close>

section \<open>Environment\<close>

text \<open>
  What the writer draws from outside, by the number of the block: nonces, allocations and
  codec decisions; the clock, random bytes, the salt of the password header, the key
  encapsulations, and the codec \<open>ZUPT_CODEC_AUTO\<close> stands for on this machine.
\<close>

type_synonym wrap = "u8 \<Rightarrow> zupt_keyring_t \<Rightarrow> bytes \<Rightarrow> (zupt_keyring_t \<times> bytes) option"

record write_env =
  we_nonce :: "nat \<Rightarrow> bytes"
  we_mem :: "nat \<Rightarrow> bool"
  we_codec :: "nat \<Rightarrow> codec_env"
  we_index :: lzh_alloc
  we_alloc :: "nat \<Rightarrow> bool"
  we_dedup :: "bool \<times> bool"
  we_time :: u64
  we_random_id :: bytes
  we_salt :: bytes
  we_kdf_nonce :: bytes
  we_wrap :: wrap
  we_with_sdk :: bool
  we_auto_codec :: u16

definition auto_block_size :: "int \<Rightarrow> u32" where
  "auto_block_size level =
     (if level \<le> 2 then 131072
      else if level \<le> 4 then push_bit 20 1
      else if level \<le> 6 then push_bit 20 2
      else if level \<le> 7 then push_bit 20 4
      else push_bit 20 8)"

definition auto_block_size_dedup :: "int \<Rightarrow> u32" where
  "auto_block_size_dedup level = (if level \<le> 2 then 131072 else 262144)"

text \<open>A random identifier with the version and variant bits of a UUID.\<close>

definition gen_uuid :: "bytes \<Rightarrow> bytes" where
  "gen_uuid u = (u[6 := (u ! 6 AND 0x0F) OR 0x40])[8 := (u ! 8 AND 0x3F) OR 0x80]"

section \<open>The encryption header\<close>

definition zupt_write_archive_header :: "bytes \<Rightarrow> zupt_archive_header_t \<Rightarrow> bytes" where
  "zupt_write_archive_header out h = buf_write out 0 (zupt_serialize_archive_header h)"

definition enc_header_frame :: "bytes \<Rightarrow> bytes" where
  "enc_header_frame p = frame_block ZUPT_BLOCK_ENC_HEADER ZUPT_CODEC_STORE (length p) (zupt_xxh64 p 0) (0, p)"

abbreviation (input) ZUPT_FLAG_PQ_HYBRID :: u32 where "ZUPT_FLAG_PQ_HYBRID \<equiv> 8"

text \<open>The header type the options ask for; \<open>ZUPT_ENC_PBKDF2\<close> and \<open>ZUPT_ENC_PW_ARGON2\<close> are the
  password headers.\<close>

definition enc_header_type :: "bool \<Rightarrow> zupt_options_t \<Rightarrow> u8" where
  "enc_header_type with_sdk opts =
     (if opt_box_mode opts \<and> opt_pq_mode opts then ZUPT_ENC_PQ_BOX_V1
      else if opt_sdk_mode opts \<and> opt_pq_mode opts then ZUPT_ENC_PQ_SDK_V2
      else if opt_pqonly_mode opts then ZUPT_ENC_PQ_ONLY
      else if opt_pq_mode opts then ZUPT_ENC_PQ_HYBRID
      else if with_sdk \<and> \<not> opt_kdf_legacy_pbkdf2 opts then ZUPT_ENC_PW_ARGON2
      else ZUPT_ENC_PBKDF2)"

definition pbkdf2_header :: "bytes \<Rightarrow> bytes \<Rightarrow> bytes" where
  "pbkdf2_header slt nonce =
     [ZUPT_ENC_PBKDF2] @ take 32 slt @ take 16 nonce @ zupt_le32_put ZUPT_KDF_ITERATIONS"

definition write_enc_header ::
  "write_env \<Rightarrow> bytes \<Rightarrow> zupt_archive_header_t \<Rightarrow> zupt_options_t \<Rightarrow>
     (bytes \<times> zupt_archive_header_t \<times> zupt_options_t) result" where
  "write_enc_header we out hdr opts =
     (let hdr = hdr\<lparr>encryption_header_off := word_of_nat (length out)\<rparr>;
          enc_type = enc_header_type (we_with_sdk we) opts in
      if enc_type = ZUPT_ENC_PBKDF2 then
        let kr = zupt_derive_keys (opt_keyring opts) (opt_password opts) (we_salt we) (we_kdf_nonce we) ZUPT_KDF_ITERATIONS;
            out = out @ enc_header_frame (pbkdf2_header (we_salt we) (we_kdf_nonce we)) in
        Inr (zupt_write_archive_header out hdr, hdr, opts\<lparr>opt_keyring := kr\<rparr>)
      else
        let secret = (if enc_type = ZUPT_ENC_PW_ARGON2 then opt_password opts else opt_keyfile opts);
            hdr = (if enc_type = ZUPT_ENC_PW_ARGON2 then hdr
                   else hdr\<lparr>global_flags := global_flags hdr OR ZUPT_FLAG_PQ_HYBRID\<rparr>) in
        (case we_wrap we enc_type (opt_keyring opts) secret of
           None \<Rightarrow> Inl ZUPT_ERR_AUTH_FAIL
         | Some (kr, p) \<Rightarrow>
             Inr (zupt_write_archive_header (out @ enc_header_frame p) hdr, hdr, opts\<lparr>opt_keyring := kr\<rparr>)))"

section \<open>The blocks of a file\<close>

record cw_state =
  cw_out :: bytes
  cw_dedup :: "zupt_dedup_ctx option"
  cw_seq :: nat
  cw_hash :: u64
  cw_comp :: u64
  cw_count :: nat
  cw_total :: nat

text \<open>The bookkeeping after a block of either kind; \<open>out\<close> is what was appended.\<close>

definition cw_advance :: "bytes \<Rightarrow> u64 \<Rightarrow> cw_state \<Rightarrow> cw_state" where
  "cw_advance out csz st =
     st\<lparr>cw_out := cw_out st @ out, cw_seq := cw_seq st + 1, cw_comp := cw_comp st + csz,
        cw_count := cw_count st + 1, cw_total := cw_total st + 1\<rparr>"

definition dedup_digest :: "bytes \<Rightarrow> bytes" where
  "dedup_digest d = take 16 (zupt_sha256 (\<lambda>_. 0) d)"

text \<open>The reference to an identical earlier block, when deduplication finds one.\<close>

definition find_duplicate :: "zupt_dedup_ctx option \<Rightarrow> bytes \<Rightarrow> (u64 \<times> u64) option" where
  "find_duplicate dedup rbuf =
     (case dedup of
        None \<Rightarrow> None
      | Some ctx \<Rightarrow>
          (case zupt_dedup_lookup_secure ctx (zupt_xxh64 rbuf 0) (dedup_digest rbuf) of
             Some (ref_off, ref_sz, rseq) \<Rightarrow>
               if ref_sz = word_of_nat (length rbuf) then Some (ref_off, rseq) else None
           | None \<Rightarrow> None))"

text \<open>
  A block with its encoded payload \<open>cp\<close> and its position \<open>aad_seq\<close>, and the choice between a
  reference and a block. The disk writer has the same code around another choice of codec and
  other positions.
\<close>

definition write_data_block ::
  "write_env \<Rightarrow> zupt_options_t \<Rightarrow> u16 \<times> bytes \<Rightarrow> u64 \<Rightarrow> bytes \<Rightarrow> cw_state \<Rightarrow> cw_state result" where
  "write_data_block we opts cp aad_seq rbuf st =
     (let k = cw_total st;
          checksum = zupt_xxh64 rbuf 0;
          (codec, p) = cp in
      case seal_payload (we_mem we k) (we_nonce we k) (opt_encrypt opts) (opt_keyring opts) ZUPT_BLOCK_DATA codec
             (length rbuf) p checksum aad_seq of
        None \<Rightarrow> Inl ZUPT_ERR_NOMEM
      | Some fp \<Rightarrow>
          let this_block_off = word_of_nat (length (cw_out st));
              dedup = (case cw_dedup st of None \<Rightarrow> None
                | Some ctx \<Rightarrow>
                    (case zupt_dedup_insert_secure ctx checksum (dedup_digest rbuf) this_block_off
                            (word_of_nat (length rbuf)) aad_seq of
                       None \<Rightarrow> Some ctx | Some ctx \<Rightarrow> Some ctx)) in
          Inr (cw_advance (frame_block ZUPT_BLOCK_DATA codec (length rbuf) checksum fp)
                 (word_of_nat (length (snd fp))) (st\<lparr>cw_dedup := dedup\<rparr>)))"

definition write_block_or_ref ::
  "write_env \<Rightarrow> zupt_options_t \<Rightarrow> u16 \<times> bytes \<Rightarrow> u64 \<Rightarrow> bytes \<Rightarrow> cw_state \<Rightarrow> cw_state result" where
  "write_block_or_ref we opts cp aad_seq rbuf st =
     (let k = cw_total st;
          st = st\<lparr>cw_hash := zupt_xxh64 rbuf (cw_hash st),
                  cw_dedup := map_option zupt_dedup_record_block (cw_dedup st)\<rparr> in
      case find_duplicate (cw_dedup st) rbuf of
        Some (ref_off, rseq) \<Rightarrow>
          (case zupt_dedup_write_ref_secure (we_mem we k) (we_nonce we k) ref_off (word_of_nat (length rbuf))
                  (zupt_xxh64 rbuf 0) aad_seq rseq
                  (if opt_encrypt opts then Some (opt_keyring opts) else None) of
             None \<Rightarrow> Inl ZUPT_ERR_IO
           | Some frame \<Rightarrow>
               Inr (cw_advance frame (if opt_encrypt opts then 64 else 8)
                      (st\<lparr>cw_dedup := map_option (\<lambda>c. zupt_dedup_record_hit c (word_of_nat (length rbuf))) (cw_dedup st)\<rparr>)))
      | None \<Rightarrow> write_data_block we opts cp aad_seq rbuf st)"

definition compress_block ::
  "write_env \<Rightarrow> zupt_options_t \<Rightarrow> nat \<Rightarrow> bytes \<Rightarrow> cw_state \<Rightarrow> cw_state result" where
  "compress_block we opts fi rbuf st =
     write_block_or_ref we opts (compress_chunk (we_codec we (cw_total st)) (opt_codec_id opts) (opt_level opts) rbuf)
       (logical_aad_seq fi (word_of_nat (cw_seq st))) rbuf st"

text \<open>The loop over the chunks of a file; \<open>blk\<close> writes a chunk and \<open>bs\<close> is the block size, which is
  never 0 here.\<close>

function write_chunks ::
  "(bytes \<Rightarrow> cw_state \<Rightarrow> cw_state result) \<Rightarrow> nat \<Rightarrow> bytes \<Rightarrow> cw_state \<Rightarrow> cw_state result" where
  "write_chunks blk bs rest st =
     (if rest = [] \<or> bs = 0 then Inr st
      else rbind (blk (take bs rest) st) (\<lambda>st. write_chunks blk bs (drop bs rest) st))"
  by pat_completeness auto
termination
  by (relation "measure (\<lambda>(_, _, rest, _). length rest)") auto

declare write_chunks.simps [simp del]

definition compress_chunks ::
  "write_env \<Rightarrow> zupt_options_t \<Rightarrow> nat \<Rightarrow> nat \<Rightarrow> bytes \<Rightarrow> cw_state \<Rightarrow> cw_state result" where
  "compress_chunks we opts fi bs rest st = write_chunks (compress_block we opts fi) bs rest st"

lemma compress_chunks_simps:
  "compress_chunks we opts fi bs rest st =
     (if rest = [] \<or> bs = 0 then Inr st
      else rbind (compress_block we opts fi (take bs rest) st) (\<lambda>st. compress_chunks we opts fi bs (drop bs rest) st))"
  unfolding compress_chunks_def by (subst write_chunks.simps) simp

text \<open>What every chunk adds at most, the file grows by; a loop of steps that succeed succeeds.\<close>

lemma write_chunks_cons:
  assumes "write_chunks blk bs rest st = Inr st'" "rest \<noteq> []" "0 < bs"
  obtains s1 where "blk (take bs rest) st = Inr s1" "write_chunks blk bs (drop bs rest) s1 = Inr st'"
  using assms by (subst (asm) write_chunks.simps) (auto simp: rbind_Inr_iff)

lemma write_chunks_extends:
  assumes "\<forall>x s s'. blk x s = Inr s' \<longrightarrow> (\<exists>y. cw_out s' = cw_out s @ y)"
  shows "write_chunks blk bs rest st = Inr st' \<Longrightarrow> \<exists>y. cw_out st' = cw_out st @ y"
  using assms
proof (induction blk bs rest st rule: write_chunks.induct)
  case (1 blk bs rest st)
  show ?case
  proof (cases "rest = [] \<or> bs = 0")
    case False
    then obtain s1 where s1: "blk (take bs rest) st = Inr s1" "write_chunks blk bs (drop bs rest) s1 = Inr st'"
      using 1(2) by (auto elim: write_chunks_cons)
    from 1(1) [OF False s1(2) 1(3)] 1(3) [rule_format, OF s1(1)] show ?thesis by auto
  qed (use 1(2) in \<open>simp add: write_chunks.simps\<close>)
qed

lemma write_chunks_length:
  assumes "\<And>x s s'. blk x s = Inr s' \<Longrightarrow> length (cw_out s') \<le> length (cw_out s) + 99 + length x"
  shows "write_chunks blk bs rest st = Inr st' \<Longrightarrow> length (cw_out st') \<le> length (cw_out st) + 100 * length rest"
  using assms
proof (induction blk bs rest st rule: write_chunks.induct)
  case (1 blk bs rest st)
  show ?case
  proof (cases "rest = [] \<or> bs = 0")
    case False
    then obtain s1 where s1: "blk (take bs rest) st = Inr s1" "write_chunks blk bs (drop bs rest) s1 = Inr st'"
      using 1(2) by (auto elim: write_chunks_cons)
    have "length rest = length (take bs rest) + length (drop bs rest)" by simp
    moreover have "0 < length (take bs rest)" using False by simp
    ultimately show ?thesis using 1(1) [OF False s1(2) 1(3)] 1(3) [OF s1(1)] by linarith
  qed (use 1(2) in \<open>simp add: write_chunks.simps\<close>)
qed

lemma write_chunks_total:
  assumes "\<And>x s. \<exists>s'. blk x s = Inr s'"
  shows "\<exists>st'. write_chunks blk bs rest st = Inr st'"
  using assms
proof (induction blk bs rest st rule: write_chunks.induct)
  case (1 blk bs rest st)
  show ?case
  proof (cases "rest = [] \<or> bs = 0")
    case False
    obtain s1 where "blk (take bs rest) st = Inr s1" using 1(2) by blast
    moreover obtain s2 where "write_chunks blk bs (drop bs rest) s1 = Inr s2" using 1(1) [OF False 1(2)] by blast
    ultimately show ?thesis using False by (subst write_chunks.simps) auto
  qed (simp add: write_chunks.simps)
qed

text \<open>An input: its name in the archive, its bytes and its modification time.\<close>

record input_file =
  in_arc_path :: bytes
  in_content :: bytes
  in_mtime :: u64

definition compress_file ::
  "write_env \<Rightarrow> zupt_options_t \<Rightarrow> nat \<Rightarrow> nat \<Rightarrow> input_file \<Rightarrow> cw_state \<Rightarrow>
     (cw_state \<times> zupt_index_entry_t) result" where
  "compress_file we opts bs fi file st =
     (let first = word_of_nat (length (cw_out st)) in
      rbind (compress_chunks we opts fi bs (in_content file)
               (st\<lparr>cw_seq := 0, cw_hash := 0, cw_comp := 0, cw_count := 0\<rparr>)) (\<lambda>st.
      Inr (st, \<lparr>ix_path = take (ZUPT_MAX_PATH - 1) (in_arc_path file),
                ix_uncompressed_size = word_of_nat (length (in_content file)),
                ix_compressed_size = cw_comp st, ix_modification_time = in_mtime file,
                ix_content_hash = cw_hash st, ix_first_block_offset = first,
                ix_block_count = word_of_nat (cw_count st), ix_attributes = 420\<rparr>)))"

fun compress_all ::
  "write_env \<Rightarrow> zupt_options_t \<Rightarrow> nat \<Rightarrow> nat \<Rightarrow> input_file list \<Rightarrow> cw_state \<Rightarrow>
     (cw_state \<times> zupt_index_entry_t list) result" where
  "compress_all we opts bs fi [] st = Inr (st, [])"
| "compress_all we opts bs fi (file # files) st =
     rbind (compress_file we opts bs fi file st) (\<lambda>(st, e).
     rbind (compress_all we opts bs (fi + 1) files st) (\<lambda>(st, es). Inr (st, e # es)))"

section \<open>Comment, index, footer\<close>

text \<open>A comment is the string in the option's buffer; the result has the header with its offset.\<close>

definition write_comment_block ::
  "write_env \<Rightarrow> zupt_archive_header_t \<Rightarrow> zupt_options_t \<Rightarrow> bytes \<Rightarrow> nat \<Rightarrow>
     (bytes \<times> zupt_archive_header_t \<times> nat) result" where
  "write_comment_block we hdr opts out tb =
     (let text = take ZUPT_MAX_COMMENT_LEN (takeWhile (\<lambda>c. c \<noteq> 0) (opt_comment opts)) in
      if \<not> opt_has_comment opts \<or> text = [] then Inr (out, hdr, tb)
      else
        let comment_off = word_of_nat (length out); cksum = zupt_xxh64 text 0 in
        (case seal_payload (we_mem we tb) (we_nonce we tb) (opt_encrypt opts) (opt_keyring opts) ZUPT_BLOCK_COMMENT
                ZUPT_CODEC_STORE (length text) text cksum ZUPT_COMMENT_AAD_SEQ of
           None \<Rightarrow> Inl ZUPT_ERR_NOMEM
         | Some fp \<Rightarrow>
             Inr (out @ frame_block ZUPT_BLOCK_COMMENT ZUPT_CODEC_STORE (length text) cksum fp,
                  hdr\<lparr>comment_offset := comment_off\<rparr>, tb + 1)))"

definition write_index_block ::
  "write_env \<Rightarrow> zupt_options_t \<Rightarrow> zupt_index_entry_t list \<Rightarrow> nat \<Rightarrow> bytes result" where
  "write_index_block we opts es k =
     (let ibuf = write_index es; ip = length ibuf in
      if \<not> we_alloc we (length es * (ZUPT_MAX_PATH + 128)) \<or> \<not> we_alloc we (zupt_lzh_bound ip) then Inl ZUPT_ERR_NOMEM
      else
        let ic = zupt_lzh_compress (we_index we) ibuf (zupt_lzh_bound ip) (opt_level opts);
            (codec, p) = (if length ic = 0 \<or> length ic \<ge> ip then (ZUPT_CODEC_STORE, ibuf) else (ZUPT_CODEC_ZUPT_LZH, ic));
            cksum = zupt_xxh64 ibuf 0 in
        (case seal_payload (we_mem we k) (we_nonce we k) (opt_encrypt opts) (opt_keyring opts) ZUPT_BLOCK_INDEX codec
                ip p cksum index_aad_seq of
           None \<Rightarrow> Inl ZUPT_ERR_NOMEM
         | Some fp \<Rightarrow> Inr (frame_block ZUPT_BLOCK_INDEX codec ip cksum fp)))"

definition make_footer :: "nat \<Rightarrow> nat \<Rightarrow> nat \<Rightarrow> zupt_footer_t" where
  "make_footer index_off tb end_off =
     \<lparr>index_offset = word_of_nat index_off, total_blocks = word_of_nat tb,
      archive_checksum = word_of_nat end_off, footer_magic = ZEND, footer_version = 1\<rparr>"

text \<open>Everything behind the data blocks: the finished archive. The solid writer counts the index
  among the blocks and leaves the footer's checksum field zero; the ordinary one does not count
  the index and stores the size of the file so far in that field.\<close>

definition finish_archive ::
  "bool \<Rightarrow> write_env \<Rightarrow> zupt_options_t \<Rightarrow> zupt_archive_header_t \<Rightarrow> cw_state \<Rightarrow> zupt_index_entry_t list \<Rightarrow> bytes result" where
  "finish_archive solid we opts hdr st es =
     rbind (write_comment_block we hdr opts (cw_out st) (cw_total st)) (\<lambda>(out, hdr, tb).
     let out = (if opt_has_comment opts \<and> comment_offset hdr \<noteq> 0 then zupt_write_archive_header out hdr else out);
         index_off = length out in
     rbind (write_index_block we opts es tb) (\<lambda>ib.
     let out = out @ ib;
         ft = make_footer index_off (tb + (if solid then 1 else 0)) (if solid then 0 else length out);
         kr = (if opt_encrypt opts then Some (opt_keyring opts) else None) in
     Inr (out @ zupt_serialize_footer ft @ zupt_format_ait_write hdr ft kr)))"

section \<open>The writer\<close>

definition initial_header :: "write_env \<Rightarrow> zupt_options_t \<Rightarrow> zupt_archive_header_t" where
  "initial_header we opts =
     \<lparr>hdr_magic = zupt_magic, version_major = ZUPT_FORMAT_MAJOR, version_minor = ZUPT_FORMAT_MINOR,
      global_flags =
        (if opt_encrypt opts then ZUPT_FLAG_ENCRYPTED OR ZUPT_FLAG_AAD_SEQ OR ZUPT_FLAG_AAD_PREFACE else 0) OR
        (if opt_dedup opts then ZUPT_FLAG_DEDUP else 0) OR
        (if opt_dedup opts \<and> opt_encrypt opts then ZUPT_FLAG_AUTH_DEDUP_REFS else 0),
      creation_time = we_time we, archive_id = gen_uuid (we_random_id we), encryption_header_off = 0,
      comment_offset = 0, hdr_reserved = replicate 12 0\<rparr>"

text \<open>The options with their defaults resolved.\<close>

definition resolve_options :: "write_env \<Rightarrow> zupt_options_t \<Rightarrow> zupt_options_t" where
  "resolve_options we opts =
     (let opts = (if opt_block_size opts = 0
                  then opts\<lparr>opt_block_size := (if opt_dedup opts then auto_block_size_dedup (opt_level opts)
                                               else auto_block_size (opt_level opts))\<rparr>
                  else opts);
          opts = (if opt_codec_id opts = ZUPT_CODEC_AUTO then opts\<lparr>opt_codec_id := we_auto_codec we\<rparr> else opts) in
      if opt_encrypt opts then opts\<lparr>opt_keyring := (opt_keyring opts)\<lparr>use_preface_aad := True\<rparr>\<rparr> else opts)"

definition zupt_compress_files :: "write_env \<Rightarrow> zupt_options_t \<Rightarrow> input_file list \<Rightarrow> bytes result" where
  "zupt_compress_files we opts files =
     (if length files > ZUPT_MAX_INDEX_ALLOC_BYTES div index_entry_sizeof then Inl ZUPT_ERR_OVERFLOW
      else
        rbind (zupt_validate_archive_destinations (we_alloc we) (map in_arc_path files) True) (\<lambda>_.
        let opts = resolve_options we opts;
            bs = unat (opt_block_size opts);
            hdr = initial_header we opts;
            out = zupt_serialize_archive_header hdr in
        rbind (if opt_encrypt opts then write_enc_header we out hdr opts else Inr (out, hdr, opts)) (\<lambda>(out, hdr, opts).
        if \<not> we_alloc we (length files * index_entry_sizeof) \<or> \<not> we_alloc we bs \<or>
          \<not> we_alloc we (zupt_lzh_bound bs + 512) then Inl ZUPT_ERR_NOMEM
        else
          let dedup = (if opt_dedup opts then zupt_dedup_init (fst (we_dedup we)) (snd (we_dedup we)) else None) in
          if opt_dedup opts \<and> dedup = None then Inl ZUPT_ERR_NOMEM
          else
            rbind (compress_all we opts bs 0 files
                \<lparr>cw_out = out, cw_dedup = dedup, cw_seq = 0, cw_hash = 0, cw_comp = 0, cw_count = 0, cw_total = 0\<rparr>)
              (\<lambda>(st, es). finish_archive False we opts hdr st es))))"

section \<open>Files that extend what was written\<close>

text \<open>
  The finished file agrees with what was written so far, except in the archive header, which is
  rewritten in place.
\<close>

definition covers :: "bytes \<Rightarrow> bytes \<Rightarrow> bool" where
  "covers f out \<longleftrightarrow> 64 \<le> length out \<and> (\<exists>h t. length h = 64 \<and> f = h @ drop 64 out @ t)"

lemma covers_append: "covers f (out @ x) \<Longrightarrow> 64 \<le> length out \<Longrightarrow> covers f out"
  by (auto simp: covers_def)

lemma covers_length: "covers f out \<Longrightarrow> length out \<le> length f"
  by (auto simp: covers_def)

lemma covers_at:
  assumes "covers f out" "64 \<le> n" "drop n out = x @ r" "n \<le> length out"
  shows "\<exists>r'. drop n f = x @ r'"
proof -
  from assms(1) obtain h t where h: "length h = 64" "f = h @ drop 64 out @ t" "64 \<le> length out"
    by (auto simp: covers_def)
  have "drop n f = drop (n - 64) (drop 64 out @ t)" using h assms(2) by simp
  also have "\<dots> = drop n out @ t" using h assms(2,4) by simp
  finally show ?thesis using assms(3) by simp
qed

lemma covers_next:
  assumes "covers f (out @ x)" "64 \<le> length out"
  shows "\<exists>r. drop (length out) f = x @ r \<and> length f - length r = length (out @ x)"
proof -
  obtain r where r: "drop (length out) f = x @ r"
    using covers_at [OF assms(1), of "length out" x "[]"] assms(2) by auto
  moreover have "length f - length out = length (x @ r)" using arg_cong [OF r, of length] by simp
  moreover have "length (out @ x) \<le> length f" by (rule covers_length [OF assms(1)])
  ultimately show ?thesis by auto
qed

lemma read_block_at_next:
  assumes "covers f (out @ write_block b)" "64 \<le> length out" "block_wf alloc b"
  shows "read_block_at alloc f (length out) = Inr (b, length (out @ write_block b))"
proof -
  obtain r where r: "drop (length out) f = write_block b @ r" "length f - length r = length (out @ write_block b)"
    using covers_next [OF assms(1,2)] by blast
  then show ?thesis
    by (simp add: read_block_at_def block_frame.get_put [OF assms(3)])
qed

section \<open>What a stored chunk is\<close>

definition read_ok :: "read_env \<Rightarrow> bool" where
  "read_ok env \<longleftrightarrow> block_mem (re_block env) \<and> (\<forall>n. re_alloc env n)"

text \<open>Every block got its memory, and the reader decodes VaptVupt as the writer's check did.\<close>

definition codecs_ok :: "write_env \<Rightarrow> zupt_options_t \<Rightarrow> read_env \<Rightarrow> bool" where
  "codecs_ok we opts env \<longleftrightarrow>
     (\<forall>k. codec_mem (we_codec we k) \<and> own_decoder (opt_codec_id opts) (we_codec we k) (re_vvz env))"

definition write_ok :: "write_env \<Rightarrow> zupt_options_t \<Rightarrow> read_env \<Rightarrow> bool" where
  "write_ok we opts env \<longleftrightarrow> (\<forall>k. length (we_nonce we k) = 16) \<and> codecs_ok we opts env \<and> lzh_mem (we_index we) \<and>
     active (opt_keyring opts) = opt_encrypt opts"

text \<open>The reader's flags belong to the writer's options.\<close>

definition flags_match :: "zupt_options_t \<Rightarrow> u32 \<Rightarrow> bool" where
  "flags_match opts gflags \<longleftrightarrow> gflags AND ZUPT_FLAG_DISK_IMAGE = 0 \<and>
     (gflags AND ZUPT_FLAG_DEDUP \<noteq> 0 \<longleftrightarrow> opt_dedup opts) \<and>
     (gflags AND ZUPT_FLAG_AUTH_DEDUP_REFS \<noteq> 0 \<longleftrightarrow> opt_dedup opts \<and> opt_encrypt opts)"

definition data_block :: "read_env \<Rightarrow> zupt_keyring_t \<Rightarrow> u64 \<Rightarrow> bytes \<Rightarrow> zupt_block_t \<Rightarrow> bool" where
  "data_block env kr sq x b \<longleftrightarrow> block_wf (re_alloc env) b \<and> block_type b = ZUPT_BLOCK_DATA \<and>
     uncompressed_size b = word_of_nat (length x) \<and> checksum b = zupt_xxh64 x 0 \<and>
     decompress_block (re_block env) (re_vvz env) b (Some kr) sq = Inr x"

lemma decompress_block_inactive:
  "\<not> active kr \<Longrightarrow> decompress_block al vvz b (Some kr) sq = decompress_block al vvz b (Some kr) sq'"
  by (simp add: decompress_block_def open_payload_def Let_def)

lemma data_block_inactive: "\<not> active kr \<Longrightarrow> data_block env kr sq x b = data_block env kr sq' x b"
  unfolding data_block_def using decompress_block_inactive by metis

text \<open>The position the writer seals a block for is the one the reader computes.\<close>

definition position_ok :: "zupt_options_t \<Rightarrow> u32 \<Rightarrow> nat \<Rightarrow> nat \<Rightarrow> u64 \<Rightarrow> bool" where
  "position_ok opts gflags fi bi sq \<longleftrightarrow>
     (opt_encrypt opts \<longrightarrow> archive_data_aad_seq gflags fi (word_of_nat bi) = sq) \<and>
     (opt_dedup opts \<longrightarrow> (gflags AND ZUPT_FLAG_AUTH_DEDUP_REFS \<noteq> 0 \<longleftrightarrow> opt_encrypt opts))"

lemma flags_match_position: "flags_match opts gflags \<Longrightarrow> position_ok opts gflags fi bi (logical_aad_seq fi (word_of_nat bi))"
  unfolding position_ok_def flags_match_def using archive_data_aad_seq_new by auto

lemma reader_position:
  assumes "position_ok opts gflags fi bi sq" "data_block env kr sq x b" "active kr = opt_encrypt opts"
  shows "data_block env kr (archive_data_aad_seq gflags fi (word_of_nat bi)) x b"
proof (cases "active kr")
  case True
  with assms show ?thesis by (simp add: position_ok_def)
next
  case False
  with assms(2) data_block_inactive show ?thesis by blast
qed

lemma written_block:
  assumes "\<And>al. block_mem al \<Longrightarrow> decode_payload al (re_vvz env) c p (length x) = Inr x" "length p \<le> length x"
    and "seal_payload m nonce (opt_encrypt opts) kr ZUPT_BLOCK_DATA c (length x) p (zupt_xxh64 x 0) sq = Some fp"
    and "length nonce = 16" "length x \<le> ZUPT_MAX_BLOCK_SZ" "read_ok env" "active kr = opt_encrypt opts"
  shows "data_block env kr sq x (frame_of ZUPT_BLOCK_DATA c (length x) (zupt_xxh64 x 0) fp)"
proof -
  have l: "length p \<le> ZUPT_MAX_BLOCK_SZ + 900" using assms(2,5) by simp
  have mem: "block_mem (re_block env)" "\<forall>n. re_alloc env n" using assms(6) by (simp_all add: read_ok_def)
  show ?thesis
    using frame_wf [OF assms(3,4) l assms(5) mem(2)]
      decompress_frame [OF assms(3,4) l assms(5) mem(1) assms(7) [symmetric] assms(1) [OF mem(1)]]
    by (simp add: data_block_def) (simp add: frame_of_def)
qed

text \<open>An encoding that the decoder undoes.\<close>

definition encodes :: "vvz_decoder \<Rightarrow> u16 \<times> bytes \<Rightarrow> bytes \<Rightarrow> bool" where
  "encodes vvz cp x \<longleftrightarrow> length (snd cp) \<le> length x \<and>
     (\<forall>al. block_mem al \<longrightarrow> decode_payload al vvz (fst cp) (snd cp) (length x) = Inr x)"

lemma compress_chunk_encodes:
  assumes "codec_mem ce" "length x \<le> ZUPT_MAX_BLOCK_SZ" "own_decoder codec ce vvz"
  shows "encodes vvz (compress_chunk ce codec level x) x"
proof -
  obtain c p where "compress_chunk ce codec level x = (c, p)" by fastforce
  with decode_compress_chunk [OF this assms(1) _ assms(2,3)] compress_chunk_length [OF this] show ?thesis
    by (simp add: encodes_def)
qed

section \<open>The writer's state\<close>

text \<open>A chunk that is in the file at an offset, sealed for a position.\<close>

definition stored_at :: "read_env \<Rightarrow> zupt_keyring_t \<Rightarrow> bytes \<Rightarrow> bytes \<Rightarrow> u64 \<Rightarrow> u64 \<Rightarrow> bool" where
  "stored_at env kr out x off sq \<longleftrightarrow> 64 \<le> unat off \<and> unat off < length out \<and>
     (\<exists>b r. drop (unat off) out = write_block b @ r \<and> data_block env kr sq x b)"

lemma stored_at_append: "stored_at env kr out x off sq \<Longrightarrow> stored_at env kr (out @ y) x off sq"
proof -
  assume s: "stored_at env kr out x off sq"
  then obtain b r where b: "drop (unat off) out = write_block b @ r" "data_block env kr sq x b"
    and off: "64 \<le> unat off" "unat off < length out"
    by (auto simp: stored_at_def)
  have "drop (unat off) (out @ y) = write_block b @ (r @ y)" using b(1) off(2) by simp
  with b(2) off show ?thesis unfolding stored_at_def by auto
qed

lemma stored_at_read:
  assumes "stored_at env kr out x off sq" "covers f out"
  shows "\<exists>b q. read_block_at (re_alloc env) f (unat off) = Inr (b, q) \<and> data_block env kr sq x b"
proof -
  from assms(1) obtain b r where b: "drop (unat off) out = write_block b @ r" "data_block env kr sq x b"
    and off: "64 \<le> unat off" "unat off < length out"
    by (auto simp: stored_at_def)
  obtain r' where "drop (unat off) f = write_block b @ r'"
    using covers_at [OF assms(2) off(1) b(1)] off(2) by auto
  moreover have "block_wf (re_alloc env) b" using b(2) by (simp add: data_block_def)
  ultimately have "read_block_at (re_alloc env) f (unat off) = Inr (b, length f - length r')"
    by (simp add: read_block_at_def block_frame.get_put)
  with b(2) show ?thesis by blast
qed

text \<open>Every entry of the index names a stored chunk among \<open>X\<close> with the entry's fingerprint, digest and size.\<close>

definition entry_stored ::
  "read_env \<Rightarrow> zupt_keyring_t \<Rightarrow> bytes set \<Rightarrow> bytes \<Rightarrow> (u64 \<times> bytes) \<times> (u64 \<times> u32 \<times> u64) \<Rightarrow> bool" where
  "entry_stored env kr X out e \<longleftrightarrow>
     (case e of ((fp, dg), (off, sz, sq)) \<Rightarrow>
        \<exists>x \<in> X. fp = zupt_xxh64 x 0 \<and> dg = dedup_digest x \<and> sz = word_of_nat (length x) \<and>
          length x \<le> ZUPT_MAX_BLOCK_SZ \<and> stored_at env kr out x off sq)"

definition dedup_ok ::
  "read_env \<Rightarrow> zupt_options_t \<Rightarrow> bytes set \<Rightarrow> bytes \<Rightarrow> zupt_dedup_ctx option \<Rightarrow> bool" where
  "dedup_ok env opts X out dedup \<longleftrightarrow>
     (case dedup of None \<Rightarrow> True
      | Some c \<Rightarrow> opt_dedup opts \<and>
          (\<exists>h. dedup_run h c \<and> (\<forall>e \<in> set h. entry_stored env (opt_keyring opts) X out e)))"

lemma entry_stored_append: "entry_stored env kr X out e \<Longrightarrow> entry_stored env kr X (out @ y) e"
  using stored_at_append unfolding entry_stored_def by (auto split: prod.splits)

lemma dedup_ok_append: "dedup_ok env opts X out d \<Longrightarrow> dedup_ok env opts X (out @ y) d"
  by (cases d) (auto simp: dedup_ok_def intro: entry_stored_append)

lemma dedup_ok_stats:
  assumes "dedup_ok env opts X out d"
  shows "dedup_ok env opts X out (map_option zupt_dedup_record_block d)"
    "dedup_ok env opts X out (map_option (\<lambda>c. zupt_dedup_record_hit c n) d)"
  using assms by (cases d; auto simp: dedup_ok_def intro: dedup_run.block dedup_run.hit)+

lemma dedup_ok_insert:
  assumes "dedup_ok env opts X out (Some c)" "zupt_dedup_insert_secure c (zupt_xxh64 x 0) (dedup_digest x) off (word_of_nat (length x)) sq = Some c'"
    "x \<in> X" "length x \<le> ZUPT_MAX_BLOCK_SZ" "stored_at env (opt_keyring opts) out x off sq"
  shows "dedup_ok env opts X out (Some c')"
proof -
  let ?e = "((zupt_xxh64 x 0, dedup_digest x), (off, word_of_nat (length x), sq))"
  from assms(1) obtain h where h: "opt_dedup opts" "dedup_run h c" "\<forall>e \<in> set h. entry_stored env (opt_keyring opts) X out e"
    by (auto simp: dedup_ok_def)
  have "dedup_run (h @ [?e]) c'" by (rule dedup_run.insert [OF h(2) assms(2)])
  moreover have "entry_stored env (opt_keyring opts) X out ?e"
    using assms(3-5) by (auto simp: entry_stored_def)
  ultimately have "dedup_run (h @ [?e]) c' \<and> (\<forall>e \<in> set (h @ [?e]). entry_stored env (opt_keyring opts) X out e)"
    using h(3) by simp
  then show ?thesis using h(1) unfolding dedup_ok_def option.case by blast
qed

text \<open>Among the chunks of the inputs, fingerprint, digest and size tell any two apart.\<close>

definition no_collision :: "zupt_options_t \<Rightarrow> bytes set \<Rightarrow> bool" where
  "no_collision opts X \<longleftrightarrow> (opt_dedup opts \<longrightarrow>
     (\<forall>x \<in> X. \<forall>y \<in> X. zupt_xxh64 x 0 = zupt_xxh64 y 0 \<and> dedup_digest x = dedup_digest y \<and>
       length x = length y \<longrightarrow> x = y))"

lemma find_duplicate_stored:
  assumes "dedup_ok env opts X out d" "find_duplicate d x = Some (off, sq)" "no_collision opts X" "x \<in> X"
    "length x \<le> ZUPT_MAX_BLOCK_SZ"
  shows "stored_at env (opt_keyring opts) out x off sq \<and> opt_dedup opts"
proof -
  from assms(2) obtain c where c: "d = Some c"
    "zupt_dedup_lookup_secure c (zupt_xxh64 x 0) (dedup_digest x) = Some (off, word_of_nat (length x), sq)"
    by (auto simp: find_duplicate_def split: option.splits if_splits)
  from assms(1) c(1) obtain h where h: "opt_dedup opts" "dedup_run h c"
    "\<forall>e \<in> set h. entry_stored env (opt_keyring opts) X out e"
    by (auto simp: dedup_ok_def)
  have "(\<lambda>k. zupt_dedup_lookup_secure c (fst k) (snd k)) = map_of h" using dedup_run_inv [OF h(2)] by blast
  from fun_cong [OF this, of "(zupt_xxh64 x 0, dedup_digest x)"] c(2)
  have "map_of h (zupt_xxh64 x 0, dedup_digest x) = Some (off, word_of_nat (length x), sq)" by simp
  then have "((zupt_xxh64 x 0, dedup_digest x), (off, word_of_nat (length x), sq)) \<in> set h" by (rule map_of_SomeD)
  with h(3) obtain y where y: "y \<in> X" "zupt_xxh64 x 0 = zupt_xxh64 y 0" "dedup_digest x = dedup_digest y"
    "(word_of_nat (length x) :: u32) = word_of_nat (length y)" "length y \<le> ZUPT_MAX_BLOCK_SZ"
    "stored_at env (opt_keyring opts) out y off sq"
    by (fastforce simp: entry_stored_def)
  have "unat (word_of_nat n :: u32) = n" if "n \<le> ZUPT_MAX_BLOCK_SZ" for n
    using that by (simp add: unat_of_nat ZUPT_MAX_BLOCK_SZ_def)
  with y(4,5) assms(5) have "length x = length y" by metis
  with assms(3,4) y h(1) have "x = y" unfolding no_collision_def by blast
  with y(6) h(1) show ?thesis by simp
qed

section \<open>One block\<close>

lemma ref_mem:
  "zupt_dedup_write_ref_secure m nonce off sz ck cur rseq kr = Some fr \<Longrightarrow>
     zupt_dedup_write_ref_secure True nonce off sz ck cur rseq kr = Some fr"
  by (cases m)
     (auto simp: zupt_dedup_write_ref_secure_def zupt_encrypt_buffer_def zupt_encrypt_buffer_aad_def Let_def
       split: option.splits if_splits)

lemma ref_is_block:
  assumes "zupt_dedup_write_ref_secure m nonce off sz ck cur rseq kr = Some fr"
  shows "\<exists>b. fr = write_block b \<and> block_type b = ZUPT_BLOCK_DEDUP_REF \<and> uncompressed_size b = ucast sz \<and> checksum b = ck"
proof -
  have "\<exists>flags p. fr = write_preface ZUPT_BLOCK_DEDUP_REF ZUPT_CODEC_STORE flags (ucast sz) (word_of_nat (length p)) ck @ p"
  proof (cases "\<exists>k. kr = Some k \<and> active k")
    case True
    with assms show ?thesis
      by (auto simp: zupt_dedup_write_ref_secure_def Let_def split: option.splits)
  next
    case False
    then have "fr = zupt_dedup_write_ref off sz ck"
      using assms by (cases kr) (simp_all add: write_ref_secure_plain)
    then show ?thesis
      by (intro exI [of _ 0] exI [of _ "zupt_le64_put off"]) (simp add: zupt_dedup_write_ref_def)
  qed
  then obtain flags p where "fr = write_preface ZUPT_BLOCK_DEDUP_REF ZUPT_CODEC_STORE flags (ucast sz) (word_of_nat (length p)) ck @ p"
    by blast
  then show ?thesis
    by (intro exI [of _ "\<lparr>block_type = ZUPT_BLOCK_DEDUP_REF, codec_id = ZUPT_CODEC_STORE, block_flags = flags,
       uncompressed_size = ucast sz, compressed_size = word_of_nat (length p), checksum = ck, payload = p\<rparr>"])
      (simp add: write_block_def)
qed

lemma write_block_eqD: "write_block b = write_block b' \<Longrightarrow> b = b'"
  using write_preface_inject
  by (cases b; cases b') (simp add: write_block_def)

text \<open>A reference is read back as a block of its own and as the offset and position it was given.\<close>

lemma ref_block_read:
  assumes "zupt_dedup_write_ref_secure m nonce off sz ck cur rseq (if active kr then Some kr else None) = Some fr"
    "unat sz \<le> ZUPT_MAX_BLOCK_SZ" "length nonce = 16" "\<forall>n. alloc n"
  shows "\<exists>b. fr = write_block b \<and> block_wf alloc b \<and> block_type b = ZUPT_BLOCK_DEDUP_REF \<and>
    uncompressed_size b = ucast sz \<and> checksum b = ck \<and>
    (if active kr then zupt_dedup_read_ref True b (Some kr) True cur = Inr (off, rseq)
     else zupt_dedup_read_ref True b (Some kr) False 0 = Inr (off, 0))"
proof -
  obtain b where b: "fr = write_block b" "block_type b = ZUPT_BLOCK_DEDUP_REF" "uncompressed_size b = ucast sz" "checksum b = ck"
    using ref_is_block [OF assms(1)] by blast
  have al: "alloc 8" "alloc 64" using assms(4) by simp_all
  have r: "\<exists>b'. read_block alloc (fr @ []) = Inr (b', []) \<and>
    (if active kr then zupt_dedup_read_ref True b' (Some kr) True cur = Inr (off, rseq)
     else zupt_dedup_read_ref True b' (Some kr) False 0 = Inr (off, 0))"
  proof (cases "active kr")
    case True
    with ref_mem [OF assms(1)] have "zupt_dedup_write_ref_secure True nonce off sz ck cur rseq (Some kr) = Some fr" by simp
    from ref_roundtrip_sealed [where alloc = alloc and r = "[]", OF assms(2) al(2) assms(3) True this] True
    show ?thesis by simp
  next
    case False
    then have "fr = zupt_dedup_write_ref off sz ck"
      using assms(1) by (simp add: write_ref_secure_plain)
    with False ref_roundtrip_plain [where alloc = alloc, OF assms(2) al(1), of off ck "[]" True "Some kr" 0] show ?thesis by simp
  qed
  then obtain b' where b': "read_block alloc (fr @ []) = Inr (b', [])"
    "if active kr then zupt_dedup_read_ref True b' (Some kr) True cur = Inr (off, rseq)
     else zupt_dedup_read_ref True b' (Some kr) False 0 = Inr (off, 0)" by blast
  from b'(1) have "block_wf alloc b'" "write_block b = write_block b'"
    by (simp_all add: read_block_iff b(1))
  with write_block_eqD [of b b'] b b'(2) show ?thesis by blast
qed


text \<open>Writing a data block stores the chunk, and the index keeps naming stored chunks.\<close>

lemma write_data_block_step:
  assumes "write_data_block we opts cp sq x st = Inr st'" "encodes (re_vvz env) cp x" "write_ok we opts env" "read_ok env"
    "dedup_ok env opts X (cw_out st) (cw_dedup st)" "x \<in> X" "length x \<le> ZUPT_MAX_BLOCK_SZ"
    "64 \<le> length (cw_out st)" "length (cw_out st) < 2 ^ 63"
  shows "\<exists>b csz. st' = cw_advance (write_block b) csz (st\<lparr>cw_dedup := cw_dedup st'\<rparr>) \<and>
    data_block env (opt_keyring opts) sq x b \<and>
    dedup_ok env opts X (cw_out st') (cw_dedup st')"
proof -
  let ?k = "cw_total st"
  obtain c p where cp: "cp = (c, p)" by fastforce
  from assms(1) cp obtain fp where
    fp: "seal_payload (we_mem we ?k) (we_nonce we ?k) (opt_encrypt opts) (opt_keyring opts) ZUPT_BLOCK_DATA c
      (length x) p (zupt_xxh64 x 0) sq = Some fp"
    by (auto simp: write_data_block_def Let_def split: option.splits)
  define b where "b = frame_of ZUPT_BLOCK_DATA c (length x) (zupt_xxh64 x 0) fp"
  define off where "off = (word_of_nat (length (cw_out st)) :: u64)"
  define d where "d = (case cw_dedup st of None \<Rightarrow> None
                | Some ctx \<Rightarrow>
                    (case zupt_dedup_insert_secure ctx (zupt_xxh64 x 0) (dedup_digest x) off
                            (word_of_nat (length x)) sq of
                       None \<Rightarrow> Some ctx | Some ctx \<Rightarrow> Some ctx))"
  have st': "st' = cw_advance (write_block b) (word_of_nat (length (snd fp))) (st\<lparr>cw_dedup := d\<rparr>)"
    using assms(1) cp fp unfolding b_def d_def off_def by (simp add: write_data_block_def Let_def frame_block_eq)
  have db: "data_block env (opt_keyring opts) sq x b"
    unfolding b_def using assms(2,3,4,7)
    by (intro written_block [OF _ _ fp]) (simp_all add: write_ok_def encodes_def cp)
  have out: "cw_out st' = cw_out st @ write_block b" by (simp add: st' cw_advance_def)
  have "unat off = length (cw_out st)" unfolding off_def using assms(9) by (intro unat_small) simp
  then have s: "stored_at env (opt_keyring opts) (cw_out st') x off sq"
    using db assms(8) unfolding out by (auto simp: stored_at_def write_block_def write_preface_def zupt_w8_def)
  have old: "dedup_ok env opts X (cw_out st') (cw_dedup st)"
    unfolding out by (rule dedup_ok_append [OF assms(5)])
  have "dedup_ok env opts X (cw_out st') d"
  proof (cases "cw_dedup st")
    case (Some ctx)
    show ?thesis
    proof (cases "zupt_dedup_insert_secure ctx (zupt_xxh64 x 0) (dedup_digest x) off (word_of_nat (length x)) sq")
      case None
      with Some old show ?thesis by (simp add: d_def)
    next
      case (Some ctx')
      with \<open>cw_dedup st = Some ctx\<close> dedup_ok_insert [OF _ Some assms(6,7) s] old show ?thesis by (simp add: d_def)
    qed
  qed (simp add: d_def dedup_ok_def)
  moreover have "cw_dedup st' = d" by (simp add: st' cw_advance_def)
  ultimately show ?thesis using st' db by blast
qed

text \<open>
  What extraction has to find at the position of a chunk: the frame that was appended yields it
  in every file that covers the output.
\<close>

definition yields :: "read_env \<Rightarrow> zupt_options_t \<Rightarrow> u32 \<Rightarrow> nat \<Rightarrow> nat \<Rightarrow> bytes \<Rightarrow> bytes \<Rightarrow> bytes \<Rightarrow> bool" where
  "yields env opts gflags fi bi out out' x \<longleftrightarrow>
     (\<forall>f. covers f out' \<longrightarrow>
       extract_block env f gflags (opt_keyring opts) None fi (word_of_nat bi) (length out) = Inr (x, length out'))"

lemma data_block_yields:
  assumes "data_block env (opt_keyring opts) sq x b" "position_ok opts gflags fi bi sq"
    "active (opt_keyring opts) = opt_encrypt opts" "64 \<le> length out"
  shows "yields env opts gflags fi bi out (out @ write_block b) x"
  unfolding yields_def
proof (intro allI impI)
  fix f assume c: "covers f (out @ write_block b)"
  have d: "data_block env (opt_keyring opts) (archive_data_aad_seq gflags fi (word_of_nat bi)) x b"
    by (rule reader_position [OF assms(2,1,3)])
  then have "read_block_at (re_alloc env) f (length out) = Inr (b, length (out @ write_block b))"
    by (intro read_block_at_next [OF c assms(4)]) (simp add: data_block_def)
  with d show "extract_block env f gflags (opt_keyring opts) None fi (word_of_nat bi) (length out) =
      Inr (x, length (out @ write_block b))"
    by (simp add: extract_block_def data_block_def)
qed

lemma ref_block_yields:
  assumes w: "zupt_dedup_write_ref_secure m nonce off (word_of_nat (length x)) (zupt_xxh64 x 0)
      sq rseq (if opt_encrypt opts then Some (opt_keyring opts) else None) = Some fr"
    and st: "stored_at env (opt_keyring opts) out x off rseq" and fl: "position_ok opts gflags fi bi sq"
    and act: "active (opt_keyring opts) = opt_encrypt opts" and out: "64 \<le> length out" and env: "read_ok env"
    and len: "length x \<le> ZUPT_MAX_BLOCK_SZ" and nonce: "length nonce = 16" and dd: "opt_dedup opts"
  shows "yields env opts gflags fi bi out (out @ fr) x"
  unfolding yields_def
proof (intro allI impI)
  fix f assume c: "covers f (out @ fr)"
  let ?kr = "opt_keyring opts"
  have u: "unat (word_of_nat (length x) :: u32) = length x"
    using len by (simp add: unat_of_nat ZUPT_MAX_BLOCK_SZ_def)
  then have sz: "unat (word_of_nat (length x) :: u32) \<le> ZUPT_MAX_BLOCK_SZ" using len by simp
  have uc: "(ucast (word_of_nat (length x) :: u32) :: u64) = word_of_nat (length x)"
  proof -
    have "unat (word_of_nat (length x) :: u64) = length x" using len by (intro unat_small) (simp add: ZUPT_MAX_BLOCK_SZ_def)
    then show ?thesis by (simp add: word_unat_eq_iff u)
  qed
  have al: "\<forall>n. re_alloc env n" and pl: "ba_plain (re_block env)" using env by (simp_all add: read_ok_def block_mem_def)
  obtain b where b: "fr = write_block b" "block_wf (re_alloc env) b" "block_type b = ZUPT_BLOCK_DEDUP_REF"
    "uncompressed_size b = word_of_nat (length x)" "checksum b = zupt_xxh64 x 0"
    and rd: "if active ?kr then zupt_dedup_read_ref True b (Some ?kr) True sq = Inr (off, rseq)
     else zupt_dedup_read_ref True b (Some ?kr) False 0 = Inr (off, 0)"
    using ref_block_read [where alloc = "re_alloc env", OF w [folded act] sz nonce al] unfolding uc by blast
  have rb: "read_block_at (re_alloc env) f (length out) = Inr (b, length (out @ fr))"
    using read_block_at_next [OF c [unfolded b(1)] out b(2)] b(1) by simp
  have cov: "covers f out" by (rule covers_append [OF c out])
  obtain b0 q where b0: "read_block_at (re_alloc env) f (unat off) = Inr (b0, q)" "data_block env ?kr rseq x b0"
    using stored_at_read [OF st cov] by blast
  have off: "unat off < length (out @ fr)" using st by (simp add: stored_at_def)
  have flag: "gflags AND ZUPT_FLAG_AUTH_DEDUP_REFS \<noteq> 0 \<longleftrightarrow> opt_encrypt opts"
    using fl dd by (simp add: position_ok_def)
  have "extract_ref env f gflags ?kr None fi (word_of_nat bi) b (length (out @ fr)) = Inr x"
  proof (cases "active ?kr")
    case True
    have "archive_data_aad_seq gflags fi (word_of_nat bi) = sq"
      using fl True act by (simp add: position_ok_def)
    then show ?thesis
      using True rd flag act pl off b0 b(4,5) by (simp add: extract_ref_def data_block_def)
  next
    case False
    have "data_block env ?kr 0 x b0" using b0(2) data_block_inactive [OF False] by blast
    then show ?thesis
      using False rd flag act pl off b0(1) b(4,5) by (simp add: extract_ref_def data_block_def)
  qed
  then show "extract_block env f gflags ?kr None fi (word_of_nat bi) (length out) = Inr (x, length (out @ fr))"
    by (simp add: extract_block_def rb b(3))
qed

text \<open>A step of a writer: what \<open>st'\<close> has of the chunk \<open>x\<close> that \<open>st\<close> had not.\<close>

definition chunk_written :: "read_env \<Rightarrow> zupt_options_t \<Rightarrow> u32 \<Rightarrow> nat \<Rightarrow> bytes set \<Rightarrow> bytes \<Rightarrow> cw_state \<Rightarrow> cw_state \<Rightarrow> bool" where
  "chunk_written env opts gflags fi X x st st' \<longleftrightarrow>
    (\<exists>y. cw_out st' = cw_out st @ y) \<and> cw_seq st' = cw_seq st + 1 \<and> cw_count st' = cw_count st + 1 \<and>
    cw_total st' = cw_total st + 1 \<and> cw_hash st' = zupt_xxh64 x (cw_hash st) \<and>
    dedup_ok env opts X (cw_out st') (cw_dedup st') \<and>
    yields env opts gflags fi (cw_seq st) (cw_out st) (cw_out st') x"

lemma write_block_or_ref_step:
  assumes "write_block_or_ref we opts cp sq x st = Inr st'" "write_ok we opts env" "read_ok env" "position_ok opts gflags fi (cw_seq st) sq"
    "dedup_ok env opts X (cw_out st) (cw_dedup st)" "no_collision opts X" "x \<in> X" "length x \<le> ZUPT_MAX_BLOCK_SZ"
    "64 \<le> length (cw_out st)" "length (cw_out st) < 2 ^ 63" "encodes (re_vvz env) cp x"
  shows "chunk_written env opts gflags fi X x st st'"
proof -
  define s1 where "s1 = st\<lparr>cw_hash := zupt_xxh64 x (cw_hash st), cw_dedup := map_option zupt_dedup_record_block (cw_dedup st)\<rparr>"
  have s1: "cw_out s1 = cw_out st" "cw_seq s1 = cw_seq st" "cw_count s1 = cw_count st" "cw_total s1 = cw_total st"
    "cw_hash s1 = zupt_xxh64 x (cw_hash st)" by (simp_all add: s1_def)
  have d1: "dedup_ok env opts X (cw_out s1) (cw_dedup s1)"
    unfolding s1_def using dedup_ok_stats(1) [OF assms(5)] by simp
  have act: "active (opt_keyring opts) = opt_encrypt opts" using assms(2) by (simp add: write_ok_def)
  show ?thesis
  proof (cases "find_duplicate (cw_dedup s1) x")
    case None
    then have w: "write_data_block we opts cp sq x s1 = Inr st'"
      using assms(1) by (simp add: write_block_or_ref_def s1_def Let_def)
    obtain b csz where b: "st' = cw_advance (write_block b) csz (s1\<lparr>cw_dedup := cw_dedup st'\<rparr>)"
      "data_block env (opt_keyring opts) sq x b"
      "dedup_ok env opts X (cw_out st') (cw_dedup st')"
      using write_data_block_step [OF w assms(11,2,3) d1 assms(7,8)] assms(9,10) s1(1) by auto
    have a: "cw_out st' = cw_out st @ write_block b \<and> cw_seq st' = cw_seq st + 1 \<and> cw_count st' = cw_count st + 1 \<and>
        cw_total st' = cw_total st + 1 \<and> cw_hash st' = zupt_xxh64 x (cw_hash st)"
      by (subst b(1), subst b(1), subst b(1), subst b(1), subst b(1)) (simp add: cw_advance_def s1)
    then have "yields env opts gflags fi (cw_seq st) (cw_out st) (cw_out st') x"
      using data_block_yields [OF b(2) assms(4) act assms(9)] by simp
    with a b(3) show ?thesis unfolding chunk_written_def by blast
  next
    case (Some r)
    obtain off rseq where r: "r = (off, rseq)" by fastforce
    from assms(1) Some obtain fr where fr: "zupt_dedup_write_ref_secure (we_mem we (cw_total st)) (we_nonce we (cw_total st))
        off (word_of_nat (length x)) (zupt_xxh64 x 0) sq rseq
        (if opt_encrypt opts then Some (opt_keyring opts) else None) = Some fr"
      and st': "st' = cw_advance fr (if opt_encrypt opts then 64 else 8)
                      (s1\<lparr>cw_dedup := map_option (\<lambda>c. zupt_dedup_record_hit c (word_of_nat (length x))) (cw_dedup s1)\<rparr>)"
      unfolding write_block_or_ref_def Let_def s1_def [symmetric] r by (auto simp: s1(2) split: option.splits)
    have sd: "stored_at env (opt_keyring opts) (cw_out st) x off rseq" "opt_dedup opts"
      using find_duplicate_stored [OF d1 Some [unfolded r] assms(6-8)] s1(1) by simp_all
    have "length (we_nonce we (cw_total st)) = 16" using assms(2) by (simp add: write_ok_def)
    from ref_block_yields [OF fr sd(1) assms(4) act assms(9,3,8) this sd(2)]
    have "yields env opts gflags fi (cw_seq st) (cw_out st) (cw_out st') x"
      by (simp add: st' cw_advance_def s1)
    moreover have "dedup_ok env opts X (cw_out st') (cw_dedup st')"
      using dedup_ok_append [OF dedup_ok_stats(2) [OF d1]] by (simp add: st' cw_advance_def)
    ultimately show ?thesis by (auto simp: st' cw_advance_def s1 chunk_written_def)
  qed
qed

lemma compress_block_step:
  assumes "compress_block we opts fi x st = Inr st'" "write_ok we opts env" "read_ok env" "flags_match opts gflags"
    "dedup_ok env opts X (cw_out st) (cw_dedup st)" "no_collision opts X" "x \<in> X" "length x \<le> ZUPT_MAX_BLOCK_SZ"
    "64 \<le> length (cw_out st)" "length (cw_out st) < 2 ^ 63"
  shows "chunk_written env opts gflags fi X x st st'"
  using assms(2,8) compress_chunk_encodes
  by (intro write_block_or_ref_step [OF assms(1) [unfolded compress_block_def] assms(2,3)
        flags_match_position [OF assms(4)] assms(5-10)]) (simp add: write_ok_def codecs_ok_def)

section \<open>Files\<close>

lemma write_verified_chunk_ok:
  assumes "a + length x \<le> n" "n < 2 ^ 64"
  shows "zupt_write_verified_chunk True x (word_of_nat n) (word_of_nat a, h) =
    Some (word_of_nat (a + length x), if x = [] then h else zupt_xxh64 x h)"
proof -
  have u: "unat (word_of_nat n :: u64) = n" "unat (word_of_nat a :: u64) = a" "unat (word_of_nat (length x) :: u64) = length x"
    using assms by (intro unat_small; simp)+
  have le: "(word_of_nat a :: u64) \<le> word_of_nat n" using assms u by (simp add: word_le_nat_alt)
  then have "unat (word_of_nat n - word_of_nat a :: u64) = n - a" using u by (simp add: unat_sub)
  then have "\<not> (word_of_nat (length x) :: u64) > word_of_nat n - word_of_nat a"
    using assms u by (simp add: word_less_nat_alt)
  with le show ?thesis by (auto simp: zupt_write_verified_chunk_def)
qed

text \<open>The chunks a file is cut into.\<close>

definition chunks_in :: "nat \<Rightarrow> bytes \<Rightarrow> bytes set \<Rightarrow> bool" where
  "chunks_in bs data X \<longleftrightarrow> (\<forall>k. k * bs < length data \<longrightarrow> take bs (drop (k * bs) data) \<in> X)"

lemma chunks_in_step:
  assumes "chunks_in bs data X" "data \<noteq> []"
  shows "take bs data \<in> X" "chunks_in bs (drop bs data) X"
proof -
  show "take bs data \<in> X" using assms unfolding chunks_in_def by (elim allE [of _ 0]) simp
  show "chunks_in bs (drop bs data) X"
    unfolding chunks_in_def
  proof (intro allI impI)
    fix k assume "k * bs < length (drop bs data)"
    then have "Suc k * bs < length data" by simp
    with assms(1) have "take bs (drop (Suc k * bs) data) \<in> X" unfolding chunks_in_def by blast
    then show "take bs (drop (k * bs) (drop bs data)) \<in> X" by (simp add: add.commute)
  qed
qed

text \<open>None of the blocks that extraction visits for a file is empty.\<close>

fun blocks_nonempty ::
  "read_env \<Rightarrow> bytes \<Rightarrow> u32 \<Rightarrow> zupt_keyring_t \<Rightarrow> zupt_legacy_disk_aad_map_t option \<Rightarrow> nat \<Rightarrow> nat \<Rightarrow> nat \<Rightarrow> nat \<Rightarrow> bool" where
  "blocks_nonempty env f gflags kr lmap fi 0 b pos \<longleftrightarrow> True"
| "blocks_nonempty env f gflags kr lmap fi (Suc n) b pos \<longleftrightarrow>
     (case extract_block env f gflags kr lmap fi (word_of_nat b) pos of
        Inl _ \<Rightarrow> True
      | Inr (dec, pos) \<Rightarrow> dec \<noteq> [] \<and> blocks_nonempty env f gflags kr lmap fi n (b + 1) pos)"

definition unpacks :: "read_env \<Rightarrow> zupt_options_t \<Rightarrow> u32 \<Rightarrow> nat \<Rightarrow> cw_state \<Rightarrow> cw_state \<Rightarrow> bytes \<Rightarrow> bool" where
  "unpacks env opts gflags fi st st' data \<longleftrightarrow>
     (\<forall>f a n content. covers f (cw_out st') \<and> a + length data \<le> n \<and> n < 2 ^ 64 \<longrightarrow>
       extract_blocks env (\<lambda>_. True) f gflags (opt_keyring opts) None (word_of_nat n) fi (cw_seq st' - cw_seq st) (cw_seq st)
         (length (cw_out st)) content (word_of_nat a, cw_hash st) =
       Some (content @ data, (word_of_nat (a + length data), cw_hash st'), length (cw_out st')) \<and>
       blocks_nonempty env f gflags (opt_keyring opts) None fi (cw_seq st' - cw_seq st) (cw_seq st) (length (cw_out st)))"

fun entries_nonempty ::
  "read_env \<Rightarrow> bytes \<Rightarrow> u32 \<Rightarrow> zupt_keyring_t \<Rightarrow> zupt_legacy_disk_aad_map_t option \<Rightarrow> nat \<Rightarrow>
     zupt_index_entry_t list \<Rightarrow> bool" where
  "entries_nonempty env f gflags kr lmap i [] \<longleftrightarrow> True"
| "entries_nonempty env f gflags kr lmap i (e # es) \<longleftrightarrow> unat (ix_first_block_offset e) < 2 ^ 63 \<and>
     blocks_nonempty env f gflags kr lmap i (unat (ix_block_count e)) 0 (unat (ix_first_block_offset e)) \<and>
     entries_nonempty env f gflags kr lmap (i + 1) es"

lemma write_block_or_ref_extends: "write_block_or_ref we opts cp sq x st = Inr st' \<Longrightarrow> \<exists>y. cw_out st' = cw_out st @ y"
  by (auto simp: write_block_or_ref_def write_data_block_def cw_advance_def Let_def split: option.splits prod.splits)

lemma compress_block_extends: "compress_block we opts fi x st = Inr st' \<Longrightarrow> \<exists>y. cw_out st' = cw_out st @ y"
  unfolding compress_block_def by (rule write_block_or_ref_extends)

lemma compress_chunks_extends: "compress_chunks we opts fi bs data st = Inr st' \<Longrightarrow> \<exists>y. cw_out st' = cw_out st @ y"
  unfolding compress_chunks_def by (rule write_chunks_extends [rotated]) (auto dest: compress_block_extends)

lemma unpacks_cons:
  assumes y: "yields env opts gflags fi (cw_seq st) (cw_out st) (cw_out s1) x"
    and u: "unpacks env opts gflags fi s1 st' data" and x: "x \<noteq> []"
    and s1: "cw_seq s1 = cw_seq st + 1" "cw_hash s1 = zupt_xxh64 x (cw_hash st)" "cw_seq s1 \<le> cw_seq st'"
    and out: "cw_out st' = cw_out s1 @ z" "64 \<le> length (cw_out s1)"
  shows "unpacks env opts gflags fi st st' (x @ data)"
  unfolding unpacks_def
proof (intro allI impI)
  fix f a n content
  assume h: "covers f (cw_out st') \<and> a + length (x @ data) \<le> n \<and> n < 2 ^ 64"
  have c1: "covers f (cw_out s1)" using h out covers_append by auto
  have e: "extract_block env f gflags (opt_keyring opts) None fi (word_of_nat (cw_seq st)) (length (cw_out st)) =
      Inr (x, length (cw_out s1))"
    using y c1 unfolding yields_def by blast
  have w: "zupt_write_verified_chunk True x (word_of_nat n) (word_of_nat a, cw_hash st) =
      Some (word_of_nat (a + length x), cw_hash s1)"
    using write_verified_chunk_ok [of a x n] h x s1(2) by simp
  have n: "cw_seq st' - cw_seq st = Suc (cw_seq st' - cw_seq s1)" using s1(1,3) by simp
  have "(a + length x) + length data \<le> n" using h by simp
  then have "extract_blocks env (\<lambda>_. True) f gflags (opt_keyring opts) None (word_of_nat n) fi (cw_seq st' - cw_seq s1) (cw_seq s1)
         (length (cw_out s1)) (content @ x) (word_of_nat (a + length x), cw_hash s1) =
       Some ((content @ x) @ data, (word_of_nat ((a + length x) + length data), cw_hash st'), length (cw_out st')) \<and>
     blocks_nonempty env f gflags (opt_keyring opts) None fi (cw_seq st' - cw_seq s1) (cw_seq s1) (length (cw_out s1))"
    using u h unfolding unpacks_def by blast
  then show "extract_blocks env (\<lambda>_. True) f gflags (opt_keyring opts) None (word_of_nat n) fi (cw_seq st' - cw_seq st) (cw_seq st)
         (length (cw_out st)) content (word_of_nat a, cw_hash st) =
       Some (content @ x @ data, (word_of_nat (a + length (x @ data)), cw_hash st'), length (cw_out st')) \<and>
     blocks_nonempty env f gflags (opt_keyring opts) None fi (cw_seq st' - cw_seq st) (cw_seq st) (length (cw_out st))"
    unfolding n extract_blocks.simps blocks_nonempty.simps e sum.case prod.case w option.case
    using s1(1) x by (simp add: add.assoc)
qed

lemma write_chunks_step:
  assumes blk: "\<And>x st st'. blk x st = Inr st' \<Longrightarrow> dedup_ok env opts X (cw_out st) (cw_dedup st) \<Longrightarrow> x \<in> X \<Longrightarrow>
      length x \<le> ZUPT_MAX_BLOCK_SZ \<Longrightarrow> 64 \<le> length (cw_out st) \<Longrightarrow> length (cw_out st) < 2 ^ 63 \<Longrightarrow>
      chunk_written env opts gflags fi X x st st'"
    and ext: "\<forall>x st st'. blk x st = Inr st' \<longrightarrow> (\<exists>y. cw_out st' = cw_out st @ y)"
    and bs: "0 < bs" "bs \<le> ZUPT_MAX_BLOCK_SZ"
    and len: "length (cw_out st') < 2 ^ 63"
  shows "write_chunks blk bs data st = Inr st' \<Longrightarrow> dedup_ok env opts X (cw_out st) (cw_dedup st) \<Longrightarrow>
    chunks_in bs data X \<Longrightarrow> 64 \<le> length (cw_out st) \<Longrightarrow>
    cw_seq st \<le> cw_seq st' \<and> cw_count st' = cw_count st + (cw_seq st' - cw_seq st) \<and>
    cw_total st \<le> cw_total st' \<and> (cw_seq st' - cw_seq st) * bs < length data + bs \<and>
    dedup_ok env opts X (cw_out st') (cw_dedup st') \<and> unpacks env opts gflags fi st st' data"
proof (induction "length data" arbitrary: data st rule: less_induct)
  case less
  show ?case
  proof (cases "data = []")
    case True
    with less.prems have "st' = st" by (simp add: write_chunks.simps)
    with True less.prems(2) bs(1) show ?thesis by (simp add: unpacks_def)
  next
    case False
    let ?x = "take bs data"
    obtain s1 where s1: "blk ?x st = Inr s1" "write_chunks blk bs (drop bs data) s1 = Inr st'"
      using less.prems(1) False bs(1) by (subst (asm) write_chunks.simps) (auto simp: rbind_Inr_iff)
    obtain z where z: "cw_out st' = cw_out s1 @ z" using write_chunks_extends [OF ext s1(2)] by blast
    obtain y0 where "cw_out s1 = cw_out st @ y0" using ext [rule_format, OF s1(1)] by blast
    then have l0: "length (cw_out st) < 2 ^ 63" and l1: "64 \<le> length (cw_out s1)" using len z less.prems(4) by simp_all
    have xl: "length ?x \<le> ZUPT_MAX_BLOCK_SZ" using bs(2) by simp
    from blk [OF s1(1) less.prems(2) chunks_in_step(1) [OF less.prems(3) False] xl less.prems(4) l0]
    have b: "cw_seq s1 = cw_seq st + 1" "cw_count s1 = cw_count st + 1" "cw_total s1 = cw_total st + 1"
      "cw_hash s1 = zupt_xxh64 ?x (cw_hash st)" "dedup_ok env opts X (cw_out s1) (cw_dedup s1)"
      "yields env opts gflags fi (cw_seq st) (cw_out st) (cw_out s1) ?x" unfolding chunk_written_def by blast+
    have lt: "length (drop bs data) < length data" using False bs(1) by simp
    from less.hyps [OF lt s1(2) b(5) chunks_in_step(2) [OF less.prems(3) False] l1]
    have IH: "cw_seq s1 \<le> cw_seq st'" "cw_count st' = cw_count s1 + (cw_seq st' - cw_seq s1)" "cw_total s1 \<le> cw_total st'"
      "(cw_seq st' - cw_seq s1) * bs < length (drop bs data) + bs" "dedup_ok env opts X (cw_out st') (cw_dedup st')" "unpacks env opts gflags fi s1 st' (drop bs data)" by blast+
    have "?x \<noteq> []" using False bs(1) by simp
    from unpacks_cons [OF b(6) IH(6) this b(1,4) IH(1) z l1]
    have u: "unpacks env opts gflags fi st st' data" by simp
    have n: "cw_seq st' - cw_seq st = Suc (cw_seq st' - cw_seq s1)" using b(1) IH(1) by simp
    have "(cw_seq st' - cw_seq st) * bs < length data + bs"
      using IH(4) False unfolding n by (cases "bs \<le> length data") auto
    with IH b u show ?thesis by simp
  qed
qed

lemma compress_chunks_step:
  assumes ok: "write_ok we opts env" "read_ok env" "flags_match opts gflags" "no_collision opts X" "0 < bs" "bs \<le> ZUPT_MAX_BLOCK_SZ"
    and "length (cw_out st') < 2 ^ 63"
    and "compress_chunks we opts fi bs data st = Inr st'" "dedup_ok env opts X (cw_out st) (cw_dedup st)"
    "chunks_in bs data X" "64 \<le> length (cw_out st)"
  shows "cw_seq st \<le> cw_seq st' \<and> cw_count st' = cw_count st + (cw_seq st' - cw_seq st) \<and>
    cw_total st \<le> cw_total st' \<and> (cw_seq st' - cw_seq st) * bs < length data + bs \<and>
    dedup_ok env opts X (cw_out st') (cw_dedup st') \<and> unpacks env opts gflags fi st st' data"
proof (rule write_chunks_step [OF _ _ assms(5-7) assms(8) [unfolded compress_chunks_def] assms(9-11)])
  show "chunk_written env opts gflags fi X x s s'"
    if "compress_block we opts fi x s = Inr s'" "dedup_ok env opts X (cw_out s) (cw_dedup s)" "x \<in> X"
      "length x \<le> ZUPT_MAX_BLOCK_SZ" "64 \<le> length (cw_out s)" "length (cw_out s) < 2 ^ 63" for x s s'
    using compress_block_step [OF that(1) ok(1-3) that(2) ok(4) that(3-6)] .
qed (auto dest: compress_block_extends)

text \<open>A file of the archive is extracted to its bytes.\<close>

lemma compress_file_step:
  assumes c: "compress_file we opts bs fi file st = Inr (st', e)"
    and ok: "write_ok we opts env" "read_ok env" "flags_match opts gflags" "no_collision opts X" "0 < bs" "bs \<le> ZUPT_MAX_BLOCK_SZ"
    and d: "dedup_ok env opts X (cw_out st) (cw_dedup st)" "chunks_in bs (in_content file) X" "64 \<le> length (cw_out st)"
    and len: "length (cw_out st') < 2 ^ 63" "length (in_content file) < 2 ^ 64"
    "length (in_content file) \<le> (2 ^ 32 - 1) * bs"
    and path: "zupt_path_is_safe (in_arc_path file)"
    and oe: "oe_create oe fi" "oe_write oe fi = (\<lambda>_. True)" "oe_publish oe fi"
  shows "(\<exists>y. cw_out st' = cw_out st @ y) \<and> cw_total st \<le> cw_total st' \<and> dedup_ok env opts X (cw_out st') (cw_dedup st') \<and>
    ix_path e = in_arc_path file \<and> ix_uncompressed_size e = word_of_nat (length (in_content file)) \<and>
    (\<forall>f pos. covers f (cw_out st') \<longrightarrow>
      fst (extract_entry env oe f gflags (opt_keyring opts) None fi e pos) = Some (in_content file) \<and>
      entries_nonempty env f gflags (opt_keyring opts) None fi [e])"
proof -
  define s0 where "s0 = st\<lparr>cw_seq := 0, cw_hash := 0, cw_comp := 0, cw_count := 0\<rparr>"
  have s0: "cw_out s0 = cw_out st" "cw_dedup s0 = cw_dedup st" "cw_seq s0 = 0" "cw_hash s0 = 0" "cw_count s0 = 0" "cw_total s0 = cw_total st"
    by (simp_all add: s0_def)
  from c have cc: "compress_chunks we opts fi bs (in_content file) s0 = Inr st'"
    and e: "e = \<lparr>ix_path = take (ZUPT_MAX_PATH - 1) (in_arc_path file),
                ix_uncompressed_size = word_of_nat (length (in_content file)),
                ix_compressed_size = cw_comp st', ix_modification_time = in_mtime file,
                ix_content_hash = cw_hash st', ix_first_block_offset = word_of_nat (length (cw_out st)),
                ix_block_count = word_of_nat (cw_count st'), ix_attributes = 420\<rparr>"
    by (auto simp: compress_file_def rbind_Inr_iff s0_def)
  from compress_chunks_step [OF ok len(1) cc] d s0
  have r: "cw_count st' = cw_seq st'" "cw_total st \<le> cw_total st'" "dedup_ok env opts X (cw_out st') (cw_dedup st')"
    "unpacks env opts gflags fi s0 st' (in_content file)" "cw_seq st' * bs < length (in_content file) + bs" by auto
  have ext: "\<exists>y. cw_out st' = cw_out st @ y" using compress_chunks_extends [OF cc] s0 by simp
  have "length (in_arc_path file) < 4096" using path by (simp add: zupt_path_is_safe_def split: if_splits)
  then have p: "ix_path e = in_arc_path file" by (simp add: e ZUPT_MAX_PATH_def)
  have off: "unat (word_of_nat (length (cw_out st)) :: u64) = length (cw_out st)" "length (cw_out st) < 2 ^ 63"
    using ext len(1) by (auto intro!: unat_small)
  have cnt: "unat (word_of_nat (cw_count st') :: u32) = cw_seq st'"
  proof -
    have "cw_seq st' * bs < (2 ^ 32 - 1) * bs + bs" using r(5) len(3) by linarith
    also have "\<dots> = 2 ^ 32 * bs" by simp
    finally have "cw_seq st' < 2 ^ 32" by (simp only: mult_less_cancel2)
    then show ?thesis using r(1) by (simp add: unat_of_nat)
  qed
  show ?thesis
  proof (intro conjI allI impI)
    fix f pos assume cov: "covers f (cw_out st')"
    have "extract_blocks env (\<lambda>_. True) f gflags (opt_keyring opts) None (word_of_nat (length (in_content file))) fi
        (cw_seq st') 0 (length (cw_out st)) [] (0, 0) =
       Some (in_content file, (word_of_nat (length (in_content file)), cw_hash st'), length (cw_out st')) \<and>
       blocks_nonempty env f gflags (opt_keyring opts) None fi (cw_seq st') 0 (length (cw_out st))"
      using r(4) [unfolded unpacks_def, rule_format, of f 0 "length (in_content file)" "[]"] cov len(2) s0 by simp
    then show "fst (extract_entry env oe f gflags (opt_keyring opts) None fi e pos) = Some (in_content file)"
      "entries_nonempty env f gflags (opt_keyring opts) None fi [e]"
      using path p oe off cnt by (simp_all add: extract_entry_def e fseeko_set_def Let_def)
  qed (use ext r p in \<open>simp_all add: e\<close>)
qed


lemma compress_file_extends: "compress_file we opts bs fi file st = Inr (st', e) \<Longrightarrow> \<exists>y. cw_out st' = cw_out st @ y"
  by (auto simp: compress_file_def rbind_Inr_iff dest!: compress_chunks_extends)

lemma compress_all_extends: "compress_all we opts bs fi files st = Inr (st', es) \<Longrightarrow> \<exists>y. cw_out st' = cw_out st @ y"
  by (induction files arbitrary: fi st es) (fastforce simp: rbind_Inr_iff dest: compress_file_extends)+

text \<open>The inputs: safe names, sizes within the format, chunks among \<open>X\<close>.\<close>

definition inputs_ok :: "nat \<Rightarrow> bytes set \<Rightarrow> input_file list \<Rightarrow> bool" where
  "inputs_ok bs X files \<longleftrightarrow> (\<forall>file \<in> set files. zupt_path_is_safe (in_arc_path file) \<and> chunks_in bs (in_content file) X \<and>
     length (in_content file) < 2 ^ 64 \<and> length (in_content file) \<le> (2 ^ 32 - 1) * bs)"

definition out_ok :: "out_env \<Rightarrow> bool" where
  "out_ok oe \<longleftrightarrow> (\<forall>i. oe_create oe i \<and> oe_write oe i = (\<lambda>_. True) \<and> oe_publish oe i)"

lemma compress_all_step:
  assumes ok: "write_ok we opts env" "read_ok env" "flags_match opts gflags" "no_collision opts X" "0 < bs" "bs \<le> ZUPT_MAX_BLOCK_SZ"
    and oe: "out_ok oe" and len: "length (cw_out st') < 2 ^ 63"
  shows "compress_all we opts bs fi files st = Inr (st', es) \<Longrightarrow> dedup_ok env opts X (cw_out st) (cw_dedup st) \<Longrightarrow>
    64 \<le> length (cw_out st) \<Longrightarrow> inputs_ok bs X files \<Longrightarrow>
    map ix_path es = map in_arc_path files \<and>
    map ix_uncompressed_size es = map (\<lambda>file. word_of_nat (length (in_content file))) files \<and>
    cw_total st \<le> cw_total st' \<and>
    (\<forall>f pos. covers f (cw_out st') \<longrightarrow>
      extract_entries env oe f gflags (opt_keyring opts) None fi es pos = map (\<lambda>file. Some (in_content file)) files \<and>
      entries_nonempty env f gflags (opt_keyring opts) None fi es)"
proof (induction files arbitrary: fi st es)
  case (Cons inp files)
  obtain s1 e es1 where c: "compress_file we opts bs fi inp st = Inr (s1, e)"
    "compress_all we opts bs (fi + 1) files s1 = Inr (st', es1)" "es = e # es1"
    using Cons.prems(1) by (auto simp: rbind_Inr_iff)
  obtain z where z: "cw_out st' = cw_out s1 @ z" using compress_all_extends [OF c(2)] by blast
  have l1: "length (cw_out s1) < 2 ^ 63" using len z by simp
  have io: "chunks_in bs (in_content inp) X" "length (in_content inp) < 2 ^ 64"
    "length (in_content inp) \<le> (2 ^ 32 - 1) * bs" "zupt_path_is_safe (in_arc_path inp)" "inputs_ok bs X files"
    using Cons.prems(4) by (simp_all add: inputs_ok_def)
  have o: "oe_create oe fi" "oe_write oe fi = (\<lambda>_. True)" "oe_publish oe fi" using oe by (simp_all add: out_ok_def)
  from compress_file_step [OF c(1) ok Cons.prems(2) io(1) Cons.prems(3) l1 io(2-4) o]
  have f: "\<exists>y. cw_out s1 = cw_out st @ y" "cw_total st \<le> cw_total s1" "dedup_ok env opts X (cw_out s1) (cw_dedup s1)"
    "ix_path e = in_arc_path inp" "ix_uncompressed_size e = word_of_nat (length (in_content inp))"
    and x: "\<And>f pos. covers f (cw_out s1) \<Longrightarrow> fst (extract_entry env oe f gflags (opt_keyring opts) None fi e pos) = Some (in_content inp)"
    and ne: "\<And>f. covers f (cw_out s1) \<Longrightarrow> entries_nonempty env f gflags (opt_keyring opts) None fi [e]"
    by blast+
  have l2: "64 \<le> length (cw_out s1)" using f(1) Cons.prems(3) by auto
  note IH = Cons.IH [OF c(2) f(3) l2 io(5)]
  have "extract_entries env oe f gflags (opt_keyring opts) None fi es pos = map (\<lambda>file. Some (in_content file)) (inp # files) \<and>
      entries_nonempty env f gflags (opt_keyring opts) None fi es"
    if cov: "covers f (cw_out st')" for f pos
  proof -
    have "covers f (cw_out s1)" using cov z l2 covers_append by auto
    note n1 = ne [OF this]
    from x [OF \<open>covers f (cw_out s1)\<close>, of pos] obtain p where
      p: "extract_entry env oe f gflags (opt_keyring opts) None fi e pos = (Some (in_content inp), p)"
      by (cases "extract_entry env oe f gflags (opt_keyring opts) None fi e pos") simp
    have "extract_entries env oe f gflags (opt_keyring opts) None (fi + 1) es1 p = map (\<lambda>file. Some (in_content file)) files \<and>
        entries_nonempty env f gflags (opt_keyring opts) None (fi + 1) es1"
      using IH cov by blast
    with p n1 show ?thesis by (simp add: c(3))
  qed
  with IH f show ?case by (simp add: c(3))
qed simp

end
