(* ===== verification/Archive.thy ===== *)
theory Archive
  imports Compress
begin

text \<open>
  Writer and reader together: every archive the single-threaded writer produces, plain or under a
  password, with or without deduplication and comment, opens and extracts to the inputs. The
  theory follows the finished file from front to back: header, encryption header, trailer,
  comment, index.
\<close>

section \<open>The shape of a finished archive\<close>

lemma buf_write_front: "length h = length (take (length h) out) \<Longrightarrow> buf_write out 0 h = h @ drop (length h) out"
  by (simp add: buf_write_def)

lemma write_archive_header_eq:
  "header_wf h \<Longrightarrow> 64 \<le> length out \<Longrightarrow> zupt_write_archive_header out h = zupt_serialize_archive_header h @ drop 64 out"
  by (simp add: zupt_write_archive_header_def buf_write_def length_serialize_header)

definition comment_frame :: "zupt_options_t \<Rightarrow> bytes \<Rightarrow> zupt_block_t \<Rightarrow> bool" where
  "comment_frame opts cm b \<longleftrightarrow> cm \<noteq> [] \<and> length cm \<le> ZUPT_MAX_COMMENT_LEN \<and>
     (\<exists>m nonce fp. length nonce = 16 \<and> b = frame_of ZUPT_BLOCK_COMMENT ZUPT_CODEC_STORE (length cm) (zupt_xxh64 cm 0) fp \<and>
       seal_payload m nonce (opt_encrypt opts) (opt_keyring opts) ZUPT_BLOCK_COMMENT ZUPT_CODEC_STORE (length cm) cm
         (zupt_xxh64 cm 0) ZUPT_COMMENT_AAD_SEQ = Some fp)"

lemma write_comment_block_cases:
  assumes "write_comment_block we hdr opts out tb = Inr (out', hdr', tb')" "\<forall>k. length (we_nonce we k) = 16"
  obtains "out' = out" "hdr' = hdr" "tb' = tb"
  | b cm where "opt_has_comment opts" "out' = out @ write_block b" "comment_frame opts cm b" "hdr' = hdr\<lparr>comment_offset := word_of_nat (length out)\<rparr>"
    "tb' = tb + 1"
proof (cases "\<not> opt_has_comment opts \<or> take ZUPT_MAX_COMMENT_LEN (takeWhile (\<lambda>c. c \<noteq> 0) (opt_comment opts)) = []")
  case True
  with assms(1) that(1) show ?thesis by (auto simp: write_comment_block_def Let_def)
next
  case False
  define cm where "cm = take ZUPT_MAX_COMMENT_LEN (takeWhile (\<lambda>c. c \<noteq> 0) (opt_comment opts))"
  from False assms(1) obtain fp where
    fp: "seal_payload (we_mem we tb) (we_nonce we tb) (opt_encrypt opts) (opt_keyring opts) ZUPT_BLOCK_COMMENT
      ZUPT_CODEC_STORE (length cm) cm (zupt_xxh64 cm 0) ZUPT_COMMENT_AAD_SEQ = Some fp"
    and o: "out' = out @ frame_block ZUPT_BLOCK_COMMENT ZUPT_CODEC_STORE (length cm) (zupt_xxh64 cm 0) fp"
      "hdr' = hdr\<lparr>comment_offset := word_of_nat (length out)\<rparr>" "tb' = tb + 1"
    unfolding write_comment_block_def Let_def cm_def [symmetric] by (auto split: option.splits)
  show ?thesis
  proof (rule that(2))
    show "comment_frame opts cm (frame_of ZUPT_BLOCK_COMMENT ZUPT_CODEC_STORE (length cm) (zupt_xxh64 cm 0) fp)"
      unfolding comment_frame_def
    proof (intro conjI exI)
      show "cm \<noteq> []" "length cm \<le> ZUPT_MAX_COMMENT_LEN" using False by (simp_all add: cm_def)
    qed (use assms(2) fp in \<open>blast+\<close>)
  qed (use False o in \<open>simp_all add: frame_block_eq\<close>)
qed

definition index_frame :: "zupt_options_t \<Rightarrow> zupt_index_entry_t list \<Rightarrow> zupt_block_t \<Rightarrow> bool" where
  "index_frame opts es b \<longleftrightarrow>
     (\<exists>m nonce fp al lvl c p. length nonce = 16 \<and> lzh_mem al \<and>
       b = frame_of ZUPT_BLOCK_INDEX c (length (write_index es)) (zupt_xxh64 (write_index es) 0) fp \<and>
       (c = ZUPT_CODEC_STORE \<and> p = write_index es \<or>
        c = ZUPT_CODEC_ZUPT_LZH \<and> p \<noteq> [] \<and> length p \<le> length (write_index es) \<and>
          p = zupt_lzh_compress al (write_index es) (zupt_lzh_bound (length (write_index es))) lvl) \<and>
       seal_payload m nonce (opt_encrypt opts) (opt_keyring opts) ZUPT_BLOCK_INDEX c (length (write_index es)) p
         (zupt_xxh64 (write_index es) 0) index_aad_seq = Some fp)"

lemma write_index_block_frame:
  assumes "write_index_block we opts es k = Inr ib" "\<forall>k. length (we_nonce we k) = 16" "lzh_mem (we_index we)"
  obtains b where "ib = write_block b" "index_frame opts es b"
proof -
  define s where "s = write_index es"
  define ic where "ic = zupt_lzh_compress (we_index we) s (zupt_lzh_bound (length s)) (opt_level opts)"
  define c where "c = (if length ic = 0 \<or> length ic \<ge> length s then ZUPT_CODEC_STORE else ZUPT_CODEC_ZUPT_LZH)"
  define p where "p = (if length ic = 0 \<or> length ic \<ge> length s then s else ic)"
  have cp: "(if length ic = 0 \<or> length ic \<ge> length s then (ZUPT_CODEC_STORE, s) else (ZUPT_CODEC_ZUPT_LZH, ic)) = (c, p)"
    by (simp add: c_def p_def)
  from assms(1) obtain fp where
    fp: "seal_payload (we_mem we k) (we_nonce we k) (opt_encrypt opts) (opt_keyring opts) ZUPT_BLOCK_INDEX c
      (length s) p (zupt_xxh64 s 0) index_aad_seq = Some fp"
    and ib: "ib = frame_block ZUPT_BLOCK_INDEX c (length s) (zupt_xxh64 s 0) fp"
    unfolding write_index_block_def Let_def s_def [symmetric] ic_def [symmetric] cp
    by (auto split: option.splits if_splits)
  have "index_frame opts es (frame_of ZUPT_BLOCK_INDEX c (length s) (zupt_xxh64 s 0) fp)"
    unfolding index_frame_def s_def [symmetric]
  proof (intro exI conjI)
    show "c = ZUPT_CODEC_STORE \<and> p = s \<or> c = ZUPT_CODEC_ZUPT_LZH \<and> p \<noteq> [] \<and> length p \<le> length s \<and>
        p = zupt_lzh_compress (we_index we) s (zupt_lzh_bound (length s)) (opt_level opts)"
      by (auto simp: c_def p_def ic_def [symmetric])
    show "seal_payload (we_mem we k) (we_nonce we k) (opt_encrypt opts) (opt_keyring opts) ZUPT_BLOCK_INDEX c
      (length s) p (zupt_xxh64 s 0) index_aad_seq = Some fp" by (rule fp)
  qed (use assms(2,3) in simp_all)
  with ib show ?thesis by (intro that) (simp_all add: frame_block_eq)
qed


section \<open>Reading the frames back\<close>

lemma read_comment_frame:
  assumes "comment_frame opts cm b" "drop (length out) f = write_block b @ r" "length out < 2 ^ 63" "0 < length out"
    and "read_ok env" "active (opt_keyring opts) = opt_encrypt opts" "opt_keyring ropts = opt_keyring opts"
  shows "\<exists>c. read_comment (re_block env) (re_vvz env) (re_alloc env) f pos (word_of_nat (length out)) ropts =
    Inr (ropts\<lparr>opt_comment := c, opt_has_comment := True\<rparr>)"
proof -
  obtain m nonce fp where b: "length nonce = 16"
    "b = frame_of ZUPT_BLOCK_COMMENT ZUPT_CODEC_STORE (length cm) (zupt_xxh64 cm 0) fp"
    "seal_payload m nonce (opt_encrypt opts) (opt_keyring opts) ZUPT_BLOCK_COMMENT ZUPT_CODEC_STORE (length cm) cm
         (zupt_xxh64 cm 0) ZUPT_COMMENT_AAD_SEQ = Some fp"
    and cm: "cm \<noteq> []" "length cm \<le> ZUPT_MAX_COMMENT_LEN"
    using assms(1) by (auto simp: comment_frame_def)
  have l: "length cm \<le> ZUPT_MAX_BLOCK_SZ + 900" "length cm \<le> ZUPT_MAX_BLOCK_SZ"
    using cm(2) by (simp_all add: ZUPT_MAX_COMMENT_LEN_def ZUPT_MAX_BLOCK_SZ_def)
  have mem: "block_mem (re_block env)" "\<forall>n. re_alloc env n" using assms(5) by (simp_all add: read_ok_def)
  have d: "decompress_block (re_block env) (re_vvz env) b (Some (opt_keyring opts)) ZUPT_COMMENT_AAD_SEQ = Inr cm"
    unfolding b(2) using assms(6) by (intro decompress_frame [OF b(3,1) l mem(1)]) (simp_all add: decode_payload_def)
  have wf: "block_wf (re_alloc env) b" unfolding b(2) by (rule frame_wf [OF b(3,1) l mem(2)])
  have off: "unat (word_of_nat (length out) :: u64) = length out" using assms(3) by (intro unat_small) simp
  have nz: "(word_of_nat (length out) :: u64) \<noteq> 0"
  proof
    assume "(word_of_nat (length out) :: u64) = 0"
    then show False using off assms(4) by simp
  qed
  have us: "unat (word_of_nat (length cm) :: u64) = length cm"
    using l(2) by (intro unat_small) (simp add: ZUPT_MAX_BLOCK_SZ_def)
  then have nz2: "(word_of_nat (length cm) :: u64) \<noteq> 0" using cm(1) by (metis length_0_conv unat_0)
  have "read_block_at (re_alloc env) f (length out) = Inr (b, length f - length r)"
    using assms(2) by (simp add: read_block_at_def block_frame.get_put [OF wf])
  then show ?thesis
    using nz off assms(3) d us nz2 cm(2) assms(7)
    by (auto simp: read_comment_def fseeko_set_def b(2) frame_of_def)
qed

lemma read_index_frame:
  assumes "index_frame opts es b" "drop (length out) f = write_block b @ r" "length out < 2 ^ 63" "length out \<le> length f"
    and "read_ok env" "active (opt_keyring opts) = opt_encrypt opts"
    and "length (write_index es) \<le> ZUPT_MAX_BLOCK_SZ" "\<not> legacy_disk_index gflags"
  shows "\<exists>q. read_index (re_block env) (re_vvz env) (re_alloc env) f pos gflags (word_of_nat (length out)) (opt_keyring opts) =
    rbind (parse_index (re_alloc env) (write_index es)) (\<lambda>es. Inr (es, q))"
proof -
  define s where "s = write_index es"
  obtain m nonce fp al lvl c p where b: "length nonce = 16" "lzh_mem al"
    "b = frame_of ZUPT_BLOCK_INDEX c (length s) (zupt_xxh64 s 0) fp"
    and p: "c = ZUPT_CODEC_STORE \<and> p = s \<or>
        c = ZUPT_CODEC_ZUPT_LZH \<and> p \<noteq> [] \<and> length p \<le> length s \<and> p = zupt_lzh_compress al s (zupt_lzh_bound (length s)) lvl"
    and sl: "seal_payload m nonce (opt_encrypt opts) (opt_keyring opts) ZUPT_BLOCK_INDEX c (length s) p
         (zupt_xxh64 s 0) index_aad_seq = Some fp"
    using assms(1) unfolding index_frame_def s_def [symmetric] by blast
  have ls: "length s \<le> ZUPT_MAX_BLOCK_SZ" using assms(7) by (simp add: s_def)
  have lp: "length p \<le> ZUPT_MAX_BLOCK_SZ + 900" using p ls by auto
  have mem: "block_mem (re_block env)" "\<forall>n. re_alloc env n" using assms(5) by (simp_all add: read_ok_def)
  have "decode_payload (re_block env) (re_vvz env) c p (length s) = Inr s"
    using p
  proof
    assume "c = ZUPT_CODEC_ZUPT_LZH \<and> p \<noteq> [] \<and> length p \<le> length s \<and> p = zupt_lzh_compress al s (zupt_lzh_bound (length s)) lvl"
    then have c: "c = ZUPT_CODEC_ZUPT_LZH" "p = zupt_lzh_compress al s (zupt_lzh_bound (length s)) lvl" and "p \<noteq> []" by blast+
    then have "zupt_lzh_decompress True True p (length s) = s"
      using lzh_chunk [of al s "length s" lvl] b(2) ls by simp
    then show ?thesis using c(1) ls mem(1) by (simp add: decode_payload_def block_mem_def)
  qed (simp add: decode_payload_def)
  from decompress_frame [OF sl b(1) lp ls mem(1) assms(6) [symmetric] this]
  have d: "decompress_block (re_block env) (re_vvz env) b (Some (opt_keyring opts)) index_aad_seq = Inr s"
    by (simp add: b(3))
  have wf: "block_wf (re_alloc env) b" unfolding b(3) by (rule frame_wf [OF sl b(1) lp ls mem(2)])
  have off: "unat (word_of_nat (length out) :: u64) = length out" using assms(3) by (intro unat_small) simp
  have rb: "read_block_at (re_alloc env) f (length out) = Inr (b, length f - length r)"
    using assms(2) by (simp add: read_block_at_def block_frame.get_put [OF wf])
  have k: "\<not> (gflags AND (ZUPT_FLAG_DISK_IMAGE OR ZUPT_FLAG_ENCRYPTED) = ZUPT_FLAG_DISK_IMAGE OR ZUPT_FLAG_ENCRYPTED \<and>
      gflags AND ZUPT_FLAG_DISK_CONTENT_HASH = 0)"
  proof
    assume "gflags AND (ZUPT_FLAG_DISK_IMAGE OR ZUPT_FLAG_ENCRYPTED) = ZUPT_FLAG_DISK_IMAGE OR ZUPT_FLAG_ENCRYPTED \<and>
      gflags AND ZUPT_FLAG_DISK_CONTENT_HASH = 0"
    then have "(gflags AND (ZUPT_FLAG_DISK_IMAGE OR ZUPT_FLAG_ENCRYPTED)) AND ZUPT_FLAG_DISK_IMAGE = ZUPT_FLAG_DISK_IMAGE"
      and "gflags AND ZUPT_FLAG_DISK_CONTENT_HASH = 0" by simp_all
    then have "legacy_disk_index gflags" unfolding legacy_disk_index_def by (auto simp: and.assoc)
    with assms(8) show False by blast
  qed
  have bt: "block_type b = ZUPT_BLOCK_INDEX" by (simp add: b(3) frame_of_def)
  have "fseeko_set pos (word_of_nat (length out)) = length out" using off assms(3) by (simp add: fseeko_set_def)
  then show ?thesis
    unfolding read_index_def Let_def if_not_P [OF k] using off assms(4,8) rb bt d by (simp add: s_def) blast
qed


section \<open>The encryption header of a password archive\<close>

definition password_mode :: "write_env \<Rightarrow> zupt_options_t \<Rightarrow> bool" where
  "password_mode we opts \<longleftrightarrow> enc_header_type (we_with_sdk we) opts = ZUPT_ENC_PBKDF2 \<and> opt_password opts \<noteq> [] \<and>
     length (we_salt we) = 32 \<and> length (we_kdf_nonce we) = 16"

lemma pbkdf2_header_fields:
  assumes "length slt = 32" "length nonce = 16"
  shows "length (pbkdf2_header slt nonce) = 53" "pbkdf2_header slt nonce ! 0 = ZUPT_ENC_PBKDF2"
    "take 32 (drop 1 (pbkdf2_header slt nonce)) = slt" "take 16 (drop 33 (pbkdf2_header slt nonce)) = nonce"
    "zupt_le32_get (drop 49 (pbkdf2_header slt nonce)) = ZUPT_KDF_ITERATIONS"
  using assms by (simp_all add: pbkdf2_header_def)

lemma password_header_frame:
  fixes we
  defines "p \<equiv> pbkdf2_header (we_salt we) (we_kdf_nonce we)"
  assumes "password_mode we opts" "read_ok env"
  shows "length p = 53" "block_wf (re_alloc env) (frame_of ZUPT_BLOCK_ENC_HEADER ZUPT_CODEC_STORE (length p) (zupt_xxh64 p 0) (0, p))"
proof -
  show l: "length p = 53" using pbkdf2_header_fields(1) assms(2) by (simp add: p_def password_mode_def)
  show "block_wf (re_alloc env) (frame_of ZUPT_BLOCK_ENC_HEADER ZUPT_CODEC_STORE (length p) (zupt_xxh64 p 0) (0, p))"
    using assms(3) l by (simp add: frame_of_def block_wf_def read_ok_def ZUPT_MAX_BLOCK_SZ_def)
qed

lemma read_enc_header_password:
  assumes "password_mode we opts" "opt_password ropts = opt_password opts" "read_ok env"
    and "global_flags hdr AND ZUPT_FLAG_ENCRYPTED \<noteq> 0" "encryption_header_off hdr = 64"
    and "drop 64 f = enc_header_frame (pbkdf2_header (we_salt we) (we_kdf_nonce we)) @ r"
  shows "\<exists>q. read_enc_header unwrap (re_alloc env) f pos hdr ropts =
    Inr (ropts\<lparr>opt_keyring := zupt_derive_keys (opt_keyring ropts) (opt_password opts) (we_salt we) (we_kdf_nonce we)
      ZUPT_KDF_ITERATIONS\<rparr>, q)"
proof -
  define p where "p = pbkdf2_header (we_salt we) (we_kdf_nonce we)"
  have pw: "opt_password opts \<noteq> []" "length (we_salt we) = 32" "length (we_kdf_nonce we) = 16"
    using assms(1) by (simp_all add: password_mode_def)
  note pf = pbkdf2_header_fields [OF pw(2,3), folded p_def]
  define b where "b = frame_of ZUPT_BLOCK_ENC_HEADER ZUPT_CODEC_STORE (length p) (zupt_xxh64 p 0) (0, p)"
  note wf = password_header_frame(2) [OF assms(1,3), folded p_def, folded b_def]
  have f: "drop 64 f = write_block b @ r"
    using assms(6) by (simp add: enc_header_frame_def frame_block_eq b_def p_def)
  then have rb: "read_block_at (re_alloc env) f 64 = Inr (b, length f - length r)"
    by (simp add: read_block_at_def block_frame.get_put [OF wf])
  have "write_block b \<noteq> []" by (simp add: write_block_def write_preface_def zupt_w8_def)
  then have lf: "64 \<le> length f" using f by (metis append_is_Nil_conv drop_all nle_le)
  have k: "pbkdf2_keys 1 ropts p = Inr (ropts\<lparr>opt_keyring := zupt_derive_keys (opt_keyring ropts) (opt_password opts)
      (we_salt we) (we_kdf_nonce we) ZUPT_KDF_ITERATIONS\<rparr>)"
    using pf pw(1) assms(2) by (simp add: pbkdf2_keys_def Let_def)
  then have "open_enc_header unwrap ropts p = Inr (ropts\<lparr>opt_keyring := zupt_derive_keys (opt_keyring ropts) (opt_password opts)
      (we_salt we) (we_kdf_nonce we) ZUPT_KDF_ITERATIONS\<rparr>)"
    using pf(2) by (simp add: open_enc_header_def Let_def)
  then show ?thesis
    using assms(4,5) lf rb pf(1)
    by (simp add: read_enc_header_def fseeko_set_def b_def frame_of_def)
qed

lemma write_enc_header_password:
  assumes "password_mode we opts" "length out = 64" "header_wf hdr"
  shows "write_enc_header we out hdr opts =
    Inr (zupt_serialize_archive_header (hdr\<lparr>encryption_header_off := 64\<rparr>) @ enc_header_frame (pbkdf2_header (we_salt we) (we_kdf_nonce we)),
      hdr\<lparr>encryption_header_off := 64\<rparr>,
      opts\<lparr>opt_keyring := zupt_derive_keys (opt_keyring opts) (opt_password opts) (we_salt we) (we_kdf_nonce we) ZUPT_KDF_ITERATIONS\<rparr>)"
proof -
  have "header_wf (hdr\<lparr>encryption_header_off := 64\<rparr>)" using assms(3) by (simp add: header_wf_def)
  from write_archive_header_eq [OF this, of "out @ enc_header_frame (pbkdf2_header (we_salt we) (we_kdf_nonce we))"] assms(1,2)
  show ?thesis by (simp add: write_enc_header_def password_mode_def Let_def)
qed

lemma derive_keys_preface:
  "(zupt_derive_keys kr pw slt nonce iters)\<lparr>use_preface_aad := True\<rparr> =
     zupt_derive_keys (kr\<lparr>use_preface_aad := True\<rparr>) pw slt nonce iters"
  by (simp add: zupt_derive_keys_eq)

section \<open>Finishing\<close>

lemma finish_archive_shape:
  assumes fin: "finish_archive solid we opts hdr st es = Inr f"
    and we: "\<forall>k. length (we_nonce we k) = 16" "lzh_mem (we_index we)"
    and hdr: "header_wf hdr" "comment_offset hdr = 0" "take 64 (cw_out st) = zupt_serialize_archive_header hdr"
    and out: "64 \<le> length (cw_out st)" "length (cw_out st) < 2 ^ 63"
  obtains hdr' cf b ft tb e where
    "f = zupt_serialize_archive_header hdr' @ drop 64 (cw_out st) @ cf @ write_block b @ zupt_serialize_footer ft @
       zupt_format_ait_write hdr' ft (if opt_encrypt opts then Some (opt_keyring opts) else None)"
    "index_frame opts es b" "ft = make_footer (length (cw_out st @ cf)) tb e" "header_wf hdr'"
    "tb = cw_total st + (if cf = [] then 0 else 1) + (if solid then 1 else 0)"
    "(cf = [] \<and> hdr' = hdr) \<or>
     (\<exists>cb cm. cf = write_block cb \<and> comment_frame opts cm cb \<and> hdr' = hdr\<lparr>comment_offset := word_of_nat (length (cw_out st))\<rparr>)"
proof -
  let ?n = "if solid then 1 else 0 :: nat"
  from fin obtain out1 hdr1 tb ib where
    c: "write_comment_block we hdr opts (cw_out st) (cw_total st) = Inr (out1, hdr1, tb)"
    and i: "write_index_block we opts es tb = Inr ib"
    and f: "f = (let out = (if opt_has_comment opts \<and> comment_offset hdr1 \<noteq> 0 then zupt_write_archive_header out1 hdr1 else out1);
                     ft = make_footer (length out) (tb + ?n) (if solid then 0 else length (out @ ib)) in
       (out @ ib) @ zupt_serialize_footer ft @
         zupt_format_ait_write hdr1 ft (if opt_encrypt opts then Some (opt_keyring opts) else None))"
    by (auto simp: finish_archive_def rbind_Inr_iff Let_def)
  obtain b where b: "ib = write_block b" "index_frame opts es b"
    by (rule write_index_block_frame [OF i we])
  have h: "cw_out st = zupt_serialize_archive_header hdr @ drop 64 (cw_out st)"
    using hdr(3) append_take_drop_id [of 64 "cw_out st"] by simp
  from c we(1) show ?thesis
  proof (rule write_comment_block_cases)
    assume o: "out1 = cw_out st" "hdr1 = hdr" "tb = cw_total st"
    define ft where "ft = make_footer (length (cw_out st @ [])) (tb + ?n) (if solid then 0 else length (cw_out st @ ib))"
    have "f = zupt_serialize_archive_header hdr @ drop 64 (cw_out st) @ [] @ write_block b @ zupt_serialize_footer ft @
       zupt_format_ait_write hdr ft (if opt_encrypt opts then Some (opt_keyring opts) else None)"
      using h by (simp add: f o hdr(2) b(1) ft_def Let_def)
    moreover have "tb + ?n = cw_total st + (if ([] :: bytes) = [] then 0 else 1) + ?n" by (simp add: o(3))
    ultimately show ?thesis using that b(2) ft_def hdr(1) by blast
  next
    fix cb cm
    assume o: "opt_has_comment opts" "out1 = cw_out st @ write_block cb" "comment_frame opts cm cb"
      "hdr1 = hdr\<lparr>comment_offset := word_of_nat (length (cw_out st))\<rparr>" "tb = cw_total st + 1"
    have "unat (word_of_nat (length (cw_out st)) :: u64) = length (cw_out st)"
      using out(2) by (intro unat_small) simp
    then have nz: "comment_offset hdr1 \<noteq> 0" using out(1) by (auto simp: o(4))
    have wf: "header_wf hdr1" using hdr(1) by (simp add: o(4) header_wf_def)
    define ft where "ft = make_footer (length (cw_out st @ write_block cb)) (tb + ?n) (if solid then 0 else length ((cw_out st @ write_block cb) @ ib))"
    have w: "zupt_write_archive_header out1 hdr1 = zupt_serialize_archive_header hdr1 @ drop 64 (cw_out st) @ write_block cb"
      using write_archive_header_eq [OF wf, of out1] out(1) by (simp add: o(2))
    have l: "length (zupt_write_archive_header out1 hdr1) = length out1"
      unfolding w using length_serialize_header [OF wf] out(1) by (simp add: o(2))
    have "f = zupt_serialize_archive_header hdr1 @ drop 64 (cw_out st) @ write_block cb @ write_block b @ zupt_serialize_footer ft @
       zupt_format_ait_write hdr1 ft (if opt_encrypt opts then Some (opt_keyring opts) else None)"
      using nz o(1) by (simp add: f l b(1) ft_def Let_def) (simp add: w, simp add: o(2) add.assoc)
    moreover have "write_block cb \<noteq> []" by (simp add: write_block_def write_preface_def zupt_w8_def)
    then have "tb + ?n = cw_total st + (if write_block cb = [] then 0 else 1) + ?n" by (simp add: o(5))
    ultimately show ?thesis using that b(2) ft_def wf o(3,4) by blast
  qed
qed

lemma make_footer_valid: "footer_valid (make_footer a b c)"
  by (simp add: make_footer_def footer_valid_def)

text \<open>The trailer depends on the keyring only through its MAC key.\<close>

lemma ait_write_keyring:
  "mac_key kr = mac_key kr' \<Longrightarrow> active kr = active kr' \<Longrightarrow>
     zupt_format_ait_write h ft (Some kr) = zupt_format_ait_write h ft (Some kr')"
  by (simp add: zupt_format_ait_write_def Let_def)

text \<open>Opening a finished file, given what its encryption header makes of the reader's options.\<close>

lemma open_finished_parse:
  assumes f: "f = zupt_serialize_archive_header hdr' @ drop 64 out @ cf @ write_block b @ zupt_serialize_footer ft @ ait"
    and ait: "ait = zupt_format_ait_write hdr' ft (if opt_encrypt opts then Some (opt_keyring opts) else None)"
    and ft: "ft = make_footer (length (out @ cf)) tb e" and b: "index_frame opts es b"
    and hdr: "header_wf hdr'" "hdr_magic hdr' = zupt_magic" "version_major hdr' = 1"
      "header_flags_consistent (global_flags hdr')" "\<not> legacy_disk_index (global_flags hdr')"
      "global_flags hdr' AND ZUPT_FLAG_ENCRYPTED \<noteq> 0 \<longleftrightarrow> opt_encrypt opts"
      "global_flags hdr' AND ZUPT_FLAG_AAD_PREFACE \<noteq> 0 \<longleftrightarrow> opt_encrypt opts"
    and comment: "(cf = [] \<and> comment_offset hdr' = 0) \<or>
      (\<exists>cb cm. cf = write_block cb \<and> comment_frame opts cm cb \<and> comment_offset hdr' = word_of_nat (length out))"
    and out: "64 \<le> length out" "length f < 2 ^ 63"
    and env: "read_ok env" and act: "active (opt_keyring opts) = opt_encrypt opts"
    and index: "length (write_index es) \<le> ZUPT_MAX_BLOCK_SZ"
    and enc: "read_enc_header unwrap (re_alloc env) f (length f) hdr' ropts = Inr (ropts\<lparr>opt_keyring := kr1\<rparr>, q)"
    and kr: "(if opt_encrypt opts then kr1\<lparr>use_preface_aad := True\<rparr> else kr1) = opt_keyring opts"
  shows "\<exists>o' pos. open_archive unwrap (re_block env) (re_vvz env) (re_alloc env) f ropts =
      rbind (parse_index (re_alloc env) (write_index es)) (\<lambda>es. Inr (o', hdr', ft, es, pos)) \<and>
    opt_keyring o' = opt_keyring opts \<and> opt_max_output_size o' = opt_max_output_size ropts"
proof -
  have lh: "length (zupt_serialize_archive_header hdr') = 64" by (rule length_serialize_header [OF hdr(1)])
  have la: "length ait = 32" by (simp add: ait)
  have rh: "read_header f = Inr (hdr', drop 64 out @ cf @ write_block b @ zupt_serialize_footer ft @ ait)"
    unfolding read_header_iff using hdr(1-3) f by simp
  have "f = (zupt_serialize_archive_header hdr' @ drop 64 out @ cf @ write_block b) @ zupt_serialize_footer ft @ ait"
    using f by simp
  then have lf: "locate_footer_v15 f = Inr (ft, Some ait)"
    unfolding locate_footer_ait_iff ft using la make_footer_valid by blast
  have lo: "length (out @ cf) < 2 ^ 63" "length (out @ cf) \<le> length f"
    using out arg_cong [OF f, of length] lh by simp_all
  have d1: "drop (length out) f = cf @ write_block b @ zupt_serialize_footer ft @ ait"
    using f lh out(1) by simp
  have d2: "drop (length (out @ cf)) f = write_block b @ zupt_serialize_footer ft @ ait"
    using f lh out(1) by simp
  define o1 where "o1 = ropts\<lparr>opt_keyring := kr1\<rparr>"
  define o2 where "o2 = (if global_flags hdr' AND ZUPT_FLAG_AAD_PREFACE \<noteq> 0
                 then o1\<lparr>opt_keyring := (opt_keyring o1)\<lparr>use_preface_aad := True\<rparr>\<rparr> else o1)"
  have k2: "opt_keyring o2 = opt_keyring opts" "opt_max_output_size o2 = opt_max_output_size ropts"
    using kr hdr(7) by (auto simp: o2_def o1_def)
  have v: "ait_verify hdr' ft ait
                (if global_flags hdr' AND ZUPT_FLAG_ENCRYPTED \<noteq> 0 then Some (opt_keyring o1) else None) = Inr ()"
  proof (cases "opt_encrypt opts")
    case True
    then have k: "opt_keyring opts = kr1\<lparr>use_preface_aad := True\<rparr>" using kr by simp
    have "zupt_format_ait_write hdr' ft (Some (opt_keyring opts)) = zupt_format_ait_write hdr' ft (Some kr1)"
      by (rule ait_write_keyring) (simp_all add: k)
    then show ?thesis using True hdr(6) using ait_verify_iff [OF la] by (simp add: o1_def ait)
  next
    case False
    then show ?thesis using hdr(6) ait_verify_iff [OF la] by (simp add: ait)
  qed
  have "\<exists>o3. read_comment (re_block env) (re_vvz env) (re_alloc env) f q (comment_offset hdr') o2 = Inr o3 \<and>
      opt_keyring o3 = opt_keyring opts \<and> opt_max_output_size o3 = opt_max_output_size ropts"
    using comment
  proof
    assume "cf = [] \<and> comment_offset hdr' = 0"
    then show ?thesis using k2 by (simp add: read_comment_def)
  next
    assume "\<exists>cb cm. cf = write_block cb \<and> comment_frame opts cm cb \<and> comment_offset hdr' = word_of_nat (length out)"
    then obtain cb cm where cb: "cf = write_block cb" "comment_frame opts cm cb" "comment_offset hdr' = word_of_nat (length out)"
      by blast
    have "length out < 2 ^ 63" "0 < length out" using lo(1) out(1) by auto
    from read_comment_frame [OF cb(2) d1 [unfolded cb(1)] this env act k2(1), of q]
    show ?thesis using cb(3) k2 by auto
  qed
  then obtain o3 where o3: "read_comment (re_block env) (re_vvz env) (re_alloc env) f q (comment_offset hdr') o2 = Inr o3"
    "opt_keyring o3 = opt_keyring opts" "opt_max_output_size o3 = opt_max_output_size ropts" by blast
  obtain pos where ri: "read_index (re_block env) (re_vvz env) (re_alloc env) f q (global_flags hdr')
      (word_of_nat (length (out @ cf))) (opt_keyring opts) =
      rbind (parse_index (re_alloc env) (write_index es)) (\<lambda>es. Inr (es, pos))"
    using read_index_frame [OF b d2 lo env act index hdr(5), of q] by blast
  have io: "index_offset ft = word_of_nat (length (out @ cf))" by (simp add: ft make_footer_def)
  have oc: "open_contents (re_block env) (re_vvz env) (re_alloc env) f hdr' ft (Some ait) o1 q =
      rbind (parse_index (re_alloc env) (write_index es)) (\<lambda>es. Inr (o3, es, pos))"
    unfolding open_contents_def option.case v rbind_simps Let_def o2_def [symmetric] o3(1) io o3(2) ri prod.case
    by (cases "parse_index (re_alloc env) (write_index es)") simp_all
  have "open_archive unwrap (re_block env) (re_vvz env) (re_alloc env) f ropts =
      rbind (parse_index (re_alloc env) (write_index es)) (\<lambda>es. Inr (o3, hdr', ft, es, pos))"
    using hdr(4) unfolding open_archive_def rh lf rbind_simps prod.case enc o1_def [symmetric] oc
    by (cases "parse_index (re_alloc env) (write_index es)") simp_all
  with o3(2,3) show ?thesis by blast
qed

lemma parse_written_index:
  assumes "read_ok env" "index_ok es" "zupt_validate_archive_destinations (re_alloc env) (map ix_path es) False = Inr ()"
  shows "parse_index (re_alloc env) (write_index es) = Inr es"
  using parse_index_iff [of "re_alloc env"] assms by (simp add: read_ok_def)

section \<open>From the inputs to the finished file\<close>

lemma length_encode_varint_bound: "unat v < 128 ^ Suc n \<Longrightarrow> length (zupt_encode_varint v) \<le> Suc n"
proof (induction n arbitrary: v)
  case 0
  then show ?case by (subst zupt_encode_varint.simps) (simp add: drop_bit_word_eq_0_iff Let_def)
next
  case (Suc n)
  have "unat (drop_bit 7 v) = unat v div 128" by (simp only: unat_drop_bit) (simp add: drop_bit_eq_div)
  moreover have "unat v div 128 < 128 ^ Suc n" using Suc.prems by (subst div_less_iff_less_mult) (simp_all add: mult.commute)
  ultimately have "length (zupt_encode_varint (drop_bit 7 v)) \<le> Suc n" by (intro Suc.IH) simp
  then show ?case by (subst zupt_encode_varint.simps) (simp add: Let_def)
qed

lemma length_encode_varint: "length (zupt_encode_varint v) \<le> 10"
proof -
  have "unat v < 2 ^ 64" using unat_lt2p [of v] by simp
  also have "\<dots> \<le> 128 ^ Suc 9" by simp
  finally show ?thesis using length_encode_varint_bound [of v 9] by simp
qed

lemma length_write_index_le: "length (write_index es) \<le> 10 + (\<Sum>p\<leftarrow>map ix_path es. length p + 64)"
proof -
  have h: "length (if ix_path e = [] then [] else write_index_entry e) \<le> length (ix_path e) + 64" for e
    using length_encode_varint [of "word_of_nat (length (ix_path e))"] length_encode_varint [of "ucast (ix_block_count e)"]
    by (simp add: write_index_entry_def index_fields)
  have "length (concat (map (\<lambda>e. if ix_path e = [] then [] else write_index_entry e) es)) \<le>
      (\<Sum>p\<leftarrow>map ix_path es. length p + 64)"
  proof (induction es)
    case (Cons a es)
    then show ?case using h [of a] by (auto intro: add_mono)
  qed simp
  then show ?thesis using length_encode_varint [of "word_of_nat (length es)"] by (simp add: write_index_def)
qed

lemma destinations_reader:
  assumes "zupt_validate_archive_destinations al ps True = Inr ()" "\<forall>n. al' n"
  shows "zupt_validate_archive_destinations al' ps False = Inr ()"
proof -
  have k: "destination_keys al True ps = Inr ks \<Longrightarrow> destination_keys al' False ps = Inr ks" for ps ks
    using assms(2) by (induction ps arbitrary: ks) (auto simp: rbind_Inr_iff split: if_splits)
  show ?thesis
  proof (cases "length ps < 2")
    case False
    with assms(1) obtain ks where ks: "destination_keys al True ps = Inr ks" "\<not> neighbours_collide (qsort_keys ks)"
      by (auto simp: zupt_validate_archive_destinations_def rbind_Inr_iff split: if_splits)
    with k [OF ks(1)] assms(2) show ?thesis by (simp add: zupt_validate_archive_destinations_def)
  qed (simp add: zupt_validate_archive_destinations_def)
qed

text \<open>The flags the writer sets.\<close>

lemma initial_flags:
  fixes we opts
  defines "g \<equiv> global_flags (initial_header we opts)"
  shows "flags_match opts g" "header_flags_consistent g" "g AND ZUPT_FLAG_DISK_IMAGE = 0" "g AND ZUPT_FLAG_SOLID = 0"
    "g AND ZUPT_FLAG_ENCRYPTED \<noteq> 0 \<longleftrightarrow> opt_encrypt opts" "g AND ZUPT_FLAG_AAD_PREFACE \<noteq> 0 \<longleftrightarrow> opt_encrypt opts"
  by (cases "opt_encrypt opts"; cases "opt_dedup opts";
      simp add: g_def initial_header_def flags_match_def header_flags_consistent_def Let_def)+

lemma initial_header_wf:
  assumes "length (we_random_id we) = 16"
  shows "header_wf (initial_header we opts)"
  using assms by (simp add: initial_header_def header_wf_def gen_uuid_def zupt_magic_def)

text \<open>
  The start of the file: header and, under encryption, the encryption header. The reader, on any
  file that has this start (but for the offset of the comment in the header), derives the
  writer's keyring.
\<close>

definition enc_phase :: "write_env \<Rightarrow> zupt_archive_header_t \<Rightarrow> zupt_options_t \<Rightarrow> (bytes \<times> zupt_archive_header_t \<times> zupt_options_t) result" where
  "enc_phase we hdr opts =
     (let out = zupt_serialize_archive_header hdr in
      if opt_encrypt opts then write_enc_header we out hdr opts else Inr (out, hdr, opts))"

lemma enc_phase_ok:
  assumes e: "enc_phase we h0 opts = Inr (out, hdr, o2)"
    and wf: "header_wf h0" and m: "hdr_magic h0 = zupt_magic" "version_major h0 = 1" "comment_offset h0 = 0"
    and enc_flag: "global_flags h0 AND ZUPT_FLAG_ENCRYPTED \<noteq> 0 \<longleftrightarrow> opt_encrypt opts"
    and pw: "opt_encrypt opts \<longrightarrow> password_mode we opts \<and> opt_password ropts = opt_password opts"
    and kr: "opt_keyring opts = (if opt_encrypt opts then zupt_keyring_init\<lparr>use_preface_aad := True\<rparr> else zupt_keyring_init)"
    "opt_keyring ropts = zupt_keyring_init"
  shows "header_wf hdr" "comment_offset hdr = 0" "global_flags hdr = global_flags h0"
    "hdr_magic hdr = zupt_magic" "version_major hdr = 1" "take 64 out = zupt_serialize_archive_header hdr" "64 \<le> length out"
    "o2 = opts\<lparr>opt_keyring := opt_keyring o2\<rparr>" "active (opt_keyring o2) = opt_encrypt opts"
    "read_ok env \<Longrightarrow> drop 64 f = drop 64 out @ r \<Longrightarrow> global_flags h = global_flags hdr \<Longrightarrow>
       encryption_header_off h = encryption_header_off hdr \<Longrightarrow>
       \<exists>kr1 q. read_enc_header unwrap (re_alloc env) f pos h ropts = Inr (ropts\<lparr>opt_keyring := kr1\<rparr>, q) \<and>
         (if opt_encrypt opts then kr1\<lparr>use_preface_aad := True\<rparr> else kr1) = opt_keyring o2"
    "read_ok env \<Longrightarrow> if opt_encrypt opts then \<exists>b. drop 64 out = write_block b \<and> block_wf (re_alloc env) b else drop 64 out = []"
proof -
  define enc where "enc = enc_header_frame (pbkdf2_header (we_salt we) (we_kdf_nonce we))"
  define hdr' where "hdr' = h0\<lparr>encryption_header_off := 64\<rparr>"
  have wf': "header_wf hdr'" using wf by (simp add: hdr'_def header_wf_def)
  have l: "length (zupt_serialize_archive_header h0) = 64" "length (zupt_serialize_archive_header hdr') = 64"
    using wf wf' by (simp_all add: length_serialize_header)
  define dk where "dk = (\<lambda>kr. zupt_derive_keys kr (opt_password opts) (we_salt we) (we_kdf_nonce we) ZUPT_KDF_ITERATIONS)"
  have c: "if opt_encrypt opts then out = zupt_serialize_archive_header hdr' @ enc \<and> hdr = hdr' \<and>
      o2 = opts\<lparr>opt_keyring := dk (opt_keyring opts)\<rparr>
    else out = zupt_serialize_archive_header h0 \<and> hdr = h0 \<and> o2 = opts"
    using e pw write_enc_header_password [of we opts, OF _ l(1) wf]
    by (auto simp: enc_phase_def Let_def enc_def hdr'_def dk_def)
  have dk: "active (dk k)" "(dk zupt_keyring_init)\<lparr>use_preface_aad := True\<rparr> = dk (zupt_keyring_init\<lparr>use_preface_aad := True\<rparr>)" for k
    by (simp_all add: dk_def zupt_derive_keys_eq)
  show "header_wf hdr" "comment_offset hdr = 0" "global_flags hdr = global_flags h0"
    "hdr_magic hdr = zupt_magic" "version_major hdr = 1" "take 64 out = zupt_serialize_archive_header hdr" "64 \<le> length out"
    using c wf wf' m l by (cases "opt_encrypt opts"; simp add: hdr'_def)+
  show "o2 = opts\<lparr>opt_keyring := opt_keyring o2\<rparr>" using c by (cases "opt_encrypt opts") simp_all
  show "active (opt_keyring o2) = opt_encrypt opts"
    using c kr(1) dk(1) by (cases "opt_encrypt opts") (simp_all add: zupt_keyring_init_def)
  show "if opt_encrypt opts then \<exists>b. drop 64 out = write_block b \<and> block_wf (re_alloc env) b else drop 64 out = []"
    if env: "read_ok env"
  proof (cases "opt_encrypt opts")
    case True
    then show ?thesis using c l password_header_frame(2) [OF _ env] pw by (auto simp: enc_def enc_header_frame_def frame_block_eq)
  qed (use c l in simp)
  show "\<exists>kr1 q. read_enc_header unwrap (re_alloc env) f pos h ropts = Inr (ropts\<lparr>opt_keyring := kr1\<rparr>, q) \<and>
         (if opt_encrypt opts then kr1\<lparr>use_preface_aad := True\<rparr> else kr1) = opt_keyring o2"
    if env: "read_ok env" and f: "drop 64 f = drop 64 out @ r" and h: "global_flags h = global_flags hdr"
      "encryption_header_off h = encryption_header_off hdr"
  proof (cases "opt_encrypt opts")
    case True
    have f': "drop 64 f = enc_header_frame (pbkdf2_header (we_salt we) (we_kdf_nonce we)) @ r"
      using f c True l by (simp add: enc_def)
    have g: "global_flags h AND ZUPT_FLAG_ENCRYPTED \<noteq> 0" "encryption_header_off h = 64"
      using h c True enc_flag by (simp_all add: hdr'_def)
    from read_enc_header_password [OF _ _ env g f', of opts ropts unwrap pos] pw [rule_format, OF True]
    obtain q where "read_enc_header unwrap (re_alloc env) f pos h ropts = Inr (ropts\<lparr>opt_keyring := dk zupt_keyring_init\<rparr>, q)"
      by (auto simp: kr(2) dk_def)
    moreover have "opt_keyring o2 = dk (zupt_keyring_init\<lparr>use_preface_aad := True\<rparr>)" using c True kr(1) by simp
    ultimately show ?thesis using True dk(2) by auto
  next
    case False
    then have "global_flags h AND ZUPT_FLAG_ENCRYPTED = 0" using h c enc_flag by simp
    then have "read_enc_header unwrap (re_alloc env) f pos h ropts = Inr (ropts\<lparr>opt_keyring := zupt_keyring_init\<rparr>, pos)"
      by (simp add: read_enc_header_def flip: kr(2))
    then show ?thesis using c False kr(1) by auto
  qed
qed

lemma finish_hdr_len: "length f < 2 ^ 63 \<Longrightarrow> f = a @ drop 64 out @ r \<Longrightarrow> length a = 64 \<Longrightarrow> 64 \<le> length out \<Longrightarrow>
   covers f out \<and> length out < 2 ^ 63"
proof -
  assume a: "length f < 2 ^ 63" "f = a @ drop 64 out @ r" "length a = 64" "64 \<le> length out"
  then have c: "covers f out" unfolding covers_def by blast
  with covers_length [OF c] a(1) show "covers f out \<and> length out < 2 ^ 63" by simp
qed

lemma output_quota_unlimited:
  "unat t + (\<Sum>e\<leftarrow>es. unat (ix_uncompressed_size e)) < 2 ^ 64 \<Longrightarrow> output_quota 0 es t"
proof (induction es arbitrary: t)
  case (Cons e es)
  let ?s = "ix_uncompressed_size e"
  have s: "unat t + unat ?s < 2 ^ 64" using Cons.prems by simp
  then have u: "unat (t + ?s) = unat t + unat ?s" by (simp add: unat_word_ariths)
  have m: "unat (0xFFFFFFFFFFFFFFFF - t) = 2 ^ 64 - 1 - unat t"
    using unat_sub [of t "0xFFFFFFFFFFFFFFFF"] unat_lt2p [of t] by (simp add: word_le_nat_alt)
  have "\<not> ?s > 0xFFFFFFFFFFFFFFFF - t" using s unfolding word_less_nat_alt m by simp
  moreover have "output_quota 0 es (t + ?s)" using Cons.prems u by (intro Cons.IH) simp
  ultimately show ?case by simp
qed simp

lemma inputs_index_ok:
  assumes "map ix_path es = map in_arc_path files"
    and "\<forall>file \<in> set files. zupt_path_is_safe (in_arc_path file) \<and> 0 \<notin> set (in_arc_path file)"
    "length files \<le> ZUPT_MAX_INDEX_ALLOC_BYTES div index_entry_sizeof"
  shows "index_ok es"
proof -
  have "index_entry_ok e" if e: "e \<in> set es" for e
  proof -
    from e assms(1) have "ix_path e \<in> in_arc_path ` set files" by (metis image_eqI list.set_map)
    then obtain inp where inp: "inp \<in> set files" "ix_path e = in_arc_path inp" by blast
    then have "zupt_path_is_safe (ix_path e)" "0 \<notin> set (ix_path e)" using assms(2) by auto
    then show ?thesis by (auto simp: index_entry_ok_def zupt_path_is_safe_def ZUPT_MAX_PATH_def split: if_splits)
  qed
  moreover have "length es = length files" using arg_cong [OF assms(1), of length] by simp
  ultimately show ?thesis using assms(3) by (simp add: index_ok_def list_all_iff)
qed

text \<open>What the options of the writer become.\<close>

lemma resolve_options_fields:
  "opt_encrypt (resolve_options we opts) = opt_encrypt opts" "opt_dedup (resolve_options we opts) = opt_dedup opts"
  "opt_password (resolve_options we opts) = opt_password opts"
  "opt_keyring (resolve_options we opts) = (if opt_encrypt opts then (opt_keyring opts)\<lparr>use_preface_aad := True\<rparr> else opt_keyring opts)"
  "password_mode we (resolve_options we opts) = password_mode we opts"
  "0 < unat (opt_block_size (resolve_options we opts))"
proof -
  have "0 < unat (opt_block_size (resolve_options we opts))"
  proof -
    have "opt_block_size (resolve_options we opts) \<noteq> 0"
      by (simp add: resolve_options_def Let_def auto_block_size_def auto_block_size_dedup_def)
    then show ?thesis by (simp add: unat_gt_0)
  qed
  then show "0 < unat (opt_block_size (resolve_options we opts))" .
qed (simp_all add: resolve_options_def Let_def password_mode_def enc_header_type_def)

lemma compress_files_Inr:
  assumes "zupt_compress_files we wopts files = Inr f"
  obtains out hdr o2 st es dd where
    "length files \<le> ZUPT_MAX_INDEX_ALLOC_BYTES div index_entry_sizeof"
    "zupt_validate_archive_destinations (we_alloc we) (map in_arc_path files) True = Inr ()"
    "enc_phase we (initial_header we (resolve_options we wopts)) (resolve_options we wopts) = Inr (out, hdr, o2)"
    "dd = (if opt_dedup o2 then zupt_dedup_init (fst (we_dedup we)) (snd (we_dedup we)) else None)"
    "compress_all we o2 (unat (opt_block_size (resolve_options we wopts))) 0 files
       \<lparr>cw_out = out, cw_dedup = dd, cw_seq = 0, cw_hash = 0, cw_comp = 0, cw_count = 0, cw_total = 0\<rparr> = Inr (st, es)"
    "finish_archive False we o2 hdr st es = Inr f"
proof -
  let ?o = "resolve_options we wopts"
  from assms have a: "length files \<le> ZUPT_MAX_INDEX_ALLOC_BYTES div index_entry_sizeof"
    "zupt_validate_archive_destinations (we_alloc we) (map in_arc_path files) True = Inr ()"
    by (auto simp: zupt_compress_files_def rbind_Inr_iff split: if_splits)
  from assms have "\<exists>p. enc_phase we (initial_header we ?o) ?o = Inr p"
    unfolding zupt_compress_files_def enc_phase_def Let_def rbind_Inr_iff by (auto simp: rbind_Inr_iff split: if_splits)
  then obtain out hdr o2 where p: "enc_phase we (initial_header we ?o) ?o = Inr (out, hdr, o2)" by auto
  define dd where "dd = (if opt_dedup o2 then zupt_dedup_init (fst (we_dedup we)) (snd (we_dedup we)) else None)"
  have "\<not> length files > ZUPT_MAX_INDEX_ALLOC_BYTES div index_entry_sizeof" using a(1) by simp
  from assms [unfolded zupt_compress_files_def Let_def a(2) rbind_simps if_not_P [OF this]
      p [unfolded enc_phase_def Let_def] prod.case dd_def [symmetric]]
  obtain st es where "compress_all we o2 (unat (opt_block_size ?o)) 0 files
       \<lparr>cw_out = out, cw_dedup = dd, cw_seq = 0, cw_hash = 0, cw_comp = 0, cw_count = 0, cw_total = 0\<rparr> = Inr (st, es)"
    "finish_archive False we o2 hdr st es = Inr f"
    by (auto simp: rbind_Inr_iff split: if_splits)
  with that [OF a p dd_def] show ?thesis .
qed

lemma write_comment_block_length:
  "write_comment_block we hdr opts out tb = Inr (out', hdr', tb') \<Longrightarrow> header_wf hdr \<Longrightarrow>
     length out \<le> length out' \<and> header_wf hdr'"
  by (auto simp: write_comment_block_def Let_def header_wf_def split: if_splits option.splits)

lemma finish_archive_length:
  assumes "finish_archive solid we opts hdr st es = Inr f" "header_wf hdr" "64 \<le> length (cw_out st)"
  shows "length (cw_out st) \<le> length f"
proof -
  from assms(1) obtain out hdr' tb ib where
    c: "write_comment_block we hdr opts (cw_out st) (cw_total st) = Inr (out, hdr', tb)"
    and f: "length f \<ge> length (if opt_has_comment opts \<and> comment_offset hdr' \<noteq> 0 then zupt_write_archive_header out hdr' else out)"
    by (fastforce simp: finish_archive_def rbind_Inr_iff Let_def)
  from write_comment_block_length [OF c assms(2)] assms(3)
  have "length (cw_out st) \<le> length out" "header_wf hdr'" by simp_all
  moreover from this have "length (zupt_write_archive_header out hdr') = length out"
    using assms(3) by (simp add: write_archive_header_eq length_serialize_header)
  ultimately show ?thesis using f by (auto split: if_splits)
qed

text \<open>
  What has to hold around a writer and a reader for the archive to come back: nonces and salts of
  their lengths, memory, one password, inputs within the limits of the format, and, with
  deduplication, chunks that fingerprint, digest and size tell apart. \<open>X\<close> holds the chunks. With
  the VaptVupt codec the reader decodes blocks as the writer's read-back check did (\<open>codecs_ok\<close>).
\<close>

definition archive_setting ::
  "write_env \<Rightarrow> zupt_options_t \<Rightarrow> input_file list \<Rightarrow> bytes set \<Rightarrow> read_env \<Rightarrow> out_env \<Rightarrow> zupt_options_t \<Rightarrow> bool" where
  "archive_setting we wopts files X env oe ropts \<longleftrightarrow>
     (\<forall>k. length (we_nonce we k) = 16) \<and> codecs_ok we (resolve_options we wopts) env \<and> lzh_mem (we_index we) \<and>
     length (we_random_id we) = 16 \<and> read_ok env \<and> out_ok oe \<and>
     unat (opt_block_size (resolve_options we wopts)) \<le> ZUPT_MAX_BLOCK_SZ \<and>
     opt_keyring wopts = zupt_keyring_init \<and> opt_keyring ropts = zupt_keyring_init \<and>
     (opt_encrypt wopts \<longrightarrow> password_mode we wopts \<and> opt_password ropts = opt_password wopts) \<and>
     opt_max_output_size ropts = 0 \<and>
     inputs_ok (unat (opt_block_size (resolve_options we wopts))) X files \<and> no_collision wopts X \<and>
     (\<forall>file \<in> set files. 0 \<notin> set (in_arc_path file)) \<and>
     (\<Sum>file\<leftarrow>files. length (in_content file)) < 2 ^ 55 \<and>
     10 + (\<Sum>file\<leftarrow>files. length (in_arc_path file) + 64) \<le> ZUPT_MAX_BLOCK_SZ"

lemma archive_extracts:
  assumes w: "zupt_compress_files we wopts files = Inr f" and len: "length f < 2 ^ 63"
    and s: "archive_setting we wopts files X env oe ropts"
  shows "\<exists>o' hdr ft es pos. open_archive unwrap (re_block env) (re_vvz env) (re_alloc env) f ropts = Inr (o', hdr, ft, es, pos) \<and>
    map ix_path es = map in_arc_path files \<and>
    (global_flags hdr AND ZUPT_FLAG_ENCRYPTED \<noteq> 0 \<longleftrightarrow> opt_encrypt wopts) \<and> global_flags hdr AND ZUPT_FLAG_DISK_IMAGE = 0 \<and>
    global_flags hdr AND ZUPT_FLAG_SOLID = 0 \<and>
    entries_nonempty env f (global_flags hdr) (opt_keyring o') None 0 es \<and>
    zupt_extract_archive unwrap env oe f ropts = Inr (es, map (\<lambda>file. Some (in_content file)) files)"
proof -
  let ?o = "resolve_options we wopts"
  let ?bs = "unat (opt_block_size ?o)"
  note set = s [unfolded archive_setting_def]
  obtain out hdr o2 st es dd where
    lim: "length files \<le> ZUPT_MAX_INDEX_ALLOC_BYTES div index_entry_sizeof"
    and val: "zupt_validate_archive_destinations (we_alloc we) (map in_arc_path files) True = Inr ()"
    and enc: "enc_phase we (initial_header we ?o) ?o = Inr (out, hdr, o2)"
    and dd: "dd = (if opt_dedup o2 then zupt_dedup_init (fst (we_dedup we)) (snd (we_dedup we)) else None)"
    and ca: "compress_all we o2 ?bs 0 files \<lparr>cw_out = out, cw_dedup = dd, cw_seq = 0, cw_hash = 0, cw_comp = 0, cw_count = 0, cw_total = 0\<rparr> =
         Inr (st, es)"
    and fin: "finish_archive False we o2 hdr st es = Inr f"
    by (rule compress_files_Inr [OF w])
  define s0 where "s0 = \<lparr>cw_out = out, cw_dedup = dd, cw_seq = 0, cw_hash = 0, cw_comp = 0, cw_count = 0, cw_total = 0\<rparr>"
  have id: "length (we_random_id we) = 16" and env: "read_ok env" and oe: "out_ok oe" using set by blast+
  have pw: "opt_encrypt ?o \<longrightarrow> password_mode we ?o \<and> opt_password ropts = opt_password ?o"
    using set by (simp add: resolve_options_fields)
  have kr: "opt_keyring ?o = (if opt_encrypt ?o then zupt_keyring_init\<lparr>use_preface_aad := True\<rparr> else zupt_keyring_init)"
    "opt_keyring ropts = zupt_keyring_init" using set by (simp_all add: resolve_options_fields)
  have h0: "header_wf (initial_header we ?o)" "hdr_magic (initial_header we ?o) = zupt_magic"
    "version_major (initial_header we ?o) = 1" "comment_offset (initial_header we ?o) = 0"
    using initial_header_wf [OF id] by (simp_all add: initial_header_def)
  note ep = enc_phase_ok [OF enc h0 initial_flags(5) pw kr]
  have o2: "opt_encrypt o2 = opt_encrypt wopts" "opt_dedup o2 = opt_dedup wopts" "opt_codec_id o2 = opt_codec_id ?o"
    using arg_cong [OF ep(8), of opt_encrypt] arg_cong [OF ep(8), of opt_dedup] arg_cong [OF ep(8), of opt_codec_id]
    by (simp_all add: resolve_options_fields)
  obtain z where z: "cw_out st = out @ z" using compress_all_extends [OF ca] by auto
  have lo: "64 \<le> length (cw_out st)" and tk: "take 64 (cw_out st) = zupt_serialize_archive_header hdr"
    using ep(6,7) by (simp_all add: z)
  have nonce: "\<forall>k. length (we_nonce we k) = 16" and li: "lzh_mem (we_index we)" using set by blast+
  obtain hdr' cf b ft tb e where
    f: "f = zupt_serialize_archive_header hdr' @ drop 64 (cw_out st) @ cf @ write_block b @ zupt_serialize_footer ft @
       zupt_format_ait_write hdr' ft (if opt_encrypt o2 then Some (opt_keyring o2) else None)"
    and ib: "index_frame o2 es b" and ft: "ft = make_footer (length (cw_out st @ cf)) tb e" and wf': "header_wf hdr'"
    and cm: "(cf = [] \<and> hdr' = hdr) \<or>
     (\<exists>cb cm. cf = write_block cb \<and> comment_frame o2 cm cb \<and> hdr' = hdr\<lparr>comment_offset := word_of_nat (length (cw_out st))\<rparr>)"
    by (rule finish_archive_shape [OF fin nonce li ep(1,2) tk lo]) (use len finish_archive_length [OF fin ep(1) lo] in \<open>auto\<close>)
  have cov: "covers f (cw_out st)" "length (cw_out st) < 2 ^ 63"
    using finish_hdr_len [OF len f length_serialize_header [OF wf'] lo] by blast+
  define g where "g = global_flags hdr'"
  have hg: "global_flags hdr' = global_flags (initial_header we ?o)" "encryption_header_off hdr' = encryption_header_off hdr"
    "hdr_magic hdr' = zupt_magic" "version_major hdr' = 1"
    using cm ep(3-5) by auto
  note gf = initial_flags [where we = we and opts = ?o, folded hg(1), folded g_def]
  have fm: "flags_match o2 g" using gf(1) o2 by (simp add: flags_match_def resolve_options_fields)
  have wo: "write_ok we o2 env"
    using set ep(9) o2 by (simp add: write_ok_def codecs_ok_def resolve_options_fields)
  have nc: "no_collision o2 X" using set o2(2) by (simp add: no_collision_def)
  have dok: "dedup_ok env o2 X (cw_out s0) (cw_dedup s0)"
    using dedup_run.start
    by (auto simp: s0_def dd dedup_ok_def zupt_dedup_init_def split: option.splits if_splits intro!: exI [of _ "[]"])
  have bs: "0 < ?bs" "?bs \<le> ZUPT_MAX_BLOCK_SZ" "inputs_ok ?bs X files" using set by (simp_all add: resolve_options_fields)
  have l0: "64 \<le> length (cw_out s0)" using ep(7) by (simp add: s0_def)
  from compress_all_step [OF wo env fm nc bs(1,2) oe cov(2) ca [folded s0_def] dok l0 bs(3)]
  have es: "map ix_path es = map in_arc_path files"
    "map ix_uncompressed_size es = map (\<lambda>file. word_of_nat (length (in_content file))) files"
    and ex: "\<And>pos. extract_entries env oe f g (opt_keyring o2) None 0 es pos = map (\<lambda>file. Some (in_content file)) files"
    and ne: "entries_nonempty env f g (opt_keyring o2) None 0 es"
    using cov(1) by blast+
  have "\<forall>file \<in> set files. 0 \<notin> set (in_arc_path file)" using s unfolding archive_setting_def by blast
  with bs(3) have "\<forall>file \<in> set files. zupt_path_is_safe (in_arc_path file) \<and> 0 \<notin> set (in_arc_path file)"
    by (simp add: inputs_ok_def)
  from inputs_index_ok [OF es(1) this lim] have io: "index_ok es" .
  have al: "\<forall>n. re_alloc env n" using env by (simp add: read_ok_def)
  have va: "zupt_validate_archive_destinations (re_alloc env) (map ix_path es) False = Inr ()"
    unfolding es(1) by (rule destinations_reader [OF val al])
  have wl: "length (write_index es) \<le> ZUPT_MAX_BLOCK_SZ"
    using length_write_index_le [of es] s unfolding es(1) archive_setting_def by (simp add: o_def)
  have d64: "drop 64 f = drop 64 (cw_out st) @ cf @ write_block b @ zupt_serialize_footer ft @
       zupt_format_ait_write hdr' ft (if opt_encrypt o2 then Some (opt_keyring o2) else None)"
    using length_serialize_header [OF wf'] by (subst f) simp
  have "drop 64 (cw_out st) = drop 64 out @ z" using ep(7) by (simp add: z)
  with d64 obtain r where "drop 64 f = drop 64 out @ r" by simp
  from ep(10) [where unwrap = unwrap and pos = "length f" and h = hdr', OF env this] hg(1,2) ep(3)
  obtain kr1 q where rd: "read_enc_header unwrap (re_alloc env) f (length f) hdr' ropts = Inr (ropts\<lparr>opt_keyring := kr1\<rparr>, q)"
    and kr1: "(if opt_encrypt o2 then kr1\<lparr>use_preface_aad := True\<rparr> else kr1) = opt_keyring o2"
    using o2(1) by (auto simp: resolve_options_fields)
  have cmt: "(cf = [] \<and> comment_offset hdr' = 0) \<or>
      (\<exists>cb cm. cf = write_block cb \<and> comment_frame o2 cm cb \<and> comment_offset hdr' = word_of_nat (length (cw_out st)))"
    using cm ep(2) by auto
  obtain o' pos where op: "open_archive unwrap (re_block env) (re_vvz env) (re_alloc env) f ropts = Inr (o', hdr', ft, es, pos)"
    and o': "opt_keyring o' = opt_keyring o2" "opt_max_output_size o' = opt_max_output_size ropts"
    using open_finished_parse [OF f refl ft ib wf' hg(3,4) _ _ _ _ cmt lo len env _ wl rd kr1] gf ep(9) o2(1)
      parse_written_index [OF env io va]
    by (auto simp: g_def resolve_options_fields legacy_disk_index_def)
  have "(\<Sum>e\<leftarrow>es. unat (ix_uncompressed_size e)) = sum_list (map unat (map ix_uncompressed_size es))"
    by (simp add: o_def)
  also have "\<dots> \<le> (\<Sum>file\<leftarrow>files. length (in_content file))"
    unfolding es(2) map_map o_def by (rule sum_list_mono) (simp add: unat_of_nat)
  finally have q: "output_quota 0 es 0"
    using s by (intro output_quota_unlimited) (simp add: archive_setting_def)
  have "zupt_extract_archive unwrap env oe f ropts = Inr (es, map (\<lambda>file. Some (in_content file)) files)"
    using op o' gf ex q s by (simp add: zupt_extract_archive_def archive_setting_def Let_def g_def)
  with op es(1) gf ne o'(1) show ?thesis by (auto simp: g_def resolve_options_fields)
qed

section \<open>Size and existence of the archive\<close>

lemma length_write_preface: "length (write_preface bt c fl us cs ck) \<le> 35"
  using length_encode_varint [of us] length_encode_varint [of cs]
  by (simp add: write_preface_def zupt_w8_def zupt_w16le_def zupt_w64le_def zupt_write_varint_def)

lemma length_framed: "length p \<le> n \<Longrightarrow> length (write_preface bt c fl us cs ck @ p) \<le> 35 + n"
  using length_write_preface by (simp add: add_mono)

lemma length_sealed_frame:
  assumes "seal_payload m nonce en kr bt c n p ck sq = Some fp" "length nonce = 16"
  shows "length (frame_block bt' c' n' ck' fp) \<le> 83 + length p"
proof -
  have "length (snd fp) \<le> 48 + length p" using seal_payload_length [OF assms] by simp
  from length_framed [OF this] show ?thesis unfolding frame_block_def by (simp del: length_append)
qed

lemma length_reference:
  assumes "zupt_dedup_write_ref_secure m nonce off sz ck cur rseq kr = Some fr" "length nonce = 16"
  shows "length fr \<le> 99"
proof -
  have l: "length e \<le> 64" if "zupt_encrypt_buffer_aad m k nonce (zupt_le64_put off @ zupt_le64_put rseq) sq aad = Some e" for k sq aad e
    using length_package [OF that assms(2)] by simp
  have "length (zupt_le64_put off) \<le> 64" by simp
  note length_framed [OF this] length_framed [OF l]
  then show ?thesis
    using assms(1)
    by (auto simp: zupt_dedup_write_ref_secure_def zupt_encrypt_buffer_def Let_def simp del: length_append split: option.splits if_splits)
qed

lemma write_block_or_ref_length:
  assumes "write_block_or_ref we opts cp sq x st = Inr st'" "\<forall>k. length (we_nonce we k) = 16" "length (snd cp) \<le> length x"
  shows "length (cw_out st') \<le> length (cw_out st) + 99 + length x"
proof -
  have w: "length (cw_out s2) \<le> length (cw_out s1) + 83 + length x" if "write_data_block we opts cp sq x s1 = Inr s2" for s1 s2
  proof -
    obtain c p where cp: "cp = (c, p)" by fastforce
    with that obtain fp where sl: "seal_payload (we_mem we (cw_total s1)) (we_nonce we (cw_total s1)) (opt_encrypt opts)
        (opt_keyring opts) ZUPT_BLOCK_DATA c (length x) p (zupt_xxh64 x 0) sq = Some fp"
      and s2: "cw_out s2 = cw_out s1 @ frame_block ZUPT_BLOCK_DATA c (length x) (zupt_xxh64 x 0) fp"
      by (auto simp: write_data_block_def Let_def cw_advance_def split: option.splits)
    have "length (frame_block ZUPT_BLOCK_DATA c (length x) (zupt_xxh64 x 0) fp) \<le> 83 + length p"
      using length_sealed_frame [OF sl] assms(2) by blast
    moreover have "length p \<le> length x" using assms(3) by (simp add: cp)
    ultimately show ?thesis unfolding s2 length_append by linarith
  qed
  define s1 where "s1 = st\<lparr>cw_hash := zupt_xxh64 x (cw_hash st), cw_dedup := map_option zupt_dedup_record_block (cw_dedup st)\<rparr>"
  have o: "cw_out s1 = cw_out st" by (simp add: s1_def)
  show ?thesis
  proof (cases "find_duplicate (cw_dedup s1) x")
    case None
    with assms(1) have "write_data_block we opts cp sq x s1 = Inr st'" by (simp add: write_block_or_ref_def s1_def Let_def)
    from w [OF this] o show ?thesis by simp
  next
    case (Some r)
    with assms(1) obtain a b c d e fr where
      "zupt_dedup_write_ref_secure (we_mem we (cw_total st)) (we_nonce we (cw_total st)) a b c d e
         (if opt_encrypt opts then Some (opt_keyring opts) else None) = Some fr" "cw_out st' = cw_out st @ fr"
      unfolding write_block_or_ref_def Let_def s1_def [symmetric]
      by (cases r) (auto simp: cw_advance_def o split: option.splits)
    with length_reference assms(2) show ?thesis by fastforce
  qed
qed

lemma compress_block_length:
  assumes "compress_block we opts fi x st = Inr st'" "\<forall>k. length (we_nonce we k) = 16"
  shows "length (cw_out st') \<le> length (cw_out st) + 99 + length x"
  using compress_chunk_length [OF prod.collapse [symmetric]]
  by (intro write_block_or_ref_length [OF assms(1) [unfolded compress_block_def] assms(2)]) blast

lemma compress_chunks_length:
  "compress_chunks we opts fi bs data st = Inr st' \<Longrightarrow> \<forall>k. length (we_nonce we k) = 16 \<Longrightarrow>
     length (cw_out st') \<le> length (cw_out st) + 100 * length data"
  unfolding compress_chunks_def by (rule write_chunks_length [OF compress_block_length])

lemma compress_all_length:
  "compress_all we opts bs fi files st = Inr (st', es) \<Longrightarrow> \<forall>k. length (we_nonce we k) = 16 \<Longrightarrow>
     length (cw_out st') \<le> length (cw_out st) + 100 * (\<Sum>file\<leftarrow>files. length (in_content file))"
proof (induction files arbitrary: fi st es)
  case (Cons inp files)
  then obtain s1 es1 where "compress_chunks we opts fi bs (in_content inp)
      (st\<lparr>cw_seq := 0, cw_hash := 0, cw_comp := 0, cw_count := 0\<rparr>) = Inr s1"
    "compress_all we opts bs (fi + 1) files s1 = Inr (st', es1)"
    by (auto simp: compress_file_def rbind_Inr_iff)
  from compress_chunks_length [OF this(1) Cons.prems(2)] Cons.IH [OF this(2) Cons.prems(2)] show ?case by simp
qed simp

lemma write_comment_block_grows:
  assumes "write_comment_block we hdr opts out tb = Inr (out', hdr', tb')" "\<forall>k. length (we_nonce we k) = 16"
  shows "length out' \<le> length out + 4179"
  using assms(1)
proof (cases "\<not> opt_has_comment opts \<or> take ZUPT_MAX_COMMENT_LEN (takeWhile (\<lambda>c. c \<noteq> 0) (opt_comment opts)) = []")
  case False
  define cm where "cm = take ZUPT_MAX_COMMENT_LEN (takeWhile (\<lambda>c. c \<noteq> 0) (opt_comment opts))"
  have "length cm \<le> 4096" by (simp add: cm_def ZUPT_MAX_COMMENT_LEN_def)
  moreover obtain fp where sl: "seal_payload (we_mem we tb) (we_nonce we tb) (opt_encrypt opts) (opt_keyring opts) ZUPT_BLOCK_COMMENT
      ZUPT_CODEC_STORE (length cm) cm (zupt_xxh64 cm 0) ZUPT_COMMENT_AAD_SEQ = Some fp"
    and o: "out' = out @ frame_block ZUPT_BLOCK_COMMENT ZUPT_CODEC_STORE (length cm) (zupt_xxh64 cm 0) fp"
    using False assms(1) unfolding write_comment_block_def Let_def cm_def [symmetric] by (auto split: option.splits)
  moreover have "length (frame_block ZUPT_BLOCK_COMMENT ZUPT_CODEC_STORE (length cm) (zupt_xxh64 cm 0) fp) \<le> 83 + length cm"
    using length_sealed_frame [OF sl] assms(2) by blast
  ultimately show ?thesis by simp
qed (auto simp: write_comment_block_def Let_def)

lemma write_index_block_length:
  assumes "write_index_block we opts es k = Inr ib" "\<forall>k. length (we_nonce we k) = 16" "lzh_mem (we_index we)"
  shows "length ib \<le> 83 + length (write_index es)"
proof (rule write_index_block_frame [OF assms])
  fix b assume ib: "ib = write_block b" "index_frame opts es b"
  then obtain m nonce fp al lvl c p where b: "length nonce = 16"
    "c = ZUPT_CODEC_STORE \<and> p = write_index es \<or>
      c = ZUPT_CODEC_ZUPT_LZH \<and> p \<noteq> [] \<and> length p \<le> length (write_index es) \<and>
          p = zupt_lzh_compress al (write_index es) (zupt_lzh_bound (length (write_index es))) lvl"
    "b = frame_of ZUPT_BLOCK_INDEX c (length (write_index es)) (zupt_xxh64 (write_index es) 0) fp"
    and sl: "seal_payload m nonce (opt_encrypt opts) (opt_keyring opts) ZUPT_BLOCK_INDEX c (length (write_index es)) p
         (zupt_xxh64 (write_index es) 0) index_aad_seq = Some fp"
    unfolding index_frame_def by blast
  have "length p \<le> length (write_index es)" using b(2) by auto
  moreover have "ib = frame_block ZUPT_BLOCK_INDEX c (length (write_index es)) (zupt_xxh64 (write_index es) 0) fp"
    by (simp add: frame_block_eq ib(1) b(3))
  ultimately show ?thesis using length_sealed_frame [OF sl b(1)] by (metis add_left_mono order_trans)
qed

lemma finish_archive_grows:
  assumes fin: "finish_archive solid we opts hdr st es = Inr f" and we: "\<forall>k. length (we_nonce we k) = 16" "lzh_mem (we_index we)"
    and hdr: "header_wf hdr" "64 \<le> length (cw_out st)"
  shows "length f \<le> length (cw_out st) + length (write_index es) + 4326"
proof -
  from fin obtain out hdr' tb ib where
    c: "write_comment_block we hdr opts (cw_out st) (cw_total st) = Inr (out, hdr', tb)"
    and i: "write_index_block we opts es tb = Inr ib"
    and f: "length f = length (if opt_has_comment opts \<and> comment_offset hdr' \<noteq> 0 then zupt_write_archive_header out hdr' else out) +
       length ib + 64"
    by (fastforce simp: finish_archive_def rbind_Inr_iff Let_def make_footer_valid footer_valid_wf length_serialize_footer)
  from write_comment_block_length [OF c hdr(1)] hdr(2) have o: "64 \<le> length out" "header_wf hdr'" by simp_all
  then have "length (zupt_write_archive_header out hdr') = length out"
    by (simp add: write_archive_header_eq length_serialize_header)
  then show ?thesis
    using f write_comment_block_grows [OF c we(1)] write_index_block_length [OF i we] by (auto split: if_splits)
qed

lemma enc_phase_length:
  assumes e: "enc_phase we h0 opts = Inr (out, hdr, o2)" and wf: "header_wf h0"
    and pw: "opt_encrypt opts \<longrightarrow> password_mode we opts"
  shows "length out \<le> 152 \<and> 64 \<le> length out \<and> header_wf hdr"
proof -
  have wf': "header_wf (h0\<lparr>encryption_header_off := 64\<rparr>)" using wf by (simp add: header_wf_def)
  note l = length_serialize_header [OF wf] length_serialize_header [OF wf']
  show ?thesis
  proof (cases "opt_encrypt opts")
    case True
    with pw have p: "password_mode we opts" by blast
    then have "length (pbkdf2_header (we_salt we) (we_kdf_nonce we)) = 53"
      using pbkdf2_header_fields(1) by (simp add: password_mode_def)
    then have "length (enc_header_frame (pbkdf2_header (we_salt we) (we_kdf_nonce we))) \<le> 35 + 53"
      unfolding enc_header_frame_def frame_block_def snd_conv by (intro length_framed) simp
    with e l wf' True write_enc_header_password [OF p l(1) wf] show ?thesis by (auto simp: enc_phase_def Let_def)
  next
    case False
    with e l wf show ?thesis by (auto simp: enc_phase_def Let_def)
  qed
qed

lemma compress_all_paths:
  "compress_all we opts bs fi files st = Inr (st', es) \<Longrightarrow>
     map ix_path es = map (\<lambda>file. take (ZUPT_MAX_PATH - 1) (in_arc_path file)) files"
  by (induction files arbitrary: fi st es) (auto simp: rbind_Inr_iff compress_file_def)

text \<open>The size of an archive in terms of its inputs.\<close>

lemma archive_length:
  assumes w: "zupt_compress_files we wopts files = Inr f"
    and we: "\<forall>k. length (we_nonce we k) = 16" "lzh_mem (we_index we)" "length (we_random_id we) = 16"
    and pw: "opt_encrypt wopts \<longrightarrow> password_mode we wopts"
  shows "length f \<le> 100 * (\<Sum>file\<leftarrow>files. length (in_content file)) + (\<Sum>file\<leftarrow>files. length (in_arc_path file) + 64) + 5000"
proof -
  obtain out hdr o2 st es dd where
    enc: "enc_phase we (initial_header we (resolve_options we wopts)) (resolve_options we wopts) = Inr (out, hdr, o2)"
    and ca: "compress_all we o2 (unat (opt_block_size (resolve_options we wopts))) 0 files
       \<lparr>cw_out = out, cw_dedup = dd, cw_seq = 0, cw_hash = 0, cw_comp = 0, cw_count = 0, cw_total = 0\<rparr> = Inr (st, es)"
    and fin: "finish_archive False we o2 hdr st es = Inr f"
    by (rule compress_files_Inr [OF w])
  have pw': "opt_encrypt (resolve_options we wopts) \<longrightarrow> password_mode we (resolve_options we wopts)"
    using pw by (simp add: resolve_options_fields)
  note ep = enc_phase_length [OF enc initial_header_wf [OF we(3)] pw']
  obtain z where "cw_out st = out @ z" using compress_all_extends [OF ca] by auto
  with ep have o: "64 \<le> length (cw_out st)" by simp
  have "length (write_index es) \<le> 10 + (\<Sum>file\<leftarrow>files. length (take (ZUPT_MAX_PATH - 1) (in_arc_path file)) + 64)"
    using length_write_index_le [of es] unfolding compress_all_paths [OF ca] by (simp add: o_def)
  moreover have "(\<Sum>file\<leftarrow>files. length (take (ZUPT_MAX_PATH - 1) (in_arc_path file)) + 64) \<le>
      (\<Sum>file\<leftarrow>files. length (in_arc_path file) + 64)"
    by (rule sum_list_mono) simp
  ultimately show ?thesis
    using finish_archive_grows [OF fin we(1,2) _ o] compress_all_length [OF ca we(1)] ep by simp
qed

lemma archive_below_2_63:
  assumes "zupt_compress_files we wopts files = Inr f" "archive_setting we wopts files X env oe ropts"
  shows "length f < 2 ^ 63"
proof -
  have "(\<Sum>file\<leftarrow>files. length (in_arc_path file) + 64) \<le> ZUPT_MAX_BLOCK_SZ" "(\<Sum>file\<leftarrow>files. length (in_content file)) < 2 ^ 55"
    using assms(2) by (simp_all add: archive_setting_def)
  moreover have "length f \<le> 100 * (\<Sum>file\<leftarrow>files. length (in_content file)) + (\<Sum>file\<leftarrow>files. length (in_arc_path file) + 64) + 5000"
    using assms(2) by (intro archive_length [OF assms(1)]) (simp_all add: archive_setting_def)
  ultimately show ?thesis by (simp add: ZUPT_MAX_BLOCK_SZ_def)
qed

text \<open>The allocations of the writer succeed.\<close>

definition write_mem :: "write_env \<Rightarrow> bool" where
  "write_mem we \<longleftrightarrow> (\<forall>k. we_mem we k) \<and> (\<forall>n. we_alloc we n) \<and> we_dedup we = (True, True)"

lemma seal_payload_total: "\<exists>fp. seal_payload True nonce en kr bt c n p ck sq = Some fp"
  by (simp add: seal_payload_def zupt_encrypt_buffer_def zupt_encrypt_buffer_aad_eq Let_def)

lemma write_ref_total: "\<exists>fr. zupt_dedup_write_ref_secure True nonce off sz ck cur rseq kr = Some fr"
  by (cases kr) (simp_all add: zupt_dedup_write_ref_secure_def zupt_encrypt_buffer_def zupt_encrypt_buffer_aad_eq Let_def)

lemma write_block_or_ref_total: "\<forall>k. we_mem we k \<Longrightarrow> \<exists>st'. write_block_or_ref we opts cp sq x st = Inr st'"
  using seal_payload_total write_ref_total
  unfolding write_block_or_ref_def write_data_block_def Let_def
  by (auto split: option.splits prod.splits) (metis option.distinct(1))+

lemma compress_chunks_total: "\<forall>k. we_mem we k \<Longrightarrow> \<exists>st'. compress_chunks we opts fi bs data st = Inr st'"
  unfolding compress_chunks_def by (rule write_chunks_total) (simp add: compress_block_def write_block_or_ref_total)

lemma compress_all_total: "\<forall>k. we_mem we k \<Longrightarrow> \<exists>st' es. compress_all we opts bs fi files st = Inr (st', es)"
proof (induction files arbitrary: fi st)
  case (Cons inp files)
  let ?s = "st\<lparr>cw_seq := 0, cw_hash := 0, cw_comp := 0, cw_count := 0\<rparr>"
  obtain s1 where "compress_chunks we opts fi bs (in_content inp) ?s = Inr s1" using compress_chunks_total [OF Cons.prems] by blast
  moreover obtain s2 es where "compress_all we opts bs (fi + 1) files s1 = Inr (s2, es)" using Cons.IH [OF Cons.prems] by blast
  ultimately show ?case by (simp add: compress_file_def)
qed simp

lemma finish_archive_total:
  assumes "write_mem we"
  shows "\<exists>f. finish_archive solid we opts hdr st es = Inr f"
proof -
  have m: "we_mem we k" "we_alloc we n" for k n using assms by (simp_all add: write_mem_def)
  have "\<exists>r. write_comment_block we hdr opts out tb = Inr r" for out tb
    using seal_payload_total unfolding write_comment_block_def Let_def
    by (auto simp: m split: option.splits) (metis option.distinct(1))
  then obtain out hdr' tb where c: "write_comment_block we hdr opts (cw_out st) (cw_total st) = Inr (out, hdr', tb)" by (metis prod_cases3)
  have "\<exists>ib. write_index_block we opts es tb = Inr ib"
    using seal_payload_total unfolding write_index_block_def Let_def
    by (auto simp: m split: option.splits prod.splits) (metis option.distinct(1))+
  with c show ?thesis by (auto simp: finish_archive_def Let_def)
qed

lemma compress_files_total:
  assumes "write_mem we" "length files \<le> ZUPT_MAX_INDEX_ALLOC_BYTES div index_entry_sizeof"
    and "zupt_validate_archive_destinations (we_alloc we) (map in_arc_path files) True = Inr ()"
    and pw: "opt_encrypt wopts \<longrightarrow> password_mode we wopts" and id: "length (we_random_id we) = 16"
  shows "\<exists>f. zupt_compress_files we wopts files = Inr f"
proof -
  let ?o = "resolve_options we wopts"
  have wf: "header_wf (initial_header we ?o)" by (rule initial_header_wf [OF id])
  have "\<exists>p. enc_phase we (initial_header we ?o) ?o = Inr p"
    using pw write_enc_header_password [where we = we and opts = ?o, OF _ length_serialize_header [OF wf] wf]
    by (auto simp: enc_phase_def Let_def resolve_options_fields)
  then obtain out hdr o2 where p: "enc_phase we (initial_header we ?o) ?o = Inr (out, hdr, o2)" by (metis prod_cases3)
  have m: "\<forall>k. we_mem we k" "\<And>n. we_alloc we n" "we_dedup we = (True, True)" using assms(1) by (simp_all add: write_mem_def)
  have nl: "\<not> length files > ZUPT_MAX_INDEX_ALLOC_BYTES div index_entry_sizeof" using assms(2) by simp
  define dd where "dd = (if opt_dedup o2 then zupt_dedup_init (fst (we_dedup we)) (snd (we_dedup we)) else None)"
  have dd: "\<not> (opt_dedup o2 \<and> dd = None)" by (simp add: dd_def m zupt_dedup_init_def)
  obtain st es where "compress_all we o2 (unat (opt_block_size ?o)) 0 files
       \<lparr>cw_out = out, cw_dedup = dd, cw_seq = 0, cw_hash = 0, cw_comp = 0, cw_count = 0, cw_total = 0\<rparr> = Inr (st, es)"
    using compress_all_total [OF m(1)] by blast
  moreover obtain f where "finish_archive False we o2 hdr st es = Inr f" using finish_archive_total [OF assms(1)] by blast
  ultimately show ?thesis
    unfolding zupt_compress_files_def Let_def assms(3) rbind_simps if_not_P [OF nl] p [unfolded enc_phase_def Let_def] prod.case
      dd_def [symmetric] if_not_P [OF dd]
    by (simp add: m)
qed

section \<open>Properties\<close>

text \<open>
  C1. What is archived comes back. For every archive the single-threaded writer produces, plain or
  under a password with a PBKDF2 header, with or without deduplication, with any codec, at any
  level, with or without a comment, the reader that is given the same password opens it and
  extracts, under the names the inputs had and in their order, exactly the bytes of the inputs,
  and reports success. Required (\<open>archive_setting\<close>) are: the allocations of the code construction
  inside the LZH encoder succeeded, since the code writes undecodable blocks when they fail; with
  VaptVupt the reader's block decoders are those of the writer's read-back check; the reader has
  memory and can write its outputs; the inputs are within the limits of the format; and with
  deduplication no two different chunks agree in fingerprint, digest and length. Archives under
  Argon2id or a key file, whose key headers come from code outside the repository, are not
  covered.
\<close>

theorem archive_roundtrip:
  assumes "zupt_compress_files we wopts files = Inr f" "archive_setting we wopts files X env oe ropts"
  shows "\<exists>es. zupt_extract_archive unwrap env oe f ropts = Inr (es, map (\<lambda>file. Some (in_content file)) files) \<and>
    map ix_path es = map in_arc_path files \<and>
    extract_status (map (\<lambda>file. Some (in_content file)) files) = Inr ()"
  using archive_extracts [OF assms(1) archive_below_2_63 [OF assms] assms(2), of unwrap]
  by (auto simp: extract_status_def)

text \<open>An archive of two equal files under the password \<open>p\<close>, deduplicated.\<close>

definition example_writer :: write_env where
  "example_writer = \<lparr>we_nonce = (\<lambda>_. replicate 16 9), we_mem = (\<lambda>_. True), we_codec = (\<lambda>_. example_env),
     we_index = ce_lzh example_env, we_alloc = (\<lambda>_. True), we_dedup = (True, True), we_time = 0,
     we_random_id = replicate 16 7, we_salt = replicate 32 5, we_kdf_nonce = replicate 16 3,
     we_wrap = (\<lambda>_ _ _. None), we_with_sdk = False, we_auto_codec = ZUPT_CODEC_ZUPT_LZHP\<rparr>"

definition example_options :: zupt_options_t where
  "example_options = zupt_default_options\<lparr>opt_encrypt := True, opt_dedup := True, opt_password := [0x70]\<rparr>"

definition example_files :: "input_file list" where
  "example_files = [\<lparr>in_arc_path = [0x61], in_content = [1, 2, 3], in_mtime = 0\<rparr>,
     \<lparr>in_arc_path = [0x62], in_content = [1, 2, 3], in_mtime = 0\<rparr>]"

definition example_reader :: read_env where
  "example_reader = \<lparr>re_block = \<lparr>ba_plain = True, ba_out = True, ba_pred = True, ba_lut = True, ba_tmp = True\<rparr>,
     re_vv_blocks = no_block_decoders, re_alloc = (\<lambda>_. True)\<rparr>"

definition example_output :: out_env where
  "example_output = \<lparr>oe_create = (\<lambda>_. True), oe_write = (\<lambda>_ _. True), oe_publish = (\<lambda>_. True), oe_after_failure = (\<lambda>_. 0)\<rparr>"

lemma example_paths_safe: "zupt_path_is_safe [0x61]" "zupt_path_is_safe [0x62]"
  by (simp_all add: zupt_path_is_safe_def example_names component_ok_def reserved_dos_name_iff dos_devices_def ascii_upper_def
      is_sep_def)

lemma example_destinations:
  "zupt_validate_archive_destinations (we_alloc example_writer) (map in_arc_path example_files) True = Inr ()"
  by (simp add: zupt_validate_archive_destinations_def example_files_def example_writer_def zupt_normalize_archive_path_def
      qsort_keys_def keys_collide_def c_at_def example_paths_safe)

lemma example_password: "password_mode example_writer example_options"
  by (simp add: password_mode_def enc_header_type_def example_writer_def example_options_def zupt_default_options_def)

lemma example_setting:
  "archive_setting example_writer example_options example_files {[1, 2, 3]} example_reader example_output example_options"
proof -
  have o: "opt_codec_id (resolve_options example_writer example_options) = ZUPT_CODEC_ZUPT_LZHP"
    "opt_block_size (resolve_options example_writer example_options) = 262144"
    by (simp_all add: resolve_options_def example_options_def zupt_default_options_def example_writer_def Let_def
        auto_block_size_dedup_def)
  have "k = 0" if "k * 262144 < length [1, 2, 3 :: u8]" for k :: nat using that by simp
  then have "chunks_in 262144 [1, 2, 3] {[1, 2, 3]}" unfolding chunks_in_def by fastforce
  then have "inputs_ok 262144 {[1, 2, 3]} example_files"
    by (simp add: inputs_ok_def example_files_def example_paths_safe)
  then show ?thesis
    using example_password
    by (simp add: archive_setting_def o no_collision_def ZUPT_MAX_BLOCK_SZ_def)
       (simp add: example_writer_def example_options_def example_files_def example_reader_def example_output_def
          zupt_default_options_def codecs_ok_def own_decoder_def re_vvz_def codec_mem_def lzh_mem_def example_env_def read_ok_def
          block_mem_def out_ok_def)
qed

text \<open>
  C16. A plain archive, or one under a password with a PBKDF2 header, is always produced. When the
  allocations the writer checks succeed, the number of inputs fits the index and the set of names
  is accepted, every loop of the writer ends, no error path is taken, and the file is within a
  linear bound of its inputs: at most a hundred bytes per input byte (blocks are never empty), the
  names, and 5000 bytes for header, trailer, comment and frames. For Argon2id and key files the
  header is the business of code outside the repository, which may fail.
\<close>

theorem archive_writer_succeeds:
  assumes "write_mem we" "length files \<le> ZUPT_MAX_INDEX_ALLOC_BYTES div index_entry_sizeof"
    and "zupt_validate_archive_destinations (we_alloc we) (map in_arc_path files) True = Inr ()"
    and "opt_encrypt wopts \<longrightarrow> password_mode we wopts" "length (we_random_id we) = 16"
    and "\<forall>k. length (we_nonce we k) = 16" "lzh_mem (we_index we)"
  shows "\<exists>f. zupt_compress_files we wopts files = Inr f \<and>
    length f \<le> 100 * (\<Sum>file\<leftarrow>files. length (in_content file)) + (\<Sum>file\<leftarrow>files. length (in_arc_path file) + 64) + 5000"
  using compress_files_total [OF assms(1-5)] archive_length [OF _ assms(6,7,5,4)] by blast

theorem archive_writer_succeeds_witness:
  "\<exists>f. zupt_compress_files example_writer example_options example_files = Inr f \<and>
    length f \<le> 100 * (\<Sum>file\<leftarrow>example_files. length (in_content file)) +
      (\<Sum>file\<leftarrow>example_files. length (in_arc_path file) + 64) + 5000"
proof (rule archive_writer_succeeds)
  show "opt_encrypt example_options \<longrightarrow> password_mode example_writer example_options" using example_password by blast
  show "zupt_validate_archive_destinations (we_alloc example_writer) (map in_arc_path example_files) True = Inr ()"
    by (rule example_destinations)
qed (simp_all add: write_mem_def example_writer_def index_limit lzh_mem_def example_env_def example_files_def)

lemma example_archive: "\<exists>f. zupt_compress_files example_writer example_options example_files = Inr f"
proof (rule compress_files_total)
  show "opt_encrypt example_options \<longrightarrow> password_mode example_writer example_options" using example_password by blast
  show "zupt_validate_archive_destinations (we_alloc example_writer) (map in_arc_path example_files) True = Inr ()"
    by (rule example_destinations)
qed (simp_all add: write_mem_def example_writer_def index_limit example_files_def)

theorem archive_roundtrip_witness:
  "\<exists>f es. zupt_compress_files example_writer example_options example_files = Inr f \<and>
     zupt_extract_archive (\<lambda>_ _ _ _. None) example_reader example_output f example_options =
       Inr (es, [Some [1, 2, 3], Some [1, 2, 3]]) \<and> map ix_path es = [[0x61], [0x62]]"
proof -
  obtain f where f: "zupt_compress_files example_writer example_options example_files = Inr f" using example_archive by blast
  obtain es where "zupt_extract_archive (\<lambda>_ _ _ _. None) example_reader example_output f example_options =
       Inr (es, map (\<lambda>file. Some (in_content file)) example_files)" "map ix_path es = map in_arc_path example_files"
    using archive_roundtrip [OF f example_setting] by blast
  with f show ?thesis by (intro exI [of _ f] exI [of _ es]) (simp add: example_files_def)
qed

text \<open>
  C3. What a reader of an encrypted archive is shown is the writer's. When an archive whose header
  is marked as encrypted opens (without the opt-in for archives that lack a trailer, and not as
  an old disk image), the keyring is active, the trailer at the end of the file is the HMAC of
  this header and footer under its key, and the index that was parsed is the only serial form of
  the entries, taken from an index block of the file whose payload is authentic for the
  position reserved to the index.
\<close>

theorem opened_archive_authentic:
  assumes "open_archive unwrap al vvz alloc f opts = Inr (o', hdr, ft, es, pos)"
    and "unwrap_activates unwrap" "global_flags hdr AND ZUPT_FLAG_ENCRYPTED \<noteq> 0" "\<not> opt_legacy_no_ait opts"
    and "global_flags hdr AND ZUPT_FLAG_DISK_IMAGE = 0 \<or> global_flags hdr AND ZUPT_FLAG_DISK_CONTENT_HASH \<noteq> 0"
    and "\<forall>n. alloc n"
  shows "active (opt_keyring o') \<and>
    (\<exists>body ait. f = body @ zupt_serialize_footer ft @ ait \<and> ait = hmac_oneshot (mac_key (opt_keyring o')) (ait_serialize_mac_input hdr ft)) \<and>
    (\<exists>ib. block_type ib = ZUPT_BLOCK_INDEX \<and> block_flags ib AND ZUPT_BFLAG_ENCRYPTED \<noteq> 0 \<and>
      package_authentic (opt_keyring o') (index_aad_seq, ref_aad (opt_keyring o') ib) (payload ib) \<and>
      (\<exists>pos r. drop pos f = write_block ib @ r) \<and>
      decompress_block al vvz ib (Some (opt_keyring o')) index_aad_seq = Inr (write_index es))"
  by (rule opened_authentic [OF assms])

lemma example_opens:
  obtains f o' hdr ft es pos where "zupt_compress_files example_writer example_options example_files = Inr f"
    "open_archive (\<lambda>_ _ _ _. None) (re_block example_reader) (re_vvz example_reader) (re_alloc example_reader) f example_options =
       Inr (o', hdr, ft, es, pos)"
    "global_flags hdr AND ZUPT_FLAG_ENCRYPTED \<noteq> 0" "global_flags hdr AND ZUPT_FLAG_DISK_IMAGE = 0" "map ix_path es = [[0x61], [0x62]]"
    "global_flags hdr AND ZUPT_FLAG_SOLID = 0"
    "entries_nonempty example_reader f (global_flags hdr) (opt_keyring o') None 0 es"
    "zupt_extract_archive (\<lambda>_ _ _ _. None) example_reader example_output f example_options =
       Inr (es, [Some [1, 2, 3], Some [1, 2, 3]])"
proof -
  obtain f where f: "zupt_compress_files example_writer example_options example_files = Inr f" using example_archive by blast
  have l: "map in_arc_path example_files = [[0x61], [0x62]]"
    "map (\<lambda>file. Some (in_content file)) example_files = [Some [1, 2, 3], Some [1, 2, 3]]" "opt_encrypt example_options = True"
    by (simp_all add: example_files_def example_options_def)
  note a = archive_extracts [OF f archive_below_2_63 [OF f example_setting] example_setting, of "\<lambda>_ _ _ _. None", unfolded l]
  show ?thesis by (insert a, elim exE conjE, rule that [OF f]) simp_all
qed

theorem opened_archive_authentic_witness:
  "\<exists>f o' hdr ft es pos. zupt_compress_files example_writer example_options example_files = Inr f \<and>
     open_archive (\<lambda>_ _ _ _. None) (re_block example_reader) (re_vvz example_reader) (re_alloc example_reader) f example_options =
       Inr (o', hdr, ft, es, pos) \<and> active (opt_keyring o') \<and>
     (\<exists>body. f = body @ zupt_serialize_footer ft @ hmac_oneshot (mac_key (opt_keyring o')) (ait_serialize_mac_input hdr ft))"
proof -
  obtain f o' hdr ft es pos where f: "zupt_compress_files example_writer example_options example_files = Inr f"
    and op: "open_archive (\<lambda>_ _ _ _. None) (re_block example_reader) (re_vvz example_reader) (re_alloc example_reader) f
       example_options = Inr (o', hdr, ft, es, pos)"
    and g: "global_flags hdr AND ZUPT_FLAG_ENCRYPTED \<noteq> 0" "global_flags hdr AND ZUPT_FLAG_DISK_IMAGE = 0"
    by (rule example_opens)
  have u: "unwrap_activates (\<lambda>_ _ _ _. None)" by (simp add: unwrap_activates_def)
  have n: "\<not> opt_legacy_no_ait example_options" by (simp add: example_options_def zupt_default_options_def)
  have a: "\<forall>n. re_alloc example_reader n" by (simp add: example_reader_def)
  have "active (opt_keyring o') \<and> (\<exists>body ait. f = body @ zupt_serialize_footer ft @ ait \<and>
      ait = hmac_oneshot (mac_key (opt_keyring o')) (ait_serialize_mac_input hdr ft))"
    using opened_archive_authentic [OF op u g(1) n disjI1 [OF g(2)] a] by blast
  with f op show ?thesis by blast
qed

text \<open>
  C19. Whatever the file, the entries of an archive that opens are well formed: at most 64776 of
  them, each with a path of 1 to 4095 bytes that has no NUL, is well-formed UTF-8 and contains
  no control character that could reach a terminal, so that the fixed buffers of the C records
  hold them.
\<close>

theorem opened_entries_wellformed:
  assumes "open_archive unwrap al vvz alloc f opts = Inr (o', hdr, ft, es, pos)" "\<forall>n. alloc n"
  shows "list_all index_entry_ok es \<and> length es \<le> 64776"
  by (rule opened_entries_ok [OF assms])

theorem opened_entries_wellformed_witness:
  "\<exists>f o' hdr ft es pos. zupt_compress_files example_writer example_options example_files = Inr f \<and>
     open_archive (\<lambda>_ _ _ _. None) (re_block example_reader) (re_vvz example_reader) (re_alloc example_reader) f example_options =
       Inr (o', hdr, ft, es, pos) \<and> map ix_path es = [[0x61], [0x62]] \<and> list_all index_entry_ok es"
proof -
  obtain f o' hdr ft es pos where f: "zupt_compress_files example_writer example_options example_files = Inr f"
    and op: "open_archive (\<lambda>_ _ _ _. None) (re_block example_reader) (re_vvz example_reader) (re_alloc example_reader) f
       example_options = Inr (o', hdr, ft, es, pos)"
    and p: "map ix_path es = [[0x61], [0x62]]"
    by (rule example_opens)
  have a: "\<forall>n. re_alloc example_reader n" by (simp add: example_reader_def)
  from opened_entries_wellformed [OF op a] f op p show ?thesis
    by (intro exI [of _ f] exI [of _ o'] exI [of _ hdr] exI [of _ ft] exI [of _ es] exI [of _ pos]) simp
qed

end
