(* ===== verification/TestArchive.thy ===== *)
theory TestArchive
  imports Archive
begin

text \<open>
  Testing (\<open>zupt_test_archive_stream\<close>): the archive is opened and every block decoded and
  verified, but nothing is written. The theory compares it with extraction: on which archives
  the two agree, and that they need not agree on others.
\<close>

section \<open>Ordinary archives\<close>

text \<open>
  The blocks of a file are read as in extraction (\<open>extract_block\<close>: the code of the two functions
  is the same up to the error a misplaced reference gives). The hash is continued by every block,
  an empty one included. The state is the size and hash so far.
\<close>

fun test_blocks ::
  "read_env \<Rightarrow> bytes \<Rightarrow> u32 \<Rightarrow> zupt_keyring_t \<Rightarrow> zupt_legacy_disk_aad_map_t option \<Rightarrow> u64 \<Rightarrow> nat \<Rightarrow>
     nat \<Rightarrow> nat \<Rightarrow> nat \<Rightarrow> u64 \<times> u64 \<Rightarrow> ((u64 \<times> u64) \<times> nat) result" where
  "test_blocks env f gflags kr lmap expected fi 0 b pos st = Inr (st, pos)"
| "test_blocks env f gflags kr lmap expected fi (Suc n) b pos (tested_size, tested_hash) =
     rbind (extract_block env f gflags kr lmap fi (word_of_nat b) pos) (\<lambda>(dec, pos).
     if tested_size > expected \<or> word_of_nat (length dec) > expected - tested_size then Inl ZUPT_ERR_OVERFLOW
     else test_blocks env f gflags kr lmap expected fi n (b + 1) pos
            (tested_size + word_of_nat (length dec), zupt_xxh64 dec tested_hash))"

text \<open>\<open>after\<close> is the position a failed entry leaves behind.\<close>

definition test_entry ::
  "read_env \<Rightarrow> (nat \<Rightarrow> nat) \<Rightarrow> bytes \<Rightarrow> u32 \<Rightarrow> zupt_keyring_t \<Rightarrow> zupt_legacy_disk_aad_map_t option \<Rightarrow> nat \<Rightarrow>
     zupt_index_entry_t \<Rightarrow> nat \<Rightarrow> unit result \<times> nat" where
  "test_entry env after f gflags kr lmap i e pos =
     (case test_blocks env f gflags kr lmap (ix_uncompressed_size e) i (unat (ix_block_count e)) 0
             (fseeko_set pos (ix_first_block_offset e)) (0, 0) of
        Inl err \<Rightarrow> (Inl err, after i)
      | Inr ((tested_size, tested_hash), pos) \<Rightarrow>
          if tested_size \<noteq> ix_uncompressed_size e \<or> require_content_hash gflags \<and> tested_hash \<noteq> ix_content_hash e
          then (Inl ZUPT_ERR_BAD_CHECKSUM, pos) else (Inr (), pos))"

fun test_entries ::
  "read_env \<Rightarrow> (nat \<Rightarrow> nat) \<Rightarrow> bytes \<Rightarrow> u32 \<Rightarrow> zupt_keyring_t \<Rightarrow> zupt_legacy_disk_aad_map_t option \<Rightarrow> nat \<Rightarrow>
     zupt_index_entry_t list \<Rightarrow> nat \<Rightarrow> unit result list" where
  "test_entries env after f gflags kr lmap i [] pos = []"
| "test_entries env after f gflags kr lmap i (e # es) pos =
     (let (r, pos) = test_entry env after f gflags kr lmap i e pos in
      r # test_entries env after f gflags kr lmap (i + 1) es pos)"

section \<open>Solid archives\<close>

definition test_solid_entry :: "bytes \<Rightarrow> u64 \<Rightarrow> zupt_index_entry_t \<Rightarrow> bool" where
  "test_solid_entry buf tot e =
     (let off = ix_first_block_offset e; sz = ix_uncompressed_size e in
      if off > tot \<or> sz > tot - off then False
      else if sz > 0 then zupt_xxh64 (take (unat sz) (drop (unat off) buf)) 0 = ix_content_hash e
      else True)"

text \<open>\<open>after_enc\<close> is the position behind an encryption header that cannot be read: its error is
  ignored here.\<close>

definition test_solid ::
  "read_env \<Rightarrow> nat \<Rightarrow> bytes \<Rightarrow> zupt_archive_header_t \<Rightarrow> zupt_footer_t \<Rightarrow> zupt_keyring_t \<Rightarrow>
     zupt_index_entry_t list \<Rightarrow> unit result list result" where
  "test_solid env after_enc f hdr ft kr es =
     (case solid_total es 0 of
        None \<Rightarrow> Inl ZUPT_ERR_OVERFLOW
      | Some tot \<Rightarrow>
          if unat tot > 4 * 1024 * 1024 * 1024 then Inl ZUPT_ERR_OVERFLOW
          else if \<not> re_alloc env (if tot = 0 then 1 else unat tot) then Inl ZUPT_ERR_NOMEM
          else
            let pos = (if global_flags hdr AND ZUPT_FLAG_ENCRYPTED \<noteq> 0 then
                         (case read_block_at (re_alloc env) f 64 of Inl _ \<Rightarrow> after_enc | Inr (_, pos) \<Rightarrow> pos)
                       else 64);
                data_end = (if comment_offset hdr \<noteq> 0 then comment_offset hdr else index_offset ft);
                metadata = (if comment_offset hdr \<noteq> 0 then 2 else 1) in
            (case solid_blocks env f kr (unat tot) (unat data_end) pos [] 0 of
               None \<Rightarrow> Inl ZUPT_ERR_CORRUPT
             | Some (buf, sq) \<Rightarrow>
                 if length buf \<noteq> unat tot \<or> total_blocks ft < metadata \<or> sq \<noteq> total_blocks ft - metadata
                 then Inl ZUPT_ERR_CORRUPT
                 else Inr (map (\<lambda>e. if test_solid_entry buf tot e then Inr () else Inl ZUPT_ERR_BAD_CHECKSUM) es)))"

section \<open>The whole test\<close>

text \<open>\<open>after\<close> is as above, and gives the position behind an unreadable encryption header at 0.\<close>

definition zupt_test_archive_stream ::
  "unwrap \<Rightarrow> read_env \<Rightarrow> (nat \<Rightarrow> nat) \<Rightarrow> bytes \<Rightarrow> zupt_options_t \<Rightarrow> unit result list result" where
  "zupt_test_archive_stream unwrap env after f opts =
     rbind (open_archive unwrap (re_block env) (re_vvz env) (re_alloc env) f opts) (\<lambda>(opts, hdr, ft, es, pos).
     if global_flags hdr AND ZUPT_FLAG_SOLID \<noteq> 0 then test_solid env (after 0) f hdr ft (opt_keyring opts) es
     else
       let gflags = global_flags hdr in
       if gflags AND ZUPT_FLAG_DISK_IMAGE \<noteq> 0 \<and> gflags AND ZUPT_FLAG_ENCRYPTED \<noteq> 0 \<and>
         gflags AND ZUPT_FLAG_DEDUP \<noteq> 0 \<and> gflags AND ZUPT_FLAG_AUTH_DEDUP_REFS = 0 then
         (if length es \<noteq> 1 then Inl ZUPT_ERR_CORRUPT
          else
            rbind (zupt_legacy_disk_aad_map_build (re_alloc env) f (ix_first_block_offset (es ! 0))
                     (ix_block_count (es ! 0))) (\<lambda>m.
            Inr (test_entries env after f gflags (opt_keyring opts) (Some m) 0 es pos)))
       else Inr (test_entries env after f gflags (opt_keyring opts) None 0 es pos))"

definition test_status :: "unit result list \<Rightarrow> unit result" where
  "test_status rs = (if \<exists>r \<in> set rs. r \<noteq> Inr () then Inl ZUPT_ERR_BAD_CHECKSUM else Inr ())"

section \<open>Testing and extracting\<close>

lemma extract_block_length:
  assumes "extract_block env f gflags kr lmap fi bi pos = Inr (dec, q)"
  shows "length dec \<le> ZUPT_MAX_BLOCK_SZ"
proof -
  obtain b k sq where d: "decompress_block (re_block env) (re_vvz env) b k sq = Inr dec"
    using assms by (auto simp: extract_block_def extract_ref_def rbind_Inr_iff Let_def split: if_splits)
  then have "unat (uncompressed_size b) \<le> ZUPT_MAX_BLOCK_SZ"
    by (auto simp: decompress_block_def split: if_splits)
  with decompress_block_Inr(1) [OF d] show ?thesis by simp
qed

lemma verified_chunk_Some:
  assumes "zupt_write_verified_chunk ok dec expected (w, h) = Some (w', h')" "length dec \<le> ZUPT_MAX_BLOCK_SZ"
  shows "unat w' = unat w + length dec \<and> unat w' \<le> unat expected \<and> h' = (if dec = [] then h else zupt_xxh64 dec h)"
proof -
  have u: "unat (word_of_nat (length dec) :: u64) = length dec"
    using assms(2) by (intro unat_small) (simp add: ZUPT_MAX_BLOCK_SZ_def)
  have le: "w \<le> expected" "(word_of_nat (length dec) :: u64) \<le> expected - w"
    and w': "w' = w + word_of_nat (length dec)" "h' = (if dec = [] then h else zupt_xxh64 dec h)"
    using assms(1) by (auto simp: zupt_write_verified_chunk_def split: if_splits)
  have "unat w + length dec \<le> unat expected"
    using le u by (simp add: word_le_nat_alt unat_sub)
  moreover have "unat expected < 2 ^ 64" using unat_lt2p [of expected] by simp
  ultimately have "unat w' = unat w + length dec" unfolding w'(1) using u by (simp add: unat_word_ariths)
  with \<open>unat w + length dec \<le> unat expected\<close> w'(2) show ?thesis by simp
qed

text \<open>What a file's blocks were written to: its bytes are the chunks, and size and hash follow them.\<close>

lemma extract_blocks_content:
  "extract_blocks env wr f gflags kr lmap expected fi n b pos content (w, h) = Some (content', (w', h'), pos') \<Longrightarrow>
     \<exists>chunks. content' = content @ concat chunks \<and> [] \<notin> set chunks \<and> unat w' = unat w + length (concat chunks) \<and>
       h' = foldl (\<lambda>h x. zupt_xxh64 x h) h chunks"
proof (induction n arbitrary: b pos content w h)
  case 0
  then show ?case by (intro exI [of _ "[]"]) simp
next
  case (Suc n)
  obtain dec p w1 h1 where d: "extract_block env f gflags kr lmap fi (word_of_nat b) pos = Inr (dec, p)"
    "zupt_write_verified_chunk (wr b) dec expected (w, h) = Some (w1, h1)"
    "extract_blocks env wr f gflags kr lmap expected fi n (b + 1) p (content @ dec) (w1, h1) = Some (content', (w', h'), pos')"
    using Suc.prems by (auto split: sum.splits prod.splits option.splits)
  note v = verified_chunk_Some [OF d(2) extract_block_length [OF d(1)]]
  obtain chunks where c: "content' = (content @ dec) @ concat chunks" "[] \<notin> set chunks"
    "unat w' = unat w1 + length (concat chunks)" "h' = foldl (\<lambda>h x. zupt_xxh64 x h) h1 chunks"
    using Suc.IH [OF d(3)] by blast
  show ?case using c v by (intro exI [of _ "if dec = [] then chunks else dec # chunks"]) simp
qed

text \<open>The bytes published for an entry satisfy what the index says of it.\<close>

definition entry_verified :: "u32 \<Rightarrow> zupt_index_entry_t \<Rightarrow> bytes \<Rightarrow> bool" where
  "entry_verified gflags e content \<longleftrightarrow> zupt_path_is_safe (ix_path e) \<and> length content = unat (ix_uncompressed_size e) \<and>
     (require_content_hash gflags \<longrightarrow>
       (\<exists>chunks. concat chunks = content \<and> [] \<notin> set chunks \<and> foldl (\<lambda>h x. zupt_xxh64 x h) 0 chunks = ix_content_hash e))"

lemma extract_entry_verified:
  assumes "extract_entry env oe f gflags kr lmap i e pos = (Some content, q)"
  shows "entry_verified gflags e content"
proof -
  obtain w h p where b: "zupt_path_is_safe (ix_path e)"
    "extract_blocks env (oe_write oe i) f gflags kr lmap (ix_uncompressed_size e) i
        (unat (ix_block_count e)) 0 (fseeko_set pos (ix_first_block_offset e)) [] (0, 0) = Some (content, (w, h), p)"
    "w = ix_uncompressed_size e" "require_content_hash gflags \<longrightarrow> h = ix_content_hash e"
    using assms by (auto simp: extract_entry_def split: if_splits option.splits)
  from extract_blocks_content [OF b(2)] b show ?thesis by (auto simp: entry_verified_def)
qed

lemma extract_entries_verified:
  "list_all2 (\<lambda>e r. \<forall>content. r = Some content \<longrightarrow> entry_verified gflags e content) es
     (extract_entries env oe f gflags kr lmap i es pos)"
  by (induction es arbitrary: i pos) (auto split: prod.splits dest: extract_entry_verified)

lemma extract_solid_entry_verified:
  assumes "extract_solid_entry oe buf tot i e = Some content" "length buf = unat tot"
  shows "entry_verified gflags e content"
proof -
  let ?off = "ix_first_block_offset e" and ?sz = "ix_uncompressed_size e"
  have a: "zupt_path_is_safe (ix_path e)" "?off \<le> tot" "?sz \<le> tot - ?off" "content = take (unat ?sz) (drop (unat ?off) buf)"
    and h: "(if ?sz > 0 then zupt_xxh64 content 0 else 0) = ix_content_hash e"
    using assms(1) by (auto simp: extract_solid_entry_def Let_def split: if_splits)
  have "unat ?sz \<le> unat tot - unat ?off" using a(2,3) by (simp add: word_le_nat_alt unat_sub)
  then have l: "length content = unat ?sz" using assms(2) by (simp add: a(4))
  have "\<exists>chunks. concat chunks = content \<and> [] \<notin> set chunks \<and> foldl (\<lambda>h x. zupt_xxh64 x h) 0 chunks = ix_content_hash e"
  proof (cases "content = []")
    case True
    then have "?sz = 0" using l by (simp add: unat_eq_zero)
    with h True show ?thesis by (intro exI [of _ "[]"]) simp
  next
    case False
    then have "0 < unat ?sz" using l by (metis length_greater_0_conv)
    then have "?sz > 0" by (simp add: word_less_nat_alt)
    with h False show ?thesis by (intro exI [of _ "[content]"]) simp
  qed
  with a(1) l show ?thesis by (simp add: entry_verified_def)
qed

lemma extract_solid_Inr:
  assumes "extract_solid env oe f hdr ft kr es = Inr outs"
  shows "\<exists>buf tot. length buf = unat tot \<and> outs = map (\<lambda>(i, e). extract_solid_entry oe buf tot i e) (List.enumerate 0 es)"
proof -
  define R where "R = (\<lambda>buf tot. map (\<lambda>(i, e). extract_solid_entry oe buf tot i e) (List.enumerate 0 es))"
  have k: "length a = unat t \<Longrightarrow> \<exists>buf tot. length buf = unat tot \<and> R a t = R buf tot" for a t by blast
  have k0: "\<exists>buf tot. length buf = unat tot \<and> R [] 0 = R buf tot" by (rule k) simp
  have "\<exists>buf tot. length buf = unat tot \<and> outs = R buf tot"
    using assms unfolding extract_solid_def R_def [THEN fun_cong, THEN fun_cong, symmetric] Let_def
    by (auto simp: rbind_Inr_iff split: if_splits option.splits intro: k k0)
  then show ?thesis by (simp add: R_def)
qed

lemma extract_archive_verified:
  assumes "zupt_extract_archive unwrap env oe f opts = Inr (es, outs)"
    and op: "open_archive unwrap (re_block env) (re_vvz env) (re_alloc env) f opts = Inr (o', hdr, ft, es', pos)"
  shows "es = es' \<and> list_all2 (\<lambda>e r. \<forall>content. r = Some content \<longrightarrow> entry_verified (global_flags hdr) e content) es outs"
proof (cases "global_flags hdr AND ZUPT_FLAG_SOLID \<noteq> 0")
  case True
  with assms have e: "es = es'" "extract_solid env oe f hdr ft (opt_keyring o') es = Inr outs"
    by (auto simp: zupt_extract_archive_def rbind_Inr_iff split: if_splits)
  from extract_solid_Inr [OF e(2)] e(1) show ?thesis
    by (auto simp: list_all2_conv_all_nth nth_enumerate_eq intro: extract_solid_entry_verified)
next
  case False
  with assms extract_entries_verified show ?thesis
    by (auto simp: zupt_extract_archive_def rbind_Inr_iff Let_def split: if_splits)
qed

section \<open>Where the two agree\<close>

lemma test_blocks_extract:
  "blocks_nonempty env f gflags kr lmap fi n b pos \<Longrightarrow>
     (case extract_blocks env (\<lambda>_. True) f gflags kr lmap expected fi n b pos content st of
       None \<Rightarrow> \<exists>err. test_blocks env f gflags kr lmap expected fi n b pos st = Inl err
     | Some (c, st', q) \<Rightarrow> test_blocks env f gflags kr lmap expected fi n b pos st = Inr (st', q))"
proof (induction n arbitrary: b pos content st)
  case (Suc n)
  obtain w h where st: "st = (w, h)" by fastforce
  show ?case
  proof (cases "extract_block env f gflags kr lmap fi (word_of_nat b) pos")
    case (Inr r)
    obtain dec p where r: "r = (dec, p)" by fastforce
    with Suc.prems Inr have ne: "dec \<noteq> []" "blocks_nonempty env f gflags kr lmap fi n (b + 1) p" by simp_all
    then have "zupt_write_verified_chunk True dec expected st =
        (if w > expected \<or> word_of_nat (length dec) > expected - w then None
         else Some (w + word_of_nat (length dec), zupt_xxh64 dec h))"
      by (simp add: zupt_write_verified_chunk_def st)
    then have e: "extract_blocks env (\<lambda>_. True) f gflags kr lmap expected fi (Suc n) b pos content st =
        (if w > expected \<or> word_of_nat (length dec) > expected - w then None
         else extract_blocks env (\<lambda>_. True) f gflags kr lmap expected fi n (b + 1) p (content @ dec)
           (w + word_of_nat (length dec), zupt_xxh64 dec h))"
      by (simp add: Inr r)
    have t: "test_blocks env f gflags kr lmap expected fi (Suc n) b pos st =
        (if w > expected \<or> word_of_nat (length dec) > expected - w then Inl ZUPT_ERR_OVERFLOW
         else test_blocks env f gflags kr lmap expected fi n (b + 1) p (w + word_of_nat (length dec), zupt_xxh64 dec h))"
      by (simp add: st Inr r)
    show ?thesis
      unfolding e t
      using Suc.IH [OF ne(2), where content = "content @ dec" and st = "(w + word_of_nat (length dec), zupt_xxh64 dec h)"]
      by simp
  qed (simp add: st)
qed simp

lemma test_entry_extract:
  assumes "entries_nonempty env f gflags kr lmap i (e # es)" "out_ok oe" "zupt_path_is_safe (ix_path e)"
  shows "fst (test_entry env after f gflags kr lmap i e pos) = Inr () \<longleftrightarrow>
    fst (extract_entry env oe f gflags kr lmap i e pos') \<noteq> None"
proof -
  have o: "oe_create oe i" "oe_write oe i = (\<lambda>_. True)" "oe_publish oe i" using assms(2) by (simp_all add: out_ok_def)
  have p: "fseeko_set q (ix_first_block_offset e) = unat (ix_first_block_offset e)" for q
    using assms(1) by (simp add: fseeko_set_def)
  have "blocks_nonempty env f gflags kr lmap i (unat (ix_block_count e)) 0 (unat (ix_first_block_offset e))" using assms(1) by simp
  from test_blocks_extract [OF this, where expected = "ix_uncompressed_size e" and content = "[]" and st = "(0, 0)"]
  show ?thesis
    by (auto simp: test_entry_def extract_entry_def p o assms(3) split: option.splits prod.splits)
qed

lemma test_entries_extract:
  assumes "out_ok oe"
  shows "entries_nonempty env f gflags kr lmap i es \<Longrightarrow> \<forall>e \<in> set es. zupt_path_is_safe (ix_path e) \<Longrightarrow>
    map (\<lambda>t. t = Inr ()) (test_entries env after f gflags kr lmap i es pos) =
    map (\<lambda>x. x \<noteq> None) (extract_entries env oe f gflags kr lmap i es pos')"
proof (induction es arbitrary: i pos pos')
  case (Cons e es)
  have "fst (test_entry env after f gflags kr lmap i e pos) = Inr () \<longleftrightarrow>
      fst (extract_entry env oe f gflags kr lmap i e pos') \<noteq> None"
    using Cons.prems by (intro test_entry_extract [OF Cons.prems(1) assms]) simp
  moreover have "map (\<lambda>t. t = Inr ()) (test_entries env after f gflags kr lmap (i + 1) es q) =
      map (\<lambda>x. x \<noteq> None) (extract_entries env oe f gflags kr lmap (i + 1) es q')" for q q'
    using Cons.prems by (intro Cons.IH) simp_all
  ultimately show ?case
    by (cases "test_entry env after f gflags kr lmap i e pos"; cases "extract_entry env oe f gflags kr lmap i e pos'") simp
qed simp

lemma test_solid_entry_extract:
  assumes "out_ok oe" "zupt_path_is_safe (ix_path e)" "ix_uncompressed_size e = 0 \<longrightarrow> ix_content_hash e = 0"
  shows "test_solid_entry buf tot e \<longleftrightarrow> extract_solid_entry oe buf tot i e \<noteq> None"
  using assms by (auto simp: test_solid_entry_def extract_solid_entry_def Let_def out_ok_def word_neq_0_conv)

lemma test_solid_extract:
  assumes "test_solid env after_enc f hdr ft kr es = Inr ts" "extract_solid env oe f hdr ft kr es = Inr outs" "out_ok oe"
    "\<forall>e \<in> set es. zupt_path_is_safe (ix_path e) \<and> (ix_uncompressed_size e = 0 \<longrightarrow> ix_content_hash e = 0)"
  shows "map (\<lambda>t. t = Inr ()) ts = map (\<lambda>x. x \<noteq> None) outs"
proof -
  have m: "map (\<lambda>t. t = Inr ()) (map (\<lambda>e. if test_solid_entry buf tot e then Inr () else Inl ZUPT_ERR_BAD_CHECKSUM) es) =
      map (\<lambda>x. x \<noteq> None) (map (\<lambda>(i, e). extract_solid_entry oe buf tot i e) (List.enumerate 0 es))" for buf tot
    using assms(4) test_solid_entry_extract [OF assms(3)]
    by (intro nth_equalityI) (auto simp: nth_enumerate_eq)
  define T where "T = (\<lambda>buf tot. map (\<lambda>e. if test_solid_entry buf tot e then Inr () else Inl ZUPT_ERR_BAD_CHECKSUM) es)"
  define R where "R = (\<lambda>buf tot. map (\<lambda>(i, e). extract_solid_entry oe buf tot i e) (List.enumerate 0 es))"
  have k: "\<exists>buf tot. T a t = T buf tot \<and> R a t = R buf tot" for a t by blast
  have "\<exists>buf tot. ts = T buf tot \<and> outs = R buf tot"
    using assms(1,2)
    unfolding test_solid_def extract_solid_def T_def [THEN fun_cong, THEN fun_cong, symmetric]
      R_def [THEN fun_cong, THEN fun_cong, symmetric] Let_def
    by (auto simp: rbind_Inr_iff split: if_splits option.splits sum.splits intro: k)
  then show ?thesis using m by (auto simp: T_def R_def)
qed

section \<open>Properties\<close>

text \<open>
  C2. Whatever the archive, damaged or forged, every file that extraction publishes is verified:
  its path is relative and stays below the output directory, its length is the one the index
  announces, and its bytes are a sequence of non-empty chunks whose chained XXH64 is the content
  hash of the index (the hash of an old disk image, which its index does not hold, excepted).
\<close>

theorem extracted_content_verified:
  assumes "zupt_extract_archive unwrap env oe f opts = Inr (es, outs)"
    and "open_archive unwrap (re_block env) (re_vvz env) (re_alloc env) f opts = Inr (o', hdr, ft, es', pos)"
    and "i < length outs" "outs ! i = Some content"
  shows "i < length es \<and> es = es' \<and> zupt_path_is_safe (ix_path (es ! i)) \<and>
    length content = unat (ix_uncompressed_size (es ! i)) \<and>
    (require_content_hash (global_flags hdr) \<longrightarrow>
      (\<exists>chunks. concat chunks = content \<and> [] \<notin> set chunks \<and>
        foldl (\<lambda>h x. zupt_xxh64 x h) 0 chunks = ix_content_hash (es ! i)))"
proof -
  from extract_archive_verified [OF assms(1,2)]
  have e: "es = es'" "list_all2 (\<lambda>e r. \<forall>content. r = Some content \<longrightarrow> entry_verified (global_flags hdr) e content) es outs" by blast+
  then have "entry_verified (global_flags hdr) (es ! i) content" "length es = length outs"
    using assms(3,4) by (auto simp: list_all2_conv_all_nth)
  with e(1) assms(3) show ?thesis by (simp add: entry_verified_def)
qed

theorem extracted_content_verified_witness:
  "\<exists>f es. zupt_extract_archive (\<lambda>_ _ _ _. None) example_reader example_output f example_options =
     Inr (es, [Some [1, 2, 3], Some [1, 2, 3]]) \<and> unat (ix_uncompressed_size (es ! 0)) = 3 \<and>
     (\<exists>chunks. concat chunks = [1, 2, 3] \<and> foldl (\<lambda>h x. zupt_xxh64 x h) 0 chunks = ix_content_hash (es ! 0))"
proof (rule example_opens)
  fix f o' hdr ft es pos
  assume op: "open_archive (\<lambda>_ _ _ _. None) (re_block example_reader) (re_vvz example_reader) (re_alloc example_reader) f
       example_options = Inr (o', hdr, ft, es, pos)"
    and g: "global_flags hdr AND ZUPT_FLAG_DISK_IMAGE = 0"
    and ex: "zupt_extract_archive (\<lambda>_ _ _ _. None) example_reader example_output f example_options =
       Inr (es, [Some [1, 2, 3], Some [1, 2, 3]])"
  have "require_content_hash (global_flags hdr)" using g by (simp add: require_content_hash_def)
  with extracted_content_verified [OF ex op, of 0 "[1, 2, 3]"]
  have "unat (ix_uncompressed_size (es ! 0)) = 3"
    "\<exists>chunks. concat chunks = [1, 2, 3] \<and> foldl (\<lambda>h x. zupt_xxh64 x h) 0 chunks = ix_content_hash (es ! 0)" by auto
  with ex show ?thesis by (intro exI [of _ f] exI [of _ es]) simp
qed

text \<open>
  C20. Testing an archive tells what extracting it would do: for a file archive with safe paths,
  where no visited block is empty (the writer stores none) and empty solid entries carry the
  hash 0, the entries that pass the test are those that extraction publishes when the file system
  lets it, and the test succeeds as a whole just when extraction does.
\<close>

theorem test_agrees_with_extract:
  assumes op: "open_archive unwrap (re_block env) (re_vvz env) (re_alloc env) f opts = Inr (o', hdr, ft, es, pos)"
    and t: "zupt_test_archive_stream unwrap env after f opts = Inr ts"
    and x: "zupt_extract_archive unwrap env oe f opts = Inr (es', outs)"
    and oe: "out_ok oe" and safe: "\<forall>e \<in> set es. zupt_path_is_safe (ix_path e)"
    and disk: "global_flags hdr AND ZUPT_FLAG_DISK_IMAGE = 0"
    and solid: "global_flags hdr AND ZUPT_FLAG_SOLID \<noteq> 0 \<longrightarrow>
      (\<forall>e \<in> set es. ix_uncompressed_size e = 0 \<longrightarrow> ix_content_hash e = 0)"
    and plain: "global_flags hdr AND ZUPT_FLAG_SOLID = 0 \<longrightarrow>
      entries_nonempty env f (global_flags hdr) (opt_keyring o') None 0 es"
  shows "map (\<lambda>t. t = Inr ()) ts = map (\<lambda>x. x \<noteq> None) outs \<and> (test_status ts = Inr () \<longleftrightarrow> extract_status outs = Inr ())"
proof -
  have m: "map (\<lambda>t. t = Inr ()) ts = map (\<lambda>x. x \<noteq> None) outs"
  proof (cases "global_flags hdr AND ZUPT_FLAG_SOLID \<noteq> 0")
    case True
    have "test_solid env (after 0) f hdr ft (opt_keyring o') es = Inr ts"
      using t True unfolding zupt_test_archive_stream_def op by simp
    moreover have "extract_solid env oe f hdr ft (opt_keyring o') es = Inr outs"
      using x True unfolding zupt_extract_archive_def op by (auto simp: rbind_Inr_iff split: if_splits)
    ultimately show ?thesis using safe solid True by (intro test_solid_extract [OF _ _ oe]) auto
  next
    case False
    have "ts = test_entries env after f (global_flags hdr) (opt_keyring o') None 0 es pos"
      using t False disk unfolding zupt_test_archive_stream_def op by (simp add: Let_def)
    moreover have "outs = extract_entries env oe f (global_flags hdr) (opt_keyring o') None 0 es pos"
      using x False disk unfolding zupt_extract_archive_def op by (auto simp: Let_def split: if_splits)
    ultimately show ?thesis using plain False safe test_entries_extract [OF oe] by blast
  qed
  have "(\<exists>r \<in> set ts. r \<noteq> Inr ()) \<longleftrightarrow> False \<in> set (map (\<lambda>t. t = Inr ()) ts)" by force
  also have "\<dots> \<longleftrightarrow> None \<in> set outs" unfolding m by force
  finally have q: "(\<exists>r \<in> set ts. r \<noteq> Inr ()) \<longleftrightarrow> None \<in> set outs" .
  have "test_status ts = Inr () \<longleftrightarrow> extract_status outs = Inr ()"
    unfolding test_status_def extract_status_def q by simp
  with m show ?thesis by blast
qed

theorem test_agrees_with_extract_witness:
  "\<exists>f ts. zupt_compress_files example_writer example_options example_files = Inr f \<and>
     zupt_test_archive_stream (\<lambda>_ _ _ _. None) example_reader (\<lambda>_. 0) f example_options = Inr ts \<and>
     length ts = 2 \<and> test_status ts = Inr ()"
proof (rule example_opens)
  fix f o' hdr ft es pos
  assume f: "zupt_compress_files example_writer example_options example_files = Inr f"
    and op: "open_archive (\<lambda>_ _ _ _. None) (re_block example_reader) (re_vvz example_reader) (re_alloc example_reader) f
       example_options = Inr (o', hdr, ft, es, pos)"
    and g: "global_flags hdr AND ZUPT_FLAG_DISK_IMAGE = 0" "global_flags hdr AND ZUPT_FLAG_SOLID = 0"
    and p: "map ix_path es = [[0x61], [0x62]]"
    and ne: "entries_nonempty example_reader f (global_flags hdr) (opt_keyring o') None 0 es"
    and ex: "zupt_extract_archive (\<lambda>_ _ _ _. None) example_reader example_output f example_options =
       Inr (es, [Some [1, 2, 3], Some [1, 2, 3]])"
  obtain ts where t: "zupt_test_archive_stream (\<lambda>_ _ _ _. None) example_reader (\<lambda>_. 0) f example_options = Inr ts"
    using g unfolding zupt_test_archive_stream_def op by (simp add: Let_def)
  have "set (map ix_path es) = {[0x61], [0x62]}" unfolding p by simp
  then have "ix_path e \<in> {[0x61], [0x62]}" if "e \<in> set es" for e using that by (metis image_eqI list.set_map)
  then have s: "\<forall>e \<in> set es. zupt_path_is_safe (ix_path e)" using example_paths_safe by fastforce
  have oe: "out_ok example_output" by (simp add: out_ok_def example_output_def)
  have a: "map (\<lambda>t. t = Inr ()) ts = map (\<lambda>x. x \<noteq> None) [Some [1, 2, 3 :: u8], Some [1, 2, 3]]"
    "test_status ts = Inr () \<longleftrightarrow> extract_status [Some [1, 2, 3 :: u8], Some [1, 2, 3]] = Inr ()"
    using test_agrees_with_extract [OF op t ex oe s g(1)] g(2) ne by blast+
  have "length ts = 2" using arg_cong [OF a(1), of length] by simp
  with a(2) f t show ?thesis by (intro exI [of _ f] exI [of _ ts]) (simp add: extract_status_def)
qed

end
