(* ===== verification/Solid.thy ===== *)
theory Solid
  imports Archive
begin

text \<open>
  The writer of solid archives (\<open>zupt_compress_solid\<close>): the inputs are concatenated into one
  buffer, the index records where each starts, and the buffer is cut into blocks that know
  nothing of the files. The theory ends with the round trip through the solid reader.
  As in the ordinary writer, inputs do not change while they are read, so the checks of their
  identities on disk do not fail.
\<close>

section \<open>Options and header\<close>

text \<open>Defaults as in the ordinary writer, then at least 512 KiB per block.\<close>

definition solid_options :: "write_env \<Rightarrow> zupt_options_t \<Rightarrow> zupt_options_t" where
  "solid_options we opts =
     (let opts = resolve_options we opts in
      if opt_block_size opts < 524288 then opts\<lparr>opt_block_size := 524288\<rparr> else opts)"

definition solid_header :: "write_env \<Rightarrow> zupt_options_t \<Rightarrow> zupt_archive_header_t" where
  "solid_header we opts =
     \<lparr>hdr_magic = zupt_magic, version_major = ZUPT_FORMAT_MAJOR, version_minor = ZUPT_FORMAT_MINOR,
      global_flags = ZUPT_FLAG_SOLID OR
        (if opt_encrypt opts then ZUPT_FLAG_ENCRYPTED OR ZUPT_FLAG_AAD_SEQ OR ZUPT_FLAG_AAD_PREFACE else 0),
      creation_time = we_time we, archive_id = gen_uuid (we_random_id we), encryption_header_off = 0,
      comment_offset = 0, hdr_reserved = replicate 12 0\<rparr>"

section \<open>The index of the concatenation\<close>

text \<open>First pass: sizes and positions; the result has the total size.\<close>

fun solid_index :: "input_file list \<Rightarrow> u64 \<Rightarrow> (zupt_index_entry_t list \<times> u64) result" where
  "solid_index [] tot = Inr ([], tot)"
| "solid_index (file # files) tot =
     (if length (in_content file) > 0x7FFFFFFFFFFFFFFF then Inl ZUPT_ERR_IO
      else
        let sz = word_of_nat (length (in_content file)) in
        if tot > 0xFFFFFFFFFFFFFFFF - sz then Inl ZUPT_ERR_OVERFLOW
        else
          rbind (solid_index files (tot + sz)) (\<lambda>(es, t).
          Inr (\<lparr>ix_path = take (ZUPT_MAX_PATH - 1) (in_arc_path file), ix_uncompressed_size = sz,
                ix_compressed_size = 0, ix_modification_time = in_mtime file, ix_content_hash = 0,
                ix_first_block_offset = tot, ix_block_count = 0, ix_attributes = 0\<rparr> # es, t)))"

text \<open>Second pass, over the filled buffer: the hash of every file that is not empty.\<close>

fun solid_hashes :: "bytes \<Rightarrow> u64 \<Rightarrow> zupt_index_entry_t list \<Rightarrow> zupt_index_entry_t list" where
  "solid_hashes buf cum [] = []"
| "solid_hashes buf cum (e # es) =
     (let sz = ix_uncompressed_size e in
      (if sz > 0 then e\<lparr>ix_content_hash := zupt_xxh64 (take (unat sz) (drop (unat cum) buf)) 0\<rparr> else e) #
      solid_hashes buf (cum + sz) es)"

section \<open>The blocks\<close>

text \<open>
  The codecs of the solid writer. Unlike the ordinary one, it hands the encoder the whole block
  buffer (\<open>cap\<close> bytes) and tries the plain form when the transformed one cannot be allocated;
  it has no branch for \<open>ZUPT_CODEC_ZUPT_LZ\<close>, whose blocks are stored.
\<close>

definition solid_lzhp :: "codec_env \<Rightarrow> nat \<Rightarrow> int \<Rightarrow> bytes \<Rightarrow> bytes" where
  "solid_lzhp ce cap level src =
     (let pred = zupt_predict_build (ce_table ce) src;
          lzh = zupt_lzh_compress (ce_lzh_pred ce) (zupt_predict_encode pred src) (cap - 257) level in
      if (ce_benefit ce src \<and> length src > 256) \<and> ce_transformed ce \<and> length lzh > 0 \<and> 257 + length lzh < length src
      then 0x01 # pred @ lzh
      else
        let plain = zupt_lzh_compress (ce_lzh ce) src (cap - 1) level in
        if length plain > 0 \<and> 1 + length plain < length src then 0x00 # plain else [])"

definition solid_vv :: "codec_env \<Rightarrow> nat \<Rightarrow> int \<Rightarrow> bytes \<Rightarrow> bytes" where
  "solid_vv ce cap level src =
     (if ce_vv_tmp ce then
        (case ce_vv ce src (ce_vv_bound ce (length src)) level of
           None \<Rightarrow> []
         | Some c \<Rightarrow> if length c > 0 \<and> length c < length src \<and> length c \<le> cap then c else [])
      else [])"

definition solid_chunk :: "codec_env \<Rightarrow> nat \<Rightarrow> u16 \<Rightarrow> int \<Rightarrow> bytes \<Rightarrow> u16 \<times> bytes" where
  "solid_chunk ce cap codec level src =
     (let c = (if codec = ZUPT_CODEC_ZUPT_LZHP then solid_lzhp ce cap level src
               else if codec = ZUPT_CODEC_ZUPT_LZH then zupt_lzh_compress (ce_lzh ce) src cap level
               else if codec = ZUPT_CODEC_VAPTVUPT then solid_vv ce cap level src
               else []) in
      if length c = 0 \<or> length c \<ge> length src then (ZUPT_CODEC_STORE, src) else (codec, c))"

text \<open>The loop over the buffer; \<open>k\<close> is the number of blocks written. All blocks count as those of
  one file, the first.\<close>

function solid_chunks ::
  "write_env \<Rightarrow> zupt_options_t \<Rightarrow> nat \<Rightarrow> nat \<Rightarrow> bytes \<Rightarrow> bytes \<Rightarrow> nat \<Rightarrow> (bytes \<times> nat) result" where
  "solid_chunks we opts bs cap rest out k =
     (if rest = [] \<or> bs = 0 then Inr (out, k)
      else
        let src = take bs rest;
            checksum = zupt_xxh64 src 0;
            (codec, p) = solid_chunk (we_codec we k) cap (opt_codec_id opts) (opt_level opts) src;
            aad_seq = push_bit 32 1 OR word_of_nat k in
        case seal_payload (we_mem we k) (we_nonce we k) (opt_encrypt opts) (opt_keyring opts) ZUPT_BLOCK_DATA codec
               (length src) p checksum aad_seq of
          None \<Rightarrow> Inl ZUPT_ERR_NOMEM
        | Some fp \<Rightarrow>
            solid_chunks we opts bs cap (drop bs rest) (out @ frame_block ZUPT_BLOCK_DATA codec (length src) checksum fp) (k + 1))"
  by pat_completeness auto
termination
  by (relation "measure (\<lambda>(_, _, _, _, rest, _, _). length rest)") auto

declare solid_chunks.simps [simp del]

section \<open>The writer\<close>

definition input_identity_sizeof :: nat where
  "input_identity_sizeof = 40"

text \<open>Comment, index, footer and trailer follow as in the ordinary writer, but the footer counts
  the index among the blocks and its checksum field stays zero.\<close>

definition finish_solid ::
  "write_env \<Rightarrow> zupt_options_t \<Rightarrow> zupt_archive_header_t \<Rightarrow> bytes \<Rightarrow> nat \<Rightarrow> zupt_index_entry_t list \<Rightarrow> bytes result" where
  "finish_solid we opts hdr out k es =
     finish_archive True we opts hdr
       \<lparr>cw_out = out, cw_dedup = None, cw_seq = k, cw_hash = 0, cw_comp = 0, cw_count = 0, cw_total = k\<rparr> es"

definition zupt_compress_solid :: "write_env \<Rightarrow> zupt_options_t \<Rightarrow> input_file list \<Rightarrow> bytes result" where
  "zupt_compress_solid we opts files =
     (if length files > ZUPT_MAX_INDEX_ALLOC_BYTES div index_entry_sizeof then Inl ZUPT_ERR_OVERFLOW
      else
        rbind (zupt_validate_archive_destinations (we_alloc we) (map in_arc_path files) True) (\<lambda>_.
        let opts = solid_options we opts;
            bs = unat (opt_block_size opts);
            block_cap = zupt_lzh_bound bs + 512 in
        rbind (enc_phase we (solid_header we opts) opts) (\<lambda>(out, hdr, opts).
        if \<not> we_alloc we (length files * (index_entry_sizeof + input_identity_sizeof)) then Inl ZUPT_ERR_NOMEM
        else
          rbind (solid_index files 0) (\<lambda>(es, tot).
          if \<not> we_alloc we (if tot = 0 then 1 else unat tot) then Inl ZUPT_ERR_NOMEM
          else
            let solid_buf = concat (map in_content files);
                es = solid_hashes solid_buf 0 es in
            if \<not> we_alloc we block_cap then Inl ZUPT_ERR_NOMEM
            else
              rbind (solid_chunks we opts bs block_cap solid_buf out 0) (\<lambda>(out, k).
              finish_solid we opts hdr out k es)))))"

section \<open>What the blocks decode to\<close>

lemma lzh_within:
  assumes "zupt_lzh_compress al x n level \<noteq> []" "lzh_mem al" "length x \<le> ZUPT_MAX_BLOCK_SZ" "length x \<le> n"
  shows "zupt_lzh_decompress True True (zupt_lzh_compress al x n level) (length x) = x"
  using assms by (intro lzh_roundtrip) (auto simp: lzh_mem_def ZUPT_MAX_BLOCK_SZ_def)

lemma lzhp_predicted_decodes:
  assumes "zupt_lzh_compress al' (zupt_predict_encode p x) n level \<noteq> []" "lzh_mem al'" "p = zupt_predict_build t x"
    "length x \<le> ZUPT_MAX_BLOCK_SZ" "length x \<le> n" "block_mem al"
  shows "decode_lzhp al (0x01 # p @ zupt_lzh_compress al' (zupt_predict_encode p x) n level) (length x) = Inr x"
  using lzh_within [OF assms(1,2)] assms(1,3-6) by (simp add: decode_lzhp_def block_mem_def Let_def)

lemma lzhp_plain_decodes:
  assumes "zupt_lzh_compress al' x n level \<noteq> []" "lzh_mem al'" "length x \<le> ZUPT_MAX_BLOCK_SZ" "length x \<le> n" "block_mem al"
  shows "decode_lzhp al (0x00 # zupt_lzh_compress al' x n level) (length x) = Inr x"
  using lzh_within [OF assms(1-4)] assms(1,5) by (simp add: decode_lzhp_def block_mem_def)

lemma decode_solid_chunk:
  assumes "solid_chunk ce cap codec level x = (c, p)" "codec_mem ce" "block_mem al"
    "length x \<le> ZUPT_MAX_BLOCK_SZ" "own_decoder codec ce vvz" "length x + 257 \<le> cap"
  shows "decode_payload al vvz c p (length x) = Inr x"
proof -
  have mem: "lzh_mem (ce_lzh_pred ce)" "lzh_mem (ce_lzh ce)" using assms(2) by (simp_all add: codec_mem_def)
  have cap: "length x \<le> cap - 257" "length x \<le> cap - 1" "length x \<le> cap" using assms(6) by simp_all
  consider "c = ZUPT_CODEC_STORE" "p = x"
    | "c = ZUPT_CODEC_ZUPT_LZHP" "p = solid_lzhp ce cap level x" "p \<noteq> []"
    | "c = ZUPT_CODEC_ZUPT_LZH" "p = zupt_lzh_compress (ce_lzh ce) x cap level" "p \<noteq> []"
    | "c = ZUPT_CODEC_VAPTVUPT" "codec = c" "p = solid_vv ce cap level x" "p \<noteq> []"
    using assms(1) by (auto simp: solid_chunk_def Let_def split: if_splits)
  then show ?thesis
  proof cases
    case 1
    then show ?thesis by (simp add: decode_payload_def)
  next
    case 2
    then have "decode_lzhp al p (length x) = Inr x"
      using lzhp_predicted_decodes [OF _ mem(1) refl assms(4) cap(1) assms(3)]
        lzhp_plain_decodes [OF _ mem(2) assms(4) cap(2) assms(3)]
      by (simp add: solid_lzhp_def Let_def split: if_splits)
    then show ?thesis using 2(1) by (simp add: decode_payload_def)
  next
    case 3
    then show ?thesis using lzh_within [OF _ mem(2) assms(4) cap(3)] assms(3) by (simp add: decode_payload_def block_mem_def)
  next
    case 4
    then have "ce_vv ce x (ce_vv_bound ce (length x)) level = Some p"
      by (auto simp: solid_vv_def split: if_splits option.splits)
    then show ?thesis using vv_chunk 4 assms(5) by blast
  qed
qed

lemma solid_chunk_length: "solid_chunk ce cap codec level x = (c, p) \<Longrightarrow> length p \<le> length x"
  by (auto simp: solid_chunk_def Let_def split: if_splits)

text \<open>One step of the loop: the block it appends.\<close>

lemma solid_chunks_cons:
  assumes "solid_chunks we opts bs cap rest out k = Inr (out', k')" "rest \<noteq> []" "0 < bs"
  obtains c p fp where "solid_chunk (we_codec we k) cap (opt_codec_id opts) (opt_level opts) (take bs rest) = (c, p)"
    "seal_payload (we_mem we k) (we_nonce we k) (opt_encrypt opts) (opt_keyring opts) ZUPT_BLOCK_DATA c
       (length (take bs rest)) p (zupt_xxh64 (take bs rest) 0) (push_bit 32 1 OR word_of_nat k) = Some fp"
    "solid_chunks we opts bs cap (drop bs rest)
       (out @ frame_block ZUPT_BLOCK_DATA c (length (take bs rest)) (zupt_xxh64 (take bs rest) 0) fp) (k + 1) = Inr (out', k')"
proof -
  obtain c p where cp: "solid_chunk (we_codec we k) cap (opt_codec_id opts) (opt_level opts) (take bs rest) = (c, p)" by fastforce
  have n: "\<not> (rest = [] \<or> bs = 0)" using assms(2,3) by simp
  from assms(1) have "\<exists>fp. seal_payload (we_mem we k) (we_nonce we k) (opt_encrypt opts) (opt_keyring opts) ZUPT_BLOCK_DATA c
       (length (take bs rest)) p (zupt_xxh64 (take bs rest) 0) (push_bit 32 1 OR word_of_nat k) = Some fp \<and>
     solid_chunks we opts bs cap (drop bs rest)
       (out @ frame_block ZUPT_BLOCK_DATA c (length (take bs rest)) (zupt_xxh64 (take bs rest) 0) fp) (k + 1) = Inr (out', k')"
    by (subst (asm) solid_chunks.simps) (simp only: if_not_P [OF n] Let_def cp prod.case split: option.splits, simp_all)
  with cp that show ?thesis by blast
qed

lemma solid_chunks_done: "solid_chunks we opts bs cap [] out k = Inr (out, k)"
  by (simp add: solid_chunks.simps)

lemma frame_not_empty: "0 < length (frame_block bt c n ck fp)"
  by (simp add: frame_block_eq write_block_def write_preface_def zupt_w8_def)

text \<open>The file grows by at least a byte per block, and by at most a hundred bytes per byte of input.\<close>

lemma solid_chunks_grow:
  assumes "0 < bs"
  shows "solid_chunks we opts bs cap rest out k = Inr (out', k') \<Longrightarrow> \<forall>j. length (we_nonce we j) = 16 \<Longrightarrow>
    (\<exists>y. out' = out @ y \<and> k' - k \<le> length y \<and> length y \<le> 100 * length rest) \<and> k \<le> k'"
  using assms
proof (induction we opts bs cap rest out k rule: solid_chunks.induct)
  case (1 we opts bs cap rest out k)
  show ?case
  proof (cases "rest = []")
    case True
    with 1(2) show ?thesis by (simp add: solid_chunks_done)
  next
    case False
    obtain c p fp where s: "solid_chunk (we_codec we k) cap (opt_codec_id opts) (opt_level opts) (take bs rest) = (c, p)"
      "seal_payload (we_mem we k) (we_nonce we k) (opt_encrypt opts) (opt_keyring opts) ZUPT_BLOCK_DATA c
         (length (take bs rest)) p (zupt_xxh64 (take bs rest) 0) (push_bit 32 1 OR word_of_nat k) = Some fp"
      "solid_chunks we opts bs cap (drop bs rest)
         (out @ frame_block ZUPT_BLOCK_DATA c (length (take bs rest)) (zupt_xxh64 (take bs rest) 0) fp) (k + 1) = Inr (out', k')"
      by (rule solid_chunks_cons [OF 1(2) False 1(4)])
    let ?fr = "frame_block ZUPT_BLOCK_DATA c (length (take bs rest)) (zupt_xxh64 (take bs rest) 0) fp"
    have n: "\<not> (rest = [] \<or> bs = 0)" using False 1(4) by simp
    from 1(1) [OF n refl refl s(1) [symmetric] refl refl s(2) s(3) 1(3,4)]
    obtain y where y: "out' = (out @ ?fr) @ y" "k' - (k + 1) \<le> length y" "length y \<le> 100 * length (drop bs rest)" "k + 1 \<le> k'"
      by blast
    have "length ?fr \<le> 83 + length p" using length_sealed_frame [OF s(2)] 1(3) by blast
    moreover have "length p \<le> length (take bs rest)" by (rule solid_chunk_length [OF s(1)])
    moreover have "length rest = length (take bs rest) + length (drop bs rest)" by simp
    moreover have "0 < length (take bs rest)" using n by simp
    moreover have "0 < length ?fr" by (rule frame_not_empty)
    ultimately have "k' - k \<le> length (?fr @ y)" "length (?fr @ y) \<le> 100 * length rest" "k \<le> k'"
      using y(2-4) unfolding length_append by linarith+
    with y(1) show ?thesis by auto
  qed
qed

section \<open>The reader's loop over the blocks\<close>

lemma solid_chunks_read:
  assumes ok: "\<forall>j. length (we_nonce we j) = 16" "read_ok env"
    "codecs_ok we opts env" "active (opt_keyring opts) = opt_encrypt opts"
    and bs: "0 < bs" "bs \<le> ZUPT_MAX_BLOCK_SZ" "bs + 257 \<le> cap"
    and f: "covers f out'"
  shows "solid_chunks we opts bs cap rest out k = Inr (out', k') \<Longrightarrow> 64 \<le> length out \<Longrightarrow> length buf + length rest \<le> tot \<Longrightarrow>
    solid_blocks env f (opt_keyring opts) tot (length out') (length out) buf (word_of_nat k) = Some (buf @ rest, word_of_nat k')"
  using ok(1,3,4) bs f
proof (induction we opts bs cap rest out k arbitrary: buf rule: solid_chunks.induct)
  case (1 we opts bs cap rest out k)
  have nonce: "\<forall>j. length (we_nonce we j) = 16" using 1(5) by blast
  show ?case
  proof (cases "rest = []")
    case True
    with 1(2) show ?thesis by (simp add: solid_chunks_done solid_blocks.simps)
  next
    case False
    let ?x = "take bs rest"
    obtain c p fp where s: "solid_chunk (we_codec we k) cap (opt_codec_id opts) (opt_level opts) ?x = (c, p)"
      "seal_payload (we_mem we k) (we_nonce we k) (opt_encrypt opts) (opt_keyring opts) ZUPT_BLOCK_DATA c
         (length ?x) p (zupt_xxh64 ?x 0) (push_bit 32 1 OR word_of_nat k) = Some fp"
      "solid_chunks we opts bs cap (drop bs rest) (out @ frame_block ZUPT_BLOCK_DATA c (length ?x) (zupt_xxh64 ?x 0) fp) (k + 1) =
         Inr (out', k')"
      by (rule solid_chunks_cons [OF 1(2) False 1(8)])
    let ?b = "frame_of ZUPT_BLOCK_DATA c (length ?x) (zupt_xxh64 ?x 0) fp"
    let ?out = "out @ write_block ?b"
    have n: "\<not> (rest = [] \<or> bs = 0)" using False 1(8) by simp
    obtain y where y: "out' = ?out @ y"
      using solid_chunks_grow [OF 1(8) s(3) nonce] by (auto simp: frame_block_eq)
    have bl: "length ?x \<le> ZUPT_MAX_BLOCK_SZ" using 1(9) by simp
    have d: "data_block env (opt_keyring opts) (push_bit 32 1 OR word_of_nat k) ?x ?b"
    proof (rule written_block [OF _ solid_chunk_length [OF s(1)] s(2) _ bl ok(2) 1(7)])
      show "decode_payload al (re_vvz env) c p (length ?x) = Inr ?x" if "block_mem al" for al
        using 1(5,6,10) that bl by (intro decode_solid_chunk [OF s(1)]) (auto simp: codecs_ok_def)
      show "length (we_nonce we k) = 16" using nonce by blast
    qed
    have rd: "read_block_at (re_alloc env) f (length out) = Inr (?b, length ?out)"
      using d 1(3,11) covers_append [of f ?out y] y by (intro read_block_at_next) (auto simp: data_block_def)
    have lt: "length out < length out'" using frame_not_empty [of ZUPT_BLOCK_DATA c "length ?x" "zupt_xxh64 ?x 0" fp]
      by (simp add: y frame_block_eq)
    have IH: "solid_blocks env f (opt_keyring opts) tot (length out') (length ?out) (buf @ ?x) (word_of_nat (k + 1)) =
      Some ((buf @ ?x) @ drop bs rest, word_of_nat k')"
      using 1(1) [OF n refl refl s(1) [symmetric] refl refl s(2) s(3) _ _ 1(5-11), of "buf @ ?x"] 1(3,4) frame_block_eq by simp
    have "length ?x \<le> length rest" by simp
    then have room: "\<not> length ?x > tot - length buf" using 1(4) by linarith
    show ?thesis
      using lt rd d IH room
      by (subst solid_blocks.simps) (simp add: data_block_def frame_of_def add.commute)
  qed
qed

section \<open>The index and the buffer\<close>

lemma solid_hashes_fields:
  "map ix_path (solid_hashes buf cum es) = map ix_path es"
  "map ix_uncompressed_size (solid_hashes buf cum es) = map ix_uncompressed_size es"
  by (induction es arbitrary: cum) (auto simp: Let_def)

lemma solid_total_sizes:
  "map ix_uncompressed_size es = map ix_uncompressed_size es' \<Longrightarrow> solid_total es tot = solid_total es' tot"
proof (induction es arbitrary: es' tot)
  case (Cons e es)
  then show ?case by (cases es') auto
qed simp

lemma solid_index_paths:
  "solid_index files tot = Inr (es, t) \<Longrightarrow> map ix_path es = map (\<lambda>file. take (ZUPT_MAX_PATH - 1) (in_arc_path file)) files"
  by (induction files arbitrary: tot es t) (auto simp: Let_def rbind_Inr_iff split: if_splits)

lemma max_minus: "unat (0xFFFFFFFFFFFFFFFF - (s :: u64)) = 2 ^ 64 - 1 - unat s"
  using unat_sub [of s "0xFFFFFFFFFFFFFFFF"] unat_lt2p [of s] by (simp add: word_le_nat_alt)

lemma overflow_swap: "tot > 0xFFFFFFFFFFFFFFFF - (s :: u64) \<longleftrightarrow> s > 0xFFFFFFFFFFFFFFFF - tot"
  unfolding word_less_nat_alt max_minus using unat_lt2p [of s] unat_lt2p [of tot] by simp linarith

text \<open>The sum of two sizes that the writer found not to overflow.\<close>

lemma unat_add_size:
  assumes "\<not> tot > 0xFFFFFFFFFFFFFFFF - (s :: u64)"
  shows "unat (tot + s) = unat tot + unat s"
proof -
  have "unat tot \<le> 2 ^ 64 - 1 - unat s" using assms unfolding word_less_nat_alt max_minus by simp
  then show ?thesis using unat_lt2p [of s] by (simp add: unat_word_ariths)
qed

lemma solid_index_cons:
  assumes "solid_index (file # files) tot = Inr (es, t)"
  obtains es' where "length (in_content file) < 2 ^ 63" "unat (tot + word_of_nat (length (in_content file))) = unat tot + length (in_content file)"
    "\<not> tot > 0xFFFFFFFFFFFFFFFF - word_of_nat (length (in_content file))"
    "solid_index files (tot + word_of_nat (length (in_content file))) = Inr (es', t)"
    "es = \<lparr>ix_path = take (ZUPT_MAX_PATH - 1) (in_arc_path file), ix_uncompressed_size = word_of_nat (length (in_content file)),
                ix_compressed_size = 0, ix_modification_time = in_mtime file, ix_content_hash = 0,
                ix_first_block_offset = tot, ix_block_count = 0, ix_attributes = 0\<rparr> # es'"
proof -
  let ?s = "word_of_nat (length (in_content file)) :: u64"
  have l: "\<not> length (in_content file) > 0x7FFFFFFFFFFFFFFF" and g: "\<not> tot > 0xFFFFFFFFFFFFFFFF - ?s"
    using assms by (auto simp: Let_def rbind_Inr_iff split: if_splits)
  have u: "unat ?s = length (in_content file)" using l by (intro unat_small) simp
  show ?thesis
    using assms l g that unat_add_size [OF g] u by (auto simp: Let_def rbind_Inr_iff)
qed

lemma solid_index_total: "solid_index files tot = Inr (es, t) \<Longrightarrow>
   solid_total es tot = Some t \<and> output_quota 0 es tot \<and> unat t = unat tot + (\<Sum>file\<leftarrow>files. length (in_content file))"
proof (induction files arbitrary: tot es)
  case (Cons inp files)
  from Cons.prems show ?case
  proof (rule solid_index_cons)
    fix es'
    assume a: "unat (tot + word_of_nat (length (in_content inp))) = unat tot + length (in_content inp)"
      "\<not> tot > 0xFFFFFFFFFFFFFFFF - word_of_nat (length (in_content inp))"
      "es = \<lparr>ix_path = take (ZUPT_MAX_PATH - 1) (in_arc_path inp), ix_uncompressed_size = word_of_nat (length (in_content inp)),
                ix_compressed_size = 0, ix_modification_time = in_mtime inp, ix_content_hash = 0,
                ix_first_block_offset = tot, ix_block_count = 0, ix_attributes = 0\<rparr> # es'"
    assume "solid_index files (tot + word_of_nat (length (in_content inp))) = Inr (es', t)"
    from Cons.IH [OF this] a show ?thesis by (simp add: overflow_swap [of tot])
  qed
qed simp

lemma output_quota_sizes:
  "map ix_uncompressed_size es = map ix_uncompressed_size es' \<Longrightarrow> output_quota l es tot = output_quota l es' tot"
proof (induction es arbitrary: es' tot)
  case (Cons e es)
  then show ?case by (cases es') auto
qed simp

lemma solid_entries:
  assumes "out_ok oe" "unat t = length buf"
  shows "solid_index files tot = Inr (es, t) \<Longrightarrow> buf = pre @ concat (map in_content files) \<Longrightarrow> length pre = unat tot \<Longrightarrow>
    \<forall>file \<in> set files. zupt_path_is_safe (take (ZUPT_MAX_PATH - 1) (in_arc_path file)) \<Longrightarrow>
    map (\<lambda>(i, e). extract_solid_entry oe buf t i e) (List.enumerate n (solid_hashes buf tot es)) =
      map (\<lambda>file. Some (in_content file)) files"
proof (induction files arbitrary: tot es n pre)
  case (Cons inp files)
  let ?x = "in_content inp"
  let ?s = "word_of_nat (length ?x) :: u64"
  obtain es' where s: "length ?x < 2 ^ 63" "unat (tot + ?s) = unat tot + length ?x"
    "solid_index files (tot + ?s) = Inr (es', t)"
    "es = \<lparr>ix_path = take (ZUPT_MAX_PATH - 1) (in_arc_path inp), ix_uncompressed_size = ?s,
                ix_compressed_size = 0, ix_modification_time = in_mtime inp, ix_content_hash = 0,
                ix_first_block_offset = tot, ix_block_count = 0, ix_attributes = 0\<rparr> # es'"
    by (rule solid_index_cons [OF Cons.prems(1)]) blast
  have us: "unat ?s = length ?x" using s(1) by (intro unat_small) simp
  have p: "length (pre @ ?x) = unat (tot + ?s)" using Cons.prems(3) s(2) by simp
  have c: "take (length ?x) (drop (unat tot) buf) = ?x" using Cons.prems(2,3) by simp
  have "unat tot + length ?x \<le> unat t" using Cons.prems(2,3) assms(2) by simp
  then have g: "tot \<le> t" "?s \<le> t - tot" using us by (simp_all add: word_le_nat_alt unat_sub)
  have o: "oe_create oe n" "oe_write oe n = (\<lambda>_. True)" "oe_publish oe n" using assms(1) by (simp_all add: out_ok_def)
  have z: "?s = 0 \<longrightarrow> ?x = []" using us by auto
  have "extract_solid_entry oe buf t n (hd (solid_hashes buf tot es)) = Some ?x"
    using g c o us z Cons.prems(4) unfolding s(4)
    by (auto simp: extract_solid_entry_def Let_def not_less)
  with Cons.IH [OF s(3) _ p, of "Suc n"] Cons.prems(2,4) show ?case
    by (simp add: s(4) Let_def)
qed simp

section \<open>Round trip\<close>

lemma solid_flags:
  fixes we opts
  defines "g \<equiv> global_flags (solid_header we opts)"
  shows "header_flags_consistent g" "g AND ZUPT_FLAG_DISK_IMAGE = 0" "g AND ZUPT_FLAG_SOLID \<noteq> 0"
    "g AND ZUPT_FLAG_ENCRYPTED \<noteq> 0 \<longleftrightarrow> opt_encrypt opts" "g AND ZUPT_FLAG_AAD_PREFACE \<noteq> 0 \<longleftrightarrow> opt_encrypt opts"
  by (cases "opt_encrypt opts"; simp add: g_def solid_header_def header_flags_consistent_def Let_def)+

lemma solid_header_fields:
  "length (we_random_id we) = 16 \<Longrightarrow> header_wf (solid_header we opts)"
  "hdr_magic (solid_header we opts) = zupt_magic" "version_major (solid_header we opts) = 1"
  "comment_offset (solid_header we opts) = 0"
  by (simp_all add: solid_header_def header_wf_def gen_uuid_def zupt_magic_def)

lemma solid_options_fields:
  "opt_encrypt (solid_options we opts) = opt_encrypt opts" "opt_password (solid_options we opts) = opt_password opts"
  "opt_keyring (solid_options we opts) = (if opt_encrypt opts then (opt_keyring opts)\<lparr>use_preface_aad := True\<rparr> else opt_keyring opts)"
  "password_mode we (solid_options we opts) = password_mode we opts" "0 < unat (opt_block_size (solid_options we opts))"
  using resolve_options_fields(6) [of we opts]
  by (simp_all add: solid_options_def resolve_options_fields Let_def)
     (simp_all add: password_mode_def enc_header_type_def resolve_options_def Let_def)

lemma compress_solid_Inr:
  assumes "zupt_compress_solid we wopts files = Inr f"
  obtains out hdr o2 es tot out' k where
    "length files \<le> ZUPT_MAX_INDEX_ALLOC_BYTES div index_entry_sizeof"
    "zupt_validate_archive_destinations (we_alloc we) (map in_arc_path files) True = Inr ()"
    "enc_phase we (solid_header we (solid_options we wopts)) (solid_options we wopts) = Inr (out, hdr, o2)"
    "solid_index files 0 = Inr (es, tot)"
    "solid_chunks we o2 (unat (opt_block_size (solid_options we wopts)))
       (zupt_lzh_bound (unat (opt_block_size (solid_options we wopts))) + 512) (concat (map in_content files)) out 0 = Inr (out', k)"
    "finish_solid we o2 hdr out' k (solid_hashes (concat (map in_content files)) 0 es) = Inr f"
  using assms that
  unfolding zupt_compress_solid_def Let_def
  by (auto simp: rbind_Inr_iff split: if_splits)

definition solid_setting ::
  "write_env \<Rightarrow> zupt_options_t \<Rightarrow> input_file list \<Rightarrow> read_env \<Rightarrow> out_env \<Rightarrow> zupt_options_t \<Rightarrow> bool" where
  "solid_setting we wopts files env oe ropts \<longleftrightarrow>
     (\<forall>k. length (we_nonce we k) = 16) \<and> codecs_ok we (solid_options we wopts) env \<and> lzh_mem (we_index we) \<and>
     length (we_random_id we) = 16 \<and> read_ok env \<and> out_ok oe \<and>
     unat (opt_block_size (solid_options we wopts)) \<le> ZUPT_MAX_BLOCK_SZ \<and>
     opt_keyring wopts = zupt_keyring_init \<and> opt_keyring ropts = zupt_keyring_init \<and>
     (opt_encrypt wopts \<longrightarrow> password_mode we wopts \<and> opt_password ropts = opt_password wopts) \<and>
     opt_max_output_size ropts = 0 \<and>
     (\<forall>file \<in> set files. zupt_path_is_safe (in_arc_path file) \<and> 0 \<notin> set (in_arc_path file)) \<and>
     (\<Sum>file\<leftarrow>files. length (in_content file)) < 2 ^ 55 \<and>
     10 + (\<Sum>file\<leftarrow>files. length (in_arc_path file) + 64) \<le> ZUPT_MAX_BLOCK_SZ"

lemma safe_path_fits: "zupt_path_is_safe p \<Longrightarrow> take (ZUPT_MAX_PATH - 1) p = p"
  by (auto simp: zupt_path_is_safe_def ZUPT_MAX_PATH_def split: if_splits)

text \<open>The reader of the blocks, from the position behind the encryption header.\<close>

lemma solid_reader:
  assumes tot: "solid_total es 0 = Some tot" "unat tot = length buf"
    and enc: "global_flags hdr' AND ZUPT_FLAG_ENCRYPTED \<noteq> 0 \<longleftrightarrow> en"
      "if en then \<exists>b. drop 64 out = write_block b \<and> block_wf (re_alloc env) b else drop 64 out = []"
    and out: "64 \<le> length out" "out' = out @ y" "covers f out'" "length out' < 2 ^ 63" "k \<le> length y"
    and ft: "ft = make_footer (length (out' @ cf)) (k + (if cf = [] then 0 else 1) + 1) e"
    and cm: "(cf = [] \<and> comment_offset hdr' = 0) \<or> (cf \<noteq> [] \<and> comment_offset hdr' = word_of_nat (length out'))"
    and env: "read_ok env"
    and blocks: "solid_blocks env f kr (length buf) (length out') (length out) [] 0 = Some (buf, word_of_nat k)"
  shows "extract_solid env oe f hdr' ft kr es =
    (if length buf > 4 * 1024 * 1024 * 1024 then Inl ZUPT_ERR_OVERFLOW
     else Inr (map (\<lambda>(i, e). extract_solid_entry oe buf tot i e) (List.enumerate 0 es)))"
proof -
  have al: "re_alloc env n" for n using env by (simp add: read_ok_def)
  have pos: "(if global_flags hdr' AND ZUPT_FLAG_ENCRYPTED \<noteq> 0 then rbind (read_block_at (re_alloc env) f 64) (\<lambda>(_, pos). Inr pos)
                   else Inr 64) = Inr (length out)"
  proof (cases en)
    case True
    then obtain b where b: "drop 64 out = write_block b" "block_wf (re_alloc env) b" using enc(2) by auto
    have o: "out = take 64 out @ write_block b" using b(1) append_take_drop_id [of 64 out] by simp
    have "covers f out" using out(1-3) covers_append by blast
    with read_block_at_next [of f "take 64 out" b] b o out(1) have "read_block_at (re_alloc env) f 64 = Inr (b, length out)"
      by (metis length_take min.absorb2 order_refl)
    with True enc(1) show ?thesis by simp
  next
    case False
    with enc out(1) show ?thesis by simp
  qed
  have lo: "unat (word_of_nat (length out') :: u64) = length out'" using out(4) by (intro unat_small) simp
  have de: "unat (if comment_offset hdr' \<noteq> 0 then comment_offset hdr' else index_offset ft) = length out'"
    using cm lo out(1,2) by (auto simp: ft make_footer_def)
  define meta :: u64 where "meta = (if comment_offset hdr' \<noteq> 0 then 2 else 1)"
  have nz: "(word_of_nat (length out') :: u64) \<noteq> 0" using lo out(1,2) by auto
  have m: "meta = word_of_nat ((if cf = [] then 0 else 1) + 1)" using cm nz by (auto simp: meta_def)
  have kb: "k + 2 < 2 ^ 64" using out(2,4,5) by simp
  have tb: "total_blocks ft = word_of_nat k + meta" by (simp add: ft make_footer_def m add.assoc)
  have "unat (word_of_nat k + meta) = k + unat meta"
  proof -
    have "unat meta \<le> 2" by (simp add: meta_def)
    moreover have "unat (word_of_nat k :: u64) = k" using kb by (intro unat_small) simp
    ultimately show ?thesis using kb by (simp add: unat_word_ariths)
  qed
  then have g: "\<not> total_blocks ft < meta" by (simp add: tb word_less_nat_alt)
  show ?thesis
    unfolding extract_solid_def tot(1) option.case Let_def al pos meta_def [symmetric] rbind_simps de tot(2) blocks
    using g by (simp add: tb al)
qed

lemma solid_archive_length:
  assumes w: "zupt_compress_solid we wopts files = Inr f" and s: "solid_setting we wopts files env oe ropts"
  shows "length f < 2 ^ 63"
proof -
  let ?o = "solid_options we wopts"
  note set = s [unfolded solid_setting_def]
  obtain out hdr o2 es tot out' k where
    enc: "enc_phase we (solid_header we ?o) ?o = Inr (out, hdr, o2)" and ix: "solid_index files 0 = Inr (es, tot)"
    and ch: "solid_chunks we o2 (unat (opt_block_size ?o)) (zupt_lzh_bound (unat (opt_block_size ?o)) + 512)
       (concat (map in_content files)) out 0 = Inr (out', k)"
    and fin: "finish_solid we o2 hdr out' k (solid_hashes (concat (map in_content files)) 0 es) = Inr f"
    by (rule compress_solid_Inr [OF w])
  have we: "\<forall>k. length (we_nonce we k) = 16" "lzh_mem (we_index we)" "length (we_random_id we) = 16" using set by blast+
  have pw: "opt_encrypt ?o \<longrightarrow> password_mode we ?o" using set by (simp add: solid_options_fields)
  note ep = enc_phase_length [OF enc solid_header_fields(1) [OF we(3)] pw]
  obtain y where y: "out' = out @ y" "length y \<le> 100 * length (concat (map in_content files))"
    using solid_chunks_grow [OF solid_options_fields(5) ch we(1)] by blast
  have lc: "length (concat (map in_content files)) = (\<Sum>file\<leftarrow>files. length (in_content file))"
    by (simp add: length_concat o_def)
  let ?es = "solid_hashes (concat (map in_content files)) 0 es"
  have "length (write_index ?es) \<le> 10 + (\<Sum>file\<leftarrow>files. length (take (ZUPT_MAX_PATH - 1) (in_arc_path file)) + 64)"
    using length_write_index_le [of ?es] unfolding solid_hashes_fields(1) solid_index_paths [OF ix] by (simp add: o_def)
  moreover have "(\<Sum>file\<leftarrow>files. length (take (ZUPT_MAX_PATH - 1) (in_arc_path file)) + 64) \<le>
      (\<Sum>file\<leftarrow>files. length (in_arc_path file) + 64)"
    by (rule sum_list_mono) simp
  moreover have "64 \<le> length out'" using ep y(1) by simp
  then have "length f \<le> length out' + length (write_index ?es) + 4326"
    using finish_archive_grows [OF fin [unfolded finish_solid_def] we(1,2)] ep by simp
  moreover have "10 + (\<Sum>file\<leftarrow>files. length (in_arc_path file) + 64) \<le> ZUPT_MAX_BLOCK_SZ"
    "(\<Sum>file\<leftarrow>files. length (in_content file)) < 2 ^ 55" using set by blast+
  ultimately show ?thesis using ep y lc by (simp add: ZUPT_MAX_BLOCK_SZ_def)
qed

lemma solid_extracts:
  assumes w: "zupt_compress_solid we wopts files = Inr f" and s: "solid_setting we wopts files env oe ropts"
  shows "\<exists>es. map ix_path es = map in_arc_path files \<and>
    zupt_extract_archive unwrap env oe f ropts =
      (if (\<Sum>file\<leftarrow>files. length (in_content file)) > 4 * 1024 * 1024 * 1024 then Inl ZUPT_ERR_OVERFLOW
       else Inr (es, map (\<lambda>file. Some (in_content file)) files))"
proof -
  let ?o = "solid_options we wopts"
  let ?bs = "unat (opt_block_size ?o)"
  define buf where "buf = concat (map in_content files)"
  note set = s [unfolded solid_setting_def]
  obtain out hdr o2 es0 tot out' k where
    lim: "length files \<le> ZUPT_MAX_INDEX_ALLOC_BYTES div index_entry_sizeof"
    and val: "zupt_validate_archive_destinations (we_alloc we) (map in_arc_path files) True = Inr ()"
    and enc: "enc_phase we (solid_header we ?o) ?o = Inr (out, hdr, o2)" and ix: "solid_index files 0 = Inr (es0, tot)"
    and ch: "solid_chunks we o2 ?bs (zupt_lzh_bound ?bs + 512) buf out 0 = Inr (out', k)"
    and fin: "finish_solid we o2 hdr out' k (solid_hashes buf 0 es0) = Inr f"
    unfolding buf_def by (rule compress_solid_Inr [OF w])
  define es where "es = solid_hashes buf 0 es0"
  note len = solid_archive_length [OF w s]
  have id: "length (we_random_id we) = 16" and env: "read_ok env" and oe: "out_ok oe" using set by blast+
  have nonce: "\<forall>k. length (we_nonce we k) = 16" and li: "lzh_mem (we_index we)" using set by blast+
  have safe: "\<forall>file \<in> set files. zupt_path_is_safe (in_arc_path file) \<and> 0 \<notin> set (in_arc_path file)" using set by blast
  have pw: "opt_encrypt ?o \<longrightarrow> password_mode we ?o \<and> opt_password ropts = opt_password ?o"
    using set by (simp add: solid_options_fields)
  have kr: "opt_keyring ?o = (if opt_encrypt ?o then zupt_keyring_init\<lparr>use_preface_aad := True\<rparr> else zupt_keyring_init)"
    "opt_keyring ropts = zupt_keyring_init" using set by (simp_all add: solid_options_fields)
  note sf = solid_flags [where we = we and opts = ?o]
  note ep = enc_phase_ok [OF enc solid_header_fields(1) [OF id] solid_header_fields(2-4) sf(4) pw kr]
  have o2: "opt_encrypt o2 = opt_encrypt ?o" "opt_codec_id o2 = opt_codec_id ?o"
    using arg_cong [OF ep(8), of opt_encrypt] arg_cong [OF ep(8), of opt_codec_id] by simp_all
  obtain y where y: "out' = out @ y" "k \<le> length y" using solid_chunks_grow [OF solid_options_fields(5) ch nonce] by auto
  have lo: "64 \<le> length out'" and tk: "take 64 out' = zupt_serialize_archive_header hdr" using ep(6,7) by (simp_all add: y)
  define st where "st = \<lparr>cw_out = out', cw_dedup = None, cw_seq = k, cw_hash = 0, cw_comp = 0, cw_count = 0, cw_total = k\<rparr>"
  note fin' = fin [unfolded finish_solid_def, folded st_def es_def]
  have st: "cw_out st = out'" "cw_total st = k" by (simp_all add: st_def)
  have l63: "length out' < 2 ^ 63" using finish_archive_length [OF fin' ep(1)] lo len st by simp
  obtain hdr' cf b ft tb e where
    f: "f = zupt_serialize_archive_header hdr' @ drop 64 out' @ cf @ write_block b @ zupt_serialize_footer ft @
       zupt_format_ait_write hdr' ft (if opt_encrypt o2 then Some (opt_keyring o2) else None)"
    and ib: "index_frame o2 es b" and ft: "ft = make_footer (length (out' @ cf)) tb e" and wf': "header_wf hdr'"
    and tb: "tb = k + (if cf = [] then 0 else 1) + 1"
    and cm: "(cf = [] \<and> hdr' = hdr) \<or>
     (\<exists>cb cm. cf = write_block cb \<and> comment_frame o2 cm cb \<and> hdr' = hdr\<lparr>comment_offset := word_of_nat (length out')\<rparr>)"
    by (rule finish_archive_shape [OF fin' nonce li ep(1,2), unfolded st]) (use lo tk l63 in auto)
  have cov: "covers f out'" using finish_hdr_len [OF len f length_serialize_header [OF wf'] lo] by blast
  have hg: "global_flags hdr' = global_flags (solid_header we ?o)" "encryption_header_off hdr' = encryption_header_off hdr"
    "hdr_magic hdr' = zupt_magic" "version_major hdr' = 1" using cm ep(3-5) by auto
  note gf = sf [folded hg(1)]
  have es: "map ix_path es = map in_arc_path files" "map ix_uncompressed_size es = map ix_uncompressed_size es0"
    using safe safe_path_fits unfolding es_def solid_hashes_fields solid_index_paths [OF ix] by auto
  have al: "\<forall>n. re_alloc env n" using env by (simp add: read_ok_def)
  have va: "zupt_validate_archive_destinations (re_alloc env) (map ix_path es) False = Inr ()"
    unfolding es(1) by (rule destinations_reader [OF val al])
  have wl: "length (write_index es) \<le> ZUPT_MAX_BLOCK_SZ"
    using length_write_index_le [of es] set unfolding es(1) by (simp add: o_def)
  have d64: "drop 64 f = drop 64 out @ (y @ cf @ write_block b @ zupt_serialize_footer ft @
       zupt_format_ait_write hdr' ft (if opt_encrypt o2 then Some (opt_keyring o2) else None))"
    using length_serialize_header [OF wf'] ep(7) by (subst f) (simp add: y)
  from ep(10) [where unwrap = unwrap and pos = "length f" and h = hdr', OF env d64] hg(1,2) ep(3)
  obtain kr1 q where rd: "read_enc_header unwrap (re_alloc env) f (length f) hdr' ropts = Inr (ropts\<lparr>opt_keyring := kr1\<rparr>, q)"
    and kr1: "(if opt_encrypt o2 then kr1\<lparr>use_preface_aad := True\<rparr> else kr1) = opt_keyring o2"
    using o2(1) by auto
  have cmt: "(cf = [] \<and> comment_offset hdr' = 0) \<or>
      (\<exists>cb cm. cf = write_block cb \<and> comment_frame o2 cm cb \<and> comment_offset hdr' = word_of_nat (length out'))"
    using cm ep(2) by auto
  obtain o' pos where op: "open_archive unwrap (re_block env) (re_vvz env) (re_alloc env) f ropts = Inr (o', hdr', ft, es, pos)"
    and o': "opt_keyring o' = opt_keyring o2" "opt_max_output_size o' = opt_max_output_size ropts"
    using open_finished_parse [OF f refl ft ib wf' hg(3,4) gf(1) _ _ _ cmt lo len env _ wl rd kr1]
      parse_written_index [OF env inputs_index_ok [OF es(1) safe lim] va] gf ep(9) o2(1) by (auto simp: legacy_disk_index_def)
  note tot = solid_index_total [OF ix]
  have lb: "length buf = (\<Sum>file\<leftarrow>files. length (in_content file))" by (simp add: buf_def length_concat o_def)
  have tl: "unat tot = length buf" using tot lb by simp
  have st0: "solid_total es 0 = Some tot" "output_quota 0 es 0"
    using tot solid_total_sizes [OF es(2)] output_quota_sizes [OF es(2)] by simp_all
  have wb: "write_block cb \<noteq> []" for cb by (simp add: write_block_def write_preface_def zupt_w8_def)
  have cm': "(cf = [] \<and> comment_offset hdr' = 0) \<or> (cf \<noteq> [] \<and> comment_offset hdr' = word_of_nat (length out'))"
    using cmt wb by auto
  have bl: "solid_blocks env f (opt_keyring o2) (length buf) (length out') (length out) [] (word_of_nat 0) = Some ([] @ buf, word_of_nat k)"
    using set ep(9) o2 solid_options_fields(5) [of we wopts]
    by (intro solid_chunks_read [OF _ env _ _ _ _ _ cov ch ep(7)]) (auto simp: zupt_lzh_bound_def codecs_ok_def)
  have "extract_solid env oe f hdr' ft (opt_keyring o2) es =
    (if length buf > 4 * 1024 * 1024 * 1024 then Inl ZUPT_ERR_OVERFLOW
     else Inr (map (\<lambda>(i, e). extract_solid_entry oe buf tot i e) (List.enumerate 0 es)))"
    using solid_reader [OF st0(1) tl gf(4) ep(11) [OF env] ep(7) y(1) cov l63 y(2) ft [unfolded tb] cm' env] bl by simp
  moreover have "map (\<lambda>(i, e). extract_solid_entry oe buf tot i e) (List.enumerate 0 es) = map (\<lambda>file. Some (in_content file)) files"
    unfolding es_def using safe by (intro solid_entries [OF oe tl ix, of "[]"]) (simp_all add: buf_def safe_path_fits [simplified])
  ultimately show ?thesis
    using op o' gf(3) st0(2) set es(1) lb by (intro exI [of _ es]) (simp add: zupt_extract_archive_def)
qed


section \<open>The writer succeeds\<close>

lemma solid_chunks_total: "\<forall>k. we_mem we k \<Longrightarrow> \<exists>r. solid_chunks we opts bs cap rest out k = Inr r"
proof (induction we opts bs cap rest out k rule: solid_chunks.induct)
  case (1 we opts bs cap rest out k)
  show ?case
  proof (cases "rest = [] \<or> bs = 0")
    case False
    obtain c p where cp: "solid_chunk (we_codec we k) cap (opt_codec_id opts) (opt_level opts) (take bs rest) = (c, p)" by fastforce
    obtain fp where fp: "seal_payload (we_mem we k) (we_nonce we k) (opt_encrypt opts) (opt_keyring opts) ZUPT_BLOCK_DATA c
       (length (take bs rest)) p (zupt_xxh64 (take bs rest) 0) (push_bit 32 1 OR word_of_nat k) = Some fp"
      using seal_payload_total 1(2) by fastforce
    obtain r where "solid_chunks we opts bs cap (drop bs rest)
       (out @ frame_block ZUPT_BLOCK_DATA c (length (take bs rest)) (zupt_xxh64 (take bs rest) 0) fp) (k + 1) = Inr r"
      using 1(1) [OF False refl refl cp [symmetric] refl refl fp 1(2)] by blast
    then show ?thesis
      by (subst solid_chunks.simps) (simp only: if_not_P [OF False] Let_def cp prod.case fp option.case, blast)
  qed (simp add: solid_chunks.simps)
qed

lemma solid_index_ok:
  "unat tot + (\<Sum>file\<leftarrow>files. length (in_content file)) < 2 ^ 63 \<Longrightarrow> \<exists>r. solid_index files tot = Inr r"
proof (induction files arbitrary: tot)
  case (Cons inp files)
  let ?s = "word_of_nat (length (in_content inp)) :: u64"
  have l: "length (in_content inp) < 2 ^ 63" "unat ?s = length (in_content inp)"
    using Cons.prems unat_small [of "length (in_content inp)"] by simp_all
  have g: "\<not> tot > 0xFFFFFFFFFFFFFFFF - ?s"
    using Cons.prems l unfolding word_less_nat_alt max_minus by simp
  have "unat (tot + ?s) + (\<Sum>file\<leftarrow>files. length (in_content file)) < 2 ^ 63"
    using Cons.prems unat_add_size [OF g] l(2) by simp
  then obtain es t where "solid_index files (tot + ?s) = Inr (es, t)" using Cons.IH by fastforce
  with l(1) g show ?case by (simp add: Let_def)
qed simp

lemma compress_solid_total:
  assumes "write_mem we" "length files \<le> ZUPT_MAX_INDEX_ALLOC_BYTES div index_entry_sizeof"
    and "zupt_validate_archive_destinations (we_alloc we) (map in_arc_path files) True = Inr ()"
    and pw: "opt_encrypt wopts \<longrightarrow> password_mode we wopts" and id: "length (we_random_id we) = 16"
    and "(\<Sum>file\<leftarrow>files. length (in_content file)) < 2 ^ 63"
  shows "\<exists>f. zupt_compress_solid we wopts files = Inr f"
proof -
  let ?o = "solid_options we wopts"
  have m: "\<forall>k. we_mem we k" "\<And>n. we_alloc we n" using assms(1) by (simp_all add: write_mem_def)
  note wf = solid_header_fields(1) [OF id, of ?o]
  have "\<exists>p. enc_phase we (solid_header we ?o) ?o = Inr p"
    using pw write_enc_header_password [where we = we and opts = ?o, OF _ length_serialize_header [OF wf] wf]
    by (auto simp: enc_phase_def Let_def solid_options_fields)
  then obtain out hdr o2 where p: "enc_phase we (solid_header we ?o) ?o = Inr (out, hdr, o2)" by (metis prod_cases3)
  obtain es tot where i: "solid_index files 0 = Inr (es, tot)" using solid_index_ok [of 0 files] assms(6) by auto
  obtain out' k where c: "solid_chunks we o2 (unat (opt_block_size ?o)) (zupt_lzh_bound (unat (opt_block_size ?o)) + 512)
       (concat (map in_content files)) out 0 = Inr (out', k)" using solid_chunks_total [OF m(1)] by fastforce
  have nl: "\<not> length files > ZUPT_MAX_INDEX_ALLOC_BYTES div index_entry_sizeof" using assms(2) by simp
  show ?thesis
    unfolding zupt_compress_solid_def Let_def assms(3) rbind_simps if_not_P [OF nl] p prod.case i c
    using finish_archive_total [OF assms(1)] by (simp add: m finish_solid_def)
qed

section \<open>Properties\<close>

text \<open>
  C4. Solid archives come back, up to a size. A solid archive the writer produces, plain or under a
  password with a PBKDF2 header, with any codec, with or without a comment, opens with the names
  of the inputs in their order; extraction returns exactly their bytes when they are at most
  4 GiB together. Beyond 4 GiB the writer, which has no such limit, still reports success, and
  the archive it wrote is refused by extraction with an overflow error. Required
  (\<open>solid_setting\<close>) is what the ordinary round trip requires: memory for the code construction of
  the LZH encoder, with VaptVupt the block decoders of the writer's read-back check, and inputs
  within the limits of the format. Argon2id and key files are not covered.
\<close>

theorem solid_roundtrip:
  assumes "zupt_compress_solid we wopts files = Inr f" "solid_setting we wopts files env oe ropts"
  shows "\<exists>es. map ix_path es = map in_arc_path files \<and>
    zupt_extract_archive unwrap env oe f ropts =
      (if (\<Sum>file\<leftarrow>files. length (in_content file)) > 4 * 1024 * 1024 * 1024 then Inl ZUPT_ERR_OVERFLOW
       else Inr (es, map (\<lambda>file. Some (in_content file)) files))"
  by (rule solid_extracts [OF assms])

lemma example_solid: "\<exists>f. zupt_compress_solid example_writer example_options example_files = Inr f"
proof (rule compress_solid_total)
  show "opt_encrypt example_options \<longrightarrow> password_mode example_writer example_options" using example_password by blast
  show "zupt_validate_archive_destinations (we_alloc example_writer) (map in_arc_path example_files) True = Inr ()"
    by (rule example_destinations)
qed (simp_all add: write_mem_def example_writer_def index_limit example_files_def)

lemma example_solid_setting: "solid_setting example_writer example_options example_files example_reader example_output example_options"
proof -
  have o: "opt_codec_id (solid_options example_writer example_options) = ZUPT_CODEC_ZUPT_LZHP"
    "opt_block_size (solid_options example_writer example_options) = 524288"
    by (simp_all add: solid_options_def resolve_options_def example_options_def zupt_default_options_def example_writer_def Let_def
        auto_block_size_dedup_def)
  have "\<forall>file \<in> set example_files. zupt_path_is_safe (in_arc_path file) \<and> 0 \<notin> set (in_arc_path file)"
    by (simp add: example_files_def example_paths_safe)
  then show ?thesis
    using example_password
    by (simp add: solid_setting_def o ZUPT_MAX_BLOCK_SZ_def)
       (simp add: example_writer_def example_options_def example_files_def example_reader_def example_output_def
          zupt_default_options_def codecs_ok_def own_decoder_def re_vvz_def codec_mem_def lzh_mem_def example_env_def read_ok_def
          block_mem_def out_ok_def)
qed

theorem solid_roundtrip_witness:
  "\<exists>f es. zupt_compress_solid example_writer example_options example_files = Inr f \<and>
     map ix_path es = [[0x61], [0x62]] \<and>
     zupt_extract_archive (\<lambda>_ _ _ _. None) example_reader example_output f example_options =
       Inr (es, [Some [1, 2, 3], Some [1, 2, 3]])"
proof -
  obtain f where f: "zupt_compress_solid example_writer example_options example_files = Inr f" using example_solid by blast
  obtain es where "map ix_path es = map in_arc_path example_files"
    "zupt_extract_archive (\<lambda>_ _ _ _. None) example_reader example_output f example_options =
      (if (\<Sum>file\<leftarrow>example_files. length (in_content file)) > 4 * 1024 * 1024 * 1024 then Inl ZUPT_ERR_OVERFLOW
       else Inr (es, map (\<lambda>file. Some (in_content file)) example_files))"
    using solid_roundtrip [OF f example_solid_setting] by blast
  with f show ?thesis by (intro exI [of _ f] exI [of _ es]) (simp add: example_files_def)
qed

end
