(* ===== verification/Disk.thy ===== *)
theory Disk
  imports Solid TestArchive
begin

text \<open>
  Whole-disk backup and restore (\<open>src/zupt_disk.c\<close>). A backup is an archive with one entry, whose
  blocks are those of the device; a restore copies the archive to a private file, tests it there
  and only then opens and overwrites its target. Devices and files are their bytes; what the
  operating system says of the restore target is a parameter. The source is not modified while
  it is read, and its path is not that of the archive; when several allocations of a backup fail,
  the first failure gives the error.

  The theory proves the properties of the label, that the encodings are undone by the block
  decoder, that the three openings of a restore agree, and that restoring reads what testing and
  extracting read; from these, the round trip and the guarantee of the preflight.
\<close>

section \<open>The label of a backup\<close>

definition disk_label_reserved :: "bytes \<Rightarrow> bool" where
  "disk_label_reserved label =
     (let base = takeWhile (\<lambda>c. c \<noteq> 0x2E) label;
          upper = map (\<lambda>c. if c \<ge> 0x61 \<and> c \<le> 0x7A then c - 0x20 else c) base in
      if length base > 4 then False
      else if upper = [0x43, 0x4F, 0x4E] \<or> upper = [0x50, 0x52, 0x4E] \<or>
        upper = [0x41, 0x55, 0x58] \<or> upper = [0x4E, 0x55, 0x4C] then True
      else length base = 4 \<and> (take 3 upper = [0x43, 0x4F, 0x4D] \<or> take 3 upper = [0x4C, 0x50, 0x54]) \<and>
        upper ! 3 \<ge> 0x31 \<and> upper ! 3 \<le> 0x39)"

text \<open>What follows the last separator of either kind.\<close>

fun disk_leaf :: "bytes \<Rightarrow> bytes \<Rightarrow> bytes" where
  "disk_leaf leaf [] = leaf"
| "disk_leaf leaf (p # ps) = (if p = 0x2F \<or> p = 0x5C then disk_leaf ps ps else disk_leaf leaf ps)"

abbreviation (input) disk_image_raw :: bytes where
  "disk_image_raw \<equiv> [0x64, 0x69, 0x73, 0x6B, 0x2D, 0x69, 0x6D, 0x61, 0x67, 0x65, 0x2E, 0x72, 0x61, 0x77]"

definition disk_archive_label :: "bytes \<Rightarrow> bytes" where
  "disk_archive_label source =
     (let leaf = disk_leaf source source;
          safe = (length leaf > 0 \<and> length leaf < ZUPT_MAX_PATH \<and> leaf \<noteq> [0x2E] \<and> leaf \<noteq> [0x2E, 0x2E] \<and>
            leaf ! (length leaf - 1) \<noteq> 0x2E \<and> leaf ! (length leaf - 1) \<noteq> 0x20 \<and> \<not> disk_label_reserved leaf) \<and>
            \<not> list_ex (\<lambda>c. c < 0x20 \<or> c = 0x7F \<or> c = 0x3A) leaf in
      if safe then leaf else disk_image_raw)"

section \<open>The blocks of a backup\<close>

text \<open>Eight bytes at a time, then the rest.\<close>

definition block_is_zero :: "bytes \<Rightarrow> bool" where
  "block_is_zero buf =
     (let n64 = length buf div 8 in
      list_all (\<lambda>i. zupt_le64_get (drop (8 * i) buf) = 0) [0..<n64] \<and>
      list_all (\<lambda>i. buf ! i = 0) [n64 * 8..<length buf])"

text \<open>
  The choice of the encoding. The threshold of the benefit estimate (\<open>ce_benefit\<close>) is lower than in
  the other writers, and the encoders get the whole buffer of \<open>cap\<close> bytes.
\<close>

definition disk_lzhp :: "codec_env \<Rightarrow> nat \<Rightarrow> int \<Rightarrow> bytes \<Rightarrow> bytes" where
  "disk_lzhp ce cap level rbuf =
     (let plain = zupt_lzh_compress (ce_lzh ce) rbuf (cap - 1) level;
          stored = (if length plain > 0 \<and> 1 + length plain < length rbuf then 0x00 # plain else []) in
      if ce_benefit ce rbuf \<and> length rbuf > 256 then
        if ce_transformed ce then
          let pred = zupt_predict_build (ce_table ce) rbuf;
              lzh = zupt_lzh_compress (ce_lzh_pred ce) (zupt_predict_encode pred rbuf) (cap - 257) level in
          if length lzh > 0 \<and> 257 + length lzh < length rbuf then 0x01 # pred @ lzh else stored
        else []
      else stored)"

definition disk_chunk :: "codec_env \<Rightarrow> nat \<Rightarrow> u16 \<Rightarrow> int \<Rightarrow> bytes \<Rightarrow> u16 \<times> bytes" where
  "disk_chunk ce cap codec level rbuf =
     (if block_is_zero rbuf then (ZUPT_CODEC_STORE, rbuf)
      else
        let c = (if codec = ZUPT_CODEC_VAPTVUPT then
                   (case ce_vv ce rbuf cap level of None \<Rightarrow> []
                    | Some c \<Rightarrow> if length c > 0 \<and> length c < length rbuf then c else [])
                 else if codec = ZUPT_CODEC_ZUPT_LZHP then disk_lzhp ce cap level rbuf
                 else if codec = ZUPT_CODEC_ZUPT_LZH then zupt_lzh_compress (ce_lzh ce) rbuf cap level
                 else if codec = ZUPT_CODEC_ZUPT_LZ then
                   (case zupt_lz_compress (ce_lz ce) rbuf cap level of None \<Rightarrow> [] | Some c \<Rightarrow> c)
                 else []) in
        if length c = 0 \<or> length c \<ge> length rbuf then (ZUPT_CODEC_STORE, rbuf) else (codec, c))"

text \<open>A block of a disk is numbered by its place alone.\<close>

definition disk_block :: "write_env \<Rightarrow> zupt_options_t \<Rightarrow> nat \<Rightarrow> bytes \<Rightarrow> cw_state \<Rightarrow> cw_state result" where
  "disk_block we opts cap rbuf st =
     write_block_or_ref we opts (disk_chunk (we_codec we (cw_total st)) cap (opt_codec_id opts) (opt_level opts) rbuf)
       (word_of_nat (cw_seq st)) rbuf st"

section \<open>Backup\<close>

abbreviation (input) ZUPT_FLAG_MULTITHREADED :: u32 where "ZUPT_FLAG_MULTITHREADED \<equiv> 4"

definition ZUPT_MIN_BLOCK_SZ :: u32 where "ZUPT_MIN_BLOCK_SZ = 65536"

definition disk_options :: "write_env \<Rightarrow> zupt_options_t \<Rightarrow> zupt_options_t" where
  "disk_options we opts =
     (let opts = (if opt_block_size opts = 0 then opts\<lparr>opt_block_size := 4194304\<rparr> else opts);
          opts = (if opt_block_size opts < ZUPT_MIN_BLOCK_SZ then opts\<lparr>opt_block_size := ZUPT_MIN_BLOCK_SZ\<rparr> else opts);
          opts = (if opt_codec_id opts = ZUPT_CODEC_AUTO then opts\<lparr>opt_codec_id := we_auto_codec we\<rparr> else opts) in
      if opt_encrypt opts then opts\<lparr>opt_keyring := (opt_keyring opts)\<lparr>use_preface_aad := True\<rparr>\<rparr> else opts)"

definition disk_header :: "write_env \<Rightarrow> zupt_options_t \<Rightarrow> zupt_archive_header_t" where
  "disk_header we opts =
     \<lparr>hdr_magic = zupt_magic, version_major = ZUPT_FORMAT_MAJOR, version_minor = ZUPT_FORMAT_MINOR,
      global_flags = ZUPT_FLAG_DISK_IMAGE OR ZUPT_FLAG_DISK_CONTENT_HASH OR
        (if opt_encrypt opts then ZUPT_FLAG_ENCRYPTED OR ZUPT_FLAG_AAD_SEQ OR ZUPT_FLAG_AAD_PREFACE else 0) OR
        (if opt_threads opts > 1 then ZUPT_FLAG_MULTITHREADED else 0) OR
        (if opt_dedup opts then ZUPT_FLAG_DEDUP else 0) OR
        (if opt_dedup opts \<and> opt_encrypt opts then ZUPT_FLAG_AUTH_DEDUP_REFS else 0),
      creation_time = we_time we, archive_id = gen_uuid (we_random_id we), encryption_header_off = 0,
      comment_offset = 0, hdr_reserved = replicate 12 0\<rparr>"

definition disk_entry :: "bytes \<Rightarrow> u64 \<Rightarrow> nat \<Rightarrow> u64 \<Rightarrow> cw_state \<Rightarrow> zupt_index_entry_t" where
  "disk_entry source_path mtime src_size first_block_off st =
     \<lparr>ix_path = disk_archive_label source_path, ix_uncompressed_size = word_of_nat src_size,
      ix_compressed_size = cw_comp st, ix_modification_time = mtime, ix_content_hash = cw_hash st,
      ix_first_block_offset = first_block_off, ix_block_count = word_of_nat (cw_seq st), ix_attributes = 0\<rparr>"

text \<open>The index is never compressed, and the checksum of the footer is over the header.\<close>

definition disk_finish ::
  "write_env \<Rightarrow> zupt_options_t \<Rightarrow> zupt_archive_header_t \<Rightarrow> cw_state \<Rightarrow> zupt_index_entry_t \<Rightarrow> bytes result" where
  "disk_finish we opts hdr st e =
     (let idx_buf = write_index [e]; idx_ck = zupt_xxh64 idx_buf 0; k = cw_total st; index_off = length (cw_out st) in
      case seal_payload (we_mem we k) (we_nonce we k) (opt_encrypt opts) (opt_keyring opts) ZUPT_BLOCK_INDEX ZUPT_CODEC_STORE
             (length idx_buf) idx_buf idx_ck index_aad_seq of
        None \<Rightarrow> Inl ZUPT_ERR_NOMEM
      | Some fp \<Rightarrow>
          let out = cw_out st @ frame_block ZUPT_BLOCK_INDEX ZUPT_CODEC_STORE (length idx_buf) idx_ck fp;
              ft = \<lparr>index_offset = word_of_nat index_off, total_blocks = word_of_nat (cw_seq st),
                    archive_checksum = zupt_xxh64 (zupt_serialize_archive_header hdr) (word_of_nat (cw_seq st)),
                    footer_magic = ZEND, footer_version = 1\<rparr> in
          Inr (out @ zupt_serialize_footer ft @
            zupt_format_ait_write hdr ft (if opt_encrypt opts then Some (opt_keyring opts) else None)))"

text \<open>\<open>source\<close> holds the bytes of the device \<open>source_path\<close>; \<open>mtime\<close> is the clock at the end.\<close>

definition zupt_disk_backup :: "write_env \<Rightarrow> u64 \<Rightarrow> zupt_options_t \<Rightarrow> bytes \<Rightarrow> bytes \<Rightarrow> bytes result" where
  "zupt_disk_backup we mtime opts source_path source =
     (let src_size = length source in
      if src_size = 0 \<or> src_size > 0x7FFFFFFFFFFFFFFF then Inl ZUPT_ERR_IO
      else
        let opts = disk_options we opts;
            bs = unat (opt_block_size opts);
            required_blocks = src_size div bs + (if src_size mod bs \<noteq> 0 then 1 else 0) in
        if required_blocks > 0xFFFFFFFF then Inl ZUPT_ERR_OVERFLOW
        else
          rbind (enc_phase we (disk_header we opts) opts) (\<lambda>(out, hdr, opts).
          let comp_cap = max (ce_vv_bound (we_codec we 0) bs + 512) (zupt_lzh_bound bs + 512) in
          if \<not> we_alloc we bs \<or> \<not> we_alloc we comp_cap then Inl ZUPT_ERR_NOMEM
          else
            let first_block_off = word_of_nat (length out);
                dedup = (if opt_dedup opts then zupt_dedup_init (fst (we_dedup we)) (snd (we_dedup we)) else None) in
            if opt_dedup opts \<and> dedup = None then Inl ZUPT_ERR_NOMEM
            else
              rbind (write_chunks (disk_block we opts comp_cap) bs source
                  \<lparr>cw_out = out, cw_dedup = dedup, cw_seq = 0, cw_hash = 0, cw_comp = 0, cw_count = 0, cw_total = 0\<rparr>) (\<lambda>st.
              disk_finish we opts hdr st (disk_entry source_path mtime src_size first_block_off st))))"

section \<open>The restore target\<close>

text \<open>What opening the target without following a link tells: nothing there, a link, a failure, a
  file (the archive itself?, its links, whether it closes), a device (whether its flags can be set,
  its capacity if known) or anything else.\<close>

datatype restore_target =
    NoEntry
  | SymbolicLink
  | Unopenable
  | RegularFile bool nat bool
  | RawDevice bool "u64 option"
  | OtherKind

text \<open>\<open>Inr True\<close> is a file that is published at the end, \<open>Inr False\<close> a device written in place.\<close>

fun open_restore_target :: "bool \<Rightarrow> u64 \<Rightarrow> restore_target \<Rightarrow> bool result" where
  "open_restore_target atomic_ok expected_size NoEntry = (if atomic_ok then Inr True else Inl ZUPT_ERR_IO)"
| "open_restore_target atomic_ok expected_size SymbolicLink = Inl ZUPT_ERR_INVALID"
| "open_restore_target atomic_ok expected_size Unopenable = Inl ZUPT_ERR_IO"
| "open_restore_target atomic_ok expected_size (RegularFile same_as_archive links close_ok) =
     (if \<not> close_ok then Inl ZUPT_ERR_IO
      else if same_as_archive then Inl ZUPT_ERR_INVALID
      else if links \<noteq> 1 then Inl ZUPT_ERR_INVALID
      else if atomic_ok then Inr True else Inl ZUPT_ERR_IO)"
| "open_restore_target atomic_ok expected_size (RawDevice flags_ok capacity) =
     (if \<not> flags_ok then Inl ZUPT_ERR_IO
      else
        (case capacity of None \<Rightarrow> Inl ZUPT_ERR_IO
         | Some target_capacity \<Rightarrow> if expected_size > target_capacity then Inl ZUPT_ERR_IO else Inr False))"
| "open_restore_target atomic_ok expected_size OtherKind = Inl ZUPT_ERR_INVALID"

record target_env =
  te_snapshot :: bool
  te_target :: restore_target
  te_atomic :: bool
  te_write :: "nat \<Rightarrow> bool"
  te_close :: bool

section \<open>Restore\<close>

text \<open>The chunk of a reference, at the place \<open>seq\<close> of the disk.\<close>

definition restore_ref ::
  "read_env \<Rightarrow> bytes \<Rightarrow> u32 \<Rightarrow> zupt_keyring_t \<Rightarrow> zupt_legacy_disk_aad_map_t option \<Rightarrow> u64 \<Rightarrow>
     zupt_block_t \<Rightarrow> nat \<Rightarrow> bytes result" where
  "restore_ref env f gflags kr lmap seq blk cur =
     (let require_authentication = (gflags AND ZUPT_FLAG_AUTH_DEDUP_REFS \<noteq> 0) in
      rbind (zupt_dedup_read_ref (ba_plain (re_block env)) blk (Some kr) require_authentication
               (if require_authentication then seq else 0)) (\<lambda>(ref_off, rseq).
      rbind (case lmap of None \<Rightarrow> Inr rseq
             | Some m \<Rightarrow> (case zupt_legacy_disk_aad_map_lookup m ref_off of
                           None \<Rightarrow> Inl ZUPT_ERR_CORRUPT | Some s \<Rightarrow> Inr s)) (\<lambda>rseq.
      if unat ref_off \<ge> cur then Inl ZUPT_ERR_CORRUPT
      else
        rbind (read_block_at (re_alloc env) f (unat ref_off)) (\<lambda>(ref_blk, _).
        if block_type ref_blk \<noteq> ZUPT_BLOCK_DATA \<or> uncompressed_size ref_blk \<noteq> uncompressed_size blk \<or>
          checksum ref_blk \<noteq> checksum blk then Inl ZUPT_ERR_CORRUPT
        else decompress_block (re_block env) (re_vvz env) ref_blk (Some kr) rseq))))"

text \<open>
  The loop over \<open>n\<close> more blocks. The state is what was written, its size and hash, and the number of
  blocks; the last component is False when an error ended the loop. A block that cannot be
  written (\<open>wr\<close>) ends it too; how much of that block reached a device is left open.
\<close>

fun restore_blocks ::
  "read_env \<Rightarrow> (nat \<Rightarrow> bool) \<Rightarrow> bytes \<Rightarrow> u32 \<Rightarrow> zupt_keyring_t \<Rightarrow> zupt_legacy_disk_aad_map_t option \<Rightarrow> u64 \<Rightarrow>
     nat \<Rightarrow> nat \<Rightarrow> nat \<Rightarrow> bytes \<times> u64 \<times> u64 \<Rightarrow> (bytes \<times> u64 \<times> u64) \<times> nat \<times> bool" where
  "restore_blocks env wr f gflags kr lmap expected 0 seq pos st = (st, seq, True)"
| "restore_blocks env wr f gflags kr lmap expected (Suc n) seq pos st =
     (case read_block_at (re_alloc env) f pos of
        Inl _ \<Rightarrow> (st, seq, False)
      | Inr (blk, cur) \<Rightarrow>
          if block_type blk = ZUPT_BLOCK_INDEX then (st, seq, True)
          else
            let r = (if block_type blk = ZUPT_BLOCK_DEDUP_REF then restore_ref env f gflags kr lmap (word_of_nat seq) blk cur
                     else if block_type blk \<noteq> ZUPT_BLOCK_DATA then Inl ZUPT_ERR_CORRUPT
                     else decompress_block (re_block env) (re_vvz env) blk (Some kr) (word_of_nat seq)) in
            (case r of
               Inl _ \<Rightarrow> (st, seq, False)
             | Inr dec \<Rightarrow>
                 (case st of (content, total_written, hash) \<Rightarrow>
                    if total_written > expected \<or> word_of_nat (length dec) > expected - total_written \<or> \<not> wr seq
                    then (st, seq, False)
                    else restore_blocks env wr f gflags kr lmap expected n (seq + 1) cur
                           (content @ dec, total_written + word_of_nat (length dec), zupt_xxh64 dec hash))))"

text \<open>The map of the positions in an old encrypted archive with references.\<close>

definition restore_aad_map ::
  "read_env \<Rightarrow> bytes \<Rightarrow> u32 \<Rightarrow> zupt_index_entry_t \<Rightarrow> zupt_legacy_disk_aad_map_t option result" where
  "restore_aad_map env f gflags e =
     (if gflags AND ZUPT_FLAG_ENCRYPTED \<noteq> 0 \<and> gflags AND ZUPT_FLAG_DEDUP \<noteq> 0 \<and> gflags AND ZUPT_FLAG_AUTH_DEDUP_REFS = 0
      then rbind (zupt_legacy_disk_aad_map_build (re_alloc env) f (ix_first_block_offset e) (ix_block_count e)) (\<lambda>m. Inr (Some m))
      else Inr None)"

text \<open>
  The result is what was written to the target, if it was opened at all, and the result code. A
  device holds the bytes whatever the code; a file is published only without an error. The
  preflight opens the archive once more under the options the first opening left.
\<close>

definition zupt_disk_restore ::
  "unwrap \<Rightarrow> read_env \<Rightarrow> (nat \<Rightarrow> nat) \<Rightarrow> target_env \<Rightarrow> bytes \<Rightarrow> zupt_options_t \<Rightarrow> bytes option \<times> unit result" where
  "zupt_disk_restore unwrap env after te f opts =
     (if f = [] \<or> \<not> te_snapshot te then (None, Inl ZUPT_ERR_IO)
      else
        (case open_archive unwrap (re_block env) (re_vvz env) (re_alloc env) f opts of
           Inl e \<Rightarrow> (None, Inl e)
         | Inr (opts, hdr, ft, es, _) \<Rightarrow>
             if length es \<noteq> 1 \<or> global_flags hdr AND ZUPT_FLAG_DISK_IMAGE = 0 then (None, Inl ZUPT_ERR_CORRUPT)
             else
               let e = es ! 0; gflags = global_flags hdr; expected_size = ix_uncompressed_size e;
                   first_data_offset = ix_first_block_offset e in
               if ucast (ix_block_count e) \<noteq> total_blocks ft \<or> first_data_offset \<ge> index_offset ft
               then (None, Inl ZUPT_ERR_CORRUPT)
               else
                 (case rbind (zupt_test_archive_stream unwrap env after f opts) test_status of
                    Inl e \<Rightarrow> (None, Inl e)
                  | Inr _ \<Rightarrow>
                 (case open_archive unwrap (re_block env) (re_vvz env) (re_alloc env) f opts of
                    Inl e \<Rightarrow> (None, Inl e)
                  | Inr (opts, _) \<Rightarrow>
                      if unat first_data_offset \<ge> 2 ^ 63 then (None, Inl ZUPT_ERR_IO)
                      else
                        (case open_restore_target (te_atomic te) expected_size (te_target te) of
                           Inl e \<Rightarrow> (None, Inl e)
                         | Inr _ \<Rightarrow>
                             (case restore_aad_map env f gflags e of
                                Inl e \<Rightarrow> (Some [], Inl e)
                              | Inr lmap \<Rightarrow>
                                  (case restore_blocks env (te_write te) f gflags (opt_keyring opts) lmap expected_size
                                          (unat (total_blocks ft)) 0 (unat first_data_offset) ([], 0, 0) of
                                     ((content, total_written, restored_hash), seq, ok) \<Rightarrow>
                                       (Some content,
                                        if ok \<and> seq = unat (ix_block_count e) \<and> total_written = expected_size \<and>
                                          (gflags AND ZUPT_FLAG_DISK_CONTENT_HASH \<noteq> 0 \<longrightarrow> restored_hash = ix_content_hash e) \<and>
                                          te_close te
                                        then Inr () else Inl ZUPT_ERR_CORRUPT))))))))"

section \<open>The label\<close>

lemma disk_leaf_no_sep:
  "\<exists>a. leaf = a @ ps \<and> list_all (\<lambda>c. \<not> is_sep c) a \<Longrightarrow> list_all (\<lambda>c. \<not> is_sep c) (disk_leaf leaf ps)"
proof (induction leaf ps rule: disk_leaf.induct)
  case (2 leaf p ps)
  show ?case
  proof (cases "p = 0x2F \<or> p = 0x5C")
    case True
    then show ?thesis using 2(1) [OF True] by simp
  next
    case False
    from 2(3) obtain a where "leaf = (a @ [p]) @ ps" "list_all (\<lambda>c. \<not> is_sep c) a" by auto
    then have "\<exists>a. leaf = a @ ps \<and> list_all (\<lambda>c. \<not> is_sep c) a" using False by (intro exI [of _ "a @ [p]"]) (simp add: is_sep_def)
    then show ?thesis using 2(2) [OF False] False by simp
  qed
qed simp

lemma length_4: "length xs = 4 \<Longrightarrow> \<exists>a b c d. xs = [a, b, c, d]"
proof -
  assume l: "length xs = 4"
  have "xs = [xs ! 0, xs ! 1, xs ! 2, xs ! 3]"
  proof (rule nth_equalityI)
    fix i assume "i < length xs"
    with l have "i = 0 \<or> i = 1 \<or> i = 2 \<or> i = 3" by linarith
    then show "xs ! i = [xs ! 0, xs ! 1, xs ! 2, xs ! 3] ! i" by (elim disjE) simp_all
  qed (simp add: l)
  then show ?thesis by blast
qed

lemma disk_label_reserved_iff: "disk_label_reserved label \<longleftrightarrow> zupt_is_reserved_dos_name label"
proof -
  define u where "u = map ascii_upper (takeWhile (\<lambda>c. c \<noteq> 0x2E) label)"
  have u: "map (\<lambda>c. if c \<ge> 0x61 \<and> c \<le> 0x7A then c - 0x20 else c) (takeWhile (\<lambda>c. c \<noteq> 0x2E) label) = u"
    by (simp add: u_def ascii_upper_def)
  have l: "length (takeWhile (\<lambda>c. c \<noteq> 0x2E) label) = length u" by (simp add: u_def)
  have e: "length u = 4 \<and> (take 3 u = [0x43, 0x4F, 0x4D] \<or> take 3 u = [0x4C, 0x50, 0x54]) \<and> u ! 3 \<ge> 0x31 \<and> u ! 3 \<le> 0x39 \<longleftrightarrow>
    (\<exists>d. (u = [0x43, 0x4F, 0x4D, d] \<or> u = [0x4C, 0x50, 0x54, d]) \<and> d \<ge> 0x31 \<and> d \<le> 0x39)"
  proof (cases "length u = 4")
    case True
    from length_4 [OF this] obtain a b c d where "u = [a, b, c, d]" by blast
    then show ?thesis by auto
  qed auto
  have m: "u \<in> dos_devices \<longleftrightarrow> u = [0x43, 0x4F, 0x4E] \<or> u = [0x50, 0x52, 0x4E] \<or> u = [0x41, 0x55, 0x58] \<or> u = [0x4E, 0x55, 0x4C] \<or>
    (\<exists>d. (u = [0x43, 0x4F, 0x4D, d] \<or> u = [0x4C, 0x50, 0x54, d]) \<and> d \<ge> 0x31 \<and> d \<le> 0x39)"
    unfolding dos_devices_def by fastforce
  show ?thesis
    unfolding reserved_dos_name_iff u_def [symmetric] disk_label_reserved_def Let_def u l e m
    by (cases "length u \<le> 4") (force, auto)
qed

lemma split_single: "list_all (\<lambda>c. \<not> is_sep c) p \<Longrightarrow> split_path cur p = [cur @ p]"
  by (induction cur p rule: split_path.induct) auto

text \<open>A label is safe but for characters that cannot be displayed, which are not looked for.\<close>

lemma disk_label_safe: "zupt_path_is_safe (disk_archive_label source) \<longleftrightarrow> \<not> zupt_path_has_unsafe_text (disk_archive_label source)"
proof -
  define leaf where "leaf = disk_leaf source source"
  have ns: "list_all (\<lambda>c. \<not> is_sep c) leaf" unfolding leaf_def by (rule disk_leaf_no_sep) (auto intro: exI [of _ "[]"])
  show ?thesis
  proof (cases "disk_archive_label source = disk_image_raw")
    case True
    have "zupt_path_is_safe disk_image_raw"
      by (simp add: zupt_path_is_safe_def zupt_path_has_unsafe_text.simps(2) zupt_decode_utf8_scalar_def c_at_def
        zupt_codepoint_is_display_control_def is_sep_def component_ok_def reserved_dos_name_iff dos_devices_def
        ascii_upper_def)
    then show ?thesis unfolding True using path_is_safe_eq by blast
  next
    case False
    then have d: "disk_archive_label source = leaf" and l: "leaf \<noteq> []" "length leaf < 4096" "leaf \<noteq> [0x2E]" "leaf \<noteq> [0x2E, 0x2E]"
      "leaf ! (length leaf - 1) \<noteq> 0x2E" "leaf ! (length leaf - 1) \<noteq> 0x20" "\<not> zupt_is_reserved_dos_name leaf"
      "\<not> list_ex (\<lambda>c. c < 0x20 \<or> c = 0x7F \<or> c = 0x3A) leaf"
      by (auto simp: disk_archive_label_def leaf_def [symmetric] Let_def disk_label_reserved_iff ZUPT_MAX_PATH_def split: if_splits)
    have "component_ok leaf"
      using l by (auto simp: component_ok_def list_ex_iff length_Suc_conv numeral_eq_Suc)
    moreover have "\<not> is_sep (hd leaf)" using ns l(1) by (cases leaf) simp_all
    moreover have "0x3A \<notin> set leaf" using l(8) by (auto simp: list_ex_iff)
    ultimately show ?thesis using l(1,2) split_single [OF ns, of "[]"] by (simp add: d path_is_safe_eq)
  qed
qed

lemma disk_label_entry: "disk_archive_label source \<noteq> [] \<and> length (disk_archive_label source) < ZUPT_MAX_PATH"
  by (auto simp: disk_archive_label_def Let_def ZUPT_MAX_PATH_def)

lemma disk_label_no_nul: "0 \<notin> set (disk_archive_label source)"
  by (auto simp: disk_archive_label_def Let_def list_ex_iff)

section \<open>The encoding\<close>

lemma zero_word: "8 \<le> length b \<Longrightarrow> zupt_le64_get b = 0 \<longleftrightarrow> list_all (\<lambda>c. c = 0) (take 8 b)"
proof -
  assume l: "8 \<le> length b"
  have "zupt_le64_put (zupt_le64_get b) = take 8 b" using l by (rule le64_put_get)
  then have "zupt_le64_get b = 0 \<Longrightarrow> take 8 b = zupt_le64_put 0" by simp
  moreover have "take 8 b = zupt_le64_put 0 \<Longrightarrow> zupt_le64_get b = 0"
    by (metis append_take_drop_id le64_get_put)
  moreover have "zupt_le64_put 0 = replicate 8 0" by (simp add: zupt_le64_put_def eval_nat_numeral)
  moreover have "take 8 b = replicate 8 0 \<longleftrightarrow> list_all (\<lambda>c. c = 0) (take 8 b)"
    using l by (auto simp: list_all_length list_eq_iff_nth_eq)
  ultimately show ?thesis by auto
qed

text \<open>The word-wise scan finds exactly the blocks of zero bytes.\<close>

lemma block_is_zero_iff: "block_is_zero buf \<longleftrightarrow> buf = replicate (length buf) 0"
proof -
  let ?n = "length buf div 8"
  have w: "zupt_le64_get (drop (8 * i) buf) = 0 \<longleftrightarrow> (\<forall>j < 8. buf ! (8 * i + j) = 0)" if "i < ?n" for i
  proof -
    have l: "8 \<le> length (drop (8 * i) buf)" using that by simp
    then have "list_all (\<lambda>c. c = 0) (take 8 (drop (8 * i) buf)) \<longleftrightarrow> (\<forall>j < 8. buf ! (8 * i + j) = 0)"
      by (auto simp: list_all_length)
    with zero_word [OF l] show ?thesis by blast
  qed
  have "block_is_zero buf \<longleftrightarrow> (\<forall>k < length buf. buf ! k = 0)"
  proof
    assume z: "block_is_zero buf"
    show "\<forall>k < length buf. buf ! k = 0"
    proof (intro allI impI)
      fix k assume k: "k < length buf"
      show "buf ! k = 0"
      proof (cases "k < ?n * 8")
        case True
        then have i: "k div 8 < ?n" "k mod 8 < 8" by auto
        with z have "zupt_le64_get (drop (8 * (k div 8)) buf) = 0"
          by (auto simp: block_is_zero_def Let_def list_all_iff)
        with w [OF i(1)] i(2) have "buf ! (8 * (k div 8) + k mod 8) = 0" by blast
        then show ?thesis by simp
      next
        case False
        with z k show ?thesis by (auto simp: block_is_zero_def Let_def list_all_iff)
      qed
    qed
  next
    assume z: "\<forall>k < length buf. buf ! k = 0"
    have "zupt_le64_get (drop (8 * i) buf) = 0" if "i < ?n" for i
    proof -
      have "8 * i + j < length buf" if "j < 8" for j using \<open>i < ?n\<close> that by linarith
      with z w [OF that] show ?thesis by blast
    qed
    with z show "block_is_zero buf" by (auto simp: block_is_zero_def Let_def list_all_iff)
  qed
  also have "\<dots> \<longleftrightarrow> buf = replicate (length buf) 0" by (auto simp: list_eq_iff_nth_eq)
  finally show ?thesis .
qed

lemma disk_chunk_cases:
  assumes "disk_chunk ce cap codec level x = (c, p)"
  obtains "c = ZUPT_CODEC_STORE" "p = x"
    | "c = ZUPT_CODEC_ZUPT_LZHP" "p = disk_lzhp ce cap level x" "p \<noteq> []"
    | "c = ZUPT_CODEC_ZUPT_LZH" "p = zupt_lzh_compress (ce_lzh ce) x cap level" "p \<noteq> []"
    | "c = ZUPT_CODEC_ZUPT_LZ" "zupt_lz_compress (ce_lz ce) x cap level = Some p"
    | "c = ZUPT_CODEC_VAPTVUPT" "codec = c" "ce_vv ce x cap level = Some p" "p \<noteq> []"
  using assms by (auto simp: disk_chunk_def Let_def split: if_splits option.splits)

lemma disk_chunk_length: "length (snd (disk_chunk ce cap codec level x)) \<le> length x"
  by (auto simp: disk_chunk_def Let_def)

lemma disk_lzhp_cases:
  assumes "disk_lzhp ce cap level x \<noteq> []"
  obtains t where "zupt_lzh_compress (ce_lzh_pred ce) (zupt_predict_encode (zupt_predict_build t x) x) (cap - 257) level \<noteq> []"
      "disk_lzhp ce cap level x = 0x01 # zupt_predict_build t x @
         zupt_lzh_compress (ce_lzh_pred ce) (zupt_predict_encode (zupt_predict_build t x) x) (cap - 257) level"
    | "zupt_lzh_compress (ce_lzh ce) x (cap - 1) level \<noteq> []"
      "disk_lzhp ce cap level x = 0x00 # zupt_lzh_compress (ce_lzh ce) x (cap - 1) level"
  using assms unfolding disk_lzhp_def Let_def by (simp split: if_splits)

lemma disk_chunk_encodes:
  assumes "codec_mem ce" "length x \<le> ZUPT_MAX_BLOCK_SZ" "own_decoder codec ce vvz" "length x + 257 \<le> cap"
  shows "encodes vvz (disk_chunk ce cap codec level x) x"
proof -
  obtain c p where cp: "disk_chunk ce cap codec level x = (c, p)" by fastforce
  have mem: "lzh_mem (ce_lzh_pred ce)" "lzh_mem (ce_lzh ce)" using assms(1) by (simp_all add: codec_mem_def)
  have cap: "length x \<le> cap - 257" "length x \<le> cap - 1" "length x \<le> cap" using assms(4) by simp_all
  have "decode_payload al vvz c p (length x) = Inr x" if al: "block_mem al" for al
  proof (rule disk_chunk_cases [OF cp])
    assume c: "c = ZUPT_CODEC_ZUPT_LZHP" and p: "p = disk_lzhp ce cap level x" "p \<noteq> []"
    note dec = lzhp_predicted_decodes [OF _ mem(1) refl assms(2) cap(1) al] lzhp_plain_decodes [OF _ mem(2) assms(2) cap(2) al]
    have "decode_lzhp al p (length x) = Inr x"
      unfolding p(1) by (rule disk_lzhp_cases [OF p(2) [unfolded p(1)]]) (erule ssubst, erule dec(1), erule ssubst, erule dec(2))
    with c show ?thesis by (simp add: decode_payload_def)
  next
    assume "c = ZUPT_CODEC_ZUPT_LZH" "p = zupt_lzh_compress (ce_lzh ce) x cap level" "p \<noteq> []"
    then show ?thesis using lzh_within [OF _ mem(2) assms(2) cap(3)] al by (simp add: decode_payload_def block_mem_def)
  next
    assume "c = ZUPT_CODEC_ZUPT_LZ" "zupt_lz_compress (ce_lz ce) x cap level = Some p"
    then show ?thesis using lz_chunk assms(2) by (simp add: decode_payload_def)
  next
    assume "c = ZUPT_CODEC_VAPTVUPT" "codec = c" "ce_vv ce x cap level = Some p" "p \<noteq> []"
    then show ?thesis using vv_chunk assms(3) by blast
  qed (simp add: decode_payload_def)
  with cp disk_chunk_length [of ce cap codec level x] show ?thesis by (simp add: encodes_def)
qed

section \<open>The loop of the backup\<close>

text \<open>The flags of a disk archive agree with the options it was written with.\<close>

definition disk_flags_match :: "zupt_options_t \<Rightarrow> u32 \<Rightarrow> bool" where
  "disk_flags_match opts gflags \<longleftrightarrow> gflags AND ZUPT_FLAG_DISK_IMAGE \<noteq> 0 \<and>
     (gflags AND ZUPT_FLAG_AUTH_DEDUP_REFS \<noteq> 0 \<longleftrightarrow> opt_dedup opts \<and> opt_encrypt opts)"

lemma disk_position: "disk_flags_match opts gflags \<Longrightarrow> position_ok opts gflags fi bi (word_of_nat bi)"
  by (auto simp: position_ok_def disk_flags_match_def archive_data_aad_seq_def)

lemma disk_block_step:
  assumes "disk_block we opts cap x st = Inr st'" "write_ok we opts env" "read_ok env" "disk_flags_match opts gflags"
    "dedup_ok env opts X (cw_out st) (cw_dedup st)" "no_collision opts X" "x \<in> X" "length x \<le> ZUPT_MAX_BLOCK_SZ"
    "64 \<le> length (cw_out st)" "length (cw_out st) < 2 ^ 63" "length x + 257 \<le> cap"
  shows "chunk_written env opts gflags fi X x st st'"
proof (rule write_block_or_ref_step [OF assms(1) [unfolded disk_block_def] assms(2,3) disk_position [OF assms(4)] assms(5-10)])
  show "encodes (re_vvz env) (disk_chunk (we_codec we (cw_total st)) cap (opt_codec_id opts) (opt_level opts) x) x"
    using assms(2,8,11) by (intro disk_chunk_encodes) (simp_all add: write_ok_def codecs_ok_def)
qed

section \<open>Opening twice\<close>

text \<open>
  A restore opens its archive three times, each time under the options the last time left. That
  gives the same archive when a key encapsulation does not depend on the keyring it replaces, but
  for the mark \<open>use_preface_aad\<close>.
\<close>

definition unwrap_settled :: "unwrap \<Rightarrow> bool" where
  "unwrap_settled unwrap \<longleftrightarrow> (\<forall>t k s p k1. unwrap t k s p = Some k1 \<longrightarrow>
     unwrap t k1 s p = Some k1 \<and>
     (\<exists>c. unwrap t (k1\<lparr>use_preface_aad := True\<rparr>) s p = Some (k1\<lparr>use_preface_aad := c\<rparr>)))"

definition settles :: "zupt_keyring_t \<Rightarrow> zupt_keyring_t \<Rightarrow> zupt_keyring_t \<Rightarrow> bool" where
  "settles k1 k2 k \<longleftrightarrow> (k2 = k1 \<longrightarrow> k = k1) \<and> (\<exists>c. k = k1\<lparr>use_preface_aad := c\<rparr>)"

lemma derive_keys_again:
  assumes "k1 = zupt_derive_keys kr pw slt nonce iters" "k2 = k1 \<or> k2 = k1\<lparr>use_preface_aad := True\<rparr>"
  shows "settles k1 k2 (zupt_derive_keys k2 pw slt nonce iters)"
  using assms by (auto simp: settles_def zupt_derive_keys_eq intro: exI [of _ True] exI [of _ "use_preface_aad kr"])

lemma unwrap_again:
  assumes "unwrap_settled unwrap" "unwrap t kr s p = Some k1" "k2 = k1 \<or> k2 = k1\<lparr>use_preface_aad := True\<rparr>"
  shows "\<exists>k. unwrap t k2 s p = Some k \<and> settles k1 k2 k"
proof (cases "k2 = k1")
  case True
  have "settles k1 k1 k1" by (auto simp: settles_def intro: exI [of _ "use_preface_aad k1"])
  with True assms(1,2) show ?thesis unfolding unwrap_settled_def by blast
next
  case False
  obtain c where "unwrap t k2 s p = Some (k1\<lparr>use_preface_aad := c\<rparr>)"
    using assms False unfolding unwrap_settled_def by blast
  with False show ?thesis by (auto simp: settles_def)
qed

lemma unwrap_keys_again:
  assumes "unwrap_settled unwrap" "unwrap_keys unwrap t ready s opts p = Inr o1"
    "k2 = opt_keyring o1 \<or> k2 = (opt_keyring o1)\<lparr>use_preface_aad := True\<rparr>" "opt_keyring o2 = k2"
  shows "\<exists>k. unwrap_keys unwrap t ready s o2 p = Inr (o2\<lparr>opt_keyring := k\<rparr>) \<and> settles (opt_keyring o1) k2 k"
  using assms unwrap_again [OF assms(1)]
  by (fastforce simp: unwrap_keys_def split: if_splits option.splits)

lemma pbkdf2_keys_again:
  assumes "pbkdf2_keys off opts p = Inr o1" "opt_password o2 = opt_password opts"
    "k2 = opt_keyring o1 \<or> k2 = (opt_keyring o1)\<lparr>use_preface_aad := True\<rparr>" "opt_keyring o2 = k2"
  shows "\<exists>k. pbkdf2_keys off o2 p = Inr (o2\<lparr>opt_keyring := k\<rparr>) \<and> settles (opt_keyring o1) k2 k"
proof -
  define k where "k = zupt_derive_keys k2 (opt_password opts) (take 32 (drop off p)) (take 16 (drop (off + 32) p))
      (zupt_le32_get (drop (off + 48) p))"
  have "settles (opt_keyring o1) k2 k"
    unfolding k_def using assms(1,3) by (intro derive_keys_again) (auto simp: pbkdf2_keys_def Let_def split: if_splits)
  moreover have "pbkdf2_keys off o2 p = Inr (o2\<lparr>opt_keyring := k\<rparr>)"
    using assms by (auto simp: pbkdf2_keys_def Let_def k_def split: if_splits)
  ultimately show ?thesis by blast
qed

lemma open_enc_header_again:
  assumes "unwrap_settled unwrap" "open_enc_header unwrap opts p = Inr o1"
    "k2 = opt_keyring o1 \<or> k2 = (opt_keyring o1)\<lparr>use_preface_aad := True\<rparr>"
    "o2 = o1\<lparr>opt_keyring := k2, opt_comment := cm, opt_has_comment := hc\<rparr>"
  shows "\<exists>k. open_enc_header unwrap o2 p = Inr (o2\<lparr>opt_keyring := k\<rparr>) \<and> settles (opt_keyring o1) k2 k"
proof -
  define same where "same = (\<lambda>(a :: zupt_options_t) (b :: zupt_options_t). opt_pq_mode a = opt_pq_mode b \<and> opt_keyfile a = opt_keyfile b \<and>
    opt_password a = opt_password b)"
  have s1: "same o1 opts" if "unwrap_keys unwrap t ready s opts p = Inr o1" for t ready s o1
    using that by (auto simp: unwrap_keys_def same_def split: if_splits option.splits)
  have s2: "same o1 opts" if "pbkdf2_keys off opts p = Inr o1" for off o1
    using that by (auto simp: pbkdf2_keys_def same_def Let_def split: if_splits)
  let ?t = "p ! 0"
  let ?key = "opt_keyfile opts" and ?pq = "opt_pq_mode opts \<and> opt_keyfile opts \<noteq> []"
  consider (box) oa where "?t = ZUPT_ENC_PQ_BOX_V1" "unwrap_keys unwrap ?t ?pq ?key opts p = Inr oa" "o1 = oa\<lparr>opt_box_mode := True\<rparr>"
    | (sdk) oa where "?t = ZUPT_ENC_PQ_SDK_V2" "unwrap_keys unwrap ?t ?pq ?key opts p = Inr oa" "o1 = oa\<lparr>opt_sdk_mode := True\<rparr>"
    | (pw) oa where "?t = ZUPT_ENC_PW_ARGON2" "unwrap_keys unwrap ?t (opt_password opts \<noteq> []) (opt_password opts) opts p = Inr oa"
        "o1 = oa\<lparr>opt_sdk_mode := True\<rparr>"
    | (hybrid) "?t = ZUPT_ENC_PQ_HYBRID" "unwrap_keys unwrap ?t ?pq ?key opts p = Inr o1"
    | (pq) "?t = ZUPT_ENC_PQ_ONLY" "unwrap_keys unwrap ?t (?key \<noteq> []) ?key opts p = Inr o1"
    | (kdf) off where "pbkdf2_keys off opts p = Inr o1" "off = (if ?t = ZUPT_ENC_PBKDF2 then 1 else 0)"
        "?t \<notin> {ZUPT_ENC_PQ_BOX_V1, ZUPT_ENC_PQ_SDK_V2, ZUPT_ENC_PW_ARGON2, ZUPT_ENC_PQ_HYBRID, ZUPT_ENC_PQ_ONLY}"
    using assms(2) unfolding open_enc_header_def Let_def by (auto simp: rbind_Inr_iff split: if_splits)
  then show ?thesis
  proof cases
    case box
    have "same o2 opts" using s1 [OF box(2)] assms(4) box(3) by (simp add: same_def)
    moreover obtain k where "unwrap_keys unwrap ?t ?pq ?key o2 p = Inr (o2\<lparr>opt_keyring := k\<rparr>)" "settles (opt_keyring oa) k2 k"
      using unwrap_keys_again [OF assms(1) box(2), of k2 o2] assms(3,4) box(3) by auto
    ultimately show ?thesis using box assms(4) by (intro exI [of _ k]) (simp add: open_enc_header_def same_def)
  next
    case sdk
    have "same o2 opts" using s1 [OF sdk(2)] assms(4) sdk(3) by (simp add: same_def)
    moreover obtain k where "unwrap_keys unwrap ?t ?pq ?key o2 p = Inr (o2\<lparr>opt_keyring := k\<rparr>)" "settles (opt_keyring oa) k2 k"
      using unwrap_keys_again [OF assms(1) sdk(2), of k2 o2] assms(3,4) sdk(3) by auto
    ultimately show ?thesis using sdk assms(4) by (intro exI [of _ k]) (simp add: open_enc_header_def same_def)
  next
    case pw
    have "same o2 opts" using s1 [OF pw(2)] assms(4) pw(3) by (simp add: same_def)
    moreover obtain k where "unwrap_keys unwrap ?t (opt_password opts \<noteq> []) (opt_password opts) o2 p = Inr (o2\<lparr>opt_keyring := k\<rparr>)"
      "settles (opt_keyring oa) k2 k"
      using unwrap_keys_again [OF assms(1) pw(2), of k2 o2] assms(3,4) pw(3) by auto
    ultimately show ?thesis using pw assms(4) by (intro exI [of _ k]) (simp add: open_enc_header_def same_def)
  next
    case hybrid
    have "same o2 opts" using s1 [OF hybrid(2)] assms(4) by (simp add: same_def)
    moreover obtain k where "unwrap_keys unwrap ?t ?pq ?key o2 p = Inr (o2\<lparr>opt_keyring := k\<rparr>)" "settles (opt_keyring o1) k2 k"
      using unwrap_keys_again [OF assms(1) hybrid(2), of k2 o2] assms(3,4) by auto
    ultimately show ?thesis using hybrid by (intro exI [of _ k]) (simp add: open_enc_header_def same_def)
  next
    case pq
    have "same o2 opts" using s1 [OF pq(2)] assms(4) by (simp add: same_def)
    moreover obtain k where "unwrap_keys unwrap ?t (?key \<noteq> []) ?key o2 p = Inr (o2\<lparr>opt_keyring := k\<rparr>)" "settles (opt_keyring o1) k2 k"
      using unwrap_keys_again [OF assms(1) pq(2), of k2 o2] assms(3,4) by auto
    ultimately show ?thesis using pq by (intro exI [of _ k]) (simp add: open_enc_header_def same_def)
  next
    case kdf
    have "same o2 opts" using s2 [OF kdf(1)] assms(4) by (simp add: same_def)
    then obtain k where "pbkdf2_keys off o2 p = Inr (o2\<lparr>opt_keyring := k\<rparr>)" "settles (opt_keyring o1) k2 k"
      using pbkdf2_keys_again [OF kdf(1), of o2 k2] assms(3,4) by (auto simp: same_def)
    then show ?thesis using kdf(2,3) by (intro exI [of _ k]) (auto simp: open_enc_header_def Let_def)
  qed
qed

lemma open_enc_header_legacy: "open_enc_header unwrap opts p = Inr o1 \<Longrightarrow> opt_legacy_no_ait o1 = opt_legacy_no_ait opts"
  by (auto simp: open_enc_header_def unwrap_keys_def pbkdf2_keys_def Let_def rbind_Inr_iff split: if_splits option.splits)

lemma read_enc_header_again:
  assumes "unwrap_settled unwrap" "read_enc_header unwrap alloc f pos hdr opts = Inr (o1, q)"
    "k2 = opt_keyring o1 \<or> k2 = (opt_keyring o1)\<lparr>use_preface_aad := True\<rparr>"
    "o2 = o1\<lparr>opt_keyring := k2, opt_comment := cm, opt_has_comment := hc\<rparr>"
  shows "\<exists>k. read_enc_header unwrap alloc f pos hdr o2 = Inr (o2\<lparr>opt_keyring := k\<rparr>, q) \<and> settles (opt_keyring o1) k2 k"
    "opt_legacy_no_ait o2 = opt_legacy_no_ait opts"
proof -
  consider "global_flags hdr AND ZUPT_FLAG_ENCRYPTED = 0" "o1 = opts" "q = pos"
    | eb :: zupt_block_t where "global_flags hdr AND ZUPT_FLAG_ENCRYPTED \<noteq> 0" "open_enc_header unwrap opts (payload eb) = Inr o1"
      "\<And>o3. read_enc_header unwrap alloc f pos hdr o3 = rbind (open_enc_header unwrap o3 (payload eb)) (\<lambda>opts. Inr (opts, q))"
  proof (cases "global_flags hdr AND ZUPT_FLAG_ENCRYPTED = 0")
    case True
    with assms(2) that(1) show ?thesis by (simp add: read_enc_header_def)
  next
    case False
    with assms(2) obtain eb where eb: "\<not> unat (encryption_header_off hdr) > length f"
      "read_block_at alloc f (fseeko_set pos (encryption_header_off hdr)) = Inr (eb, q)" "block_type eb = ZUPT_BLOCK_ENC_HEADER"
      "codec_id eb = ZUPT_CODEC_STORE" "block_flags eb = 0" "compressed_size eb = uncompressed_size eb"
      "zupt_xxh64 (payload eb) 0 = checksum eb" "\<not> unat (compressed_size eb) < 1" "open_enc_header unwrap opts (payload eb) = Inr o1"
      by (auto simp: read_enc_header_def rbind_Inr_iff split: if_splits)
    show ?thesis by (rule that(2) [OF False eb(9)]) (use False eb(1-8) in \<open>simp add: read_enc_header_def\<close>)
  qed
  then have "(\<exists>k. read_enc_header unwrap alloc f pos hdr o2 = Inr (o2\<lparr>opt_keyring := k\<rparr>, q) \<and> settles (opt_keyring o1) k2 k) \<and>
      opt_legacy_no_ait o2 = opt_legacy_no_ait opts"
  proof cases
    case 1
    have "settles (opt_keyring o1) k2 k2"
      using assms(3) by (auto simp: settles_def intro: exI [of _ "use_preface_aad (opt_keyring o1)"])
    with 1 assms(4) show ?thesis by (intro conjI exI [of _ k2]) (simp_all add: read_enc_header_def)
  next
    case 2
    from open_enc_header_again [OF assms(1) 2(2) assms(3,4)] obtain k where
      "open_enc_header unwrap o2 (payload eb) = Inr (o2\<lparr>opt_keyring := k\<rparr>)" "settles (opt_keyring o1) k2 k" by blast
    with 2(3) [of o2] open_enc_header_legacy [OF 2(2)] assms(4) show ?thesis by auto
  qed
  then show "\<exists>k. read_enc_header unwrap alloc f pos hdr o2 = Inr (o2\<lparr>opt_keyring := k\<rparr>, q) \<and> settles (opt_keyring o1) k2 k"
    "opt_legacy_no_ait o2 = opt_legacy_no_ait opts" by blast+
qed

lemma read_comment_form:
  assumes "read_comment al vvz alloc f pos off o1 = Inr o2"
  obtains cm hc where "o2 = o1\<lparr>opt_comment := cm, opt_has_comment := hc\<rparr>" "read_comment al vvz alloc f pos off o2 = Inr o2"
proof (cases "off = 0")
  case True
  with assms have "o2 = o1\<lparr>opt_comment := opt_comment o1, opt_has_comment := opt_has_comment o1\<rparr>"
    "read_comment al vvz alloc f pos off o2 = Inr o2" by (simp_all add: read_comment_def)
  then show ?thesis by (rule that)
next
  case False
  with assms obtain cb p plain where cb: "read_block_at alloc f (fseeko_set pos off) = Inr (cb, p)"
    "\<not> (block_type cb \<noteq> ZUPT_BLOCK_COMMENT \<or> uncompressed_size cb = 0 \<or> unat (uncompressed_size cb) > ZUPT_MAX_COMMENT_LEN)"
    "decompress_block al vvz cb (Some (opt_keyring o1)) ZUPT_COMMENT_AAD_SEQ = Inr plain"
    and o2: "o2 = o1\<lparr>opt_comment := take (ZUPT_MAX_COMMENT_LEN - 1) plain, opt_has_comment := True\<rparr>"
    by (auto simp: read_comment_def rbind_Inr_iff split: if_splits)
  have "read_comment al vvz alloc f pos off o2 = Inr o2"
    using False cb by (simp add: read_comment_def o2)
  with o2 show ?thesis by (rule that)
qed

lemma ait_verify_settles:
  assumes "settles k1 k2 k"
  shows "ait_verify hdr ft a (Some k) = ait_verify hdr ft a (Some k1)"
  using assms by (auto simp: settles_def ait_verify_def Let_def)

lemma open_archive_again:
  assumes "unwrap_settled unwrap" "open_archive unwrap al vvz alloc f opts = Inr (o', hdr, ft, es, pos)"
  shows "open_archive unwrap al vvz alloc f o' = Inr (o', hdr, ft, es, pos)"
proof -
  from assms(2) obtain r ait o1 p1 where a: "read_header f = Inr (hdr, r)" "locate_footer_v15 f = Inr (ft, ait)"
    "ait \<noteq> None \<or> opt_legacy_no_ait opts" "header_flags_consistent (global_flags hdr)"
    "read_enc_header unwrap alloc f (length f) hdr opts = Inr (o1, p1)"
    and oc: "open_contents al vvz alloc f hdr ft ait o1 p1 = Inr (o', es, pos)"
    by (auto simp: open_archive_def rbind_Inr_iff split: if_splits)
  let ?pf = "global_flags hdr AND ZUPT_FLAG_AAD_PREFACE \<noteq> 0"
  define k2 where "k2 = (if ?pf then (opt_keyring o1)\<lparr>use_preface_aad := True\<rparr> else opt_keyring o1)"
  have o2: "(if ?pf then o1\<lparr>opt_keyring := (opt_keyring o1)\<lparr>use_preface_aad := True\<rparr>\<rparr> else o1) = o1\<lparr>opt_keyring := k2\<rparr>"
    by (simp add: k2_def)
  from oc have v: "(case ait of None \<Rightarrow> Inr () | Some a \<Rightarrow> ait_verify hdr ft a
                (if global_flags hdr AND ZUPT_FLAG_ENCRYPTED \<noteq> 0 then Some (opt_keyring o1) else None)) = Inr ()"
    and c: "read_comment al vvz alloc f p1 (comment_offset hdr) (o1\<lparr>opt_keyring := k2\<rparr>) = Inr o'"
    and i: "read_index al vvz alloc f p1 (global_flags hdr) (index_offset ft) (opt_keyring o') = Inr (es, pos)"
    unfolding open_contents_def Let_def o2 by (auto simp: rbind_Inr_iff)
  obtain cm hc where o': "o' = o1\<lparr>opt_keyring := k2, opt_comment := cm, opt_has_comment := hc\<rparr>"
    and c': "read_comment al vvz alloc f p1 (comment_offset hdr) o' = Inr o'"
    using read_comment_form [OF c] by (metis zupt_options_t.surjective zupt_options_t.update_convs)
  have "k2 = opt_keyring o1 \<or> k2 = (opt_keyring o1)\<lparr>use_preface_aad := True\<rparr>" by (simp add: k2_def)
  note again = read_enc_header_again [OF assms(1) a(5) this o']
  obtain k where k: "read_enc_header unwrap alloc f (length f) hdr o' = Inr (o'\<lparr>opt_keyring := k\<rparr>, p1)" "settles (opt_keyring o1) k2 k"
    using again(1) by blast
  have "(if ?pf then (o'\<lparr>opt_keyring := k\<rparr>)\<lparr>opt_keyring := k\<lparr>use_preface_aad := True\<rparr>\<rparr> else o'\<lparr>opt_keyring := k\<rparr>) = o'"
    using k(2) by (auto simp: settles_def k2_def o')
  note o3 = this
  have v': "(case ait of None \<Rightarrow> Inr () | Some a \<Rightarrow> ait_verify hdr ft a
      (if global_flags hdr AND ZUPT_FLAG_ENCRYPTED \<noteq> 0 then Some k else None)) = Inr ()"
    using v ait_verify_settles [OF k(2)] by (cases ait) (auto split: if_splits)
  have ok: "opt_keyring (o'\<lparr>opt_keyring := k\<rparr>) = k" by simp
  have oc2: "open_contents al vvz alloc f hdr ft ait (o'\<lparr>opt_keyring := k\<rparr>) p1 = Inr (o', es, pos)"
    unfolding open_contents_def ok v' rbind_simps Let_def o3 c' i prod.case by (rule refl)
  have n: "\<not> (ait = None \<and> \<not> opt_legacy_no_ait opts)" "\<not> \<not> header_flags_consistent (global_flags hdr)" using a(3,4) by blast+
  show ?thesis
    unfolding open_archive_def a(1,2) rbind_simps prod.case again(2) if_not_P [OF n(1)] if_not_P [OF n(2)] k(1) oc2 by (rule refl)
qed

text \<open>An archive that opens without a key encapsulation opens whatever the encapsulations do.\<close>

lemma open_archive_no_unwrap:
  assumes "open_archive (\<lambda>_ _ _ _. None) al vvz alloc f opts = Inr r"
  shows "open_archive unwrap al vvz alloc f opts = Inr r"
proof -
  have u: "unwrap_keys (\<lambda>_ _ _ _. None) t ready s o1 p = Inl ZUPT_ERR_AUTH_FAIL" for t ready s o1 p by (simp add: unwrap_keys_def)
  have e: "open_enc_header unwrap o1 p = Inr o2" if "open_enc_header (\<lambda>_ _ _ _. None) o1 p = Inr o2" for o1 p o2
    using that by (auto simp: open_enc_header_def Let_def u rbind_Inr_iff split: if_splits)
  have h: "read_enc_header unwrap alloc f pos hdr o1 = Inr q" if "read_enc_header (\<lambda>_ _ _ _. None) alloc f pos hdr o1 = Inr q"
    for pos hdr o1 q
    using that e by (auto simp: read_enc_header_def rbind_Inr_iff split: if_splits)
  obtain hdr s ft ait o1 p1 where a: "read_header f = Inr (hdr, s)" "locate_footer_v15 f = Inr (ft, ait)"
    "\<not> (ait = None \<and> \<not> opt_legacy_no_ait opts)" "header_flags_consistent (global_flags hdr)"
    "read_enc_header (\<lambda>_ _ _ _. None) alloc f (length f) hdr opts = Inr (o1, p1)"
    and oc: "rbind (open_contents al vvz alloc f hdr ft ait o1 p1) (\<lambda>(opts, entries, pos). Inr (opts, hdr, ft, entries, pos)) = Inr r"
    using assms by (fastforce simp: open_archive_def rbind_Inr_iff split: if_splits)
  show ?thesis
    unfolding open_archive_def a(1,2) rbind_simps prod.case if_not_P [OF a(3)] h [OF a(5)]
    using a(4) oc by simp
qed

section \<open>The loop of the restore\<close>

text \<open>In a disk archive the blocks are read as extraction and test read them.\<close>

lemma restore_ref_eq:
  "gflags AND ZUPT_FLAG_DISK_IMAGE \<noteq> 0 \<Longrightarrow>
     restore_ref env f gflags kr lmap sq blk cur = extract_ref env f gflags kr lmap fi sq blk cur"
  by (simp add: restore_ref_def extract_ref_def archive_data_aad_seq_def Let_def)

lemma restore_blocks_step:
  assumes "gflags AND ZUPT_FLAG_DISK_IMAGE \<noteq> 0" "extract_block env f gflags kr lmap fi (word_of_nat b) pos = Inr (dec, q)"
  shows "restore_blocks env wr f gflags kr lmap expected (Suc n) b pos (content, w, h) =
    (if w > expected \<or> word_of_nat (length dec) > expected - w \<or> \<not> wr b then ((content, w, h), b, False)
     else restore_blocks env wr f gflags kr lmap expected n (b + 1) q
            (content @ dec, w + word_of_nat (length dec), zupt_xxh64 dec h))"
proof -
  obtain blk where rd: "read_block_at (re_alloc env) f pos = Inr (blk, q)"
    and c: "block_type blk = ZUPT_BLOCK_DEDUP_REF \<and> extract_ref env f gflags kr lmap fi (word_of_nat b) blk q = Inr dec \<or>
      block_type blk = ZUPT_BLOCK_DATA \<and>
        decompress_block (re_block env) (re_vvz env) blk (Some kr) (archive_data_aad_seq gflags fi (word_of_nat b)) = Inr dec"
    using assms(2) by (auto simp: extract_block_def rbind_Inr_iff split: if_splits)
  have p: "archive_data_aad_seq gflags fi (word_of_nat b) = word_of_nat b" using assms(1) by (simp add: archive_data_aad_seq_def)
  from c show ?thesis
  proof
    assume "block_type blk = ZUPT_BLOCK_DEDUP_REF \<and> extract_ref env f gflags kr lmap fi (word_of_nat b) blk q = Inr dec"
    then show ?thesis using rd by (simp add: restore_ref_eq [OF assms(1), where fi = fi])
  next
    assume "block_type blk = ZUPT_BLOCK_DATA \<and>
        decompress_block (re_block env) (re_vvz env) blk (Some kr) (archive_data_aad_seq gflags fi (word_of_nat b)) = Inr dec"
    then show ?thesis using rd p by simp
  qed
qed

text \<open>A test that succeeds foretells the result of the restore.\<close>

lemma test_restores:
  assumes "gflags AND ZUPT_FLAG_DISK_IMAGE \<noteq> 0" "\<forall>i. wr i"
  shows "test_blocks env f gflags kr lmap expected fi n b pos (w, h) = Inr ((w', h'), pos') \<Longrightarrow>
    \<exists>content'. restore_blocks env wr f gflags kr lmap expected n b pos (content, w, h) = ((content', w', h'), b + n, True)"
proof (induction n arbitrary: b pos content w h)
  case (Suc n)
  obtain dec q where e: "extract_block env f gflags kr lmap fi (word_of_nat b) pos = Inr (dec, q)"
    and g: "\<not> (w > expected \<or> word_of_nat (length dec) > expected - w)"
    and t: "test_blocks env f gflags kr lmap expected fi n (b + 1) q (w + word_of_nat (length dec), zupt_xxh64 dec h) =
      Inr ((w', h'), pos')"
    using Suc.prems by (auto simp: rbind_Inr_iff split: if_splits)
  obtain c where "restore_blocks env wr f gflags kr lmap expected n (b + 1) q
      (content @ dec, w + word_of_nat (length dec), zupt_xxh64 dec h) = ((c, w', h'), b + 1 + n, True)"
    using Suc.IH [OF t, of "content @ dec"] by blast
  with g assms(2) [rule_format, of b] show ?case
    unfolding restore_blocks_step [OF assms(1) e] by (intro exI [of _ c]) simp
qed simp

lemma extract_restores:
  assumes "gflags AND ZUPT_FLAG_DISK_IMAGE \<noteq> 0" "\<forall>i. wr i"
  shows "extract_blocks env (\<lambda>_. True) f gflags kr lmap expected fi n b pos content (w, h) = Some (content', (w', h'), pos') \<Longrightarrow>
    blocks_nonempty env f gflags kr lmap fi n b pos \<Longrightarrow>
    restore_blocks env wr f gflags kr lmap expected n b pos (content, w, h) = ((content', w', h'), b + n, True)"
proof (induction n arbitrary: b pos content w h)
  case (Suc n)
  obtain dec q where e: "extract_block env f gflags kr lmap fi (word_of_nat b) pos = Inr (dec, q)"
    using Suc.prems(1) by (auto split: sum.splits)
  from Suc.prems(2) e have ne: "dec \<noteq> []" "blocks_nonempty env f gflags kr lmap fi n (b + 1) q" by simp_all
  from Suc.prems(1) e ne(1) have g: "\<not> (w > expected \<or> word_of_nat (length dec) > expected - w)"
    and x: "extract_blocks env (\<lambda>_. True) f gflags kr lmap expected fi n (b + 1) q (content @ dec)
      (w + word_of_nat (length dec), zupt_xxh64 dec h) = Some (content', (w', h'), pos')"
    by (auto simp: zupt_write_verified_chunk_def split: if_splits)
  from Suc.IH [OF x ne(2)] g assms(2) [rule_format, of b] show ?case
    unfolding restore_blocks_step [OF assms(1) e] by simp
qed simp

text \<open>What reached the target is a sequence of chunks that size and hash follow.\<close>

lemma restore_blocks_content:
  assumes "gflags AND ZUPT_FLAG_DISK_IMAGE \<noteq> 0"
  shows "restore_blocks env wr f gflags kr lmap expected n b pos (content, w, h) = ((content', w', h'), k, ok) \<Longrightarrow>
    \<exists>chunks. content' = content @ concat chunks \<and> unat w' = unat w + length (concat chunks) \<and>
      h' = foldl (\<lambda>h x. zupt_xxh64 x h) h chunks"
proof (induction n arbitrary: b pos content w h)
  case 0
  then show ?case by (intro exI [of _ "[]"]) simp
next
  case (Suc n)
  have fin: ?case if "content' = content" "w' = w" "h' = h" using that by (intro exI [of _ "[]"]) simp
  show ?case
  proof (cases "extract_block env f gflags kr lmap 0 (word_of_nat b) pos")
    case (Inl err)
    then have "restore_blocks env wr f gflags kr lmap expected (Suc n) b pos (content, w, h) = ((content, w, h), b, False) \<or>
      restore_blocks env wr f gflags kr lmap expected (Suc n) b pos (content, w, h) = ((content, w, h), b, True)"
      using assms restore_ref_eq [OF assms, where fi = 0]
      by (auto simp: extract_block_def archive_data_aad_seq_def split: sum.splits if_splits)
    with Suc.prems fin show ?thesis by auto
  next
    case (Inr r)
    obtain dec q where r: "r = (dec, q)" by fastforce
    note s = restore_blocks_step [OF assms Inr [unfolded r], of wr expected n content w h]
    show ?thesis
    proof (cases "w > expected \<or> word_of_nat (length dec) > expected - w \<or> \<not> wr b")
      case True
      with s Suc.prems fin show ?thesis by simp
    next
      case False
      with s Suc.prems have x: "restore_blocks env wr f gflags kr lmap expected n (b + 1) q
          (content @ dec, w + word_of_nat (length dec), zupt_xxh64 dec h) = ((content', w', h'), k, ok)" by simp
      obtain chunks where c: "content' = (content @ dec) @ concat chunks"
        "unat w' = unat (w + word_of_nat (length dec)) + length (concat chunks)"
        "h' = foldl (\<lambda>h x. zupt_xxh64 x h) (zupt_xxh64 dec h) chunks" using Suc.IH [OF x] by blast
      have "zupt_write_verified_chunk True dec expected (w, h) =
          Some (w + word_of_nat (length dec), if dec = [] then h else zupt_xxh64 dec h)"
        using False by (simp add: zupt_write_verified_chunk_def)
      from verified_chunk_Some [OF this extract_block_length [OF Inr [unfolded r]]]
      have "unat (w + word_of_nat (length dec)) = unat w + length dec" by blast
      with c show ?thesis by (intro exI [of _ "dec # chunks"]) simp
    qed
  qed
qed

section \<open>The preflight\<close>

text \<open>What the test does with a disk archive, and what a restore does once it passed.\<close>

lemma disk_test_stream:
  assumes op: "open_archive unwrap (re_block env) (re_vvz env) (re_alloc env) f opts = Inr (o', hdr, ft, [e], pos)"
    and g: "global_flags hdr AND ZUPT_FLAG_DISK_IMAGE \<noteq> 0" "global_flags hdr AND ZUPT_FLAG_SOLID = 0"
  shows "zupt_test_archive_stream unwrap env after f opts =
    rbind (restore_aad_map env f (global_flags hdr) e) (\<lambda>m.
      Inr [fst (test_entry env after f (global_flags hdr) (opt_keyring o') m 0 e pos)])"
  using g
  by (auto simp: zupt_test_archive_stream_def op restore_aad_map_def Let_def case_prod_unfold
      intro!: arg_cong [where f = "rbind _"] split: sum.split)
     (cases "zupt_legacy_disk_aad_map_build (re_alloc env) f (ix_first_block_offset e) (ix_block_count e)"; simp)

lemma test_entry_passes:
  assumes "fst (test_entry env after f gflags kr m i e pos) = Inr ()"
  obtains h p where "test_blocks env f gflags kr m (ix_uncompressed_size e) i (unat (ix_block_count e)) 0
      (fseeko_set pos (ix_first_block_offset e)) (0, 0) = Inr ((ix_uncompressed_size e, h), p)"
    "require_content_hash gflags \<longrightarrow> h = ix_content_hash e"
  using assms by (auto simp: test_entry_def split: sum.splits if_splits)

lemma restore_opened:
  assumes op: "open_archive unwrap (re_block env) (re_vvz env) (re_alloc env) f opts = Inr (o', hdr, ft, es, pos)"
    and again: "open_archive unwrap (re_block env) (re_vvz env) (re_alloc env) f o' = Inr (o', hdr, ft, es, pos)"
    and r: "zupt_disk_restore unwrap env after te f opts = (Some content, r)"
  obtains e ts b where "es = [e]" "global_flags hdr AND ZUPT_FLAG_DISK_IMAGE \<noteq> 0" "ucast (ix_block_count e) = total_blocks ft"
    "zupt_test_archive_stream unwrap env after f o' = Inr ts" "test_status ts = Inr ()" "unat (ix_first_block_offset e) < 2 ^ 63"
    "open_restore_target (te_atomic te) (ix_uncompressed_size e) (te_target te) = Inr b"
    "(case restore_aad_map env f (global_flags hdr) e of
        Inl e \<Rightarrow> (Some [], Inl e)
      | Inr lmap \<Rightarrow>
          (case restore_blocks env (te_write te) f (global_flags hdr) (opt_keyring o') lmap (ix_uncompressed_size e)
                  (unat (total_blocks ft)) 0 (unat (ix_first_block_offset e)) ([], 0, 0) of
             ((content, total_written, restored_hash), seq, ok) \<Rightarrow>
               (Some content,
                if ok \<and> seq = unat (ix_block_count e) \<and> total_written = ix_uncompressed_size e \<and>
                  (global_flags hdr AND ZUPT_FLAG_DISK_CONTENT_HASH \<noteq> 0 \<longrightarrow> restored_hash = ix_content_hash e) \<and>
                  te_close te
                then Inr () else Inl ZUPT_ERR_CORRUPT))) = (Some content, r)"
proof -
  have n: "\<not> (f = [] \<or> \<not> te_snapshot te)"
  proof
    assume a: "f = [] \<or> \<not> te_snapshot te"
    show False using r unfolding zupt_disk_restore_def if_P [OF a] by simp
  qed
  note r1 = r [unfolded zupt_disk_restore_def if_not_P [OF n] op sum.case prod.case Let_def]
  have l: "\<not> (length es \<noteq> 1 \<or> global_flags hdr AND ZUPT_FLAG_DISK_IMAGE = 0)"
    using r1 by (auto split: if_splits)
  then obtain e where es: "es = [e]" by (auto simp: length_Suc_conv)
  note r2 = r1 [unfolded if_not_P [OF l], unfolded es nth_Cons_0]
  have c: "\<not> (ucast (ix_block_count e) \<noteq> total_blocks ft \<or> ix_first_block_offset e \<ge> index_offset ft)"
    using r2 by (auto split: if_splits)
  note r3 = r2 [unfolded if_not_P [OF c]]
  obtain ts where ts: "zupt_test_archive_stream unwrap env after f o' = Inr ts" "test_status ts = Inr ()"
    using r3 by (cases "rbind (zupt_test_archive_stream unwrap env after f o') test_status") (auto simp: rbind_Inr_iff)
  note r4 = r3 [unfolded ts rbind_simps sum.case again [unfolded es] prod.case]
  have off: "\<not> unat (ix_first_block_offset e) \<ge> 2 ^ 63" using r4 by (auto split: if_splits)
  note r5 = r4 [unfolded if_not_P [OF off]]
  obtain b where b: "open_restore_target (te_atomic te) (ix_uncompressed_size e) (te_target te) = Inr b"
    using r5 by (cases "open_restore_target (te_atomic te) (ix_uncompressed_size e) (te_target te)") auto
  show ?thesis
    by (rule that [OF es _ _ ts _ b r5 [unfolded b sum.case]]) (use l c off in auto)
qed

section \<open>From the source to the archive\<close>

lemma parse_index_unsafe:
  assumes "\<forall>n. alloc n" "ix_path e \<noteq> []" "length (ix_path e) < ZUPT_MAX_PATH" "zupt_path_has_unsafe_text (ix_path e)"
  shows "parse_index alloc (write_index [e]) = Inl ZUPT_ERR_CORRUPT"
proof -
  have l: "unat (word_of_nat (length (ix_path e)) :: u64) = length (ix_path e)"
    using assms(3) by (intro unat_small) (simp add: ZUPT_MAX_PATH_def)
  have nz: "(word_of_nat (length (ix_path e)) :: u64) \<noteq> 0" using assms(2) l by (metis length_0_conv unat_0)
  have pe: "parse_index_entry (write_index_entry e) = Inl ZUPT_ERR_CORRUPT"
    using assms l nz by (simp add: parse_index_entry_def write_index_entry_def index_varint_iff [THEN iffD2] Let_def)
  have one: "1 \<le> length (zupt_encode_varint v)" for v
    using zupt_encode_varint_nonempty [of v] by (cases "zupt_encode_varint v") auto
  have "1 \<le> length (ix_path e)" using assms(2) by (cases "ix_path e") simp_all
  then have "47 \<le> length (write_index_entry e)"
    using one [of "word_of_nat (length (ix_path e))"] one [of "ucast (ix_block_count e)"]
    by (simp add: write_index_entry_def index_fields)
  then have n: "1 \<le> length (write_index_entry e) div ZUPT_MIN_INDEX_ENTRY_BYTES"
    by (simp add: ZUPT_MIN_INDEX_ENTRY_BYTES_def)
  have "index_varint (write_index [e]) = Inr (1, write_index_entry e)"
    using assms(2) by (simp add: index_varint_iff write_index_def)
  then show ?thesis
    using n pe assms(1) index_limit
    by (simp add: parse_index_def ZUPT_MAX_FILES_def index_entry_sizeof_def ZUPT_MAX_PATH_def)
qed

lemma disk_options_fields:
  "opt_encrypt (disk_options we opts) = opt_encrypt opts" "opt_dedup (disk_options we opts) = opt_dedup opts"
  "opt_password (disk_options we opts) = opt_password opts"
  "opt_keyring (disk_options we opts) = (if opt_encrypt opts then (opt_keyring opts)\<lparr>use_preface_aad := True\<rparr> else opt_keyring opts)"
  "password_mode we (disk_options we opts) = password_mode we opts" "0 < unat (opt_block_size (disk_options we opts))"
proof -
  have "opt_block_size (disk_options we opts) \<ge> ZUPT_MIN_BLOCK_SZ"
    by (simp add: disk_options_def Let_def not_less ZUPT_MIN_BLOCK_SZ_def)
  then show "0 < unat (opt_block_size (disk_options we opts))" by (simp add: word_le_nat_alt ZUPT_MIN_BLOCK_SZ_def)
qed (simp_all add: disk_options_def Let_def password_mode_def enc_header_type_def)

lemma disk_flags:
  fixes we opts
  defines "g \<equiv> global_flags (disk_header we opts)"
  shows "disk_flags_match opts g" "header_flags_consistent g" "g AND ZUPT_FLAG_SOLID = 0" "g AND ZUPT_FLAG_DISK_CONTENT_HASH \<noteq> 0"
    "g AND ZUPT_FLAG_ENCRYPTED \<noteq> 0 \<longleftrightarrow> opt_encrypt opts" "g AND ZUPT_FLAG_AAD_PREFACE \<noteq> 0 \<longleftrightarrow> opt_encrypt opts"
    "g AND ZUPT_FLAG_DEDUP \<noteq> 0 \<longleftrightarrow> opt_dedup opts"
  by (cases "opt_encrypt opts"; cases "opt_dedup opts"; cases "opt_threads opts > 1";
      simp add: g_def disk_header_def disk_flags_match_def header_flags_consistent_def Let_def)+

lemma disk_header_fields:
  "length (we_random_id we) = 16 \<Longrightarrow> header_wf (disk_header we opts)"
  "hdr_magic (disk_header we opts) = zupt_magic" "version_major (disk_header we opts) = 1"
  "comment_offset (disk_header we opts) = 0"
  by (simp_all add: disk_header_def header_wf_def gen_uuid_def zupt_magic_def)

text \<open>The loop, with chunks among \<open>X\<close>.\<close>

lemma disk_loop:
  assumes we: "\<forall>k. length (we_nonce we k) = 16" "codecs_ok we opts env"
      "active (opt_keyring opts) = opt_encrypt opts"
    and env: "read_ok env" and fl: "disk_flags_match opts gflags"
    and X: "no_collision opts X" "chunks_in bs src X" "dedup_ok env opts {x \<in> X. length x \<le> bs} (cw_out st) (cw_dedup st)"
    and bs: "0 < bs" "bs \<le> ZUPT_MAX_BLOCK_SZ" "bs + 257 \<le> cap"
    and out: "64 \<le> length (cw_out st)" "length (cw_out st') < 2 ^ 63"
    and w: "write_chunks (disk_block we opts cap) bs src st = Inr st'"
  shows "cw_seq st \<le> cw_seq st' \<and> (cw_seq st' - cw_seq st) * bs < length src + bs \<and> unpacks env opts gflags fi st st' src"
proof -
  define we' where "we' = we\<lparr>we_index := ce_lzh (we_codec we 0)\<rparr>"
  let ?X = "{x \<in> X. length x \<le> bs}"
  have ok: "write_ok we' opts env" using we by (simp add: write_ok_def codecs_ok_def we'_def codec_mem_def)
  have same: "we_mem we' = we_mem we" "we_nonce we' = we_nonce we" "we_codec we' = we_codec we" by (simp_all add: we'_def)
  have db: "disk_block we' opts cap = disk_block we opts cap"
    unfolding fun_eq_iff disk_block_def write_block_or_ref_def write_data_block_def same by blast
  have nc: "no_collision opts ?X" using X(1) by (simp add: no_collision_def)
  have ci: "chunks_in bs src ?X" using X(2) by (simp add: chunks_in_def)
  have ext: "\<forall>x s s'. disk_block we' opts cap x s = Inr s' \<longrightarrow> (\<exists>y. cw_out s' = cw_out s @ y)"
    unfolding disk_block_def using write_block_or_ref_extends by blast
  have blk: "chunk_written env opts gflags fi ?X x s s'"
    if "disk_block we' opts cap x s = Inr s'" "dedup_ok env opts ?X (cw_out s) (cw_dedup s)" "x \<in> ?X"
      "length x \<le> ZUPT_MAX_BLOCK_SZ" "64 \<le> length (cw_out s)" "length (cw_out s) < 2 ^ 63" for x s s'
    using that(3) bs(3) by (intro disk_block_step [OF that(1) ok env fl that(2) nc that(3-6)]) simp
  show ?thesis
    using write_chunks_step [OF blk ext bs(1,2) out(2) w [folded db] X(3) ci out(1)] by blast
qed

abbreviation disk_capacity :: "write_env \<Rightarrow> nat \<Rightarrow> nat" where
  "disk_capacity we bs \<equiv> max (ce_vv_bound (we_codec we 0) bs + 512) (zupt_lzh_bound bs + 512)"

lemma required_blocks:
  assumes "0 < (bs :: nat)" "n div bs + (if n mod bs \<noteq> 0 then 1 else 0) \<le> m"
  shows "n \<le> m * bs"
proof -
  define q r where "q = n div bs" and "r = n mod bs"
  have n: "n = q * bs + r" "r < bs" using assms(1) by (simp_all add: q_def r_def)
  have "q + (if r \<noteq> 0 then 1 else 0) \<le> m" using assms(2) by (simp only: q_def r_def)
  then have "(q + (if r \<noteq> 0 then 1 else 0)) * bs \<le> m * bs" by (rule mult_right_mono) simp
  moreover have "n \<le> (q + (if r \<noteq> 0 then 1 else 0)) * bs" using n by (simp add: algebra_simps)
  ultimately show ?thesis by (rule order_trans [rotated])
qed

lemma disk_backup_Inr:
  assumes "zupt_disk_backup we mtime wopts source_path src = Inr f"
  obtains out hdr o2 st dd where "0 < length src" "length src < 2 ^ 63"
    "length src \<le> (2 ^ 32 - 1) * unat (opt_block_size (disk_options we wopts))"
    "enc_phase we (disk_header we (disk_options we wopts)) (disk_options we wopts) = Inr (out, hdr, o2)"
    "dd = (if opt_dedup o2 then zupt_dedup_init (fst (we_dedup we)) (snd (we_dedup we)) else None)"
    "write_chunks (disk_block we o2 (disk_capacity we (unat (opt_block_size (disk_options we wopts)))))
       (unat (opt_block_size (disk_options we wopts))) src
       \<lparr>cw_out = out, cw_dedup = dd, cw_seq = 0, cw_hash = 0, cw_comp = 0, cw_count = 0, cw_total = 0\<rparr> = Inr st"
    "disk_finish we o2 hdr st (disk_entry source_path mtime (length src) (word_of_nat (length out)) st) = Inr f"
proof -
  let ?bs = "unat (opt_block_size (disk_options we wopts))"
  note a = assms [unfolded zupt_disk_backup_def Let_def]
  have n1: "\<not> (length src = 0 \<or> length src > 0x7FFFFFFFFFFFFFFF)" using a by (auto split: if_splits)
  note a2 = a [unfolded if_not_P [OF n1]]
  have n2: "\<not> length src div ?bs + (if length src mod ?bs \<noteq> 0 then 1 else 0) > 0xFFFFFFFF" using a2 by (auto split: if_splits)
  note a3 = a2 [unfolded if_not_P [OF n2]]
  obtain out hdr o2 where e: "enc_phase we (disk_header we (disk_options we wopts)) (disk_options we wopts) = Inr (out, hdr, o2)"
    using a3 by (cases "enc_phase we (disk_header we (disk_options we wopts)) (disk_options we wopts)") auto
  note a4 = a3 [unfolded e rbind_simps prod.case]
  define dd where "dd = (if opt_dedup o2 then zupt_dedup_init (fst (we_dedup we)) (snd (we_dedup we)) else None)"
  from a4 obtain st where st: "write_chunks (disk_block we o2 (disk_capacity we ?bs)) ?bs src
       \<lparr>cw_out = out, cw_dedup = dd, cw_seq = 0, cw_hash = 0, cw_comp = 0, cw_count = 0, cw_total = 0\<rparr> = Inr st"
    "disk_finish we o2 hdr st (disk_entry source_path mtime (length src) (word_of_nat (length out)) st) = Inr f"
    unfolding dd_def [symmetric] by (auto simp: rbind_Inr_iff split: if_splits)
  have "length src \<le> (2 ^ 32 - 1) * ?bs" using n2 by (intro required_blocks disk_options_fields(6)) simp
  with n1 show ?thesis by (intro that [OF _ _ _ e dd_def st]) auto
qed

lemma disk_finish_shape:
  assumes fin: "disk_finish we opts hdr st e = Inr f" and e: "ix_path e \<noteq> []"
    and we: "\<forall>k. length (we_nonce we k) = 16" "codecs_ok we opts env"
    and out: "64 \<le> length (cw_out st)" "take 64 (cw_out st) = zupt_serialize_archive_header hdr"
  obtains b ft ck where
    "f = zupt_serialize_archive_header hdr @ drop 64 (cw_out st) @ [] @ write_block b @ zupt_serialize_footer ft @
       zupt_format_ait_write hdr ft (if opt_encrypt opts then Some (opt_keyring opts) else None)"
    "index_frame opts [e] b" "ft = make_footer (length (cw_out st @ [])) (cw_seq st) ck"
    "length f \<le> length (cw_out st) + length (write_index [e]) + 147"
proof -
  define s where "s = write_index [e]"
  obtain fp where fp: "seal_payload (we_mem we (cw_total st)) (we_nonce we (cw_total st)) (opt_encrypt opts) (opt_keyring opts)
       ZUPT_BLOCK_INDEX ZUPT_CODEC_STORE (length s) s (zupt_xxh64 s 0) index_aad_seq = Some fp"
    and f: "f = cw_out st @ frame_block ZUPT_BLOCK_INDEX ZUPT_CODEC_STORE (length s) (zupt_xxh64 s 0) fp @
      zupt_serialize_footer (make_footer (length (cw_out st)) (cw_seq st)
        (unat (zupt_xxh64 (zupt_serialize_archive_header hdr) (word_of_nat (cw_seq st))))) @
      zupt_format_ait_write hdr (make_footer (length (cw_out st)) (cw_seq st)
        (unat (zupt_xxh64 (zupt_serialize_archive_header hdr) (word_of_nat (cw_seq st)))))
        (if opt_encrypt opts then Some (opt_keyring opts) else None)"
    using fin unfolding disk_finish_def Let_def s_def [symmetric]
    by (auto simp: make_footer_def split: option.splits)
  define b where "b = frame_of ZUPT_BLOCK_INDEX ZUPT_CODEC_STORE (length s) (zupt_xxh64 s 0) fp"
  define ft where "ft = make_footer (length (cw_out st @ [])) (cw_seq st)
        (unat (zupt_xxh64 (zupt_serialize_archive_header hdr) (word_of_nat (cw_seq st))))"
  have fb: "frame_block ZUPT_BLOCK_INDEX ZUPT_CODEC_STORE (length s) (zupt_xxh64 s 0) fp = write_block b"
    by (simp add: b_def frame_block_eq)
  have nonce: "length (we_nonce we (cw_total st)) = 16" "lzh_mem (ce_lzh (we_codec we 0))" using we by (simp_all add: codecs_ok_def codec_mem_def)
  have ib: "index_frame opts [e] b"
    unfolding index_frame_def s_def [symmetric]
    by (intro exI conjI, rule nonce(1), rule nonce(2), rule b_def, rule disjI1, rule conjI, rule refl, rule refl, rule fp)
  have co: "cw_out st = zupt_serialize_archive_header hdr @ drop 64 (cw_out st)" using out(2) append_take_drop_id [of 64 "cw_out st"] by simp
  have l: "length (write_block b) \<le> 83 + length s"
    using length_sealed_frame [OF fp nonce(1)] fb by metis
  have "length (zupt_serialize_footer ft) = 32"
    using make_footer_valid by (simp add: ft_def footer_valid_wf length_serialize_footer)
  moreover have "length (zupt_format_ait_write hdr ft k) = 32" for k by simp
  ultimately have "length f \<le> length (cw_out st) + length s + 147" using l unfolding f ft_def fb by simp
  moreover have "f = zupt_serialize_archive_header hdr @ drop 64 (cw_out st) @ [] @ write_block b @ zupt_serialize_footer ft @
       zupt_format_ait_write hdr ft (if opt_encrypt opts then Some (opt_keyring opts) else None)"
    unfolding f fb ft_def by (subst co) simp
  ultimately show ?thesis using that ib ft_def unfolding s_def by blast
qed

section \<open>The archive opens and its blocks are the source\<close>

definition disk_setting ::
  "write_env \<Rightarrow> zupt_options_t \<Rightarrow> bytes \<Rightarrow> bytes set \<Rightarrow> read_env \<Rightarrow> zupt_options_t \<Rightarrow> bool" where
  "disk_setting we wopts src X env ropts \<longleftrightarrow>
     (\<forall>k. length (we_nonce we k) = 16) \<and> codecs_ok we (disk_options we wopts) env \<and>
     length (we_random_id we) = 16 \<and> read_ok env \<and>
     unat (opt_block_size (disk_options we wopts)) \<le> ZUPT_MAX_BLOCK_SZ \<and>
     opt_keyring wopts = zupt_keyring_init \<and> opt_keyring ropts = zupt_keyring_init \<and>
     (opt_encrypt wopts \<longrightarrow> password_mode we wopts \<and> opt_password ropts = opt_password wopts) \<and>
     chunks_in (unat (opt_block_size (disk_options we wopts))) src X \<and> no_collision wopts X \<and> length src < 2 ^ 55"

text \<open>Every block read moves the position.\<close>

lemma extract_block_forward: "extract_block env f gflags kr lmap fi bi pos = Inr (dec, q) \<Longrightarrow> pos < q"
  by (auto simp: extract_block_def rbind_Inr_iff split: if_splits dest!: read_block_at_forward)

lemma extract_blocks_forward:
  "extract_blocks env wr f gflags kr lmap expected fi n b pos content st = Some (c, st', q) \<Longrightarrow> pos + n \<le> q"
proof (induction n arbitrary: b pos content st)
  case (Suc n)
  obtain dec p st1 where e: "extract_block env f gflags kr lmap fi (word_of_nat b) pos = Inr (dec, p)"
    "extract_blocks env wr f gflags kr lmap expected fi n (b + 1) p (content @ dec) st1 = Some (c, st', q)"
    using Suc.prems by (auto split: sum.splits option.splits)
  from extract_block_forward [OF e(1)] Suc.IH [OF e(2)] show ?case by simp
qed simp

text \<open>What an opened disk archive is to have of its source.\<close>

definition disk_image_of :: "read_env \<Rightarrow> bytes \<Rightarrow> bytes \<Rightarrow> u32 \<Rightarrow> zupt_keyring_t \<Rightarrow> zupt_footer_t \<Rightarrow> zupt_index_entry_t \<Rightarrow> bool" where
  "disk_image_of env f src g kr ft e \<longleftrightarrow>
     g AND ZUPT_FLAG_DISK_IMAGE \<noteq> 0 \<and> g AND ZUPT_FLAG_SOLID = 0 \<and> restore_aad_map env f g e = Inr None \<and>
     ix_uncompressed_size e = word_of_nat (length src) \<and> ucast (ix_block_count e) = total_blocks ft \<and>
     ix_first_block_offset e < index_offset ft \<and> unat (ix_first_block_offset e) < 2 ^ 63 \<and>
     (\<exists>q. extract_blocks env (\<lambda>_. True) f g kr None (ix_uncompressed_size e) 0 (unat (ix_block_count e)) 0
        (unat (ix_first_block_offset e)) [] (0, 0) = Some (src, (ix_uncompressed_size e, ix_content_hash e), q)) \<and>
     blocks_nonempty env f g kr None 0 (unat (ix_block_count e)) 0 (unat (ix_first_block_offset e))"

lemma disk_chunks_length:
  assumes "write_chunks (disk_block we opts cap) bs src st = Inr st'" "\<forall>k. length (we_nonce we k) = 16"
  shows "length (cw_out st') \<le> length (cw_out st) + 100 * length src"
proof (rule write_chunks_length [OF _ assms(1)])
  show "length (cw_out s') \<le> length (cw_out s) + 99 + length x" if "disk_block we opts cap x s = Inr s'" for x s s'
    using that unfolding disk_block_def by (rule write_block_or_ref_length [OF _ assms(2) disk_chunk_length])
qed

lemma disk_chunks_extend:
  assumes "write_chunks (disk_block we opts cap) bs src st = Inr st'"
  shows "\<exists>y. cw_out st' = cw_out st @ y"
  using assms by (rule write_chunks_extends [rotated]) (auto simp: disk_block_def dest: write_block_or_ref_extends)

text \<open>The blocks between the start of the file and its index.\<close>

lemma disk_written_image:
  fixes out src source_path mtime st
  defines "e \<equiv> disk_entry source_path mtime (length src) (word_of_nat (length out)) st"
  assumes ch: "write_chunks (disk_block we opts cap) bs src
       \<lparr>cw_out = out, cw_dedup = (if opt_dedup opts then zupt_dedup_init m1 m2 else None), cw_seq = 0, cw_hash = 0,
         cw_comp = 0, cw_count = 0, cw_total = 0\<rparr> = Inr st"
    and we: "\<forall>k. length (we_nonce we k) = 16" "codecs_ok we opts env"
      "active (opt_keyring opts) = opt_encrypt opts"
    and env: "read_ok env" and fl: "disk_flags_match opts g" "g AND ZUPT_FLAG_SOLID = 0"
      "g AND ZUPT_FLAG_ENCRYPTED \<noteq> 0 \<longleftrightarrow> opt_encrypt opts" "g AND ZUPT_FLAG_DEDUP \<noteq> 0 \<longleftrightarrow> opt_dedup opts"
    and X: "no_collision opts X" "chunks_in bs src X"
    and bs: "0 < bs" "bs \<le> ZUPT_MAX_BLOCK_SZ" "bs + 257 \<le> cap"
    and len: "0 < length src" "length src < 2 ^ 63" "length src \<le> (2 ^ 32 - 1) * bs" "64 \<le> length out" "length (cw_out st) < 2 ^ 63"
    and f: "covers f (cw_out st)" and ft: "ft = make_footer (length (cw_out st)) (cw_seq st) ck"
  shows "disk_image_of env f src g (opt_keyring opts) ft e"
proof -
  define s0 where "s0 = \<lparr>cw_out = out, cw_dedup = (if opt_dedup opts then zupt_dedup_init m1 m2 else None), cw_seq = 0, cw_hash = 0,
         cw_comp = 0, cw_count = 0, cw_total = 0\<rparr>"
  have s0: "cw_out s0 = out" "cw_seq s0 = 0" "cw_hash s0 = 0" by (simp_all add: s0_def)
  have dok: "dedup_ok env opts {x \<in> X. length x \<le> bs} (cw_out s0) (cw_dedup s0)"
    using dedup_run.start
    by (auto simp: s0_def dedup_ok_def zupt_dedup_init_def split: option.splits if_splits intro!: exI [of _ "[]"])
  from disk_loop [OF we env fl(1) X dok bs _ len(5) ch [folded s0_def], of 0] len(4) s0
  have r: "cw_seq st * bs < length src + bs" "unpacks env opts g 0 s0 st src" by simp_all
  have n32: "cw_seq st < 2 ^ 32"
  proof -
    have "cw_seq st * bs < (2 ^ 32 - 1) * bs + bs" using r(1) len(3) by linarith
    also have "\<dots> = 2 ^ 32 * bs" by simp
    finally show ?thesis by (simp only: mult_less_cancel2)
  qed
  have u: "unat (word_of_nat (cw_seq st) :: u32) = cw_seq st" "unat (word_of_nat (length out) :: u64) = length out"
    "unat (word_of_nat (length (cw_out st)) :: u64) = length (cw_out st)"
    using n32 len(5) disk_chunks_extend [OF ch] by (auto simp: unat_of_nat intro!: unat_small)
  have bl: "extract_blocks env (\<lambda>_. True) f g (opt_keyring opts) None (word_of_nat (length src)) 0 (cw_seq st) 0 (length out) [] (0, 0) =
       Some (src, (word_of_nat (length src), cw_hash st), length (cw_out st)) \<and>
       blocks_nonempty env f g (opt_keyring opts) None 0 (cw_seq st) 0 (length out)"
    using r(2) [unfolded unpacks_def, rule_format, of f 0 "length src" "[]"] f len(2) s0 by simp
  have "cw_seq st \<noteq> 0"
  proof
    assume "cw_seq st = 0"
    with bl len(1) show False by simp
  qed
  then have fwd: "length out < length (cw_out st)" using extract_blocks_forward [OF bl [THEN conjunct1]] by simp
  have bc: "(ucast (word_of_nat (cw_seq st) :: u32) :: u64) = word_of_nat (cw_seq st)"
    using u(1) n32 by (simp add: word_unat_eq_iff unat_small unsigned_ucast_eq unsigned_take_bit_eq take_bit_nat_eq_self)
  have m: "restore_aad_map env f g e = Inr None"
    using fl by (auto simp: restore_aad_map_def disk_flags_match_def)
  show ?thesis
    unfolding disk_image_of_def
    using m fl(1,2) bc u fwd bl len(5)
    by (simp add: e_def disk_entry_def ft make_footer_def word_less_nat_alt disk_flags_match_def)
qed

lemma disk_opens:
  assumes w: "zupt_disk_backup we mtime wopts source_path src = Inr f" and s: "disk_setting we wopts src X env ropts"
  shows "\<exists>o' hdr ft e pos. f \<noteq> [] \<and> ix_path e = disk_archive_label source_path \<and>
    open_archive unwrap (re_block env) (re_vvz env) (re_alloc env) f ropts =
      (if zupt_path_has_unsafe_text (ix_path e) then Inl ZUPT_ERR_CORRUPT else Inr (o', hdr, ft, [e], pos)) \<and>
    disk_image_of env f src (global_flags hdr) (opt_keyring o') ft e"
proof -
  let ?o = "disk_options we wopts"
  let ?bs = "unat (opt_block_size ?o)"
  note set = s [unfolded disk_setting_def]
  obtain out hdr o2 st dd where
    len: "0 < length src" "length src < 2 ^ 63" "length src \<le> (2 ^ 32 - 1) * ?bs"
    and enc: "enc_phase we (disk_header we ?o) ?o = Inr (out, hdr, o2)"
    and dd: "dd = (if opt_dedup o2 then zupt_dedup_init (fst (we_dedup we)) (snd (we_dedup we)) else None)"
    and ch: "write_chunks (disk_block we o2 (disk_capacity we ?bs)) ?bs src
       \<lparr>cw_out = out, cw_dedup = dd, cw_seq = 0, cw_hash = 0, cw_comp = 0, cw_count = 0, cw_total = 0\<rparr> = Inr st"
    and fin: "disk_finish we o2 hdr st (disk_entry source_path mtime (length src) (word_of_nat (length out)) st) = Inr f"
    by (rule disk_backup_Inr [OF w])
  let ?s0 = "\<lparr>cw_out = out, cw_dedup = dd, cw_seq = 0, cw_hash = 0, cw_comp = 0, cw_count = 0, cw_total = 0\<rparr>"
  define e where "e = disk_entry source_path mtime (length src) (word_of_nat (length out)) st"
  have id: "length (we_random_id we) = 16" and env: "read_ok env" using set by blast+
  have nonce: "\<forall>k. length (we_nonce we k) = 16" using set by blast
  have pw: "opt_encrypt ?o \<longrightarrow> password_mode we ?o \<and> opt_password ropts = opt_password ?o"
    using set by (simp add: disk_options_fields)
  have kr: "opt_keyring ?o = (if opt_encrypt ?o then zupt_keyring_init\<lparr>use_preface_aad := True\<rparr> else zupt_keyring_init)"
    "opt_keyring ropts = zupt_keyring_init" using set by (simp_all add: disk_options_fields)
  note df = disk_flags [where we = we and opts = ?o]
  note ep = enc_phase_ok [OF enc disk_header_fields(1) [OF id] disk_header_fields(2-4) df(5) pw kr]
  note el = enc_phase_length [OF enc disk_header_fields(1) [OF id]]
  have o2: "opt_encrypt o2 = opt_encrypt ?o" "opt_codec_id o2 = opt_codec_id ?o" "opt_dedup o2 = opt_dedup ?o"
    using arg_cong [OF ep(8), of opt_encrypt] arg_cong [OF ep(8), of opt_codec_id] arg_cong [OF ep(8), of opt_dedup] by simp_all
  have co: "codecs_ok we o2 env" using set o2(2) by (simp add: codecs_ok_def)
  obtain y where y: "cw_out st = out @ y" using disk_chunks_extend [OF ch] by auto
  have lo: "64 \<le> length (cw_out st)" and tk: "take 64 (cw_out st) = zupt_serialize_archive_header hdr"
    using ep(6,7) by (simp_all add: y)
  have pe: "ix_path e = disk_archive_label source_path" by (simp add: e_def disk_entry_def)
  note lb = disk_label_entry [of source_path, folded pe]
  obtain b ft ck where
    f: "f = zupt_serialize_archive_header hdr @ drop 64 (cw_out st) @ [] @ write_block b @ zupt_serialize_footer ft @
       zupt_format_ait_write hdr ft (if opt_encrypt o2 then Some (opt_keyring o2) else None)"
    and ib: "index_frame o2 [e] b" and ft: "ft = make_footer (length (cw_out st @ [])) (cw_seq st) ck"
    and lf: "length f \<le> length (cw_out st) + length (write_index [e]) + 147"
    by (rule disk_finish_shape [OF fin [folded e_def] _ nonce co lo tk]) (use lb in blast)
  have wl: "length (write_index [e]) \<le> 74 + 4096"
    using length_write_index_le [of "[e]"] lb by (simp add: ZUPT_MAX_PATH_def)
  have lc: "length (cw_out st) \<le> 152 + 100 * length src" using disk_chunks_length [OF ch nonce] el pw by simp
  have l55: "length src < 2 ^ 55" using set by blast
  have l63: "length f < 2 ^ 63" "length (cw_out st) < 2 ^ 63" using lf wl lc l55 by simp_all
  have cov: "covers f (cw_out st)"
    using finish_hdr_len [OF l63(1) f length_serialize_header [OF ep(1)] lo] by blast
  note g = df [folded ep(3)]
  have fl: "disk_flags_match o2 (global_flags hdr)" using g(1) o2 by (simp add: disk_flags_match_def)
  have d64: "drop 64 f = drop 64 out @ (y @ [] @ write_block b @ zupt_serialize_footer ft @
       zupt_format_ait_write hdr ft (if opt_encrypt o2 then Some (opt_keyring o2) else None))"
    using length_serialize_header [OF ep(1)] ep(7) by (subst f) (simp add: y)
  from ep(10) [where unwrap = unwrap and pos = "length f" and h = hdr, OF env d64]
  obtain kr1 q where rd: "read_enc_header unwrap (re_alloc env) f (length f) hdr ropts = Inr (ropts\<lparr>opt_keyring := kr1\<rparr>, q)"
    and kr1: "(if opt_encrypt o2 then kr1\<lparr>use_preface_aad := True\<rparr> else kr1) = opt_keyring o2"
    using o2(1) by auto
  have nl: "\<not> legacy_disk_index (global_flags hdr)" using g(4) by (simp add: legacy_disk_index_def)
  have wb: "length (write_index [e]) \<le> ZUPT_MAX_BLOCK_SZ" using wl by (simp add: ZUPT_MAX_BLOCK_SZ_def)
  obtain o' pos where op: "open_archive unwrap (re_block env) (re_vvz env) (re_alloc env) f ropts =
      rbind (parse_index (re_alloc env) (write_index [e])) (\<lambda>es. Inr (o', hdr, ft, es, pos))"
    and o': "opt_keyring o' = opt_keyring o2"
    using open_finished_parse [OF f refl ft ib ep(1,4,5) g(2) nl _ _ disjI1 lo l63(1) env _ wb rd kr1] g(5,6) o2(1) ep(2,9) by auto
  have al: "\<forall>n. re_alloc env n" using env by (simp add: read_ok_def)
  have "parse_index (re_alloc env) (write_index [e]) =
      (if zupt_path_has_unsafe_text (ix_path e) then Inl ZUPT_ERR_CORRUPT else Inr [e])"
    using parse_index_unsafe [OF al] parse_written_index [OF env, of "[e]"] lb disk_label_no_nul [of source_path] index_limit
    by (simp add: pe index_ok_def index_entry_ok_def zupt_validate_archive_destinations_def)
  with op have opened: "open_archive unwrap (re_block env) (re_vvz env) (re_alloc env) f ropts =
      (if zupt_path_has_unsafe_text (ix_path e) then Inl ZUPT_ERR_CORRUPT else Inr (o', hdr, ft, [e], pos))" by simp
  have cap: "?bs + 257 \<le> disk_capacity we ?bs" by (simp add: zupt_lzh_bound_def)
  have "disk_image_of env f src (global_flags hdr) (opt_keyring o2) ft e"
    unfolding e_def
    by (rule disk_written_image [where X = X, OF ch [unfolded dd] nonce co _ env fl g(3) _ _ _ _ disk_options_fields(6) _ cap len ep(7) l63(2) cov])
       (use set o2 ep(9) g(5,7) ft in \<open>simp_all add: disk_options_fields no_collision_def\<close>)
  moreover have "f \<noteq> []" using length_serialize_header [OF ep(1)] by (subst f) auto
  ultimately show ?thesis using opened pe o' by (intro exI [of _ o'] exI [of _ hdr] exI [of _ ft] exI [of _ e] exI [of _ pos]) simp
qed

section \<open>The restore\<close>

text \<open>A target that takes the image: it can be opened, written and closed.\<close>

definition target_takes :: "target_env \<Rightarrow> u64 \<Rightarrow> bool" where
  "target_takes te expected_size \<longleftrightarrow> te_snapshot te \<and> (\<forall>i. te_write te i) \<and> te_close te \<and>
     (\<exists>b. open_restore_target (te_atomic te) expected_size (te_target te) = Inr b)"

lemma disk_image_tests:
  assumes op: "open_archive unwrap (re_block env) (re_vvz env) (re_alloc env) f opts = Inr (o', hdr, ft, [e], pos)"
    and img: "disk_image_of env f src (global_flags hdr) (opt_keyring o') ft e"
  shows "zupt_test_archive_stream unwrap env after f opts = Inr [Inr ()]"
proof -
  note d = img [unfolded disk_image_of_def]
  obtain q where x: "extract_blocks env (\<lambda>_. True) f (global_flags hdr) (opt_keyring o') None (ix_uncompressed_size e) 0
      (unat (ix_block_count e)) 0 (unat (ix_first_block_offset e)) [] (0, 0) = Some (src, (ix_uncompressed_size e, ix_content_hash e), q)"
    and ne: "blocks_nonempty env f (global_flags hdr) (opt_keyring o') None 0 (unat (ix_block_count e)) 0 (unat (ix_first_block_offset e))"
    using d by blast
  from test_blocks_extract [OF ne, where expected = "ix_uncompressed_size e" and content = "[]" and st = "(0, 0)"] x d
  have "fst (test_entry env after f (global_flags hdr) (opt_keyring o') None 0 e pos) = Inr ()"
    by (simp add: test_entry_def fseeko_set_def)
  with disk_test_stream [OF op, of after] d show ?thesis by simp
qed

lemma disk_image_restored:
  assumes op: "open_archive unwrap (re_block env) (re_vvz env) (re_alloc env) f opts = Inr (o', hdr, ft, [e], pos)"
    and again: "open_archive unwrap (re_block env) (re_vvz env) (re_alloc env) f o' = Inr (o', hdr, ft, [e], pos)"
    and img: "disk_image_of env f src (global_flags hdr) (opt_keyring o') ft e"
    and te: "target_takes te (ix_uncompressed_size e)" and f: "f \<noteq> []"
  shows "zupt_disk_restore unwrap env after te f opts = (Some src, Inr ())"
proof -
  note d = img [unfolded disk_image_of_def]
  obtain b where b: "open_restore_target (te_atomic te) (ix_uncompressed_size e) (te_target te) = Inr b"
    using te by (auto simp: target_takes_def)
  have n1: "\<not> (f = [] \<or> \<not> te_snapshot te)" using te f by (simp add: target_takes_def)
  have n2: "\<not> (length [e] \<noteq> 1 \<or> global_flags hdr AND ZUPT_FLAG_DISK_IMAGE = 0)" using d by simp
  have n3: "\<not> (ucast (ix_block_count e) \<noteq> total_blocks ft \<or> ix_first_block_offset e \<ge> index_offset ft)"
    using d by (simp add: not_le)
  have n4: "\<not> unat (ix_first_block_offset e) \<ge> 2 ^ 63" using d by (simp add: not_le)
  have tb: "unat (total_blocks ft) = unat (ix_block_count e)"
  proof -
    have "total_blocks ft = ucast (ix_block_count e)" using d by simp
    then show ?thesis
      using unat_lt2p [of "ix_block_count e"] by (simp add: unsigned_ucast_eq unsigned_take_bit_eq take_bit_nat_eq_self)
  qed
  have rb: "restore_blocks env (te_write te) f (global_flags hdr) (opt_keyring o') None (ix_uncompressed_size e)
      (unat (ix_block_count e)) 0 (unat (ix_first_block_offset e)) ([], 0, 0) =
      ((src, ix_uncompressed_size e, ix_content_hash e), 0 + unat (ix_block_count e), True)"
  proof -
    obtain q where q: "extract_blocks env (\<lambda>_. True) f (global_flags hdr) (opt_keyring o') None (ix_uncompressed_size e) 0
      (unat (ix_block_count e)) 0 (unat (ix_first_block_offset e)) [] (0, 0) = Some (src, (ix_uncompressed_size e, ix_content_hash e), q)"
      using d by blast
    show ?thesis using d te by (intro extract_restores [OF _ _ q]) (auto simp: target_takes_def)
  qed
  have t: "rbind (zupt_test_archive_stream unwrap env after f o') test_status = Inr ()"
    using disk_image_tests [OF again img] by (simp add: test_status_def)
  have m: "restore_aad_map env f (global_flags hdr) e = Inr None" and c: "te_close te" using d te by (simp_all add: target_takes_def)
  show ?thesis
    unfolding zupt_disk_restore_def if_not_P [OF n1] op sum.case prod.case if_not_P [OF n2] Let_def nth_Cons_0
      if_not_P [OF n3] t again if_not_P [OF n4] b m tb rb
    using c by simp
qed

text \<open>Backup and restore together.\<close>

lemma disk_restores:
  assumes w: "zupt_disk_backup we mtime wopts source_path src = Inr f" and s: "disk_setting we wopts src X env ropts"
    and te: "target_takes te (word_of_nat (length src))"
  shows "zupt_disk_restore unwrap env after te f ropts =
    (if zupt_path_has_unsafe_text (disk_archive_label source_path) then (None, Inl ZUPT_ERR_CORRUPT) else (Some src, Inr ()))"
proof (cases "zupt_path_has_unsafe_text (disk_archive_label source_path)")
  case True
  from disk_opens [OF w s, of unwrap] True have "f \<noteq> []"
    "open_archive unwrap (re_block env) (re_vvz env) (re_alloc env) f ropts = Inl ZUPT_ERR_CORRUPT" by auto
  with True te show ?thesis by (simp add: zupt_disk_restore_def target_takes_def)
next
  case False
  obtain o' hdr ft e pos where f: "f \<noteq> []"
    and op: "open_archive (\<lambda>_ _ _ _. None) (re_block env) (re_vvz env) (re_alloc env) f ropts = Inr (o', hdr, ft, [e], pos)"
    and img: "disk_image_of env f src (global_flags hdr) (opt_keyring o') ft e"
    using disk_opens [OF w s, of "\<lambda>_ _ _ _. None"] False by auto
  have again: "open_archive (\<lambda>_ _ _ _. None) (re_block env) (re_vvz env) (re_alloc env) f o' = Inr (o', hdr, ft, [e], pos)"
    by (rule open_archive_again [OF _ op]) (simp add: unwrap_settled_def)
  have "ix_uncompressed_size e = word_of_nat (length src)" using img by (simp add: disk_image_of_def)
  with te disk_image_restored [OF open_archive_no_unwrap [OF op] open_archive_no_unwrap [OF again] img _ f] False
  show ?thesis by simp
qed

lemma disk_backup_total:
  assumes "write_mem we" "0 < length src" "length src < 2 ^ 32"
    and pw: "opt_encrypt wopts \<longrightarrow> password_mode we wopts" and id: "length (we_random_id we) = 16"
  shows "\<exists>f. zupt_disk_backup we mtime wopts source_path src = Inr f"
proof -
  let ?o = "disk_options we wopts"
  let ?bs = "unat (opt_block_size ?o)"
  have m: "\<forall>k. we_mem we k" "\<And>n. we_alloc we n" "we_dedup we = (True, True)" using assms(1) by (simp_all add: write_mem_def)
  note wf = disk_header_fields(1) [OF id, of ?o]
  have "\<exists>p. enc_phase we (disk_header we ?o) ?o = Inr p"
    using pw write_enc_header_password [where we = we and opts = ?o, OF _ length_serialize_header [OF wf] wf]
    by (auto simp: enc_phase_def Let_def disk_options_fields)
  then obtain out hdr o2 where p: "enc_phase we (disk_header we ?o) ?o = Inr (out, hdr, o2)" by (metis prod_cases3)
  define dd where "dd = (if opt_dedup o2 then zupt_dedup_init (fst (we_dedup we)) (snd (we_dedup we)) else None)"
  have dd: "\<not> (opt_dedup o2 \<and> dd = None)" by (simp add: dd_def m zupt_dedup_init_def)
  have n1: "\<not> (length src = 0 \<or> length src > 0x7FFFFFFFFFFFFFFF)" using assms(2,3) by simp
  have "65536 \<le> ?bs"
  proof -
    have "opt_block_size ?o \<ge> ZUPT_MIN_BLOCK_SZ" by (simp add: disk_options_def Let_def not_less ZUPT_MIN_BLOCK_SZ_def)
    then show ?thesis by (simp add: word_le_nat_alt ZUPT_MIN_BLOCK_SZ_def)
  qed
  then have "length src div ?bs \<le> length src div 65536" by (intro div_le_mono2) simp_all
  then have n2: "\<not> length src div ?bs + (if length src mod ?bs \<noteq> 0 then 1 else 0) > 0xFFFFFFFF" using assms(3) by auto
  have n3: "\<not> (\<not> we_alloc we n \<or> \<not> we_alloc we n')" for n n' using m(2) by simp
  have "\<exists>st'. disk_block we o2 cap x st = Inr st'" for cap x st
    unfolding disk_block_def by (rule write_block_or_ref_total [OF m(1)])
  then obtain st where st: "write_chunks (disk_block we o2 (disk_capacity we ?bs)) ?bs src
       \<lparr>cw_out = out, cw_dedup = dd, cw_seq = 0, cw_hash = 0, cw_comp = 0, cw_count = 0, cw_total = 0\<rparr> = Inr st"
    using write_chunks_total by blast
  have "\<exists>f. disk_finish we o2 hdr st e = Inr f" for e
  proof -
    have k: "we_mem we (cw_total st)" using m(1) by blast
    obtain fp where "seal_payload (we_mem we (cw_total st)) (we_nonce we (cw_total st)) (opt_encrypt o2) (opt_keyring o2)
        ZUPT_BLOCK_INDEX ZUPT_CODEC_STORE (length (write_index [e])) (write_index [e]) (zupt_xxh64 (write_index [e]) 0)
        index_aad_seq = Some fp"
      using seal_payload_total k by (simp only: k simp_thms) blast
    then show ?thesis by (simp add: disk_finish_def Let_def)
  qed
  then show ?thesis
    unfolding zupt_disk_backup_def Let_def if_not_P [OF n1] if_not_P [OF n2] p rbind_simps prod.case if_not_P [OF n3]
      dd_def [symmetric] if_not_P [OF dd] st by blast
qed

lemma restore_after_preflight:
  assumes set: "unwrap_settled unwrap"
    and op: "open_archive unwrap (re_block env) (re_vvz env) (re_alloc env) f opts = Inr (o', hdr, ft, es, pos)"
    and r: "zupt_disk_restore unwrap env after te f opts = (Some content, r)"
  shows "\<exists>e. es = [e] \<and>
    (\<exists>ts. zupt_test_archive_stream unwrap env after f o' = Inr ts \<and> test_status ts = Inr ()) \<and>
    (global_flags hdr AND ZUPT_FLAG_SOLID = 0 \<and> (\<forall>i. te_write te i) \<and> te_close te \<longrightarrow> r = Inr ()) \<and>
    (r = Inr () \<longrightarrow> length content = unat (ix_uncompressed_size e) \<and>
       (global_flags hdr AND ZUPT_FLAG_DISK_CONTENT_HASH \<noteq> 0 \<longrightarrow>
         (\<exists>chunks. concat chunks = content \<and> foldl (\<lambda>h x. zupt_xxh64 x h) 0 chunks = ix_content_hash e)))"
proof -
  note again = open_archive_again [OF set op]
  let ?g = "global_flags hdr"
  obtain e ts b where es: "es = [e]" and g: "?g AND ZUPT_FLAG_DISK_IMAGE \<noteq> 0" and bc: "ucast (ix_block_count e) = total_blocks ft"
    and ts: "zupt_test_archive_stream unwrap env after f o' = Inr ts" "test_status ts = Inr ()"
    and off: "unat (ix_first_block_offset e) < 2 ^ 63"
    and res: "(case restore_aad_map env f ?g e of
        Inl e \<Rightarrow> (Some [], Inl e)
      | Inr lmap \<Rightarrow>
          (case restore_blocks env (te_write te) f ?g (opt_keyring o') lmap (ix_uncompressed_size e)
                  (unat (total_blocks ft)) 0 (unat (ix_first_block_offset e)) ([], 0, 0) of
             ((content, total_written, restored_hash), seq, ok) \<Rightarrow>
               (Some content,
                if ok \<and> seq = unat (ix_block_count e) \<and> total_written = ix_uncompressed_size e \<and>
                  (?g AND ZUPT_FLAG_DISK_CONTENT_HASH \<noteq> 0 \<longrightarrow> restored_hash = ix_content_hash e) \<and> te_close te
                then Inr () else Inl ZUPT_ERR_CORRUPT))) = (Some content, r)"
    by (rule restore_opened [OF op again r])
  have tb: "unat (total_blocks ft) = unat (ix_block_count e)"
    unfolding bc [symmetric] using unat_lt2p [of "ix_block_count e"]
    by (simp add: unsigned_ucast_eq unsigned_take_bit_eq take_bit_nat_eq_self)
  have passed: "r = Inr ()" if "?g AND ZUPT_FLAG_SOLID = 0" "\<forall>i. te_write te i" "te_close te"
  proof -
    from disk_test_stream [OF again [unfolded es] g that(1), of after] ts obtain m where
      m: "restore_aad_map env f ?g e = Inr m" and te: "fst (test_entry env after f ?g (opt_keyring o') m 0 e pos) = Inr ()"
      by (cases "restore_aad_map env f ?g e") (auto simp: test_status_def split: if_splits)
    obtain h p where "test_blocks env f ?g (opt_keyring o') m (ix_uncompressed_size e) 0 (unat (ix_block_count e)) 0
        (fseeko_set pos (ix_first_block_offset e)) (0, 0) = Inr ((ix_uncompressed_size e, h), p)"
      and h: "require_content_hash ?g \<longrightarrow> h = ix_content_hash e"
      by (rule test_entry_passes [OF te])
    then have t: "test_blocks env f ?g (opt_keyring o') m (ix_uncompressed_size e) 0 (unat (ix_block_count e)) 0
        (unat (ix_first_block_offset e)) (0, 0) = Inr ((ix_uncompressed_size e, h), p)" using off by (simp add: fseeko_set_def)
    from test_restores [OF g that(2) t, of "[]"] obtain c where
      "restore_blocks env (te_write te) f ?g (opt_keyring o') m (ix_uncompressed_size e) (unat (ix_block_count e)) 0
        (unat (ix_first_block_offset e)) ([], 0, 0) = ((c, ix_uncompressed_size e, h), 0 + unat (ix_block_count e), True)"
      by blast
    with res m tb h that(3) show ?thesis by (simp add: require_content_hash_def split: if_splits)
  qed
  have verified: "length content = unat (ix_uncompressed_size e) \<and> (?g AND ZUPT_FLAG_DISK_CONTENT_HASH \<noteq> 0 \<longrightarrow>
      (\<exists>chunks. concat chunks = content \<and> foldl (\<lambda>h x. zupt_xxh64 x h) 0 chunks = ix_content_hash e))" if ok: "r = Inr ()"
  proof -
    obtain m h s k where "restore_blocks env (te_write te) f ?g (opt_keyring o') m (ix_uncompressed_size e)
        (unat (total_blocks ft)) 0 (unat (ix_first_block_offset e)) ([], 0, 0) = ((content, ix_uncompressed_size e, h), s, k)"
      and h: "?g AND ZUPT_FLAG_DISK_CONTENT_HASH \<noteq> 0 \<longrightarrow> h = ix_content_hash e"
      using res ok by (auto split: sum.splits prod.splits if_splits)
    from restore_blocks_content [OF g this(1)] h show ?thesis by auto
  qed
  from es ts passed verified show ?thesis by blast
qed

section \<open>Properties\<close>

text \<open>
  C7. A disk comes back. When a backup reports success (plain or under a password with a PBKDF2
  header, with or without deduplication, with any codec), the restore of its archive, given the
  same password and a target that takes the image, passes its own preflight and leaves exactly the
  bytes of the source on the target. The requirements (\<open>disk_setting\<close>) are those of the round trip
  of ordinary archives. The one exception is the label: a source whose name has bytes
  that are not well-formed UTF-8, or characters that could reach a terminal, is recorded under
  that name, and the archive, although its backup succeeded, is refused as corrupt before the
  target is opened.
\<close>

theorem disk_roundtrip:
  assumes "zupt_disk_backup we mtime wopts source_path src = Inr f" "disk_setting we wopts src X env ropts"
    and "target_takes te (word_of_nat (length src))"
  shows "zupt_disk_restore unwrap env after te f ropts =
    (if zupt_path_has_unsafe_text (disk_archive_label source_path) then (None, Inl ZUPT_ERR_CORRUPT) else (Some src, Inr ()))"
  by (rule disk_restores [OF assms])

definition example_target :: target_env where
  "example_target = \<lparr>te_snapshot = True, te_target = RawDevice True (Some 4096), te_atomic = True, te_write = (\<lambda>_. True), te_close = True\<rparr>"

lemma example_target_takes: "target_takes example_target 3"
  by (auto simp: target_takes_def example_target_def intro: exI [of _ False])

lemma example_disk_setting: "disk_setting example_writer example_options [1, 2, 3] {[1, 2, 3]} example_reader example_options"
proof -
  have od: "opt_codec_id (disk_options example_writer example_options) = ZUPT_CODEC_ZUPT_LZHP"
    "opt_block_size (disk_options example_writer example_options) = 4194304"
    by (simp_all add: disk_options_def example_options_def zupt_default_options_def example_writer_def Let_def ZUPT_MIN_BLOCK_SZ_def)
  have "k = 0" if "k * 4194304 < length [1, 2, 3 :: u8]" for k :: nat using that by simp
  then have "chunks_in 4194304 [1, 2, 3] {[1, 2, 3]}" unfolding chunks_in_def by fastforce
  then show ?thesis
    using example_password
    by (simp add: disk_setting_def od no_collision_def ZUPT_MAX_BLOCK_SZ_def)
       (simp add: example_writer_def example_options_def example_reader_def zupt_default_options_def codecs_ok_def codec_mem_def
          own_decoder_def re_vvz_def od lzh_mem_def example_env_def read_ok_def block_mem_def)
qed

lemma example_backup: "\<exists>f. zupt_disk_backup example_writer 0 example_options p [1, 2, 3] = Inr f"
proof (rule disk_backup_total)
  show "opt_encrypt example_options \<longrightarrow> password_mode example_writer example_options" using example_password by blast
qed (simp_all add: write_mem_def example_writer_def)

text \<open>The device names \<open>/dev/a\<close> and \<open>/dev/\<close> followed by the byte 255.\<close>

lemma example_labels:
  "disk_archive_label [0x2F, 0x64, 0x65, 0x76, 0x2F, 0x61] = [0x61]" "disk_archive_label [0x2F, 0x64, 0x65, 0x76, 0x2F, 0xFF] = [0xFF]"
  "\<not> zupt_path_has_unsafe_text [0x61]" "zupt_path_has_unsafe_text [0xFF]"
  using example_paths_safe(1) path_is_safe_eq [of "[0x61]"]
  by (simp_all add: disk_archive_label_def disk_label_reserved_def Let_def ZUPT_MAX_PATH_def zupt_path_has_unsafe_text.simps
      zupt_decode_utf8_scalar_def c_at_def)

theorem disk_roundtrip_witness:
  "\<exists>f g. zupt_disk_backup example_writer 0 example_options [0x2F, 0x64, 0x65, 0x76, 0x2F, 0x61] [1, 2, 3] = Inr f \<and>
     zupt_disk_restore (\<lambda>_ _ _ _. None) example_reader (\<lambda>_. 0) example_target f example_options = (Some [1, 2, 3], Inr ()) \<and>
     zupt_disk_backup example_writer 0 example_options [0x2F, 0x64, 0x65, 0x76, 0x2F, 0xFF] [1, 2, 3] = Inr g \<and>
     zupt_disk_restore (\<lambda>_ _ _ _. None) example_reader (\<lambda>_. 0) example_target g example_options = (None, Inl ZUPT_ERR_CORRUPT)"
proof -
  obtain f where f: "zupt_disk_backup example_writer 0 example_options [0x2F, 0x64, 0x65, 0x76, 0x2F, 0x61] [1, 2, 3] = Inr f"
    using example_backup by blast
  obtain g where g: "zupt_disk_backup example_writer 0 example_options [0x2F, 0x64, 0x65, 0x76, 0x2F, 0xFF] [1, 2, 3] = Inr g"
    using example_backup by blast
  have t: "target_takes example_target (word_of_nat (length [1, 2, 3 :: u8]))" using example_target_takes by simp
  from disk_roundtrip [OF f example_disk_setting t] disk_roundtrip [OF g example_disk_setting t] f g show ?thesis
    by (simp add: example_labels)
qed

text \<open>
  C8. A restore does not touch its target before the archive has passed. Whatever the file, when
  a restore opened its target, the archive has one entry and the complete test of it succeeded;
  unless the archive is also marked as solid, nothing but the target can then fail: if every write
  and the final flush succeed, so does the restore. And a restore that reports success has
  written as many bytes as the index says, with the chained hash of the index. The key
  encapsulations, which are called once per opening, are assumed not to depend on the keyring
  they replace.
\<close>

theorem restore_preflight:
  assumes "unwrap_settled unwrap"
    and "open_archive unwrap (re_block env) (re_vvz env) (re_alloc env) f opts = Inr (o', hdr, ft, es, pos)"
    and "zupt_disk_restore unwrap env after te f opts = (Some content, r)"
  shows "\<exists>e. es = [e] \<and>
    (\<exists>ts. zupt_test_archive_stream unwrap env after f o' = Inr ts \<and> test_status ts = Inr ()) \<and>
    (global_flags hdr AND ZUPT_FLAG_SOLID = 0 \<and> (\<forall>i. te_write te i) \<and> te_close te \<longrightarrow> r = Inr ()) \<and>
    (r = Inr () \<longrightarrow> length content = unat (ix_uncompressed_size e) \<and>
       (global_flags hdr AND ZUPT_FLAG_DISK_CONTENT_HASH \<noteq> 0 \<longrightarrow>
         (\<exists>chunks. concat chunks = content \<and> foldl (\<lambda>h x. zupt_xxh64 x h) 0 chunks = ix_content_hash e)))"
  by (rule restore_after_preflight [OF assms])

theorem restore_preflight_witness:
  "\<exists>f o' hdr ft e pos. zupt_disk_backup example_writer 0 example_options [0x2F, 0x64, 0x65, 0x76, 0x2F, 0x61] [1, 2, 3] = Inr f \<and>
     open_archive (\<lambda>_ _ _ _. None) (re_block example_reader) (re_vvz example_reader) (re_alloc example_reader) f example_options =
       Inr (o', hdr, ft, [e], pos) \<and>
     zupt_disk_restore (\<lambda>_ _ _ _. None) example_reader (\<lambda>_. 0) example_target f example_options = (Some [1, 2, 3], Inr ()) \<and>
     unat (ix_uncompressed_size e) = 3 \<and>
     (\<exists>ts. zupt_test_archive_stream (\<lambda>_ _ _ _. None) example_reader (\<lambda>_. 0) f o' = Inr ts \<and> test_status ts = Inr ())"
proof -
  obtain f where f: "zupt_disk_backup example_writer 0 example_options [0x2F, 0x64, 0x65, 0x76, 0x2F, 0x61] [1, 2, 3] = Inr f"
    using example_backup by blast
  have t: "target_takes example_target (word_of_nat (length [1, 2, 3 :: u8]))" using example_target_takes by simp
  have r: "zupt_disk_restore (\<lambda>_ _ _ _. None) example_reader (\<lambda>_. 0) example_target f example_options = (Some [1, 2, 3], Inr ())"
    using disk_restores [OF f example_disk_setting t] by (simp add: example_labels)
  obtain o' hdr ft e pos where op: "open_archive (\<lambda>_ _ _ _. None) (re_block example_reader) (re_vvz example_reader)
      (re_alloc example_reader) f example_options = Inr (o', hdr, ft, [e], pos)"
    using disk_opens [OF f example_disk_setting, of "\<lambda>_ _ _ _. None"] by (auto simp: example_labels)
  have u: "unwrap_settled (\<lambda>_ _ _ _. None)" by (simp add: unwrap_settled_def)
  from restore_preflight [OF u op r] have "unat (ix_uncompressed_size e) = 3"
    "\<exists>ts. zupt_test_archive_stream (\<lambda>_ _ _ _. None) example_reader (\<lambda>_. 0) f o' = Inr ts \<and> test_status ts = Inr ()" by auto
  with f op r show ?thesis by blast
qed

end
