(* ===== verification/Parallel.thy ===== *)
theory Parallel
  imports Compress
begin

text \<open>
  The worker pool (\<open>src/zupt_parallel.c\<close>, \<open>zupt_parallel.h\<close>, \<open>zupt_thread.h\<close>): the two workers, the
  operations of the pool, and the batch loop of its clients in \<open>zupt_format.c\<close> as a step relation
  in which the main thread and one worker per slot interleave. A step is one critical section of
  the pool's mutex, one access to the atomic error flag, or the work on a slot that a worker owns.
  A wait on a condition variable is a step that is enabled when the awaited condition holds: every
  change of a slot is followed by a broadcast under the same mutex, so no wake-up is lost.
\<close>

section \<open>Slots and the pool\<close>

abbreviation (input) ZUPT_MAX_THREADS :: nat where "ZUPT_MAX_THREADS \<equiv> 64"

datatype zpar_status = ZPAR_EMPTY | ZPAR_READY | ZPAR_DONE

text \<open>\<open>sl_cap\<close> is the allocated size of the input buffer; \<open>None\<close> is a null output and \<open>ZUPT_OK\<close>.\<close>

record zpar_slot_t =
  sl_input :: bytes
  sl_cap :: nat
  sl_block_seq :: u64
  sl_level :: int
  sl_codec_id :: u16
  sl_block_flags :: u16
  sl_stored_checksum :: u64
  sl_uncomp_size :: u64
  sl_output :: "bytes option"
  sl_actual_codec :: u16
  sl_out_bflags :: u16
  sl_checksum :: u64
  sl_error :: "zupt_error_t option"
  sl_status :: zpar_status

record zpar_ctx_t =
  pc_nthreads :: int
  pc_block_size :: u32
  pc_keyring :: zupt_keyring_t
  pc_threads_running :: nat
  pc_slots :: "zpar_slot_t list"
  pc_shutdown :: bool
  pc_error_flag :: "zupt_error_t option"
  pc_mode :: nat

definition nslots :: "zpar_ctx_t \<Rightarrow> nat" where
  "nslots ctx = length (pc_slots ctx)"

definition zupt_resolve_threads :: "int \<Rightarrow> int \<Rightarrow> int" where
  "zupt_resolve_threads cpus requested =
     (let n = (if requested \<le> 0 then cpus else requested);
          n = (if n < 1 then 1 else n) in
      if n > int ZUPT_MAX_THREADS then int ZUPT_MAX_THREADS else n)"

text \<open>A slot from \<open>calloc\<close> with its input buffer of the given size.\<close>

definition empty_slot :: "nat \<Rightarrow> zpar_slot_t" where
  "empty_slot n =
     \<lparr>sl_input = [], sl_cap = n, sl_block_seq = 0, sl_level = 0, sl_codec_id = 0, sl_block_flags = 0,
      sl_stored_checksum = 0, sl_uncomp_size = 0, sl_output = None, sl_actual_codec = 0,
      sl_out_bflags = 0, sl_checksum = 0, sl_error = None, sl_status = ZPAR_EMPTY\<rparr>"

text \<open>\<open>create_ok\<close> says which thread could be started; starting stops at the first that could not.\<close>

fun start_threads :: "(nat \<Rightarrow> bool) \<Rightarrow> nat \<Rightarrow> nat \<Rightarrow> nat" where
  "start_threads create_ok i 0 = i"
| "start_threads create_ok i (Suc n) = (if create_ok i then start_threads create_ok (i + 1) n else i)"

definition no_keyring :: zupt_keyring_t where
  "no_keyring =
     \<lparr>canary_head = 0, enc_key = replicate 32 0, mac_key = replicate 32 0, salt = replicate 32 0,
      base_nonce = replicate 16 0, iterations = 0, active = False, canary_tail = 0,
      use_preface_aad = False\<rparr>"

definition zpar_create ::
  "bool \<Rightarrow> (nat \<Rightarrow> bool) \<Rightarrow> int \<Rightarrow> u32 \<Rightarrow> nat \<Rightarrow> zupt_keyring_t option \<Rightarrow> zpar_ctx_t option" where
  "zpar_create mem_ok create_ok nthreads block_size mode keyring =
     (let nthreads = (if nthreads < 1 then 1 else nthreads);
          nthreads = (if nthreads > int ZUPT_MAX_THREADS then int ZUPT_MAX_THREADS else nthreads);
          ibuf_size = (if mode = 0 then block_size else block_size + 4096) in
      if \<not> mem_ok then None
      else Some \<lparr>pc_nthreads = nthreads, pc_block_size = block_size,
                 pc_keyring = (case keyring of None \<Rightarrow> no_keyring | Some k \<Rightarrow> k),
                 pc_threads_running = start_threads create_ok 0 (nat nthreads),
                 pc_slots = replicate (nat nthreads) (empty_slot (unat ibuf_size)),
                 pc_shutdown = False, pc_error_flag = None, pc_mode = mode\<rparr>)"

definition zpar_check_error :: "zpar_ctx_t \<Rightarrow> zupt_error_t option" where
  "zpar_check_error ctx = pc_error_flag ctx"

lemma zupt_resolve_threads_bounds: "1 \<le> zupt_resolve_threads c r \<and> zupt_resolve_threads c r \<le> 64"
  by (simp add: zupt_resolve_threads_def Let_def)

lemma start_threads_le: "i \<le> start_threads c i n \<and> start_threads c i n \<le> i + n"
proof (induction n arbitrary: i)
  case (Suc n)
  show ?case using Suc [of "Suc i"] by auto
qed simp

lemma start_threads_all: "(\<And>k. c k) \<Longrightarrow> start_threads c i n = i + n"
  by (induction n arbitrary: i) simp_all

section \<open>The workers\<close>

text \<open>What compressing a block depends on besides the slot: its memory, codec outcomes and nonce.\<close>

record worker_env =
  wk_cbuf :: bool
  wk_codec :: codec_env
  wk_out :: bool
  wk_nonce :: bytes

text \<open>The VaptVupt branch always encodes into a buffer of the codec's own bound.\<close>

definition worker_vv :: "codec_env \<Rightarrow> int \<Rightarrow> bytes \<Rightarrow> bytes" where
  "worker_vv ce level rbuf =
     (let nread = length rbuf; cbuf_cap = zupt_lzh_bound nread + 512 in
      if ce_vv_tmp ce then
        (case ce_vv ce rbuf (ce_vv_bound ce nread) level of
           None \<Rightarrow> []
         | Some c \<Rightarrow> if length c > 0 \<and> length c < nread then (if length c \<le> cbuf_cap then c else []) else [])
      else [])"

definition worker_try :: "codec_env \<Rightarrow> u16 \<Rightarrow> int \<Rightarrow> bytes \<Rightarrow> bytes" where
  "worker_try ce codec level rbuf =
     (if codec = ZUPT_CODEC_ZUPT_LZHP then compress_lzhp ce level rbuf
      else if codec = ZUPT_CODEC_ZUPT_LZH then
        zupt_lzh_compress (ce_lzh ce) rbuf (zupt_lzh_bound (length rbuf)) level
      else if codec = ZUPT_CODEC_ZUPT_LZ then
        (case zupt_lz_compress (ce_lz ce) rbuf (zupt_lz_bound (length rbuf)) level of
           None \<Rightarrow> [] | Some c \<Rightarrow> c)
      else if codec = ZUPT_CODEC_VAPTVUPT then worker_vv ce level rbuf
      else [])"

definition worker_compress :: "(u64 \<Rightarrow> worker_env) \<Rightarrow> zupt_keyring_t \<Rightarrow> zpar_slot_t \<Rightarrow> zpar_slot_t" where
  "worker_compress wenv kr slot =
     (let we = wenv (sl_block_seq slot);
          rbuf = sl_input slot;
          nread = length rbuf;
          codec = sl_codec_id slot;
          slot = slot\<lparr>sl_checksum := zupt_xxh64 rbuf 0\<rparr> in
      if \<not> wk_cbuf we then slot\<lparr>sl_error := Some ZUPT_ERR_NOMEM\<rparr>
      else
        let c = worker_try (wk_codec we) codec (sl_level slot) rbuf;
            stored = (length c = 0 \<or> length c \<ge> nread);
            p = (if stored then rbuf else c);
            slot = slot\<lparr>sl_actual_codec := (if stored then ZUPT_CODEC_STORE else codec), sl_out_bflags := 0\<rparr> in
        if active kr then
          let enc = (if use_preface_aad kr then
                       let predicted_csz = 16 + word_of_nat (length p) + 32;
                           preface = zupt_serialize_preface_aad_scalars ZUPT_BLOCK_DATA (sl_actual_codec slot)
                             ZUPT_BFLAG_ENCRYPTED (word_of_nat nread) predicted_csz (sl_checksum slot) in
                       zupt_encrypt_buffer_aad (wk_out we) kr (wk_nonce we) p (sl_block_seq slot) preface
                     else zupt_encrypt_buffer (wk_out we) kr (wk_nonce we) p (sl_block_seq slot)) in
          (case enc of
             None \<Rightarrow> slot\<lparr>sl_error := Some ZUPT_ERR_NOMEM\<rparr>
           | Some e \<Rightarrow> slot\<lparr>sl_output := Some e, sl_out_bflags := sl_out_bflags slot OR ZUPT_BFLAG_ENCRYPTED,
                            sl_error := None\<rparr>)
        else if \<not> wk_out we then slot\<lparr>sl_error := Some ZUPT_ERR_NOMEM\<rparr>
        else slot\<lparr>sl_output := Some p, sl_error := None\<rparr>)"

text \<open>Opening a sealed payload, and the decoder. Its branches are those of \<open>decompress_block\<close> but for
  VaptVupt, which the worker decodes with \<open>vv_decompress\<close>: the argument \<open>vv\<close>, where the
  single-threaded reader has \<open>vvz_decompress\<close>.\<close>

definition worker_open :: "block_alloc \<Rightarrow> zupt_keyring_t \<Rightarrow> zpar_slot_t \<Rightarrow> bytes result" where
  "worker_open al kr slot =
     (let comp_data = sl_input slot;
          encrypted = (sl_block_flags slot AND ZUPT_BFLAG_ENCRYPTED \<noteq> 0) in
      if active kr \<and> \<not> encrypted then Inl ZUPT_ERR_AUTH_FAIL
      else if \<not> encrypted then Inr comp_data
      else if \<not> active kr then Inl ZUPT_ERR_AUTH_FAIL
      else
        let dec = (if use_preface_aad kr then
                     let preface = zupt_serialize_preface_aad_scalars ZUPT_BLOCK_DATA (sl_codec_id slot)
                           (sl_block_flags slot) (sl_uncomp_size slot) (word_of_nat (length comp_data))
                           (sl_stored_checksum slot) in
                     zupt_decrypt_buffer_aad (ba_plain al) kr comp_data (sl_block_seq slot) preface
                   else zupt_decrypt_buffer (ba_plain al) kr comp_data (sl_block_seq slot)) in
        (case dec of None \<Rightarrow> Inl ZUPT_ERR_AUTH_FAIL | Some d \<Rightarrow> Inr d))"

definition worker_decompress ::
  "block_alloc \<Rightarrow> vvz_decoder \<Rightarrow> zupt_keyring_t \<Rightarrow> zpar_slot_t \<Rightarrow> zpar_slot_t" where
  "worker_decompress al vv kr slot =
     (if unat (sl_uncomp_size slot) > ZUPT_MAX_BLOCK_SZ then slot\<lparr>sl_error := Some ZUPT_ERR_OVERFLOW\<rparr>
      else
        case worker_open al kr slot of
          Inl e \<Rightarrow> slot\<lparr>sl_error := Some e\<rparr>
        | Inr comp_data \<Rightarrow>
            let olen = unat (sl_uncomp_size slot) in
            if olen = 0 then slot\<lparr>sl_output := None, sl_error := None\<rparr>
            else if \<not> ba_out al then slot\<lparr>sl_error := Some ZUPT_ERR_NOMEM\<rparr>
            else
              (case decode_payload al vv (sl_codec_id slot) comp_data olen of
                 Inl e \<Rightarrow> slot\<lparr>sl_output := None, sl_error := Some e\<rparr>
               | Inr out \<Rightarrow>
                   if zupt_xxh64 out 0 \<noteq> sl_stored_checksum slot
                   then slot\<lparr>sl_output := None, sl_error := Some ZUPT_ERR_BAD_CHECKSUM\<rparr>
                   else slot\<lparr>sl_output := Some out, sl_error := None\<rparr>))"

text \<open>What \<open>worker_entry\<close> does with a slot it owns, by the mode of the pool.\<close>

definition clear_slot :: "zpar_slot_t \<Rightarrow> zpar_slot_t" where
  "clear_slot slot = slot\<lparr>sl_error := None, sl_output := None\<rparr>"

definition zpar_work ::
  "(u64 \<Rightarrow> worker_env) \<Rightarrow> block_alloc \<Rightarrow> vvz_decoder \<Rightarrow> nat \<Rightarrow> zupt_keyring_t \<Rightarrow> zpar_slot_t \<Rightarrow> zpar_slot_t" where
  "zpar_work wenv al vv mode kr slot =
     (if mode = 0 then worker_compress wenv kr (clear_slot slot)
      else worker_decompress al vv kr (clear_slot slot))"

section \<open>Submitting, waiting, releasing\<close>

datatype zpar_job =
    CompressJob bytes u64 int u16
  | DecompressJob bool bytes u64 u16 u16 u64 u64

text \<open>
  A job is a call of one of the two submit functions; the flag of the second is the outcome of
  its \<open>realloc\<close>. A call that has to wait for its slot is \<open>Blocked\<close>.
\<close>

fun job_seq :: "zpar_job \<Rightarrow> u64" where
  "job_seq (CompressJob _ s _ _) = s"
| "job_seq (DecompressJob _ _ s _ _ _ _) = s"

datatype submission = Blocked | Refused | Submitted nat zpar_ctx_t

definition slot_index :: "nat \<Rightarrow> zpar_job \<Rightarrow> nat" where
  "slot_index n j = unat (job_seq j) mod n"

definition put_slot :: "nat \<Rightarrow> (zpar_slot_t \<Rightarrow> zpar_slot_t) \<Rightarrow> zpar_ctx_t \<Rightarrow> zpar_ctx_t" where
  "put_slot i f ctx = ctx\<lparr>pc_slots := (pc_slots ctx)[i := f (pc_slots ctx ! i)]\<rparr>"

definition load_compress :: "bytes \<Rightarrow> u64 \<Rightarrow> int \<Rightarrow> u16 \<Rightarrow> zpar_slot_t \<Rightarrow> zpar_slot_t" where
  "load_compress data block_seq level codec slot =
     slot\<lparr>sl_input := data, sl_block_seq := block_seq, sl_level := level, sl_codec_id := codec,
          sl_error := None, sl_output := None, sl_status := ZPAR_READY\<rparr>"

definition zpar_submit_compress :: "zpar_ctx_t \<Rightarrow> bytes \<Rightarrow> u64 \<Rightarrow> int \<Rightarrow> u16 \<Rightarrow> submission" where
  "zpar_submit_compress ctx data block_seq level codec =
     (let idx = unat block_seq mod nslots ctx in
      if sl_status (pc_slots ctx ! idx) \<noteq> ZPAR_EMPTY \<and> \<not> pc_shutdown ctx then Blocked
      else if pc_shutdown ctx then Refused
      else if length data > unat (pc_block_size ctx) then Refused
      else Submitted idx (put_slot idx (load_compress data block_seq level codec) ctx))"

definition load_decompress :: "u32 \<Rightarrow> bytes \<Rightarrow> u64 \<Rightarrow> u16 \<Rightarrow> u16 \<Rightarrow> u64 \<Rightarrow> u64 \<Rightarrow> zpar_slot_t \<Rightarrow> zpar_slot_t" where
  "load_decompress block_size data block_seq codec bflags cksum usize slot =
     slot\<lparr>sl_cap := (if length data > unat (block_size + 4096) then length data else sl_cap slot),
          sl_input := data, sl_block_seq := block_seq, sl_codec_id := codec, sl_block_flags := bflags,
          sl_stored_checksum := cksum, sl_uncomp_size := usize,
          sl_error := None, sl_output := None, sl_status := ZPAR_READY\<rparr>"

definition zpar_submit_decompress ::
  "zpar_ctx_t \<Rightarrow> bool \<Rightarrow> bytes \<Rightarrow> u64 \<Rightarrow> u16 \<Rightarrow> u16 \<Rightarrow> u64 \<Rightarrow> u64 \<Rightarrow> submission" where
  "zpar_submit_decompress ctx realloc_ok data block_seq codec bflags cksum usize =
     (let idx = unat block_seq mod nslots ctx in
      if sl_status (pc_slots ctx ! idx) \<noteq> ZPAR_EMPTY \<and> \<not> pc_shutdown ctx then Blocked
      else if pc_shutdown ctx then Refused
      else if length data > unat (pc_block_size ctx + 4096) \<and> \<not> realloc_ok then Refused
      else Submitted idx
             (put_slot idx (load_decompress (pc_block_size ctx) data block_seq codec bflags cksum usize) ctx))"

fun zpar_submit :: "zpar_ctx_t \<Rightarrow> zpar_job \<Rightarrow> submission" where
  "zpar_submit ctx (CompressJob d s l c) = zpar_submit_compress ctx d s l c"
| "zpar_submit ctx (DecompressJob r d s c b k u) = zpar_submit_decompress ctx r d s c b k u"

text \<open>The slot is handed out once it is done; \<open>None\<close> while the caller has to wait.\<close>

definition zpar_wait_slot :: "zpar_ctx_t \<Rightarrow> nat \<Rightarrow> zpar_slot_t option" where
  "zpar_wait_slot ctx idx =
     (if sl_status (pc_slots ctx ! idx) \<noteq> ZPAR_DONE \<and> \<not> pc_shutdown ctx then None
      else Some (pc_slots ctx ! idx))"

definition zpar_release_slot :: "nat \<Rightarrow> zpar_ctx_t \<Rightarrow> zpar_ctx_t" where
  "zpar_release_slot idx ctx =
     (if idx \<ge> nslots ctx then ctx
      else put_slot idx (\<lambda>s. s\<lparr>sl_output := None, sl_status := ZPAR_EMPTY\<rparr>) ctx)"

definition load_job :: "u32 \<Rightarrow> zpar_job \<Rightarrow> zpar_slot_t \<Rightarrow> zpar_slot_t" where
  "load_job bs j slot =
     (case j of
        CompressJob d s l c \<Rightarrow> load_compress d s l c slot
      | DecompressJob r d s c b k u \<Rightarrow> load_decompress bs d s c b k u slot)"

text \<open>A job whose submission is not refused: its chunk fits the block size, or its buffer could grow.\<close>

fun job_accepted :: "u32 \<Rightarrow> zpar_job \<Rightarrow> bool" where
  "job_accepted bs (CompressJob d s l c) \<longleftrightarrow> length d \<le> unat bs"
| "job_accepted bs (DecompressJob r d s c b k u) \<longleftrightarrow> length d \<le> unat (bs + 4096) \<or> r"

lemma zpar_submit_eq:
  assumes "\<not> pc_shutdown ctx"
  shows "zpar_submit ctx j =
    (let i = slot_index (nslots ctx) j in
     if sl_status (pc_slots ctx ! i) \<noteq> ZPAR_EMPTY then Blocked
     else if job_accepted (pc_block_size ctx) j
     then Submitted i (put_slot i (load_job (pc_block_size ctx) j) ctx) else Refused)"
  using assms
  by (cases j) (auto simp: zpar_submit_compress_def zpar_submit_decompress_def slot_index_def load_job_def
      put_slot_def Let_def not_le)

lemma sl_status_load_job [simp]: "sl_status (load_job bs j s) = ZPAR_READY"
  by (cases j) (simp_all add: load_job_def load_compress_def load_decompress_def)

section \<open>The batch loop and the workers as a transition system\<close>

text \<open>
  Where a worker is in \<open>worker_entry\<close>: waiting for its slot; about to read the error flag; about to
  work, or to cancel the slot; about to raise the flag; about to mark the slot done; ended.
\<close>

datatype worker_pc = W_Wait | W_Claimed | W_Working | W_Cancelled | W_Worked | W_Flagged | W_Exited

text \<open>One step of worker \<open>i\<close>; \<open>None\<close> while it waits, and when it has ended.\<close>

fun worker_move ::
  "(zpar_slot_t \<Rightarrow> zpar_slot_t) \<Rightarrow> nat \<Rightarrow> zpar_ctx_t \<Rightarrow> worker_pc \<Rightarrow> (worker_pc \<times> zpar_ctx_t) option" where
  "worker_move work i ctx W_Wait =
     (if sl_status (pc_slots ctx ! i) = ZPAR_READY then Some (W_Claimed, ctx)
      else if pc_shutdown ctx then Some (W_Exited, ctx) else None)"
| "worker_move work i ctx W_Claimed =
     Some (if pc_error_flag ctx \<noteq> None then W_Cancelled else W_Working, ctx)"
| "worker_move work i ctx W_Cancelled =
     Some (W_Wait, put_slot i (\<lambda>s. s\<lparr>sl_error := Some ZUPT_ERR_CORRUPT, sl_status := ZPAR_DONE\<rparr>) ctx)"
| "worker_move work i ctx W_Working = Some (W_Worked, put_slot i work ctx)"
| "worker_move work i ctx W_Worked =
     Some (W_Flagged,
       case sl_error (pc_slots ctx ! i) of None \<Rightarrow> ctx | Some e \<Rightarrow> ctx\<lparr>pc_error_flag := Some e\<rparr>)"
| "worker_move work i ctx W_Flagged = Some (W_Wait, put_slot i (\<lambda>s. s\<lparr>sl_status := ZPAR_DONE\<rparr>) ctx)"
| "worker_move work i ctx W_Exited = None"

text \<open>
  What the main thread meets while it fills a batch: a block for the workers, a block it handles
  itself once the batch so far is written (a duplicate reference), a block it cannot read. A block
  handled inline may fail to decode, which ends the batch, or to be written, which does not.
\<close>

datatype 'w inline_result = Decode_failed | Write_failed | Written 'w

datatype 'w zpar_item = Work zpar_job | Inline "'w \<Rightarrow> 'w inline_result" | Broken

datatype main_phase = Fill | Flush | Collect | Finished | Joining | Joined

record 'w zpar_sys =
  zs_ctx :: zpar_ctx_t
  zs_pcs :: "worker_pc list"
  zs_phase :: main_phase
  zs_items :: "'w zpar_item list"
  zs_pending :: "nat list"
  zs_out :: 'w
  zs_failed :: bool

text \<open>A collected slot: an error, or an output that cannot be used, fails the file.\<close>

definition take_result ::
  "(zpar_slot_t \<Rightarrow> 'w \<Rightarrow> 'w option) \<Rightarrow> zpar_slot_t \<Rightarrow> 'w zpar_sys \<Rightarrow> 'w zpar_sys" where
  "take_result put sl s =
     (if sl_error sl \<noteq> None then s\<lparr>zs_failed := True\<rparr>
      else case put sl (zs_out s) of None \<Rightarrow> s\<lparr>zs_failed := True\<rparr> | Some w \<Rightarrow> s\<lparr>zs_out := w\<rparr>)"

text \<open>\<open>eff\<close> is \<open>effective_threads\<close>, \<open>work\<close> what a worker does and \<open>put\<close> what the client does with a result.\<close>

inductive zpar_step ::
  "(zpar_slot_t \<Rightarrow> zpar_slot_t) \<Rightarrow> (zpar_slot_t \<Rightarrow> 'w \<Rightarrow> 'w option) \<Rightarrow> nat \<Rightarrow> 'w zpar_sys \<Rightarrow> 'w zpar_sys \<Rightarrow> bool"
  for work put eff where
  worker: "i < length (zs_pcs s) \<Longrightarrow> worker_move work i (zs_ctx s) (zs_pcs s ! i) = Some (pc, ctx) \<Longrightarrow>
     zpar_step work put eff s (s\<lparr>zs_ctx := ctx, zs_pcs := (zs_pcs s)[i := pc]\<rparr>)"
| submit: "zs_phase s = Fill \<Longrightarrow> zs_items s = Work j # is \<Longrightarrow> length (zs_pending s) < eff \<Longrightarrow>
     zpar_submit (zs_ctx s) j = Submitted i ctx \<Longrightarrow>
     zpar_step work put eff s (s\<lparr>zs_ctx := ctx, zs_items := is, zs_pending := zs_pending s @ [i]\<rparr>)"
| refuse: "zs_phase s = Fill \<Longrightarrow> zs_items s = Work j # is \<Longrightarrow> length (zs_pending s) < eff \<Longrightarrow>
     zpar_submit (zs_ctx s) j = Refused \<Longrightarrow>
     zpar_step work put eff s (s\<lparr>zs_failed := True, zs_phase := Collect\<rparr>)"
| broken: "zs_phase s = Fill \<Longrightarrow> zs_items s = Broken # is \<Longrightarrow> length (zs_pending s) < eff \<Longrightarrow>
     zpar_step work put eff s (s\<lparr>zs_failed := True, zs_phase := Collect\<rparr>)"
| flush: "zs_phase s = Fill \<Longrightarrow> zs_items s = Inline f # is \<Longrightarrow> length (zs_pending s) < eff \<Longrightarrow>
     zs_pending s \<noteq> [] \<Longrightarrow> zpar_step work put eff s (s\<lparr>zs_phase := Flush\<rparr>)"
| inline: "zs_phase s = Fill \<Longrightarrow> zs_items s = Inline f # is \<Longrightarrow> 0 < eff \<Longrightarrow> zs_pending s = [] \<Longrightarrow>
     f (zs_out s) = Written w \<Longrightarrow> zpar_step work put eff s (s\<lparr>zs_items := is, zs_out := w\<rparr>)"
| inline_unwritten: "zs_phase s = Fill \<Longrightarrow> zs_items s = Inline f # is \<Longrightarrow> 0 < eff \<Longrightarrow> zs_pending s = [] \<Longrightarrow>
     f (zs_out s) = Write_failed \<Longrightarrow> zpar_step work put eff s (s\<lparr>zs_items := is, zs_failed := True\<rparr>)"
| inline_fails: "zs_phase s = Fill \<Longrightarrow> zs_items s = Inline f # is \<Longrightarrow> 0 < eff \<Longrightarrow> zs_pending s = [] \<Longrightarrow>
     f (zs_out s) = Decode_failed \<Longrightarrow>
     zpar_step work put eff s (s\<lparr>zs_failed := True, zs_phase := Collect\<rparr>)"
| full: "zs_phase s = Fill \<Longrightarrow> zs_items s = [] \<or> eff \<le> length (zs_pending s) \<Longrightarrow>
     zpar_step work put eff s (s\<lparr>zs_phase := Collect\<rparr>)"
| collect: "zs_phase s = Collect \<or> zs_phase s = Flush \<Longrightarrow> zs_pending s = i # is \<Longrightarrow>
     zpar_wait_slot (zs_ctx s) i = Some sl \<Longrightarrow>
     zpar_step work put eff s ((take_result put sl s)\<lparr>zs_ctx := zpar_release_slot i (zs_ctx s), zs_pending := is\<rparr>)"
| flushed: "zs_phase s = Flush \<Longrightarrow> zs_pending s = [] \<Longrightarrow>
     zpar_step work put eff s (s\<lparr>zs_phase := (if zs_failed s then Collect else Fill)\<rparr>)"
| collected: "zs_phase s = Collect \<Longrightarrow> zs_pending s = [] \<Longrightarrow>
     zpar_step work put eff s (s\<lparr>zs_phase := (if zs_failed s \<or> zs_items s = [] then Finished else Fill)\<rparr>)"
| destroy: "zs_phase s = Finished \<Longrightarrow>
     zpar_step work put eff s (s\<lparr>zs_ctx := (zs_ctx s)\<lparr>pc_shutdown := True\<rparr>, zs_phase := Joining\<rparr>)"
| join: "zs_phase s = Joining \<Longrightarrow> list_all (\<lambda>pc. pc = W_Exited) (zs_pcs s) \<Longrightarrow>
     zpar_step work put eff s (s\<lparr>zs_phase := Joined\<rparr>)"

text \<open>The pool as \<open>zpar_create\<close> leaves it, at the start of a file.\<close>

definition zpar_start :: "zpar_ctx_t \<Rightarrow> 'w zpar_item list \<Rightarrow> 'w \<Rightarrow> 'w zpar_sys" where
  "zpar_start ctx items w =
     \<lparr>zs_ctx = ctx, zs_pcs = replicate (pc_threads_running ctx) W_Wait, zs_phase = Fill,
      zs_items = items, zs_pending = [], zs_out = w, zs_failed = False\<rparr>"

definition fresh_pool :: "zpar_ctx_t \<Rightarrow> bool" where
  "fresh_pool ctx \<longleftrightarrow>
     0 < nslots ctx \<and> pc_threads_running ctx \<le> nslots ctx \<and> \<not> pc_shutdown ctx \<and>
     (\<forall>s \<in> set (pc_slots ctx). sl_status s = ZPAR_EMPTY)"

text \<open>A pool with \<open>n\<close> slots between two files: no block is in it, every slot has its worker, and no
  error was raised so far.\<close>

definition ready_pool :: "nat \<Rightarrow> zpar_ctx_t \<Rightarrow> bool" where
  "ready_pool n ctx \<longleftrightarrow> fresh_pool ctx \<and> pc_error_flag ctx = None \<and> pc_threads_running ctx = nslots ctx \<and> nslots ctx = n"

text \<open>The reference: the same items, one after the other, on one thread.\<close>

fun serial_run ::
  "(zpar_job \<Rightarrow> zupt_error_t option) \<Rightarrow> (zpar_job \<Rightarrow> 'w \<Rightarrow> 'w option) \<Rightarrow> 'w zpar_item list \<Rightarrow> 'w \<Rightarrow> 'w option" where
  "serial_run err put [] w = Some w"
| "serial_run err put (Work j # is) w =
     (if err j \<noteq> None then None
      else case put j w of None \<Rightarrow> None | Some w \<Rightarrow> serial_run err put is w)"
| "serial_run err put (Inline f # is) w =
     (case f w of Written w \<Rightarrow> serial_run err put is w | _ \<Rightarrow> None)"
| "serial_run err put (Broken # is) w = None"

lemma serial_run_append:
  "serial_run err put (xs @ ys) w =
     (case serial_run err put xs w of None \<Rightarrow> None | Some w \<Rightarrow> serial_run err put ys w)"
  by (induction err put xs w rule: serial_run.induct) (auto split: option.splits inline_result.splits)

lemma serial_run_bad_job: "Work j \<in> set xs \<Longrightarrow> err j \<noteq> None \<Longrightarrow> serial_run err put xs w = None"
  by (induction err put xs w rule: serial_run.induct) (auto split: option.splits inline_result.splits)

lemma serial_run_cong:
  assumes "\<And>j. Work j \<in> set xs \<Longrightarrow> err j = err' j \<and> put j = put' j"
  shows "serial_run err put xs w = serial_run err' put' xs w"
  using assms
proof (induction err put xs w rule: serial_run.induct)
  case (2 err put j xs w)
  have e: "err j = err' j" "put j = put' j" using 2(2) [of j] by simp_all
  have "serial_run err put xs v = serial_run err' put' xs v" if "err j = None" "put j w = Some v" for v
    using 2(1) [of v] 2(2) that by simp
  with e show ?case by (auto split: option.splits)
qed (auto split: inline_result.splits)

lemma serial_run_mono:
  assumes "\<And>j v v'. Work j \<in> set xs \<Longrightarrow> err j = None \<Longrightarrow> put j v = Some v' \<Longrightarrow> err' j = None \<and> put' j v = Some v'"
    and "serial_run err put xs w = Some w'"
  shows "serial_run err' put' xs w = Some w'"
  using assms
proof (induction err put xs w rule: serial_run.induct)
  case (2 err put j xs w)
  then obtain v where v: "err j = None" "put j w = Some v" "serial_run err put xs v = Some w'"
    by (auto split: if_splits option.splits)
  have "err' j = None \<and> put' j w = Some v" using 2(2) [of j w v] v(1,2) by simp
  moreover have "serial_run err' put' xs v = Some w'" using 2(1) [OF _ v(2) _ v(3)] 2(2) v(1) by simp
  ultimately show ?case by simp
qed (auto split: inline_result.splits)

lemma serial_run_broken: "Broken \<in> set xs \<Longrightarrow> serial_run err put xs w = None"
  by (induction err put xs w rule: serial_run.induct) (auto split: option.splits inline_result.splits)

section \<open>The invariant\<close>

text \<open>
  A pending slot holds its job, untouched or worked on as far as its worker has come. \<open>bad\<close> says
  that some job of the file fails, which is the only reason to cancel another.
\<close>

definition busy ::
  "(zpar_slot_t \<Rightarrow> zpar_slot_t) \<Rightarrow> u32 \<Rightarrow> bool \<Rightarrow> zpar_job \<Rightarrow> zpar_slot_t \<Rightarrow> worker_pc option \<Rightarrow> bool" where
  "busy work bs bad j sl wpc \<longleftrightarrow>
     (\<exists>s0. let l = load_job bs j s0 in
        sl = l \<and> (wpc = None \<or> wpc = Some W_Wait \<or> wpc = Some W_Claimed \<or> wpc = Some W_Working)
      \<or> sl = l \<and> bad \<and> wpc = Some W_Cancelled
      \<or> sl = work l \<and> (wpc = Some W_Worked \<or> wpc = Some W_Flagged)
      \<or> sl = (work l)\<lparr>sl_status := ZPAR_DONE\<rparr> \<and> wpc = Some W_Wait)
   \<or> bad \<and> sl_status sl = ZPAR_DONE \<and> sl_error sl \<noteq> None \<and> wpc = Some W_Wait"

definition idle :: "bool \<Rightarrow> zpar_slot_t \<Rightarrow> worker_pc option \<Rightarrow> bool" where
  "idle shutdown sl wpc \<longleftrightarrow>
     sl_status sl = ZPAR_EMPTY \<and> (wpc = None \<or> wpc = Some W_Wait \<or> shutdown \<and> wpc = Some W_Exited)"

definition pc_of :: "worker_pc list \<Rightarrow> nat \<Rightarrow> worker_pc option" where
  "pc_of pcs i = (if i < length pcs then Some (pcs ! i) else None)"

definition slots_inv ::
  "(zpar_slot_t \<Rightarrow> zpar_slot_t) \<Rightarrow> bool \<Rightarrow> zpar_job list \<Rightarrow> zpar_ctx_t \<Rightarrow> worker_pc list \<Rightarrow> bool" where
  "slots_inv work bad js ctx pcs \<longleftrightarrow>
     (let idx = slot_index (nslots ctx) in
      distinct (map idx js) \<and>
      (\<forall>j \<in> set js. busy work (pc_block_size ctx) bad j (pc_slots ctx ! idx j) (pc_of pcs (idx j))) \<and>
      (\<forall>i < nslots ctx. i \<notin> idx ` set js \<longrightarrow> idle (pc_shutdown ctx) (pc_slots ctx ! i) (pc_of pcs i)))"

definition phase_inv :: "'w zpar_sys \<Rightarrow> bool" where
  "phase_inv s \<longleftrightarrow>
     (pc_shutdown (zs_ctx s) \<longleftrightarrow> zs_phase s = Joining \<or> zs_phase s = Joined) \<and>
     (zs_phase s = Finished \<or> zs_phase s = Joining \<or> zs_phase s = Joined \<longrightarrow>
        zs_pending s = [] \<and> (zs_failed s \<or> zs_items s = [])) \<and>
     (zs_phase s = Flush \<longrightarrow> (\<exists>f is. zs_items s = Inline f # is)) \<and>
     (zs_phase s = Joined \<longrightarrow> list_all (\<lambda>pc. pc = W_Exited) (zs_pcs s))"

lemma nslots_simps [simp]:
  "nslots (put_slot i f ctx) = nslots ctx"
  "nslots (ctx\<lparr>pc_error_flag := e\<rparr>) = nslots ctx"
  "nslots (ctx\<lparr>pc_shutdown := b\<rparr>) = nslots ctx"
  "nslots (zpar_release_slot i ctx) = nslots ctx"
  by (simp_all add: nslots_def put_slot_def zpar_release_slot_def)

lemma put_slot_simps [simp]:
  "pc_shutdown (put_slot i f ctx) = pc_shutdown ctx"
  "pc_error_flag (put_slot i f ctx) = pc_error_flag ctx"
  "pc_block_size (put_slot i f ctx) = pc_block_size ctx"
  by (simp_all add: put_slot_def)

lemma release_simps [simp]:
  "pc_shutdown (zpar_release_slot i ctx) = pc_shutdown ctx"
  "pc_error_flag (zpar_release_slot i ctx) = pc_error_flag ctx"
  "pc_block_size (zpar_release_slot i ctx) = pc_block_size ctx"
  by (simp_all add: zpar_release_slot_def)

lemma put_slot_nth: "k < nslots ctx \<Longrightarrow>
    pc_slots (put_slot i f ctx) ! k = (if k = i then f (pc_slots ctx ! k) else pc_slots ctx ! k)"
  by (auto simp: put_slot_def nslots_def)

lemma release_nth: "k < nslots ctx \<Longrightarrow>
    pc_slots (zpar_release_slot i ctx) ! k =
      (if k = i then (pc_slots ctx ! k)\<lparr>sl_output := None, sl_status := ZPAR_EMPTY\<rparr> else pc_slots ctx ! k)"
  by (auto simp: zpar_release_slot_def put_slot_nth)

lemma take_result_simps [simp]:
  "zs_ctx (take_result put sl s) = zs_ctx s" "zs_pcs (take_result put sl s) = zs_pcs s"
  "zs_phase (take_result put sl s) = zs_phase s" "zs_items (take_result put sl s) = zs_items s"
  "zs_pending (take_result put sl s) = zs_pending s"
  by (simp_all add: take_result_def split: option.splits)

lemma slot_index_less: "0 < nslots ctx \<Longrightarrow> slot_index (nslots ctx) j < nslots ctx"
  by (simp add: slot_index_def)

lemma pc_of_update: "pc_of (pcs[i := pc]) k = (if k = i \<and> i < length pcs then Some pc else pc_of pcs k)"
  by (simp add: pc_of_def)

inductive_cases zpar_stepE [elim]: "zpar_step work put eff s s'"

lemma busy_Wait:
  "busy work bs bad j sl (Some W_Wait) \<longleftrightarrow>
     (\<exists>s0. sl = load_job bs j s0) \<or> (\<exists>s0. sl = (work (load_job bs j s0))\<lparr>sl_status := ZPAR_DONE\<rparr>) \<or>
     bad \<and> sl_status sl = ZPAR_DONE \<and> sl_error sl \<noteq> None"
  by (auto simp: busy_def Let_def)

lemma busy_None: "busy work bs bad j sl None \<longleftrightarrow> (\<exists>s0. sl = load_job bs j s0)"
  by (simp add: busy_def Let_def)

lemma busy_Claimed: "busy work bs bad j sl (Some W_Claimed) \<longleftrightarrow> (\<exists>s0. sl = load_job bs j s0)"
  by (simp add: busy_def Let_def)

lemma busy_Working: "busy work bs bad j sl (Some W_Working) \<longleftrightarrow> (\<exists>s0. sl = load_job bs j s0)"
  by (simp add: busy_def Let_def)

lemma busy_Cancelled: "busy work bs bad j sl (Some W_Cancelled) \<longleftrightarrow> bad \<and> (\<exists>s0. sl = load_job bs j s0)"
  by (auto simp: busy_def Let_def)

lemma busy_Worked: "busy work bs bad j sl (Some W_Worked) \<longleftrightarrow> (\<exists>s0. sl = work (load_job bs j s0))"
  by (simp add: busy_def Let_def)

lemma busy_Flagged: "busy work bs bad j sl (Some W_Flagged) \<longleftrightarrow> (\<exists>s0. sl = work (load_job bs j s0))"
  by (simp add: busy_def Let_def)

lemma busy_Exited: "\<not> busy work bs bad j sl (Some W_Exited)"
  by (simp add: busy_def Let_def)

locale zpar_client =
  fixes work :: "zpar_slot_t \<Rightarrow> zpar_slot_t"
    and put :: "zpar_slot_t \<Rightarrow> 'w \<Rightarrow> 'w option"
    and job_err :: "zpar_job \<Rightarrow> zupt_error_t option"
    and job_put :: "zpar_job \<Rightarrow> 'w \<Rightarrow> 'w option"
    and job_ok :: "zpar_job \<Rightarrow> bool"
  assumes work_status: "sl_status (work s) = sl_status s"
    and work_error: "job_ok j \<Longrightarrow> sl_error (work (load_job bs j s)) = job_err j"
    and work_put: "job_ok j \<Longrightarrow> job_err j = None \<Longrightarrow>
      put ((work (load_job bs j s))\<lparr>sl_status := ZPAR_DONE\<rparr>) w = job_put j w"
begin

text \<open>One step of a worker on a pending slot, and on an idle one.\<close>

lemma worker_move_busy:
  assumes b: "busy work (pc_block_size ctx) bad j (pc_slots ctx ! i) (Some pc)"
    and m: "worker_move work i ctx pc = Some (pc', ctx')"
    and j: "job_ok j" "job_err j \<noteq> None \<longrightarrow> bad" "pc_error_flag ctx \<noteq> None \<longrightarrow> bad" "i < nslots ctx"
      "\<not> pc_shutdown ctx"
  shows "busy work (pc_block_size ctx) bad j (pc_slots ctx' ! i) (Some pc') \<and>
    (pc_error_flag ctx' \<noteq> None \<longrightarrow> bad)"
proof (cases pc)
  case W_Wait
  then have "sl_status (pc_slots ctx ! i) = ZPAR_READY" "pc' = W_Claimed" "ctx' = ctx"
    using b m j by (auto simp: busy_Wait work_status split: if_splits)
  then show ?thesis using b j W_Wait by (auto simp: busy_Wait busy_Claimed work_status)
next
  case W_Claimed
  then show ?thesis using b m j by (auto simp: busy_Claimed busy_Working busy_Cancelled)
next
  case W_Working
  then show ?thesis using b m j by (auto simp: busy_Working busy_Worked put_slot_nth)
next
  case W_Cancelled
  then show ?thesis using b m j by (auto simp: busy_Cancelled busy_Wait put_slot_nth)
next
  case W_Worked
  then show ?thesis using b m j by (auto simp: busy_Worked busy_Flagged work_error split: option.splits)
next
  case W_Flagged
  then show ?thesis using b m j by (auto simp: busy_Flagged busy_Wait put_slot_nth)
next
  case W_Exited
  then show ?thesis using m by simp
qed

lemma worker_move_idle:
  assumes "idle (pc_shutdown ctx) (pc_slots ctx ! i) (Some pc)"
    and "worker_move work i ctx pc = Some (pc', ctx')"
  shows "pc' = W_Exited \<and> ctx' = ctx \<and> pc_shutdown ctx"
  using assms by (auto simp: idle_def split: if_splits)

lemma worker_move_frame:
  assumes "worker_move work i ctx pc = Some (pc', ctx')"
  shows "nslots ctx' = nslots ctx \<and> pc_shutdown ctx' = pc_shutdown ctx \<and> pc_block_size ctx' = pc_block_size ctx \<and>
    (\<forall>k < nslots ctx. k \<noteq> i \<longrightarrow> pc_slots ctx' ! k = pc_slots ctx ! k)"
  using assms by (cases pc) (auto simp: put_slot_nth split: if_splits option.splits)

lemma slots_inv_worker:
  assumes inv: "slots_inv work bad js ctx pcs" and i: "i < length pcs" "length pcs \<le> nslots ctx"
    and m: "worker_move work i ctx (pcs ! i) = Some (pc', ctx')"
    and js: "\<forall>j \<in> set js. job_ok j \<and> (job_err j \<noteq> None \<longrightarrow> bad)" "pc_error_flag ctx \<noteq> None \<longrightarrow> bad"
      "pc_shutdown ctx \<longrightarrow> js = []"
  shows "slots_inv work bad js ctx' (pcs[i := pc']) \<and> (pc_error_flag ctx' \<noteq> None \<longrightarrow> bad)"
proof -
  define idx where "idx = slot_index (nslots ctx)"
  have fr: "nslots ctx' = nslots ctx" "pc_shutdown ctx' = pc_shutdown ctx" "pc_block_size ctx' = pc_block_size ctx"
    "\<And>k. k < nslots ctx \<Longrightarrow> k \<noteq> i \<Longrightarrow> pc_slots ctx' ! k = pc_slots ctx ! k"
    using worker_move_frame [OF m] by auto
  have iv: "distinct (map idx js)"
    "\<And>j. j \<in> set js \<Longrightarrow> busy work (pc_block_size ctx) bad j (pc_slots ctx ! idx j) (pc_of pcs (idx j))"
    "\<And>k. k < nslots ctx \<Longrightarrow> k \<notin> idx ` set js \<Longrightarrow> idle (pc_shutdown ctx) (pc_slots ctx ! k) (pc_of pcs k)"
    using inv by (auto simp: slots_inv_def idx_def Let_def)
  have pi: "pc_of pcs i = Some (pcs ! i)" using i by (simp add: pc_of_def)
  have ilt: "i < nslots ctx" using i by simp
  have ilen: "idx j < nslots ctx" for j using ilt by (simp add: idx_def slot_index_def)
  show ?thesis
  proof (cases "i \<in> idx ` set js")
    case True
    then obtain j where j: "j \<in> set js" "idx j = i" by auto
    then have sd: "\<not> pc_shutdown ctx" using js(3) by auto
    have b: "busy work (pc_block_size ctx) bad j (pc_slots ctx ! i) (Some (pcs ! i))"
      using iv(2) [OF j(1)] j(2) pi by simp
    have j1: "job_ok j" "job_err j \<noteq> None \<longrightarrow> bad" using js(1) j(1) by auto
    have b': "busy work (pc_block_size ctx) bad j (pc_slots ctx' ! i) (Some pc')" "pc_error_flag ctx' \<noteq> None \<longrightarrow> bad"
      using worker_move_busy [OF b m j1 js(2) ilt sd] by auto
    have same: "j' = j" if "j' \<in> set js" "idx j' = i" for j'
      using that j iv(1) by (auto simp: distinct_map inj_on_def)
    have "busy work (pc_block_size ctx') bad j' (pc_slots ctx' ! idx j') (pc_of (pcs[i := pc']) (idx j'))"
      if "j' \<in> set js" for j'
      using b'(1) same [OF that] iv(2) [OF that] fr(3,4) ilen [of j'] j i by (auto simp: pc_of_update)
    moreover have "idle (pc_shutdown ctx') (pc_slots ctx' ! k) (pc_of (pcs[i := pc']) k)"
      if "k < nslots ctx" "k \<notin> idx ` set js" for k
    proof -
      have "k \<noteq> i" using that(2) True by auto
      then show ?thesis using iv(3) [OF that] fr(2) fr(4) [OF that(1)] by (simp add: pc_of_update)
    qed
    ultimately show ?thesis using iv(1) fr(1) b'(2) by (simp add: slots_inv_def idx_def Let_def)
  next
    case False
    have w: "pc' = W_Exited" "ctx' = ctx" "pc_shutdown ctx"
      using worker_move_idle [OF _ m] iv(3) [OF ilt False] pi by auto
    have "idle True (pc_slots ctx ! k) (pc_of (pcs[i := W_Exited]) k)" if "k < nslots ctx" for k
      using iv(3) [OF that] js(3) w(3) by (auto simp: pc_of_update idle_def)
    then show ?thesis using iv js(2,3) w by (auto simp: slots_inv_def Let_def)
  qed
qed

lemma slots_inv_submit:
  assumes inv: "slots_inv work bad js ctx pcs" and n: "0 < nslots ctx" "\<not> pc_shutdown ctx"
    and sub: "zpar_submit ctx j = Submitted i ctx'"
  shows "slots_inv work bad (js @ [j]) ctx' pcs \<and> i = slot_index (nslots ctx) j \<and>
    nslots ctx' = nslots ctx \<and> pc_shutdown ctx' = pc_shutdown ctx \<and> pc_error_flag ctx' = pc_error_flag ctx"
proof -
  define idx where "idx = slot_index (nslots ctx)"
  have s: "i = idx j" "ctx' = put_slot i (load_job (pc_block_size ctx) j) ctx"
    "sl_status (pc_slots ctx ! idx j) = ZPAR_EMPTY"
    using sub by (auto simp: zpar_submit_eq [OF n(2)] idx_def Let_def split: if_splits)
  have ilen: "idx j < nslots ctx" for j using n by (simp add: idx_def slot_index_def)
  have iv: "distinct (map idx js)"
    "\<And>j. j \<in> set js \<Longrightarrow> busy work (pc_block_size ctx) bad j (pc_slots ctx ! idx j) (pc_of pcs (idx j))"
    "\<And>k. k < nslots ctx \<Longrightarrow> k \<notin> idx ` set js \<Longrightarrow> idle (pc_shutdown ctx) (pc_slots ctx ! k) (pc_of pcs k)"
    using inv by (auto simp: slots_inv_def idx_def Let_def)
  have ne: "sl_status sl \<noteq> ZPAR_EMPTY" if "busy work bs bad j' sl p" for bs j' sl p
    using that by (auto simp: busy_def Let_def work_status)
  have new: "idx j \<notin> idx ` set js"
  proof
    assume "idx j \<in> idx ` set js"
    then obtain j' where "j' \<in> set js" "idx j' = idx j" by auto
    then show False using ne [OF iv(2) [of j']] s(3) by simp
  qed
  have "pc_of pcs (idx j) = None \<or> pc_of pcs (idx j) = Some W_Wait"
    using iv(3) [OF ilen new] n(2) by (auto simp: idle_def)
  then have "busy work (pc_block_size ctx) bad j (pc_slots ctx' ! idx j) (pc_of pcs (idx j))"
    using s ilen [of j] by (auto simp: put_slot_nth busy_Wait busy_None)
  moreover have "busy work (pc_block_size ctx) bad j' (pc_slots ctx' ! idx j') (pc_of pcs (idx j'))"
    if "j' \<in> set js" for j'
  proof -
    have "idx j' \<noteq> idx j" using new that by (metis imageI)
    then show ?thesis using iv(2) [OF that] s ilen [of j'] by (simp add: put_slot_nth)
  qed
  moreover have "idle (pc_shutdown ctx) (pc_slots ctx' ! k) (pc_of pcs k)"
    if "k < nslots ctx" "k \<notin> idx ` set (js @ [j])" for k
    using iv(3) [of k] that s by (auto simp: put_slot_nth)
  ultimately show ?thesis using iv(1) new s by (auto simp: slots_inv_def idx_def Let_def)
qed

lemma slots_inv_release:
  assumes inv: "slots_inv work bad (j # js) ctx pcs" and n: "0 < nslots ctx"
    and w: "zpar_wait_slot ctx (slot_index (nslots ctx) j) = Some sl" "\<not> pc_shutdown ctx"
  shows "slots_inv work bad js (zpar_release_slot (slot_index (nslots ctx) j) ctx) pcs"
    and "busy work (pc_block_size ctx) bad j sl (Some W_Wait) \<and> sl_status sl = ZPAR_DONE"
proof -
  define idx where "idx = slot_index (nslots ctx)"
  have ilen: "idx j < nslots ctx" for j using n by (simp add: idx_def slot_index_def)
  have iv: "distinct (map idx (j # js))"
    "\<And>k. k \<in> set (j # js) \<Longrightarrow> busy work (pc_block_size ctx) bad k (pc_slots ctx ! idx k) (pc_of pcs (idx k))"
    "\<And>k. k < nslots ctx \<Longrightarrow> k \<notin> idx ` set (j # js) \<Longrightarrow> idle (pc_shutdown ctx) (pc_slots ctx ! k) (pc_of pcs k)"
    using inv by (auto simp: slots_inv_def idx_def Let_def)
  have sl: "sl = pc_slots ctx ! idx j" "sl_status sl = ZPAR_DONE"
    using w by (auto simp: zpar_wait_slot_def idx_def split: if_splits)
  have pj: "pc_of pcs (idx j) = Some W_Wait"
    using iv(2) [of j] sl by (auto simp: busy_def Let_def work_status)
  show "busy work (pc_block_size ctx) bad j sl (Some W_Wait) \<and> sl_status sl = ZPAR_DONE"
    using iv(2) [of j] sl pj by simp
  have "busy work (pc_block_size ctx) bad k (pc_slots (zpar_release_slot (idx j) ctx) ! idx k) (pc_of pcs (idx k))"
    if "k \<in> set js" for k
  proof -
    have "idx k \<noteq> idx j" using iv(1) that by (metis distinct.simps(2) image_eqI list.set_map list.simps(9))
    then show ?thesis using iv(2) [of k] that ilen [of k] by (simp add: release_nth)
  qed
  moreover have "idle (pc_shutdown ctx) (pc_slots (zpar_release_slot (idx j) ctx) ! k) (pc_of pcs k)"
    if "k < nslots ctx" "k \<notin> idx ` set js" for k
    using iv(3) [of k] that pj by (auto simp: release_nth idle_def)
  ultimately show "slots_inv work bad js (zpar_release_slot (slot_index (nslots ctx) j) ctx) pcs"
    using iv(1) by (simp add: slots_inv_def idx_def [symmetric] Let_def)
qed

end

context zpar_client begin

definition bad :: "'w zpar_item list \<Rightarrow> bool" where
  "bad items \<longleftrightarrow> (\<exists>j. Work j \<in> set items \<and> job_err j \<noteq> None)"

abbreviation serial :: "'w zpar_item list \<Rightarrow> 'w \<Rightarrow> 'w option" where
  "serial \<equiv> serial_run job_err job_put"

text \<open>
  \<open>items\<close> are the items of the file: those collected (\<open>dn\<close>), those in the pool (\<open>js\<close>) and those to come.
  What has been collected without a failure is what the serial run makes of it.
\<close>

definition pool_inv :: "nat \<Rightarrow> nat \<Rightarrow> 'w zpar_item list \<Rightarrow> 'w \<Rightarrow> 'w zpar_sys \<Rightarrow> bool" where
  "pool_inv eff n items w0 s \<longleftrightarrow>
     phase_inv s \<and> nslots (zs_ctx s) = n \<and> length (zs_pcs s) \<le> n \<and>
     (pc_error_flag (zs_ctx s) \<noteq> None \<longrightarrow> bad items) \<and>
     (\<exists>dn js. items = dn @ map Work js @ zs_items s \<and> zs_pending s = map (slot_index n) js \<and>
        length js \<le> eff \<and> slots_inv work (bad items) js (zs_ctx s) (zs_pcs s) \<and>
        (if zs_failed s then serial items w0 = None else serial dn w0 = Some (zs_out s)))"

lemma pool_invI:
  assumes "phase_inv s" "nslots (zs_ctx s) = n" "length (zs_pcs s) \<le> n"
    "pc_error_flag (zs_ctx s) \<noteq> None \<longrightarrow> bad items"
    "items = dn @ map Work js @ zs_items s" "zs_pending s = map (slot_index n) js" "length js \<le> eff"
    "slots_inv work (bad items) js (zs_ctx s) (zs_pcs s)"
    "if zs_failed s then serial items w0 = None else serial dn w0 = Some (zs_out s)"
  shows "pool_inv eff n items w0 s"
  unfolding pool_inv_def using assms(1-4)
  by (intro conjI exI [of _ dn] exI [of _ js] assms)

lemma pool_invE:
  assumes "pool_inv eff n items w0 s"
  obtains dn js where "phase_inv s" "nslots (zs_ctx s) = n" "length (zs_pcs s) \<le> n"
    "pc_error_flag (zs_ctx s) \<noteq> None \<longrightarrow> bad items"
    "items = dn @ map Work js @ zs_items s" "zs_pending s = map (slot_index n) js" "length js \<le> eff"
    "slots_inv work (bad items) js (zs_ctx s) (zs_pcs s)"
    "if zs_failed s then serial items w0 = None else serial dn w0 = Some (zs_out s)"
  using assms unfolding pool_inv_def by (elim conjE exE) assumption

lemma pool_inv_start:
  assumes "fresh_pool ctx" "nslots ctx = n" "pc_error_flag ctx = None"
  shows "pool_inv eff n items w0 (zpar_start ctx items w0)"
  using assms
  by (intro pool_invI [where dn = "[]" and js = "[]"])
    (auto simp: zpar_start_def phase_inv_def fresh_pool_def slots_inv_def idle_def pc_of_def nslots_def)

definition jobs_ok :: "'w zpar_item list \<Rightarrow> bool" where
  "jobs_ok items \<longleftrightarrow> (\<forall>j. Work j \<in> set items \<longrightarrow> job_ok j)"

lemma pool_inv_worker:
  assumes inv: "pool_inv eff n items w0 s" and ok: "jobs_ok items"
    and st: "i < length (zs_pcs s)" "worker_move work i (zs_ctx s) (zs_pcs s ! i) = Some (pc, ctx)"
  shows "pool_inv eff n items w0 (s\<lparr>zs_ctx := ctx, zs_pcs := (zs_pcs s)[i := pc]\<rparr>)"
  using inv
proof (rule pool_invE)
  fix dn js
  assume a: "phase_inv s" "nslots (zs_ctx s) = n" "length (zs_pcs s) \<le> n"
    "pc_error_flag (zs_ctx s) \<noteq> None \<longrightarrow> bad items"
    "items = dn @ map Work js @ zs_items s" "zs_pending s = map (slot_index n) js" "length js \<le> eff"
    "slots_inv work (bad items) js (zs_ctx s) (zs_pcs s)"
    "if zs_failed s then serial items w0 = None else serial dn w0 = Some (zs_out s)"
  have j: "\<forall>j \<in> set js. job_ok j \<and> (job_err j \<noteq> None \<longrightarrow> bad items)"
    using ok a(5) by (auto simp: jobs_ok_def bad_def)
  have sd: "pc_shutdown (zs_ctx s) \<longrightarrow> js = []" using a(1,6) by (auto simp: phase_inv_def)
  have ni: "length (zs_pcs s) \<le> nslots (zs_ctx s)" using a(2,3) by simp
  have r: "slots_inv work (bad items) js ctx ((zs_pcs s)[i := pc]) \<and> (pc_error_flag ctx \<noteq> None \<longrightarrow> bad items)"
    using slots_inv_worker [OF a(8) st(1) ni st(2) j a(4) sd] .
  have f: "nslots ctx = n" "pc_shutdown ctx = pc_shutdown (zs_ctx s)"
    using worker_move_frame [OF st(2)] a(2) by auto
  have "phase_inv (s\<lparr>zs_ctx := ctx, zs_pcs := (zs_pcs s)[i := pc]\<rparr>)"
    using a(1) f(2) st by (auto simp: phase_inv_def list_all_length)
  then show ?thesis
    using a r f by (intro pool_invI [where dn = dn and js = js]) auto
qed

lemma pool_inv_submit:
  assumes inv: "pool_inv eff n items w0 s" and n: "0 < n"
    and st: "zs_phase s = Fill" "zs_items s = Work j # is" "length (zs_pending s) < eff"
      "zpar_submit (zs_ctx s) j = Submitted i ctx"
  shows "pool_inv eff n items w0 (s\<lparr>zs_ctx := ctx, zs_items := is, zs_pending := zs_pending s @ [i]\<rparr>)"
  using inv
proof (rule pool_invE)
  fix dn js
  assume a: "phase_inv s" "nslots (zs_ctx s) = n" "length (zs_pcs s) \<le> n"
    "pc_error_flag (zs_ctx s) \<noteq> None \<longrightarrow> bad items"
    "items = dn @ map Work js @ zs_items s" "zs_pending s = map (slot_index n) js" "length js \<le> eff"
    "slots_inv work (bad items) js (zs_ctx s) (zs_pcs s)"
    "if zs_failed s then serial items w0 = None else serial dn w0 = Some (zs_out s)"
  have sd: "\<not> pc_shutdown (zs_ctx s)" using a(1) st(1) by (auto simp: phase_inv_def)
  have n': "0 < nslots (zs_ctx s)" using n a(2) by simp
  note r = slots_inv_submit [OF a(8) n' sd st(4)]
  have "phase_inv (s\<lparr>zs_ctx := ctx, zs_items := is, zs_pending := zs_pending s @ [i]\<rparr>)"
    using a(1) r st(1) by (auto simp: phase_inv_def)
  moreover have "length (js @ [j]) \<le> eff" using st(3) a(6) by simp
  ultimately show ?thesis
    using a(2-6,9) r st by (intro pool_invI [where dn = dn and js = "js @ [j]"]) auto
qed

lemma serial_prefix_None: "serial xs w = None \<Longrightarrow> serial (xs @ ys) w = None"
  by (simp add: serial_run_append)

lemma pool_inv_collect:
  assumes inv: "pool_inv eff n items w0 s" and n: "0 < n" and ok: "jobs_ok items"
    and st: "zs_phase s = Collect \<or> zs_phase s = Flush" "zs_pending s = i # is"
      "zpar_wait_slot (zs_ctx s) i = Some sl"
  shows "pool_inv eff n items w0 ((take_result put sl s)\<lparr>zs_ctx := zpar_release_slot i (zs_ctx s), zs_pending := is\<rparr>)"
    (is "pool_inv eff n items w0 ?s")
  using inv
proof (rule pool_invE)
  fix dn js0
  assume a: "phase_inv s" "nslots (zs_ctx s) = n" "length (zs_pcs s) \<le> n"
    "pc_error_flag (zs_ctx s) \<noteq> None \<longrightarrow> bad items"
    "items = dn @ map Work js0 @ zs_items s" "zs_pending s = map (slot_index n) js0" "length js0 \<le> eff"
    "slots_inv work (bad items) js0 (zs_ctx s) (zs_pcs s)"
    "if zs_failed s then serial items w0 = None else serial dn w0 = Some (zs_out s)"
  then obtain j js where js: "js0 = j # js" "i = slot_index n j" "is = map (slot_index n) js"
    using st(2) by (cases js0) auto
  have sd: "\<not> pc_shutdown (zs_ctx s)" using a(1) st(1) by (auto simp: phase_inv_def)
  have n': "0 < nslots (zs_ctx s)" using n a(2) by simp
  have w: "zpar_wait_slot (zs_ctx s) (slot_index (nslots (zs_ctx s)) j) = Some sl" using st(3) js a(2) by simp
  have rel: "slots_inv work (bad items) js (zpar_release_slot i (zs_ctx s)) (zs_pcs s)"
    and b: "busy work (pc_block_size (zs_ctx s)) (bad items) j sl (Some W_Wait)" "sl_status sl = ZPAR_DONE"
    using slots_inv_release [OF a(8) [unfolded js(1)] n' w sd] js(2) a(2) by auto
  have wj: "Work j \<in> set items" "job_ok j" using a(5) js ok by (auto simp: jobs_ok_def)
  have badN: "bad items \<Longrightarrow> serial items w0 = None" by (auto simp: bad_def intro: serial_run_bad_job)
  have res: "if zs_failed ?s then serial items w0 = None else serial (dn @ [Work j]) w0 = Some (zs_out ?s)"
  proof (cases "sl_error sl = None")
    case True
    then obtain s0 where s0: "sl = (work (load_job (pc_block_size (zs_ctx s)) j s0))\<lparr>sl_status := ZPAR_DONE\<rparr>"
      using b by (auto simp: busy_Wait work_status)
    then have e: "job_err j = None" using True work_error [OF wj(2), of "pc_block_size (zs_ctx s)" s0] by simp
    have p: "put sl w = job_put j w" for w using s0 work_put [OF wj(2) e] by simp
    show ?thesis
    proof (cases "zs_failed s")
      case False
      then have d: "serial dn w0 = Some (zs_out s)" using a(9) by simp
      show ?thesis
      proof (cases "job_put j (zs_out s)")
        case None
        then have "serial (dn @ [Work j]) w0 = None" using d e by (simp add: serial_run_append)
        then have "serial items w0 = None"
          using serial_prefix_None [of "dn @ [Work j]" w0 "map Work js @ zs_items s"] a(5) js(1) by simp
        then show ?thesis using True p None by (simp add: take_result_def)
      qed (use True p d e False in \<open>simp add: take_result_def serial_run_append\<close>)
    qed (use True a(9) in \<open>simp add: take_result_def split: option.splits\<close>)
  next
    case False
    have "bad items"
    proof (rule ccontr)
      assume nb: "\<not> bad items"
      then obtain s0 where "sl = (work (load_job (pc_block_size (zs_ctx s)) j s0))\<lparr>sl_status := ZPAR_DONE\<rparr>"
        using b by (auto simp: busy_Wait work_status)
      then have "job_err j \<noteq> None" using False work_error [OF wj(2), of "pc_block_size (zs_ctx s)" s0] by simp
      then show False using nb wj(1) by (auto simp: bad_def)
    qed
    then show ?thesis using badN False by (simp add: take_result_def)
  qed
  have ph: "phase_inv ?s" using st(1) a(1) unfolding phase_inv_def by (elim disjE) simp_all
  show ?thesis
  proof (rule pool_invI [where dn = "dn @ [Work j]" and js = js])
    show "items = (dn @ [Work j]) @ map Work js @ zs_items ?s" using a(5) js(1) by simp
    show "length js \<le> eff" using a(7) js(1) by simp
    show "slots_inv work (bad items) js (zs_ctx ?s) (zs_pcs ?s)" using rel by simp
    show "zs_pending ?s = map (slot_index n) js" using js(3) by simp
  qed (use a(2-4) ph res in simp_all)
qed

end

lemma zpar_step_block_size: "zpar_step work put eff s s' \<Longrightarrow> pc_block_size (zs_ctx s') = pc_block_size (zs_ctx s)"
proof (induction rule: zpar_step.induct)
  case (worker i s pc ctx)
  then show ?case by (cases "zs_pcs s ! i") (auto split: if_splits option.splits)
next
  case (submit s j "is" i ctx)
  then show ?case by (cases j) (auto simp: zpar_submit_compress_def zpar_submit_decompress_def Let_def split: if_splits)
qed simp_all

lemma zpar_step_fixed:
  "zpar_step work put eff s s' \<Longrightarrow>
     pc_threads_running (zs_ctx s') = pc_threads_running (zs_ctx s) \<and> pc_keyring (zs_ctx s') = pc_keyring (zs_ctx s)"
proof (induction rule: zpar_step.induct)
  case (worker i s pc ctx)
  then show ?case by (cases "zs_pcs s ! i") (auto simp: put_slot_def split: if_splits option.splits)
next
  case (submit s j "is" i ctx)
  then show ?case
    by (cases j) (auto simp: zpar_submit_compress_def zpar_submit_decompress_def put_slot_def Let_def split: if_splits)
qed (simp_all add: zpar_release_slot_def put_slot_def)

lemma zpar_steps_fixed:
  "(zpar_step work put eff)\<^sup>*\<^sup>* s s' \<Longrightarrow>
     pc_threads_running (zs_ctx s') = pc_threads_running (zs_ctx s) \<and> pc_keyring (zs_ctx s') = pc_keyring (zs_ctx s)"
  by (induction rule: rtranclp_induct) (auto dest: zpar_step_fixed)

context zpar_client begin

text \<open>The steps of the main thread alone: no slot changes, and the items change at the front.\<close>

lemma pool_inv_main:
  assumes inv: "pool_inv eff n items w0 s"
    and same: "nslots (zs_ctx s') = n" "pc_error_flag (zs_ctx s') = pc_error_flag (zs_ctx s)"
      "zs_pcs s' = zs_pcs s" "zs_pending s' = zs_pending s" "phase_inv s'"
    and slots: "\<And>js. zs_pending s = map (slot_index n) js \<Longrightarrow>
      slots_inv work (bad items) js (zs_ctx s) (zs_pcs s) \<Longrightarrow> slots_inv work (bad items) js (zs_ctx s') (zs_pcs s)"
    and result: "\<And>dn js. items = dn @ map Work js @ zs_items s \<Longrightarrow> zs_pending s = map (slot_index n) js \<Longrightarrow>
      if zs_failed s then serial items w0 = None else serial dn w0 = Some (zs_out s) \<Longrightarrow>
      \<exists>dn'. items = dn' @ map Work js @ zs_items s' \<and>
        (if zs_failed s' then serial items w0 = None else serial dn' w0 = Some (zs_out s'))"
  shows "pool_inv eff n items w0 s'"
  using inv
proof (rule pool_invE)
  fix dn js
  assume a: "phase_inv s" "nslots (zs_ctx s) = n" "length (zs_pcs s) \<le> n"
    "pc_error_flag (zs_ctx s) \<noteq> None \<longrightarrow> bad items"
    "items = dn @ map Work js @ zs_items s" "zs_pending s = map (slot_index n) js" "length js \<le> eff"
    "slots_inv work (bad items) js (zs_ctx s) (zs_pcs s)"
    "if zs_failed s then serial items w0 = None else serial dn w0 = Some (zs_out s)"
  obtain dn' where d: "items = dn' @ map Work js @ zs_items s'"
    "if zs_failed s' then serial items w0 = None else serial dn' w0 = Some (zs_out s')"
    using result [OF a(5,6,9)] by blast
  have sl: "slots_inv work (bad items) js (zs_ctx s') (zs_pcs s')" using slots [OF a(6,8)] same(3) by simp
  show ?thesis
    by (rule pool_invI [OF same(5,1) _ _ d(1) _ a(7) sl d(2)]) (use a same in simp_all)
qed

lemma pool_inv_inline:
  assumes inv: "pool_inv eff n items w0 s"
    and st: "zs_phase s = Fill" "zs_items s = Inline f # is" "zs_pending s = []" "f (zs_out s) = Written w"
  shows "pool_inv eff n items w0 (s\<lparr>zs_items := is, zs_out := w\<rparr>)"
proof (rule pool_inv_main [OF inv])
  have p: "phase_inv s" "nslots (zs_ctx s) = n" using inv by (auto elim: pool_invE)
  show "phase_inv (s\<lparr>zs_items := is, zs_out := w\<rparr>)" using p st by (simp add: phase_inv_def)
  show "nslots (zs_ctx (s\<lparr>zs_items := is, zs_out := w\<rparr>)) = n" using p by simp
  fix dn js
  assume a: "items = dn @ map Work js @ zs_items s" "zs_pending s = map (slot_index n) js"
    "if zs_failed s then serial items w0 = None else serial dn w0 = Some (zs_out s)"
  then have "js = []" "\<not> zs_failed s \<longrightarrow> serial (dn @ [Inline f]) w0 = Some w"
    using st by (simp_all add: serial_run_append)
  then show "\<exists>dn'. items = dn' @ map Work js @ zs_items (s\<lparr>zs_items := is, zs_out := w\<rparr>) \<and>
     (if zs_failed (s\<lparr>zs_items := is, zs_out := w\<rparr>) then serial items w0 = None
      else serial dn' w0 = Some (zs_out (s\<lparr>zs_items := is, zs_out := w\<rparr>)))"
    using a(1,3) st(2) by (intro exI [of _ "dn @ [Inline f]"]) (simp split: if_splits)
qed simp_all

lemma pool_inv_unwritten:
  assumes inv: "pool_inv eff n items w0 s"
    and st: "zs_phase s = Fill" "zs_items s = Inline f # is" "zs_pending s = []" "f (zs_out s) = Write_failed"
  shows "pool_inv eff n items w0 (s\<lparr>zs_items := is, zs_failed := True\<rparr>)"
proof (rule pool_inv_main [OF inv])
  have p: "phase_inv s" "nslots (zs_ctx s) = n" using inv by (auto elim: pool_invE)
  show "phase_inv (s\<lparr>zs_items := is, zs_failed := True\<rparr>)" using p st by (simp add: phase_inv_def)
  show "nslots (zs_ctx (s\<lparr>zs_items := is, zs_failed := True\<rparr>)) = n" using p by simp
  fix dn js
  assume a: "items = dn @ map Work js @ zs_items s" "zs_pending s = map (slot_index n) js"
    "if zs_failed s then serial items w0 = None else serial dn w0 = Some (zs_out s)"
  then have "js = []" "serial items w0 = None"
    using st by (auto simp: serial_run_append split: if_splits)
  then show "\<exists>dn'. items = dn' @ map Work js @ zs_items (s\<lparr>zs_items := is, zs_failed := True\<rparr>) \<and>
     (if zs_failed (s\<lparr>zs_items := is, zs_failed := True\<rparr>) then serial items w0 = None
      else serial dn' w0 = Some (zs_out (s\<lparr>zs_items := is, zs_failed := True\<rparr>)))"
    using a(1) st(2) by (intro exI [of _ "dn @ [Inline f]"]) simp
qed simp_all

lemma pool_inv_fail:
  assumes inv: "pool_inv eff n items w0 s" and st: "zs_phase s = Fill"
    and x: "\<And>dn js. items = dn @ map Work js @ zs_items s \<Longrightarrow> zs_pending s = map (slot_index n) js \<Longrightarrow>
      serial dn w0 = Some (zs_out s) \<Longrightarrow> serial items w0 = None"
  shows "pool_inv eff n items w0 (s\<lparr>zs_failed := True, zs_phase := Collect\<rparr>)"
proof (rule pool_inv_main [OF inv])
  have p: "phase_inv s" "nslots (zs_ctx s) = n" using inv by (auto elim: pool_invE)
  show "phase_inv (s\<lparr>zs_failed := True, zs_phase := Collect\<rparr>)" using p st by (simp add: phase_inv_def)
  show "nslots (zs_ctx (s\<lparr>zs_failed := True, zs_phase := Collect\<rparr>)) = n" using p by simp
  fix dn js
  assume a: "items = dn @ map Work js @ zs_items s" "zs_pending s = map (slot_index n) js"
    "if zs_failed s then serial items w0 = None else serial dn w0 = Some (zs_out s)"
  then have "serial items w0 = None" using x [OF a(1,2)] by (cases "zs_failed s") simp_all
  then show "\<exists>dn'. items = dn' @ map Work js @ zs_items (s\<lparr>zs_failed := True, zs_phase := Collect\<rparr>) \<and>
     (if zs_failed (s\<lparr>zs_failed := True, zs_phase := Collect\<rparr>) then serial items w0 = None
      else serial dn' w0 = Some (zs_out (s\<lparr>zs_failed := True, zs_phase := Collect\<rparr>)))"
    using a(1) by (intro exI [of _ dn]) simp
qed simp_all

lemma pool_inv_phase:
  assumes inv: "pool_inv eff n items w0 s" and ph: "phase_inv (s\<lparr>zs_phase := p\<rparr>)"
  shows "pool_inv eff n items w0 (s\<lparr>zs_phase := p\<rparr>)"
proof (rule pool_inv_main [OF inv _ _ _ _ ph])
  show "nslots (zs_ctx (s\<lparr>zs_phase := p\<rparr>)) = n" using inv by (auto elim: pool_invE)
  fix dn js
  assume "items = dn @ map Work js @ zs_items s"
    "if zs_failed s then serial items w0 = None else serial dn w0 = Some (zs_out s)"
  then show "\<exists>dn'. items = dn' @ map Work js @ zs_items (s\<lparr>zs_phase := p\<rparr>) \<and>
     (if zs_failed (s\<lparr>zs_phase := p\<rparr>) then serial items w0 = None
      else serial dn' w0 = Some (zs_out (s\<lparr>zs_phase := p\<rparr>)))"
    by (intro exI [of _ dn]) (simp split: if_splits)
qed simp_all

lemma slots_inv_shutdown:
  "slots_inv work b [] ctx pcs \<Longrightarrow> slots_inv work b [] (ctx\<lparr>pc_shutdown := True\<rparr>) pcs"
  by (auto simp: slots_inv_def idle_def)

lemma pool_inv_destroy:
  assumes inv: "pool_inv eff n items w0 s" and st: "zs_phase s = Finished"
  shows "pool_inv eff n items w0 (s\<lparr>zs_ctx := (zs_ctx s)\<lparr>pc_shutdown := True\<rparr>, zs_phase := Joining\<rparr>)"
    (is "pool_inv _ _ _ _ ?s")
proof (rule pool_inv_main [OF inv])
  have p: "phase_inv s" "nslots (zs_ctx s) = n" using inv by (auto elim: pool_invE)
  then have pe: "zs_pending s = []" using st by (simp add: phase_inv_def)
  show "phase_inv ?s" using p st by (simp add: phase_inv_def)
  show "nslots (zs_ctx ?s) = n" using p by simp
  show "slots_inv work (bad items) js (zs_ctx ?s) (zs_pcs s)"
    if "zs_pending s = map (slot_index n) js" "slots_inv work (bad items) js (zs_ctx s) (zs_pcs s)" for js
    using that pe slots_inv_shutdown by simp
  fix dn js
  assume "items = dn @ map Work js @ zs_items s"
    "if zs_failed s then serial items w0 = None else serial dn w0 = Some (zs_out s)"
  then show "\<exists>dn'. items = dn' @ map Work js @ zs_items ?s \<and>
     (if zs_failed ?s then serial items w0 = None else serial dn' w0 = Some (zs_out ?s))"
    by (intro exI [of _ dn]) (simp split: if_splits)
qed simp_all

text \<open>Every step keeps the invariant, when no submission is refused.\<close>

lemma pool_inv_step:
  assumes inv: "pool_inv eff n items w0 s" and n: "0 < n" and ok: "jobs_ok items"
    and acc: "\<forall>j. Work j \<in> set items \<longrightarrow> job_accepted (pc_block_size (zs_ctx s)) j"
    and st: "zpar_step work put eff s s'"
  shows "pool_inv eff n items w0 s'"
proof -
  have ph: "phase_inv s" using inv by (auto elim: pool_invE)
  have mem: "x \<in> set items" if "zs_items s = x # is" for x "is"
    using inv that by (auto elim: pool_invE)
  show ?thesis
    using st
  proof cases
    case (worker i pc ctx)
    then show ?thesis using pool_inv_worker [OF inv ok] by simp
  next
    case (submit j "is" i ctx)
    then show ?thesis using pool_inv_submit [OF inv n] by simp
  next
    case (refuse j "is")
    then have "\<not> pc_shutdown (zs_ctx s)" using ph by (simp add: phase_inv_def)
    then show ?thesis using refuse acc mem by (auto simp: zpar_submit_eq Let_def split: if_splits)
  next
    case (broken "is")
    have "serial items w0 = None" using mem [OF broken(3)] by (rule serial_run_broken)
    then show ?thesis unfolding broken(1) by (intro pool_inv_fail [OF inv broken(2)])
  next
    case (flush f "is")
    then show ?thesis using ph pool_inv_phase [OF inv, of Flush] by (simp add: phase_inv_def)
  next
    case (inline f "is" w)
    then show ?thesis using pool_inv_inline [OF inv] by simp
  next
    case (inline_unwritten f "is")
    then show ?thesis using pool_inv_unwritten [OF inv] by simp
  next
    case (inline_fails f "is")
    then show ?thesis using pool_inv_fail [OF inv inline_fails(2)] by (simp add: serial_run_append)
  next
    case full
    then show ?thesis using ph pool_inv_phase [OF inv, of Collect] by (simp add: phase_inv_def)
  next
    case (collect i "is" sl)
    then show ?thesis using pool_inv_collect [OF inv n ok] by simp
  next
    case flushed
    then show ?thesis using ph pool_inv_phase [OF inv] by (simp add: phase_inv_def)
  next
    case collected
    then show ?thesis using ph pool_inv_phase [OF inv] by (simp add: phase_inv_def)
  next
    case destroy
    then show ?thesis using pool_inv_destroy [OF inv] by simp
  next
    case join
    then show ?thesis using ph pool_inv_phase [OF inv, of Joined] by (simp add: phase_inv_def)
  qed
qed

lemma pool_inv_steps:
  assumes "(zpar_step work put eff)\<^sup>*\<^sup>* s s'" "pool_inv eff n items w0 s" "0 < n" "jobs_ok items"
    "\<forall>j. Work j \<in> set items \<longrightarrow> job_accepted (pc_block_size (zs_ctx s)) j"
  shows "pool_inv eff n items w0 s' \<and> pc_block_size (zs_ctx s') = pc_block_size (zs_ctx s)"
  using assms(1)
proof (induction rule: rtranclp_induct)
  case base
  then show ?case using assms by simp
next
  case (step y z)
  then show ?case using pool_inv_step [OF _ assms(3,4) _ step(2)] zpar_step_block_size [OF step(2)] assms(5) by auto
qed

text \<open>Determinism: whatever the interleaving, a finished file is what the serial run makes of it.\<close>

lemma finished_is_serial:
  assumes "pool_inv eff n items w0 s" "zs_phase s = Finished \<or> zs_phase s = Joining \<or> zs_phase s = Joined"
  shows "serial items w0 = (if zs_failed s then None else Some (zs_out s))"
  using assms by (auto elim!: pool_invE simp: phase_inv_def split: if_splits)

end

section \<open>Progress and termination\<close>

text \<open>
  The steps a slot still has to make, by its status and its worker. Together with the batch in
  flight and the phase they decrease with every step that consumes no item.
\<close>

fun slot_rank :: "zpar_status \<Rightarrow> worker_pc \<Rightarrow> nat" where
  "slot_rank st W_Wait = (if st = ZPAR_READY then 7 else 1)"
| "slot_rank st W_Claimed = 6"
| "slot_rank st W_Working = 5"
| "slot_rank st W_Worked = 4"
| "slot_rank st W_Flagged = 3"
| "slot_rank st W_Cancelled = 3"
| "slot_rank st W_Exited = 0"

definition phase_rank :: "'w zpar_sys \<Rightarrow> nat" where
  "phase_rank s =
     (case zs_phase s of
        Fill \<Rightarrow> if zs_pending s = [] \<and> zs_items s \<noteq> [] \<and> \<not> zs_failed s then 3 else 6
      | Flush \<Rightarrow> 5 | Collect \<Rightarrow> 4 | Finished \<Rightarrow> 2 | Joining \<Rightarrow> 1 | Joined \<Rightarrow> 0)"

definition workers_rank :: "zpar_ctx_t \<Rightarrow> worker_pc list \<Rightarrow> nat" where
  "workers_rank ctx pcs = (\<Sum>i < length pcs. slot_rank (sl_status (pc_slots ctx ! i)) (pcs ! i))"

definition pool_rank :: "'w zpar_sys \<Rightarrow> nat" where
  "pool_rank s = workers_rank (zs_ctx s) (zs_pcs s) + 4 * length (zs_pending s) + phase_rank s"

definition items_rank :: "'w zpar_sys \<Rightarrow> nat" where
  "items_rank s = length (zs_items s) + (if zs_failed s then 0 else 1)"

lemma worker_move_rank:
  assumes "worker_move work i ctx pc = Some (pc', ctx')" "i < nslots ctx" "\<And>s. sl_status (work s) = sl_status s"
  shows "slot_rank (sl_status (pc_slots ctx' ! i)) pc' < slot_rank (sl_status (pc_slots ctx ! i)) pc"
  using assms by (cases pc) (auto simp: put_slot_nth split: if_splits option.splits)

lemma sum_less_at:
  fixes f g :: "nat \<Rightarrow> nat"
  assumes "finite A" "i \<in> A" "f i < g i" "\<And>k. k \<in> A \<Longrightarrow> k \<noteq> i \<Longrightarrow> f k = g k"
  shows "sum f A < sum g A"
proof -
  have "sum f A = f i + sum f (A - {i})" "sum g A = g i + sum g (A - {i})"
    using assms(1,2) by (simp_all add: sum.remove)
  moreover have "sum f (A - {i}) = sum g (A - {i})" using assms(4) by (intro sum.cong) auto
  ultimately show ?thesis using assms(3) by simp
qed

lemma zpar_step_pcs:
  "zpar_step work put eff s s' \<Longrightarrow> length (zs_pcs s') = length (zs_pcs s)"
  by (induction rule: zpar_step.induct) simp_all

context zpar_client begin

lemma workers_rank_move:
  assumes "i < length pcs" "length pcs \<le> nslots ctx" "worker_move work i ctx (pcs ! i) = Some (pc, ctx')"
  shows "workers_rank ctx' (pcs[i := pc]) < workers_rank ctx pcs"
proof -
  have f: "\<And>k. k < nslots ctx \<Longrightarrow> k \<noteq> i \<Longrightarrow> pc_slots ctx' ! k = pc_slots ctx ! k"
    using worker_move_frame [OF assms(3)] by auto
  have "slot_rank (sl_status (pc_slots ctx' ! i)) pc < slot_rank (sl_status (pc_slots ctx ! i)) (pcs ! i)"
    using worker_move_rank [OF assms(3)] assms(1,2) work_status by simp
  then show ?thesis
    unfolding workers_rank_def using assms(1,2) f
    by (simp, intro sum_less_at [where i = i]) auto
qed

lemma workers_rank_release:
  assumes "zpar_wait_slot ctx i = Some sl" "length pcs \<le> nslots ctx"
  shows "workers_rank (zpar_release_slot i ctx) pcs \<le> workers_rank ctx pcs"
  unfolding workers_rank_def
proof (rule sum_mono)
  fix k assume "k \<in> {..< length pcs}"
  then have "k < nslots ctx" using assms(2) by simp
  then show "slot_rank (sl_status (pc_slots (zpar_release_slot i ctx) ! k)) (pcs ! k) \<le>
      slot_rank (sl_status (pc_slots ctx ! k)) (pcs ! k)"
    by (cases "pcs ! k") (auto simp: release_nth)
qed

text \<open>Every step decreases the items to come, or leaves them and decreases the rank of the pool.\<close>

lemma zpar_step_decreases:
  assumes st: "zpar_step work put eff s s'" and e: "0 < eff" and inv: "phase_inv s"
    and n: "length (zs_pcs s) \<le> nslots (zs_ctx s)"
  shows "items_rank s' < items_rank s \<or> items_rank s' = items_rank s \<and> pool_rank s' < pool_rank s"
  using st
proof cases
  case (worker i pc ctx)
  then show ?thesis using workers_rank_move [OF worker(2) n worker(3)]
    by (auto simp: pool_rank_def items_rank_def phase_rank_def)
next
  case (collect i "is" sl)
  have w: "workers_rank (zpar_release_slot i (zs_ctx s)) (zs_pcs s) \<le> workers_rank (zs_ctx s) (zs_pcs s)"
    by (rule workers_rank_release [OF collect(4) n])
  have "items_rank s' \<le> items_rank s"
    unfolding collect(1) by (auto simp: items_rank_def take_result_def split: option.splits)
  moreover have "phase_rank s' = phase_rank s"
    using collect(2) unfolding collect(1) phase_rank_def by (elim disjE) simp_all
  then have "pool_rank s' < pool_rank s"
    using w collect(3) unfolding pool_rank_def collect(1) by simp
  ultimately show ?thesis by linarith
next
  case flushed
  obtain f "is" where "zs_items s = Inline f # is" using inv flushed(2) by (auto simp: phase_inv_def)
  then show ?thesis using flushed by (simp add: pool_rank_def items_rank_def phase_rank_def)
next
  case join
  then show ?thesis by (simp add: pool_rank_def items_rank_def phase_rank_def)
next
  case destroy
  have "workers_rank ((zs_ctx s)\<lparr>pc_shutdown := True\<rparr>) (zs_pcs s) = workers_rank (zs_ctx s) (zs_pcs s)"
    by (simp add: workers_rank_def)
  then show ?thesis using destroy by (simp add: pool_rank_def items_rank_def phase_rank_def)
qed (use e in \<open>auto simp: pool_rank_def items_rank_def phase_rank_def\<close>)

lemma pool_inv_phase_inv: "pool_inv eff n items w0 s \<Longrightarrow>
    phase_inv s \<and> nslots (zs_ctx s) = n \<and> length (zs_pcs s) \<le> n"
  by (auto elim: pool_invE)

text \<open>Hence no schedule runs forever.\<close>

lemma pool_terminates:
  assumes inv: "pool_inv eff n items w0 s" and n: "0 < n" "0 < eff" and ok: "jobs_ok items"
    and acc: "\<forall>j. Work j \<in> set items \<longrightarrow> job_accepted (pc_block_size (zs_ctx s)) j"
  shows "\<nexists>f. f 0 = s \<and> (\<forall>k. zpar_step work put eff (f k) (f (Suc k)))"
proof
  assume "\<exists>f. f 0 = s \<and> (\<forall>k. zpar_step work put eff (f k) (f (Suc k)))"
  then obtain f where f: "f 0 = s" "\<And>k. zpar_step work put eff (f k) (f (Suc k))" by blast
  have reach: "(zpar_step work put eff)\<^sup>*\<^sup>* s (f k)" for k
  proof (induction k)
    case (Suc k)
    then show ?case using f(2) [of k] by (rule rtranclp.rtrancl_into_rtrancl)
  qed (simp add: f)
  have "phase_inv (f k) \<and> length (zs_pcs (f k)) \<le> nslots (zs_ctx (f k))" for k
    using pool_inv_steps [OF reach inv n(1) ok acc, of k] pool_inv_phase_inv [of eff n items w0 "f k"] by simp
  then have dec: "(f (Suc k), f k) \<in> measures [items_rank, pool_rank]" for k
    using zpar_step_decreases [OF f(2) n(2), of k] by simp
  have "wf (measures [items_rank, pool_rank :: 'w zpar_sys \<Rightarrow> nat])" by simp
  then show False using dec unfolding wf_iff_no_infinite_down_chain by blast
qed

text \<open>
  With a worker for every slot, and batches whose blocks have different slots, the pool is never
  stuck before it has been joined.
\<close>

definition batches_fit :: "nat \<Rightarrow> nat \<Rightarrow> 'w zpar_item list \<Rightarrow> bool" where
  "batches_fit eff n items \<longleftrightarrow>
     (\<forall>xs js j ys. items = xs @ map Work js @ Work j # ys \<and> length js < eff \<longrightarrow>
        slot_index n j \<notin> slot_index n ` set js)"

lemma fill_progress:
  assumes inv: "pool_inv eff n items w0 s" and n: "0 < n" "0 < eff"
    and acc: "\<forall>j. Work j \<in> set items \<longrightarrow> job_accepted (pc_block_size (zs_ctx s)) j"
    and fit: "batches_fit eff n items" and ph: "zs_phase s = Fill"
  shows "\<exists>s'. zpar_step work put eff s s'"
  using inv
proof (rule pool_invE)
  fix dn js
  assume a: "phase_inv s" "nslots (zs_ctx s) = n" "length (zs_pcs s) \<le> n"
    "pc_error_flag (zs_ctx s) \<noteq> None \<longrightarrow> bad items"
    "items = dn @ map Work js @ zs_items s" "zs_pending s = map (slot_index n) js" "length js \<le> eff"
    "slots_inv work (bad items) js (zs_ctx s) (zs_pcs s)"
    "if zs_failed s then serial items w0 = None else serial dn w0 = Some (zs_out s)"
  have sd: "\<not> pc_shutdown (zs_ctx s)" using a(1) ph by (simp add: phase_inv_def)
  show ?thesis
  proof (cases "zs_items s = [] \<or> eff \<le> length (zs_pending s)")
    case True
    then show ?thesis using zpar_step.full ph by blast
  next
    case False
    then obtain x "is" where x: "zs_items s = x # is" "length (zs_pending s) < eff" by (cases "zs_items s") auto
    show ?thesis
    proof (cases x)
      case (Work j)
      have "slot_index n j \<notin> slot_index n ` set js"
        using fit a(5,6) x Work unfolding batches_fit_def by force
      then have "idle (pc_shutdown (zs_ctx s)) (pc_slots (zs_ctx s) ! slot_index n j) (pc_of (zs_pcs s) (slot_index n j))"
        using a(2,8) n(1) by (simp add: slots_inv_def Let_def slot_index_def)
      then have "sl_status (pc_slots (zs_ctx s) ! slot_index n j) = ZPAR_EMPTY" by (simp add: idle_def)
      moreover have "job_accepted (pc_block_size (zs_ctx s)) j" using acc a(5) x Work by simp
      ultimately obtain ctx where "zpar_submit (zs_ctx s) j = Submitted (slot_index n j) ctx"
        using a(2) by (simp add: zpar_submit_eq [OF sd] Let_def)
      then show ?thesis using zpar_step.submit [OF ph] x Work by blast
    next
      case (Inline f)
      show ?thesis
      proof (cases "zs_pending s = []")
        case True
        note h = ph x(1) [unfolded Inline] n(2) True
        show ?thesis
          by (cases "f (zs_out s)")
            (use zpar_step.inline [OF h] zpar_step.inline_unwritten [OF h] zpar_step.inline_fails [OF h] in blast)+
      next
        case False
        then show ?thesis using zpar_step.flush [OF ph x(1) [unfolded Inline] x(2)] by blast
      qed
    next
      case Broken
      then show ?thesis using zpar_step.broken [OF ph] x by blast
    qed
  qed
qed

lemma worker_enabled:
  "i < length (zs_pcs s) \<Longrightarrow> worker_move work i (zs_ctx s) (zs_pcs s ! i) \<noteq> None \<Longrightarrow>
     \<exists>s'. zpar_step work put eff s s'"
  by (cases "worker_move work i (zs_ctx s) (zs_pcs s ! i)") (auto intro!: zpar_step.worker)

lemma collect_progress:
  assumes inv: "pool_inv eff n items w0 s" and n: "0 < n" "length (zs_pcs s) = n"
    and ph: "zs_phase s = Collect \<or> zs_phase s = Flush" and p: "zs_pending s = i # is"
  shows "\<exists>s'. zpar_step work put eff s s'"
  using inv
proof (rule pool_invE)
  fix dn js
  assume a: "phase_inv s" "nslots (zs_ctx s) = n"
    "zs_pending s = map (slot_index n) js" "slots_inv work (bad items) js (zs_ctx s) (zs_pcs s)"
  then obtain j where j: "j \<in> set js" "i = slot_index n j" using p by (cases js) auto
  have i: "i < length (zs_pcs s)" using j(2) n by (simp add: slot_index_def)
  have b: "busy work (pc_block_size (zs_ctx s)) (bad items) j (pc_slots (zs_ctx s) ! i) (Some (zs_pcs s ! i))"
    using a(2,4) j i by (auto simp: slots_inv_def Let_def pc_of_def)
  show ?thesis
  proof (cases "zpar_wait_slot (zs_ctx s) i")
    case (Some sl)
    then show ?thesis using zpar_step.collect [OF ph p] by blast
  next
    case None
    then have nd: "sl_status (pc_slots (zs_ctx s) ! i) \<noteq> ZPAR_DONE" by (auto simp: zpar_wait_slot_def split: if_splits)
    have "worker_move work i (zs_ctx s) (zs_pcs s ! i) \<noteq> None"
      using b nd by (cases "zs_pcs s ! i") (auto simp: busy_Wait busy_Exited)
    then show ?thesis using worker_enabled i by blast
  qed
qed

lemma join_progress:
  assumes inv: "pool_inv eff n items w0 s" and ph: "zs_phase s = Joining"
  shows "\<exists>s'. zpar_step work put eff s s'"
  using inv
proof (rule pool_invE)
  fix dn js
  assume a: "phase_inv s" "nslots (zs_ctx s) = n" "length (zs_pcs s) \<le> n"
    "zs_pending s = map (slot_index n) js" "slots_inv work (bad items) js (zs_ctx s) (zs_pcs s)"
  have js: "js = []" "pc_shutdown (zs_ctx s)" using a ph by (auto simp: phase_inv_def)
  show ?thesis
  proof (cases "list_all (\<lambda>pc. pc = W_Exited) (zs_pcs s)")
    case True
    then show ?thesis using zpar_step.join ph by blast
  next
    case False
    then obtain i where i: "i < length (zs_pcs s)" "zs_pcs s ! i \<noteq> W_Exited" by (auto simp: list_all_length)
    have "\<forall>k < n. idle True (pc_slots (zs_ctx s) ! k) (pc_of (zs_pcs s) k)"
      using a(2,5) js by (simp add: slots_inv_def Let_def)
    from this [rule_format, of i] have "idle True (pc_slots (zs_ctx s) ! i) (Some (zs_pcs s ! i))"
      using i(1) a(3) by (simp add: pc_of_def)
    then have "worker_move work i (zs_ctx s) (zs_pcs s ! i) \<noteq> None" using i(2) js(2) by (auto simp: idle_def)
    then show ?thesis using worker_enabled i(1) by blast
  qed
qed

lemma pool_progress:
  assumes inv: "pool_inv eff n items w0 s" and n: "0 < n" "0 < eff" "length (zs_pcs s) = n"
    and acc: "\<forall>j. Work j \<in> set items \<longrightarrow> job_accepted (pc_block_size (zs_ctx s)) j"
    and fit: "batches_fit eff n items" and ph: "zs_phase s \<noteq> Joined"
  shows "\<exists>s'. zpar_step work put eff s s'"
proof (cases "zs_phase s")
  case Fill
  then show ?thesis by (rule fill_progress [OF inv n(1,2) acc fit])
next
  case Flush
  then show ?thesis
    using collect_progress [OF inv n(1,3)] zpar_step.flushed by (cases "zs_pending s") blast+
next
  case Collect
  then show ?thesis
    using collect_progress [OF inv n(1,3)] zpar_step.collected by (cases "zs_pending s") blast+
next
  case Finished
  then show ?thesis using zpar_step.destroy by blast
next
  case Joining
  then show ?thesis by (rule join_progress [OF inv])
qed (use ph in simp)

end

context zpar_client begin

lemma pool_completes:
  assumes inv: "pool_inv eff n items w0 s" and n: "0 < n" "0 < eff" "length (zs_pcs s) = n"
    and ok: "jobs_ok items" and acc: "\<forall>j. Work j \<in> set items \<longrightarrow> job_accepted (pc_block_size (zs_ctx s)) j"
    and fit: "batches_fit eff n items"
  shows "\<exists>s'. (zpar_step work put eff)\<^sup>*\<^sup>* s s' \<and> zs_phase s' = Joined \<and>
    serial items w0 = (if zs_failed s' then None else Some (zs_out s'))"
proof -
  have "wf (measures [items_rank, pool_rank :: 'w zpar_sys \<Rightarrow> nat])" by simp
  then show ?thesis using inv n(3) acc
  proof (induction s rule: wf_induct_rule)
  case (less s)
  note 2 = less
  show ?case
  proof (cases "zs_phase s = Joined")
    case True
    then show ?thesis using finished_is_serial [OF 2(2)] by blast
  next
    case False
    obtain t where t: "zpar_step work put eff s t" using pool_progress [OF 2(2) n(1,2) 2(3,4) fit False] by blast
    have inv': "pool_inv eff n items w0 t" by (rule pool_inv_step [OF 2(2) n(1) ok 2(4) t])
    have p: "phase_inv s" "length (zs_pcs s) \<le> nslots (zs_ctx s)" using pool_inv_phase_inv [OF 2(2)] by auto
    have "(t, s) \<in> measures [items_rank, pool_rank]" using zpar_step_decreases [OF t n(2) p] by simp
    then obtain s' where "(zpar_step work put eff)\<^sup>*\<^sup>* t s'" "zs_phase s' = Joined"
      "serial items w0 = (if zs_failed s' then None else Some (zs_out s'))"
      using 2(1) [of t] inv' 2(3,4) zpar_step_pcs [OF t] zpar_step_block_size [OF t] by auto
    then show ?thesis using t by (meson converse_rtranclp_into_rtranclp)
  qed
  qed
qed

text \<open>
  The opposite: a batch in which two blocks fall into the same slot. The main thread waits for the
  slot to be released, which only it would do.
\<close>

definition stuck_inv :: "nat \<Rightarrow> zpar_job list \<Rightarrow> zpar_job \<Rightarrow> 'w zpar_item list \<Rightarrow> 'w zpar_sys \<Rightarrow> bool" where
  "stuck_inv n js j rest s \<longleftrightarrow>
     zs_phase s = Fill \<and> nslots (zs_ctx s) = n \<and> \<not> pc_shutdown (zs_ctx s) \<and>
     (\<exists>sent todo. js = sent @ todo \<and> zs_items s = map Work todo @ Work j # rest \<and>
        zs_pending s = map (slot_index n) sent \<and>
        (\<forall>k \<in> set sent. sl_status (pc_slots (zs_ctx s) ! slot_index n k) \<noteq> ZPAR_EMPTY))"

lemma worker_move_status:
  assumes "worker_move work i ctx pc = Some (pc', ctx')" "k < nslots ctx" "sl_status (pc_slots ctx ! k) \<noteq> ZPAR_EMPTY"
  shows "sl_status (pc_slots ctx' ! k) \<noteq> ZPAR_EMPTY"
  using assms by (cases pc) (auto simp: put_slot_nth work_status split: if_splits option.splits)

lemma stuck_step:
  assumes st: "zpar_step work put eff s s'" and inv: "stuck_inv n js j rest s"
    and n: "0 < n" "length js < eff" and clash: "slot_index n j \<in> slot_index n ` set js"
    and acc: "\<forall>k \<in> set js. job_accepted (pc_block_size (zs_ctx s)) k"
  shows "stuck_inv n js j rest s'"
proof -
  obtain sent todo where i: "js = sent @ todo" "zs_items s = map Work todo @ Work j # rest"
    "zs_pending s = map (slot_index n) sent" "zs_phase s = Fill" "nslots (zs_ctx s) = n" "\<not> pc_shutdown (zs_ctx s)"
    "\<forall>k \<in> set sent. sl_status (pc_slots (zs_ctx s) ! slot_index n k) \<noteq> ZPAR_EMPTY"
    using inv by (auto simp: stuck_inv_def)
  have lt: "slot_index n k < n" for k using n by (simp add: slot_index_def)
  show ?thesis
    using st
  proof cases
    case (worker w pc ctx)
    have "\<forall>k \<in> set sent. sl_status (pc_slots ctx ! slot_index n k) \<noteq> ZPAR_EMPTY"
      using worker_move_status [OF worker(3)] i(5,7) lt by auto
    then show ?thesis using worker_move_frame [OF worker(3)] worker i by (auto simp: stuck_inv_def)
  next
    case (submit j' "is" w ctx)
    have sub: "w = slot_index n j'" "sl_status (pc_slots (zs_ctx s) ! w) = ZPAR_EMPTY"
      "ctx = put_slot w (load_job (pc_block_size (zs_ctx s)) j') (zs_ctx s)"
      using submit(5) i(5) by (auto simp: zpar_submit_eq [OF i(6)] Let_def split: if_splits)
    show ?thesis
    proof (cases todo)
      case Nil
      then obtain k where "k \<in> set sent" "slot_index n k = slot_index n j'" using clash i(1,2) submit(3) by force
      then show ?thesis using i(7) sub by (metis)
    next
      case (Cons t todo')
      have a: "\<forall>k \<in> set (sent @ [t]). sl_status (pc_slots ctx ! slot_index n k) \<noteq> ZPAR_EMPTY"
        using i(2,5,7) sub submit(3) Cons lt by (auto simp: put_slot_nth)
      have b: "js = (sent @ [t]) @ todo'" using i(1) Cons by simp
      have c: "zs_items s' = map Work todo' @ Work j # rest" "zs_pending s' = map (slot_index n) (sent @ [t])"
        using submit i(2,3) Cons sub by simp_all
      have d: "zs_ctx s' = ctx" "zs_phase s' = Fill" "nslots ctx = n" "\<not> pc_shutdown ctx"
        using submit(1) i(4-6) sub(3) by simp_all
      show ?thesis
        unfolding stuck_inv_def d(1) by (intro conjI exI [of _ "sent @ [t]"] exI [of _ todo'] d b c a)
    qed
  next
    case (refuse j' "is")
    have r: "sl_status (pc_slots (zs_ctx s) ! slot_index n j') = ZPAR_EMPTY"
      "\<not> job_accepted (pc_block_size (zs_ctx s)) j'"
      using refuse(5) i(5) by (auto simp: zpar_submit_eq [OF i(6)] Let_def split: if_splits)
    show ?thesis
    proof (cases todo)
      case Nil
      then obtain k where "k \<in> set sent" "slot_index n k = slot_index n j'" using clash i(1,2) refuse(3) by force
      then show ?thesis using i(7) r(1) by metis
    next
      case (Cons t todo')
      then have "j' \<in> set js" using refuse(3) i(1,2) by simp
      then show ?thesis using acc r(2) by blast
    qed
  next
    case full
    then show ?thesis using i n by auto
  qed (use i in \<open>cases todo; auto\<close>)+
qed

lemma clashing_batch_never_finishes:
  assumes "(zpar_step work put eff)\<^sup>*\<^sup>* (zpar_start ctx (map Work js @ Work j # rest) w0) s"
    and "fresh_pool ctx" "length js < eff" "slot_index (nslots ctx) j \<in> slot_index (nslots ctx) ` set js"
    and "\<forall>k \<in> set js. job_accepted (pc_block_size ctx) k"
  shows "zs_phase s = Fill"
proof -
  have "stuck_inv (nslots ctx) js j rest s \<and> pc_block_size (zs_ctx s) = pc_block_size ctx"
    using assms(1)
  proof (induction rule: rtranclp_induct)
    case base
    then show ?case using assms(2) by (auto simp: stuck_inv_def zpar_start_def fresh_pool_def)
  next
    case (step y z)
    then show ?case
      using stuck_step [OF step(2)] zpar_step_block_size [OF step(2)] assms by (auto simp: fresh_pool_def)
  qed
  then show ?thesis by (simp add: stuck_inv_def)
qed

end

lemma mod_distinct:
  fixes n :: nat
  assumes "a < b" "b - a < n"
  shows "a mod n \<noteq> b mod n"
proof
  assume "a mod n = b mod n"
  then have "n dvd b - a" using assms(1) by (metis mod_eq_dvd_iff_nat less_imp_le)
  then show False using assms by (auto dest: dvd_imp_le)
qed

context zpar_client begin

text \<open>Consecutive sequence numbers put the blocks of a batch into different slots.\<close>

lemma consecutive_batches_fit:
  assumes seq: "\<And>p j. p < length items \<Longrightarrow> items ! p = Work j \<Longrightarrow> unat (job_seq j) = base + p" and n: "eff \<le> n"
  shows "batches_fit eff n items"
  unfolding batches_fit_def
proof (intro allI impI)
  fix xs js j ys
  assume a: "items = xs @ map Work js @ Work j # ys \<and> length js < eff"
  have last: "unat (job_seq j) = base + (length xs + length js)"
    using a by (intro seq) (simp_all add: nth_append)
  have "slot_index n k \<noteq> slot_index n j" if "k \<in> set js" for k
  proof -
    note k = that
    obtain i where i: "i < length js" "js ! i = k" using k by (metis in_set_conv_nth)
    have "unat (job_seq k) = base + (length xs + i)"
      using a i by (intro seq) (simp_all add: nth_append)
    then show ?thesis
      unfolding slot_index_def using last i(1) a n
      by (intro mod_distinct) auto
  qed
  then show "slot_index n j \<notin> slot_index n ` set js" by (metis imageE)
qed

definition agrees :: "'w zpar_item list \<Rightarrow> 'w \<Rightarrow> 'w zpar_sys \<Rightarrow> bool" where
  "agrees items w0 s \<longleftrightarrow> serial items w0 = (if zs_failed s then None else Some (zs_out s))"

text \<open>
  The pool as a whole: whatever has happened, the file can be finished, no schedule goes on for
  ever, and when it is finished the result is that of the serial run.
\<close>

lemma pool_correct:
  assumes fresh: "fresh_pool ctx" "pc_error_flag ctx = None" "pc_threads_running ctx = nslots ctx" "0 < eff"
    and ok: "jobs_ok items" and acc: "\<forall>j. Work j \<in> set items \<longrightarrow> job_accepted (pc_block_size ctx) j"
    and fit: "batches_fit eff (nslots ctx) items"
    and run: "(zpar_step work put eff)\<^sup>*\<^sup>* (zpar_start ctx items w0) s"
  shows "zs_phase s = Finished \<or> zs_phase s = Joining \<or> zs_phase s = Joined \<Longrightarrow> agrees items w0 s"
    and "\<exists>s'. (zpar_step work put eff)\<^sup>*\<^sup>* s s' \<and> zs_phase s' = Joined \<and> agrees items w0 s'"
    and "\<nexists>f. f 0 = s \<and> (\<forall>k. zpar_step work put eff (f k) (f (Suc k)))"
proof -
  have n: "0 < nslots ctx" using fresh(1) by (simp add: fresh_pool_def)
  have s0: "pool_inv eff (nslots ctx) items w0 (zpar_start ctx items w0)"
    by (rule pool_inv_start [OF fresh(1) refl fresh(2)])
  have acc0: "\<forall>j. Work j \<in> set items \<longrightarrow> job_accepted (pc_block_size (zs_ctx (zpar_start ctx items w0))) j"
    using acc by (simp add: zpar_start_def)
  note r = pool_inv_steps [OF run s0 n ok acc0]
  have inv: "pool_inv eff (nslots ctx) items w0 s" using r by simp
  have acc': "\<forall>j. Work j \<in> set items \<longrightarrow> job_accepted (pc_block_size (zs_ctx s)) j"
    using r acc0 by simp
  have "length (zs_pcs s) = length (zs_pcs (zpar_start ctx items w0))"
    using run by (induction rule: rtranclp_induct) (simp_all add: zpar_step_pcs)
  then have len: "length (zs_pcs s) = nslots ctx" using fresh(3) by (simp add: zpar_start_def)
  show "agrees items w0 s" if "zs_phase s = Finished \<or> zs_phase s = Joining \<or> zs_phase s = Joined"
    using finished_is_serial [OF inv that] by (simp add: agrees_def)
  show "\<exists>s'. (zpar_step work put eff)\<^sup>*\<^sup>* s s' \<and> zs_phase s' = Joined \<and> agrees items w0 s'"
    using pool_completes [OF inv n fresh(4) len ok acc' fit] by (simp add: agrees_def)
  show "\<nexists>f. f 0 = s \<and> (\<forall>k. zpar_step work put eff (f k) (f (Suc k)))"
    by (rule pool_terminates [OF inv n fresh(4) ok acc'])
qed

text \<open>Between two files a pool that has not failed is as ready as at the start.\<close>

lemma pool_ready_again:
  assumes ready: "ready_pool n ctx" "0 < eff"
    and ok: "jobs_ok items" and acc: "\<forall>j. Work j \<in> set items \<longrightarrow> job_accepted (pc_block_size ctx) j"
    and run: "(zpar_step work put eff)\<^sup>*\<^sup>* (zpar_start ctx items w0) s"
    and fin: "zs_phase s = Finished" "\<not> zs_failed s"
  shows "ready_pool n (zs_ctx s) \<and> zs_pcs s = replicate n W_Wait \<and> pc_keyring (zs_ctx s) = pc_keyring ctx"
proof -
  have fresh: "fresh_pool ctx" "pc_error_flag ctx = None" "pc_threads_running ctx = nslots ctx" and n: "nslots ctx = n"
    using ready by (simp_all add: ready_pool_def)
  have n0: "0 < n" using fresh(1) n by (simp add: fresh_pool_def)
  have s0: "pool_inv eff n items w0 (zpar_start ctx items w0)" by (rule pool_inv_start [OF fresh(1) n fresh(2)])
  have acc0: "\<forall>j. Work j \<in> set items \<longrightarrow> job_accepted (pc_block_size (zs_ctx (zpar_start ctx items w0))) j"
    using acc by (simp add: zpar_start_def)
  have inv: "pool_inv eff n items w0 s" using pool_inv_steps [OF run s0 n0 ok acc0] by simp
  then obtain dn js where i: "phase_inv s" "nslots (zs_ctx s) = n" "pc_error_flag (zs_ctx s) \<noteq> None \<longrightarrow> bad items"
    "items = dn @ map Work js @ zs_items s" "zs_pending s = map (slot_index n) js"
    "slots_inv work (bad items) js (zs_ctx s) (zs_pcs s)" "serial dn w0 = Some (zs_out s)"
    using fin(2) by (elim pool_invE) (simp only: if_False)
  have e: "js = []" "zs_items s = []" "\<not> pc_shutdown (zs_ctx s)" using i(1,5) fin by (auto simp: phase_inv_def)
  have sl: "idle False (pc_slots (zs_ctx s) ! k) (pc_of (zs_pcs s) k)" if "k < n" for k
    using i(2,6) e that by (simp add: slots_inv_def Let_def)
  have "length (zs_pcs s) = length (zs_pcs (zpar_start ctx items w0))"
    using run by (induction rule: rtranclp_induct) (simp_all add: zpar_step_pcs)
  then have len: "length (zs_pcs s) = n" using fresh(3) n by (simp add: zpar_start_def)
  have "zs_pcs s ! k = W_Wait" if "k < n" for k using sl [OF that] that len by (simp add: idle_def pc_of_def)
  then have pcs: "zs_pcs s = replicate n W_Wait" using len by (intro nth_equalityI) simp_all
  have "\<not> bad items"
  proof
    assume "bad items"
    then obtain j where "Work j \<in> set dn" "job_err j \<noteq> None" using i(4) e by (auto simp: bad_def)
    with serial_run_bad_job i(7) show False by fastforce
  qed
  then have fl: "pc_error_flag (zs_ctx s) = None" using i(3) by blast
  have st: "\<forall>x \<in> set (pc_slots (zs_ctx s)). sl_status x = ZPAR_EMPTY"
    using sl i(2) by (auto simp: in_set_conv_nth nslots_def idle_def)
  note fx = zpar_steps_fixed [OF run]
  show ?thesis
    using pcs fl st i(2) e(3) fx n0 fresh(3) n by (simp add: ready_pool_def fresh_pool_def zpar_start_def)
qed

text \<open>
  The error flag is never cleared: in a pool whose flag is set from an earlier file every block is
  cancelled, so a file with a block for the workers fails, whatever its blocks hold.
\<close>

definition stale_inv :: "'w zpar_sys \<Rightarrow> bool" where
  "stale_inv s \<longleftrightarrow>
     pc_error_flag (zs_ctx s) \<noteq> None \<and> 0 < nslots (zs_ctx s) \<and> length (zs_pcs s) \<le> nslots (zs_ctx s) \<and>
     (\<forall>i < length (zs_pcs s). zs_pcs s ! i \<in> {W_Wait, W_Claimed, W_Cancelled, W_Exited}) \<and>
     (\<forall>i < nslots (zs_ctx s). sl_status (pc_slots (zs_ctx s) ! i) = ZPAR_DONE \<longrightarrow> sl_error (pc_slots (zs_ctx s) ! i) \<noteq> None) \<and>
     (\<forall>i \<in> set (zs_pending s). i < nslots (zs_ctx s)) \<and>
     ((\<exists>j. Work j \<in> set (zs_items s)) \<or> zs_pending s \<noteq> [] \<or> zs_failed s) \<and>
     (pc_shutdown (zs_ctx s) \<longrightarrow> zs_failed s) \<and>
     (zs_phase s = Finished \<or> zs_phase s = Joining \<or> zs_phase s = Joined \<longrightarrow> zs_failed s)"

lemma stale_worker:
  assumes inv: "stale_inv s" and i: "i < length (zs_pcs s)"
    and m: "worker_move work i (zs_ctx s) (zs_pcs s ! i) = Some (pc, ctx)"
  shows "stale_inv (s\<lparr>zs_ctx := ctx, zs_pcs := (zs_pcs s)[i := pc]\<rparr>)"
proof -
  have p: "zs_pcs s ! i \<in> {W_Wait, W_Claimed, W_Cancelled, W_Exited}" "pc_error_flag (zs_ctx s) \<noteq> None"
    using inv i by (auto simp: stale_inv_def)
  have pc: "pc \<in> {W_Wait, W_Claimed, W_Cancelled, W_Exited}" "pc_error_flag ctx = pc_error_flag (zs_ctx s)"
    using p m by (auto split: if_splits)
  have f: "nslots ctx = nslots (zs_ctx s)" "pc_shutdown ctx = pc_shutdown (zs_ctx s)"
    using worker_move_frame [OF m] by auto
  have st: "\<forall>k < nslots (zs_ctx s). sl_status (pc_slots ctx ! k) = ZPAR_DONE \<longrightarrow> sl_error (pc_slots ctx ! k) \<noteq> None"
    using inv p m by (auto simp: stale_inv_def put_slot_nth split: if_splits)
  have pcs: "\<forall>k < length ((zs_pcs s)[i := pc]). (zs_pcs s)[i := pc] ! k \<in> {W_Wait, W_Claimed, W_Cancelled, W_Exited}"
  proof (intro allI impI)
    fix k assume "k < length ((zs_pcs s)[i := pc])"
    moreover have "\<forall>k < length (zs_pcs s). zs_pcs s ! k \<in> {W_Wait, W_Claimed, W_Cancelled, W_Exited}"
      using inv by (simp add: stale_inv_def)
    ultimately show "(zs_pcs s)[i := pc] ! k \<in> {W_Wait, W_Claimed, W_Cancelled, W_Exited}"
      using pc(1) by (cases "k = i") simp_all
  qed
  show ?thesis
    using inv pcs pc(2) f st unfolding stale_inv_def by simp
qed

lemma stale_step:
  assumes st: "zpar_step work put eff s s'" and inv: "stale_inv s"
  shows "stale_inv s'"
  using st
proof cases
  case (worker i pc ctx)
  then show ?thesis using stale_worker [OF inv] by simp
next
  case (submit j "is" i ctx)
  show ?thesis
  proof (cases "pc_shutdown (zs_ctx s)")
    case True
    then show ?thesis
      using submit(5) by (cases j) (auto simp: zpar_submit_compress_def zpar_submit_decompress_def Let_def)
  next
    case False
    then have c: "ctx = put_slot i (load_job (pc_block_size (zs_ctx s)) j) (zs_ctx s)" "i = slot_index (nslots (zs_ctx s)) j"
      "sl_status (pc_slots (zs_ctx s) ! i) = ZPAR_EMPTY"
      using submit(5) by (auto simp: zpar_submit_eq Let_def split: if_splits)
    have "i < nslots (zs_ctx s)" using c(2) inv by (simp add: slot_index_def stale_inv_def)
    then show ?thesis using inv submit c False by (auto simp: stale_inv_def put_slot_nth)
  qed
next
  case (collect i "is" sl)
  have i: "i < nslots (zs_ctx s)" using inv collect(3) by (simp add: stale_inv_def)
  have "zs_failed s \<or> sl_error sl \<noteq> None"
    using inv collect(4) i by (auto simp: stale_inv_def zpar_wait_slot_def split: if_splits)
  then have "zs_failed (take_result put sl s)" by (auto simp: take_result_def split: option.splits)
  moreover have "pc_error_flag (zs_ctx s) \<noteq> None" "0 < nslots (zs_ctx s)" "length (zs_pcs s) \<le> nslots (zs_ctx s)"
    "\<forall>i < length (zs_pcs s). zs_pcs s ! i \<in> {W_Wait, W_Claimed, W_Cancelled, W_Exited}"
    "\<forall>k < nslots (zs_ctx s). sl_status (pc_slots (zs_ctx s) ! k) = ZPAR_DONE \<longrightarrow> sl_error (pc_slots (zs_ctx s) ! k) \<noteq> None"
    "\<forall>i \<in> set is. i < nslots (zs_ctx s)"
    using inv collect(3) by (auto simp: stale_inv_def)
  ultimately show ?thesis unfolding collect(1) stale_inv_def by (simp add: release_nth)
next
  case collected
  then show ?thesis using inv by (auto simp: stale_inv_def)
qed (use inv in \<open>auto simp: stale_inv_def\<close>)

lemma stale_flag_fails:
  assumes "fresh_pool ctx" "pc_error_flag ctx \<noteq> None" "Work j \<in> set items"
    and "(zpar_step work put eff)\<^sup>*\<^sup>* (zpar_start ctx items w0) s" "zs_phase s = Finished"
  shows "zs_failed s"
proof -
  have "stale_inv (zpar_start ctx items w0)"
    using assms(1-3) by (auto simp: stale_inv_def zpar_start_def fresh_pool_def nslots_def)
  with assms(4) have "stale_inv s"
    by (induction rule: rtranclp_induct) (auto intro: stale_step)
  then show ?thesis using assms(5) by (simp add: stale_inv_def)
qed

end

lemma zpar_create_fresh:
  assumes "zpar_create True create_ok threads bs mode key = Some ctx"
  shows "fresh_pool ctx" "pc_error_flag ctx = None" "pc_block_size ctx = bs" "pc_mode ctx = mode"
    "nslots ctx = nat (zupt_resolve_threads 1 (if threads < 1 then 1 else threads))"
    "(\<And>i. create_ok i) \<Longrightarrow> pc_threads_running ctx = nslots ctx"
    "pc_keyring ctx = (case key of None \<Rightarrow> no_keyring | Some k \<Rightarrow> k)"
  using assms start_threads_le [of 0 create_ok "nat (if threads < 1 then 1 else if threads > 64 then 64 else threads)"]
  by (auto simp: zpar_create_def fresh_pool_def nslots_def empty_slot_def Let_def zupt_resolve_threads_def
      start_threads_all split: if_splits)

end
