(* ===== verification/Batch.thy ===== *)
theory Batch
  imports Parallel
begin

text \<open>
  The two clients of the worker pool in \<open>src/zupt_format.c\<close>: the multi-threaded extraction of a file
  and the multi-threaded compression of one. Both are the batch loop of theory Parallel, over the
  items a file consists of, and both give what the single-threaded loops of the theories Extract
  and Compress give, whatever the interleaving.
\<close>

section \<open>Decompressing in the pool\<close>

text \<open>The block a decompression job was made from, and the job of a block that was read.\<close>

definition job_block :: "bytes \<Rightarrow> u16 \<Rightarrow> u16 \<Rightarrow> u64 \<Rightarrow> u64 \<Rightarrow> zupt_block_t" where
  "job_block data codec bflags cksum usize =
     \<lparr>block_type = ZUPT_BLOCK_DATA, codec_id = codec, block_flags = bflags, uncompressed_size = usize,
      compressed_size = word_of_nat (length data), checksum = cksum, payload = data\<rparr>"

definition block_job :: "bool \<Rightarrow> zupt_block_t \<Rightarrow> u64 \<Rightarrow> zpar_job" where
  "block_job realloc_ok b aad_seq =
     DecompressJob realloc_ok (take (unat (compressed_size b)) (payload b)) aad_seq (codec_id b)
       (block_flags b) (checksum b) (uncompressed_size b)"

lemma worker_open_block:
  assumes "length data < 2 ^ 64"
  shows "worker_open al kr (clear_slot (load_decompress bs data sq codec bflags cksum usize s0)) =
    open_payload al (job_block data codec bflags cksum usize) (Some kr) sq"
  using unat_small [OF assms]
  by (simp add: worker_open_def open_payload_def job_block_def clear_slot_def load_decompress_def
      preface_aad_block Let_def)

text \<open>
  What a worker makes of a block, without the slot around it: \<open>decompress_block\<close> without the bound
  on the payload, and with the other VaptVupt decoder.
\<close>

definition worker_block :: "block_alloc \<Rightarrow> vvz_decoder \<Rightarrow> zupt_keyring_t \<Rightarrow> zupt_block_t \<Rightarrow> u64 \<Rightarrow> bytes result" where
  "worker_block al vv kr b block_seq =
     (if unat (uncompressed_size b) > ZUPT_MAX_BLOCK_SZ then Inl ZUPT_ERR_OVERFLOW
      else
        rbind (open_payload al b (Some kr) block_seq) (\<lambda>comp_data.
        let olen = unat (uncompressed_size b) in
        if olen = 0 then Inr []
        else if \<not> ba_out al then Inl ZUPT_ERR_NOMEM
        else
          rbind (decode_payload al vv (codec_id b) comp_data olen) (\<lambda>out.
          if zupt_xxh64 out 0 \<noteq> checksum b then Inl ZUPT_ERR_BAD_CHECKSUM else Inr out)))"

lemma worker_decompress_block:
  assumes "length data < 2 ^ 64"
    and sl_def: "sl = clear_slot (load_decompress bs data sq codec bflags cksum usize s0)"
  shows "worker_decompress al vv kr sl =
    (case worker_block al vv kr (job_block data codec bflags cksum usize) sq of
       Inl e \<Rightarrow> sl\<lparr>sl_error := Some e\<rparr>
     | Inr y \<Rightarrow> sl\<lparr>sl_output := (if y = [] then None else Some y)\<rparr>)"
proof -
  have f: "sl_uncomp_size sl = usize" "sl_codec_id sl = codec" "sl_stored_checksum sl = cksum"
    "sl\<lparr>sl_output := None\<rparr> = sl" "sl\<lparr>sl_error := None\<rparr> = sl"
    by (simp_all add: sl_def clear_slot_def load_decompress_def)
  have o: "worker_open al kr sl = open_payload al (job_block data codec bflags cksum usize) (Some kr) sq"
    unfolding sl_def by (rule worker_open_block [OF assms(1)])
  have u: "uncompressed_size (job_block data codec bflags cksum usize) = usize"
    "codec_id (job_block data codec bflags cksum usize) = codec"
    "checksum (job_block data codec bflags cksum usize) = cksum" by (simp_all add: job_block_def)
  have l: "y \<noteq> []" if "decode_payload al vv codec p (unat usize) = Inr y" "unat usize \<noteq> 0" for p y
    using decode_payload_length [OF that(1)] that(2) by auto
  have e2: "sl\<lparr>sl_output := x, sl_error := None\<rparr> = sl\<lparr>sl_output := x\<rparr>" for x
    by (simp add: sl_def clear_slot_def load_decompress_def)
  show ?thesis
    unfolding worker_decompress_def worker_block_def o u f(1-3) Let_def
    using l f(4,5) e2
    by (auto simp: rbind_def split: sum.splits if_splits)
qed

text \<open>
  The two decoders. What the worker decodes, so does the single thread, if the payload is within
  its bound; and the converse holds unless the checksum of a VaptVupt frame is wrong, which only
  the worker looks at.
\<close>

definition frame_checksums_ok :: "block_alloc \<Rightarrow> vv_block_decoders \<Rightarrow> zupt_keyring_t \<Rightarrow> zupt_block_t \<Rightarrow> u64 \<Rightarrow> bool" where
  "frame_checksums_ok al bd kr b block_seq \<longleftrightarrow>
     (codec_id b = ZUPT_CODEC_VAPTVUPT \<longrightarrow>
       (case open_payload al b (Some kr) block_seq of
          Inl _ \<Rightarrow> True | Inr p \<Rightarrow> vv_checksums_ok bd p (unat (uncompressed_size b) + ZUPT_VV_DECODE_SLACK)))"

lemma decode_payload_vv:
  assumes "decode_payload al (vv_decoder_of bd) c p n = Inr y"
  shows "decode_payload al (vvz_decoder_of bd) c p n = Inr y"
  using assms vv_decompress_Inr [of bd p "n + ZUPT_VV_DECODE_SLACK" y]
  by (auto simp: decode_payload_def vv_decoder_of_def vvz_decoder_of_def split: if_splits)

lemma decode_payload_vvz:
  assumes "c = ZUPT_CODEC_VAPTVUPT \<longrightarrow> vv_checksums_ok bd p (n + ZUPT_VV_DECODE_SLACK)"
  shows "decode_payload al (vv_decoder_of bd) c p n = decode_payload al (vvz_decoder_of bd) c p n"
  using assms vv_result_checksums [of bd p "n + ZUPT_VV_DECODE_SLACK"]
  by (simp add: decode_payload_def vv_decoder_of_def vvz_decoder_of_def)

lemma worker_block_serial:
  assumes "worker_block al (vv_decoder_of bd) kr b sq = Inr y" "unat (compressed_size b) \<le> ZUPT_MAX_BLOCK_SZ + 1024"
  shows "decompress_block al (vvz_decoder_of bd) b (Some kr) sq = Inr y"
proof -
  have u: "\<not> unat (uncompressed_size b) > ZUPT_MAX_BLOCK_SZ" "\<not> unat (compressed_size b) > ZUPT_MAX_BLOCK_SZ + 1024"
    using assms by (auto simp: worker_block_def split: if_splits)
  from assms(1) u(1) obtain p where p: "open_payload al b (Some kr) sq = Inr p"
    and r: "(let olen = unat (uncompressed_size b) in
        if olen = 0 then Inr []
        else if \<not> ba_out al then Inl ZUPT_ERR_NOMEM
        else
          rbind (decode_payload al (vv_decoder_of bd) (codec_id b) p olen) (\<lambda>out.
          if zupt_xxh64 out 0 \<noteq> checksum b then Inl ZUPT_ERR_BAD_CHECKSUM else Inr out)) = Inr y"
    unfolding worker_block_def by (auto simp only: if_False rbind_Inr_iff)
  show ?thesis
    unfolding decompress_block_def p using u r decode_payload_vv [of al bd "codec_id b" p "unat (uncompressed_size b)"]
    by (cases "decode_payload al (vv_decoder_of bd) (codec_id b) p (unat (uncompressed_size b))")
       (simp_all add: Let_def split: if_splits)
qed

lemma serial_worker_block:
  assumes "unat (compressed_size b) \<le> ZUPT_MAX_BLOCK_SZ + 1024" "frame_checksums_ok al bd kr b sq"
  shows "worker_block al (vv_decoder_of bd) kr b sq = decompress_block al (vvz_decoder_of bd) b (Some kr) sq"
proof (cases "open_payload al b (Some kr) sq")
  case (Inl e)
  then show ?thesis using assms(1) by (simp add: worker_block_def decompress_block_def)
next
  case (Inr p)
  have "decode_payload al (vv_decoder_of bd) (codec_id b) p (unat (uncompressed_size b)) =
      decode_payload al (vvz_decoder_of bd) (codec_id b) p (unat (uncompressed_size b))"
    using assms(2) Inr by (intro decode_payload_vvz) (simp add: frame_checksums_ok_def)
  then show ?thesis using assms(1) Inr by (simp add: worker_block_def decompress_block_def Let_def)
qed

text \<open>The checksum does decide: a block whose frame has a wrong one is extracted by one thread and
  refused by a worker.\<close>

theorem frame_checksum_decides:
  fixes p :: bytes
  defines "p \<equiv> example_raw_frame True [0, 0, 0, 0, 0, 0, 0, 0, 0x44, 0x4E, 0x56, 0x56]"
  defines "b \<equiv> \<lparr>block_type = ZUPT_BLOCK_DATA, codec_id = ZUPT_CODEC_VAPTVUPT, block_flags = 0, uncompressed_size = 2,
    compressed_size = word_of_nat (length p), checksum = zupt_xxh64 [1, 2] 0, payload = p\<rparr>"
  assumes "block_mem al" "\<not> active kr"
  shows "decompress_block al (vvz_decoder_of bd) b (Some kr) sq = Inr [1, 2]"
    and "worker_block al (vv_decoder_of bd) kr b sq = Inl ZUPT_ERR_CORRUPT"
proof -
  have l: "length p = 34" by (simp add: p_def example_raw_frame_def)
  have o: "open_payload al b (Some kr) sq = Inr p" using assms(4) l by (simp add: open_payload_def b_def)
  have d: "decode_payload al (vvz_decoder_of bd) ZUPT_CODEC_VAPTVUPT p 2 = Inr [1, 2]"
    "decode_payload al (vv_decoder_of bd) ZUPT_CODEC_VAPTVUPT p 2 = Inl ZUPT_ERR_CORRUPT"
    using example_frame_checksum [of bd]
    by (simp_all add: decode_payload_def vv_decoder_of_def vvz_decoder_of_def ZUPT_VV_DECODE_SLACK_def p_def exactly_def)
  have b: "uncompressed_size b = 2" "compressed_size b = 34" "codec_id b = ZUPT_CODEC_VAPTVUPT" "checksum b = zupt_xxh64 [1, 2] 0"
    using l by (simp_all add: b_def)
  show "decompress_block al (vvz_decoder_of bd) b (Some kr) sq = Inr [1, 2]"
    "worker_block al (vv_decoder_of bd) kr b sq = Inl ZUPT_ERR_CORRUPT"
    using o d assms(3) by (simp_all add: decompress_block_def worker_block_def b block_mem_def ZUPT_MAX_BLOCK_SZ_def)
qed

section \<open>Extracting a file in the pool\<close>

text \<open>
  The state of the main loop: the bytes written, \<open>file_extracted\<close> and \<open>file_hash\<close>, and the number of
  blocks done. A null or empty output is not written.
\<close>

type_synonym extract_state = "bytes \<times> (u64 \<times> u64) \<times> nat"

definition write_chunk :: "(nat \<Rightarrow> bool) \<Rightarrow> u64 \<Rightarrow> bytes \<Rightarrow> extract_state \<Rightarrow> extract_state option" where
  "write_chunk wr expected data w =
     (case w of (content, st, b) \<Rightarrow>
        (case zupt_write_verified_chunk (wr b) data expected st of
           None \<Rightarrow> None | Some st \<Rightarrow> Some (content @ data, st, b + 1)))"

definition put_output :: "(nat \<Rightarrow> bool) \<Rightarrow> u64 \<Rightarrow> zpar_slot_t \<Rightarrow> extract_state \<Rightarrow> extract_state option" where
  "put_output wr expected sl w =
     (case sl_output sl of
        None \<Rightarrow> (case w of (content, st, b) \<Rightarrow> Some (content, st, b + 1))
      | Some data \<Rightarrow> if length data > 0 then write_chunk wr expected data w
                    else (case w of (content, st, b) \<Rightarrow> Some (content, st, b + 1)))"

text \<open>The items of a file: \<open>n\<close> blocks are left, \<open>b\<close> were read, \<open>pos\<close> is the position in the archive.\<close>

fun extract_items ::
  "read_env \<Rightarrow> (nat \<Rightarrow> bool) \<Rightarrow> (nat \<Rightarrow> bool) \<Rightarrow> bytes \<Rightarrow> u32 \<Rightarrow> zupt_keyring_t \<Rightarrow>
     zupt_legacy_disk_aad_map_t option \<Rightarrow> u64 \<Rightarrow> nat \<Rightarrow> nat \<Rightarrow> nat \<Rightarrow> nat \<Rightarrow> extract_state zpar_item list" where
  "extract_items env wr re f gflags kr lmap expected fi 0 b pos = []"
| "extract_items env wr re f gflags kr lmap expected fi (Suc n) b pos =
     (case read_block_at (re_alloc env) f pos of
        Inl _ \<Rightarrow> [Broken]
      | Inr (blk, cur) \<Rightarrow>
          if block_type blk = ZUPT_BLOCK_DEDUP_REF then
            Inline (\<lambda>w. case extract_ref env f gflags kr lmap fi (word_of_nat b) blk cur of
                Inl _ \<Rightarrow> Decode_failed
              | Inr dec \<Rightarrow> (case write_chunk wr expected dec w of None \<Rightarrow> Write_failed | Some w \<Rightarrow> Written w))
            # extract_items env wr re f gflags kr lmap expected fi n (b + 1) cur
          else if block_type blk \<noteq> ZUPT_BLOCK_DATA then [Broken]
          else
            Work (block_job (re b) blk (archive_data_aad_seq gflags fi (word_of_nat b)))
            # extract_items env wr re f gflags kr lmap expected fi n (b + 1) cur)"

text \<open>What a job amounts to, under a decoder of blocks.\<close>

fun extract_result :: "(zupt_block_t \<Rightarrow> u64 \<Rightarrow> bytes result) \<Rightarrow> zpar_job \<Rightarrow> bytes result" where
  "extract_result dec (DecompressJob r d s c b k u) = dec (job_block d c b k u) s"
| "extract_result dec (CompressJob d s l c) = Inl ZUPT_ERR_INVALID"

definition extract_err :: "(zupt_block_t \<Rightarrow> u64 \<Rightarrow> bytes result) \<Rightarrow> zpar_job \<Rightarrow> zupt_error_t option" where
  "extract_err dec j = (case extract_result dec j of Inl e \<Rightarrow> Some e | Inr _ \<Rightarrow> None)"

definition extract_put ::
  "(zupt_block_t \<Rightarrow> u64 \<Rightarrow> bytes result) \<Rightarrow> (nat \<Rightarrow> bool) \<Rightarrow> u64 \<Rightarrow> zpar_job \<Rightarrow> extract_state \<Rightarrow> extract_state option" where
  "extract_put dec wr expected j w =
     (case extract_result dec j of
        Inl _ \<Rightarrow> None
      | Inr y \<Rightarrow> if y = [] then (case w of (content, st, b) \<Rightarrow> Some (content, st, b + 1)) else write_chunk wr expected y w)"

fun extract_job_ok :: "zpar_job \<Rightarrow> bool" where
  "extract_job_ok (DecompressJob r d s c b k u) \<longleftrightarrow> length d < 2 ^ 64"
| "extract_job_ok (CompressJob d s l c) \<longleftrightarrow> False"

definition extract_work ::
  "(u64 \<Rightarrow> worker_env) \<Rightarrow> block_alloc \<Rightarrow> vvz_decoder \<Rightarrow> zupt_keyring_t \<Rightarrow> zpar_slot_t \<Rightarrow> zpar_slot_t" where
  "extract_work wenv al vv kr = zpar_work wenv al vv 1 kr"

text \<open>A reader's decoder in the pool and on one thread.\<close>

definition re_vv :: "read_env \<Rightarrow> vvz_decoder" where
  "re_vv env = vv_decoder_of (re_vv_blocks env)"

definition pool_decode :: "read_env \<Rightarrow> zupt_keyring_t \<Rightarrow> zupt_block_t \<Rightarrow> u64 \<Rightarrow> bytes result" where
  "pool_decode env kr = worker_block (re_block env) (re_vv env) kr"

definition serial_decode :: "read_env \<Rightarrow> zupt_keyring_t \<Rightarrow> zupt_block_t \<Rightarrow> u64 \<Rightarrow> bytes result" where
  "serial_decode env kr b sq = decompress_block (re_block env) (re_vvz env) b (Some kr) sq"

lemma extract_work_job:
  assumes "extract_job_ok j"
  shows "\<exists>sl. sl_output sl = None \<and> sl_error sl = None \<and>
    extract_work wenv al vv kr (load_job bs j s0) =
      (case extract_result (worker_block al vv kr) j of
         Inl e \<Rightarrow> sl\<lparr>sl_error := Some e\<rparr>
       | Inr y \<Rightarrow> sl\<lparr>sl_output := (if y = [] then None else Some y)\<rparr>)"
proof (cases j)
  case (CompressJob d s l c)
  then show ?thesis using assms by simp
next
  case (DecompressJob r d s c b k u)
  let ?sl = "clear_slot (load_decompress bs d s c b k u s0)"
  have "length d < 2 ^ 64" using assms DecompressJob by simp
  from worker_decompress_block [OF this refl, of al vv kr bs s c b k u s0]
  show ?thesis
    by (intro exI [of _ ?sl]) (simp add: DecompressJob extract_work_def zpar_work_def load_job_def clear_slot_def)
qed

lemma sl_status_clear [simp]: "sl_status (clear_slot s) = sl_status s"
  by (simp add: clear_slot_def)

lemma sl_status_worker_decompress: "sl_status (worker_decompress al vv kr s) = sl_status s"
  by (simp add: worker_decompress_def Let_def split: sum.splits)

interpretation mt_extract: zpar_client "extract_work wenv al vv kr" "put_output wr expected" "extract_err (worker_block al vv kr)"
    "extract_put (worker_block al vv kr) wr expected" extract_job_ok
  for wenv al vv kr wr expected
proof
  fix s bs j
  show "sl_status (extract_work wenv al vv kr s) = sl_status s"
    by (simp add: extract_work_def zpar_work_def sl_status_worker_decompress)
  fix w
  assume ok: "extract_job_ok j"
  obtain sl where sl: "sl_output sl = None" "sl_error sl = None"
    "extract_work wenv al vv kr (load_job bs j s) =
      (case extract_result (worker_block al vv kr) j of
         Inl e \<Rightarrow> sl\<lparr>sl_error := Some e\<rparr>
       | Inr y \<Rightarrow> sl\<lparr>sl_output := (if y = [] then None else Some y)\<rparr>)"
    using extract_work_job [OF ok] by blast
  show "sl_error (extract_work wenv al vv kr (load_job bs j s)) = extract_err (worker_block al vv kr) j"
    using sl by (simp add: extract_err_def split: sum.splits)
  assume "extract_err (worker_block al vv kr) j = None"
  then show "put_output wr expected ((extract_work wenv al vv kr (load_job bs j s))\<lparr>sl_status := ZPAR_DONE\<rparr>) w =
      extract_put (worker_block al vv kr) wr expected j w"
    using sl by (auto simp: extract_err_def extract_put_def put_output_def split: sum.splits)
qed

section \<open>The items of a file and the single-threaded loop\<close>

lemma read_block_at_payload:
  assumes "read_block_at alloc f pos = Inr (blk, cur)"
  shows "length (payload blk) = unat (compressed_size blk)"
  using assms by (auto simp: read_block_at_def rbind_Inr_iff read_block_iff block_wf_def)

lemma block_job_result:
  assumes "read_block_at alloc f pos = Inr (blk, cur)" "block_type blk = ZUPT_BLOCK_DATA"
  shows "extract_result dec (block_job r blk sq) = dec blk sq"
proof -
  have "length (payload blk) = unat (compressed_size blk)" by (rule read_block_at_payload [OF assms(1)])
  then have "job_block (take (unat (compressed_size blk)) (payload blk)) (codec_id blk) (block_flags blk)
      (checksum blk) (uncompressed_size blk) = blk"
    using assms(2) by (cases blk) (simp add: job_block_def)
  then show ?thesis by (simp add: block_job_def)
qed

lemma word_le_diff_add:
  fixes a l e :: u64
  assumes "a \<le> e" "l \<le> e - a"
  shows "a + l \<le> e"
proof -
  have "unat a \<le> unat e" "unat l \<le> unat e - unat a" using assms by (simp_all add: word_le_nat_alt unat_sub)
  moreover have "unat e < 2 ^ 64" using unat_lt2p [of e] by simp
  ultimately show ?thesis by (simp add: word_le_nat_alt unat_word_ariths)
qed

lemma verified_chunk_written:
  "zupt_write_verified_chunk ok data expected (a, h) = Some (a', h') \<Longrightarrow> a' \<le> expected"
  by (auto simp: zupt_write_verified_chunk_def not_less intro: word_le_diff_add split: if_splits)

lemma verified_chunk_empty:
  "a \<le> expected \<Longrightarrow> zupt_write_verified_chunk ok [] expected (a, h) = Some (a, h)"
  by (simp add: zupt_write_verified_chunk_def)

lemma extract_items_serial:
  assumes "fst st \<le> expected"
  shows "serial_run (extract_err (serial_decode env kr)) (extract_put (serial_decode env kr) wr expected)
      (extract_items env wr re f gflags kr lmap expected fi n b pos) (content, st, b) =
    map_option (\<lambda>(content, st, pos). (content, st, b + n))
      (extract_blocks env wr f gflags kr lmap expected fi n b pos content st)"
  using assms
proof (induction n arbitrary: b pos content st)
  case 0
  show ?case by simp
next
  case (Suc n)
  obtain a h where st: "st = (a, h)" by (cases st)
  show ?case
  proof (cases "read_block_at (re_alloc env) f pos")
    case (Inl e)
    then show ?thesis by (simp add: extract_block_def)
  next
    case (Inr bc)
    obtain blk cur where bc: "bc = (blk, cur)" by (cases bc)
    note rd = Inr [unfolded bc]
    have chunk: "write_chunk wr expected dec (content, st, b) =
        (case zupt_write_verified_chunk (wr b) dec expected st of None \<Rightarrow> None
         | Some st \<Rightarrow> Some (content @ dec, st, b + 1))" for dec
      by (simp add: write_chunk_def)
    have le: "fst st' \<le> expected" if "zupt_write_verified_chunk (wr b) dec expected st = Some st'" for dec st'
      using verified_chunk_written [of "wr b" dec expected a h "fst st'" "snd st'"] that st by simp
    show ?thesis
    proof (cases "block_type blk = ZUPT_BLOCK_DEDUP_REF")
      case True
      then show ?thesis
        using rd Suc.IH le
        by (auto simp: extract_block_def rbind_def chunk split: sum.splits option.splits)
    next
      case False
      show ?thesis
      proof (cases "block_type blk = ZUPT_BLOCK_DATA")
        case True
        note res = block_job_result [OF rd True]
        have e0: "zupt_write_verified_chunk (wr b) [] expected st = Some st"
          using verified_chunk_empty Suc.prems st by simp
        show ?thesis
          using rd Suc.IH le False True Suc.prems e0
          by (auto simp: extract_block_def rbind_def chunk extract_err_def extract_put_def res serial_decode_def
              split: sum.splits option.splits)
      qed (use rd False in \<open>simp add: extract_block_def rbind_def\<close>)
    qed
  qed
qed

lemma length_extract_items: "length (extract_items env wr re f gflags kr lmap expected fi n b pos) \<le> n"
proof (induction n arbitrary: b pos)
  case (Suc n)
  then show ?case by (auto split: sum.splits)
qed simp

lemma extract_items_job:
  "p < length (extract_items env wr re f gflags kr lmap expected fi n b pos) \<Longrightarrow>
   extract_items env wr re f gflags kr lmap expected fi n b pos ! p = Work j \<Longrightarrow>
   \<exists>blk. j = block_job (re (b + p)) blk (archive_data_aad_seq gflags fi (word_of_nat (b + p)))"
proof (induction n arbitrary: b pos p)
  case (Suc n)
  obtain blk cur where rd: "read_block_at (re_alloc env) f pos = Inr (blk, cur)"
    using Suc.prems by (cases "read_block_at (re_alloc env) f pos") auto
  show ?case
  proof (cases p)
    case 0
    then show ?thesis using Suc.prems rd by (auto split: if_splits)
  next
    case (Suc q)
    then have "q < length (extract_items env wr re f gflags kr lmap expected fi n (b + 1) cur)"
      "extract_items env wr re f gflags kr lmap expected fi n (b + 1) cur ! q = Work j"
      using Suc.prems rd by (auto split: if_splits)
    from Suc.IH [OF this] show ?thesis using Suc by simp
  qed
qed simp

section \<open>Compressing a file in the pool\<close>

text \<open>The items of a file's remaining bytes; \<open>b\<close> blocks were read, \<open>bs\<close> is the block size.\<close>

function compress_items :: "zupt_options_t \<Rightarrow> nat \<Rightarrow> nat \<Rightarrow> nat \<Rightarrow> bytes \<Rightarrow> cw_state zpar_item list" where
  "compress_items opts fi bs b rest =
     (if rest = [] \<or> bs = 0 then []
      else Work (CompressJob (take bs rest) (logical_aad_seq fi (word_of_nat b)) (opt_level opts) (opt_codec_id opts))
           # compress_items opts fi bs (b + 1) (drop bs rest))"
  by pat_completeness auto
termination
  by (relation "measure (\<lambda>(_, _, _, _, rest). length rest)") auto

declare compress_items.simps [simp del]

text \<open>
  Collecting a compressed block: its frame is written, and the totals advance. The chained hash is
  continued here; the code continues it when it reads the block, in the same order.
\<close>

definition put_frame :: "zpar_slot_t \<Rightarrow> cw_state \<Rightarrow> cw_state option" where
  "put_frame sl st =
     (let out = (case sl_output sl of None \<Rightarrow> [] | Some y \<Rightarrow> y) in
      Some (cw_advance
        (write_preface ZUPT_BLOCK_DATA (sl_actual_codec sl) (sl_out_bflags sl)
           (word_of_nat (length (sl_input sl))) (word_of_nat (length out)) (sl_checksum sl) @ out)
        (word_of_nat (length out)) (st\<lparr>cw_hash := zupt_xxh64 (sl_input sl) (cw_hash st)\<rparr>)))"

text \<open>The workers' surroundings, numbered as the single-threaded writer meets them.\<close>

definition pool_env :: "write_env \<Rightarrow> nat \<Rightarrow> u64 \<Rightarrow> worker_env" where
  "pool_env we k0 sq =
     (let k = k0 + unat (take_bit 32 sq) in
      \<lparr>wk_cbuf = True, wk_codec = we_codec we k, wk_out = we_mem we k, wk_nonce = we_nonce we k\<rparr>)"

fun compress_result :: "(u64 \<Rightarrow> worker_env) \<Rightarrow> zupt_keyring_t \<Rightarrow> zpar_job \<Rightarrow> (u16 \<times> u16 \<times> bytes) option" where
  "compress_result wenv kr (CompressJob d s l c) =
     (let (codec, p) = compress_chunk (wk_codec (wenv s)) c l d in
      map_option (\<lambda>(bf, out). (codec, bf, out))
        (seal_payload True (wk_nonce (wenv s)) True kr ZUPT_BLOCK_DATA codec (length d) p (zupt_xxh64 d 0) s))"
| "compress_result wenv kr (DecompressJob r d s c b k u) = None"

fun compress_put :: "(u64 \<Rightarrow> worker_env) \<Rightarrow> zupt_keyring_t \<Rightarrow> zpar_job \<Rightarrow> cw_state \<Rightarrow> cw_state option" where
  "compress_put wenv kr (CompressJob d s l c) st =
     (case compress_result wenv kr (CompressJob d s l c) of
        None \<Rightarrow> None
      | Some (codec, fp) \<Rightarrow>
          Some (cw_advance (frame_block ZUPT_BLOCK_DATA codec (length d) (zupt_xxh64 d 0) fp)
                  (word_of_nat (length (snd fp))) (st\<lparr>cw_hash := zupt_xxh64 d (cw_hash st)\<rparr>)))"
| "compress_put wenv kr (DecompressJob r d s c b k u) st = None"

text \<open>A job that finds the memory it needs and on which both uses of the VaptVupt encoder agree.\<close>

fun compress_job_ok :: "(u64 \<Rightarrow> worker_env) \<Rightarrow> zpar_job \<Rightarrow> bool" where
  "compress_job_ok wenv (CompressJob d s l c) \<longleftrightarrow>
     wk_cbuf (wenv s) \<and> wk_out (wenv s) \<and> worker_try (wk_codec (wenv s)) c l d = compress_try (wk_codec (wenv s)) c l d"
| "compress_job_ok wenv (DecompressJob r d s c b k u) \<longleftrightarrow> False"

text \<open>The two uses of the VaptVupt encoder agree when a larger buffer does not change its result.\<close>

lemma worker_vv_eq:
  assumes "ce_vv_tmp ce"
    and "\<And>cap. ce_vv_bound ce (length x) \<le> cap \<Longrightarrow> ce_vv ce x cap level = ce_vv ce x (ce_vv_bound ce (length x)) level"
  shows "worker_vv ce level x = compress_vv ce level x"
proof -
  have le: "length c < length x \<Longrightarrow> length c \<le> zupt_lzh_bound (length x) + 512" for c :: bytes
    by (simp add: zupt_lzh_bound_def)
  define r where "r = ce_vv ce x (ce_vv_bound ce (length x)) level"
  have w: "worker_vv ce level x = (case r of None \<Rightarrow> [] | Some c \<Rightarrow> if length c > 0 \<and> length c < length x then c else [])"
    using assms(1) le by (simp add: worker_vv_def r_def Let_def split: option.split)
  show ?thesis
  proof (cases "ce_vv_bound ce (length x) > zupt_lzh_bound (length x) + 512")
    case True
    then show ?thesis using assms(1) unfolding w by (simp add: compress_vv_def r_def [symmetric] Let_def)
  next
    case False
    then have "ce_vv ce x (zupt_lzh_bound (length x) + 512) level = r"
      using assms(2) [of "zupt_lzh_bound (length x) + 512"] by (simp add: r_def)
    then show ?thesis using False unfolding w by (simp add: compress_vv_def Let_def)
  qed
qed

lemma worker_compress_block:
  assumes w: "wk_cbuf (wenv s)" "wk_out (wenv s)"
    and t: "worker_try (wk_codec (wenv s)) c l d = compress_try (wk_codec (wenv s)) c l d"
    and sl_def: "sl = clear_slot (load_compress d s l c s0)"
  shows "\<exists>codec bf out. compress_result wenv kr (CompressJob d s l c) = Some (codec, bf, out) \<and>
    worker_compress wenv kr sl =
      sl\<lparr>sl_checksum := zupt_xxh64 d 0, sl_actual_codec := codec, sl_out_bflags := bf, sl_output := Some out\<rparr>"
proof -
  have f: "sl_block_seq sl = s" "sl_input sl = d" "sl_codec_id sl = c" "sl_level sl = l" "sl_error sl = None"
    by (simp_all add: sl_def clear_slot_def load_compress_def)
  obtain cap bf0 sc us ac ob ck st where sl: "sl = \<lparr>sl_input = d, sl_cap = cap, sl_block_seq = s, sl_level = l,
      sl_codec_id = c, sl_block_flags = bf0, sl_stored_checksum = sc, sl_uncomp_size = us, sl_output = None,
      sl_actual_codec = ac, sl_out_bflags = ob, sl_checksum = ck, sl_error = None, sl_status = st\<rparr>"
    by (simp add: sl_def clear_slot_def load_compress_def) (cases s0, simp)
  show ?thesis
  proof (cases "active kr")
    case True
    then show ?thesis
      using w t unfolding sl
      by (simp add: worker_compress_def compress_chunk_def seal_payload_def zupt_encrypt_buffer_def
          zupt_encrypt_buffer_aad_def Let_def)
  next
    case False
    then show ?thesis
      using w t unfolding sl by (simp add: worker_compress_def compress_chunk_def seal_payload_def Let_def)
  qed
qed

definition compress_work :: "(u64 \<Rightarrow> worker_env) \<Rightarrow> block_alloc \<Rightarrow> vvz_decoder \<Rightarrow> zupt_keyring_t \<Rightarrow> zpar_slot_t \<Rightarrow> zpar_slot_t" where
  "compress_work wenv al vvz kr = zpar_work wenv al vvz 0 kr"

lemma sl_status_worker_compress: "sl_status (worker_compress wenv kr s) = sl_status s"
proof -
  have o: "sl_status (case x of None \<Rightarrow> a | Some e \<Rightarrow> f e) = sl_status s"
    if "sl_status a = sl_status s" "\<And>e. sl_status (f e) = sl_status s" for x :: "bytes option" and a f
    using that by (cases x) simp_all
  show ?thesis
    unfolding worker_compress_def Let_def by (simp add: o del: if_split)
qed

interpretation mt_compress: zpar_client "compress_work wenv al vvz kr" put_frame "\<lambda>_. None"
    "compress_put wenv kr" "compress_job_ok wenv"
  for wenv al vvz kr
proof
  fix s bs j w
  show "sl_status (compress_work wenv al vvz kr s) = sl_status s"
    by (simp add: compress_work_def zpar_work_def sl_status_worker_compress)
  assume ok: "compress_job_ok wenv j"
  then obtain d sq l c where j: "j = CompressJob d sq l c" by (cases j) auto
  let ?sl = "clear_slot (load_compress d sq l c s)"
  obtain codec bf out where r: "compress_result wenv kr (CompressJob d sq l c) = Some (codec, bf, out)"
    "worker_compress wenv kr ?sl =
      ?sl\<lparr>sl_checksum := zupt_xxh64 d 0, sl_actual_codec := codec, sl_out_bflags := bf, sl_output := Some out\<rparr>"
    using worker_compress_block [where sl = ?sl, OF _ _ _ refl] ok j by (metis compress_job_ok.simps(1))
  have w1: "compress_work wenv al vvz kr (load_job bs j s) =
      ?sl\<lparr>sl_checksum := zupt_xxh64 d 0, sl_actual_codec := codec, sl_out_bflags := bf, sl_output := Some out\<rparr>"
    using r(2) by (simp add: compress_work_def zpar_work_def load_job_def j)
  show "sl_error (compress_work wenv al vvz kr (load_job bs j s)) = None"
    unfolding w1 by (simp add: clear_slot_def)
  show "put_frame ((compress_work wenv al vvz kr (load_job bs j s))\<lparr>sl_status := ZPAR_DONE\<rparr>) w =
      compress_put wenv kr j w"
    unfolding w1 using r(1) by (simp add: put_frame_def j frame_block_def clear_slot_def load_compress_def)
qed

definition pool_keyring :: "zupt_options_t \<Rightarrow> zupt_keyring_t option" where
  "pool_keyring opts = (if opt_encrypt opts then Some (opt_keyring opts) else None)"

definition ctx_keyring :: "zupt_options_t \<Rightarrow> zupt_keyring_t" where
  "ctx_keyring opts = (case pool_keyring opts of None \<Rightarrow> no_keyring | Some k \<Rightarrow> k)"

lemma seal_payload_pool:
  "seal_payload m nonce True (ctx_keyring opts) bt codec nread p ck sq =
   seal_payload m nonce (opt_encrypt opts) (opt_keyring opts) bt codec nread p ck sq"
  by (simp add: ctx_keyring_def pool_keyring_def seal_payload_def no_keyring_def)

lemma pool_env_at:
  assumes "fi < 2 ^ 31 - 1" "b < 2 ^ 32"
  shows "pool_env we k0 (logical_aad_seq fi (word_of_nat b)) =
    \<lparr>wk_cbuf = True, wk_codec = we_codec we (k0 + b), wk_out = we_mem we (k0 + b), wk_nonce = we_nonce we (k0 + b)\<rparr>"
proof -
  have "unat (take_bit 32 (logical_aad_seq fi (word_of_nat b))) = b"
    unfolding unsigned_take_bit_eq logical_aad_seq_nat [OF assms] using assms by (simp add: take_bit_eq_mod del: mod_mult_self1 add: mod_add_left_eq [symmetric])
  then show ?thesis by (simp add: pool_env_def Let_def)
qed

lemma compress_block_put:
  assumes "cw_dedup st = None" "we_mem we (cw_total st)" "cw_total st = k0 + cw_seq st" "fi < 2 ^ 31 - 1" "cw_seq st < 2 ^ 32"
  shows "compress_block we opts fi x st =
    (case compress_put (pool_env we k0) (ctx_keyring opts)
        (CompressJob x (logical_aad_seq fi (word_of_nat (cw_seq st))) (opt_level opts) (opt_codec_id opts)) st of
       None \<Rightarrow> Inl ZUPT_ERR_NOMEM | Some st' \<Rightarrow> Inr st')"
  using assms
  by (simp add: compress_block_def write_block_or_ref_def write_data_block_def find_duplicate_def pool_env_at seal_payload_pool
      cw_advance_def Let_def split: prod.splits option.splits)

lemma cw_advance_simps [simp]:
  "cw_dedup (cw_advance x y st) = cw_dedup st" "cw_seq (cw_advance x y st) = cw_seq st + 1"
  "cw_total (cw_advance x y st) = cw_total st + 1"
  by (simp_all add: cw_advance_def)

lemma compress_put_state:
  "compress_put wenv kr j st = Some st' \<Longrightarrow>
     cw_dedup st' = cw_dedup st \<and> cw_seq st' = cw_seq st + 1 \<and> cw_total st' = cw_total st + 1"
  by (cases j) (auto split: option.splits)

lemma compress_items_serial:
  assumes "\<And>k. we_mem we k" "fi < 2 ^ 31 - 1" "0 < bs"
    and "cw_dedup st = None" "cw_seq st = b" "cw_total st = k0 + b" "b * bs + length rest \<le> 2 ^ 32 * bs"
  shows "serial_run (\<lambda>_. None) (compress_put (pool_env we k0) (ctx_keyring opts)) (compress_items opts fi bs b rest) st =
    (case compress_chunks we opts fi bs rest st of Inl _ \<Rightarrow> None | Inr st \<Rightarrow> Some st)"
  using assms(2-)
proof (induction opts fi bs b rest arbitrary: st rule: compress_items.induct)
  case (1 opts fi bs b rest)
  show ?case
  proof (cases "rest = []")
    case True
    then show ?thesis by (simp add: compress_items.simps compress_chunks_simps)
  next
    case False
    have b: "b < 2 ^ 32"
    proof (rule ccontr)
      assume "\<not> b < 2 ^ 32"
      then have "2 ^ 32 * bs \<le> b * bs" by simp
      moreover have "0 < length rest" using False by simp
      ultimately show False using 1(7) by linarith
    qed
    let ?j = "CompressJob (take bs rest) (logical_aad_seq fi (word_of_nat b)) (opt_level opts) (opt_codec_id opts)"
    have blk: "compress_block we opts fi (take bs rest) st =
        (case compress_put (pool_env we k0) (ctx_keyring opts) ?j st of None \<Rightarrow> Inl ZUPT_ERR_NOMEM | Some st' \<Rightarrow> Inr st')"
    proof -
      have k: "cw_total st = k0 + cw_seq st" "cw_seq st < 2 ^ 32" using 1(5,6) b by simp_all
      show ?thesis by (rule compress_block_put [OF 1(4) assms(1) k(1) 1(2) k(2), unfolded 1(5)])
    qed
    have items: "compress_items opts fi bs b rest = Work ?j # compress_items opts fi bs (b + 1) (drop bs rest)"
      using False 1(3) by (subst compress_items.simps) simp
    have chunks: "compress_chunks we opts fi bs rest st =
        rbind (compress_block we opts fi (take bs rest) st) (compress_chunks we opts fi bs (drop bs rest))"
      using False 1(3) by (subst compress_chunks_simps) simp
    show ?thesis
    proof (cases "compress_put (pool_env we k0) (ctx_keyring opts) ?j st")
      case None
      then show ?thesis using blk unfolding items chunks by (simp add: rbind_def)
    next
      case (Some st')
      have l: "(b + 1) * bs + length (drop bs rest) \<le> 2 ^ 32 * bs"
      proof (cases "bs \<le> length rest")
        case True
        then show ?thesis using 1(7) by simp
      next
        case False
        have "(b + 1) * bs \<le> 2 ^ 32 * bs" using b by (intro mult_le_mono1) simp
        then show ?thesis using False by simp
      qed
      have st': "cw_dedup st' = None" "cw_seq st' = b + 1" "cw_total st' = k0 + (b + 1)"
        using compress_put_state [OF Some] 1(4-6) by simp_all
      have "\<not> (rest = [] \<or> bs = 0)" using False 1(3) by simp
      from 1(1) [OF this 1(2,3) st' l] show ?thesis
        using blk Some unfolding items chunks by (simp add: rbind_def)
    qed
  qed
qed

section \<open>The pool and the single-threaded loops\<close>

lemma compress_items_job:
  "p < length (compress_items opts fi bs b rest) \<Longrightarrow> compress_items opts fi bs b rest ! p = Work j \<Longrightarrow>
   \<exists>x. j = CompressJob x (logical_aad_seq fi (word_of_nat (b + p))) (opt_level opts) (opt_codec_id opts) \<and>
     length x \<le> bs \<and> (b + p) * bs < b * bs + length rest"
proof (induction opts fi bs b rest arbitrary: p rule: compress_items.induct)
  case (1 opts fi bs b rest)
  have ne: "\<not> (rest = [] \<or> bs = 0)"
    using 1(2) by (subst (asm) compress_items.simps) (auto split: if_splits)
  have items: "compress_items opts fi bs b rest =
      Work (CompressJob (take bs rest) (logical_aad_seq fi (word_of_nat b)) (opt_level opts) (opt_codec_id opts)) #
      compress_items opts fi bs (b + 1) (drop bs rest)"
    using ne by (subst compress_items.simps) simp
  show ?case
  proof (cases p)
    case 0
    then show ?thesis using 1(3) ne unfolding items by auto
  next
    case (Suc q)
    then have q: "q < length (compress_items opts fi bs (b + 1) (drop bs rest))"
      "compress_items opts fi bs (b + 1) (drop bs rest) ! q = Work j"
      using 1(2,3) unfolding items by simp_all
    obtain x where x: "j = CompressJob x (logical_aad_seq fi (word_of_nat (b + 1 + q))) (opt_level opts) (opt_codec_id opts)"
      "length x \<le> bs" "(b + 1 + q) * bs < (b + 1) * bs + length (drop bs rest)"
      using 1(1) [OF ne q] by auto
    have "bs < length rest \<or> drop bs rest = []" by auto
    moreover have "drop bs rest \<noteq> []" using q(1) by (auto simp: compress_items.simps)
    ultimately have "(b + 1) * bs + length (drop bs rest) = b * bs + length rest" by auto
    then show ?thesis using x Suc by simp
  qed
qed

lemma compress_items_work: "x \<in> set (compress_items opts fi bs b rest) \<Longrightarrow> \<exists>j. x = Work j"
proof (induction opts fi bs b rest rule: compress_items.induct)
  case (1 opts fi bs b rest)
  show ?case
    using 1 by (subst (asm) (2) compress_items.simps) (auto split: if_splits)
qed

text \<open>The pool that \<open>zpar_create\<close> makes when memory is available and every thread starts.\<close>

definition started_pool :: "int \<Rightarrow> u32 \<Rightarrow> nat \<Rightarrow> zupt_keyring_t option \<Rightarrow> zpar_ctx_t \<Rightarrow> bool" where
  "started_pool threads bs mode key ctx \<longleftrightarrow> zpar_create True (\<lambda>_. True) threads bs mode key = Some ctx"

lemma started_pool_facts:
  assumes "started_pool threads bs mode key ctx"
  shows "fresh_pool ctx" "pc_error_flag ctx = None" "pc_block_size ctx = bs"
    "pc_threads_running ctx = nslots ctx" "pc_keyring ctx = (case key of None \<Rightarrow> no_keyring | Some k \<Rightarrow> k)"
    "1 \<le> threads \<Longrightarrow> threads \<le> 64 \<Longrightarrow> nslots ctx = nat threads"
    "64 \<le> threads \<Longrightarrow> nslots ctx = 64"
  using zpar_create_fresh [OF assms [unfolded started_pool_def]]
  by (auto simp: zupt_resolve_threads_def Let_def)

text \<open>The number of a block in its file decides its slot, unless all have the same number.\<close>

definition seq_numbered :: "u32 \<Rightarrow> bool" where
  "seq_numbered gflags \<longleftrightarrow>
     gflags AND ZUPT_FLAG_DISK_IMAGE \<noteq> 0 \<or> gflags AND ZUPT_FLAG_DEDUP = 0 \<or> gflags AND ZUPT_FLAG_AUTH_DEDUP_REFS \<noteq> 0"

lemma archive_data_aad_seq_base:
  assumes "seq_numbered gflags" "fi < 2 ^ 31 - 1"
  shows "\<exists>base. \<forall>p < 2 ^ 32. unat (archive_data_aad_seq gflags fi (word_of_nat p)) = base + p"
proof (cases "gflags AND ZUPT_FLAG_DISK_IMAGE = 0")
  case True
  then have "gflags AND ZUPT_FLAG_DEDUP = 0 \<or> gflags AND ZUPT_FLAG_AUTH_DEDUP_REFS \<noteq> 0"
    using assms(1) by (auto simp: seq_numbered_def)
  then show ?thesis
    using archive_data_aad_seq_new [OF True] logical_aad_seq_nat [OF assms(2)] by metis
next
  case False
  have "\<forall>p < 2 ^ 32. unat (archive_data_aad_seq gflags fi (word_of_nat p)) = 0 + p"
    using False by (auto simp: archive_data_aad_seq_def intro: unat_small)
  then show ?thesis by blast
qed

text \<open>
  Where the two decoders can differ: payloads beyond the bound that only the single thread checks,
  and VaptVupt frames whose checksum only a worker checks.
\<close>

fun job_within :: "zpar_job \<Rightarrow> bool" where
  "job_within (DecompressJob r d s c b k u) \<longleftrightarrow> length d \<le> ZUPT_MAX_BLOCK_SZ + 1024"
| "job_within (CompressJob d s l c) \<longleftrightarrow> True"

fun job_frames_ok :: "read_env \<Rightarrow> zupt_keyring_t \<Rightarrow> zpar_job \<Rightarrow> bool" where
  "job_frames_ok env kr (DecompressJob r d s c b k u) \<longleftrightarrow>
     frame_checksums_ok (re_block env) (re_vv_blocks env) kr (job_block d c b k u) s"
| "job_frames_ok env kr (CompressJob d s l c) \<longleftrightarrow> True"

definition sized_jobs :: "extract_state zpar_item list \<Rightarrow> bool" where
  "sized_jobs items \<longleftrightarrow> (\<forall>j. Work j \<in> set items \<longrightarrow> job_within j)"

definition sound_frames :: "read_env \<Rightarrow> zupt_keyring_t \<Rightarrow> extract_state zpar_item list \<Rightarrow> bool" where
  "sound_frames env kr items \<longleftrightarrow> (\<forall>j. Work j \<in> set items \<longrightarrow> job_frames_ok env kr j)"

lemma extract_result_pool:
  assumes "job_within j"
  shows "extract_result (pool_decode env kr) j = Inr y \<Longrightarrow> extract_result (serial_decode env kr) j = Inr y"
    and "job_frames_ok env kr j \<Longrightarrow> extract_result (pool_decode env kr) j = extract_result (serial_decode env kr) j"
proof -
  have "extract_result (pool_decode env kr) j = Inr y \<longrightarrow> extract_result (serial_decode env kr) j = Inr y"
    "job_frames_ok env kr j \<longrightarrow> extract_result (pool_decode env kr) j = extract_result (serial_decode env kr) j"
  proof (atomize (full), cases j)
    case (DecompressJob r d s c b k u)
    then have d: "length d \<le> ZUPT_MAX_BLOCK_SZ + 1024" using assms by simp
    then have "length d < 2 ^ 64" by (simp add: ZUPT_MAX_BLOCK_SZ_def)
    then have l: "unat (compressed_size (job_block d c b k u)) \<le> ZUPT_MAX_BLOCK_SZ + 1024"
      using d by (simp add: job_block_def unat_small)
    show "(extract_result (pool_decode env kr) j = Inr y \<longrightarrow> extract_result (serial_decode env kr) j = Inr y) \<and>
        (job_frames_ok env kr j \<longrightarrow> extract_result (pool_decode env kr) j = extract_result (serial_decode env kr) j)"
      unfolding DecompressJob extract_result.simps job_frames_ok.simps pool_decode_def serial_decode_def
        re_vv_def re_vvz_def
      by (intro conjI impI worker_block_serial [OF _ l] serial_worker_block [OF l])
  qed simp
  then show "extract_result (pool_decode env kr) j = Inr y \<Longrightarrow> extract_result (serial_decode env kr) j = Inr y"
    "job_frames_ok env kr j \<Longrightarrow> extract_result (pool_decode env kr) j = extract_result (serial_decode env kr) j"
    by simp_all
qed

text \<open>Success in the pool's decoder is success in the other, and with sound frames they agree.\<close>

lemma serial_run_pool:
  assumes "sized_jobs items"
  shows "serial_run (extract_err (pool_decode env kr)) (extract_put (pool_decode env kr) wr expected) items w = Some w' \<Longrightarrow>
      serial_run (extract_err (serial_decode env kr)) (extract_put (serial_decode env kr) wr expected) items w = Some w'"
    and "sound_frames env kr items \<Longrightarrow>
      serial_run (extract_err (pool_decode env kr)) (extract_put (pool_decode env kr) wr expected) items w =
      serial_run (extract_err (serial_decode env kr)) (extract_put (serial_decode env kr) wr expected) items w"
proof -
  have wi: "job_within j" if "Work j \<in> set items" for j using assms that by (simp add: sized_jobs_def)
  show "serial_run (extract_err (serial_decode env kr)) (extract_put (serial_decode env kr) wr expected) items w = Some w'"
    if "serial_run (extract_err (pool_decode env kr)) (extract_put (pool_decode env kr) wr expected) items w = Some w'"
  proof (rule serial_run_mono [OF _ that])
    fix j v v' assume j: "Work j \<in> set items" and "extract_err (pool_decode env kr) j = None"
      and p: "extract_put (pool_decode env kr) wr expected j v = Some v'"
    then obtain y where "extract_result (pool_decode env kr) j = Inr y" by (auto simp: extract_put_def split: sum.splits)
    with extract_result_pool(1) [OF wi [OF j]] p
    show "extract_err (serial_decode env kr) j = None \<and> extract_put (serial_decode env kr) wr expected j v = Some v'"
      by (simp add: extract_err_def extract_put_def)
  qed
  show "serial_run (extract_err (pool_decode env kr)) (extract_put (pool_decode env kr) wr expected) items w =
      serial_run (extract_err (serial_decode env kr)) (extract_put (serial_decode env kr) wr expected) items w"
    if "sound_frames env kr items"
  proof -
    have "extract_result (pool_decode env kr) j = extract_result (serial_decode env kr) j" if "Work j \<in> set items" for j
      using extract_result_pool(2) [OF wi [OF that]] that \<open>sound_frames env kr items\<close> by (simp add: sound_frames_def)
    then have "extract_err (pool_decode env kr) j = extract_err (serial_decode env kr) j \<and>
        extract_put (pool_decode env kr) wr expected j = extract_put (serial_decode env kr) wr expected j" if "Work j \<in> set items" for j
      using that by (simp add: extract_err_def extract_put_def fun_eq_iff)
    then show ?thesis by (rule serial_run_cong)
  qed
qed

lemma extract_jobs_ok:
  "Work j \<in> set (extract_items env wr re f gflags kr lmap expected fi n b pos) \<Longrightarrow> extract_job_ok j"
proof -
  assume "Work j \<in> set (extract_items env wr re f gflags kr lmap expected fi n b pos)"
  then obtain r blk sq where "j = block_job r blk sq" by (auto simp: in_set_conv_nth dest!: extract_items_job)
  moreover have "length (take (unat (compressed_size blk)) (payload blk)) < 2 ^ 64"
    using unat_lt2p [of "compressed_size blk"] by simp
  ultimately show ?thesis by (simp add: block_job_def)
qed

lemma extract_batches:
  assumes "seq_numbered gflags" "fi < 2 ^ 31 - 1" "n \<le> 2 ^ 32" "eff \<le> m"
  shows "mt_extract.batches_fit eff m (extract_items env wr re f gflags kr lmap expected fi n 0 pos)"
proof -
  obtain base where base: "\<forall>p < 2 ^ 32. unat (archive_data_aad_seq gflags fi (word_of_nat p)) = base + p"
    using archive_data_aad_seq_base [OF assms(1,2)] by blast
  show ?thesis
  proof (rule mt_extract.consecutive_batches_fit [OF _ assms(4)])
    fix p j
    assume p: "p < length (extract_items env wr re f gflags kr lmap expected fi n 0 pos)"
      and j: "extract_items env wr re f gflags kr lmap expected fi n 0 pos ! p = Work j"
    have "p < 2 ^ 32" using p length_extract_items [of env wr re f gflags kr lmap expected fi n 0 pos] assms(3) by linarith
    then show "unat (job_seq j) = base + p"
      using extract_items_job [OF p j] base by (auto simp: block_job_def)
  qed
qed

lemma extract_accepted:
  "Work j \<in> set (extract_items env wr (\<lambda>_. True) f gflags kr lmap expected fi n b pos) \<Longrightarrow> job_accepted bs j"
  by (auto simp: in_set_conv_nth block_job_def dest!: extract_items_job)

lemma compress_batches:
  assumes "fi < 2 ^ 31 - 1" "0 < bs" "length data \<le> 2 ^ 32 * bs" "eff \<le> m"
  shows "mt_compress.batches_fit eff m (compress_items opts fi bs 0 data)"
proof (rule mt_compress.consecutive_batches_fit [OF _ assms(4)])
  fix p j
  assume p: "p < length (compress_items opts fi bs 0 data)" and j: "compress_items opts fi bs 0 data ! p = Work j"
  obtain x where x: "j = CompressJob x (logical_aad_seq fi (word_of_nat p)) (opt_level opts) (opt_codec_id opts)"
    "p * bs < length data" using compress_items_job [OF p j] by auto
  have "p * bs < 2 ^ 32 * bs" using x(2) assms(3) by linarith
  then have "p < 2 ^ 32" by simp
  then show "unat (job_seq j) = (fi + 1) * 2 ^ 32 + p"
    using logical_aad_seq_nat [OF assms(1)] x(1) by simp
qed

lemma compress_jobs:
  assumes "\<And>k. we_mem we k" "fi < 2 ^ 31 - 1" "0 < bs" "length data \<le> 2 ^ 32 * bs"
    and vv: "\<And>k x. worker_try (we_codec we k) (opt_codec_id opts) (opt_level opts) x =
      compress_try (we_codec we k) (opt_codec_id opts) (opt_level opts) x"
    and j: "Work j \<in> set (compress_items opts fi bs 0 data)"
  shows "compress_job_ok (pool_env we k0) j \<and> (bs \<le> unat bs32 \<longrightarrow> job_accepted bs32 j)"
proof -
  obtain p where p: "p < length (compress_items opts fi bs 0 data)" "compress_items opts fi bs 0 data ! p = Work j"
    using j by (metis in_set_conv_nth)
  obtain x where x: "j = CompressJob x (logical_aad_seq fi (word_of_nat p)) (opt_level opts) (opt_codec_id opts)"
    "length x \<le> bs" "p * bs < length data" using compress_items_job [OF p] by auto
  have "p * bs < 2 ^ 32 * bs" using x(3) assms(4) by linarith
  then have "p < 2 ^ 32" by simp
  then show ?thesis using x assms(1,2) vv by (simp add: pool_env_at)
qed

lemma extract_pool_correct:
  assumes pool: "ready_pool threads ctx"
    and fl: "seq_numbered gflags" "fi < 2 ^ 31 - 1" "n \<le> 2 ^ 32"
    and items: "items = extract_items env wr (\<lambda>_. True) f gflags kr lmap expected fi n 0 pos"
    and step: "step = zpar_step (extract_work wenv (re_block env) (re_vv env) kr) (put_output wr expected) threads"
    and run: "step\<^sup>*\<^sup>* (zpar_start ctx items ([], (0, 0), 0)) s"
  shows "zs_phase s = Finished \<or> zs_phase s = Joining \<or> zs_phase s = Joined \<Longrightarrow>
      (if zs_failed s then None else Some (zs_out s)) =
        serial_run (extract_err (pool_decode env kr)) (extract_put (pool_decode env kr) wr expected) items ([], (0, 0), 0)"
    and "zs_phase s = Finished \<Longrightarrow> \<not> zs_failed s \<Longrightarrow>
      ready_pool threads (zs_ctx s) \<and> zs_pcs s = replicate threads W_Wait \<and> pc_keyring (zs_ctx s) = pc_keyring ctx"
    and "\<exists>s'. step\<^sup>*\<^sup>* s s' \<and> zs_phase s' = Joined"
    and "\<nexists>g. g 0 = s \<and> (\<forall>k. step (g k) (g (Suc k)))"
    and "serial_run (extract_err (serial_decode env kr)) (extract_put (serial_decode env kr) wr expected) items ([], (0, 0), 0) =
      map_option (\<lambda>(content, st, pos). (content, st, n)) (extract_blocks env wr f gflags kr lmap expected fi n 0 pos [] (0, 0))"
proof -
  have ctx: "fresh_pool ctx" "pc_error_flag ctx = None" "pc_threads_running ctx = nslots ctx"
    and n: "nslots ctx = threads" "0 < threads" using pool by (auto simp: ready_pool_def fresh_pool_def)
  have ok: "mt_extract.jobs_ok items" unfolding mt_extract.jobs_ok_def items using extract_jobs_ok by blast
  have acc: "\<forall>j. Work j \<in> set items \<longrightarrow> job_accepted (pc_block_size ctx) j"
    unfolding items using extract_accepted by blast
  have fit: "mt_extract.batches_fit threads (nslots ctx) items"
    unfolding items n by (rule extract_batches [OF fl order_refl])
  note r = mt_extract.pool_correct [OF ctx n(2) ok acc fit run [unfolded step], folded step]
  show "(if zs_failed s then None else Some (zs_out s)) =
        serial_run (extract_err (pool_decode env kr)) (extract_put (pool_decode env kr) wr expected) items ([], (0, 0), 0)"
    if "zs_phase s = Finished \<or> zs_phase s = Joining \<or> zs_phase s = Joined"
    using r(1) [OF that] by (simp add: mt_extract.agrees_def pool_decode_def)
  show "ready_pool threads (zs_ctx s) \<and> zs_pcs s = replicate threads W_Wait \<and> pc_keyring (zs_ctx s) = pc_keyring ctx"
    if "zs_phase s = Finished" "\<not> zs_failed s"
    by (rule mt_extract.pool_ready_again [OF pool n(2) ok acc run [unfolded step] that])
  show "serial_run (extract_err (serial_decode env kr)) (extract_put (serial_decode env kr) wr expected) items ([], (0, 0), 0) =
      map_option (\<lambda>(content, st, pos). (content, st, n)) (extract_blocks env wr f gflags kr lmap expected fi n 0 pos [] (0, 0))"
    unfolding items by (subst extract_items_serial) simp_all
  show "\<exists>s'. step\<^sup>*\<^sup>* s s' \<and> zs_phase s' = Joined" using r(2) by blast
  show "\<nexists>g. g 0 = s \<and> (\<forall>k. step (g k) (g (Suc k)))" by (rule r(3))
qed

lemma started_pool_ready: "started_pool threads bs mode key ctx \<Longrightarrow> 1 \<le> threads \<Longrightarrow> threads \<le> 64 \<Longrightarrow> ready_pool (nat threads) ctx"
  using started_pool_facts by (simp add: ready_pool_def)

lemma compress_put_total: "compress_put wenv kr (CompressJob d s l c) st \<noteq> None"
  by (simp add: seal_payload_def zupt_encrypt_buffer_def zupt_encrypt_buffer_aad_def Let_def
      split: prod.split option.split)

lemma compress_serial_total:
  "serial_run (\<lambda>_. None) (compress_put wenv kr) (compress_items opts fi bs b rest) st \<noteq> None"
proof (induction opts fi bs b rest arbitrary: st rule: compress_items.induct)
  case (1 opts fi bs b rest)
  show ?case
  proof (cases "rest = [] \<or> bs = 0")
    case True
    then show ?thesis by (subst compress_items.simps) simp
  next
    case False
    let ?j = "CompressJob (take bs rest) (logical_aad_seq fi (word_of_nat b)) (opt_level opts) (opt_codec_id opts)"
    obtain st' where "compress_put wenv kr ?j st = Some st'" using compress_put_total by blast
    then show ?thesis using 1 [OF False] False by (subst compress_items.simps) (simp del: compress_put.simps)
  qed
qed

lemma compress_pool_correct:
  assumes pool: "started_pool threads bs 0 (pool_keyring opts) ctx" "1 \<le> threads" "threads \<le> 64"
    and fl: "fi < 2 ^ 31 - 1" "0 < bs" "length data \<le> 2 ^ 32 * unat bs"
    and mem: "\<forall>k. we_mem we k"
    and vv: "\<forall>k x. worker_try (we_codec we k) (opt_codec_id opts) (opt_level opts) x =
      compress_try (we_codec we k) (opt_codec_id opts) (opt_level opts) x"
    and st: "cw_dedup st = None" "cw_seq st = 0"
    and step: "step = zpar_step (compress_work (pool_env we (cw_total st)) al vvz (pc_keyring ctx)) put_frame (nat threads)"
    and run: "step\<^sup>*\<^sup>* (zpar_start ctx (compress_items opts fi (unat bs) 0 data) st) s"
  shows "zs_phase s = Joined \<longrightarrow> \<not> zs_failed s \<and> compress_chunks we opts fi (unat bs) data st = Inr (zs_out s)"
    and "\<exists>s'. step\<^sup>*\<^sup>* s s' \<and> zs_phase s' = Joined"
    and "\<nexists>g. g 0 = s \<and> (\<forall>k. step (g k) (g (Suc k)))"
proof -
  note ctx = started_pool_facts [OF pool(1)]
  define items where "items = compress_items opts fi (unat bs) 0 data"
  have n: "nslots ctx = nat threads" "0 < nat threads" using ctx(6) pool(2,3) by simp_all
  have kr: "pc_keyring ctx = ctx_keyring opts" using ctx(5) by (simp add: ctx_keyring_def)
  have b: "0 < unat bs" using fl(2) by (simp add: word_less_nat_alt)
  have jobs: "compress_job_ok (pool_env we (cw_total st)) j \<and> (unat bs \<le> unat bs \<longrightarrow> job_accepted bs j)"
    if "Work j \<in> set items" for j
    by (rule compress_jobs [OF _ fl(1) b fl(3) _ that [unfolded items_def]]) (use mem vv in auto)
  then have ok: "mt_compress.jobs_ok (pool_env we (cw_total st)) items" by (simp add: mt_compress.jobs_ok_def)
  have acc: "\<forall>j. Work j \<in> set items \<longrightarrow> job_accepted (pc_block_size ctx) j" using jobs ctx(3) by simp
  have fit: "mt_compress.batches_fit (nat threads) (nslots ctx) items"
    unfolding n items_def by (rule compress_batches [OF fl(1) b fl(3) order_refl])
  note r = mt_compress.pool_correct [OF ctx(1,2,4) n(2) ok acc fit run [unfolded step, folded items_def], folded step]
  have k0: "cw_total st = cw_total st + 0" "0 * unat bs + length data \<le> 2 ^ 32 * unat bs" using fl(3) by simp_all
  have e: "serial_run (\<lambda>_. None) (compress_put (pool_env we (cw_total st)) (pc_keyring ctx)) items st =
      (case compress_chunks we opts fi (unat bs) data st of Inl _ \<Rightarrow> None | Inr st \<Rightarrow> Some st)"
    unfolding items_def kr using compress_items_serial [OF _ fl(1) b st k0] mem by blast
  have t: "serial_run (\<lambda>_. None) (compress_put (pool_env we (cw_total st)) (pc_keyring ctx)) items st \<noteq> None"
    unfolding items_def by (rule compress_serial_total)
  show "zs_phase s = Joined \<longrightarrow> \<not> zs_failed s \<and> compress_chunks we opts fi (unat bs) data st = Inr (zs_out s)"
    using r(1) e t by (auto simp: mt_compress.agrees_def split: sum.splits if_splits)
  show "\<exists>s'. step\<^sup>*\<^sup>* s s' \<and> zs_phase s' = Joined" using r(2) by blast
  show "\<nexists>g. g 0 = s \<and> (\<forall>k. step (g k) (g (Suc k)))" by (rule r(3))
qed

section \<open>Multi-threaded extraction\<close>

text \<open>
  C5. Extraction of a file in the pool, for an archive whose blocks have numbers of their own, in a
  pool that is ready: new with all its threads started, or used for files that did not fail. The
  outcome does not depend on the schedule: however the main thread and the workers interleave, a
  run that has finished the file failed or wrote what the items of the file amount to one after
  the other under the workers' decoder, and a pool that did not fail is ready for the next file.
  Compared with the single thread, for payloads within the bound of \<open>decompress_block\<close>: what the
  pool writes, the single-threaded loop over the blocks writes too, with the same running hash;
  and if no VaptVupt frame carries a wrong checksum, which only the workers look at, the pool
  fails exactly when the single thread does.
\<close>

theorem parallel_extraction_agrees:
  assumes "ready_pool threads ctx"
    and "seq_numbered gflags" "fi < 2 ^ 31 - 1" "n \<le> 2 ^ 32"
    and "items = extract_items env wr (\<lambda>_. True) f gflags (pc_keyring ctx) lmap expected fi n 0 pos"
    and "(zpar_step (extract_work wenv (re_block env) (re_vv env) (pc_keyring ctx)) (put_output wr expected) threads)\<^sup>*\<^sup>*
      (zpar_start ctx items ([], (0, 0), 0)) s"
    and "zs_phase s = Finished \<or> zs_phase s = Joining \<or> zs_phase s = Joined"
  shows "(let outcome = (if zs_failed s then None else Some (zs_out s));
        single = map_option (\<lambda>(content, st, pos). (content, st, n))
          (extract_blocks env wr f gflags (pc_keyring ctx) lmap expected fi n 0 pos [] (0, 0)) in
      outcome = serial_run (extract_err (pool_decode env (pc_keyring ctx)))
        (extract_put (pool_decode env (pc_keyring ctx)) wr expected) items ([], (0, 0), 0) \<and>
      (sized_jobs items \<and> \<not> zs_failed s \<longrightarrow> single = outcome) \<and>
      (sized_jobs items \<and> sound_frames env (pc_keyring ctx) items \<longrightarrow> single = outcome) \<and>
      (zs_phase s = Finished \<and> \<not> zs_failed s \<longrightarrow>
        ready_pool threads (zs_ctx s) \<and> zs_pcs s = replicate threads W_Wait \<and> pc_keyring (zs_ctx s) = pc_keyring ctx))"
proof -
  note r = extract_pool_correct [OF assms(1-5) refl assms(6)]
  note o = r(1) [OF assms(7)]
  show ?thesis
    unfolding Let_def
  proof (intro conjI impI)
    assume a: "sized_jobs items \<and> \<not> zs_failed s"
    then have "serial_run (extract_err (pool_decode env (pc_keyring ctx)))
        (extract_put (pool_decode env (pc_keyring ctx)) wr expected) items ([], (0, 0), 0) = Some (zs_out s)"
      using o by simp
    from serial_run_pool(1) [OF conjunct1 [OF a] this] a r(5)
    show "map_option (\<lambda>(content, st, pos). (content, st, n))
          (extract_blocks env wr f gflags (pc_keyring ctx) lmap expected fi n 0 pos [] (0, 0)) =
        (if zs_failed s then None else Some (zs_out s))" by simp
  next
    assume "sized_jobs items \<and> sound_frames env (pc_keyring ctx) items"
    then show "map_option (\<lambda>(content, st, pos). (content, st, n))
          (extract_blocks env wr f gflags (pc_keyring ctx) lmap expected fi n 0 pos [] (0, 0)) =
        (if zs_failed s then None else Some (zs_out s))"
      unfolding o r(5) [symmetric] using serial_run_pool(2) by simp
  qed (use o r(2) in blast)+
qed

text \<open>A stored block with two bytes, and an archive of two such blocks.\<close>

definition example_stored :: zupt_block_t where
  "example_stored = \<lparr>block_type = ZUPT_BLOCK_DATA, codec_id = ZUPT_CODEC_STORE, block_flags = 0,
     uncompressed_size = 2, compressed_size = 2, checksum = zupt_xxh64 [1, 2] 0, payload = [1, 2]\<rparr>"

definition example_blocks :: bytes where
  "example_blocks = write_block example_stored @ write_block example_stored"

definition example_read :: read_env where
  "example_read = \<lparr>re_block = \<lparr>ba_plain = True, ba_out = True, ba_pred = True, ba_lut = True, ba_tmp = True\<rparr>,
     re_vv_blocks = no_block_decoders, re_alloc = (\<lambda>_. True)\<rparr>"

lemma example_stored_wf: "block_wf (\<lambda>_. True) example_stored"
  by (simp add: block_wf_def example_stored_def ZUPT_MAX_BLOCK_SZ_def)

lemma example_read_first:
  "read_block_at (\<lambda>_. True) example_blocks 0 = Inr (example_stored, length (write_block example_stored))"
  using block_frame.get_put [OF example_stored_wf, of "write_block example_stored"]
  by (simp add: read_block_at_def example_blocks_def rbind_def)

lemma example_read_second:
  "read_block_at (\<lambda>_. True) example_blocks (length (write_block example_stored)) =
     Inr (example_stored, length example_blocks)"
  using block_frame.get_put [OF example_stored_wf, of "[]"]
  by (simp add: read_block_at_def example_blocks_def rbind_def)

lemma example_items:
  "extract_items example_read wr re example_blocks gflags kr None 4 0 2 0 0 =
     [Work (block_job (re 0) example_stored (archive_data_aad_seq gflags 0 0)),
      Work (block_job (re 1) example_stored (archive_data_aad_seq gflags 0 1))]"
proof -
  have t: "block_type example_stored = ZUPT_BLOCK_DATA" "re_alloc example_read = (\<lambda>_. True)"
    by (simp_all add: example_stored_def example_read_def)
  show ?thesis
    unfolding numeral_2_eq_2 using example_read_first example_read_second t by simp
qed

lemma example_sized: "sized_jobs (extract_items example_read wr re example_blocks gflags kr None 4 0 2 0 0)"
  by (auto simp: sized_jobs_def example_items block_job_def example_stored_def ZUPT_MAX_BLOCK_SZ_def)

lemma example_sound: "sound_frames env kr' (extract_items example_read wr re example_blocks gflags kr None 4 0 2 0 0)"
  by (auto simp: sound_frames_def example_items block_job_def job_block_def example_stored_def frame_checksums_ok_def)

lemma example_extracts:
  assumes "\<not> active kr"
  shows "\<exists>h pos. extract_blocks example_read (\<lambda>_. True) example_blocks 0 kr None 4 0 2 0 0 [] (0, 0) =
    Some ([1, 2, 1, 2], (4, h), pos)"
proof -
  have d: "decompress_block (re_block example_read) (re_vvz example_read) example_stored (Some kr) sq = Inr [1, 2]" for sq
    using assms by (simp add: decompress_block_def open_payload_def decode_payload_def example_stored_def
        example_read_def ZUPT_MAX_BLOCK_SZ_def rbind_def Let_def)
  have t: "block_type example_stored = ZUPT_BLOCK_DATA" "re_alloc example_read = (\<lambda>_. True)"
    by (simp_all add: example_stored_def example_read_def)
  have w: "zupt_write_verified_chunk True [1, 2] 4 (0, 0) = Some (2, zupt_xxh64 [1, 2] 0)"
    "zupt_write_verified_chunk True [1, 2] 4 (2, h) = Some (4, zupt_xxh64 [1, 2] h)" for h
    by (simp_all add: zupt_write_verified_chunk_def)
  show ?thesis
    unfolding numeral_2_eq_2 using example_read_first example_read_second d t w
    by (simp add: extract_block_def rbind_def)
qed

definition example_pool :: "nat \<Rightarrow> zpar_ctx_t" where
  "example_pool mode = (case zpar_create True (\<lambda>_. True) 2 0x20000 mode None of Some ctx \<Rightarrow> ctx)"

lemma example_pool_started: "started_pool 2 0x20000 mode None (example_pool mode)"
  by (simp add: started_pool_def example_pool_def zpar_create_def Let_def)

lemma example_pool_ready: "ready_pool 2 (example_pool mode)"
  using started_pool_ready [OF example_pool_started] by simp

lemma example_pool_keys: "\<not> active (pc_keyring (example_pool mode))"
  using started_pool_facts(5) [OF example_pool_started, of mode] by (simp add: no_keyring_def)

definition example_worker :: worker_env where
  "example_worker = \<lparr>wk_cbuf = True, wk_codec = example_env, wk_out = True, wk_nonce = replicate 16 0\<rparr>"

abbreviation (input) example_extract_step :: "extract_state zpar_sys \<Rightarrow> extract_state zpar_sys \<Rightarrow> bool" where
  "example_extract_step \<equiv>
     zpar_step (extract_work (\<lambda>_. example_worker) (re_block example_read) (re_vv example_read) (pc_keyring (example_pool 1)))
       (put_output (\<lambda>_. True) 4) 2"

abbreviation (input) example_extract_items :: "extract_state zpar_item list" where
  "example_extract_items \<equiv>
     extract_items example_read (\<lambda>_. True) (\<lambda>_. True) example_blocks 0 (pc_keyring (example_pool 1)) None 4 0 2 0 0"

lemma example_numbered: "seq_numbered 0"
  by (simp add: seq_numbered_def)

lemma example_extract_joins:
  "\<exists>s. example_extract_step\<^sup>*\<^sup>* (zpar_start (example_pool 1) example_extract_items ([], (0, 0), 0)) s \<and> zs_phase s = Joined"
  by (rule extract_pool_correct(3) [OF example_pool_ready example_numbered _ _ refl refl rtranclp.rtrancl_refl]) simp_all

theorem parallel_extraction_agrees_witness:
  "\<exists>s. example_extract_step\<^sup>*\<^sup>* (zpar_start (example_pool 1) example_extract_items ([], (0, 0), 0)) s \<and>
     zs_phase s = Joined \<and> \<not> zs_failed s \<and> fst (zs_out s) = [1, 2, 1, 2]"
proof -
  obtain s where s: "example_extract_step\<^sup>*\<^sup>* (zpar_start (example_pool 1) example_extract_items ([], (0, 0), 0)) s"
    "zs_phase s = Joined" using example_extract_joins by blast
  obtain h pos where e: "extract_blocks example_read (\<lambda>_. True) example_blocks 0 (pc_keyring (example_pool 1)) None 4 0 2 0 0
      [] (0, 0) = Some ([1, 2, 1, 2], (4, h), pos)" using example_extracts [OF example_pool_keys] by blast
  have "map_option (\<lambda>(content, st, pos). (content, st, 2))
        (extract_blocks example_read (\<lambda>_. True) example_blocks 0 (pc_keyring (example_pool 1)) None 4 0 2 0 0 [] (0, 0)) =
      (if zs_failed s then None else Some (zs_out s))"
    using parallel_extraction_agrees [OF example_pool_ready example_numbered _ _ refl s(1)] s(2) example_sized example_sound
    unfolding Let_def by simp
  then have "\<not> zs_failed s" "zs_out s = ([1, 2, 1, 2], (4, h), 2)" unfolding e by (auto split: if_splits)
  then show ?thesis using s by auto
qed

text \<open>
  C13. Extraction in the pool ends, when the blocks of the archive have numbers of their own and the
  pool is ready with as many slots, each with its worker, as the batches have blocks. From every
  state a schedule can reach, no infinite schedule continues, and some schedule goes on to the
  point where all workers have been joined; so the pool does not get stuck half way, whatever
  blocks are broken. (The deadlocks of plain deduplicated archives, of more threads than slots
  and of slots without a worker are the cases this excludes.)
\<close>

theorem parallel_extraction_terminates:
  assumes "ready_pool threads ctx"
    and "seq_numbered gflags" "fi < 2 ^ 31 - 1" "n \<le> 2 ^ 32"
    and "items = extract_items env wr (\<lambda>_. True) f gflags (pc_keyring ctx) lmap expected fi n 0 pos"
    and "step = zpar_step (extract_work wenv (re_block env) (re_vv env) (pc_keyring ctx)) (put_output wr expected) threads"
    and "step\<^sup>*\<^sup>* (zpar_start ctx items ([], (0, 0), 0)) s"
  shows "(\<nexists>g. g 0 = s \<and> (\<forall>k. step (g k) (g (Suc k)))) \<and> (\<exists>s'. step\<^sup>*\<^sup>* s s' \<and> zs_phase s' = Joined)"
  using extract_pool_correct(3,4) [OF assms] by blast

theorem parallel_extraction_terminates_witness:
  "(\<nexists>g. g 0 = zpar_start (example_pool 1) example_extract_items ([], (0, 0), 0) \<and>
      (\<forall>k. example_extract_step (g k) (g (Suc k)))) \<and>
   (\<exists>s'. example_extract_step\<^sup>*\<^sup>* (zpar_start (example_pool 1) example_extract_items ([], (0, 0), 0)) s' \<and> zs_phase s' = Joined)"
  by (rule parallel_extraction_terminates
      [OF example_pool_ready example_numbered _ _ refl refl rtranclp.rtrancl_refl]) simp_all

section \<open>Multi-threaded compression\<close>

text \<open>
  What the code relies on when it calls the VaptVupt encoder with different buffers: the encoder's
  bound is enough, and more room does not change its output.
\<close>

definition vv_stable :: "codec_env \<Rightarrow> int \<Rightarrow> bool" where
  "vv_stable ce level \<longleftrightarrow>
     ce_vv_tmp ce \<and> (\<forall>x cap. ce_vv_bound ce (length x) \<le> cap \<longrightarrow>
       ce_vv ce x cap level = ce_vv ce x (ce_vv_bound ce (length x)) level)"

lemma worker_try_eq:
  assumes "vv_stable ce level"
  shows "worker_try ce c level x = compress_try ce c level x"
proof -
  have "worker_vv ce level x = compress_vv ce level x"
    by (rule worker_vv_eq) (use assms in \<open>unfold vv_stable_def; blast\<close>)+
  then show ?thesis by (simp only: worker_try_def compress_try_def)
qed

text \<open>
  C6. Compression in the pool writes what the single-threaded writer writes, byte for byte and
  with the same bookkeeping, provided memory is available and the VaptVupt encoder does not make
  its output depend on a larger buffer: a run that ends has not failed, and its state is the one
  the single-threaded loop over the chunks ends in.
\<close>

theorem parallel_compression_agrees:
  assumes "started_pool threads bs 0 (pool_keyring opts) ctx" "1 \<le> threads" "threads \<le> 64"
    and "fi < 2 ^ 31 - 1" "0 < bs" "length data \<le> 2 ^ 32 * unat bs"
    and "\<forall>k. we_mem we k"
    and "\<forall>k. vv_stable (we_codec we k) (opt_level opts)"
    and "cw_dedup st = None" "cw_seq st = 0"
    and "(zpar_step (compress_work (pool_env we (cw_total st)) al vvz (pc_keyring ctx)) put_frame (nat threads))\<^sup>*\<^sup>*
      (zpar_start ctx (compress_items opts fi (unat bs) 0 data) st) s"
    and "zs_phase s = Joined"
  shows "\<not> zs_failed s \<and> compress_chunks we opts fi (unat bs) data st = Inr (zs_out s)"
proof -
  have vv: "\<forall>k x. worker_try (we_codec we k) (opt_codec_id opts) (opt_level opts) x =
      compress_try (we_codec we k) (opt_codec_id opts) (opt_level opts) x"
    using assms(8) worker_try_eq by blast
  show ?thesis
    using compress_pool_correct(1) [OF assms(1-7) vv assms(9,10) refl assms(11)] assms(12) by blast
qed

definition pool_options :: zupt_options_t where
  "pool_options = zupt_default_options\<lparr>opt_codec_id := ZUPT_CODEC_STORE, opt_encrypt := False\<rparr>"

definition example_write :: write_env where
  "example_write = \<lparr>we_nonce = (\<lambda>_. replicate 16 0), we_mem = (\<lambda>_. True), we_codec = (\<lambda>_. example_env),
     we_index = ce_lzh example_env, we_alloc = (\<lambda>_. True), we_dedup = (True, True), we_time = 0,
     we_random_id = [], we_salt = [], we_kdf_nonce = [], we_wrap = (\<lambda>_ _ _. None), we_with_sdk = False,
     we_auto_codec = ZUPT_CODEC_STORE\<rparr>"

definition example_state :: cw_state where
  "example_state = \<lparr>cw_out = [], cw_dedup = None, cw_seq = 0, cw_hash = 0, cw_comp = 0, cw_count = 0, cw_total = 0\<rparr>"

abbreviation (input) example_compress_step :: "cw_state zpar_sys \<Rightarrow> cw_state zpar_sys \<Rightarrow> bool" where
  "example_compress_step \<equiv>
     zpar_step (compress_work (pool_env example_write (cw_total example_state)) (re_block example_read)
       (re_vvz example_read) (pc_keyring (example_pool 0))) put_frame (nat 2)"

lemma example_compress_keyring: "pool_keyring pool_options = None"
  by (simp add: pool_keyring_def pool_options_def)

lemma example_vv: "vv_stable (we_codec example_write k) level"
  by (simp add: vv_stable_def example_write_def example_env_def ce_vv_def vvz_compress_def)

theorem parallel_compression_agrees_witness:
  "\<exists>s. example_compress_step\<^sup>*\<^sup>* (zpar_start (example_pool 0)
       (compress_items pool_options 0 (unat (0x20000 :: u32)) 0 (replicate 300000 7)) example_state) s \<and>
     zs_phase s = Joined \<and> \<not> zs_failed s \<and>
     compress_chunks example_write pool_options 0 (unat (0x20000 :: u32)) (replicate 300000 7) example_state = Inr (zs_out s)"
proof -
  have p: "started_pool 2 0x20000 0 (pool_keyring pool_options) (example_pool 0)"
    using example_pool_started [of 0] by (simp add: example_compress_keyring)
  have m: "\<forall>k. we_mem example_write k" by (simp add: example_write_def)
  have vv: "\<forall>k. vv_stable (we_codec example_write k) (opt_level pool_options)" using example_vv by blast
  have t: "\<forall>k x. worker_try (we_codec example_write k) (opt_codec_id pool_options) (opt_level pool_options) x =
      compress_try (we_codec example_write k) (opt_codec_id pool_options) (opt_level pool_options) x"
    using example_vv worker_try_eq by blast
  have st: "cw_dedup example_state = None" "cw_seq example_state = 0" by (simp_all add: example_state_def)
  have n: "(1 :: int) \<le> 2" "(2 :: int) \<le> 64" "(0 :: nat) < 2 ^ 31 - 1" "(0 :: u32) < 0x20000"
    "length (replicate 300000 (7 :: u8)) \<le> 2 ^ 32 * unat (0x20000 :: u32)" by simp_all
  obtain s where s: "example_compress_step\<^sup>*\<^sup>* (zpar_start (example_pool 0)
       (compress_items pool_options 0 (unat (0x20000 :: u32)) 0 (replicate 300000 7)) example_state) s" "zs_phase s = Joined"
    using compress_pool_correct(2) [OF p n m t st refl rtranclp.rtrancl_refl] by blast
  then show ?thesis using parallel_compression_agrees [OF p n m vv st s] by blast
qed

section \<open>Batches that never end\<close>

text \<open>
  C26. A batch in which two blocks have the same slot never ends. This is what happens when a file
  of a plain deduplicated archive is extracted with two or more threads: its data blocks all carry
  the number 0, so whenever its first two blocks are data blocks, every schedule is left in the
  phase that fills the batch.
\<close>

theorem plain_dedup_extraction_deadlocks:
  assumes "started_pool threads bs 1 key ctx" "2 \<le> threads" "threads \<le> 64" "\<not> seq_numbered gflags"
    and "extract_items env wr (\<lambda>_. True) f gflags (pc_keyring ctx) lmap expected fi n 0 pos = Work j1 # Work j2 # rest"
    and "(zpar_step (extract_work wenv (re_block env) (re_vv env) (pc_keyring ctx)) (put_output wr expected) (nat threads))\<^sup>*\<^sup>*
      (zpar_start ctx (Work j1 # Work j2 # rest) ([], (0, 0), 0)) s"
  shows "zs_phase s = Fill"
proof -
  note ctx = started_pool_facts [OF assms(1)]
  let ?items = "extract_items env wr (\<lambda>_. True) f gflags (pc_keyring ctx) lmap expected fi n 0 pos"
  have z: "archive_data_aad_seq gflags fi b = 0" for b
    using assms(4) by (simp add: seq_numbered_def archive_data_aad_seq_def)
  have "job_seq j1 = 0" "job_seq j2 = 0"
    using extract_items_job [of 0 env wr "\<lambda>_. True" f gflags "pc_keyring ctx" lmap expected fi n 0 pos j1]
      extract_items_job [of 1 env wr "\<lambda>_. True" f gflags "pc_keyring ctx" lmap expected fi n 0 pos j2] assms(5) z
    by (auto simp: block_job_def)
  then have c: "slot_index (nslots ctx) j2 \<in> slot_index (nslots ctx) ` set [j1]" by (simp add: slot_index_def)
  have acc: "\<forall>k \<in> set [j1]. job_accepted (pc_block_size ctx) k"
    using extract_accepted [of j1 env wr f gflags "pc_keyring ctx" lmap expected fi n 0 pos] assms(5) by simp
  have two: "length [j1] < nat threads" using assms(2) by simp
  show ?thesis
    by (rule mt_extract.clashing_batch_never_finishes [where js = "[j1]" and j = j2 and rest = rest, OF _ ctx(1) two c acc])
      (use assms(6) in simp)
qed

theorem plain_dedup_extraction_deadlocks_witness:
  "zs_phase (zpar_start (example_pool 1)
      (extract_items example_read (\<lambda>_. True) (\<lambda>_. True) example_blocks ZUPT_FLAG_DEDUP (pc_keyring (example_pool 1)) None 4 0 2 0 0)
      ([], (0, 0), 0)) = Fill"
proof -
  have s: "\<not> seq_numbered ZUPT_FLAG_DEDUP" by (simp add: seq_numbered_def)
  show ?thesis
    unfolding example_items
    by (rule plain_dedup_extraction_deadlocks [OF example_pool_started _ _ s example_items rtranclp.rtrancl_refl]) simp_all
qed

lemma compress_items_length:
  "0 < bs \<Longrightarrow> k * bs < length rest \<Longrightarrow> k < length (compress_items opts fi bs b rest)"
proof (induction opts fi bs b rest arbitrary: k rule: compress_items.induct)
  case (1 opts fi bs b rest)
  have ne: "\<not> (rest = [] \<or> bs = 0)" using 1(2,3) by auto
  show ?case
  proof (cases k)
    case 0
    then show ?thesis using ne by (subst compress_items.simps) simp
  next
    case (Suc l)
    then have "l * bs < length (drop bs rest)" using 1(3) by simp
    then have "l < length (compress_items opts fi bs (b + 1) (drop bs rest))" using 1(1) [OF ne 1(2)] by blast
    then show ?thesis using Suc ne by (subst compress_items.simps) simp
  qed
qed

text \<open>
  C27. More threads than the pool has slots do not work either: the pool is cut down to 64 slots,
  but the batch loop still fills batches of as many blocks as threads were asked for. A file of
  more than 64 blocks is never compressed with more than 64 threads: every schedule is left in
  the phase that fills the first batch.
\<close>

theorem too_many_threads_deadlock:
  assumes "started_pool threads bs 0 (pool_keyring opts) ctx" "64 < threads"
    and "fi < 2 ^ 31 - 1" "0 < bs" "64 * unat bs < length data" "length data \<le> 2 ^ 32 * unat bs"
    and "(zpar_step (compress_work (pool_env we (cw_total st)) al vvz (pc_keyring ctx)) put_frame (nat threads))\<^sup>*\<^sup>*
      (zpar_start ctx (compress_items opts fi (unat bs) 0 data) st) s"
  shows "zs_phase s = Fill"
proof -
  note ctx = started_pool_facts [OF assms(1)]
  have n: "nslots ctx = 64" using ctx(7) assms(2) by simp
  have b: "0 < unat bs" using assms(4) by (simp add: word_less_nat_alt)
  define items where "items = compress_items opts fi (unat bs) 0 data"
  have "\<forall>x \<in> set items. \<exists>j. x = Work j" using compress_items_work by (auto simp: items_def)
  then obtain J where J: "items = map Work J" by (metis ex_map_conv)
  have l: "64 < length J" using compress_items_length [OF b assms(5), of opts fi 0, folded items_def] J by simp
  have seq: "unat (job_seq (J ! p)) = (fi + 1) * 2 ^ 32 + p \<and> job_accepted bs (J ! p)" if p: "p < length J" for p
  proof -
    have i: "p < length items" "items ! p = Work (J ! p)" using J p by simp_all
    obtain x where x: "J ! p = CompressJob x (logical_aad_seq fi (word_of_nat p)) (opt_level opts) (opt_codec_id opts)"
      "length x \<le> unat bs" "p * unat bs < length data"
      using compress_items_job [OF i [unfolded items_def]] by auto
    have "p * unat bs < 2 ^ 32 * unat bs" using x(3) assms(6) by linarith
    then have "p < 2 ^ 32" by simp
    then show ?thesis using logical_aad_seq_nat [OF assms(3)] x by simp
  qed
  have split: "items = map Work (take 64 J) @ Work (J ! 64) # map Work (drop 65 J)"
  proof -
    have "J = take 64 J @ J ! 64 # drop 65 J" using id_take_nth_drop [OF l] by simp
    then have "map Work J = map Work (take 64 J @ J ! 64 # drop 65 J)" by (rule arg_cong)
    then show ?thesis unfolding J by (simp only: map_append list.map)
  qed
  have first: "J ! 0 \<in> set (take 64 J)" using l nth_mem [of 0 "take 64 J"] by simp
  have "slot_index 64 (J ! 64) = slot_index 64 (J ! 0)"
  proof -
    have "0 < length J" using l by linarith
    then show ?thesis using seq [OF l] seq [of 0] by (simp add: slot_index_def mod_add_right_eq)
  qed
  then have c: "slot_index (nslots ctx) (J ! 64) \<in> slot_index (nslots ctx) ` set (take 64 J)"
    unfolding n using first by (metis imageI)
  have acc: "\<forall>k \<in> set (take 64 J). job_accepted (pc_block_size ctx) k"
    using seq ctx(3) by (metis in_set_conv_nth in_set_takeD)
  have len: "length (take 64 J) < nat threads" using l assms(2) by simp
  show ?thesis
    using mt_compress.clashing_batch_never_finishes [OF _ ctx(1) len c acc] assms(7) [folded items_def, unfolded split]
    by blast
qed

theorem too_many_threads_deadlock_witness:
  "\<exists>ctx. zpar_create True (\<lambda>_. True) 65 1 0 (pool_keyring pool_options) = Some ctx \<and>
     zs_phase (zpar_start ctx (compress_items pool_options 0 (unat (1 :: u32)) 0 (replicate 100 7)) example_state) = Fill"
proof -
  obtain ctx where c: "started_pool 65 1 0 (pool_keyring pool_options) ctx"
    by (simp add: started_pool_def zpar_create_def Let_def)
  have "zs_phase (zpar_start ctx (compress_items pool_options 0 (unat (1 :: u32)) 0 (replicate 100 7)) example_state) = Fill"
    by (rule too_many_threads_deadlock [OF c _ _ _ _ _ rtranclp.rtrancl_refl]) simp_all
  then show ?thesis using c by (auto simp: started_pool_def)
qed

end
