(* ===== verification/Spec2Isabelle.thy ===== *)
theory Spec2Isabelle
  imports Varint Predict Filetype Bcj Lz Sha256 Hmac Aes Aead Xxh64 Vv Wire Paths Dedup Lzh TestArchive Solid Disk Batch
begin

text \<open>
  A verification development of Zupt, the archiver behind libvuptsdk: an archive format for backups
  with deduplication, per-block compression, authenticated encryption and an integrity trailer, and
  the library code that writes, opens, extracts and tests such archives. This theory imports all
  others; it has no definitions of its own.

  \<^bold>\<open>The program and its theories.\<close> All file names are relative to the repository. Definitions carry the
  names of the C functions they translate; a part of a function that became a definition of its own
  (a loop, a phase, a branch) has a descriptive name, and the manifest gives its lines.

  \<^item> \<open>Prelude\<close>: machine integers, byte strings, result codes and little-endian access
    (\<open>include/zupt.h\<close>), the comparison primitive (\<open>src/zupt_ct.c\<close>), and the lemmas on words, bytes and
    lists that the others share.
  \<^item> \<open>Varint\<close>: the variable-length integers of \<open>src/zupt_format.c\<close>, with the locales for serialised
    fields that every later format builds on.
  \<^item> \<open>Predict\<close> (\<open>src/zupt_predict.c\<close>), \<open>Filetype\<close> (\<open>src/zupt_filetype.c\<close>), \<open>Bcj\<close> (\<open>src/vv_bcj.c\<close>): the
    byte predictor, the file type heuristic and the branch converters.
  \<^item> \<open>Lz\<close> (\<open>src/zupt_lz.c\<close>); \<open>Huff\<close>, \<open>HuffBuild\<close>, \<open>LzhCode\<close>, \<open>Lzh\<close> (\<open>src/zupt_lzh.c\<close>): the two codecs of the
    archive: match finder, lazy parser and capacity checks; bit streams, canonical prefix codes,
    the length-limited code construction, the block header and the decoder with its tables.
  \<^item> \<open>Sha256\<close>, \<open>Hmac\<close>, \<open>Aes\<close>, \<open>Aead\<close> (\<open>src/zupt_sha256.c\<close>, \<open>src/zupt_crypto.c\<close>, \<open>src/zupt_aes256.c\<close>):
    the streaming hash beside an independent definition of SHA-256 after FIPS 180-4, HMAC and
    PBKDF2, the block cipher and counter mode, and the encrypt-then-MAC packages with their
    additional data and key derivation.
  \<^item> \<open>Xxh64\<close> (\<open>src/zupt_xxh.c\<close>, \<open>src/vv_xxh64.c\<close>): the checksum in its three implementations.
  \<^item> \<open>Vv\<close> (\<open>src/vv_decoder.c\<close> from \<open>frame_max_offset\<close> to \<open>vv_decompress_flags\<close>,
    \<open>src/vaptvupt_api.c\<close>): the frame loop of the VaptVupt codec and its adapter with the read-back
    check. \<open>vvz_decompress\<close>, which the single thread uses, skips the checksum of a frame;
    \<open>vv_decompress\<close>, which the workers use, compares it.
  \<^item> \<open>Wire\<close>: the wire format of \<open>src/zupt_format.c\<close>: header, footer, block frames, trailer.
  \<^item> \<open>Paths\<close>: UTF-8 scanning, terminal-safe output and the confinement of entry names.
  \<^item> \<open>Dedup\<close> (\<open>src/zupt_dedup.c\<close>): the index of written blocks and the reference blocks.
  \<^item> \<open>Blocks\<close>: the content of a block: choice of codec, sealing, decoding, the sequence numbers that
    bind a block to its place, and the position map of old disk archives.
  \<^item> \<open>Index\<close>: the central index, the check of destinations, the input list.
  \<^item> \<open>Open\<close>, \<open>Extract\<close>, \<open>Compress\<close>, \<open>TestArchive\<close>: the four operations on a whole archive
    (\<open>zupt_open_archive\<close>, \<open>zupt_extract_archive\<close>, \<open>zupt_compress_files\<close>, \<open>zupt_test_archive_stream\<close>) on
    one thread; \<open>Archive\<close> proves that they fit together. \<open>Solid\<close> is the writer of solid archives
    (\<open>zupt_compress_solid\<close>), which extract up to a total of 4 GiB and not beyond.
  \<^item> \<open>Disk\<close> (\<open>src/zupt_disk.c\<close>): whole-disk backup and restore: label, blocks, archive, the restore target,
    and the restore with its preflight.
  \<^item> \<open>Parallel\<close> (\<open>src/zupt_parallel.c\<close>, \<open>zupt_parallel.h\<close>, \<open>zupt_thread.h\<close>) and \<open>Batch\<close>: the worker pool as a
    step relation, and its two clients, multi-threaded extraction and compression.

  \<^bold>\<open>How they interact.\<close> The writer cuts each input into chunks; a chunk is looked up in the index of
  written blocks (\<open>Dedup\<close>) and becomes a reference, or it is encoded by the first codec that makes it
  smaller, sealed under the keys with its preface and its position as additional data (\<open>Aead\<close>), and
  framed (\<open>Wire\<close>). Comment, index, footer and trailer follow. Opening goes the other way: footer from
  the end, header, trailer, keys, index; extraction then reads each entry's blocks, follows
  references, decodes, and publishes a file only when its length and chained checksum are those of
  the index. A pool of workers may do the encoding and decoding; the main thread submits blocks and
  collects them in order.

  \<^bold>\<open>Representation.\<close> A buffer with its length is a list of bytes, a file the list of its bytes with
  positions as natural numbers, \<open>size_t\<close> a natural number with the bound stated where the code could
  wrap, and \<open>uintN_t\<close> a word of that width. C structs are records, result codes the datatype
  \<open>zupt_error_t\<close>, and a function that fails returns \<open>Inl\<close> of its code or \<open>None\<close>. Whether an allocation
  succeeds is an argument, so that the paths without memory are branches of the model.

  \<^bold>\<open>Parameters.\<close> Code outside the repository, and the inside of the large vendored codec, is an
  argument. Of the VaptVupt codec these are the decoders of compressed and entropy-coded payloads
  (\<open>vv_block_decoders\<close>) and the encoder (\<open>vv_engine\<close>), and nothing is assumed of either: what
  \<open>vvz_compress\<close> returns decodes to its input because it decodes it itself (\<open>vvz_compress_decodes\<close>).
  The round trips cover this codec like the others and require that the reader has the same
  payload decoders as that check (\<open>own_decoder\<close>, \<open>codecs_ok\<close>); the multi-threaded writer requires that
  a larger buffer does not change the encoder's output (\<open>vv_stable\<close>). Every round trip with an LZH
  codec requires that the allocations inside its code construction succeed (\<open>codec_mem\<close>), because
  the code writes blocks that do not decode when they fail. Further arguments are the key
  encapsulation behind the hybrid headers (\<open>we_wrap\<close>, \<open>unwrap_keys\<close>), the clock and the random bytes,
  the outcome of the floating-point benefit estimate (\<open>ce_benefit\<close>), and the file system (whether an
  output can be created, written and published; what opening a restore target tells). The
  restore theorem about arbitrary archives assumes that a key encapsulation does not depend on
  the keyring it replaces (\<open>unwrap_settled\<close>). No theorem assumes anything of SHA-256 or AES beyond
  what is proved; where deduplication relies on two different chunks not sharing checksum and
  truncated digest, that is the named hypothesis \<open>no_collision\<close> about the chunks at hand.

  \<^bold>\<open>What the lemmas show.\<close>
  \<^item> Round trips at every layer (varint, predictor, filters, LZ, LZH, package, frame, index,
    reference, archive): what was written is read back, with the bounds under which the writer
    succeeds. The layers are locales (\<open>stream_field\<close>, \<open>block_codec\<close>, \<open>reversible_filter\<close>, \<open>stream_hash\<close>,
    \<open>authenticated_encryption\<close>, \<open>content_index\<close>), each interpreted on the code's own definitions.
  \<^item> Parsers are exact: a frame, an index, a trailer or a reference is accepted precisely when it is
    the serial form of a well-formed value, with the error code of every other case.
  \<^item> Safety of reading: what is published has a confined path, the indexed length and the indexed
    checksum; under keys nothing without a valid MAC is decoded, and in archives that bind prefaces and
    positions, as this writer's encrypted archives do, blocks cannot change places.
  \<^item> Equivalence: streaming and one-shot hashes, testing and extracting, optimised and reference
    forms, and one thread and many.
  \<^item> The worker pool: an invariant over all slots gives determinism under every interleaving
    (\<open>zpar_client.pool_correct\<close>); a rank over items, slots and phase gives termination; and the same
    model shows the batches that never end.

  \<^bold>\<open>Loops, fuel and bounds.\<close> Loops are structural recursions or have a proved measure; the recursion of
  the C code over the code tree (\<open>tree_depths\<close>) takes the number of symbols as fuel, which is proved
  to be enough because a tree over that many leaves is less deep; the chain limits of the match
  finders are limits of the code itself. A step of the pool is one
  critical section of its mutex, one access of the error flag, or work on a slot its worker owns; a
  condition wait is a step enabled when its condition holds. The pool theorems are for 1 to 64
  threads that all started and, for extraction, for every later file of a pool that has not failed
  (\<open>ready_pool\<close>); for more threads, or blocks without numbers of their own, there are theorems that
  the batch never ends.

  \<^bold>\<open>Not modelled.\<close> The Windows passes over file names and directory walking of \<open>src/zupt_format.c\<close>;
  the size queries, private snapshot and target classification calls of \<open>src/zupt_disk.c\<close>; the key
  encapsulations (\<open>src/zupt_mlkem.c\<close>, \<open>src/zupt_keccak.c\<close>, \<open>src/zupt_x25519.c\<close>) and key files; the payload
  decoders, the encoder and the streaming decoder of the VaptVupt codec (\<open>src/vv_*.c\<close> other than the
  filters, the checksum and the frame layer); the argument checks and callbacks of the public interface (\<open>src/zuptsdk.c\<close>); hardware paths,
  assembly, locked memory and wiping, which have no functional effect; bindings, tests and tools.
  Timing is not modelled anywhere.
\<close>

end
